(* ===== verification/Runtime_Prelude.thy ===== *)
theory Runtime_Prelude
  imports Main "HOL-Library.AList" "HOL-Library.Word" "HOL-Library.Multiset"
    "HOL-Library.Product_Lexorder"
begin

text \<open>
  Shared vocabulary of the development: the runtime's error type, the representation of the
  standard library's hash maps and ordered maps, saturating and checked machine arithmetic, and
  the lemma collections that the component theories extend.

  A \<open>HashMap<K, V>\<close> is an association list with distinct keys (\<open>map_of\<close> reads it,
  \<open>AList.update\<close> is \<open>insert\<close>, \<open>AList.delete\<close> is \<open>remove\<close>, \<open>length\<close> is
  \<open>len\<close>); the order of the list is never observed by the code. A \<open>BTreeMap<K, V>\<close> is an
  association list with strictly increasing keys. \<open>Instant\<close> and \<open>Duration\<close> are natural
  numbers of clock ticks.
\<close>

section \<open>Errors\<close>

text \<open>\<open>RuntimeError\<close> of \<open>src/runtime/environment/mod.rs\<close>, one constructor per variant.\<close>

datatype runtime_error =
    TaskPoolNotFound string
  | PriorityTaskPoolNotFound string
  | ConsumerAlreadySet string
  | SourceAlreadySet string
  | ConsumerNotSet string
  | DuplicateResource string
  | ResourceAlreadyStarted string
  | ResourceStopped string
  | ContextCancelled
  | DuplicateKey
  | InvalidConfiguration string
  | Transport string
  | Metrics string

type_synonym 'a runtime_result = "runtime_error + 'a"

type_synonym instant = nat
type_synonym duration = nat

section \<open>Lemma collections\<close>

named_theorems map_laws \<open>rewrite rules of hash maps and ordered maps\<close>
named_theorems inv_intros \<open>introduction rules of the component invariants\<close>

section \<open>Hash maps\<close>

abbreviation hm_wf :: "('k \<times> 'v) list \<Rightarrow> bool" where
  "hm_wf m \<equiv> distinct (map fst m)"

abbreviation hm_insert :: "'k \<Rightarrow> 'v \<Rightarrow> ('k \<times> 'v) list \<Rightarrow> ('k \<times> 'v) list" where
  "hm_insert \<equiv> AList.update"

abbreviation hm_remove :: "'k \<Rightarrow> ('k \<times> 'v) list \<Rightarrow> ('k \<times> 'v) list" where
  "hm_remove \<equiv> AList.delete"

lemma hm_get_insert [map_laws, simp]: "map_of (hm_insert k v m) = (map_of m)(k \<mapsto> v)"
  by (rule update_conv')

lemma hm_get_remove [map_laws, simp]: "map_of (hm_remove k m) = (map_of m)(k := None)"
  by (rule delete_conv')

lemma hm_wf_insert [intro]: "hm_wf m \<Longrightarrow> hm_wf (hm_insert k v m)"
  by (rule distinct_update)

lemma hm_wf_remove [intro]: "hm_wf m \<Longrightarrow> hm_wf (hm_remove k m)"
  by (rule distinct_delete)

lemma hm_remove_subset: "set (hm_remove k m) \<subseteq> set m"
  by (auto simp: AList.delete_eq)

lemma hm_len_remove_absent: "map_of m k = None \<Longrightarrow> hm_remove k m = m"
  by (simp add: map_of_eq_None_iff)

lemma hm_len_remove [map_laws]:
  "hm_wf m \<Longrightarrow> map_of m k = Some v \<Longrightarrow> length m = Suc (length (hm_remove k m))"
  by (induction m) (auto split: if_splits)

lemma hm_len_insert_new [map_laws]:
  "map_of m k = None \<Longrightarrow> length (hm_insert k v m) = Suc (length m)"
  by (induction m) (auto split: if_splits)

lemma hm_len_insert_old [map_laws]:
  "map_of m k = Some w \<Longrightarrow> length (hm_insert k v m) = length m"
  by (induction m) (auto split: if_splits)

lemma hm_insert_new_append: "map_of m k = None \<Longrightarrow> hm_insert k v m = m @ [(k, v)]"
  by (induction m) (auto split: if_splits)

lemma hm_set_remove: "set (hm_remove k m) = set m - {k} \<times> UNIV"
  by (auto simp: AList.delete_eq)

lemma hm_set_insert: "hm_wf m \<Longrightarrow> set (hm_insert k v m) = insert (k, v) (set m - {k} \<times> UNIV)"
  by (induction m) (auto simp: image_iff)

lemma hm_mem_iff: "hm_wf m \<Longrightarrow> map_of m k = Some v \<longleftrightarrow> (k, v) \<in> set m"
  by (rule map_of_eq_Some_iff)

lemma hm_keys_dom: "fst ` set m = dom (map_of m)"
  by (simp add: dom_map_of_conv_image_fst)

lemma hm_len_card: "hm_wf m \<Longrightarrow> length m = card (dom (map_of m))"
  by (metis distinct_card hm_keys_dom length_map list.set_map)

text \<open>
  As a conditional rewrite rule \<open>delete_id\<close> loops with equations between a map and the map
  with a key removed.
\<close>

declare delete_id [simp del]

section \<open>Ordered maps\<close>

fun bt_insert :: "'k::linorder \<Rightarrow> 'v \<Rightarrow> ('k \<times> 'v) list \<Rightarrow> ('k \<times> 'v) list" where
  "bt_insert k v [] = [(k, v)]"
| "bt_insert k v ((k', v') # m) =
     (if k < k' then (k, v) # (k', v') # m
      else if k = k' then (k, v) # m
      else (k', v') # bt_insert k v m)"

fun bt_pop_first :: "('k \<times> 'v) list \<Rightarrow> (('k \<times> 'v) \<times> ('k \<times> 'v) list) option" where
  "bt_pop_first [] = None"
| "bt_pop_first (kv # m) = Some (kv, m)"

abbreviation bt_wf :: "('k::linorder \<times> 'v) list \<Rightarrow> bool" where
  "bt_wf m \<equiv> sorted_wrt (<) (map fst m)"

lemma bt_get_insert [map_laws, simp]: "map_of (bt_insert k v m) = (map_of m)(k \<mapsto> v)"
  by (induction k v m rule: bt_insert.induct) (auto simp: fun_eq_iff)

lemma bt_keys_insert: "fst ` set (bt_insert k v m) = insert k (fst ` set m)"
  by (induction k v m rule: bt_insert.induct) (auto simp: image_iff)

lemma bt_wf_insert [intro]: "bt_wf m \<Longrightarrow> bt_wf (bt_insert k v m)"
proof (induction k v m rule: bt_insert.induct)
  case (2 k v k' v' m)
  then show ?case
    using bt_keys_insert [of k v m] by (auto simp: image_iff)
qed simp

lemma bt_wf_remove [intro]: "bt_wf m \<Longrightarrow> bt_wf (hm_remove k m)"
  proof (induction m)
  case (Cons x m)
  then show ?case
    using hm_remove_subset [of k m] by auto
qed simp

lemma bt_wf_hm_wf: "bt_wf m \<Longrightarrow> hm_wf m"
  using strict_sorted_iff by blast

lemma bt_mset_insert_new:
  "map_of m k = None \<Longrightarrow> mset (bt_insert k v m) = mset m + {#(k, v)#}"
  by (induction k v m rule: bt_insert.induct) (auto split: if_splits)

lemma bt_set_insert_new: "map_of m k = None \<Longrightarrow> set (bt_insert k v m) = insert (k, v) (set m)"
  by (drule bt_mset_insert_new [where v = v], drule arg_cong [where f = set_mset]) simp

lemma bt_len_insert_new: "map_of m k = None \<Longrightarrow> length (bt_insert k v m) = Suc (length m)"
  by (induction k v m rule: bt_insert.induct) (auto split: if_splits)

lemma hm_mset_remove:
  "hm_wf m \<Longrightarrow> map_of m k = Some v \<Longrightarrow> mset m = mset (hm_remove k m) + {#(k, v)#}"
  by (induction m) (auto simp: delete_id split: if_splits)

section \<open>Machine integers\<close>

text \<open>
  \<open>usize\<close> values are natural numbers up to \<open>usize_max\<close> (64-bit targets); where the code uses
  checked or saturating operations they are written out.
\<close>

definition usize_max :: nat where "usize_max = 2 ^ 64 - 1"
definition isize_max :: nat where "isize_max = 2 ^ 63 - 1"

definition saturating_mul :: "nat \<Rightarrow> nat \<Rightarrow> nat" where
  "saturating_mul a b = min (a * b) usize_max"

definition checked_mul :: "nat \<Rightarrow> nat \<Rightarrow> nat option" where
  "checked_mul a b = (if a * b \<le> usize_max then Some (a * b) else None)"

definition checked_add :: "nat \<Rightarrow> nat \<Rightarrow> nat option" where
  "checked_add a b = (if a + b \<le> usize_max then Some (a + b) else None)"

text \<open>A comparison after saturation decides as exact arithmetic for bounds a \<open>usize\<close> can hold.\<close>

lemma saturating_mul_less: "h \<le> usize_max \<Longrightarrow> saturating_mul a b < h \<longleftrightarrow> a * b < h"
  by (auto simp: saturating_mul_def)

section \<open>Decimal numbers\<close>

text \<open>\<open>to_string\<close> of the unsigned and signed integer types.\<close>

fun to_decimal :: "nat \<Rightarrow> string" where
  "to_decimal n = (if n < 10 then [char_of (48 + n)] else to_decimal (n div 10) @ [char_of (48 + n mod 10)])"

declare to_decimal.simps [simp del]

definition int_to_string :: "int \<Rightarrow> string" where
  "int_to_string i = (if i < 0 then ''-'' @ to_decimal (nat (- i)) else to_decimal (nat i))"

lemma char_digit: "n < 10 \<Longrightarrow> (of_char (char_of (48 + n) :: char) :: nat) = 48 + n"
  by (simp add: of_char_of)

lemma decimal_chars: "c \<in> set (to_decimal n) \<Longrightarrow> 48 \<le> (of_char c :: nat) \<and> of_char c < (58 :: nat)"
proof (induction n rule: to_decimal.induct)
  case (1 n)
  then show ?case
    by (subst (asm) (2) to_decimal.simps) (auto simp: char_digit split: if_splits)
qed

section \<open>Options and lists\<close>

lemma map_of_Some_mem: "map_of m k = Some v \<Longrightarrow> (k, v) \<in> set m"
  by (rule map_of_SomeD)

lemma length_removeAll_distinct:
  assumes "distinct xs" and "x \<in> set xs"
  shows "length xs = Suc (length (removeAll x xs))"
proof -
  have "removeAll x xs = remove1 x xs"
    using assms(1) by (simp add: distinct_remove1_removeAll)
  then show ?thesis
    using assms(2) length_pos_if_in_set [OF assms(2)] by (simp add: length_remove1)
qed

lemma filter_mset_not_mem: "x \<notin># M \<Longrightarrow> filter_mset (\<lambda>y. y \<noteq> x) M = M"
  by (induction M) auto

lemma filter_update:
  "r < length xs \<Longrightarrow> length (filter P (xs[r := x])) + (if P (xs ! r) then 1 else 0) = length (filter P xs) + (if P x then 1 else 0)"
proof (induction xs arbitrary: r)
  case (Cons y xs)
  then show ?case by (cases r) auto
qed simp

lemma list_all_update: "list_all P xs \<Longrightarrow> P x \<Longrightarrow> list_all P (xs[n := x])"
  using set_update_subset_insert [of xs n x] by (fastforce simp: list_all_iff)

end
