(* ===== verification/Pending_Queue.thy ===== *)
theory Pending_Queue
  imports Runtime_Prelude
begin

text \<open>
  The pending-task queue of \<open>src/runtime/pool/queuedpool.rs\<close> (\<open>enum PendingQueue\<close>): a FIFO
  kept as a doubly linked list threaded through a hash map of task ids, and a priority queue kept
  as an ordered map with an id index. Every operation of the source is one definition; an
  \<open>unwrap\<close> on a missing key is the result \<open>None\<close> (a panic). The lemmas show that no
  operation panics, that the FIFO is exactly a list with \<open>push\<close> at the end, \<open>pop\<close> at the
  front and \<open>promote\<close> a move to the front, and that the priority queue pops the least
  (priority, id). The locale \<open>task_queue\<close> is the contract the pool's actor relies on.
\<close>

section \<open>Data\<close>

type_synonym task_id = nat

text \<open>\<open>BoxTask\<close> is opaque (\<open>'t\<close>); an \<open>AbortHandle\<close> is the number of its registration.\<close>

record 't entry =
  task :: 't
  cancellation :: nat

type_synonym key = "int \<times> task_id"

record 't fifo_entry =
  fentry :: "'t entry"
  previous :: "task_id option"
  next_id :: "task_id option"

datatype 't pending_queue =
    Fifo "(task_id \<times> 't fifo_entry) list" "task_id option" "task_id option"
  | Priority "(key \<times> 't entry) list" "(task_id \<times> key) list"

definition i32_min :: int where
  "i32_min = - (2 ^ 31)"

section \<open>Operations\<close>

definition pq_new :: "bool \<Rightarrow> 't pending_queue" where
  "pq_new priority = (if priority then Priority [] [] else Fifo [] None None)"

fun pq_len :: "'t pending_queue \<Rightarrow> nat" where
  "pq_len (Fifo entries _ _) = length entries"
| "pq_len (Priority entries _) = length entries"

definition pq_is_empty :: "'t pending_queue \<Rightarrow> bool" where
  "pq_is_empty q \<longleftrightarrow> pq_len q = 0"

text \<open>\<open>entries.get_mut(&id).unwrap()\<close> followed by an assignment to a field.\<close>

definition get_mut :: "task_id \<Rightarrow> ('t fifo_entry \<Rightarrow> 't fifo_entry) \<Rightarrow>
    (task_id \<times> 't fifo_entry) list \<Rightarrow> (task_id \<times> 't fifo_entry) list option" where
  "get_mut i f entries =
     (case map_of entries i of None \<Rightarrow> None | Some n \<Rightarrow> Some (hm_insert i (f n) entries))"

fun pq_push :: "task_id \<Rightarrow> int \<Rightarrow> 't entry \<Rightarrow> 't pending_queue \<Rightarrow> 't pending_queue option" where
  "pq_push i p e (Priority entries positions) =
     (let k = (p, i) in Some (Priority (bt_insert k e entries) (hm_insert i k positions)))"
| "pq_push i p e (Fifo entries head tail) =
     (case (case tail of
              Some pr \<Rightarrow> map_option (\<lambda>es. (es, head)) (get_mut pr (next_id_update (\<lambda>_. Some i)) entries)
            | None \<Rightarrow> Some (entries, Some i)) of
        None \<Rightarrow> None
      | Some (entries', head') \<Rightarrow>
          Some (Fifo (hm_insert i \<lparr>fentry = e, previous = tail, next_id = None\<rparr> entries')
                  head' (Some i)))"

fun pq_pop :: "'t pending_queue \<Rightarrow> ((task_id \<times> 't entry) option \<times> 't pending_queue) option" where
  "pq_pop (Priority entries positions) =
     (case bt_pop_first entries of
        None \<Rightarrow> Some (None, Priority entries positions)
      | Some (((_, i), e), entries') \<Rightarrow>
          Some (Some (i, e), Priority entries' (hm_remove i positions)))"
| "pq_pop (Fifo entries head tail) =
     (case head of
        None \<Rightarrow> Some (None, Fifo entries head tail)
      | Some i \<Rightarrow>
          (case map_of entries i of
             None \<Rightarrow> None
           | Some node \<Rightarrow>
               (let entries1 = hm_remove i entries in
                case next_id node of
                  Some n \<Rightarrow>
                    (case get_mut n (previous_update (\<lambda>_. None)) entries1 of
                       None \<Rightarrow> None
                     | Some entries2 \<Rightarrow>
                         Some (Some (i, fentry node), Fifo entries2 (next_id node) tail))
                | None \<Rightarrow> Some (Some (i, fentry node), Fifo entries1 (next_id node) None))))"

text \<open>The FIFO branch of \<open>promote\<close> after its two early returns.\<close>

definition fifo_unlink :: "task_id \<Rightarrow> 't fifo_entry \<Rightarrow> (task_id \<times> 't fifo_entry) list \<Rightarrow>
    task_id option \<Rightarrow> ((task_id \<times> 't fifo_entry) list \<times> task_id option) option" where
  "fifo_unlink i node entries tail =
     (case previous node of
        None \<Rightarrow> None
      | Some pr \<Rightarrow>
          (case get_mut pr (next_id_update (\<lambda>_. next_id node)) entries of
             None \<Rightarrow> None
           | Some entries1 \<Rightarrow>
               (case next_id node of
                  Some n \<Rightarrow>
                    map_option (\<lambda>es. (es, tail))
                      (get_mut n (previous_update (\<lambda>_. previous node)) entries1)
                | None \<Rightarrow> Some (entries1, previous node))))"

definition fifo_link_front :: "task_id \<Rightarrow> (task_id \<times> 't fifo_entry) list \<Rightarrow>
    task_id option \<Rightarrow> (task_id \<times> 't fifo_entry) list option" where
  "fifo_link_front i entries head =
     (case head of
        None \<Rightarrow> None
      | Some h \<Rightarrow>
          (case get_mut h (previous_update (\<lambda>_. Some i)) entries of
             None \<Rightarrow> None
           | Some entries1 \<Rightarrow>
               get_mut i (\<lambda>n. n\<lparr>previous := None, next_id := head\<rparr>) entries1))"

fun pq_promote :: "task_id \<Rightarrow> 't pending_queue \<Rightarrow> (bool \<times> 't pending_queue) option" where
  "pq_promote i (Priority entries positions) =
     (case map_of positions i of
        None \<Rightarrow> Some (False, Priority entries positions)
      | Some k \<Rightarrow>
          (case map_of entries k of
             None \<Rightarrow> None
           | Some e \<Rightarrow>
               (let k' = (i32_min, snd k) in
                Some (True, Priority (bt_insert k' e (hm_remove k entries))
                              (hm_insert i k' positions)))))"
| "pq_promote i (Fifo entries head tail) =
     (if head = Some i then Some (False, Fifo entries head tail)
      else case map_of entries i of
        None \<Rightarrow> Some (False, Fifo entries head tail)
      | Some node \<Rightarrow>
          (case fifo_unlink i node entries tail of
             None \<Rightarrow> None
           | Some (entries1, tail1) \<Rightarrow>
               (case fifo_link_front i entries1 head of
                  None \<Rightarrow> None
                | Some entries2 \<Rightarrow> Some (True, Fifo entries2 (Some i) tail1))))"

section \<open>The list a FIFO represents\<close>

fun first_or :: "(task_id \<times> 'b) list \<Rightarrow> task_id option \<Rightarrow> task_id option" where
  "first_or [] n = n"
| "first_or ((i, _) # _) n = Some i"

fun last_or :: "(task_id \<times> 'b) list \<Rightarrow> task_id option \<Rightarrow> task_id option" where
  "last_or [] p = p"
| "last_or ((i, _) # xs) p = last_or xs (Some i)"

text \<open>\<open>seg m p xs n\<close>: the nodes of \<open>xs\<close> are linked in order in \<open>m\<close>, between \<open>p\<close> and \<open>n\<close>.\<close>

fun seg :: "(task_id \<rightharpoonup> 't fifo_entry) \<Rightarrow> task_id option \<Rightarrow> (task_id \<times> 't entry) list \<Rightarrow>
    task_id option \<Rightarrow> bool" where
  "seg m p [] n = True"
| "seg m p ((i, e) # xs) n =
     (m i = Some \<lparr>fentry = e, previous = p, next_id = first_or xs n\<rparr> \<and> seg m (Some i) xs n)"

definition fifo_rep :: "(task_id \<times> 't fifo_entry) list \<Rightarrow> task_id option \<Rightarrow> task_id option \<Rightarrow>
    (task_id \<times> 't entry) list \<Rightarrow> bool" where
  "fifo_rep entries head tail xs \<longleftrightarrow>
     hm_wf entries \<and> length entries = length xs \<and> hm_wf xs \<and>
     head = first_or xs None \<and> tail = last_or xs None \<and> seg (map_of entries) None xs None"

text \<open>The list read off by following \<open>next\<close> from the head.\<close>

fun walk :: "(task_id \<rightharpoonup> 't fifo_entry) \<Rightarrow> task_id option \<Rightarrow> nat \<Rightarrow> (task_id \<times> 't entry) list" where
  "walk m None fuel = []"
| "walk m (Some i) 0 = []"
| "walk m (Some i) (Suc fuel) =
     (case m i of None \<Rightarrow> [] | Some n \<Rightarrow> (i, fentry n) # walk m (next_id n) fuel)"

fun contents :: "'t pending_queue \<Rightarrow> (task_id \<times> 't entry) list" where
  "contents (Fifo entries head tail) = walk (map_of entries) head (length entries)"
| "contents (Priority entries positions) = map (\<lambda>((p, i), e). (i, e)) entries"

definition priority_rep :: "(key \<times> 't entry) list \<Rightarrow> (task_id \<times> key) list \<Rightarrow> bool" where
  "priority_rep entries positions \<longleftrightarrow>
     bt_wf entries \<and> hm_wf positions \<and> distinct (map (snd \<circ> fst) entries) \<and>
     set positions = (\<lambda>(k, _). (snd k, k)) ` set entries"

fun pq_inv :: "'t pending_queue \<Rightarrow> bool" where
  "pq_inv (Fifo entries head tail) =
     fifo_rep entries head tail (walk (map_of entries) head (length entries))"
| "pq_inv (Priority entries positions) = priority_rep entries positions"

section \<open>Linked segments\<close>

lemma last_or_append [simp]: "last_or (xs @ ys) p = last_or ys (last_or xs p)"
  by (induction xs p rule: last_or.induct) auto

lemma first_or_append [simp]: "first_or (xs @ ys) n = first_or xs (first_or ys n)"
  by (cases xs) auto

lemma last_or_Some: "xs \<noteq> [] \<Longrightarrow> last_or xs p = Some (fst (last xs))"
  by (induction xs p rule: last_or.induct) auto

lemma seg_append [simp]:
  "seg m p (xs @ ys) n \<longleftrightarrow> seg m p xs (first_or ys n) \<and> seg m (last_or xs p) ys n"
  by (induction m p xs n rule: seg.induct) auto

lemma seg_frame [simp]: "i \<notin> fst ` set xs \<Longrightarrow> seg (m(i := v)) p xs n = seg m p xs n"
  by (induction m p xs n rule: seg.induct) auto

lemma seg_lookup: "seg m p xs n \<Longrightarrow> (i, e) \<in> set xs \<Longrightarrow> \<exists>x. m i = Some x \<and> fentry x = e"
  by (induction m p xs n rule: seg.induct) auto

lemma seg_walk:
  "seg m p xs None \<Longrightarrow> length xs \<le> fuel \<Longrightarrow> walk m (first_or xs None) fuel = xs"
proof (induction m p xs "None :: task_id option" arbitrary: fuel rule: seg.induct)
  case (2 m p i e xs)
  then obtain f where "fuel = Suc f" by (cases fuel) auto
  with 2 show ?case by simp
qed simp

lemma fifo_rep_walk: "fifo_rep entries head tail xs \<Longrightarrow>
    walk (map_of entries) head (length entries) = xs"
  by (auto simp: fifo_rep_def seg_walk)

lemma pq_inv_fifo [simp]: "pq_inv (Fifo entries head tail) \<longleftrightarrow> (\<exists>xs. fifo_rep entries head tail xs)"
  using fifo_rep_walk by fastforce

declare pq_inv.simps(1) [simp del]

lemma fifo_inv_contents:
  "fifo_rep entries head tail xs \<Longrightarrow> pq_inv (Fifo entries head tail) \<and> contents (Fifo entries head tail) = xs"
  by (auto simp: fifo_rep_walk)

lemma fifo_inv_rep: "pq_inv (Fifo entries head tail) \<Longrightarrow> fifo_rep entries head tail (contents (Fifo entries head tail))"
  by (simp add: pq_inv.simps(1) del: pq_inv_fifo)

lemma fifo_rep_dom: "fifo_rep entries head tail xs \<Longrightarrow> fst ` set xs = dom (map_of entries)"
proof -
  assume r: "fifo_rep entries head tail xs"
  then have sub: "fst ` set xs \<subseteq> dom (map_of entries)"
    by (auto simp: fifo_rep_def dest!: seg_lookup)
  have "card (fst ` set xs) = card (dom (map_of entries))"
    using r hm_len_card [of entries] distinct_card [of "map fst xs"] by (simp add: fifo_rep_def)
  with sub show ?thesis by (simp add: card_subset_eq finite_dom_map_of)
qed

lemma fifo_rep_absent: "fifo_rep entries head tail xs \<Longrightarrow>
    map_of entries i = None \<longleftrightarrow> i \<notin> fst ` set xs"
  using fifo_rep_dom by (metis domIff)


section \<open>The FIFO is a list\<close>

lemma get_mut_simps [simp]:
  "map_of entries i = None \<Longrightarrow> get_mut i f entries = None"
  "map_of entries i = Some x \<Longrightarrow> get_mut i f entries = Some (hm_insert i (f x) entries)"
  by (simp_all add: get_mut_def)

lemma fifo_push_rep:
  assumes r: "fifo_rep entries head tail xs" and fresh: "i \<notin> fst ` set xs"
  shows "\<exists>es h. pq_push i p e (Fifo entries head tail) = Some (Fifo es h (Some i)) \<and>
           fifo_rep es h (Some i) (xs @ [(i, e)])"
proof (cases xs rule: rev_cases)
  case Nil
  with r show ?thesis by (auto simp: fifo_rep_def)
next
  case (snoc ys y)
  obtain j ej where y: "y = (j, ej)" by (cases y)
  from r snoc y have j: "map_of entries j = Some \<lparr>fentry = ej, previous = last_or ys None, next_id = None\<rparr>"
    and tail: "tail = Some j" and wf: "hm_wf entries"
    by (auto simp: fifo_rep_def)
  have i: "map_of entries i = None" and ij: "i \<noteq> j"
    using fresh fifo_rep_absent [OF r] snoc y by auto
  let ?es = "hm_insert i \<lparr>fentry = e, previous = tail, next_id = None\<rparr>
               (hm_insert j \<lparr>fentry = ej, previous = last_or ys None, next_id = Some i\<rparr> entries)"
  have "length ?es = Suc (length entries)"
    using i ij j by (simp add: hm_len_insert_new hm_len_insert_old)
  then have "fifo_rep ?es head (Some i) (xs @ [(i, e)])"
    using r fresh snoc y ij tail by (auto simp: fifo_rep_def hm_wf_insert)
  moreover have "pq_push i p e (Fifo entries head tail) = Some (Fifo ?es head (Some i))"
    using tail j by simp
  ultimately show ?thesis by blast
qed

lemma fifo_pop_rep:
  assumes r: "fifo_rep entries head tail ((i, e) # xs)"
  shows "\<exists>es h t. pq_pop (Fifo entries head tail) = Some (Some (i, e), Fifo es h t) \<and>
           fifo_rep es h t xs"
proof -
  from r have i: "map_of entries i = Some \<lparr>fentry = e, previous = None, next_id = first_or xs None\<rparr>"
    and wf: "hm_wf entries" and ixs: "i \<notin> fst ` set xs"
    and sg: "seg (map_of entries) (Some i) xs None" and dx: "hm_wf xs"
    by (auto simp: fifo_rep_def)
  from r i wf have len: "length (hm_remove i entries) = length xs"
    using hm_len_remove [OF wf i] by (simp add: fifo_rep_def)
  show ?thesis
  proof (cases xs)
    case Nil
    with r i len wf show ?thesis by (auto simp: fifo_rep_def hm_wf_remove)
  next
    case (Cons y ys)
    obtain j ej where y: "y = (j, ej)" by (cases y)
    from sg Cons y have j: "map_of entries j = Some \<lparr>fentry = ej, previous = Some i, next_id = first_or ys None\<rparr>"
      and sgy: "seg (map_of entries) (Some j) ys None" by auto
    let ?es = "hm_insert j \<lparr>fentry = ej, previous = None, next_id = first_or ys None\<rparr> (hm_remove i entries)"
    from ixs Cons y have ij: "i \<noteq> j" and iys: "i \<notin> fst ` set ys" by auto
    with j have "map_of (hm_remove i entries) j = map_of entries j" by simp
    with j len have "length ?es = length xs" by (simp add: hm_len_insert_old)
    then have "fifo_rep ?es (Some j) tail xs"
      using r wf dx Cons y ij iys sgy by (auto simp: fifo_rep_def hm_wf_insert hm_wf_remove)
    moreover have "pq_pop (Fifo entries head tail) = Some (Some (i, e), Fifo ?es (Some j) tail)"
      using r i j ij Cons y by (simp add: fifo_rep_def)
    ultimately show ?thesis by blast
  qed
qed

text \<open>Unlinking an inner node and linking it in front: the two halves of \<open>promote\<close>.\<close>

lemma fifo_unlink_seg:
  assumes sg: "seg (map_of entries) None (as @ [(pr, ep), (i, e)] @ bs) None"
    and d: "distinct (map fst (as @ [(pr, ep), (i, e)] @ bs))" and wf: "hm_wf entries"
    and tail: "tail = last_or (as @ [(pr, ep), (i, e)] @ bs) None"
    and node: "map_of entries i = Some node"
  shows "\<exists>es. fifo_unlink i node entries tail = Some (es, last_or (as @ [(pr, ep)] @ bs) None) \<and>
           hm_wf es \<and> length es = length entries \<and> map_of es i = Some node \<and>
           seg (map_of es) None (as @ [(pr, ep)] @ bs) None"
proof -
  from sg node have nd: "node = \<lparr>fentry = e, previous = Some pr, next_id = first_or bs None\<rparr>"
    and pr: "map_of entries pr = Some \<lparr>fentry = ep, previous = last_or as None, next_id = Some i\<rparr>"
    by auto
  let ?e1 = "hm_insert pr \<lparr>fentry = ep, previous = last_or as None, next_id = first_or bs None\<rparr> entries"
  have l1: "length ?e1 = length entries" using pr by (simp add: hm_len_insert_old)
  show ?thesis
  proof (cases bs)
    case Nil
    with sg d wf tail nd pr l1 node show ?thesis
      by (auto simp: fifo_unlink_def hm_wf_insert)
  next
    case (Cons y ys)
    obtain n en where y: "y = (n, en)" by (cases y)
    from sg Cons y have n: "map_of entries n = Some \<lparr>fentry = en, previous = Some i, next_id = first_or ys None\<rparr>"
      by auto
    from d Cons y have ne: "n \<noteq> pr" "n \<noteq> i" "pr \<noteq> i" by auto
    let ?e2 = "hm_insert n \<lparr>fentry = en, previous = Some pr, next_id = first_or ys None\<rparr> ?e1"
    have "map_of ?e1 n = Some \<lparr>fentry = en, previous = Some i, next_id = first_or ys None\<rparr>"
      using n ne by simp
    then have l2: "length ?e2 = length entries" using l1 hm_len_insert_old by metis
    have "seg (map_of ?e2) None (as @ [(pr, ep)] @ bs) None"
      using sg d Cons y ne by auto
    moreover have "fifo_unlink i node entries tail = Some (?e2, tail)"
      using nd pr n ne Cons y by (simp add: fifo_unlink_def)
    ultimately show ?thesis
      using l2 wf ne node tail Cons y by (auto simp: hm_wf_insert)
  qed
qed

lemma fifo_link_front_seg:
  assumes sg: "seg (map_of entries) None ((h, eh) # xs) None"
    and d: "distinct (i # map fst ((h, eh) # xs))" and wf: "hm_wf entries"
    and node: "map_of entries i = Some \<lparr>fentry = e, previous = pp, next_id = nn\<rparr>"
  shows "\<exists>es. fifo_link_front i entries (Some h) = Some es \<and> hm_wf es \<and> length es = length entries \<and>
           seg (map_of es) None ((i, e) # (h, eh) # xs) None"
proof -
  from sg have h: "map_of entries h = Some \<lparr>fentry = eh, previous = None, next_id = first_or xs None\<rparr>"
    by simp
  from d have ne: "i \<noteq> h" by auto
  let ?e1 = "hm_insert h \<lparr>fentry = eh, previous = Some i, next_id = first_or xs None\<rparr> entries"
  let ?e2 = "hm_insert i \<lparr>fentry = e, previous = None, next_id = Some h\<rparr> ?e1"
  have n1: "map_of ?e1 i = Some \<lparr>fentry = e, previous = pp, next_id = nn\<rparr>"
    using node ne by simp
  then have "length ?e2 = length entries"
    using h hm_len_insert_old by metis
  moreover have "fifo_link_front i entries (Some h) = Some ?e2"
    using h n1 by (simp add: fifo_link_front_def)
  moreover have "seg (map_of ?e2) None ((i, e) # (h, eh) # xs) None"
    using sg d ne by auto
  ultimately show ?thesis using wf by (auto simp: hm_wf_insert)
qed

lemma fifo_promote_rep:
  assumes r: "fifo_rep entries head tail (as @ (i, e) # bs)" and ne: "as \<noteq> []"
  shows "\<exists>es h t. pq_promote i (Fifo entries head tail) = Some (True, Fifo es h t) \<and>
           fifo_rep es h t ((i, e) # as @ bs)"
proof -
  obtain as' pr ep where as: "as = as' @ [(pr, ep)]"
    using ne by (metis prod.exhaust rev_exhaust)
  let ?ys = "as' @ [(pr, ep), (i, e)] @ bs"
  let ?zs = "as' @ [(pr, ep)] @ bs"
  obtain h eh zs where zs: "?zs = (h, eh) # zs"
    by (cases "?zs") auto
  have sg: "seg (map_of entries) None ?ys None" and d: "distinct (map fst ?ys)"
    and wf: "hm_wf entries" and tail: "tail = last_or ?ys None" and head: "head = first_or ?ys None"
    and len: "length entries = length ?ys"
    using r as by (auto simp: fifo_rep_def)
  from sg have node: "map_of entries i = Some \<lparr>fentry = e, previous = Some pr, next_id = first_or bs None\<rparr>"
    by auto
  from zs head have hd: "head = Some h" by (cases as') auto
  from fifo_unlink_seg [OF sg d wf tail node] obtain es where
    u: "fifo_unlink i \<lparr>fentry = e, previous = Some pr, next_id = first_or bs None\<rparr> entries tail
          = Some (es, last_or ?zs None)"
    and es: "hm_wf es" "length es = length entries"
      "map_of es i = Some \<lparr>fentry = e, previous = Some pr, next_id = first_or bs None\<rparr>"
      "seg (map_of es) None ?zs None"
    by blast
  have di: "distinct (i # map fst ?zs)" using d by auto
  from fifo_link_front_seg [OF es(4) [unfolded zs] di [unfolded zs] es(1,3)] obtain es' where
    l: "fifo_link_front i es (Some h) = Some es'"
    and es': "hm_wf es'" "length es' = length es" "seg (map_of es') None ((i, e) # ?zs) None"
    unfolding zs by blast
  have hi: "head \<noteq> Some i" using di hd unfolding zs by auto
  have "pq_promote i (Fifo entries head tail) = Some (True, Fifo es' (Some i) (last_or ?zs None))"
    using hi node u l hd by simp
  moreover have "fifo_rep es' (Some i) (last_or ?zs None) ((i, e) # ?zs)"
    using es' es(2) len di as by (auto simp: fifo_rep_def)
  ultimately show ?thesis using as by auto
qed

lemma fifo_promote_noop:
  assumes r: "fifo_rep entries head tail xs" and "i \<notin> fst ` set (tl xs)"
  shows "pq_promote i (Fifo entries head tail) = Some (False, Fifo entries head tail)"
proof (cases "first_or xs None = Some i")
  case True
  with r show ?thesis by (simp add: fifo_rep_def)
next
  case False
  with assms(2) have "i \<notin> fst ` set xs" by (cases xs) auto
  with fifo_rep_absent [OF r] have "map_of entries i = None" by simp
  with False r show ?thesis by (simp add: fifo_rep_def)
qed


section \<open>The priority queue is an ordered map\<close>

lemma priority_rep_ids: "priority_rep entries positions \<Longrightarrow>
    map_of positions i = None \<longleftrightarrow> i \<notin> (snd \<circ> fst) ` set entries"
  by (simp add: priority_rep_def map_of_eq_None_iff image_image split_def comp_def)

lemma priority_rep_lookup:
  assumes r: "priority_rep entries positions" and l: "map_of positions i = Some k"
  shows "snd k = i" and "\<exists>e. map_of entries k = Some e \<and> (k, e) \<in> set entries"
proof -
  from l have "(i, k) \<in> set positions" by (rule map_of_SomeD)
  with r obtain e where e: "(k, e) \<in> set entries" and "snd k = i"
    by (auto simp: priority_rep_def)
  then show "snd k = i" by simp
  from e r have "map_of entries k = Some e"
    by (simp add: priority_rep_def bt_wf_hm_wf)
  with e show "\<exists>e. map_of entries k = Some e \<and> (k, e) \<in> set entries" by blast
qed

lemma priority_push_rep:
  assumes r: "priority_rep entries positions" and fresh: "i \<notin> (snd \<circ> fst) ` set entries"
  shows "priority_rep (bt_insert (p, i) e entries) (hm_insert i (p, i) positions)"
    and "mset (bt_insert (p, i) e entries) = mset entries + {#((p, i), e)#}"
proof -
  have ent: "map_of entries (p, i) = None"
    using fresh by (force simp: map_of_eq_None_iff image_iff)
  show m: "mset (bt_insert (p, i) e entries) = mset entries + {#((p, i), e)#}"
    by (rule bt_mset_insert_new [OF ent])
  then have "mset (map (snd \<circ> fst) (bt_insert (p, i) e entries)) = mset (i # map (snd \<circ> fst) entries)"
    by simp
  then have "distinct (map (snd \<circ> fst) (bt_insert (p, i) e entries)) =
      distinct (i # map (snd \<circ> fst) entries)"
    by (rule mset_eq_imp_distinct_iff)
  moreover have "map_of positions i = None"
    using fresh priority_rep_ids [OF r] by simp
  ultimately show "priority_rep (bt_insert (p, i) e entries) (hm_insert i (p, i) positions)"
    using r fresh by (auto simp: priority_rep_def hm_insert_new_append bt_set_insert_new [OF ent]
        map_of_eq_None_iff)
qed

lemma index_remove:
  assumes "i \<notin> (snd \<circ> fst) ` set entries"
  shows "insert (i, k) ((\<lambda>(k, _). (snd k, k)) ` set entries) - {i} \<times> UNIV =
           (\<lambda>(k, _). (snd k, k)) ` set entries"
  using assms by (auto simp: image_iff)

lemma priority_pop_rep:
  assumes r: "priority_rep (((p, i), e) # entries) positions"
  shows "priority_rep entries (hm_remove i positions)"
proof -
  from r have "set positions - {i} \<times> UNIV = (\<lambda>(k, _). (snd k, k)) ` set entries"
    using index_remove [of i entries "(p, i)"] by (simp add: priority_rep_def)
  with r show ?thesis
    by (auto simp only: priority_rep_def hm_set_remove hm_wf_remove list.map sorted_wrt.simps
        distinct.simps)
qed

lemma priority_remove_rep:
  assumes r: "priority_rep entries positions" and k: "map_of entries (p, i) = Some e"
  shows "priority_rep (hm_remove (p, i) entries) (hm_remove i positions)"
    and "mset entries = mset (hm_remove (p, i) entries) + {#((p, i), e)#}"
    and "i \<notin> (snd \<circ> fst) ` set (hm_remove (p, i) entries)"
proof -
  show m: "mset entries = mset (hm_remove (p, i) entries) + {#((p, i), e)#}"
    using r k by (intro hm_mset_remove) (auto simp: priority_rep_def bt_wf_hm_wf)
  then have "mset (map (snd \<circ> fst) entries) = mset (i # map (snd \<circ> fst) (hm_remove (p, i) entries))"
    by simp
  then have "distinct (map (snd \<circ> fst) entries) =
      distinct (i # map (snd \<circ> fst) (hm_remove (p, i) entries))"
    by (rule mset_eq_imp_distinct_iff)
  then have d: "distinct (i # map (snd \<circ> fst) (hm_remove (p, i) entries))"
    using r by (simp add: priority_rep_def)
  then show "i \<notin> (snd \<circ> fst) ` set (hm_remove (p, i) entries)" by simp
  have S: "set entries = insert ((p, i), e) (set (hm_remove (p, i) entries))"
    using arg_cong [OF m, of set_mset] by simp
  have "set positions = insert (i, (p, i)) ((\<lambda>(k, _). (snd k, k)) ` set (hm_remove (p, i) entries))"
    using r by (simp only: priority_rep_def S image_insert prod.case snd_conv)
  then have "set positions - {i} \<times> UNIV = (\<lambda>(k, _). (snd k, k)) ` set (hm_remove (p, i) entries)"
    using index_remove [of i "hm_remove (p, i) entries" "(p, i)"] d by (simp only: distinct.simps set_map) blast
  with r d show "priority_rep (hm_remove (p, i) entries) (hm_remove i positions)"
    by (simp only: priority_rep_def hm_set_remove hm_wf_remove bt_wf_remove distinct.simps list.map)
qed

lemma priority_promote_rep:
  assumes r: "priority_rep entries positions" and k: "map_of entries (p, i) = Some e"
  shows "priority_rep (bt_insert (i32_min, i) e (hm_remove (p, i) entries))
           (hm_insert i (i32_min, i) positions)"
proof -
  note rem = priority_remove_rep [OF r k]
  have "priority_rep (bt_insert (i32_min, i) e (hm_remove (p, i) entries))
           (hm_insert i (i32_min, i) (hm_remove i positions))"
    by (rule priority_push_rep [OF rem(1,3)])
  moreover have "set (hm_insert i (i32_min, i) (hm_remove i positions)) =
      set (hm_insert i (i32_min, i) positions)"
    using r by (auto simp: hm_set_insert hm_set_remove hm_wf_remove priority_rep_def)
  ultimately show ?thesis
    using r by (auto simp: priority_rep_def hm_wf_insert)
qed


section \<open>The contract the pool relies on\<close>

text \<open>
  A task queue holds each pending task once, loses none, and never panics. The order in which
  tasks leave it is its own business; the pool's actor only needs this contract.
\<close>

locale task_queue =
  fixes inv :: "'q \<Rightarrow> bool"
    and content :: "'q \<Rightarrow> (task_id \<times> 'e) list"
    and push :: "task_id \<Rightarrow> int \<Rightarrow> 'e \<Rightarrow> 'q \<Rightarrow> 'q option"
    and pop :: "'q \<Rightarrow> ((task_id \<times> 'e) option \<times> 'q) option"
    and promote :: "task_id \<Rightarrow> 'q \<Rightarrow> (bool \<times> 'q) option"
  assumes distinct_ids: "inv q \<Longrightarrow> distinct (map fst (content q))"
    and push_ok: "inv q \<Longrightarrow> i \<notin> fst ` set (content q) \<Longrightarrow>
      \<exists>q'. push i p e q = Some q' \<and> inv q' \<and> mset (content q') = add_mset (i, e) (mset (content q))"
    and pop_nil: "inv q \<Longrightarrow> content q = [] \<Longrightarrow> pop q = Some (None, q)"
    and pop_cons: "inv q \<Longrightarrow> content q = x # xs \<Longrightarrow>
      \<exists>q'. pop q = Some (Some x, q') \<and> inv q' \<and> content q' = xs"
    and promote_ok: "inv q \<Longrightarrow>
      \<exists>b q'. promote i q = Some (b, q') \<and> inv q' \<and> mset (content q') = mset (content q) \<and>
        (b \<longrightarrow> i \<in> fst ` set (content q))"
begin

lemma push_obtain:
  assumes "inv q" and "i \<notin> fst ` set (content q)"
  obtains q' where "push i p e q = Some q'" "inv q'"
    "mset (content q') = add_mset (i, e) (mset (content q))"
  using push_ok [OF assms] by blast

lemma push_ids:
  "inv q \<Longrightarrow> i \<notin> fst ` set (content q) \<Longrightarrow> push i p e q = Some q' \<Longrightarrow>
     fst ` set (content q') = insert i (fst ` set (content q))"
  using push_ok [of q i p e] by (metis (no_types, lifting) fst_conv image_insert option.inject
      set_mset_add_mset_insert set_mset_mset)

lemma promote_obtain:
  assumes "inv q"
  obtains b q' where "promote i q = Some (b, q')" "inv q'" "mset (content q') = mset (content q)"
    "b \<longrightarrow> i \<in> fst ` set (content q)"
  using promote_ok [OF assms] by blast

text \<open>Popping until empty returns the content, in order: nothing is lost and nothing repeats.\<close>

primrec pops :: "nat \<Rightarrow> 'q \<Rightarrow> ((task_id \<times> 'e) list \<times> 'q) option" where
  "pops 0 q = Some ([], q)"
| "pops (Suc n) q =
     (case pop q of
        None \<Rightarrow> None
      | Some (None, q') \<Rightarrow> Some ([], q')
      | Some (Some x, q') \<Rightarrow> map_option (\<lambda>(xs, q''). (x # xs, q'')) (pops n q'))"

lemma pops_take:
  "inv q \<Longrightarrow> n \<le> length (content q) \<Longrightarrow>
     \<exists>q'. pops n q = Some (take n (content q), q') \<and> inv q' \<and> content q' = drop n (content q)"
proof (induction n arbitrary: q)
  case (Suc n)
  then obtain x xs where c: "content q = x # xs" by (cases "content q") auto
  from pop_cons [OF Suc.prems(1) c] obtain q1 where
    q1: "pop q = Some (Some x, q1)" "inv q1" "content q1 = xs" by blast
  from Suc.prems c have "n \<le> length xs" by simp
  with Suc.IH [OF q1(2)] q1(3) obtain q2 where
    "pops n q1 = Some (take n xs, q2)" "inv q2" "content q2 = drop n xs" by auto
  with q1 c show ?case by simp
qed simp

end

lemma contents_ids_priority: "fst ` set (contents (Priority entries positions)) = (snd \<circ> fst) ` set entries"
  by (force simp: image_iff)

lemma priority_promote_key:
  assumes r: "priority_rep entries positions" and l: "map_of positions i = Some k"
  obtains p e where "k = (p, i)" "map_of entries (p, i) = Some e" "(i, e) \<in> set (contents (Priority entries positions))"
proof -
  obtain e where e: "map_of entries k = Some e" "(k, e) \<in> set entries"
    using priority_rep_lookup(2) [OF r l] by blast
  moreover obtain p where "k = (p, i)"
    using priority_rep_lookup(1) [OF r l] by (cases k) auto
  ultimately show ?thesis using that by force
qed

lemma pq_push_contract:
  assumes inv: "pq_inv q" and fresh: "i \<notin> fst ` set (contents q)"
  shows "\<exists>q'. pq_push i p e q = Some q' \<and> pq_inv q' \<and> mset (contents q') = add_mset (i, e) (mset (contents q))"
proof (cases q)
  case (Fifo es h t)
  with inv obtain xs where r: "fifo_rep es h t xs" by auto
  with fresh Fifo have "i \<notin> fst ` set xs" by (simp add: fifo_rep_walk)
  from fifo_push_rep [OF r this] obtain es' h' where
    "pq_push i p e q = Some (Fifo es' h' (Some i))" "fifo_rep es' h' (Some i) (xs @ [(i, e)])"
    using Fifo by blast
  with r Fifo show ?thesis by (auto simp: fifo_rep_walk)
next
  case (Priority es ps)
  with inv fresh have "priority_rep es ps" "i \<notin> (snd \<circ> fst) ` set es"
    using contents_ids_priority by (metis pq_inv.simps(2))+
  from priority_push_rep [OF this, of p e] Priority show ?thesis by (simp add: Let_def)
qed

lemma pq_pop_contract:
  assumes inv: "pq_inv q" and c: "contents q = x # xs"
  shows "\<exists>q'. pq_pop q = Some (Some x, q') \<and> pq_inv q' \<and> contents q' = xs"
proof (cases q)
  case (Fifo es h t)
  with inv c have "fifo_rep es h t (x # xs)" by (auto simp: fifo_rep_walk)
  with fifo_pop_rep [of es h t "fst x" "snd x" xs] Fifo show ?thesis
    by (auto simp: fifo_rep_walk)
next
  case (Priority es ps)
  with c obtain p i e es' where es: "es = ((p, i), e) # es'" "x = (i, e)" "xs = map (\<lambda>((p, i), e). (i, e)) es'"
    by (cases es) auto
  with inv Priority priority_pop_rep show ?thesis by auto
qed

lemma pq_pop_empty: "pq_inv q \<Longrightarrow> contents q = [] \<Longrightarrow> pq_pop q = Some (None, q)"
proof (cases q)
  case (Fifo es h t)
  moreover assume "pq_inv q" "contents q = []"
  ultimately have "fifo_rep es h t []" using fifo_inv_rep by metis
  with Fifo show ?thesis by (simp add: fifo_rep_def)
qed simp

lemma fifo_promote_cases:
  assumes r: "fifo_rep es h t xs"
  shows "i \<notin> fst ` set (tl xs) \<and> pq_promote i (Fifo es h t) = Some (False, Fifo es h t) \<or>
    (\<exists>as e bs es' h' t'. xs = as @ (i, e) # bs \<and> as \<noteq> [] \<and>
       pq_promote i (Fifo es h t) = Some (True, Fifo es' h' t') \<and> fifo_rep es' h' t' ((i, e) # as @ bs))"
proof (cases "i \<in> fst ` set (tl xs)")
  case True
  then obtain e where "(i, e) \<in> set (tl xs)" by force
  then obtain as bs where tl: "tl xs = as @ (i, e) # bs" by (meson split_list)
  then obtain x where "xs = (x # as) @ (i, e) # bs" by (cases xs) auto
  with fifo_promote_rep [of es h t "x # as" i e bs] r show ?thesis by blast
next
  case False
  with fifo_promote_noop [OF r] show ?thesis by blast
qed

lemma pq_promote_contract:
  assumes inv: "pq_inv q"
  shows "\<exists>b q'. pq_promote i q = Some (b, q') \<and> pq_inv q' \<and> mset (contents q') = mset (contents q) \<and>
    (b \<longrightarrow> i \<in> fst ` set (contents q))"
proof (cases q)
  case (Fifo es h t)
  with inv obtain xs where r: "fifo_rep es h t xs" by auto
  from fifo_promote_cases [OF r, of i] show ?thesis
    using Fifo inv r by (elim disjE exE conjE) (auto simp: fifo_rep_walk)
next
  case (Priority es ps)
  with inv have r: "priority_rep es ps" by simp
  show ?thesis
  proof (cases "map_of ps i")
    case None
    with Priority r show ?thesis by (intro exI [of _ False]) simp
  next
    case (Some k)
    from priority_promote_key [OF r Some] obtain p e where
      k: "k = (p, i)" "map_of es (p, i) = Some e" and mem: "(i, e) \<in> set (contents (Priority es ps))"
      by blast
    note rem = priority_remove_rep [OF r k(2)]
    let ?q = "Priority (bt_insert (i32_min, i) e (hm_remove (p, i) es)) (hm_insert i (i32_min, i) ps)"
    have ins: "mset (bt_insert (i32_min, i) e (hm_remove (p, i) es)) =
        mset (hm_remove (p, i) es) + {#((i32_min, i), e)#}"
      by (rule priority_push_rep(2) [OF rem(1,3)])
    have "pq_promote i q = Some (True, ?q)"
      using Priority Some k by (simp add: Let_def)
    moreover have "pq_inv ?q"
      using priority_promote_rep [OF r k(2)] by simp
    moreover have "mset (contents ?q) = mset (contents q)"
      by (simp add: Priority ins rem(2))
    moreover have "i \<in> fst ` set (contents q)"
      using mem Priority by force
    ultimately show ?thesis by blast
  qed
qed

lemma pq_distinct_ids: "pq_inv q \<Longrightarrow> distinct (map fst (contents q))"
proof (cases q)
  case (Fifo es h t)
  moreover assume "pq_inv q"
  ultimately have "fifo_rep es h t (contents q)" using fifo_inv_rep by metis
  then show ?thesis by (simp add: fifo_rep_def)
qed (simp add: priority_rep_def comp_def split_def)

interpretation pq: task_queue pq_inv contents pq_push pq_pop pq_promote
  by unfold_locales
    (simp_all add: pq_distinct_ids pq_push_contract pq_pop_empty pq_pop_contract pq_promote_contract)

lemma pq_new_inv [simp]: "pq_inv (pq_new b)" "contents (pq_new b) = []"
  by (simp_all add: pq_new_def fifo_rep_def priority_rep_def)

lemma pq_len_contents: "pq_inv q \<Longrightarrow> pq_len q = length (contents q)"
proof (cases q)
  case (Fifo es h t)
  moreover assume "pq_inv q"
  ultimately have "fifo_rep es h t (contents q)" using fifo_inv_rep by metis
  with Fifo show ?thesis by (simp only: fifo_rep_def pq_len.simps)
qed simp


section \<open>Sequences of queue operations\<close>

text \<open>
  The operations as the actor issues them, their outputs, and the abstract queues: a plain list
  for the FIFO, and for the priority queue a list kept sorted by (priority, id).
\<close>

datatype 't qop = QPush task_id int "'t entry" | QPop | QPromote task_id

datatype 't qout = Pushed | Popped "(task_id \<times> 't entry) option" | Promoted bool

fun pq_step :: "'t qop \<Rightarrow> 't pending_queue \<Rightarrow> ('t qout \<times> 't pending_queue) option" where
  "pq_step (QPush i p e) q = map_option (\<lambda>q'. (Pushed, q')) (pq_push i p e q)"
| "pq_step QPop q = map_option (\<lambda>(r, q'). (Popped r, q')) (pq_pop q)"
| "pq_step (QPromote i) q = map_option (\<lambda>(b, q'). (Promoted b, q')) (pq_promote i q)"

fun pq_run :: "'t qop list \<Rightarrow> 't pending_queue \<Rightarrow> ('t qout list \<times> 't pending_queue) option" where
  "pq_run [] q = Some ([], q)"
| "pq_run (op # ops) q =
     (case pq_step op q of
        None \<Rightarrow> None
      | Some (out, q') \<Rightarrow> map_option (\<lambda>(outs, q''). (out # outs, q'')) (pq_run ops q'))"

fun fifo_spec :: "'t qop \<Rightarrow> (task_id \<times> 't entry) list \<Rightarrow> 't qout \<times> (task_id \<times> 't entry) list" where
  "fifo_spec (QPush i p e) xs = (Pushed, xs @ [(i, e)])"
| "fifo_spec QPop xs = (case xs of [] \<Rightarrow> (Popped None, []) | x # ys \<Rightarrow> (Popped (Some x), ys))"
| "fifo_spec (QPromote i) xs =
     (if i \<in> set (map fst (tl xs))
      then (Promoted True, filter (\<lambda>x. fst x = i) xs @ filter (\<lambda>x. fst x \<noteq> i) xs)
      else (Promoted False, xs))"

fun fifo_run :: "'t qop list \<Rightarrow> (task_id \<times> 't entry) list \<Rightarrow> 't qout list" where
  "fifo_run [] xs = []"
| "fifo_run (op # ops) xs = (case fifo_spec op xs of (out, ys) \<Rightarrow> out # fifo_run ops ys)"

text \<open>The actor numbers tasks from a counter: a pushed id was never pushed before.\<close>

fun fresh_ops :: "task_id set \<Rightarrow> 't qop list \<Rightarrow> bool" where
  "fresh_ops used [] = True"
| "fresh_ops used (QPush i p e # ops) = (i \<notin> used \<and> fresh_ops (insert i used) ops)"
| "fresh_ops used (op # ops) = fresh_ops used ops"

fun is_fifo :: "'t pending_queue \<Rightarrow> bool" where
  "is_fifo (Fifo _ _ _) = True"
| "is_fifo (Priority _ _) = False"

lemma fifo_promote_filter:
  assumes "distinct (map fst (as @ (i, e) # bs))"
  shows "filter (\<lambda>x. fst x = i) (as @ (i, e) # bs) @ filter (\<lambda>x. fst x \<noteq> i) (as @ (i, e) # bs)
    = (i, e) # as @ bs"
proof -
  from assms have "\<forall>x \<in> set as \<union> set bs. fst x \<noteq> i" by force
  then show ?thesis by (auto simp: filter_empty_conv filter_id_conv)
qed

lemma fifo_step_refines:
  assumes inv: "pq_inv q" and f: "is_fifo q"
    and fresh: "\<And>i p e. op = QPush i p e \<Longrightarrow> i \<notin> fst ` set (contents q)"
  shows "\<exists>q'. pq_step op q = Some (fst (fifo_spec op (contents q)), q') \<and> pq_inv q' \<and> is_fifo q' \<and>
           contents q' = snd (fifo_spec op (contents q))"
proof -
  obtain es h t where q: "q = Fifo es h t" using f by (cases q) auto
  let ?xs = "contents q"
  have r: "fifo_rep es h t ?xs" using inv q fifo_inv_rep by metis
  show ?thesis
  proof (cases op)
    case (QPush i p e)
    from fifo_push_rep [OF r fresh [OF QPush], of p e] obtain es' h' where
      p: "pq_push i p e (Fifo es h t) = Some (Fifo es' h' (Some i))"
      "fifo_rep es' h' (Some i) (?xs @ [(i, e)])" by blast
    from fifo_inv_contents [OF p(2)] p(1) q QPush show ?thesis
      by (intro exI [of _ "Fifo es' h' (Some i)"]) (simp del: contents.simps pq_push.simps)
  next
    case QPop
    show ?thesis
    proof (cases ?xs)
      case Nil
      with pq_pop_empty [OF inv] inv f QPop show ?thesis by simp
    next
      case (Cons x ys)
      with r have "fifo_rep es h t ((fst x, snd x) # ys)" by simp
      from fifo_pop_rep [OF this] obtain es' h' t' where
        p: "pq_pop (Fifo es h t) = Some (Some x, Fifo es' h' t')" "fifo_rep es' h' t' ys" by auto
      from fifo_inv_contents [OF p(2)] p(1) q QPop Cons show ?thesis
        by (intro exI [of _ "Fifo es' h' t'"]) (simp del: contents.simps pq_pop.simps)
    qed
  next
    case (QPromote i)
    have d: "distinct (map fst ?xs)" by (rule pq_distinct_ids [OF inv])
    from fifo_promote_cases [OF r, of i] show ?thesis
    proof (elim disjE exE conjE)
      assume "i \<notin> fst ` set (tl ?xs)" "pq_promote i (Fifo es h t) = Some (False, Fifo es h t)"
      with q QPromote inv f show ?thesis
        by (intro exI [of _ q]) (simp del: contents.simps pq_promote.simps)
    next
      fix as e bs es' h' t'
      assume xs: "?xs = as @ (i, e) # bs" "as \<noteq> []"
        and p: "pq_promote i (Fifo es h t) = Some (True, Fifo es' h' t')"
        and r': "fifo_rep es' h' t' ((i, e) # as @ bs)"
      from xs have "i \<in> set (map fst (tl ?xs))" by (cases as) auto
      then have "fifo_spec op ?xs = (Promoted True, (i, e) # as @ bs)"
        using fifo_promote_filter [of as i e bs] d xs QPromote by simp
      with fifo_inv_contents [OF r'] p q QPromote show ?thesis
        by (intro exI [of _ "Fifo es' h' t'"]) (simp del: contents.simps pq_promote.simps)
    qed
  qed
qed

lemma fifo_spec_ids:
  "fst ` set (snd (fifo_spec op xs)) \<subseteq> fst ` set xs \<union> (case op of QPush i p e \<Rightarrow> {i} | _ \<Rightarrow> {})"
  by (cases op) (auto split: list.splits)

lemma fifo_run_refines:
  "pq_inv q \<Longrightarrow> is_fifo q \<Longrightarrow> fst ` set (contents q) \<subseteq> used \<Longrightarrow> fresh_ops used ops \<Longrightarrow>
     \<exists>q'. pq_run ops q = Some (fifo_run ops (contents q), q') \<and> pq_inv q'"
proof (induction ops arbitrary: q used)
  case (Cons op ops)
  let ?s = "fifo_spec op (contents q)"
  let ?used = "used \<union> (case op of QPush i p e \<Rightarrow> {i} | _ \<Rightarrow> {})"
  have fr: "\<And>i p e. op = QPush i p e \<Longrightarrow> i \<notin> fst ` set (contents q)"
    using Cons.prems by auto
  have "\<exists>q1. pq_step op q = Some (fst ?s, q1) \<and> pq_inv q1 \<and> is_fifo q1 \<and> contents q1 = snd ?s"
    by (rule fifo_step_refines [OF Cons.prems(1,2)]) (rule fr)
  then obtain q1 where
    q1: "pq_step op q = Some (fst ?s, q1)" "pq_inv q1" "is_fifo q1" "contents q1 = snd ?s" by blast
  have "fst ` set (contents q1) \<subseteq> ?used"
    unfolding q1(4) by (rule order_trans [OF fifo_spec_ids Un_mono [OF Cons.prems(3) order_refl]])
  moreover have "fresh_ops ?used ops"
    using Cons.prems(4) by (cases op) auto
  ultimately obtain q2 where "pq_run ops q1 = Some (fifo_run ops (contents q1), q2)" "pq_inv q2"
    using Cons.IH [OF q1(2,3)] by blast
  with q1 show ?case by (simp add: split_def)
qed simp

text \<open>
  C10. The linked FIFO of the task pool is a list. For every sequence of queue operations whose
  pushed ids are new, starting from the empty queue, no operation panics, and the outputs (the
  task every \<open>pop\<close> hands out, whether every \<open>promote\<close> moved a task) are those of a list with
  \<open>push\<close> at the end, \<open>pop\<close> at the front, and \<open>promote\<close> moving the task with that id to the
  front unless it is absent or already first.
\<close>

theorem fifo_queue_refines_list:
  assumes "fresh_ops {} ops"
  shows "\<exists>q. pq_run ops (pq_new False) = Some (fifo_run ops [], q) \<and> pq_inv q"
  using fifo_run_refines [of "pq_new False" "{}" ops] assms
  by (simp add: pq_new_def fifo_rep_def)

theorem fifo_queue_refines_list_witness:
  "\<exists>q. pq_run [QPush 0 5 \<lparr>task = ''a'', cancellation = 0\<rparr>, QPush 1 5 \<lparr>task = ''b'', cancellation = 1\<rparr>,
          QPush 2 5 \<lparr>task = ''c'', cancellation = 2\<rparr>, QPromote 2, QPop, QPop] (pq_new False) =
     Some ([Pushed, Pushed, Pushed, Promoted True, Popped (Some (2, \<lparr>task = ''c'', cancellation = 2\<rparr>)),
            Popped (Some (0, \<lparr>task = ''a'', cancellation = 0\<rparr>))], q) \<and> pq_inv q"
  using fifo_queue_refines_list [of "[QPush 0 5 \<lparr>task = ''a'', cancellation = 0\<rparr>,
      QPush 1 5 \<lparr>task = ''b'', cancellation = 1\<rparr>, QPush 2 5 \<lparr>task = ''c'', cancellation = 2\<rparr>,
      QPromote 2, QPop, QPop]"]
  by simp


section \<open>The priority queue pops the least priority, oldest first\<close>

type_synonym 't ptask = "task_id \<times> int \<times> 't entry"

definition ptask_key :: "'t ptask \<Rightarrow> key" where
  "ptask_key x = (fst (snd x), fst x)"

fun priority_spec :: "'t qop \<Rightarrow> 't ptask list \<Rightarrow> 't qout \<times> 't ptask list" where
  "priority_spec (QPush i p e) xs = (Pushed, xs @ [(i, p, e)])"
| "priority_spec QPop xs =
     (case sort_key ptask_key xs of
        [] \<Rightarrow> (Popped None, xs)
      | (i, p, e) # _ \<Rightarrow> (Popped (Some (i, e)), remove1 (i, p, e) xs))"
| "priority_spec (QPromote i) xs =
     (if i \<in> set (map fst xs)
      then (Promoted True, map (\<lambda>(j, p, e). (j, if j = i then i32_min else p, e)) xs)
      else (Promoted False, xs))"

fun priority_run :: "'t qop list \<Rightarrow> 't ptask list \<Rightarrow> 't qout list" where
  "priority_run [] xs = []"
| "priority_run (op # ops) xs = (case priority_spec op xs of (out, ys) \<Rightarrow> out # priority_run ops ys)"

definition ptasks :: "(key \<times> 't entry) list \<Rightarrow> 't ptask list" where
  "ptasks = map (\<lambda>((p, i), e). (i, p, e))"

definition priority_refines :: "'t pending_queue \<Rightarrow> 't ptask list \<Rightarrow> bool" where
  "priority_refines q xs \<longleftrightarrow>
     (\<exists>es ps. q = Priority es ps \<and> priority_rep es ps \<and> mset (ptasks es) = mset xs)"

lemma ptasks_keys: "map ptask_key (ptasks es) = map fst es"
  by (simp add: ptasks_def ptask_key_def split_def)

lemma ptasks_ids: "map fst (ptasks es) = map (snd \<circ> fst) es"
  by (simp add: ptasks_def split_def)

lemma priority_refines_ids:
  "priority_rep es ps \<Longrightarrow> mset (ptasks es) = mset xs \<Longrightarrow> fst ` set xs = (snd \<circ> fst) ` set es"
  using arg_cong [of "mset (ptasks es)" "mset xs" "\<lambda>M. fst ` set_mset M"] ptasks_ids [of es]
  by (metis list.set_map set_mset_mset)

lemma priority_refines_sorted:
  assumes r: "priority_rep es ps" and m: "mset (ptasks es) = mset xs"
  shows "sort_key ptask_key xs = ptasks es"
proof (rule sort_key_inj_key_eq)
  show "mset xs = mset (ptasks es)" using m by simp
  have st: "sorted_wrt (<) (map ptask_key (ptasks es))"
    using r by (simp add: ptasks_keys priority_rep_def)
  then show "sorted (map ptask_key (ptasks es))"
    by (simp add: strict_sorted_iff)
  from st have "inj_on ptask_key (set (ptasks es))"
    by (simp add: strict_sorted_iff distinct_map)
  then show "inj_on ptask_key (set xs)"
    using m by (metis set_mset_mset)
qed

lemma priority_push_refines:
  assumes r: "priority_rep es ps" and m: "mset (ptasks es) = mset xs" and fresh: "i \<notin> fst ` set xs"
  shows "\<exists>q. pq_push i p e (Priority es ps) = Some q \<and> priority_refines q (xs @ [(i, p, e)])"
proof -
  have "i \<notin> (snd \<circ> fst) ` set es" using fresh priority_refines_ids [OF r m] by simp
  from priority_push_rep [OF r this, of p e] m
  show ?thesis by (auto simp: priority_refines_def Let_def ptasks_def)
qed

lemma priority_pop_refines:
  assumes r: "priority_rep es ps" and m: "mset (ptasks es) = mset xs"
  shows "\<exists>q. pq_step QPop (Priority es ps) = Some (fst (priority_spec QPop xs), q) \<and>
    priority_refines q (snd (priority_spec QPop xs))"
proof (cases es)
  case Nil
  with m have "xs = []" by (simp add: ptasks_def)
  with Nil r show ?thesis by (simp add: priority_refines_def ptasks_def)
next
  case (Cons x es')
  obtain p i e where x: "x = ((p, i), e)" by (metis prod.exhaust)
  have s: "sort_key ptask_key xs = (i, p, e) # ptasks es'"
    using priority_refines_sorted [OF r m] Cons x by (simp add: ptasks_def)
  have "mset (remove1 (i, p, e) xs) = mset (ptasks es) - {#(i, p, e)#}"
    using m by simp
  also have "\<dots> = mset (ptasks es')"
    using Cons x by (simp add: ptasks_def)
  finally have "priority_refines (Priority es' (hm_remove i ps)) (remove1 (i, p, e) xs)"
    using priority_pop_rep [of p i e es' ps] r Cons x by (simp add: priority_refines_def)
  with s Cons x show ?thesis by simp
qed

lemma reprioritise_others:
  assumes "i \<notin> (snd \<circ> fst) ` set es"
  shows "map (\<lambda>(j, p, e). (j, if j = i then q else p, e)) (ptasks es) = ptasks es"
  using assms by (force simp: ptasks_def)

lemma priority_promote_refines:
  assumes r: "priority_rep es ps" and m: "mset (ptasks es) = mset xs"
  shows "\<exists>q. pq_step (QPromote i) (Priority es ps) = Some (fst (priority_spec (QPromote i) xs), q) \<and>
    priority_refines q (snd (priority_spec (QPromote i) xs))"
proof (cases "map_of ps i")
  case None
  then have "i \<notin> set (map fst xs)"
    using priority_rep_ids [OF r] priority_refines_ids [OF r m] by simp
  with None r m show ?thesis by (simp add: priority_refines_def)
next
  case (Some k)
  from priority_promote_key [OF r Some] obtain p e where
    k: "k = (p, i)" "map_of es (p, i) = Some e" by blast
  let ?f = "\<lambda>(j, p, e). (j, if j = i then i32_min else p, e)"
  let ?rest = "hm_remove (p, i) es"
  note rem = priority_remove_rep [OF r k(2)]
  have ins: "mset (bt_insert (i32_min, i) e ?rest) = mset ?rest + {#((i32_min, i), e)#}"
    by (rule priority_push_rep(2) [OF rem(1,3)])
  have i: "i \<in> set (map fst xs)"
    using Some priority_rep_ids [OF r, of i] priority_refines_ids [OF r m] by auto
  have split: "mset (ptasks es) = add_mset (i, p, e) (mset (ptasks ?rest))"
    by (simp add: ptasks_def rem(2))
  have "mset (map ?f xs) = image_mset ?f (mset (ptasks es))"
    using m by simp
  also have "\<dots> = add_mset (i, i32_min, e) (mset (map ?f (ptasks ?rest)))"
    by (simp add: split)
  also have "\<dots> = add_mset (i, i32_min, e) (mset (ptasks ?rest))"
    by (simp only: reprioritise_others [OF rem(3)])
  also have "\<dots> = mset (ptasks (bt_insert (i32_min, i) e ?rest))"
    by (simp add: ptasks_def ins)
  finally have "priority_refines (Priority (bt_insert (i32_min, i) e ?rest) (hm_insert i (i32_min, i) ps))
      (map ?f xs)"
    using priority_promote_rep [OF r k(2)] by (simp add: priority_refines_def)
  moreover have "pq_step (QPromote i) (Priority es ps) = Some (Promoted True,
      Priority (bt_insert (i32_min, i) e ?rest) (hm_insert i (i32_min, i) ps))"
    using Some k by (simp add: Let_def)
  ultimately show ?thesis
    using i by (intro exI [of _ "Priority (bt_insert (i32_min, i) e ?rest) (hm_insert i (i32_min, i) ps)"])
      (simp del: pq_step.simps)
qed

lemma priority_step_refines:
  assumes "priority_refines q xs" and "\<And>i p e. op = QPush i p e \<Longrightarrow> i \<notin> fst ` set xs"
  shows "\<exists>q'. pq_step op q = Some (fst (priority_spec op xs), q') \<and>
           priority_refines q' (snd (priority_spec op xs))"
proof -
  from assms(1) obtain es ps where
    q: "q = Priority es ps" and r: "priority_rep es ps" and m: "mset (ptasks es) = mset xs"
    by (auto simp: priority_refines_def)
  show ?thesis
  proof (cases op)
    case (QPush i p e)
    with priority_push_refines [OF r m, of i p e] assms(2) [OF QPush] q show ?thesis by auto
  next
    case QPop
    with priority_pop_refines [OF r m] q show ?thesis by blast
  next
    case (QPromote i)
    with priority_promote_refines [OF r m, of i] q show ?thesis by blast
  qed
qed

lemma priority_spec_ids:
  "fst ` set (snd (priority_spec op xs)) \<subseteq> fst ` set xs \<union> (case op of QPush i p e \<Rightarrow> {i} | _ \<Rightarrow> {})"
proof (cases op)
  case QPop
  then show ?thesis
    using set_remove1_subset by (fastforce split: list.splits)
qed (auto simp: image_image split_def)

lemma priority_run_refines:
  "priority_refines q xs \<Longrightarrow> fst ` set xs \<subseteq> used \<Longrightarrow> fresh_ops used ops \<Longrightarrow>
     \<exists>q'. pq_run ops q = Some (priority_run ops xs, q')"
proof (induction ops arbitrary: q xs used)
  case (Cons op ops)
  let ?s = "priority_spec op xs"
  let ?used = "used \<union> (case op of QPush i p e \<Rightarrow> {i} | _ \<Rightarrow> {})"
  have "\<exists>q1. pq_step op q = Some (fst ?s, q1) \<and> priority_refines q1 (snd ?s)"
    by (rule priority_step_refines [OF Cons.prems(1)]) (use Cons.prems in auto)
  then obtain q1 where q1: "pq_step op q = Some (fst ?s, q1)" "priority_refines q1 (snd ?s)" by blast
  have "fst ` set (snd ?s) \<subseteq> ?used"
    by (rule order_trans [OF priority_spec_ids Un_mono [OF Cons.prems(2) order_refl]])
  moreover have "fresh_ops ?used ops"
    using Cons.prems(3) by (cases op) auto
  ultimately obtain q2 where "pq_run ops q1 = Some (priority_run ops (snd ?s), q2)"
    using Cons.IH [OF q1(2)] by blast
  with q1 show ?case by (simp add: split_def)
qed simp

text \<open>
  C11. The priority pool's queue hands out, at every \<open>pop\<close>, the pending task with the numerically
  least priority and among those the one admitted first (the least id); a promoted (cancelled)
  task is treated as having priority \<open>i32::MIN\<close>. For every sequence of operations with new ids
  no operation panics and all outputs are those of this specification.
\<close>

theorem priority_queue_refines_sorted:
  assumes "fresh_ops {} ops"
  shows "\<exists>q. pq_run ops (pq_new True) = Some (priority_run ops [], q)"
  using priority_run_refines [of "pq_new True" "[]" "{}" ops] assms
  by (simp add: pq_new_def priority_refines_def priority_rep_def ptasks_def)

theorem priority_queue_refines_sorted_witness:
  "\<exists>q. pq_run [QPush 0 7 \<lparr>task = ''a'', cancellation = 0\<rparr>, QPush 1 3 \<lparr>task = ''b'', cancellation = 1\<rparr>,
          QPush 2 9 \<lparr>task = ''c'', cancellation = 2\<rparr>, QPromote 2, QPop, QPop] (pq_new True) =
     Some ([Pushed, Pushed, Pushed, Promoted True, Popped (Some (2, \<lparr>task = ''c'', cancellation = 2\<rparr>)),
            Popped (Some (1, \<lparr>task = ''b'', cancellation = 1\<rparr>))], q)"
  using priority_queue_refines_sorted [of "[QPush 0 7 \<lparr>task = ''a'', cancellation = 0\<rparr>,
      QPush 1 3 \<lparr>task = ''b'', cancellation = 1\<rparr>, QPush 2 9 \<lparr>task = ''c'', cancellation = 2\<rparr>,
      QPromote 2, QPop, QPop]"]
  by (simp add: ptask_key_def i32_min_def)

end
