(* ===== verification/Queued_Pool.thy ===== *)
theory Queued_Pool
  imports Pending_Queue
begin

text \<open>
  The task pool of \<open>src/runtime/pool/queuedpool.rs\<close> (\<open>QueuedPool\<close>, behind \<open>TaskPool\<close> and
  \<open>PriorityTaskPool\<close>): the public operations \<open>start\<close>, \<open>reload_config\<close>, \<open>add_task\<close> and \<open>stop\<close>,
  which talk to an actor through an unbounded channel; the actor's loop \<open>run\<close>, one function for
  the \<open>select!\<close> and one for the code after it; and the executor tasks it spawns. Any interleaving
  of callers, actor and executors is a run of the step relation \<open>pool_step\<close>. The lemmas show the
  pool's invariant (no panic is reachable, every executor is idle or has exactly one task), that
  no accepted task is lost or run twice, that \<open>stop\<close> ends with every accepted task completed, and
  that a stopped pool is never stuck before that.

  Metric instruments and log events are not part of the state. A task whose callback panics ends
  the process (\<open>run_task\<close>), so a run of the model is a run without such a panic. The counters
  \<open>next_id\<close> and \<open>next_worker\<close> are \<open>u64\<close> in the source and natural numbers here: they only ever
  count up by one.
\<close>

section \<open>Data\<close>

type_synonym worker_id = nat

datatype 't command = Add int 't | Start nat | Resize nat | Stop | Ready worker_id

text \<open>An executor task: what was sent to it and not yet received, and the callback it runs.\<close>

record 't worker =
  inbox :: "'t list"
  running :: "'t option"

text \<open>
  The local variables of \<open>run\<close>. \<open>cancellations\<close> lists the tasks whose cancellation is awaited
  (aborting a waiter removes it); \<open>workers\<close> and \<open>finished\<close> are the executor tasks of the
  \<open>JoinSet\<close> that still run and that have returned; \<open>executors\<close> lists the ids whose sender is held.
\<close>

record 't actor =
  queue :: "'t pending_queue"
  cancellations :: "task_id list"
  workers :: "(worker_id \<times> 't worker) list"
  finished :: "worker_id list"
  executors :: "worker_id list"
  idle :: "worker_id list"
  next_worker :: worker_id
  busy :: nat
  retiring :: bool
  next_task :: task_id
  target :: nat
  started :: bool
  stopped :: bool
  receiving :: bool

text \<open>
  The pool: the atomics of \<open>QueuedPool\<close>, the channel, the actor, whether \<open>run\<close> has returned
  (then the receiver is dropped and \<open>drained\<close> is true), and the history of answered admissions
  and completed callbacks.
\<close>

record 't pool =
  pname :: string
  priority :: bool
  pstate :: nat
  launched :: bool
  chan :: "'t command list"
  act :: "'t actor"
  ended :: bool
  replies :: "('t \<times> runtime_error option) list"
  completed :: "'t list"

section \<open>The actor\<close>

text \<open>\<open>available_parallelism().map_or(1, usize::from)\<close> is the parameter \<open>cpus\<close>, at least 1.\<close>

definition resolve_executors :: "nat \<Rightarrow> nat \<Rightarrow> nat" where
  "resolve_executors cpus n = (if n = 0 then cpus else n)"

definition actor_new :: "bool \<Rightarrow> nat \<Rightarrow> 't actor" where
  "actor_new prio n = \<lparr>queue = pq_new prio, cancellations = [], workers = [], finished = [],
     executors = [], idle = [], next_worker = 0, busy = 0, retiring = False, next_task = 0,
     target = n, started = False, stopped = False, receiving = True\<rparr>"

datatype 't event = Cancelled task_id | Received "'t command option" bool | Joined worker_id

text \<open>
  The \<open>select!\<close>: the result is \<open>None\<close> for a panic; an admission is answered with \<open>Some\<close> of the
  task and of the error, if any. The flag of \<open>Received\<close> is \<open>context.is_cancelled()\<close>.
\<close>

fun actor_select :: "string \<Rightarrow> 't event \<Rightarrow> 't actor \<Rightarrow>
    (('t \<times> runtime_error option) option \<times> 't actor) option" where
  "actor_select name (Cancelled i) a =
     (case pq_promote i (queue a) of
        None \<Rightarrow> None
      | Some (_, q) \<Rightarrow> Some (None, a\<lparr>queue := q, cancellations := removeAll i (cancellations a)\<rparr>))"
| "actor_select name (Received (Some (Add p t)) is_cancelled) a =
     (if stopped a then Some (Some (t, Some (ResourceStopped name)), a)
      else if is_cancelled then Some (Some (t, Some ContextCancelled), a)
      else let i = next_task a in
        (case pq_push i p \<lparr>task = t, cancellation = i\<rparr> (queue a) of
           None \<Rightarrow> None
         | Some q \<Rightarrow> Some (Some (t, None),
             a\<lparr>next_task := i + 1, cancellations := cancellations a @ [i], queue := q\<rparr>)))"
| "actor_select name (Received (Some (Start n)) _) a =
     Some (None, if stopped a then a else a\<lparr>started := True, target := n\<rparr>)"
| "actor_select name (Received (Some (Resize n)) _) a =
     Some (None, if stopped a then a else a\<lparr>target := n\<rparr>)"
| "actor_select name (Received (Some Stop) _) a =
     Some (None, a\<lparr>stopped := True, started := True\<rparr>)"
| "actor_select name (Received None _) a =
     Some (None, a\<lparr>receiving := False, stopped := True, started := True\<rparr>)"
| "actor_select name (Received (Some (Ready w)) _) a =
     (if busy a = 0 then None
      else Some (None, a\<lparr>busy := busy a - 1, idle := idle a @ [w]\<rparr>))"
| "actor_select name (Joined w) a = Some (None, a\<lparr>finished := removeAll w (finished a)\<rparr>)"

text \<open>The three loops after the \<open>select!\<close>: retire idle executors, spawn missing ones, dispatch.\<close>

fun retire_idle :: "nat \<Rightarrow> worker_id list \<Rightarrow> worker_id list \<Rightarrow> worker_id list \<times> worker_id list" where
  "retire_idle tgt ex [] = (ex, [])"
| "retire_idle tgt ex (w # ws) =
     (if length ex > tgt then retire_idle tgt (removeAll w ex) ws else (ex, w # ws))"

function spawn_workers :: "'t actor \<Rightarrow> 't actor" where
  "spawn_workers a =
     (if length (executors a) < target a
      then let w = next_worker a in
        spawn_workers (a\<lparr>next_worker := w + 1, executors := executors a @ [w], idle := idle a @ [w],
          workers := hm_insert w \<lparr>inbox = [], running = None\<rparr> (workers a)\<rparr>)
      else a)"
  by pat_completeness auto
termination
  by (relation "measure (\<lambda>a. target a - length (executors a))") auto

declare spawn_workers.simps [simp del]

text \<open>The first argument is the list \<open>idle\<close>, shortened by one per turn of the loop.\<close>

fun dispatch :: "worker_id list \<Rightarrow> 't actor \<Rightarrow> 't actor option" where
  "dispatch [] a = Some (a\<lparr>idle := []\<rparr>)"
| "dispatch (w # ws) a =
     (if pq_is_empty (queue a) then Some (a\<lparr>idle := w # ws\<rparr>)
      else case pq_pop (queue a) of
        Some (Some (i, e), q) \<Rightarrow>
          (if w \<notin> set (executors a) then None
           else case map_of (workers a) w of
             None \<Rightarrow> None
           | Some k \<Rightarrow>
               dispatch ws (a\<lparr>queue := q, cancellations := removeAll (cancellation e) (cancellations a),
                 busy := busy a + 1,
                 workers := hm_insert w (k\<lparr>inbox := inbox k @ [task e]\<rparr>) (workers a)\<rparr>))
      | _ \<Rightarrow> None)"

definition actor_settle :: "'t actor \<Rightarrow> 't actor option" where
  "actor_settle a =
     (case (if started a \<and> \<not> retiring a
            then (case retire_idle (target a) (executors a) (idle a) of (ex, ws) \<Rightarrow>
                    let a' = spawn_workers (a\<lparr>executors := ex, idle := ws\<rparr>) in dispatch (idle a') a')
            else Some a) of
        None \<Rightarrow> None
      | Some a' \<Rightarrow>
          Some (if stopped a' \<and> pq_is_empty (queue a') \<and> busy a' = 0 \<and> \<not> retiring a'
                then a'\<lparr>retiring := True, executors := [], idle := []\<rparr> else a'))"

definition actor_done :: "'t actor \<Rightarrow> bool" where
  "actor_done a \<longleftrightarrow> retiring a \<and> workers a = [] \<and> finished a = []"

text \<open>One turn of the loop, and the end of \<open>run\<close>.\<close>

definition actor_turn :: "'t event \<Rightarrow> 't pool \<Rightarrow> 't pool option" where
  "actor_turn ev s =
     (case actor_select (pname s) ev (act s) of
        None \<Rightarrow> None
      | Some (r, a) \<Rightarrow>
          (case actor_settle a of
             None \<Rightarrow> None
           | Some a' \<Rightarrow> Some (s\<lparr>act := a', ended := actor_done a',
               replies := replies s @ (case r of None \<Rightarrow> [] | Some x \<Rightarrow> [x])\<rparr>)))"

section \<open>Executor tasks\<close>

definition worker_recv :: "worker_id \<Rightarrow> 't pool \<Rightarrow> 't pool option" where
  "worker_recv w s =
     (case map_of (workers (act s)) w of
        None \<Rightarrow> None
      | Some k \<Rightarrow>
          (case (running k, inbox k) of
             (None, t # ts) \<Rightarrow>
               Some (s\<lparr>act := (act s)\<lparr>workers := hm_insert w \<lparr>inbox = ts, running = Some t\<rparr> (workers (act s))\<rparr>\<rparr>)
           | _ \<Rightarrow> None))"

definition worker_done :: "worker_id \<Rightarrow> 't pool \<Rightarrow> 't pool option" where
  "worker_done w s =
     (case map_of (workers (act s)) w of
        None \<Rightarrow> None
      | Some k \<Rightarrow>
          (case running k of
             None \<Rightarrow> None
           | Some t \<Rightarrow>
               Some (s\<lparr>act := (act s)\<lparr>workers := hm_insert w (k\<lparr>running := None\<rparr>) (workers (act s))\<rparr>,
                 completed := completed s @ [t], chan := chan s @ [Ready w]\<rparr>)))"

text \<open>\<open>recv\<close> returns \<open>None\<close> once the sender is dropped and the inbox is empty.\<close>

definition worker_exit :: "worker_id \<Rightarrow> 't pool \<Rightarrow> 't pool option" where
  "worker_exit w s =
     (case map_of (workers (act s)) w of
        None \<Rightarrow> None
      | Some k \<Rightarrow>
          (if running k = None \<and> inbox k = [] \<and> w \<notin> set (executors (act s))
           then Some (s\<lparr>act := (act s)\<lparr>workers := hm_remove w (workers (act s)),
             finished := finished (act s) @ [w]\<rparr>\<rparr>)
           else None))"

section \<open>The public operations\<close>

definition pool_new :: "string \<Rightarrow> bool \<Rightarrow> 't pool" where
  "pool_new name prio = \<lparr>pname = name, priority = prio, pstate = 0, launched = False, chan = [],
     act = actor_new prio 0, ended = False, replies = [], completed = []\<rparr>"

text \<open>
  The constructor fails on a pool the configuration does not know. \<open>config\<close> is
  \<open>runtime_config().pool_by_name\<close> with the \<open>executors_count\<close> it holds at that time; the count seen
  at construction is the \<open>fallback\<close> for a pool that a reload has dropped.
\<close>

definition pool_create :: "(string \<Rightarrow> nat option) \<Rightarrow> string \<Rightarrow> bool \<Rightarrow> (nat \<times> 't pool) runtime_result" where
  "pool_create config name prio =
     (case config name of
        None \<Rightarrow> Inl (if prio then PriorityTaskPoolNotFound name else TaskPoolNotFound name)
      | Some n \<Rightarrow> Inr (n, pool_new name prio))"

definition pool_executors :: "nat \<Rightarrow> (string \<Rightarrow> nat option) \<Rightarrow> nat \<Rightarrow> string \<Rightarrow> nat" where
  "pool_executors cpus config fallback name =
     resolve_executors cpus (case config name of None \<Rightarrow> fallback | Some n \<Rightarrow> n)"

text \<open>\<open>launch\<close> spawns the actor once; its \<open>run\<close> first reads the executor count \<open>n\<close>.\<close>

definition pool_launch :: "nat \<Rightarrow> 't pool \<Rightarrow> 't pool" where
  "pool_launch n s = (if launched s then s else s\<lparr>launched := True, act := actor_new (priority s) n\<rparr>)"

definition pool_send :: "'t command \<Rightarrow> 't pool \<Rightarrow> bool \<times> 't pool" where
  "pool_send c s = (if ended s then (False, s) else (True, s\<lparr>chan := chan s @ [c]\<rparr>))"

definition pool_start :: "nat \<Rightarrow> 't pool \<Rightarrow> runtime_error option \<times> 't pool" where
  "pool_start n s =
     (if pstate s = 2 then (Some (ResourceStopped (pname s)), s)
      else if pstate s \<noteq> 0 then (Some (ResourceAlreadyStarted (pname s)), s)
      else case pool_send (Start n) (pool_launch n (s\<lparr>pstate := 1\<rparr>)) of
        (ok, s') \<Rightarrow> (if ok then None else Some (ResourceStopped (pname s)), s'))"

definition pool_reload_config :: "nat \<Rightarrow> 't pool \<Rightarrow> 't pool" where
  "pool_reload_config n s = snd (pool_send (Resize n) s)"

text \<open>
  \<open>add_task\<close> up to its wait for the answer: an immediate error, or \<open>None\<close> and a command in the
  channel, which the actor answers (\<open>replies\<close>) or drops when it ends.
\<close>

definition pool_add_task :: "bool \<Rightarrow> nat \<Rightarrow> int \<Rightarrow> 't \<Rightarrow> 't pool \<Rightarrow> runtime_error option \<times> 't pool" where
  "pool_add_task is_cancelled n p t s =
     (if is_cancelled then (Some ContextCancelled, s)
      else if pstate s = 2 then (Some (ResourceStopped (pname s)), s)
      else case pool_send (Add p t) (pool_launch n s) of
        (ok, s') \<Rightarrow> (if ok then None else Some (ResourceStopped (pname s)), s'))"

definition pool_stop :: "nat \<Rightarrow> 't pool \<Rightarrow> 't pool" where
  "pool_stop n s =
     (let s' = pool_launch n s in
      if pstate s' = 2 then s' else snd (pool_send Stop (s'\<lparr>pstate := 2\<rparr>)))"

section \<open>Interleavings\<close>

text \<open>
  \<open>cpus\<close> is the available parallelism. The actor takes the head of the channel; a cancellation
  can be observed while it is awaited; a finished executor can be joined. Internal steps are those
  that need no caller.
\<close>

inductive internal_step :: "'t pool \<Rightarrow> 't pool \<Rightarrow> bool" where
  on_cancel: "launched s \<Longrightarrow> \<not> ended s \<Longrightarrow> i \<in> set (cancellations (act s)) \<Longrightarrow>
     actor_turn (Cancelled i) s = Some s' \<Longrightarrow> internal_step s s'"
| on_command: "launched s \<Longrightarrow> \<not> ended s \<Longrightarrow> chan s = c # cs \<Longrightarrow>
     actor_turn (Received (Some c) b) (s\<lparr>chan := cs\<rparr>) = Some s' \<Longrightarrow> internal_step s s'"
| on_join: "launched s \<Longrightarrow> \<not> ended s \<Longrightarrow> w \<in> set (finished (act s)) \<Longrightarrow>
     actor_turn (Joined w) s = Some s' \<Longrightarrow> internal_step s s'"
| on_recv: "worker_recv w s = Some s' \<Longrightarrow> internal_step s s'"
| on_done: "worker_done w s = Some s' \<Longrightarrow> internal_step s s'"
| on_exit: "worker_exit w s = Some s' \<Longrightarrow> internal_step s s'"

inductive pool_step :: "nat \<Rightarrow> 't pool \<Rightarrow> 't pool \<Rightarrow> bool" for cpus where
  internal: "internal_step s s' \<Longrightarrow> pool_step cpus s s'"
| start: "pool_step cpus s (snd (pool_start (resolve_executors cpus n) s))"
| reload: "pool_step cpus s (pool_reload_config (resolve_executors cpus n) s)"
| add: "pool_step cpus s (snd (pool_add_task b (resolve_executors cpus n) p t s))"
| stop: "pool_step cpus s (pool_stop (resolve_executors cpus n) s)"

inductive pool_reachable :: "nat \<Rightarrow> string \<Rightarrow> bool \<Rightarrow> 't pool \<Rightarrow> bool" for cpus name prio where
  init: "pool_reachable cpus name prio (pool_new name prio)"
| step: "pool_reachable cpus name prio s \<Longrightarrow> pool_step cpus s s' \<Longrightarrow> pool_reachable cpus name prio s'"


section \<open>The invariant\<close>

definition wtasks :: "'t worker \<Rightarrow> 't list" where
  "wtasks k = (case running k of None \<Rightarrow> [] | Some t \<Rightarrow> [t]) @ inbox k"

definition inflight :: "(worker_id \<times> 't worker) list \<Rightarrow> 't list" where
  "inflight ws = concat (map (\<lambda>(_, k). wtasks k) ws)"

text \<open>The tasks an executor holds plus the completions it announced and the actor has not read.\<close>

definition load :: "'t actor \<Rightarrow> 't command list \<Rightarrow> worker_id \<Rightarrow> nat" where
  "load a cs w = (case map_of (workers a) w of None \<Rightarrow> 0 | Some k \<Rightarrow> length (wtasks k)) +
     count_list cs (Ready w)"

definition queue_inv :: "'t actor \<Rightarrow> bool" where
  "queue_inv a \<longleftrightarrow> pq_inv (queue a) \<and>
     (\<forall>x \<in> set (contents (queue a)). fst x < next_task a \<and> cancellation (snd x) = fst x) \<and>
     set (cancellations a) \<subseteq> fst ` set (contents (queue a))"

definition worker_inv :: "'t actor \<Rightarrow> 't command list \<Rightarrow> bool" where
  "worker_inv a cs \<longleftrightarrow>
     hm_wf (workers a) \<and> (\<forall>w \<in> fst ` set (workers a). w < next_worker a) \<and>
     distinct (executors a) \<and> distinct (idle a) \<and> set (idle a) \<subseteq> set (executors a) \<and>
     set (executors a) \<subseteq> fst ` set (workers a) \<and>
     busy a + length (idle a) = length (executors a) \<and>
     (\<forall>w. load a cs w = (if w \<in> set (executors a) \<and> w \<notin> set (idle a) then 1 else 0))"

definition retire_inv :: "'t actor \<Rightarrow> bool" where
  "retire_inv a \<longleftrightarrow> (retiring a \<longrightarrow> stopped a \<and> executors a = [] \<and> contents (queue a) = [])"

text \<open>Every pending or running task.\<close>

definition pending_tasks :: "'t actor \<Rightarrow> 't multiset" where
  "pending_tasks a = image_mset (task \<circ> snd) (mset (contents (queue a))) + mset (inflight (workers a))"

lemma inflight_insert:
  "hm_wf ws \<Longrightarrow> map_of ws w = Some k \<Longrightarrow>
     mset (inflight (hm_insert w k' ws)) + mset (wtasks k) = mset (inflight ws) + mset (wtasks k')"
  by (induction ws) (auto simp: inflight_def split: if_splits)

lemma inflight_insert_new: "map_of ws w = None \<Longrightarrow> mset (inflight (hm_insert w k ws)) = mset (inflight ws) + mset (wtasks k)"
  by (simp add: hm_insert_new_append inflight_def)

lemma inflight_remove:
  "hm_wf ws \<Longrightarrow> map_of ws w = Some k \<Longrightarrow>
     mset (inflight ws) = mset (inflight (hm_remove w ws)) + mset (wtasks k)"
  by (induction ws) (auto simp: inflight_def delete_id split: if_splits)

lemma queue_empty_iff: "pq_inv q \<Longrightarrow> pq_is_empty q \<longleftrightarrow> contents q = []"
  by (simp add: pq_is_empty_def pq_len_contents)

lemma worker_keys: "fst ` set (hm_insert w k ws) = insert w (fst ` set ws)"
  by (simp add: hm_keys_dom)

lemma mem_keys_iff: "w \<in> fst ` set ws \<longleftrightarrow> map_of ws w \<noteq> None"
  by (simp add: map_of_eq_None_iff)

subsection \<open>Retiring and spawning executors\<close>

lemma retire_idle_spec:
  assumes "distinct ex" "distinct il" "set il \<subseteq> set ex" "retire_idle tgt ex il = (ex', il')"
  shows "distinct ex' \<and> distinct il' \<and> set il' \<subseteq> set ex' \<and> set ex' \<subseteq> set ex \<and>
    set ex' - set il' = set ex - set il \<and> length ex' + length il = length ex + length il' \<and>
    (il' = [] \<or> length ex' \<le> tgt)"
  using assms
proof (induction tgt ex il arbitrary: ex' il' rule: retire_idle.induct)
  case (2 tgt ex w ws)
  show ?case
  proof (cases "length ex > tgt")
    case True
    let ?ex = "removeAll w ex"
    have d: "distinct ?ex" "distinct ws" "set ws \<subseteq> set ?ex"
      using 2 by (auto simp: distinct_removeAll)
    have len: "length ex = Suc (length ?ex)"
      using "2.prems" by (intro length_removeAll_distinct) auto
    from "2.IH" [OF True d] "2.prems" True len show ?thesis by auto
  next
    case False
    with "2.prems" show ?thesis by auto
  qed
qed auto

lemma load_cong: "map_of (workers a) w = map_of (workers b) w \<Longrightarrow> load a cs w = load b cs w"
  by (simp add: load_def)

lemma worker_inv_retire:
  assumes inv: "worker_inv a cs" and r: "retire_idle tgt (executors a) (idle a) = (ex, ws)"
  shows "worker_inv (a\<lparr>executors := ex, idle := ws\<rparr>) cs"
proof -
  have s: "distinct ex \<and> distinct ws \<and> set ws \<subseteq> set ex \<and> set ex \<subseteq> set (executors a) \<and>
    set ex - set ws = set (executors a) - set (idle a) \<and>
    length ex + length (idle a) = length (executors a) + length ws \<and> (ws = [] \<or> length ex \<le> tgt)"
    using inv by (intro retire_idle_spec [OF _ _ _ r]) (auto simp: worker_inv_def)
  then have "\<And>w. w \<in> set ex \<and> w \<notin> set ws \<longleftrightarrow> w \<in> set (executors a) \<and> w \<notin> set (idle a)"
    by blast
  moreover have "\<And>w. load (a\<lparr>executors := ex, idle := ws\<rparr>) cs w = load a cs w"
    by (rule load_cong) simp
  ultimately show ?thesis
    using inv s by (auto simp: worker_inv_def)
qed

lemma worker_inv_spawn_one:
  assumes inv: "worker_inv a cs"
  shows "worker_inv (a\<lparr>next_worker := next_worker a + 1, executors := executors a @ [next_worker a],
      idle := idle a @ [next_worker a],
      workers := hm_insert (next_worker a) \<lparr>inbox = [], running = None\<rparr> (workers a)\<rparr>) cs"
    (is "worker_inv ?b cs")
proof -
  have new: "map_of (workers a) (next_worker a) = None"
    using inv mem_keys_iff [of "next_worker a" "workers a"] by (auto simp: worker_inv_def)
  have nex: "next_worker a \<notin> set (executors a)"
    using inv new mem_keys_iff by (fastforce simp: worker_inv_def)
  then have nid: "next_worker a \<notin> set (idle a)"
    using inv by (auto simp: worker_inv_def)
  have ld: "load ?b cs w = load a cs w" for w
    using new by (auto simp: load_def wtasks_def)
  have "load a cs (next_worker a) = 0"
    using inv nex by (simp add: worker_inv_def)
  with inv nex nid show ?thesis
    unfolding worker_inv_def ld by (auto simp: worker_keys hm_wf_insert less_Suc_eq)
qed

lemma spawn_workers_spec:
  "worker_inv a cs \<Longrightarrow> worker_inv (spawn_workers a) cs \<and>
     mset (inflight (workers (spawn_workers a))) = mset (inflight (workers a)) \<and>
     target a \<le> length (executors (spawn_workers a)) \<and>
     (idle a = [] \<or> length (executors a) \<le> target a \<longrightarrow>
       idle (spawn_workers a) = [] \<or> length (executors (spawn_workers a)) \<le> target a)"
proof (induction a rule: spawn_workers.induct)
  case (1 a)
  show ?case
  proof (cases "length (executors a) < target a")
    case True
    have new: "map_of (workers a) (next_worker a) = None"
      using "1.prems" mem_keys_iff [of "next_worker a" "workers a"] by (auto simp: worker_inv_def)
    from "1.IH" [OF True refl worker_inv_spawn_one [OF "1.prems"]] True show ?thesis
      by (simp add: spawn_workers.simps [of a] Let_def inflight_insert_new [OF new] wtasks_def)
  next
    case False
    with "1.prems" show ?thesis by (simp add: spawn_workers.simps [of a])
  qed
qed

lemma spawn_workers_frame [simp]:
  "queue (spawn_workers a) = queue a" "cancellations (spawn_workers a) = cancellations a"
  "finished (spawn_workers a) = finished a" "busy (spawn_workers a) = busy a"
  "retiring (spawn_workers a) = retiring a" "next_task (spawn_workers a) = next_task a"
  "target (spawn_workers a) = target a" "started (spawn_workers a) = started a"
  "stopped (spawn_workers a) = stopped a" "receiving (spawn_workers a) = receiving a"
  by (induction a rule: spawn_workers.induct; subst spawn_workers.simps; simp add: Let_def)+


subsection \<open>Dispatching\<close>

lemma worker_inv_send:
  assumes inv: "worker_inv (a\<lparr>idle := w # ws\<rparr>) cs" and k: "map_of (workers a) w = Some k"
  shows "worker_inv (a\<lparr>queue := q, cancellations := cl, busy := busy a + 1,
      workers := hm_insert w (k\<lparr>inbox := inbox k @ [t]\<rparr>) (workers a), idle := ws\<rparr>) cs" (is "worker_inv ?b cs")
proof -
  let ?a = "a\<lparr>idle := w # ws\<rparr>"
  have w: "w \<in> set (executors a)" "w \<notin> set ws" and "load ?a cs w = 0"
    using inv by (auto simp: worker_inv_def)
  then have l: "load ?b cs w = 1"
    using k by (simp add: load_def wtasks_def)
  have "load ?b cs v = load ?a cs v" if "v \<noteq> w" for v
    using that by (intro load_cong) simp
  then have ld: "load ?b cs v = (if v \<in> set (executors a) \<and> v \<notin> set ws then 1 else 0)" for v
    using inv w l by (cases "v = w") (auto simp: worker_inv_def)
  show ?thesis
    unfolding worker_inv_def ld using inv w by (auto simp: worker_inv_def worker_keys hm_wf_insert)
qed

lemma dispatch_spec:
  assumes "worker_inv (a\<lparr>idle := ws\<rparr>) cs" and "queue_inv a"
  shows "\<exists>a'. dispatch ws a = Some a' \<and> worker_inv a' cs \<and> queue_inv a' \<and>
    pending_tasks a' = pending_tasks a \<and> (contents (queue a') = [] \<or> idle a' = []) \<and>
    executors a' = executors a \<and> target a' = target a \<and> started a' = started a \<and>
    stopped a' = stopped a \<and> retiring a' = retiring a \<and> finished a' = finished a \<and>
    (idle a' = ws \<or> length (idle a') < length ws) \<and> next_worker a' = next_worker a"
  using assms
proof (induction ws arbitrary: a)
  case Nil
  then show ?case by (auto simp: queue_inv_def pending_tasks_def)
next
  case (Cons w ws)
  have pi: "pq_inv (queue a)" using Cons.prems by (simp add: queue_inv_def)
  show ?case
  proof (cases "contents (queue a)")
    case Nil
    with Cons.prems pi show ?thesis
      by (auto simp: queue_empty_iff queue_inv_def pending_tasks_def)
  next
    case c: (Cons x xs)
    obtain i e where x: "x = (i, e)" by (cases x)
    from pq.pop_cons [OF pi c] x obtain q where
      q: "pq_pop (queue a) = Some (Some (i, e), q)" "pq_inv q" "contents q = xs" by auto
    have w: "w \<in> set (executors a)" using Cons.prems by (auto simp: worker_inv_def)
    then obtain k where k: "map_of (workers a) w = Some k"
      using Cons.prems mem_keys_iff [of w "workers a"] by (force simp: worker_inv_def)
    let ?b = "a\<lparr>queue := q, cancellations := removeAll (cancellation e) (cancellations a),
      busy := busy a + 1, workers := hm_insert w (k\<lparr>inbox := inbox k @ [task e]\<rparr>) (workers a)\<rparr>"
    have di: "dispatch (w # ws) a = dispatch ws ?b"
      using q w k c pi by (simp add: queue_empty_iff)
    have wi: "worker_inv (?b\<lparr>idle := ws\<rparr>) cs"
      using worker_inv_send [OF Cons.prems(1) k] by simp
    have "cancellation e = i"
      using Cons.prems(2) c x by (simp add: queue_inv_def)
    moreover have "i \<notin> fst ` set xs"
      using pq.distinct_ids [OF pi] c x by simp
    ultimately have qi: "queue_inv ?b"
      using Cons.prems(2) q c x by (auto simp: queue_inv_def)
    have "hm_wf (workers a)" using Cons.prems by (simp add: worker_inv_def)
    from inflight_insert [OF this k, of "k\<lparr>inbox := inbox k @ [task e]\<rparr>"]
    have "mset (inflight (workers ?b)) = add_mset (task e) (mset (inflight (workers a)))"
      by (simp add: wtasks_def split: option.splits)
    then have pt: "pending_tasks ?b = pending_tasks a"
      using q c x by (simp add: pending_tasks_def)
    from Cons.IH [OF wi qi] pt di show ?thesis by auto
  qed
qed

lemma worker_inv_idle_all: "worker_inv a cs \<Longrightarrow> busy a = 0 \<Longrightarrow> set (idle a) = set (executors a)"
  by (rule card_subset_eq) (auto simp: worker_inv_def distinct_card)

text \<open>The state between two turns: enough executors, and none idle while a task waits.\<close>

definition settled :: "'t actor \<Rightarrow> bool" where
  "settled a \<longleftrightarrow>
     (started a \<and> \<not> retiring a \<longrightarrow>
        target a \<le> length (executors a) \<and> (contents (queue a) = [] \<or> idle a = []) \<and>
        (idle a = [] \<or> length (executors a) \<le> target a)) \<and>
     (stopped a \<and> contents (queue a) = [] \<and> busy a = 0 \<longrightarrow> retiring a)"

lemma settle_started:
  assumes wi: "worker_inv a cs" and qi: "queue_inv a"
  shows "\<exists>b. (case retire_idle (target a) (executors a) (idle a) of (ex, ws) \<Rightarrow>
        let a' = spawn_workers (a\<lparr>executors := ex, idle := ws\<rparr>) in dispatch (idle a') a') = Some b \<and>
    worker_inv b cs \<and> queue_inv b \<and> pending_tasks b = pending_tasks a \<and>
    target b \<le> length (executors b) \<and> (contents (queue b) = [] \<or> idle b = []) \<and>
    (idle b = [] \<or> length (executors b) \<le> target b) \<and> target b = target a \<and>
    started b = started a \<and> stopped b = stopped a \<and> retiring b = retiring a \<and> finished b = finished a"
proof -
  obtain ex ws where r: "retire_idle (target a) (executors a) (idle a) = (ex, ws)"
    by fastforce
  let ?r = "a\<lparr>executors := ex, idle := ws\<rparr>"
  let ?s = "spawn_workers ?r"
  have ri: "worker_inv ?r cs" by (rule worker_inv_retire [OF wi r])
  have rt: "ws = [] \<or> length ex \<le> target a"
    using wi retire_idle_spec [OF _ _ _ r] by (auto simp: worker_inv_def)
  note sp = spawn_workers_spec [OF ri]
  have "worker_inv (?s\<lparr>idle := idle ?s\<rparr>) cs" using sp by simp
  moreover have "queue_inv ?s" using qi by (simp add: queue_inv_def)
  ultimately have "\<exists>b. dispatch (idle ?s) ?s = Some b \<and> worker_inv b cs \<and> queue_inv b \<and>
    pending_tasks b = pending_tasks ?s \<and> (contents (queue b) = [] \<or> idle b = []) \<and>
    executors b = executors ?s \<and> target b = target ?s \<and> started b = started ?s \<and>
    stopped b = stopped ?s \<and> retiring b = retiring ?s \<and> finished b = finished ?s \<and>
    (idle b = idle ?s \<or> length (idle b) < length (idle ?s)) \<and> next_worker b = next_worker ?s"
    by (rule dispatch_spec)
  moreover have "pending_tasks ?s = pending_tasks a"
    using sp by (simp add: pending_tasks_def)
  ultimately show ?thesis
    using sp rt by (auto simp: r Let_def)
qed

lemma settle_spec:
  assumes wi: "worker_inv a cs" and qi: "queue_inv a" and ri: "retire_inv a"
    and st: "stopped a \<longrightarrow> started a"
  shows "\<exists>b. actor_settle a = Some b \<and> worker_inv b cs \<and> queue_inv b \<and> retire_inv b \<and> settled b \<and>
    pending_tasks b = pending_tasks a \<and> target b = target a \<and> started b = started a \<and>
    stopped b = stopped a \<and> finished b = finished a"
proof (cases "started a \<and> \<not> retiring a")
  case True
  from settle_started [OF wi qi] obtain b where
    b: "(case retire_idle (target a) (executors a) (idle a) of (ex, ws) \<Rightarrow>
        let a' = spawn_workers (a\<lparr>executors := ex, idle := ws\<rparr>) in dispatch (idle a') a') = Some b"
    and bi: "worker_inv b cs" "queue_inv b" "pending_tasks b = pending_tasks a"
    "target b \<le> length (executors b)" "contents (queue b) = [] \<or> idle b = []"
    "idle b = [] \<or> length (executors b) \<le> target b" "target b = target a"
    "started b = started a" "stopped b = stopped a" "retiring b = retiring a" "finished b = finished a"
    by blast
  have pe: "pq_is_empty (queue b) \<longleftrightarrow> contents (queue b) = []"
    using bi(2) by (simp add: queue_empty_iff queue_inv_def)
  show ?thesis
  proof (cases "stopped b \<and> contents (queue b) = [] \<and> busy b = 0")
    case True
    have "load b cs w = 0" for w
      using bi(1) True worker_inv_idle_all [OF bi(1)] by (simp add: worker_inv_def)
    then have "worker_inv (b\<lparr>retiring := True, executors := [], idle := []\<rparr>) cs"
      using bi(1) True by (auto simp: worker_inv_def load_def)
    with True b bi pe \<open>started a \<and> \<not> retiring a\<close> show ?thesis
      by (auto simp: actor_settle_def queue_inv_def retire_inv_def settled_def pending_tasks_def)
  next
    case False
    with b bi pe \<open>started a \<and> \<not> retiring a\<close> show ?thesis
      by (auto simp: actor_settle_def retire_inv_def settled_def)
  qed
next
  case False
  then have "\<not> (stopped a \<and> pq_is_empty (queue a) \<and> busy a = 0 \<and> \<not> retiring a)"
    using st by blast
  with False wi qi ri st show ?thesis
    by (auto simp: actor_settle_def settled_def)
qed

end
