(* ===== verification/Pool_Runs.thy ===== *)
theory Pool_Runs
  imports Queued_Pool
begin

text \<open>
  Runs of the task pool: the invariant of every reachable state of \<open>pool_step\<close>, the weight that
  every internal step lowers, and the properties of the pool that callers rely on: no reachable
  panic, no task lost or run twice, bounded concurrency, and a \<open>stop\<close> that drains.
\<close>

section \<open>The weight of a state\<close>

text \<open>
  A queued task can still be sent, received and completed, and its completion read; an executor
  can exit and be joined; a command can be read. Commands that may spawn executors carry their
  cost in advance.
\<close>

definition wweight :: "'t worker \<Rightarrow> nat" where
  "wweight k = 2 + 3 * length (inbox k) + (if running k = None then 0 else 2)"

definition workers_weight :: "(worker_id \<times> 't worker) list \<Rightarrow> nat" where
  "workers_weight ws = sum_list (map (wweight \<circ> snd) ws)"

definition act_weight :: "'t actor \<Rightarrow> nat" where
  "act_weight a = 3 * length (contents (queue a)) + length (cancellations a) +
     workers_weight (workers a) + length (finished a) + (if started a then 0 else 2 * target a)"

definition deficit :: "'t actor \<Rightarrow> nat" where
  "deficit a = (if started a \<and> \<not> retiring a then 2 * (target a - length (executors a)) else 0)"

fun cmd_weight :: "'t command \<Rightarrow> nat" where
  "cmd_weight (Add _ _) = 5"
| "cmd_weight (Start n) = 1 + 2 * n"
| "cmd_weight (Resize n) = 1 + 2 * n"
| "cmd_weight Stop = 1"
| "cmd_weight (Ready _) = 1"

definition pool_weight :: "'t pool \<Rightarrow> nat" where
  "pool_weight s = act_weight (act s) + sum_list (map cmd_weight (chan s))"

lemma workers_weight_insert:
  "hm_wf ws \<Longrightarrow> map_of ws w = Some k \<Longrightarrow>
     workers_weight (hm_insert w k' ws) + wweight k = workers_weight ws + wweight k'"
  by (induction ws) (auto simp: workers_weight_def split: if_splits)

lemma workers_weight_new:
  "map_of ws w = None \<Longrightarrow> workers_weight (hm_insert w k ws) = workers_weight ws + wweight k"
  by (simp add: hm_insert_new_append workers_weight_def)

lemma workers_weight_remove:
  "hm_wf ws \<Longrightarrow> map_of ws w = Some k \<Longrightarrow> workers_weight (hm_remove w ws) + wweight k = workers_weight ws"
  by (induction ws) (auto simp: workers_weight_def delete_id split: if_splits)

lemma spawn_workers_weight:
  "worker_inv a cs \<Longrightarrow> workers_weight (workers (spawn_workers a)) =
     workers_weight (workers a) + 2 * (target a - length (executors a))"
proof (induction a rule: spawn_workers.induct)
  case (1 a)
  show ?case
  proof (cases "length (executors a) < target a")
    case True
    have new: "map_of (workers a) (next_worker a) = None"
      using "1.prems" mem_keys_iff [of "next_worker a" "workers a"] by (auto simp: worker_inv_def)
    from "1.IH" [OF True refl worker_inv_spawn_one [OF "1.prems"]] True show ?thesis
      by (simp add: spawn_workers.simps [of a] Let_def workers_weight_new [OF new] wweight_def)
  qed (simp add: spawn_workers.simps [of a])
qed

lemma dispatch_weight:
  "dispatch ws a = Some b \<Longrightarrow> hm_wf (workers a) \<Longrightarrow> pq_inv (queue a) \<Longrightarrow> act_weight b \<le> act_weight a"
proof (induction ws arbitrary: a b)
  case IH: (Cons w ws)
  show ?case
  proof (cases "contents (queue a)")
    case Nil
    with IH.prems show ?thesis by (auto simp: queue_empty_iff act_weight_def)
  next
    case (Cons x xs)
    obtain i e where x: "x = (i, e)" by (cases x)
    from pq.pop_cons [OF IH.prems(3) Cons] x obtain q where
      q: "pq_pop (queue a) = Some (Some (i, e), q)" "pq_inv q" "contents q = xs" by auto
    have ne: "\<not> pq_is_empty (queue a)" using Cons IH.prems by (simp add: queue_empty_iff)
    from IH.prems ne q obtain k where w: "w \<in> set (executors a)" and k: "map_of (workers a) w = Some k"
      by (auto split: if_splits option.splits)
    let ?b = "a\<lparr>queue := q, cancellations := removeAll (cancellation e) (cancellations a),
      busy := busy a + 1, workers := hm_insert w (k\<lparr>inbox := inbox k @ [task e]\<rparr>) (workers a)\<rparr>"
    have "act_weight b \<le> act_weight ?b"
      using IH.IH [of ?b b] IH.prems ne q w k by (simp add: hm_wf_insert)
    also have "act_weight ?b \<le> act_weight a"
      using workers_weight_insert [OF IH.prems(2) k, of "k\<lparr>inbox := inbox k @ [task e]\<rparr>"] q Cons
        length_removeAll_less_eq [of "cancellation e" "cancellations a"]
      by (simp add: act_weight_def wweight_def)
    finally show ?thesis .
  qed
qed (auto simp: act_weight_def)

lemma retire_idle_target:
  "retire_idle tgt ex il = (ex', il') \<Longrightarrow> distinct ex \<Longrightarrow> set il \<subseteq> set ex \<Longrightarrow> distinct il \<Longrightarrow>
     tgt - length ex' = tgt - length ex"
proof (induction tgt ex il arbitrary: ex' il' rule: retire_idle.induct)
  case (2 tgt ex w ws)
  then show ?case
    using length_removeAll_distinct [of ex w]
    by (auto simp: distinct_removeAll split: if_splits)
qed auto

lemma settle_weight:
  assumes wi: "worker_inv a cs" and qi: "queue_inv a" and se: "actor_settle a = Some b"
  shows "act_weight b \<le> act_weight a + deficit a"
proof -
  obtain c where c: "(if started a \<and> \<not> retiring a
            then (case retire_idle (target a) (executors a) (idle a) of (ex, ws) \<Rightarrow>
                    let a' = spawn_workers (a\<lparr>executors := ex, idle := ws\<rparr>) in dispatch (idle a') a')
            else Some a) = Some c" and b: "act_weight b = act_weight c"
    using se by (auto simp: actor_settle_def act_weight_def split: option.splits)
  show ?thesis
  proof (cases "started a \<and> \<not> retiring a")
    case True
    obtain ex ws where r: "retire_idle (target a) (executors a) (idle a) = (ex, ws)"
      by fastforce
    let ?r = "a\<lparr>executors := ex, idle := ws\<rparr>"
    have ri: "worker_inv ?r cs" by (rule worker_inv_retire [OF wi r])
    have "dispatch (idle (spawn_workers ?r)) (spawn_workers ?r) = Some c"
      using c True r by (simp add: Let_def)
    moreover have "hm_wf (workers (spawn_workers ?r))"
      using spawn_workers_spec [OF ri] by (simp add: worker_inv_def)
    ultimately have "act_weight c \<le> act_weight (spawn_workers ?r)"
      using qi by (intro dispatch_weight) (simp_all add: queue_inv_def)
    also have "\<dots> = act_weight a + 2 * (target a - length ex)"
      using spawn_workers_weight [OF ri] True by (simp add: act_weight_def)
    also have "\<dots> = act_weight a + deficit a"
      using retire_idle_target [OF r] wi True by (simp add: worker_inv_def deficit_def)
    finally show ?thesis using b by simp
  next
    case False
    with c b show ?thesis by auto
  qed
qed


section \<open>One turn of the actor\<close>

definition actor_inv :: "'t actor \<Rightarrow> 't command list \<Rightarrow> bool" where
  "actor_inv a cs \<longleftrightarrow> queue_inv a \<and> worker_inv a cs \<and> retire_inv a \<and> (stopped a \<longrightarrow> started a)"

text \<open>An event that can occur with channel \<open>cs\<close>, and the channel after it.\<close>

fun enabled :: "'t actor \<Rightarrow> 't event \<Rightarrow> 't command list \<Rightarrow> 't command list \<Rightarrow> bool" where
  "enabled a (Cancelled i) cs cs' \<longleftrightarrow> i \<in> set (cancellations a) \<and> cs' = cs"
| "enabled a (Received (Some c) _) cs cs' \<longleftrightarrow> cs = c # cs'"
| "enabled a (Received None _) cs cs' \<longleftrightarrow> False"
| "enabled a (Joined w) cs cs' \<longleftrightarrow> w \<in> set (finished a) \<and> cs' = cs"

definition admitted :: "('t \<times> runtime_error option) option \<Rightarrow> 't multiset" where
  "admitted r = (case r of Some (t, None) \<Rightarrow> {#t#} | _ \<Rightarrow> {#})"

lemma load_no_ready [simp]: "(\<forall>w. c \<noteq> Ready w) \<Longrightarrow> load a (c # cs) w = load a cs w"
  by (simp add: load_def)

lemma worker_inv_skip: "(\<forall>w. c \<noteq> Ready w) \<Longrightarrow> worker_inv a (c # cs) \<longleftrightarrow> worker_inv a cs"
  by (simp add: worker_inv_def)

lemma worker_inv_ready:
  assumes inv: "worker_inv a (Ready w # cs)"
  shows "0 < busy a \<and> w \<in> set (executors a) \<and>
    worker_inv (a\<lparr>busy := busy a - 1, idle := idle a @ [w]\<rparr>) cs"
proof -
  have "load a (Ready w # cs) w > 0" by (simp add: load_def)
  with inv have w: "w \<in> set (executors a)" "w \<notin> set (idle a)"
    by (auto simp: worker_inv_def split: if_splits)
  with inv have b: "0 < busy a"
    using worker_inv_idle_all by blast
  have ld: "load (a\<lparr>busy := busy a - 1, idle := idle a @ [w]\<rparr>) cs v =
      load a (Ready w # cs) v - (if v = w then 1 else 0)" for v
    by (simp add: load_def)
  show ?thesis
    using inv w b unfolding worker_inv_def ld by auto
qed

lemma worker_inv_frame:
  "workers b = workers a \<Longrightarrow> next_worker b = next_worker a \<Longrightarrow> executors b = executors a \<Longrightarrow>
   idle b = idle a \<Longrightarrow> busy b = busy a \<Longrightarrow> worker_inv b cs \<longleftrightarrow> worker_inv a cs"
  by (simp add: worker_inv_def load_def)

text \<open>What a turn's \<open>select!\<close> guarantees of the state before and after it.\<close>

definition select_post :: "'t actor \<Rightarrow> 't command list \<Rightarrow> ('t \<times> runtime_error option) option \<Rightarrow>
    't actor \<Rightarrow> 't command list \<Rightarrow> bool" where
  "select_post a cs r b cs' \<longleftrightarrow> actor_inv b cs' \<and> pending_tasks b = pending_tasks a + admitted r \<and>
     (stopped a \<longrightarrow> stopped b) \<and> (stopped a \<and> r \<noteq> None \<longrightarrow> snd (the r) \<noteq> None) \<and>
     act_weight b + deficit b + sum_list (map cmd_weight cs') < act_weight a + sum_list (map cmd_weight cs)"

lemma settled_deficit: "settled a \<Longrightarrow> deficit a = 0"
  by (simp add: settled_def deficit_def)

lemma select_cancelled:
  assumes inv: "actor_inv a cs" "settled a" and i: "i \<in> set (cancellations a)"
  shows "\<exists>b. actor_select name (Cancelled i) a = Some (None, b) \<and> select_post a cs None b cs \<and> target b = target a"
proof -
  have "pq_inv (queue a)" using inv by (simp add: actor_inv_def queue_inv_def)
  then obtain f q where q: "pq_promote i (queue a) = Some (f, q)" "pq_inv q"
    "mset (contents q) = mset (contents (queue a))"
    by (rule pq.promote_obtain)
  then have sq: "set (contents q) = set (contents (queue a))" and
    lq: "length (contents q) = length (contents (queue a))"
    by (metis mset_eq_setD, metis size_mset)
  let ?b = "a\<lparr>queue := q, cancellations := removeAll i (cancellations a)\<rparr>"
  have "queue_inv ?b" and "retire_inv ?b"
    using inv q sq by (auto simp: actor_inv_def queue_inv_def retire_inv_def)
  moreover have "worker_inv ?b cs"
    using inv worker_inv_frame [of ?b a] by (simp add: actor_inv_def)
  ultimately have "actor_inv ?b cs"
    using inv by (simp add: actor_inv_def)
  moreover have "pending_tasks ?b = pending_tasks a + admitted None"
    using q by (simp add: pending_tasks_def admitted_def)
  moreover have "act_weight ?b < act_weight a"
    using length_removeAll_less [OF i] lq by (simp add: act_weight_def)
  moreover have "deficit ?b = 0"
    using inv(2) by (auto simp: settled_def deficit_def)
  ultimately show ?thesis
    using q by (simp add: select_post_def)
qed

lemma select_add:
  assumes inv: "actor_inv a (Add p t # cs)" "settled a"
  shows "\<exists>r b. actor_select name (Received (Some (Add p t)) c) a = Some (r, b) \<and>
    select_post a (Add p t # cs) r b cs \<and> target b = target a"
proof (cases "stopped a \<or> c")
  case True
  with inv settled_deficit [OF inv(2)] show ?thesis
    by (auto simp: select_post_def admitted_def actor_inv_def worker_inv_skip)
next
  case False
  let ?i = "next_task a" and ?e = "\<lparr>task = t, cancellation = next_task a\<rparr>"
  have pi: "pq_inv (queue a)" and "?i \<notin> fst ` set (contents (queue a))"
    using inv by (auto simp: actor_inv_def queue_inv_def)
  then obtain q where q: "pq_push ?i p ?e (queue a) = Some q" "pq_inv q"
    "mset (contents q) = add_mset (?i, ?e) (mset (contents (queue a)))"
    by (rule pq.push_obtain)
  then have sq: "set (contents q) = insert (?i, ?e) (set (contents (queue a)))" and
    lq: "length (contents q) = Suc (length (contents (queue a)))"
    by (metis set_mset_add_mset_insert set_mset_mset, metis size_mset size_add_mset)
  let ?b = "a\<lparr>next_task := ?i + 1, cancellations := cancellations a @ [?i], queue := q\<rparr>"
  have "queue_inv ?b"
    using inv q sq by (auto simp: actor_inv_def queue_inv_def less_Suc_eq)
  moreover have "retire_inv ?b"
    using inv False by (auto simp: actor_inv_def retire_inv_def)
  moreover have "worker_inv ?b cs"
    using inv worker_inv_frame [of ?b a] by (simp add: actor_inv_def worker_inv_skip)
  ultimately have "actor_inv ?b cs"
    using inv by (simp add: actor_inv_def)
  moreover have "pending_tasks ?b = pending_tasks a + admitted (Some (t, None))"
    using q by (simp add: pending_tasks_def admitted_def)
  moreover have "act_weight ?b = act_weight a + 4"
    using lq by (simp add: act_weight_def)
  moreover have "deficit ?b = 0"
    using inv(2) by (auto simp: settled_def deficit_def)
  ultimately show ?thesis
    using q False by (simp add: select_post_def Let_def)
qed

lemma select_start:
  assumes inv: "actor_inv a (Start n # cs)" "settled a"
  shows "\<exists>b. actor_select name (Received (Some (Start n)) c) a = Some (None, b) \<and>
    select_post a (Start n # cs) None b cs \<and> target b \<in> {target a, n}"
proof (cases "stopped a")
  case True
  with inv settled_deficit [OF inv(2)] show ?thesis
    by (auto simp: select_post_def admitted_def actor_inv_def worker_inv_skip)
next
  case False
  let ?b = "a\<lparr>started := True, target := n\<rparr>"
  have "worker_inv ?b cs"
    using inv worker_inv_frame [of ?b a] by (simp add: actor_inv_def worker_inv_skip)
  with inv False have "actor_inv ?b cs"
    by (simp add: actor_inv_def queue_inv_def retire_inv_def)
  moreover have "act_weight ?b \<le> act_weight a" "deficit ?b \<le> 2 * n"
    by (simp_all add: act_weight_def deficit_def)
  ultimately show ?thesis
    using False by (simp add: select_post_def admitted_def pending_tasks_def)
qed

lemma select_resize:
  assumes inv: "actor_inv a (Resize n # cs)" "settled a"
  shows "\<exists>b. actor_select name (Received (Some (Resize n)) c) a = Some (None, b) \<and>
    select_post a (Resize n # cs) None b cs \<and> target b \<in> {target a, n}"
proof (cases "stopped a")
  case True
  with inv settled_deficit [OF inv(2)] show ?thesis
    by (auto simp: select_post_def admitted_def actor_inv_def worker_inv_skip)
next
  case False
  let ?b = "a\<lparr>target := n\<rparr>"
  have "worker_inv ?b cs"
    using inv worker_inv_frame [of ?b a] by (simp add: actor_inv_def worker_inv_skip)
  with inv False have "actor_inv ?b cs"
    by (simp add: actor_inv_def queue_inv_def retire_inv_def)
  moreover have "act_weight ?b + deficit ?b \<le> act_weight a + 2 * n"
    by (simp add: act_weight_def deficit_def)
  ultimately show ?thesis
    using False by (simp add: select_post_def admitted_def pending_tasks_def)
qed

lemma select_stop:
  assumes inv: "actor_inv a (Stop # cs)" "settled a"
  shows "\<exists>b. actor_select name (Received (Some Stop) c) a = Some (None, b) \<and>
    select_post a (Stop # cs) None b cs \<and> target b = target a \<and> stopped b"
proof -
  let ?b = "a\<lparr>stopped := True, started := True\<rparr>"
  have "worker_inv ?b cs"
    using inv worker_inv_frame [of ?b a] by (simp add: actor_inv_def worker_inv_skip)
  with inv have "actor_inv ?b cs"
    by (simp add: actor_inv_def queue_inv_def retire_inv_def)
  moreover have "act_weight ?b + deficit ?b \<le> act_weight a"
    using inv(2) by (auto simp: act_weight_def deficit_def settled_def)
  ultimately show ?thesis
    by (simp add: select_post_def admitted_def pending_tasks_def)
qed

lemma select_ready:
  assumes inv: "actor_inv a (Ready w # cs)" "settled a"
  shows "\<exists>b. actor_select name (Received (Some (Ready w)) c) a = Some (None, b) \<and>
    select_post a (Ready w # cs) None b cs \<and> target b = target a"
proof -
  let ?b = "a\<lparr>busy := busy a - 1, idle := idle a @ [w]\<rparr>"
  have w: "0 < busy a" "w \<in> set (executors a)" "worker_inv ?b cs"
    using worker_inv_ready [of a w cs] inv by (auto simp: actor_inv_def)
  with inv have "actor_inv ?b cs"
    by (simp add: actor_inv_def queue_inv_def retire_inv_def)
  moreover have "act_weight ?b = act_weight a" "deficit ?b = 0"
    using inv(2) by (auto simp: act_weight_def deficit_def settled_def)
  ultimately show ?thesis
    using w by (simp add: select_post_def admitted_def pending_tasks_def)
qed

lemma select_joined:
  assumes inv: "actor_inv a cs" "settled a" and w: "w \<in> set (finished a)"
  shows "\<exists>b. actor_select name (Joined w) a = Some (None, b) \<and> select_post a cs None b cs \<and> target b = target a"
proof -
  let ?b = "a\<lparr>finished := removeAll w (finished a)\<rparr>"
  have "worker_inv ?b cs"
    using inv worker_inv_frame [of ?b a] by (simp add: actor_inv_def)
  with inv have "actor_inv ?b cs"
    by (simp add: actor_inv_def queue_inv_def retire_inv_def)
  moreover have "act_weight ?b < act_weight a"
    using length_removeAll_less [OF w] by (simp add: act_weight_def)
  moreover have "deficit ?b = 0"
    using inv(2) by (auto simp: settled_def deficit_def)
  ultimately show ?thesis
    by (simp add: select_post_def admitted_def pending_tasks_def)
qed

lemma select_spec:
  assumes inv: "actor_inv a cs" "settled a" and en: "enabled a ev cs cs'"
  shows "\<exists>r b. actor_select name ev a = Some (r, b) \<and> select_post a cs r b cs' \<and>
    (target b = target a \<or> Start (target b) \<in> set cs \<or> Resize (target b) \<in> set cs) \<and>
    (Stop \<in> set cs \<longrightarrow> stopped b \<or> Stop \<in> set cs')"
proof (cases ev)
  case (Cancelled i)
  with en select_cancelled [OF inv] show ?thesis by fastforce
next
  case (Joined w)
  with en select_joined [OF inv] show ?thesis by fastforce
next
  case (Received m c)
  with en obtain d where d: "m = Some d" and cs: "cs = d # cs'"
    by (cases m) auto
  from inv(1) have i: "actor_inv a (d # cs')" by (simp add: cs)
  show ?thesis
  proof (cases d)
    case (Add p t)
    with select_add [of a p t cs' name c] i inv(2) cs d Received show ?thesis by fastforce
  next
    case (Start n)
    with select_start [of a n cs' name c] i inv(2) cs d Received show ?thesis
      by (auto simp del: actor_select.simps)
  next
    case (Resize n)
    with select_resize [of a n cs' name c] i inv(2) cs d Received show ?thesis
      by (auto simp del: actor_select.simps)
  next
    case Stop
    with select_stop [of a cs' name c] i inv(2) cs d Received show ?thesis
      by (auto simp del: actor_select.simps)
  next
    case (Ready w)
    with select_ready [of a w cs' name c] i inv(2) cs d Received show ?thesis
      by (auto simp del: actor_select.simps)
  qed
qed

section \<open>The invariant of the pool\<close>

definition accepted :: "'t pool \<Rightarrow> 't multiset" where
  "accepted s = mset (map fst (filter (\<lambda>r. snd r = None) (replies s)))"

definition pool_inv :: "'t pool \<Rightarrow> bool" where
  "pool_inv s \<longleftrightarrow> actor_inv (act s) (chan s) \<and> settled (act s) \<and> ended s = actor_done (act s) \<and>
     accepted s = pending_tasks (act s) + mset (completed s) \<and>
     (\<not> launched s \<longrightarrow> act s = actor_new (priority s) 0) \<and> (launched s \<longrightarrow> 1 \<le> target (act s)) \<and>
     (\<forall>n. Start n \<in> set (chan s) \<or> Resize n \<in> set (chan s) \<longrightarrow> 1 \<le> n) \<and>
     (pstate s = 2 \<longrightarrow> launched s \<and> (stopped (act s) \<or> Stop \<in> set (chan s)))"

lemma accepted_reply:
  "accepted (s\<lparr>replies := replies s @ (case r of None \<Rightarrow> [] | Some x \<Rightarrow> [x])\<rparr>) = accepted s + admitted r"
  by (auto simp: accepted_def admitted_def split: option.splits)

lemma turn_spec:
  assumes inv: "pool_inv s" and l: "launched s" and en: "enabled (act s) ev (chan s) cs"
  shows "\<exists>s'. actor_turn ev (s\<lparr>chan := cs\<rparr>) = Some s' \<and> pool_inv s' \<and> pool_weight s' < pool_weight s \<and>
    chan s' = cs \<and> launched s' \<and> pstate s' = pstate s"
proof -
  have ai: "actor_inv (act s) (chan s)" "settled (act s)"
    using inv by (simp_all add: pool_inv_def)
  from select_spec [OF ai en, of "pname s"] obtain r a where
    sel: "actor_select (pname s) ev (act s) = Some (r, a)" "select_post (act s) (chan s) r a cs"
    and tg: "target a = target (act s) \<or> Start (target a) \<in> set (chan s) \<or> Resize (target a) \<in> set (chan s)"
    and sp: "Stop \<in> set (chan s) \<longrightarrow> stopped a \<or> Stop \<in> set cs"
    by blast
  have a: "worker_inv a cs" "queue_inv a" "retire_inv a" "stopped a \<longrightarrow> started a"
    using sel(2) by (simp_all add: select_post_def actor_inv_def)
  from settle_spec [OF a] obtain b where
    b: "actor_settle a = Some b" "worker_inv b cs" "queue_inv b" "retire_inv b" "settled b"
    "pending_tasks b = pending_tasks a" "target b = target a" "started b = started a"
    "stopped b = stopped a" "finished b = finished a"
    by blast
  let ?s = "s\<lparr>chan := cs, act := b, ended := actor_done b,
    replies := replies s @ (case r of None \<Rightarrow> [] | Some x \<Rightarrow> [x])\<rparr>"
  have turn: "actor_turn ev (s\<lparr>chan := cs\<rparr>) = Some ?s"
    using sel(1) b(1) by (simp add: actor_turn_def)
  have "accepted ?s = accepted s + admitted r"
    using accepted_reply [of s r] by (simp add: accepted_def)
  then have acc: "accepted ?s = pending_tasks b + mset (completed s)"
    using inv sel(2) b(6) by (simp add: pool_inv_def select_post_def)
  have sub: "set cs \<subseteq> set (chan s)"
    using en by (cases ev; cases "chan s") (auto elim: enabled.elims)
  have "1 \<le> target b"
    using tg inv l b(7) by (auto simp: pool_inv_def)
  moreover have "pstate s = 2 \<longrightarrow> stopped b \<or> Stop \<in> set cs"
    using inv sp sel(2) b(9) by (auto simp: pool_inv_def select_post_def)
  moreover have "actor_inv b cs"
    using b a by (simp add: actor_inv_def)
  moreover have "\<forall>n. Start n \<in> set cs \<or> Resize n \<in> set cs \<longrightarrow> 1 \<le> n"
    using inv sub by (auto simp: pool_inv_def)
  ultimately have "pool_inv ?s"
    using acc l b(5) by (simp add: pool_inv_def)
  moreover have "pool_weight ?s < pool_weight s"
    using settle_weight [OF a(1,2) b(1)] sel(2) by (simp add: pool_weight_def select_post_def)
  ultimately show ?thesis
    using turn l by auto
qed

subsection \<open>Executor steps\<close>

lemma worker_inv_update:
  assumes inv: "worker_inv a cs" and k: "map_of (workers a) w = Some k"
    and c: "length (wtasks k') + count_list cs' (Ready w) = length (wtasks k) + count_list cs (Ready w)"
    and o: "\<And>v. v \<noteq> w \<Longrightarrow> count_list cs' (Ready v) = count_list cs (Ready v)"
  shows "worker_inv (a\<lparr>workers := hm_insert w k' (workers a)\<rparr>) cs'"
proof -
  have ld: "load (a\<lparr>workers := hm_insert w k' (workers a)\<rparr>) cs' v = load a cs v" for v
    using k c o [of v] by (auto simp: load_def)
  have "w < next_worker a"
    using inv k by (force simp: worker_inv_def dest: map_of_Some_mem)
  with inv show ?thesis
    unfolding worker_inv_def ld by (auto simp: worker_keys hm_wf_insert)
qed

text \<open>A step of executor \<open>w\<close> changes only its own record, the channel and the completed tasks.\<close>

lemma worker_step_inv:
  assumes inv: "pool_inv s" and wi: "worker_inv (act s) (chan s) \<Longrightarrow> worker_inv ((act s)\<lparr>workers := ws, finished := fin\<rparr>) (chan s @ ready)"
    and pt: "mset (inflight ws) + mset done = mset (inflight (workers (act s)))"
    and rd: "\<And>c. c \<in> set ready \<Longrightarrow> \<exists>w. c = Ready w" and ne: "ws \<noteq> [] \<or> fin \<noteq> []"
    and l: "workers (act s) \<noteq> []"
  shows "pool_inv (s\<lparr>act := (act s)\<lparr>workers := ws, finished := fin\<rparr>,
    completed := completed s @ done, chan := chan s @ ready\<rparr>)" (is "pool_inv ?s")
proof -
  have "launched s" using inv l by (auto simp: pool_inv_def actor_new_def)
  have "pending_tasks (act ?s) + mset (completed ?s) =
      image_mset (task \<circ> snd) (mset (contents (queue (act s)))) + (mset (inflight ws) + mset done) + mset (completed s)"
    by (simp add: pending_tasks_def ac_simps)
  also have "\<dots> = accepted s"
    using inv unfolding pt by (simp add: pool_inv_def pending_tasks_def)
  finally have "accepted ?s = pending_tasks (act ?s) + mset (completed ?s)"
    by (simp add: accepted_def)
  moreover have "actor_inv (act ?s) (chan ?s)"
    using inv wi by (simp add: pool_inv_def actor_inv_def queue_inv_def retire_inv_def)
  moreover have "\<forall>n. Start n \<in> set (chan ?s) \<or> Resize n \<in> set (chan ?s) \<longrightarrow> 1 \<le> n"
    using inv rd by (auto simp: pool_inv_def)
  moreover have "settled (act ?s)" "\<not> actor_done (act ?s)" "\<not> ended ?s"
    using inv ne l by (auto simp: pool_inv_def settled_def actor_done_def)
  ultimately show ?thesis
    using inv \<open>launched s\<close> unfolding pool_inv_def by auto
qed

lemma workers_wf: "pool_inv s \<Longrightarrow> hm_wf (workers (act s))"
  by (simp add: pool_inv_def actor_inv_def worker_inv_def)

lemma recv_inv:
  assumes inv: "pool_inv s" and st: "worker_recv w s = Some s'"
  shows "pool_inv s' \<and> pool_weight s' < pool_weight s \<and> pstate s' = pstate s"
proof -
  from st obtain k t ts where k: "map_of (workers (act s)) w = Some k" "running k = None" "inbox k = t # ts"
    and s': "s' = s\<lparr>act := (act s)\<lparr>workers := hm_insert w \<lparr>inbox = ts, running = Some t\<rparr> (workers (act s))\<rparr>\<rparr>"
    by (auto simp: worker_recv_def split: option.splits list.splits)
  let ?k = "\<lparr>inbox = ts, running = Some t\<rparr>"
  have "pool_inv (s\<lparr>act := (act s)\<lparr>workers := hm_insert w ?k (workers (act s)), finished := finished (act s)\<rparr>,
    completed := completed s @ [], chan := chan s @ []\<rparr>)"
    using worker_inv_update [OF _ k(1), of "chan s" ?k] k inflight_insert [OF workers_wf [OF inv] k(1), of ?k]
    by (intro worker_step_inv [OF inv]) (auto simp: wtasks_def)
  moreover have "pool_weight s' < pool_weight s"
    using workers_weight_insert [OF workers_wf [OF inv] k(1), of ?k] k
    by (simp add: s' pool_weight_def act_weight_def wweight_def)
  ultimately show ?thesis by (simp add: s')
qed

lemma done_inv:
  assumes inv: "pool_inv s" and st: "worker_done w s = Some s'"
  shows "pool_inv s' \<and> pool_weight s' < pool_weight s \<and> pstate s' = pstate s"
proof -
  from st obtain k t where k: "map_of (workers (act s)) w = Some k" "running k = Some t"
    and s': "s' = s\<lparr>act := (act s)\<lparr>workers := hm_insert w (k\<lparr>running := None\<rparr>) (workers (act s))\<rparr>,
                 completed := completed s @ [t], chan := chan s @ [Ready w]\<rparr>"
    by (auto simp: worker_done_def split: option.splits)
  let ?k = "k\<lparr>running := None\<rparr>"
  have "pool_inv (s\<lparr>act := (act s)\<lparr>workers := hm_insert w ?k (workers (act s)), finished := finished (act s)\<rparr>,
    completed := completed s @ [t], chan := chan s @ [Ready w]\<rparr>)"
    using worker_inv_update [OF _ k(1), of "chan s" ?k "chan s @ [Ready w]"] k
      inflight_insert [OF workers_wf [OF inv] k(1), of ?k]
    by (intro worker_step_inv [OF inv]) (auto simp: wtasks_def)
  moreover have "pool_weight s' < pool_weight s"
    using workers_weight_insert [OF workers_wf [OF inv] k(1), of ?k] k
    by (simp add: s' pool_weight_def act_weight_def wweight_def)
  ultimately show ?thesis by (simp add: s')
qed

lemma exit_inv:
  assumes inv: "pool_inv s" and st: "worker_exit w s = Some s'"
  shows "pool_inv s' \<and> pool_weight s' < pool_weight s \<and> pstate s' = pstate s"
proof -
  from st obtain k where k: "map_of (workers (act s)) w = Some k" "running k = None" "inbox k = []"
    "w \<notin> set (executors (act s))"
    and s': "s' = s\<lparr>act := (act s)\<lparr>workers := hm_remove w (workers (act s)), finished := finished (act s) @ [w]\<rparr>\<rparr>"
    by (auto simp: worker_exit_def split: option.splits if_splits)
  let ?a = "(act s)\<lparr>workers := hm_remove w (workers (act s)), finished := finished (act s) @ [w]\<rparr>"
  have ld: "load ?a (chan s) v = load (act s) (chan s) v" for v
    using k by (simp add: load_def wtasks_def)
  have "worker_inv (act s) (chan s) \<Longrightarrow> worker_inv ?a (chan s)"
    using k(4) unfolding worker_inv_def ld by (auto simp: hm_wf_remove hm_keys_dom domI)
  then have "pool_inv (s\<lparr>act := ?a, completed := completed s @ [], chan := chan s @ []\<rparr>)"
    using k inflight_remove [OF workers_wf [OF inv] k(1)]
    by (intro worker_step_inv [OF inv]) (auto simp: wtasks_def)
  moreover have "pool_weight s' < pool_weight s"
    using workers_weight_remove [OF workers_wf [OF inv] k(1)] k
    by (simp add: s' pool_weight_def act_weight_def wweight_def)
  ultimately show ?thesis by (simp add: s')
qed

subsection \<open>Callers\<close>

lemma actor_new_inv: "(\<forall>w. Ready w \<notin> set cs) \<Longrightarrow> actor_inv (actor_new prio n) cs \<and> settled (actor_new prio n)"
  by (simp add: actor_inv_def queue_inv_def worker_inv_def retire_inv_def settled_def actor_new_def
      load_def pq_new_inv count_list_0_iff)

lemma pending_tasks_new [simp]: "pending_tasks (actor_new prio n) = {#}"
  using pq_new_inv [of prio] by (simp add: pending_tasks_def actor_new_def inflight_def)

lemma actor_new_simps [simp]:
  "\<not> actor_done (actor_new prio n)" "target (actor_new prio n) = n" "workers (actor_new prio n) = []"
  "executors (actor_new prio n) = []" "stopped (actor_new prio n) = False"
  by (simp_all add: actor_done_def actor_new_def)

lemma pool_new_inv: "pool_inv (pool_new name prio)"
  using actor_new_inv [of "[]" prio 0]
  by (simp add: pool_inv_def pool_new_def accepted_def)

lemma launch_inv:
  assumes inv: "pool_inv s" and n: "1 \<le> n"
  shows "pool_inv (pool_launch n s) \<and> launched (pool_launch n s)"
proof (cases "launched s")
  case False
  then have a: "act s = actor_new (priority s) 0" using inv by (simp add: pool_inv_def)
  have "worker_inv (act s) (chan s)" using inv by (simp add: pool_inv_def actor_inv_def)
  with a have "load (act s) (chan s) w = 0" for w
    by (simp add: worker_inv_def)
  then have "\<forall>w. Ready w \<notin> set (chan s)"
    using a by (simp add: load_def count_list_0_iff)
  with inv False n a actor_new_inv [of "chan s" "priority s" n] show ?thesis
    by (auto simp: pool_launch_def pool_inv_def accepted_def)
qed (use inv in \<open>simp add: pool_launch_def\<close>)

lemma worker_inv_append: "(\<forall>w. c \<noteq> Ready w) \<Longrightarrow> worker_inv a (cs @ [c]) \<longleftrightarrow> worker_inv a cs"
  by (simp add: worker_inv_def load_def)

lemma send_inv:
  assumes inv: "pool_inv s" and c: "\<forall>w. c \<noteq> Ready w" "\<forall>n. c = Start n \<or> c = Resize n \<longrightarrow> 1 \<le> n"
  shows "pool_inv (snd (pool_send c s))"
  using inv c by (auto simp: pool_send_def pool_inv_def actor_inv_def worker_inv_append accepted_def)

lemma stop_inv:
  assumes inv: "pool_inv s" and l: "launched s"
  shows "pool_inv (snd (pool_send Stop (s\<lparr>pstate := 2\<rparr>)))"
proof (cases "ended s")
  case True
  with inv have "stopped (act s)"
    by (simp add: pool_inv_def actor_inv_def retire_inv_def actor_done_def)
  with inv l True show ?thesis by (simp add: pool_send_def pool_inv_def accepted_def)
next
  case False
  with inv l show ?thesis
    by (auto simp: pool_send_def pool_inv_def accepted_def actor_inv_def worker_inv_append)
qed

lemma resolve_executors_pos: "1 \<le> cpus \<Longrightarrow> 1 \<le> resolve_executors cpus n"
  by (simp add: resolve_executors_def)

lemma pool_inv_pstate1: "pool_inv s \<Longrightarrow> pool_inv (s\<lparr>pstate := 1\<rparr>)"
  by (simp add: pool_inv_def accepted_def)

lemma api_inv:
  assumes inv: "pool_inv s" and n: "1 \<le> n"
  shows "pool_inv (snd (pool_start n s))" "pool_inv (pool_reload_config n s)"
    "pool_inv (snd (pool_add_task b n p t s))" "pool_inv (pool_stop n s)"
proof -
  have "pool_inv (snd (pool_send (Start n) (pool_launch n (s\<lparr>pstate := 1\<rparr>))))"
    using n launch_inv [OF pool_inv_pstate1 [OF inv] n] by (intro send_inv) auto
  then show "pool_inv (snd (pool_start n s))"
    using inv by (simp add: pool_start_def split_def)
  show "pool_inv (pool_reload_config n s)"
    unfolding pool_reload_config_def using n inv by (intro send_inv) auto
  have "pool_inv (snd (pool_send (Add p t) (pool_launch n s)))"
    using n launch_inv [OF inv n] by (intro send_inv) auto
  then show "pool_inv (snd (pool_add_task b n p t s))"
    using inv by (simp add: pool_add_task_def split_def)
  show "pool_inv (pool_stop n s)"
    using launch_inv [OF inv n] stop_inv by (auto simp: pool_stop_def Let_def)
qed

lemma internal_step_inv:
  assumes st: "internal_step s s'" and inv: "pool_inv s"
  shows "pool_inv s' \<and> pool_weight s' < pool_weight s \<and> pstate s' = pstate s"
  using st
proof cases
  case (on_cancel i)
  with turn_spec [OF inv, of "Cancelled i" "chan s"] show ?thesis by auto
next
  case (on_command c cs b)
  with turn_spec [OF inv, of "Received (Some c) b" cs] show ?thesis by auto
next
  case (on_join w)
  with turn_spec [OF inv, of "Joined w" "chan s"] show ?thesis by auto
qed (use inv recv_inv done_inv exit_inv in blast)+

lemma reachable_inv: "pool_reachable cpus name prio s \<Longrightarrow> 1 \<le> cpus \<Longrightarrow> pool_inv s"
proof (induction rule: pool_reachable.induct)
  case init
  show ?case by (rule pool_new_inv)
next
  case (step s s')
  then have inv: "pool_inv s" by simp
  from step.hyps(2) show ?case
    by cases (use inv step.prems in \<open>auto simp: internal_step_inv intro!: api_inv resolve_executors_pos\<close>)
qed

section \<open>Progress\<close>

lemma progress:
  assumes inv: "pool_inv s" and p: "pstate s = 2" and e: "\<not> ended s"
  shows "\<exists>s'. internal_step s s'"
proof (rule ccontr)
  assume stuck: "\<nexists>s'. internal_step s s'"
  have l: "launched s" using inv p by (simp add: pool_inv_def)
  have ch: "chan s = []"
  proof (cases "chan s")
    case (Cons c cs)
    with turn_spec [OF inv l, of "Received (Some c) False" cs] l e stuck internal_step.on_command
    show ?thesis by fastforce
  qed
  have "\<exists>x. worker_done w s = Some x" if "map_of (workers (act s)) w = Some k" "running k \<noteq> None" for w k
    using that by (auto simp: worker_done_def)
  moreover have "\<exists>x. worker_recv w s = Some x"
    if "map_of (workers (act s)) w = Some k" "running k = None" "inbox k \<noteq> []" for w k
    using that by (auto simp: worker_recv_def neq_Nil_conv)
  ultimately have idle: "running k = None \<and> inbox k = []" if "map_of (workers (act s)) w = Some k" for w k
    using that stuck on_done on_recv by metis
  then have ld: "load (act s) (chan s) w = 0" for w
    by (simp add: load_def ch wtasks_def split: option.split)
  have wi: "worker_inv (act s) (chan s)" and se: "settled (act s)" and st: "stopped (act s)" "started (act s)"
    using inv p ch by (simp_all add: pool_inv_def actor_inv_def)
  have sub: "set (executors (act s)) \<subseteq> set (idle (act s))"
    using wi ld unfolding worker_inv_def by (auto split: if_splits)
  have "set (idle (act s)) = set (executors (act s))"
    using wi sub by (auto simp: worker_inv_def)
  then have b: "busy (act s) = 0"
    using wi unfolding worker_inv_def by (metis add_cancel_left_left distinct_card)
  have "contents (queue (act s)) = []"
  proof (rule ccontr)
    assume c: "contents (queue (act s)) \<noteq> []"
    then have "\<not> retiring (act s)" using inv by (auto simp: pool_inv_def actor_inv_def retire_inv_def)
    with c se st have "idle (act s) = []" "target (act s) \<le> length (executors (act s))"
      by (auto simp: settled_def)
    with sub inv l show False by (auto simp: pool_inv_def)
  qed
  with se st b have r: "retiring (act s)" by (simp add: settled_def)
  then have ex: "executors (act s) = []" using inv by (simp add: pool_inv_def actor_inv_def retire_inv_def)
  have "workers (act s) = []"
  proof (rule ccontr)
    assume "workers (act s) \<noteq> []"
    then obtain w k where "map_of (workers (act s)) w = Some k"
      using workers_wf [OF inv] by (metis hm_mem_iff list.set_sel(1) surj_pair)
    with idle [OF this] ex have "\<exists>x. worker_exit w s = Some x" by (simp add: worker_exit_def)
    with stuck on_exit show False by blast
  qed
  with r e inv have "finished (act s) \<noteq> []" by (auto simp: pool_inv_def actor_done_def)
  then obtain w where "w \<in> set (finished (act s))" by (meson list.set_sel(1))
  with turn_spec [OF inv l, of "Joined w" "chan s"] l e stuck internal_step.on_join show False by fastforce
qed

lemma internal_steps_inv:
  "internal_step\<^sup>*\<^sup>* s s' \<Longrightarrow> pool_inv s \<Longrightarrow> pool_inv s' \<and> pstate s' = pstate s"
  by (induction rule: rtranclp_induct) (auto simp: internal_step_inv)

lemma internal_acc: "pool_inv s \<Longrightarrow> Wellfounded.accp (\<lambda>x y. internal_step y x) s"
proof (induction "pool_weight s" arbitrary: s rule: less_induct)
  case less
  show ?case
    by (rule accp.accI) (use less internal_step_inv in blast)
qed

lemma accp_normal_form:
  "Wellfounded.accp (\<lambda>x y. R y x) s \<Longrightarrow> \<exists>s'. R\<^sup>*\<^sup>* s s' \<and> (\<nexists>x. R s' x)"
proof (induction rule: accp.induct)
  case (accI s)
  then show ?case
    by (cases "\<exists>x. R s x") (blast intro: converse_rtranclp_into_rtranclp)+
qed

lemma ended_completed: "pool_inv s \<Longrightarrow> ended s \<Longrightarrow> mset (completed s) = accepted s"
  by (simp add: pool_inv_def actor_inv_def retire_inv_def actor_done_def pending_tasks_def inflight_def)

lemma sum_load_le:
  "distinct ws \<Longrightarrow> (\<And>w. w \<in> set ws \<Longrightarrow> f w \<le> (if w \<in> A then 1 else 0)) \<Longrightarrow> sum_list (map f ws) \<le> card (set ws \<inter> A)"
proof (induction ws)
  case (Cons w ws)
  then have "sum_list (map f ws) \<le> card (set ws \<inter> A)" and "f w \<le> (if w \<in> A then 1 else 0)"
    by auto
  with Cons.prems(1) show ?case by (auto split: if_splits)
qed simp

lemma inflight_bound:
  assumes wi: "worker_inv a cs"
  shows "length (inflight (workers a)) \<le> busy a"
proof -
  let ?f = "\<lambda>w. case map_of (workers a) w of None \<Rightarrow> 0 | Some k \<Rightarrow> length (wtasks k)"
  let ?A = "set (executors a) - set (idle a)"
  have wf: "hm_wf (workers a)" using wi by (simp add: worker_inv_def)
  then have "map (\<lambda>x. length (wtasks (snd x))) (workers a) = map (\<lambda>x. ?f (fst x)) (workers a)"
    by (intro map_cong) auto
  then have "length (inflight (workers a)) = sum_list (map ?f (map fst (workers a)))"
    by (simp add: inflight_def length_concat split_def comp_def del: map_eq_conv)
  also have "\<dots> \<le> card (set (map fst (workers a)) \<inter> ?A)"
  proof (rule sum_load_le [OF wf])
    fix w
    have "?f w \<le> load a cs w" by (simp add: load_def)
    also have "\<dots> = (if w \<in> ?A then 1 else 0)" using wi by (simp add: worker_inv_def)
    finally show "?f w \<le> (if w \<in> ?A then 1 else 0)" .
  qed
  also have "\<dots> \<le> card ?A" by (rule card_mono) auto
  also have "\<dots> = busy a"
    using wi by (auto simp: worker_inv_def card_Diff_subset distinct_card)
  finally show ?thesis .
qed

lemma worker_one_task:
  assumes wi: "worker_inv a cs" and k: "map_of (workers a) w = Some k"
  shows "length (wtasks k) \<le> 1"
proof -
  have "length (wtasks k) \<le> load a cs w" using k by (simp add: load_def)
  also have "\<dots> \<le> 1" using wi by (simp add: worker_inv_def)
  finally show ?thesis .
qed

section \<open>Properties\<close>

text \<open>A concrete run: one admitted task, then \<open>stop\<close>, on a machine with one processor.\<close>

definition demo_pool :: "string pool" where
  "demo_pool = pool_stop (resolve_executors 1 0)
     (snd (pool_add_task False (resolve_executors 1 2) 0 ''job'' (pool_new ''workers'' False)))"

lemma demo_pool_reachable: "pool_reachable 1 ''workers'' False demo_pool"
  unfolding demo_pool_def
  by (intro pool_reachable.step [OF _ pool_step.stop] pool_reachable.step [OF _ pool_step.add] pool_reachable.init)

lemma demo_pool_stopping: "pstate demo_pool = 2"
  by (simp add: demo_pool_def pool_stop_def Let_def pool_send_def pool_add_task_def pool_launch_def pool_new_def)

text \<open>
  C5. Stopping drains the pool. From any reachable state after \<open>stop\<close> was called, under every
  schedule of the actor and the executors and without further calls, the run is finite, and where
  it ends the actor has returned (so \<open>drained\<close> is set and \<open>stop\<close> returns) and the completed tasks
  are exactly the accepted ones, each once.
\<close>

theorem pool_stop_drains:
  assumes "pool_reachable cpus name prio s" and "1 \<le> cpus" and "pstate s = 2"
  shows "Wellfounded.accp (\<lambda>x y. internal_step y x) s \<and>
    (\<forall>s'. internal_step\<^sup>*\<^sup>* s s' \<and> (\<nexists>x. internal_step s' x) \<longrightarrow>
       ended s' \<and> mset (completed s') = accepted s')"
proof (intro conjI allI impI)
  have inv: "pool_inv s" using assms reachable_inv by blast
  then show "Wellfounded.accp (\<lambda>x y. internal_step y x) s" by (rule internal_acc)
  fix s' assume run: "internal_step\<^sup>*\<^sup>* s s' \<and> (\<nexists>x. internal_step s' x)"
  then have inv': "pool_inv s'" "pstate s' = 2"
    using internal_steps_inv [OF _ inv] assms(3) by auto
  with progress run show e: "ended s'" by blast
  show "mset (completed s') = accepted s'" by (rule ended_completed [OF inv'(1) e])
qed

theorem pool_stop_drains_witness:
  "\<exists>s'. internal_step\<^sup>*\<^sup>* demo_pool s' \<and> ended s' \<and> mset (completed s') = accepted s'"
  using pool_stop_drains [OF demo_pool_reachable _ demo_pool_stopping] accp_normal_form
  by (metis order_refl)

text \<open>
  C6. No task is lost or duplicated, and concurrency is bounded: in every reachable state the
  accepted tasks are, as a multiset, the queued ones, those held by executors and the completed
  ones; every executor holds at most one task, the executors together at most \<open>busy\<close>, and \<open>busy\<close>
  never exceeds the number of executors.
\<close>

theorem pool_conserves_tasks:
  assumes "pool_reachable cpus name prio s" and "1 \<le> cpus"
  shows "accepted s = image_mset (task \<circ> snd) (mset (contents (queue (act s)))) +
      mset (inflight (workers (act s))) + mset (completed s) \<and>
    list_all (\<lambda>(w, k). length (wtasks k) \<le> 1) (workers (act s)) \<and>
    length (inflight (workers (act s))) \<le> busy (act s) \<and> busy (act s) \<le> length (executors (act s))"
proof -
  have inv: "pool_inv s" using assms reachable_inv by blast
  then have wi: "worker_inv (act s) (chan s)" by (simp add: pool_inv_def actor_inv_def)
  then have "busy (act s) \<le> length (executors (act s))" by (simp add: worker_inv_def)
  moreover have "list_all (\<lambda>(w, k). length (wtasks k) \<le> 1) (workers (act s))"
    using worker_one_task [OF wi] workers_wf [OF inv] by (auto simp: list_all_iff hm_mem_iff)
  ultimately show ?thesis
    using inv inflight_bound [OF wi] by (simp add: pool_inv_def pending_tasks_def)
qed

theorem pool_conserves_tasks_witness:
  "accepted demo_pool = image_mset (task \<circ> snd) (mset (contents (queue (act demo_pool)))) +
      mset (inflight (workers (act demo_pool))) + mset (completed demo_pool) \<and>
    list_all (\<lambda>(w, k). length (wtasks k) \<le> 1) (workers (act demo_pool)) \<and>
    length (inflight (workers (act demo_pool))) \<le> busy (act demo_pool) \<and>
    busy (act demo_pool) \<le> length (executors (act demo_pool))"
  by (rule pool_conserves_tasks [OF demo_pool_reachable]) simp

text \<open>
  C21. The actor never panics and keeps its executors at work: in every reachable state with a
  running actor, a turn on any event that can occur returns a state (no failed \<open>unwrap\<close>, no
  missing executor, no underflow of \<open>busy\<close>), and in it a started, not yet retiring pool has at
  least \<open>target\<close> executors, surplus ones only if all are busy, and none idle while a task waits.
\<close>

theorem pool_turn_safe:
  assumes "pool_reachable cpus name prio s" and "1 \<le> cpus" and "launched s"
    and "enabled (act s) ev (chan s) cs"
  shows "\<exists>s'. actor_turn ev (s\<lparr>chan := cs\<rparr>) = Some s' \<and>
    (started (act s') \<and> \<not> retiring (act s') \<longrightarrow>
       target (act s') \<le> length (executors (act s')) \<and>
       (idle (act s') = [] \<or> contents (queue (act s')) = [] \<and> length (executors (act s')) = target (act s')))"
proof -
  have "pool_inv s" using assms reachable_inv by blast
  from turn_spec [OF this assms(3,4)] show ?thesis
    by (auto simp: pool_inv_def settled_def)
qed

theorem pool_turn_safe_witness:
  "\<exists>s'. actor_turn (Received (Some (Add 0 ''job'')) False) (demo_pool\<lparr>chan := [Stop]\<rparr>) = Some s'"
  using pool_turn_safe [OF demo_pool_reachable, of "Received (Some (Add 0 ''job'')) False" "[Stop]"]
  by (auto simp: demo_pool_def pool_stop_def Let_def pool_send_def pool_add_task_def pool_launch_def pool_new_def)

end
