(* ===== verification/Key_Store.thy ===== *)
theory Key_Store
  imports Runtime_Prelude
begin

text \<open>
  Keyed stores of pending work. The runtime keeps requests and callbacks under a string key in
  several structures: the sharded \<open>RotatingMap\<close>, the \<open>CallbackStore\<close> of the gRPC sources and the
  shards of \<open>ResultRouter\<close> and \<open>PendingRequestTimestamps\<close>. This theory holds what they share: the
  choice of a shard by hash, the interface \<open>key_store\<close> (an entry under a fresh key is found and
  taken exactly once), and what its clients may conclude.
\<close>

section \<open>Shards\<close>

text \<open>
  \<open>&shards[hash_builder.hash_one(key) as usize % shards.len()]\<close>: the hash function is a parameter
  (\<open>RandomState\<close> picks one per map), its value a \<open>u64\<close>.
\<close>

definition shard_index :: "('k \<Rightarrow> nat) \<Rightarrow> 's list \<Rightarrow> 'k \<Rightarrow> nat" where
  "shard_index hash ss k = hash k mod length ss"

definition shard_of :: "('k \<Rightarrow> nat) \<Rightarrow> 's list \<Rightarrow> 'k \<Rightarrow> 's" where
  "shard_of hash ss k = ss ! shard_index hash ss k"

definition set_shard :: "('k \<Rightarrow> nat) \<Rightarrow> 'k \<Rightarrow> 's \<Rightarrow> 's list \<Rightarrow> 's list" where
  "set_shard hash k s ss = ss[shard_index hash ss k := s]"

lemma shard_index_less: "ss \<noteq> [] \<Longrightarrow> shard_index hash ss k < length ss"
  by (simp add: shard_index_def)

lemma shard_index_set [simp]: "shard_index hash (set_shard hash k s ss) j = shard_index hash ss j"
  by (simp add: shard_index_def set_shard_def)

lemma set_shard_Nil [simp]: "set_shard hash k s ss = [] \<longleftrightarrow> ss = []"
  by (simp add: set_shard_def)

lemma length_set_shard [simp]: "length (set_shard hash k s ss) = length ss"
  by (simp add: set_shard_def)

lemma shard_of_set:
  "ss \<noteq> [] \<Longrightarrow> shard_of hash (set_shard hash k s ss) j =
     (if shard_index hash ss j = shard_index hash ss k then s else shard_of hash ss j)"
  by (simp add: shard_of_def set_shard_def shard_index_def)

lemma shard_of_same [simp]: "ss \<noteq> [] \<Longrightarrow> shard_of hash (set_shard hash k s ss) k = s"
  by (simp add: shard_of_set)

lemma shard_of_mem: "ss \<noteq> [] \<Longrightarrow> shard_of hash ss k \<in> set ss"
  by (simp add: shard_of_def shard_index_def)

lemma set_shard_all: "ss \<noteq> [] \<Longrightarrow> list_all P ss \<Longrightarrow> P s \<Longrightarrow> list_all P (set_shard hash k s ss)"
  unfolding set_shard_def list_all_iff using set_update_subset_insert by fastforce

lemma shard_of_all: "list_all P ss \<Longrightarrow> ss \<noteq> [] \<Longrightarrow> P (shard_of hash ss k)"
  by (metis list_all_iff shard_of_mem)

text \<open>Looking a key up in its shard: changing one key in its shard changes one key of the whole.\<close>

definition sharded_lookup :: "('s \<Rightarrow> 'k \<Rightarrow> 'v option) \<Rightarrow> ('k \<Rightarrow> nat) \<Rightarrow> 's list \<Rightarrow> 'k \<Rightarrow> 'v option" where
  "sharded_lookup look hash ss k = look (shard_of hash ss k) k"

lemma sharded_lookup_set:
  assumes "ss \<noteq> []" and "look s = (look (shard_of hash ss k))(k := x)"
  shows "sharded_lookup look hash (set_shard hash k s ss) = (sharded_lookup look hash ss)(k := x)"
proof (rule ext)
  fix j
  have "shard_of hash ss j = shard_of hash ss k" if "shard_index hash ss j = shard_index hash ss k"
    using that by (simp add: shard_of_def)
  with assms show "sharded_lookup look hash (set_shard hash k s ss) j =
      ((sharded_lookup look hash ss)(k := x)) j"
    by (auto simp: sharded_lookup_def shard_of_set)
qed

lemma sharded_lookup_replicate [simp]:
  "0 < n \<Longrightarrow> sharded_lookup look hash (replicate n s) k = look s k"
  by (simp add: sharded_lookup_def shard_of_def shard_index_def)

section \<open>The interface\<close>

datatype ('k, 'v) store_op = Put 'k 'v | Take 'k

locale key_store =
  fixes inv :: "'s \<Rightarrow> bool" and lookup :: "'s \<Rightarrow> 'k \<Rightarrow> 'v option"
    and put :: "'k \<Rightarrow> 'v \<Rightarrow> 's \<Rightarrow> 's" and take_key :: "'k \<Rightarrow> 's \<Rightarrow> 'v option \<times> 's"
  assumes put_inv: "inv s \<Longrightarrow> inv (put k v s)"
    and put_fresh: "inv s \<Longrightarrow> lookup s k = None \<Longrightarrow> lookup (put k v s) = (lookup s)(k \<mapsto> v)"
    and take_inv: "inv s \<Longrightarrow> inv (snd (take_key k s))"
    and take_value: "inv s \<Longrightarrow> fst (take_key k s) = lookup s k"
    and take_removes: "inv s \<Longrightarrow> lookup (snd (take_key k s)) = (lookup s)(k := None)"
begin

text \<open>What a client sees: the values of its \<open>Take\<close> operations.\<close>

primrec serve :: "('k, 'v) store_op list \<Rightarrow> 's \<Rightarrow> ('k \<times> 'v option) list \<times> 's" where
  "serve [] s = ([], s)"
| "serve (x # xs) s =
     (case x of
        Put k v \<Rightarrow> serve xs (put k v s)
      | Take k \<Rightarrow> (let (v, s1) = take_key k s; (vs, s2) = serve xs s1 in ((k, v) # vs, s2)))"

text \<open>Keys are registered only while absent.\<close>

primrec fresh_puts :: "('k, 'v) store_op list \<Rightarrow> ('k \<rightharpoonup> 'v) \<Rightarrow> bool" where
  "fresh_puts [] m \<longleftrightarrow> True"
| "fresh_puts (x # xs) m \<longleftrightarrow>
     (case x of Put k v \<Rightarrow> m k = None \<and> fresh_puts xs (m(k \<mapsto> v)) | Take k \<Rightarrow> fresh_puts xs (m(k := None)))"

definition puts_of :: "'k \<Rightarrow> ('k, 'v) store_op list \<Rightarrow> 'v list" where
  "puts_of k xs = concat (map (\<lambda>x. case x of Put j v \<Rightarrow> if j = k then [v] else [] | Take j \<Rightarrow> []) xs)"

definition taken_of :: "'k \<Rightarrow> ('k \<times> 'v option) list \<Rightarrow> 'v list" where
  "taken_of k vs = concat (map (\<lambda>(j, v). if j = k then (case v of None \<Rightarrow> [] | Some y \<Rightarrow> [y]) else []) vs)"

text \<open>
  Exactly once: the values taken under a key, followed by the one still stored, are the values
  registered under it, in order.
\<close>

lemma serve_exactly_once:
  assumes "inv s" and "fresh_puts xs (lookup s)" and "serve xs s = (vs, s')"
  shows "inv s' \<and> (case lookup s k of None \<Rightarrow> [] | Some v \<Rightarrow> [v]) @ puts_of k xs =
    taken_of k vs @ (case lookup s' k of None \<Rightarrow> [] | Some v \<Rightarrow> [v])"
  using assms
proof (induction xs arbitrary: s vs)
  case Nil
  then show ?case by (simp add: puts_of_def taken_of_def)
next
  case (Cons x xs)
  show ?case
  proof (cases x)
    case (Put j v)
    then have j: "lookup s j = None" and i: "inv (put j v s)" and f: "fresh_puts xs (lookup (put j v s))"
      and r: "serve xs (put j v s) = (vs, s')"
      using Cons.prems by (simp_all add: put_inv put_fresh)
    from Cons.IH [OF i f r] j Put Cons.prems(1) show ?thesis
      by (auto simp: put_fresh puts_of_def)
  next
    case (Take j)
    let ?s = "snd (take_key j s)"
    obtain vs1 where r: "serve xs ?s = (vs1, s')" and vs: "vs = (j, lookup s j) # vs1"
      using Cons.prems Take take_value [of s j] by (cases "serve xs ?s") (auto simp: Let_def split_def)
    have i: "inv ?s" and f: "fresh_puts xs (lookup ?s)"
      using Cons.prems Take by (simp_all add: take_inv take_removes)
    from Cons.IH [OF i f r] Take Cons.prems(1) show ?thesis
      by (cases "j = k") (auto simp: vs take_removes puts_of_def taken_of_def)
  qed
qed

lemma take_after_put:
  "inv s \<Longrightarrow> lookup s k = None \<Longrightarrow> fst (take_key k (put k v s)) = Some v"
  by (simp add: take_value put_inv put_fresh)

lemma take_twice: "inv s \<Longrightarrow> fst (take_key k (snd (take_key k s))) = None"
  by (simp add: take_value take_inv take_removes)

end

end
