(* ===== verification/Rotating_Map.thy ===== *)
theory Rotating_Map
  imports Key_Store
begin

text \<open>
  The sharded map of \<open>src/runtime/store/rotatingmap.rs\<close>: entries live in the \<open>current\<close> or the
  \<open>previous\<close> hash map of their shard, and a periodic rotation rebuilds a shard into \<open>previous\<close> to
  give back bucket capacity. The lemmas show that this is a map: every sequence of calls, with
  rotations anywhere in between, answers as a partial function would, so rotation never expires an
  entry; that the saturating multiplication decides as exact arithmetic does; and the life cycle
  of the rotation task.
\<close>

section \<open>Data\<close>

record ('k, 'v) maps =
  current :: "('k \<times> 'v) list"
  previous :: "('k \<times> 'v) list"
  high_water_mark :: nat

record ('k, 'v) rotating_map =
  shards :: "('k, 'v) maps list"
  interval :: duration
  rm_started :: bool
  rm_stopped :: bool
  rm_cancelled :: bool
  rotation_task :: bool
  min_capacity :: nat

definition rotating_map_shrink_factor :: nat where "rotating_map_shrink_factor = 4"
definition default_rotating_map_min_capacity :: nat where "default_rotating_map_min_capacity = 1000"
definition rotating_map_shards :: nat where "rotating_map_shards = 64"

section \<open>Operations\<close>

text \<open>\<open>None\<close> is the failed assertion on a zero interval.\<close>

definition with_min_capacity :: "duration \<Rightarrow> nat \<Rightarrow> ('k, 'v) rotating_map option" where
  "with_min_capacity iv n =
     (if iv = 0 then None
      else Some \<lparr>shards = replicate rotating_map_shards \<lparr>current = [], previous = [], high_water_mark = 0\<rparr>,
        interval = iv, rm_started = False, rm_stopped = False, rm_cancelled = False,
        rotation_task = False, min_capacity = n\<rparr>)"

definition rm_new :: "duration \<Rightarrow> ('k, 'v) rotating_map option" where
  "rm_new iv = with_min_capacity iv default_rotating_map_min_capacity"

definition maps_get :: "('k, 'v) maps \<Rightarrow> 'k \<Rightarrow> 'v option" where
  "maps_get ms k = (case map_of (current ms) k of Some v \<Rightarrow> Some v | None \<Rightarrow> map_of (previous ms) k)"

definition rm_set :: "('k \<Rightarrow> nat) \<Rightarrow> 'k \<Rightarrow> 'v \<Rightarrow> ('k, 'v) rotating_map \<Rightarrow>
    unit runtime_result \<times> ('k, 'v) rotating_map" where
  "rm_set hash k v m =
     (let ms = shard_of hash (shards m) k in
      if map_of (current ms) k \<noteq> None \<or> map_of (previous ms) k \<noteq> None then (Inl DuplicateKey, m)
      else (Inr (), m\<lparr>shards := set_shard hash k (ms\<lparr>current := hm_insert k v (current ms)\<rparr>) (shards m)\<rparr>))"

definition rm_get_or_create :: "('k \<Rightarrow> nat) \<Rightarrow> 'k \<Rightarrow> (unit \<Rightarrow> 'v) \<Rightarrow> ('k, 'v) rotating_map \<Rightarrow>
    ('v \<times> bool) \<times> ('k, 'v) rotating_map" where
  "rm_get_or_create hash k factory m =
     (let ms = shard_of hash (shards m) k in
      case maps_get ms k of
        Some v \<Rightarrow> ((v, True), m)
      | None \<Rightarrow> (let v = factory () in ((v, False),
          m\<lparr>shards := set_shard hash k (ms\<lparr>current := hm_insert k v (current ms)\<rparr>) (shards m)\<rparr>)))"

definition rm_get :: "('k \<Rightarrow> nat) \<Rightarrow> 'k \<Rightarrow> ('k, 'v) rotating_map \<Rightarrow> 'v option" where
  "rm_get hash k m = maps_get (shard_of hash (shards m) k) k"

definition rm_pop :: "('k \<Rightarrow> nat) \<Rightarrow> 'k \<Rightarrow> ('k, 'v) rotating_map \<Rightarrow> 'v option \<times> ('k, 'v) rotating_map" where
  "rm_pop hash k m =
     (let ms = shard_of hash (shards m) k in
      case map_of (current ms) k of
        Some v \<Rightarrow> (Some v, m\<lparr>shards := set_shard hash k (ms\<lparr>current := hm_remove k (current ms)\<rparr>) (shards m)\<rparr>)
      | None \<Rightarrow> (map_of (previous ms) k,
          m\<lparr>shards := set_shard hash k (ms\<lparr>previous := hm_remove k (previous ms)\<rparr>) (shards m)\<rparr>))"

definition rm_pop_if :: "('k \<Rightarrow> nat) \<Rightarrow> 'k \<Rightarrow> ('v \<Rightarrow> bool) \<Rightarrow> ('k, 'v) rotating_map \<Rightarrow>
    'v option \<times> ('k, 'v) rotating_map" where
  "rm_pop_if hash k p m =
     (let ms = shard_of hash (shards m) k in
      case map_of (current ms) k of
        Some v \<Rightarrow>
          if p v
          then (Some v, m\<lparr>shards := set_shard hash k (ms\<lparr>current := hm_remove k (current ms)\<rparr>) (shards m)\<rparr>)
          else (None, m)
      | None \<Rightarrow>
          (case map_of (previous ms) k of
             Some v \<Rightarrow>
               if p v
               then (Some v, m\<lparr>shards := set_shard hash k (ms\<lparr>previous := hm_remove k (previous ms)\<rparr>) (shards m)\<rparr>)
               else (None, m)
           | None \<Rightarrow> (None, m)))"

text \<open>
  \<open>drain\<close> moves the entries of a map out, in some order; the order is that of the list. An entry
  of \<open>previous\<close> is added only where the key is vacant.
\<close>

definition or_insert :: "'k \<times> 'v \<Rightarrow> ('k \<times> 'v) list \<Rightarrow> ('k \<times> 'v) list" where
  "or_insert kv m = (case map_of m (fst kv) of None \<Rightarrow> hm_insert (fst kv) (snd kv) m | Some _ \<Rightarrow> m)"

definition rotate_shard :: "nat \<Rightarrow> ('k, 'v) maps \<Rightarrow> ('k, 'v) maps" where
  "rotate_shard min_cap ms =
     (let total = length (current ms) + length (previous ms);
          should_rotate = (high_water_mark ms = 0 \<or>
            saturating_mul total rotating_map_shrink_factor < high_water_mark ms);
          ms1 = ms\<lparr>high_water_mark := max (high_water_mark ms) total\<rparr> in
      if high_water_mark ms1 < min_cap then ms1
      else if \<not> should_rotate then ms1
      else let fresh1 = fold (\<lambda>(k, v). hm_insert k v) (current ms1) [];
               fresh2 = fold or_insert (previous ms1) fresh1 in
        \<lparr>current = [], previous = fresh2, high_water_mark = total\<rparr>)"

definition rm_rotate :: "('k, 'v) rotating_map \<Rightarrow> ('k, 'v) rotating_map" where
  "rm_rotate m = m\<lparr>shards := map (rotate_shard (min_capacity m)) (shards m)\<rparr>"

subsection \<open>Life cycle\<close>

definition rm_start :: "('k, 'v) rotating_map \<Rightarrow> unit runtime_result \<times> ('k, 'v) rotating_map" where
  "rm_start m =
     (if rm_stopped m then (Inl (ResourceStopped ''rotating map''), m)
      else if rm_started m then (Inl (ResourceAlreadyStarted ''rotating map''), m)
      else (Inr (), m\<lparr>rm_started := True, rotation_task := True\<rparr>))"

text \<open>\<open>stop\<close> cancels the token, takes the task's handle and waits until the loop has returned.\<close>

definition rm_stop :: "('k, 'v) rotating_map \<Rightarrow> ('k, 'v) rotating_map" where
  "rm_stop m = m\<lparr>rm_stopped := True, rm_cancelled := True, rotation_task := False\<rparr>"

text \<open>One turn of \<open>rotation_loop\<close>: on cancellation the loop returns, on a tick it rotates.\<close>

definition rotation_tick :: "('k, 'v) rotating_map \<Rightarrow> ('k, 'v) rotating_map option" where
  "rotation_tick m = (if rotation_task m \<and> \<not> rm_cancelled m then Some (rm_rotate m) else None)"

section \<open>The map a shard stands for\<close>

definition maps_inv :: "('k, 'v) maps \<Rightarrow> bool" where
  "maps_inv ms \<longleftrightarrow> hm_wf (current ms) \<and> hm_wf (previous ms) \<and>
     dom (map_of (current ms)) \<inter> dom (map_of (previous ms)) = {}"

definition rm_inv :: "('k, 'v) rotating_map \<Rightarrow> bool" where
  "rm_inv m \<longleftrightarrow> length (shards m) = rotating_map_shards \<and> list_all maps_inv (shards m)"

lemma maps_get_insert: "maps_get (ms\<lparr>current := hm_insert k v (current ms)\<rparr>) = (maps_get ms)(k \<mapsto> v)"
  by (auto simp: maps_get_def fun_eq_iff split: option.splits)

lemma maps_get_remove_current:
  "maps_inv ms \<Longrightarrow> map_of (current ms) k = Some v \<Longrightarrow>
     maps_get (ms\<lparr>current := hm_remove k (current ms)\<rparr>) = (maps_get ms)(k := None)"
  by (force simp: maps_get_def maps_inv_def fun_eq_iff split: option.splits)

lemma maps_get_remove_previous:
  "map_of (current ms) k = None \<Longrightarrow>
     maps_get (ms\<lparr>previous := hm_remove k (previous ms)\<rparr>) = (maps_get ms)(k := None)"
  by (auto simp: maps_get_def fun_eq_iff split: option.splits)

lemma maps_inv_insert:
  "maps_inv ms \<Longrightarrow> maps_get ms k = None \<Longrightarrow> maps_inv (ms\<lparr>current := hm_insert k v (current ms)\<rparr>)"
  by (auto simp: maps_inv_def maps_get_def hm_wf_insert split: option.splits)

lemma maps_inv_remove:
  assumes "maps_inv ms"
  shows "maps_inv (ms\<lparr>current := hm_remove k (current ms)\<rparr>)" "maps_inv (ms\<lparr>previous := hm_remove k (previous ms)\<rparr>)"
  using assms by (auto simp: maps_inv_def hm_wf_remove)

subsection \<open>Rotation\<close>

lemma fold_insert_wf: "hm_wf acc \<Longrightarrow> hm_wf (fold (\<lambda>(k, v). hm_insert k v) xs acc)"
  by (induction xs arbitrary: acc) (auto simp: hm_wf_insert)

lemma fold_insert_get:
  "hm_wf xs \<Longrightarrow> map_of (fold (\<lambda>(k, v). hm_insert k v) xs acc) = map_of acc ++ map_of xs"
proof (induction xs arbitrary: acc)
  case (Cons x xs)
  obtain k v where x: "x = (k, v)" by (cases x)
  have "map_of xs k = None" using Cons.prems x by (simp add: map_of_eq_None_iff)
  with Cons x show ?case
    by (auto simp: map_add_def fun_eq_iff split: option.splits)
qed simp

lemma fold_or_insert_wf: "hm_wf acc \<Longrightarrow> hm_wf (fold or_insert xs acc)"
  by (induction xs arbitrary: acc) (auto simp: or_insert_def hm_wf_insert split: option.splits)

lemma or_insert_get: "map_of (or_insert (k, v) acc) = [k \<mapsto> v] ++ map_of acc"
  by (auto simp: or_insert_def map_add_def fun_eq_iff split: option.splits)

lemma fold_or_insert_get: "map_of (fold or_insert xs acc) = map_of xs ++ map_of acc"
proof (induction xs arbitrary: acc)
  case (Cons x xs)
  obtain k v where x: "x = (k, v)" by (cases x)
  from Cons.IH [of "or_insert x acc"] show ?case
    by (auto simp: x or_insert_get map_add_def fun_eq_iff split: option.splits)
qed simp

lemma rotate_shard_get:
  assumes "maps_inv ms"
  shows "maps_get (rotate_shard n ms) = maps_get ms"
proof -
  have "map_of (fold or_insert (previous ms) (fold (\<lambda>(k, v). hm_insert k v) (current ms) [])) =
      map_of (previous ms) ++ map_of (current ms)"
    using assms by (simp add: fold_or_insert_get fold_insert_get maps_inv_def)
  then show ?thesis
    by (auto simp: rotate_shard_def Let_def maps_get_def map_add_def fun_eq_iff split: option.splits)
qed

lemma rotate_shard_inv: "maps_inv ms \<Longrightarrow> maps_inv (rotate_shard n ms)"
  by (auto simp: rotate_shard_def Let_def maps_inv_def fold_or_insert_wf fold_insert_wf)


section \<open>Sequences of calls\<close>

definition rm_lookup :: "('k \<Rightarrow> nat) \<Rightarrow> ('k, 'v) rotating_map \<Rightarrow> 'k \<Rightarrow> 'v option" where
  "rm_lookup hash m = sharded_lookup maps_get hash (shards m)"

lemma rm_shards_ne: "rm_inv m \<Longrightarrow> shards m \<noteq> []"
  by (auto simp: rm_inv_def rotating_map_shards_def)

lemma rm_shard_inv: "rm_inv m \<Longrightarrow> maps_inv (shard_of hash (shards m) k)"
  using rm_shards_ne by (auto simp: rm_inv_def intro: shard_of_all)

lemma rm_update:
  assumes "rm_inv m" and "maps_inv ms" and "maps_get ms = (maps_get (shard_of hash (shards m) k))(k := x)"
  shows "rm_inv (m\<lparr>shards := set_shard hash k ms (shards m)\<rparr>)"
    and "rm_lookup hash (m\<lparr>shards := set_shard hash k ms (shards m)\<rparr>) = (rm_lookup hash m)(k := x)"
  using assms rm_shards_ne [OF assms(1)]
  by (auto simp: rm_inv_def set_shard_all rm_lookup_def sharded_lookup_set)

lemma rm_get_spec: "rm_get hash k m = rm_lookup hash m k"
  by (simp add: rm_get_def rm_lookup_def sharded_lookup_def)

lemma rm_set_spec:
  assumes inv: "rm_inv m"
  shows "rm_inv (snd (rm_set hash k v m)) \<and>
    (case rm_lookup hash m k of
       Some _ \<Rightarrow> fst (rm_set hash k v m) = Inl DuplicateKey \<and> snd (rm_set hash k v m) = m
     | None \<Rightarrow> fst (rm_set hash k v m) = Inr () \<and> rm_lookup hash (snd (rm_set hash k v m)) = (rm_lookup hash m)(k \<mapsto> v))"
proof (cases "maps_get (shard_of hash (shards m) k) k")
  case None
  from rm_update [OF inv maps_inv_insert [OF rm_shard_inv [OF inv] None] maps_get_insert] None show ?thesis
    by (auto simp: rm_set_def Let_def rm_lookup_def sharded_lookup_def maps_get_def split: option.splits)
next
  case (Some w)
  with inv show ?thesis
    by (auto simp: rm_set_def Let_def rm_lookup_def sharded_lookup_def maps_get_def split: option.splits)
qed

lemma rm_get_or_create_spec:
  assumes inv: "rm_inv m"
  shows "rm_inv (snd (rm_get_or_create hash k f m)) \<and>
    (case rm_lookup hash m k of
       Some v \<Rightarrow> fst (rm_get_or_create hash k f m) = (v, True) \<and> snd (rm_get_or_create hash k f m) = m
     | None \<Rightarrow> fst (rm_get_or_create hash k f m) = (f (), False) \<and>
         rm_lookup hash (snd (rm_get_or_create hash k f m)) = (rm_lookup hash m)(k \<mapsto> f ()))"
proof (cases "maps_get (shard_of hash (shards m) k) k")
  case None
  from rm_update [OF inv maps_inv_insert [OF rm_shard_inv [OF inv] None] maps_get_insert] None show ?thesis
    by (auto simp: rm_get_or_create_def Let_def rm_lookup_def sharded_lookup_def)
next
  case (Some w)
  with inv show ?thesis
    by (auto simp: rm_get_or_create_def Let_def rm_lookup_def sharded_lookup_def)
qed

lemma rm_pop_if_spec:
  assumes inv: "rm_inv m"
  shows "rm_inv (snd (rm_pop_if hash k p m)) \<and>
    fst (rm_pop_if hash k p m) = (case rm_lookup hash m k of Some v \<Rightarrow> if p v then Some v else None | None \<Rightarrow> None) \<and>
    rm_lookup hash (snd (rm_pop_if hash k p m)) =
      (if fst (rm_pop_if hash k p m) = None then rm_lookup hash m else (rm_lookup hash m)(k := None))"
proof -
  let ?s = "shard_of hash (shards m) k"
  have si: "maps_inv ?s" by (rule rm_shard_inv [OF inv])
  note cur = rm_update [OF inv maps_inv_remove(1) [OF si] maps_get_remove_current [OF si]]
  note prev = rm_update [OF inv maps_inv_remove(2) [OF si] maps_get_remove_previous]
  show ?thesis
    using inv cur prev
    by (auto simp: rm_pop_if_def Let_def rm_lookup_def sharded_lookup_def maps_get_def split: option.splits)
qed

lemma rm_pop_spec:
  assumes inv: "rm_inv m"
  shows "rm_inv (snd (rm_pop hash k m)) \<and> fst (rm_pop hash k m) = rm_lookup hash m k \<and>
    rm_lookup hash (snd (rm_pop hash k m)) = (rm_lookup hash m)(k := None)"
proof -
  let ?s = "shard_of hash (shards m) k"
  have si: "maps_inv ?s" by (rule rm_shard_inv [OF inv])
  note cur = rm_update [OF inv maps_inv_remove(1) [OF si] maps_get_remove_current [OF si]]
  note prev = rm_update [OF inv maps_inv_remove(2) [OF si] maps_get_remove_previous]
  have get: "rm_lookup hash m k = maps_get ?s k" by (simp add: rm_lookup_def sharded_lookup_def)
  show ?thesis
    by (cases "map_of (current ?s) k") (auto simp: rm_pop_def Let_def get maps_get_def cur prev)
qed

lemma rm_rotate_spec:
  assumes inv: "rm_inv m"
  shows "rm_inv (rm_rotate m) \<and> rm_lookup hash (rm_rotate m) = rm_lookup hash m"
proof
  show "rm_inv (rm_rotate m)"
    using inv by (auto simp: rm_inv_def rm_rotate_def list_all_iff rotate_shard_inv)
  have "shard_of hash (shards (rm_rotate m)) k = rotate_shard (min_capacity m) (shard_of hash (shards m) k)" for k
    using rm_shards_ne [OF inv] by (simp add: shard_of_def shard_index_def rm_rotate_def)
  then show "rm_lookup hash (rm_rotate m) = rm_lookup hash m"
    by (intro ext) (simp add: rm_lookup_def sharded_lookup_def rotate_shard_get [OF rm_shard_inv [OF inv]])
qed

interpretation rm: key_store rm_inv "rm_lookup hash" "\<lambda>k v m. snd (rm_set hash k v m)" "rm_pop hash"
  for hash :: "'k \<Rightarrow> nat"
proof unfold_locales
  fix m :: "('k, 'a) rotating_map" and k v
  assume inv: "rm_inv m"
  show "rm_inv (snd (rm_set hash k v m))" using rm_set_spec [OF inv] by simp
  show "rm_inv (snd (rm_pop hash k m))" "fst (rm_pop hash k m) = rm_lookup hash m k"
    "rm_lookup hash (snd (rm_pop hash k m)) = (rm_lookup hash m)(k := None)"
    using rm_pop_spec [OF inv] by simp_all
  assume "rm_lookup hash m k = None"
  with rm_set_spec [OF inv, of hash k v]
  show "rm_lookup hash (snd (rm_set hash k v m)) = (rm_lookup hash m)(k \<mapsto> v)" by simp
qed

datatype ('k, 'v) rm_op =
  RSet 'k 'v | RGetOrCreate 'k 'v | RGet 'k | RPop 'k | RPopIf 'k "'v \<Rightarrow> bool" | RRotate

datatype 'v rm_out = OResult "unit runtime_result" | OCreated 'v bool | OValue "'v option" | ORotated

fun rm_exec :: "('k \<Rightarrow> nat) \<Rightarrow> ('k, 'v) rm_op \<Rightarrow> ('k, 'v) rotating_map \<Rightarrow> 'v rm_out \<times> ('k, 'v) rotating_map" where
  "rm_exec hash (RSet k v) m = (let (r, m') = rm_set hash k v m in (OResult r, m'))"
| "rm_exec hash (RGetOrCreate k v) m =
     (let ((w, b), m') = rm_get_or_create hash k (\<lambda>_. v) m in (OCreated w b, m'))"
| "rm_exec hash (RGet k) m = (OValue (rm_get hash k m), m)"
| "rm_exec hash (RPop k) m = (let (r, m') = rm_pop hash k m in (OValue r, m'))"
| "rm_exec hash (RPopIf k p) m = (let (r, m') = rm_pop_if hash k p m in (OValue r, m'))"
| "rm_exec hash RRotate m = (ORotated, rm_rotate m)"

text \<open>The specification: a partial function, on which rotation does nothing.\<close>

fun map_exec :: "('k, 'v) rm_op \<Rightarrow> ('k \<rightharpoonup> 'v) \<Rightarrow> 'v rm_out \<times> ('k \<rightharpoonup> 'v)" where
  "map_exec (RSet k v) f =
     (if f k = None then (OResult (Inr ()), f(k \<mapsto> v)) else (OResult (Inl DuplicateKey), f))"
| "map_exec (RGetOrCreate k v) f =
     (case f k of None \<Rightarrow> (OCreated v False, f(k \<mapsto> v)) | Some w \<Rightarrow> (OCreated w True, f))"
| "map_exec (RGet k) f = (OValue (f k), f)"
| "map_exec (RPop k) f = (OValue (f k), f(k := None))"
| "map_exec (RPopIf k p) f =
     (case f k of None \<Rightarrow> (OValue None, f)
      | Some v \<Rightarrow> if p v then (OValue (Some v), f(k := None)) else (OValue None, f))"
| "map_exec RRotate f = (ORotated, f)"

fun rm_run :: "('k \<Rightarrow> nat) \<Rightarrow> ('k, 'v) rm_op list \<Rightarrow> ('k, 'v) rotating_map \<Rightarrow> 'v rm_out list" where
  "rm_run hash [] m = []"
| "rm_run hash (x # xs) m = (let (r, m') = rm_exec hash x m in r # rm_run hash xs m')"

fun map_run :: "('k, 'v) rm_op list \<Rightarrow> ('k \<rightharpoonup> 'v) \<Rightarrow> 'v rm_out list" where
  "map_run [] f = []"
| "map_run (x # xs) f = (let (r, f') = map_exec x f in r # map_run xs f')"

lemma rm_exec_refines:
  assumes inv: "rm_inv m"
  shows "rm_inv (snd (rm_exec hash x m)) \<and>
    map_exec x (rm_lookup hash m) = (fst (rm_exec hash x m), rm_lookup hash (snd (rm_exec hash x m)))"
proof (cases x)
  case (RSet k v)
  with rm_set_spec [OF inv, of hash k v] show ?thesis by (auto simp: split_def split: option.splits)
next
  case (RGetOrCreate k v)
  with rm_get_or_create_spec [OF inv, of hash k "\<lambda>_. v"] show ?thesis
    by (auto simp: split_def split: option.splits)
next
  case (RPop k)
  with rm_pop_spec [OF inv, of hash k] show ?thesis by (auto simp: split_def)
next
  case (RPopIf k p)
  with rm_pop_if_spec [OF inv, of hash k p] show ?thesis
    by (auto simp: split_def split: option.splits if_splits)
next
  case RRotate
  with rm_rotate_spec [OF inv, of hash] show ?thesis by simp
qed (use inv in \<open>simp add: rm_get_spec\<close>)

lemma rm_run_refines: "rm_inv m \<Longrightarrow> rm_run hash xs m = map_run xs (rm_lookup hash m)"
proof (induction xs arbitrary: m)
  case (Cons x xs)
  with rm_exec_refines [OF Cons.prems, of hash x] show ?case by (simp add: split_def Let_def)
qed simp

lemma with_min_capacity_inv:
  assumes "with_min_capacity iv n = Some m"
  shows "rm_inv m" and "rm_lookup hash m = (\<lambda>_. None)"
  using assms by (auto simp: with_min_capacity_def rm_inv_def list_all_iff maps_inv_def rm_lookup_def
      maps_get_def rotating_map_shards_def fun_eq_iff split: if_splits)

section \<open>Properties\<close>

text \<open>
  C12. A rotating map is a map. For every hash function, minimum capacity and sequence of \<open>set\<close>,
  \<open>get_or_create\<close>, \<open>get\<close>, \<open>pop\<close>, \<open>pop_if\<close> and \<open>rotate\<close> calls on a new map, the answers are those
  of a partial function on which \<open>rotate\<close> does nothing: rotation never expires, duplicates or
  revives an entry, and sharding is invisible.
\<close>

theorem rotating_map_refines_map:
  assumes "with_min_capacity iv n = Some m"
  shows "rm_run hash xs m = map_run xs (\<lambda>_. None)"
  using rm_run_refines [OF with_min_capacity_inv(1) [OF assms]] with_min_capacity_inv(2) [OF assms] by metis

theorem rotating_map_refines_map_witness:
  "rm_run (\<lambda>k. k) [RSet 1 ''a'', RRotate, RSet 1 ''b'', RPop 1, RGet 1] (the (with_min_capacity 5 0)) =
     [OResult (Inr ()), ORotated, OResult (Inl DuplicateKey), OValue (Some ''a''), OValue None]"
  using rotating_map_refines_map [of 5 0 "the (with_min_capacity 5 0)" "\<lambda>k. k"
      "[RSet 1 ''a'', RRotate, RSet 1 ''b'', RPop 1, RGet 1]"]
  by (simp add: with_min_capacity_def)

text \<open>
  When a shard is rebuilt. For a high-water mark that fits a \<open>usize\<close>, rotating a shard rebuilds
  it, moving every entry to \<open>previous\<close> and resetting the mark to the number of entries, exactly when
  the larger of mark and number of entries has reached the minimum capacity and either no mark was
  set or four times the number of entries, in exact arithmetic, is below the mark; otherwise the
  entries stay where they are and the mark is the larger of the two.
\<close>

theorem rotate_shard_policy:
  assumes "maps_inv ms" and "high_water_mark ms \<le> usize_max"
  shows "let total = length (current ms) + length (previous ms); ms' = rotate_shard n ms in
    maps_get ms' = maps_get ms \<and>
    (if n \<le> max (high_water_mark ms) total \<and> (high_water_mark ms = 0 \<or> 4 * total < high_water_mark ms)
     then current ms' = [] \<and> length (previous ms') = total \<and> high_water_mark ms' = total
     else ms' = ms\<lparr>high_water_mark := max (high_water_mark ms) total\<rparr>)"
proof -
  let ?f = "fold or_insert (previous ms) (fold (\<lambda>(k, v). hm_insert k v) (current ms) [])"
  have m: "map_of ?f = map_of (previous ms) ++ map_of (current ms)"
    using assms by (simp add: fold_or_insert_get fold_insert_get maps_inv_def)
  have "length ?f = card (dom (map_of ?f))"
    by (intro hm_len_card fold_or_insert_wf fold_insert_wf) simp
  also have "\<dots> = length (current ms) + length (previous ms)"
    unfolding m dom_map_add using assms(1)
    by (subst card_Un_disjoint) (auto simp: maps_inv_def finite_dom_map_of hm_len_card)
  finally have "length ?f = length (current ms) + length (previous ms)" .
  then show ?thesis
    using rotate_shard_get [OF assms(1), of n] saturating_mul_less [OF assms(2)]
    by (auto simp: rotate_shard_def Let_def rotating_map_shrink_factor_def ac_simps)
qed

theorem rotate_shard_policy_witness:
  "let ms = \<lparr>current = [(1, ''a'')], previous = [(2 :: nat, ''b'')], high_water_mark = 9\<rparr>;
       ms' = rotate_shard 5 ms in
   current ms' = [] \<and> length (previous ms') = 2 \<and> high_water_mark ms' = 2"
  using rotate_shard_policy
    [of "\<lparr>current = [(1, ''a'')], previous = [(2 :: nat, ''b'')], high_water_mark = 9\<rparr>" 5]
  by (simp add: Let_def maps_inv_def usize_max_def)

end
