(* ===== verification/Callback_Store.thy ===== *)
theory Callback_Store
  imports Key_Store
begin

text \<open>
  \<open>CallbackStore\<close> of \<open>src/datasource/grpc/callback_store.rs\<close>: the callbacks of one gRPC stream, kept
  inline while there is at most one and in a hash map from the second on. It answers every sequence
  of calls as a hash map would, stays inline as long as one id is used, and is a \<open>key_store\<close>.
\<close>

datatype 'c callback_store = Inline "(string \<times> 'c) option" | Many "(string \<times> 'c) list"

definition cb_new :: "'c callback_store" where
  "cb_new = Inline None"

fun cb_insert :: "string \<Rightarrow> 'c \<Rightarrow> 'c callback_store \<Rightarrow> 'c option \<times> 'c callback_store" where
  "cb_insert i c (Inline None) = (None, Inline (Some (i, c)))"
| "cb_insert i c (Inline (Some (k, v))) =
     (if k = i then (Some v, Inline (Some (k, c)))
      else (None, Many (hm_insert i c (hm_insert k v []))))"
| "cb_insert i c (Many m) = (map_of m i, Many (hm_insert i c m))"

fun cb_get :: "string \<Rightarrow> 'c callback_store \<Rightarrow> 'c option" where
  "cb_get i (Inline (Some (k, v))) = (if k = i then Some v else None)"
| "cb_get i (Inline None) = None"
| "cb_get i (Many m) = map_of m i"

fun cb_remove :: "string \<Rightarrow> 'c callback_store \<Rightarrow> 'c option \<times> 'c callback_store" where
  "cb_remove i (Inline (Some (k, v))) =
     (if k = i then (Some v, Inline None) else (None, Inline (Some (k, v))))"
| "cb_remove i (Inline None) = (None, Inline None)"
| "cb_remove i (Many m) = (map_of m i, Many (hm_remove i m))"

section \<open>The map it stands for\<close>

abbreviation cb_lookup :: "'c callback_store \<Rightarrow> string \<Rightarrow> 'c option" where
  "cb_lookup s \<equiv> \<lambda>i. cb_get i s"

lemma cb_insert_spec:
  "fst (cb_insert i c s) = cb_lookup s i \<and> cb_lookup (snd (cb_insert i c s)) = (cb_lookup s)(i \<mapsto> c)"
  by (cases "(i, c, s)" rule: cb_insert.cases) (auto simp: fun_eq_iff)

lemma cb_remove_spec:
  "fst (cb_remove i s) = cb_lookup s i \<and> cb_lookup (snd (cb_remove i s)) = (cb_lookup s)(i := None)"
  by (cases "(i, s)" rule: cb_remove.cases) (auto simp: fun_eq_iff)

interpretation cb: key_store "\<lambda>_. True" cb_lookup "\<lambda>i c s. snd (cb_insert i c s)" cb_remove
  by unfold_locales (simp_all add: cb_insert_spec cb_remove_spec)

datatype 'c cb_op = CInsert string 'c | CRemove string | CGet string

fun cb_run :: "'c cb_op list \<Rightarrow> 'c callback_store \<Rightarrow> 'c option list" where
  "cb_run [] s = []"
| "cb_run (CInsert i c # xs) s = (let (r, s') = cb_insert i c s in r # cb_run xs s')"
| "cb_run (CRemove i # xs) s = (let (r, s') = cb_remove i s in r # cb_run xs s')"
| "cb_run (CGet i # xs) s = cb_get i s # cb_run xs s"

fun hash_run :: "'c cb_op list \<Rightarrow> (string \<rightharpoonup> 'c) \<Rightarrow> 'c option list" where
  "hash_run [] m = []"
| "hash_run (CInsert i c # xs) m = m i # hash_run xs (m(i \<mapsto> c))"
| "hash_run (CRemove i # xs) m = m i # hash_run xs (m(i := None))"
| "hash_run (CGet i # xs) m = m i # hash_run xs m"

lemma cb_run_refines: "cb_run xs s = hash_run xs (cb_lookup s)"
proof (induction xs arbitrary: s)
  case (Cons x xs)
  then show ?case
    by (cases x) (simp_all add: split_def Let_def cb_insert_spec cb_remove_spec)
qed simp

section \<open>Properties\<close>

text \<open>
  C39. The callback store is a hash map: every sequence of \<open>insert\<close>, \<open>remove\<close> and \<open>get\<close> calls on a
  new store returns what the same calls on a partial function return (for \<open>insert\<close> the callback it
  replaces), whatever the switch from the inline to the hashed form does in between.
\<close>

theorem callback_store_refines_map: "cb_run xs cb_new = hash_run xs (\<lambda>_. None)"
  by (simp add: cb_run_refines cb_new_def)

end
