(* ===== verification/Result_Router.thy ===== *)
theory Result_Router
  imports Key_Store
begin

text \<open>
  Request correlation of \<open>src/runtime/datasource.rs\<close>. \<open>ResultRouter\<close> maps the message id of a
  pending request to the sender of a channel, in 64 shards; \<open>begin\<close> opens the channel, \<open>consume\<close>
  routes a pipeline result by its message id, \<open>done\<close> closes the registration.
  \<open>PendingRequestTimestamps\<close> and \<open>PendingRequests\<close> hold the instants behind the gauges of pending
  requests. The lemmas show which results reach which request, and that the oldest age is the one
  of the oldest pending request of all shards.
\<close>

section \<open>The router\<close>

text \<open>
  Channels are numbered in the order they are opened; \<open>delivered\<close> lists what was sent on each. A
  sender whose receiver is gone ignores the payload (\<open>let _ = sender.send(..)\<close>); what such a
  channel holds is never read.
\<close>

record 'p router =
  pending :: "(string \<times> nat) list list"
  delivered :: "'p list list"

definition pending_request_shards :: nat where "pending_request_shards = 64"

definition router_new :: "'p router" where
  "router_new = \<lparr>pending = replicate pending_request_shards [], delivered = []\<rparr>"

text \<open>
  \<open>begin\<close> inserts first and then asserts that nothing was replaced: the flag is \<open>False\<close> when the
  assertion fails, and the old sender is gone in that case too.
\<close>

definition router_begin :: "(string \<Rightarrow> nat) \<Rightarrow> string \<Rightarrow> 'p router \<Rightarrow> bool \<times> 'p router" where
  "router_begin hash i r =
     (let c = length (delivered r); sh = shard_of hash (pending r) i in
      (map_of sh i = None,
       r\<lparr>pending := set_shard hash i (hm_insert i c sh) (pending r), delivered := delivered r @ [[]]\<rparr>))"

definition router_done :: "(string \<Rightarrow> nat) \<Rightarrow> string \<Rightarrow> 'p router \<Rightarrow> 'p router" where
  "router_done hash i r =
     r\<lparr>pending := set_shard hash i (hm_remove i (shard_of hash (pending r) i)) (pending r)\<rparr>"

definition router_consume :: "(string \<Rightarrow> nat) \<Rightarrow> ('p \<Rightarrow> string) \<Rightarrow> 'p \<Rightarrow> 'p router \<Rightarrow> 'p router" where
  "router_consume hash message_id p r =
     (let i = message_id p in
      case map_of (shard_of hash (pending r) i) i of
        None \<Rightarrow> r
      | Some c \<Rightarrow> r\<lparr>delivered := (delivered r)[c := delivered r ! c @ [p]]\<rparr>)"

section \<open>Pending requests\<close>

definition timestamps_new :: "(string \<times> instant) list list" where
  "timestamps_new = replicate pending_request_shards []"

definition timestamps_insert :: "(string \<Rightarrow> nat) \<Rightarrow> instant \<Rightarrow> string \<Rightarrow>
    (string \<times> instant) list list \<Rightarrow> (string \<times> instant) list list" where
  "timestamps_insert hash now i ss = set_shard hash i (hm_insert i now (shard_of hash ss i)) ss"

definition timestamps_remove :: "(string \<Rightarrow> nat) \<Rightarrow> string \<Rightarrow>
    (string \<times> instant) list list \<Rightarrow> (string \<times> instant) list list" where
  "timestamps_remove hash i ss = set_shard hash i (hm_remove i (shard_of hash ss i)) ss"

definition min_opt :: "nat list \<Rightarrow> nat option" where
  "min_opt xs = (if xs = [] then None else Some (Min (set xs)))"

definition oldest_age :: "instant \<Rightarrow> (string \<times> instant) list list \<Rightarrow> duration" where
  "oldest_age now ss =
     (case min_opt (List.map_filter (\<lambda>sh. min_opt (map snd sh)) ss) of
        None \<Rightarrow> 0 | Some t \<Rightarrow> now - t)"

text \<open>The timestamps exist only when the gauge is enabled.\<close>

record pending_requests =
  gauge :: int
  timestamps :: "(string \<times> instant) list list option"

definition pr_new :: "bool \<Rightarrow> pending_requests" where
  "pr_new enabled = \<lparr>gauge = 0, timestamps = if enabled then Some timestamps_new else None\<rparr>"

definition pr_add :: "(string \<Rightarrow> nat) \<Rightarrow> instant \<Rightarrow> string \<Rightarrow> pending_requests \<Rightarrow> pending_requests" where
  "pr_add hash now i p =
     (case timestamps p of
        None \<Rightarrow> p
      | Some ss \<Rightarrow> p\<lparr>gauge := gauge p + 1, timestamps := Some (timestamps_insert hash now i ss)\<rparr>)"

definition pr_remove :: "(string \<Rightarrow> nat) \<Rightarrow> string \<Rightarrow> pending_requests \<Rightarrow> pending_requests" where
  "pr_remove hash i p =
     (case timestamps p of
        None \<Rightarrow> p
      | Some ss \<Rightarrow> p\<lparr>gauge := gauge p - 1, timestamps := Some (timestamps_remove hash i ss)\<rparr>)"

section \<open>What the router delivers\<close>

definition route :: "(string \<Rightarrow> nat) \<Rightarrow> 'p router \<Rightarrow> string \<Rightarrow> nat option" where
  "route hash r = sharded_lookup map_of hash (pending r)"

definition router_inv :: "(string \<Rightarrow> nat) \<Rightarrow> 'p router \<Rightarrow> bool" where
  "router_inv hash r \<longleftrightarrow> pending r \<noteq> [] \<and> (\<forall>i c. route hash r i = Some c \<longrightarrow> c < length (delivered r)) \<and>
     (\<forall>i j c. route hash r i = Some c \<and> route hash r j = Some c \<longrightarrow> i = j)"

lemma router_new_inv [simp]: "router_inv hash router_new"
  by (simp add: router_inv_def router_new_def route_def pending_request_shards_def)

lemma route_begin:
  "pending r \<noteq> [] \<Longrightarrow> route hash (snd (router_begin hash i r)) = (route hash r)(i \<mapsto> length (delivered r))"
  by (simp add: route_def router_begin_def Let_def sharded_lookup_set)

lemma route_done: "pending r \<noteq> [] \<Longrightarrow> route hash (router_done hash i r) = (route hash r)(i := None)"
  by (simp add: route_def router_done_def sharded_lookup_set)

lemma route_consume [simp]: "route hash (router_consume hash f p r) = route hash r"
  by (simp add: route_def router_consume_def Let_def split: option.split)

lemma router_begin_flag: "fst (router_begin hash i r) \<longleftrightarrow> route hash r i = None"
  by (simp add: router_begin_def Let_def route_def sharded_lookup_def)

lemma router_begin_inv: "router_inv hash r \<Longrightarrow> router_inv hash (snd (router_begin hash i r))"
  unfolding router_inv_def
  by (auto simp: route_begin) (auto simp: router_begin_def Let_def less_Suc_eq)

lemma router_done_inv: "router_inv hash r \<Longrightarrow> router_inv hash (router_done hash i r)"
  unfolding router_inv_def by (auto simp: route_done) (auto simp: router_done_def split: if_splits)

lemma router_consume_inv: "router_inv hash r \<Longrightarrow> router_inv hash (router_consume hash f p r)"
  unfolding router_inv_def route_consume by (auto simp: router_consume_def Let_def split: option.split)

datatype 'p router_op = RBegin string | RDone string | RConsume 'p

fun router_exec :: "(string \<Rightarrow> nat) \<Rightarrow> ('p \<Rightarrow> string) \<Rightarrow> 'p router_op \<Rightarrow> 'p router \<Rightarrow> 'p router" where
  "router_exec hash f (RBegin i) r = snd (router_begin hash i r)"
| "router_exec hash f (RDone i) r = router_done hash i r"
| "router_exec hash f (RConsume p) r = router_consume hash f p r"

text \<open>
  The specification reads the calls alone: a request receives the payloads with its id that are
  consumed after its \<open>begin\<close> and before the next \<open>done\<close> or \<open>begin\<close> with the same id.
\<close>

fun window :: "('p \<Rightarrow> string) \<Rightarrow> string \<Rightarrow> 'p router_op list \<Rightarrow> 'p list" where
  "window f i [] = []"
| "window f i (RBegin j # xs) = (if j = i then [] else window f i xs)"
| "window f i (RDone j # xs) = (if j = i then [] else window f i xs)"
| "window f i (RConsume p # xs) = (if f p = i then p # window f i xs else window f i xs)"

fun expected :: "('p \<Rightarrow> string) \<Rightarrow> 'p router_op list \<Rightarrow> 'p list list" where
  "expected f [] = []"
| "expected f (RBegin i # xs) = window f i xs # expected f xs"
| "expected f (_ # xs) = expected f xs"

definition channel_ok :: "(string \<Rightarrow> nat) \<Rightarrow> ('p \<Rightarrow> string) \<Rightarrow> 'p router_op list \<Rightarrow> 'p router \<Rightarrow> 'p router \<Rightarrow> nat \<Rightarrow> bool" where
  "channel_ok hash f xs r r' c \<longleftrightarrow>
     (\<forall>i. route hash r i = Some c \<longrightarrow> delivered r' ! c = delivered r ! c @ window f i xs) \<and>
     ((\<forall>i. route hash r i \<noteq> Some c) \<longrightarrow> delivered r' ! c = delivered r ! c)"

lemma delivered_begin: "delivered (snd (router_begin hash i r)) = delivered r @ [[]]"
  by (simp add: router_begin_def Let_def)

lemma delivered_done: "delivered (router_done hash i r) = delivered r"
  by (simp add: router_done_def)

lemma delivered_consume:
  "delivered (router_consume hash f p r) =
     (case route hash r (f p) of None \<Rightarrow> delivered r | Some c \<Rightarrow> (delivered r)[c := delivered r ! c @ [p]])"
  by (simp add: router_consume_def Let_def route_def sharded_lookup_def split: option.split)

lemma router_run:
  assumes "router_inv hash r"
  shows "(\<forall>c < length (delivered r). channel_ok hash f xs r (fold (router_exec hash f) xs r) c) \<and>
    drop (length (delivered r)) (delivered (fold (router_exec hash f) xs r)) = expected f xs \<and>
    length (delivered r) \<le> length (delivered (fold (router_exec hash f) xs r))"
  using assms
proof (induction xs arbitrary: r)
  case Nil
  then show ?case by (simp add: channel_ok_def)
next
  case (Cons x xs)
  let ?r = "router_exec hash f x r" and ?e = "fold (router_exec hash f) (x # xs) r"
  have ne: "pending r \<noteq> []" using Cons.prems by (simp add: router_inv_def)
  show ?case
  proof (cases x)
    case (RBegin i)
    have dr: "delivered ?r = delivered r @ [[]]" by (simp add: RBegin delivered_begin)
    have rt: "route hash ?r = (route hash r)(i \<mapsto> length (delivered r))" by (simp add: RBegin route_begin ne)
    have inv: "router_inv hash ?r" using Cons.prems RBegin router_begin_inv by simp
    note IH = Cons.IH [OF inv]
    have new: "delivered ?e ! length (delivered r) = window f i xs"
    proof -
      have "channel_ok hash f xs ?r ?e (length (delivered r))" using IH by (simp add: dr)
      then show ?thesis by (auto simp: channel_ok_def rt dr)
    qed
    have dn: "drop (length (delivered r)) (delivered ?e) = window f i xs # expected f xs"
      using IH new by (simp add: dr Cons_nth_drop_Suc [symmetric])
    have "channel_ok hash f (x # xs) r ?e c" if c: "c < length (delivered r)" for c
    proof -
      have "channel_ok hash f xs ?r ?e c" using IH c by (simp add: dr)
      then show ?thesis
        using c Cons.prems unfolding channel_ok_def rt dr by (auto simp: RBegin nth_append router_inv_def split: if_splits)
    qed
    with IH dn show ?thesis by (simp add: RBegin delivered_begin)
  next
    case (RDone i)
    have rt: "route hash ?r = (route hash r)(i := None)" and dr: "delivered ?r = delivered r"
      by (simp_all add: RDone route_done ne delivered_done)
    have inv: "router_inv hash ?r" using Cons.prems RDone router_done_inv by simp
    have "channel_ok hash f (x # xs) r ?e c" if "channel_ok hash f xs ?r ?e c" for c
      using that Cons.prems unfolding channel_ok_def rt dr by (auto simp: RDone router_inv_def split: if_splits)
    with Cons.IH [OF inv] dr show ?thesis by (simp add: RDone)
  next
    case (RConsume p)
    have rt: "route hash ?r = route hash r" by (simp add: RConsume)
    have inv: "router_inv hash ?r" using Cons.prems RConsume router_consume_inv by simp
    have dr: "delivered ?r = (case route hash r (f p) of None \<Rightarrow> delivered r
        | Some c \<Rightarrow> (delivered r)[c := delivered r ! c @ [p]])"
      by (simp add: RConsume delivered_consume)
    then have len: "length (delivered ?r) = length (delivered r)" by (simp split: option.split)
    have "channel_ok hash f (x # xs) r ?e c" if "channel_ok hash f xs ?r ?e c" "c < length (delivered r)" for c
      using that Cons.prems unfolding channel_ok_def rt dr
      by (auto simp: RConsume router_inv_def nth_list_update split: option.splits)
    with Cons.IH [OF inv] len show ?thesis by (simp add: RConsume)
  qed
qed

section \<open>The timestamps\<close>

definition ts_lookup :: "(string \<Rightarrow> nat) \<Rightarrow> (string \<times> instant) list list \<Rightarrow> string \<Rightarrow> instant option" where
  "ts_lookup hash = sharded_lookup map_of hash"

text \<open>Every key is in its own shard, once.\<close>

definition ts_inv :: "(string \<Rightarrow> nat) \<Rightarrow> (string \<times> instant) list list \<Rightarrow> bool" where
  "ts_inv hash ss \<longleftrightarrow> ss \<noteq> [] \<and>
     (\<forall>n < length ss. hm_wf (ss ! n) \<and> (\<forall>k \<in> fst ` set (ss ! n). shard_index hash ss k = n))"

lemma ts_inv_set:
  assumes "ts_inv hash ss" and "hm_wf sh" and "fst ` set sh \<subseteq> insert i (fst ` set (shard_of hash ss i))"
  shows "ts_inv hash (set_shard hash i sh ss)"
proof -
  let ?n = "shard_index hash ss i"
  have ne: "ss \<noteq> []" and n: "?n < length ss"
    using assms(1) shard_index_less by (auto simp: ts_inv_def)
  have "hm_wf (set_shard hash i sh ss ! m) \<and>
      (\<forall>k \<in> fst ` set (set_shard hash i sh ss ! m). shard_index hash ss k = m)" if "m < length ss" for m
  proof (cases "m = ?n")
    case True
    have "shard_index hash ss k = ?n" if "k \<in> fst ` set (shard_of hash ss i)" for k
      using assms(1) n that unfolding ts_inv_def shard_of_def by blast
    then have "\<forall>k \<in> fst ` set sh. shard_index hash ss k = ?n" using assms(3) by blast
    with assms(2) n True show ?thesis by (simp add: set_shard_def)
  next
    case False
    with assms(1) that show ?thesis unfolding ts_inv_def by (simp add: set_shard_def)
  qed
  with ne show ?thesis unfolding ts_inv_def shard_index_set length_set_shard by simp
qed

interpretation ts: key_store "ts_inv hash" "ts_lookup hash" "\<lambda>i t. timestamps_insert hash t i"
  "\<lambda>i ss. (ts_lookup hash ss i, timestamps_remove hash i ss)"
  for hash
proof unfold_locales
  fix ss :: "(string \<times> instant) list list" and i t
  assume inv: "ts_inv hash ss"
  then have wf: "hm_wf (shard_of hash ss i)" and ne: "ss \<noteq> []"
    using shard_index_less [of ss hash i] by (auto simp: ts_inv_def shard_of_def)
  show "ts_inv hash (timestamps_insert hash t i ss)"
    unfolding timestamps_insert_def using wf
    by (intro ts_inv_set [OF inv]) (auto simp: hm_wf_insert hm_keys_dom)
  show "ts_inv hash (snd (ts_lookup hash ss i, timestamps_remove hash i ss))"
    unfolding timestamps_remove_def snd_conv using wf
    by (intro ts_inv_set [OF inv]) (auto simp: hm_wf_remove hm_keys_dom)
  show "ts_lookup hash (snd (ts_lookup hash ss i, timestamps_remove hash i ss)) = (ts_lookup hash ss)(i := None)"
    by (simp add: ts_lookup_def timestamps_remove_def sharded_lookup_set ne)
  show "ts_lookup hash (timestamps_insert hash t i ss) = (ts_lookup hash ss)(i \<mapsto> t)"
    by (simp add: ts_lookup_def timestamps_insert_def sharded_lookup_set ne)
qed simp

lemma ts_lookup_ran:
  assumes "ts_inv hash ss"
  shows "ran (ts_lookup hash ss) = (\<Union>sh \<in> set ss. snd ` set sh)"
proof (intro equalityI subsetI)
  fix t assume "t \<in> ran (ts_lookup hash ss)"
  then obtain i where "map_of (shard_of hash ss i) i = Some t"
    by (auto simp: ran_def ts_lookup_def sharded_lookup_def)
  then have "t \<in> snd ` set (shard_of hash ss i)" by (force dest: map_of_SomeD)
  moreover have "shard_of hash ss i \<in> set ss" using assms by (simp add: ts_inv_def shard_of_mem)
  ultimately show "t \<in> (\<Union>sh \<in> set ss. snd ` set sh)" by blast
next
  fix t assume "t \<in> (\<Union>sh \<in> set ss. snd ` set sh)"
  then obtain sh i where "sh \<in> set ss" and m: "(i, t) \<in> set sh" by auto
  then obtain n where n: "n < length ss" "(i, t) \<in> set (ss ! n)" by (metis in_set_conv_nth)
  then have "shard_of hash ss i = ss ! n" "hm_wf (ss ! n)"
    using assms by (force simp: ts_inv_def shard_of_def)+
  with n have "ts_lookup hash ss i = Some t" by (simp add: ts_lookup_def sharded_lookup_def)
  then show "t \<in> ran (ts_lookup hash ss)" by (auto simp: ran_def)
qed

lemma min_opt_shards:
  "(case min_opt (List.map_filter (\<lambda>sh. min_opt (map snd sh)) ss) of None \<Rightarrow> 0 | Some t \<Rightarrow> now - t) =
     (let T = \<Union>sh \<in> set ss. snd ` set sh in if T = {} then 0 else now - Min T)"
  for ss :: "(string \<times> instant) list list"
proof -
  have "min_opt (List.map_filter (\<lambda>sh. min_opt (map snd sh)) ss) =
      (let T = \<Union>sh \<in> set ss. snd ` set sh in if T = {} then None else Some (Min T))"
  proof (induction ss)
    case (Cons sh ss)
    let ?T = "\<Union>sh \<in> set ss. snd ` set sh"
    show ?case
    proof (cases "sh = []")
      case False
      let ?ys = "List.map_filter (\<lambda>sh. min_opt (map snd sh)) ss"
      have un: "Min (snd ` set sh \<union> ?T) = min (Min (snd ` set sh)) (Min ?T)" if "?T \<noteq> {}"
        using that False by (intro Min_Un) auto
      have "List.map_filter (\<lambda>sh. min_opt (map snd sh)) (sh # ss) = Min (snd ` set sh) # ?ys"
        using False by (simp add: min_opt_def map_filter_simps)
      moreover have "min_opt (Min (snd ` set sh) # ?ys) = Some (Min (snd ` set sh \<union> ?T))"
      proof (cases "?T = {}")
        case True
        with Cons have "?ys = []" by (simp add: min_opt_def split: if_splits)
        moreover have "snd ` set sh \<union> ?T = snd ` set sh" unfolding True by (rule Un_empty_right)
        ultimately show ?thesis by (simp only: min_opt_def) simp
      next
        case F: False
        with Cons have "?ys \<noteq> []" "Min (set ?ys) = Min ?T" by (auto simp: min_opt_def Let_def split: if_splits)
        with un [OF F] show ?thesis by (simp add: min_opt_def)
      qed
      ultimately show ?thesis using False by (simp add: Let_def)
    qed (use Cons in \<open>simp add: min_opt_def map_filter_simps\<close>)
  qed (simp add: min_opt_def map_filter_simps)
  then show ?thesis by (simp add: Let_def)
qed


datatype pr_op = PAdd string instant | PRemove string

fun pr_exec :: "(string \<Rightarrow> nat) \<Rightarrow> pr_op \<Rightarrow> pending_requests \<Rightarrow> pending_requests" where
  "pr_exec hash (PAdd i now) p = pr_add hash now i p"
| "pr_exec hash (PRemove i) p = pr_remove hash i p"

text \<open>The requests pending after some calls, and calls that add an absent and remove a present request.\<close>

fun pr_map :: "pr_op \<Rightarrow> (string \<rightharpoonup> instant) \<Rightarrow> (string \<rightharpoonup> instant)" where
  "pr_map (PAdd i now) m = m(i \<mapsto> now)"
| "pr_map (PRemove i) m = m(i := None)"

fun bracketed :: "pr_op list \<Rightarrow> (string \<rightharpoonup> instant) \<Rightarrow> bool" where
  "bracketed [] m \<longleftrightarrow> True"
| "bracketed (PAdd i now # xs) m \<longleftrightarrow> m i = None \<and> bracketed xs (m(i \<mapsto> now))"
| "bracketed (PRemove i # xs) m \<longleftrightarrow> m i \<noteq> None \<and> bracketed xs (m(i := None))"

lemma pr_run:
  assumes "timestamps p = Some ss" and "ts_inv hash ss" and "finite (dom (ts_lookup hash ss))"
    and "gauge p = int (card (dom (ts_lookup hash ss)))" and "bracketed xs (ts_lookup hash ss)"
  shows "\<exists>ss'. timestamps (fold (pr_exec hash) xs p) = Some ss' \<and> ts_inv hash ss' \<and>
    ts_lookup hash ss' = fold pr_map xs (ts_lookup hash ss) \<and>
    gauge (fold (pr_exec hash) xs p) = int (card (dom (ts_lookup hash ss')))"
  using assms
proof (induction xs arbitrary: p ss)
  case (Cons x xs)
  show ?case
  proof (cases x)
    case (PAdd i t)
    let ?ss = "timestamps_insert hash t i ss"
    have f: "ts_lookup hash ss i = None" using Cons.prems PAdd by simp
    have inv: "ts_inv hash ?ss" by (rule ts.put_inv [OF Cons.prems(2)])
    have lk: "ts_lookup hash ?ss = (ts_lookup hash ss)(i \<mapsto> t)" by (rule ts.put_fresh [OF Cons.prems(2) f])
    have fin: "finite (dom (ts_lookup hash ?ss))" using Cons.prems(3) unfolding lk by simp
    have "card (dom (ts_lookup hash ?ss)) = Suc (card (dom (ts_lookup hash ss)))"
      using f Cons.prems(3) unfolding lk by (simp add: card_insert_if domIff)
    then have g: "gauge (pr_exec hash x p) = int (card (dom (ts_lookup hash ?ss)))"
      using Cons.prems PAdd by (simp add: pr_add_def)
    have br: "bracketed xs (ts_lookup hash ?ss)" using Cons.prems PAdd unfolding lk by simp
    have "timestamps (pr_exec hash x p) = Some ?ss" using Cons.prems PAdd by (simp add: pr_add_def)
    from Cons.IH [OF this inv fin g br] show ?thesis by (simp only: PAdd lk fold_simps pr_map.simps)
  next
    case (PRemove i)
    let ?ss = "timestamps_remove hash i ss"
    obtain t where f: "ts_lookup hash ss i = Some t" using Cons.prems PRemove by auto
    have inv: "ts_inv hash ?ss" using ts.take_inv [OF Cons.prems(2), of i] by simp
    have lk: "ts_lookup hash ?ss = (ts_lookup hash ss)(i := None)"
      using ts.take_removes [OF Cons.prems(2), of i] by simp
    have fin: "finite (dom (ts_lookup hash ?ss))" using Cons.prems(3) unfolding lk by simp
    have "card (dom (ts_lookup hash ss)) = Suc (card (dom (ts_lookup hash ?ss)))"
      unfolding lk dom_fun_upd using card.remove [OF Cons.prems(3), of i] f by (simp add: domI)
    then have g: "gauge (pr_exec hash x p) = int (card (dom (ts_lookup hash ?ss)))"
      using Cons.prems PRemove by (simp add: pr_remove_def)
    have br: "bracketed xs (ts_lookup hash ?ss)" using Cons.prems PRemove unfolding lk by simp
    have "timestamps (pr_exec hash x p) = Some ?ss" using Cons.prems PRemove by (simp add: pr_remove_def)
    from Cons.IH [OF this inv fin g br] show ?thesis by (simp only: PRemove lk fold_simps pr_map.simps)
  qed
qed simp

lemma timestamps_new_inv:
  "ts_inv hash timestamps_new" "ts_lookup hash timestamps_new = (\<lambda>_. None)"
  by (simp_all add: ts_inv_def timestamps_new_def pending_request_shards_def ts_lookup_def fun_eq_iff)

section \<open>Properties\<close>

text \<open>
  C35. What a request receives. After any sequence of \<open>begin\<close>, \<open>done\<close> and \<open>consume\<close> calls on a new
  router, under every hash function, the channel returned by each \<open>begin\<close> holds, in order, exactly
  the payloads with that message id consumed after it and before the next \<open>done\<close> or \<open>begin\<close> with
  the same id. (The latter is the assertion failure on a duplicate id: it still ends the
  registration of the earlier request.)
\<close>

theorem result_router_delivers:
  "delivered (fold (router_exec hash message_id) xs router_new) = expected message_id xs"
  using router_run [OF router_new_inv, of hash message_id xs] by (simp add: router_new_def)

text \<open>
  Pending-request gauges. When every added request is absent and every removed one present,
  an enabled gauge counts the pending requests, and the oldest age over the 64 shards is the age of
  the oldest pending request, zero when there is none.
\<close>

theorem pending_requests_gauges:
  assumes "bracketed xs (\<lambda>_. None)"
  shows "let p = fold (pr_exec hash) xs (pr_new True); m = fold pr_map xs (\<lambda>_. None) in
    gauge p = int (card (dom m)) \<and>
    oldest_age now (the (timestamps p)) = (if ran m = {} then 0 else now - Min (ran m))"
proof -
  let ?p = "fold (pr_exec hash) xs (pr_new True)" and ?m = "fold pr_map xs (\<lambda>_. None)"
  have "\<exists>ss'. timestamps ?p = Some ss' \<and> ts_inv hash ss' \<and>
    ts_lookup hash ss' = fold pr_map xs (ts_lookup hash timestamps_new) \<and>
    gauge ?p = int (card (dom (ts_lookup hash ss')))"
    using assms by (intro pr_run) (simp_all add: pr_new_def timestamps_new_inv)
  then obtain ss' where t: "timestamps ?p = Some ss'" and inv: "ts_inv hash ss'"
    and lk: "ts_lookup hash ss' = ?m" and g: "gauge ?p = int (card (dom ?m))"
    by (auto simp: timestamps_new_inv)
  have "oldest_age now ss' = (if ran ?m = {} then 0 else now - Min (ran ?m))"
    unfolding oldest_age_def min_opt_shards Let_def lk [symmetric] ts_lookup_ran [OF inv] ..
  with t g show ?thesis by (simp add: Let_def)
qed

theorem pending_requests_gauges_witness:
  "let p = fold (pr_exec length) [PAdd ''a'' 3, PAdd ''b'' 5, PRemove ''a''] (pr_new True) in
   gauge p = 1 \<and> oldest_age 9 (the (timestamps p)) = 4"
  using pending_requests_gauges [of "[PAdd ''a'' 3, PAdd ''b'' 5, PRemove ''a'']" length 9]
  by (simp add: Let_def)

end
