(* ===== verification/Serde_Core.thy ===== *)
theory Serde_Core
  imports Runtime_Prelude "HOL-Library.Word" "HOL-Library.List_Lexorder"
begin

text \<open>
  The wire format of \<open>src/runtime/serde/serdeimpl.rs\<close>, first part: big-endian integers, the bounded
  \<open>Reader\<close>, size prefixes, and the serdes of the primitive types (booleans, integers with the
  sortable sign-bit encoding, characters, floats by bit pattern, strings, byte sequences, the stub
  and the JSON serde). The lemmas show round trips, what a successful read proves about its input,
  and the byte order of signed integers.

  A \<open>Result\<close> is a sum with the error on the left. The one panic of this code, a
  \<open>Vec::with_capacity\<close> request above \<open>isize::MAX\<close> bytes, is the extra error \<open>CapacityOverflow\<close>.
  Strings are their UTF-8 bytes, floats their bit patterns, \<open>usize\<close> is 64 bits wide.
\<close>

unbundle bit_operations_syntax

section \<open>Bytes and big-endian integers\<close>

type_synonym bytes = "8 word list"

fun be_of_nat :: "nat \<Rightarrow> nat \<Rightarrow> bytes" where
  "be_of_nat 0 x = []"
| "be_of_nat (Suc n) x = be_of_nat n (x div 256) @ [word_of_nat (x mod 256)]"

definition nat_of_be :: "bytes \<Rightarrow> nat" where
  "nat_of_be bs = foldl (\<lambda>a b. a * 256 + unat b) 0 bs"

lemma length_be_of_nat [simp]: "length (be_of_nat n x) = n"
  by (induction n arbitrary: x) simp_all

lemma nat_of_be_snoc [simp]: "nat_of_be (bs @ [b]) = nat_of_be bs * 256 + unat b"
  by (simp add: nat_of_be_def)

lemma nat_of_be_Nil [simp]: "nat_of_be [] = 0"
  by (simp add: nat_of_be_def)

lemma unat_byte_less: "unat (b :: 8 word) < 256"
  using unsigned_less [of b] by simp

lemma nat_of_be_less: "nat_of_be bs < 256 ^ length bs"
proof (induction bs rule: rev_induct)
  case (snoc b bs)
  then show ?case
    using unat_byte_less [of b] by (simp add: algebra_simps)
qed simp

lemma nat_of_be_of_nat [simp]: "x < 256 ^ n \<Longrightarrow> nat_of_be (be_of_nat n x) = x"
proof (induction n arbitrary: x)
  case (Suc n)
  then have "x div 256 < 256 ^ n" by (simp add: less_mult_imp_div_less mult.commute)
  moreover have "unat (word_of_nat (x mod 256) :: 8 word) = x mod 256"
    by (simp add: unat_of_nat)
  ultimately show ?case using Suc.IH by simp
qed simp

lemma be_of_nat_of_be [simp]: "be_of_nat (length bs) (nat_of_be bs) = bs"
proof (induction bs rule: rev_induct)
  case (snoc b bs)
  then show ?case using unat_byte_less [of b] by simp
qed simp

text \<open>The lexicographic order of equally long byte strings is the order of the numbers.\<close>

lemma be_order_snoc:
  "length as = length bs \<Longrightarrow> as @ [a] < bs @ [b] \<longleftrightarrow> as < bs \<or> as = bs \<and> (a :: 8 word) < b"
  by (induction as bs rule: list_induct2) auto

lemma be_order:
  "length as = length bs \<Longrightarrow> as < bs \<longleftrightarrow> nat_of_be as < nat_of_be bs"
proof (induction as arbitrary: bs rule: rev_induct)
  case (snoc a as)
  then obtain b bs' where bs: "bs = bs' @ [b]" "length as = length bs'"
    by (cases bs rule: rev_cases) auto
  have inj: "nat_of_be as = nat_of_be bs' \<longleftrightarrow> as = bs'"
    using bs(2) be_of_nat_of_be by metis
  have "as @ [a] < bs' @ [b] \<longleftrightarrow> nat_of_be as < nat_of_be bs' \<or> nat_of_be as = nat_of_be bs' \<and> unat a < unat b"
    using snoc.IH [OF bs(2)] bs(2) inj by (simp add: be_order_snoc word_less_nat_alt)
  also have "\<dots> \<longleftrightarrow> nat_of_be as * 256 + unat a < nat_of_be bs' * 256 + unat b"
    using unat_byte_less [of a] unat_byte_less [of b] by arith
  finally show ?case by (simp add: bs)
qed simp

section \<open>Errors, limits and the reader\<close>

datatype serde_error = SerdeError string nat | CapacityOverflow

type_synonym 'a serde_result = "serde_error + 'a"

definition bind_result :: "'a serde_result \<Rightarrow> ('a \<Rightarrow> 'b serde_result) \<Rightarrow> 'b serde_result" where
  "bind_result r f = (case r of Inl e \<Rightarrow> Inl e | Inr x \<Rightarrow> f x)"

lemma bind_result_simps [simp]: "bind_result (Inl e) f = Inl e" "bind_result (Inr x) f = f x"
  by (simp_all add: bind_result_def)

lemma bind_result_Inr: "bind_result r f = Inr y \<longleftrightarrow> (\<exists>x. r = Inr x \<and> f x = Inr y)"
  by (cases r) auto

record serde_limits =
  max_string_bytes :: nat
  max_bytes :: nat
  max_container_elements :: nat
  max_total_bytes :: nat

definition default_limits :: serde_limits where
  "default_limits = \<lparr>max_string_bytes = usize_max, max_bytes = usize_max,
     max_container_elements = usize_max, max_total_bytes = usize_max\<rparr>"

record reader =
  data :: bytes
  offset :: nat

definition reader_new :: "bytes \<Rightarrow> nat \<Rightarrow> reader serde_result" where
  "reader_new bs max_total =
     (if length bs > max_total then Inl (SerdeError ''serde input exceeds configured limit'' 0)
      else Inr \<lparr>data = bs, offset = 0\<rparr>)"

definition reader_read :: "nat \<Rightarrow> string \<Rightarrow> reader \<Rightarrow> (bytes \<times> reader) serde_result" where
  "reader_read n what r =
     (case checked_add (offset r) n of
        None \<Rightarrow> Inl (SerdeError ''serde size overflow'' (offset r))
      | Some end \<Rightarrow>
          if end > length (data r)
          then Inl (SerdeError (''serde underflow while reading '' @ what) (offset r))
          else Inr (take n (drop (offset r) (data r)), r\<lparr>offset := end\<rparr>))"

definition size_bytes :: nat where "size_bytes = 8"

definition reader_read_size :: "nat \<Rightarrow> string \<Rightarrow> reader \<Rightarrow> (nat \<times> reader) serde_result" where
  "reader_read_size maximum what r =
     bind_result (reader_read size_bytes what r) (\<lambda>(bs, r').
       let n = nat_of_be bs in
       if n > usize_max then Inl (SerdeError (what @ '' does not fit usize'') (offset r))
       else if n > maximum then Inl (SerdeError (what @ '' exceeds configured limit'') (offset r))
       else Inr (n, r'))"

definition put_size :: "bytes \<Rightarrow> nat \<Rightarrow> bytes" where
  "put_size output n = output @ be_of_nat size_bytes n"

definition reader_rest :: "reader \<Rightarrow> bytes" where
  "reader_rest r = drop (offset r) (data r)"

definition reader_ok :: "reader \<Rightarrow> bool" where
  "reader_ok r \<longleftrightarrow> offset r \<le> length (data r) \<and> length (data r) \<le> usize_max"

lemma reader_new_ok: "reader_new bs n = Inr r \<Longrightarrow> n \<le> usize_max \<Longrightarrow> reader_ok r \<and> reader_rest r = bs \<and> offset r = 0 \<and> data r = bs"
  by (auto simp: reader_new_def reader_ok_def reader_rest_def split: if_splits)

text \<open>Reading is splitting the rest of the input.\<close>

lemma reader_read_eq:
  "reader_ok r \<Longrightarrow> reader_read n what r =
     (if n \<le> length (reader_rest r) then Inr (take n (reader_rest r), r\<lparr>offset := offset r + n\<rparr>)
      else if offset r + n \<le> usize_max then Inl (SerdeError (''serde underflow while reading '' @ what) (offset r))
      else Inl (SerdeError ''serde size overflow'' (offset r)))"
  by (auto simp: reader_read_def reader_ok_def reader_rest_def checked_add_def)

lemma reader_rest_advance: "reader_rest (r\<lparr>offset := offset r + n\<rparr>) = drop n (reader_rest r)"
  by (simp add: reader_rest_def add.commute)

lemma reader_ok_advance: "reader_ok r \<Longrightarrow> n \<le> length (reader_rest r) \<Longrightarrow> reader_ok (r\<lparr>offset := offset r + n\<rparr>)"
  by (auto simp: reader_ok_def reader_rest_def)

lemma reader_read_iff:
  assumes "reader_ok r"
  shows "reader_read n what r = Inr (bs, r') \<longleftrightarrow>
    length bs = n \<and> reader_rest r = bs @ reader_rest r' \<and> r' = r\<lparr>offset := offset r + n\<rparr>"
proof
  assume "reader_read n what r = Inr (bs, r')"
  then show "length bs = n \<and> reader_rest r = bs @ reader_rest r' \<and> r' = r\<lparr>offset := offset r + n\<rparr>"
    by (auto simp: reader_read_eq [OF assms] reader_rest_advance split: if_splits)
next
  assume a: "length bs = n \<and> reader_rest r = bs @ reader_rest r' \<and> r' = r\<lparr>offset := offset r + n\<rparr>"
  then have "n \<le> length (reader_rest r)" "take n (reader_rest r) = bs" by simp_all
  with a show "reader_read n what r = Inr (bs, r')" by (simp add: reader_read_eq [OF assms])
qed

lemma reader_read_append:
  assumes "reader_ok r" and "reader_rest r = bs @ rest"
  shows "reader_read (length bs) what r = Inr (bs, r\<lparr>offset := offset r + length bs\<rparr>) \<and>
    reader_ok (r\<lparr>offset := offset r + length bs\<rparr>) \<and> reader_rest (r\<lparr>offset := offset r + length bs\<rparr>) = rest"
  using assms by (simp add: reader_read_eq reader_rest_advance reader_ok_advance)

lemma reader_read_ok: "reader_ok r \<Longrightarrow> reader_read n what r = Inr (bs, r') \<Longrightarrow> reader_ok r'"
  by (auto simp: reader_read_def reader_ok_def checked_add_def split: if_splits)

lemma size_fits: "length bs = size_bytes \<Longrightarrow> nat_of_be bs \<le> usize_max"
  using nat_of_be_less [of bs] by (simp add: size_bytes_def usize_max_def)

lemma reader_read_size_append:
  assumes "reader_ok r" and "reader_rest r = be_of_nat size_bytes n @ rest" and "n \<le> m" and "n \<le> usize_max"
  shows "\<exists>r'. reader_read_size m what r = Inr (n, r') \<and> reader_ok r' \<and> reader_rest r' = rest \<and>
    data r' = data r \<and> offset r' = offset r + size_bytes"
proof -
  have "n < 256 ^ size_bytes" using assms(4) by (simp add: usize_max_def size_bytes_def)
  with reader_read_append [OF assms(1,2), of what] assms(3,4) show ?thesis
    by (auto simp: reader_read_size_def)
qed

lemma reader_read_size_iff:
  assumes "reader_ok r"
  shows "reader_read_size m what r = Inr (n, r') \<longleftrightarrow>
    n \<le> m \<and> n \<le> usize_max \<and> reader_rest r = be_of_nat size_bytes n @ reader_rest r' \<and> r' = r\<lparr>offset := offset r + size_bytes\<rparr>"
proof
  assume "reader_read_size m what r = Inr (n, r')"
  then obtain bs where bs: "reader_read size_bytes what r = Inr (bs, r')" "n = nat_of_be bs" "n \<le> m" "n \<le> usize_max"
    by (auto simp: reader_read_size_def bind_result_Inr Let_def split: if_splits)
  then have "length bs = size_bytes" "reader_rest r = bs @ reader_rest r'" "r' = r\<lparr>offset := offset r + size_bytes\<rparr>"
    using reader_read_iff [OF assms] by blast+
  with bs show "n \<le> m \<and> n \<le> usize_max \<and> reader_rest r = be_of_nat size_bytes n @ reader_rest r' \<and>
      r' = r\<lparr>offset := offset r + size_bytes\<rparr>"
    by (metis be_of_nat_of_be)
next
  assume a: "n \<le> m \<and> n \<le> usize_max \<and> reader_rest r = be_of_nat size_bytes n @ reader_rest r' \<and>
    r' = r\<lparr>offset := offset r + size_bytes\<rparr>"
  with reader_read_size_append [OF assms, of n "reader_rest r'" m what]
  show "reader_read_size m what r = Inr (n, r')"
    by (auto simp: reader_ok_def)
qed


section \<open>The serde interface\<close>

text \<open>The trait \<open>Serde<T>\<close>, with its default \<open>serialize_to\<close>.\<close>

record 'a serde =
  serialize :: "'a \<Rightarrow> bytes serde_result"
  deserialize :: "bytes \<Rightarrow> 'a serde_result"
  is_stub :: bool

definition serialize_to :: "'a serde \<Rightarrow> bytes \<Rightarrow> 'a \<Rightarrow> bytes serde_result" where
  "serialize_to s output v = bind_result (serialize s v) (\<lambda>bs. Inr (output @ bs))"

text \<open>
  The contract a container needs of its element serde: values of \<open>dom\<close> are written, and read back
  from exactly the bytes written.
\<close>

locale serde_contract =
  fixes ser :: "'a \<Rightarrow> bytes serde_result" and deser :: "bytes \<Rightarrow> 'a serde_result" and dom :: "'a \<Rightarrow> bool"
  assumes writes: "dom v \<Longrightarrow> \<exists>bs. ser v = Inr bs"
    and reads_back: "dom v \<Longrightarrow> ser v = Inr bs \<Longrightarrow> deser bs = Inr v"
begin

definition encoded :: "'a \<Rightarrow> bytes" where
  "encoded v = (case ser v of Inl _ \<Rightarrow> [] | Inr bs \<Rightarrow> bs)"

lemma ser_encoded: "dom v \<Longrightarrow> ser v = Inr (encoded v)"
  using writes by (force simp: encoded_def)

lemma deser_encoded: "dom v \<Longrightarrow> deser (encoded v) = Inr v"
  using reads_back ser_encoded by blast

lemma encoded_inj: "dom v \<Longrightarrow> dom w \<Longrightarrow> encoded v = encoded w \<Longrightarrow> v = w"
  using deser_encoded by (metis sum.inject(2))

end

text \<open>A serde whose encodings all have \<open>width\<close> bytes.\<close>

locale fixed_serde_contract = serde_contract +
  fixes width :: nat
  assumes fixed_width: "dom v \<Longrightarrow> ser v = Inr bs \<Longrightarrow> length bs = width"
begin

lemma length_encoded: "dom v \<Longrightarrow> length (encoded v) = width"
  using ser_encoded fixed_width by blast

end

section \<open>Integers\<close>

text \<open>The macro \<open>unsigned_serde!\<close>, for a type of \<open>n\<close> bytes called \<open>what\<close>.\<close>

definition unsigned_serialize :: "nat \<Rightarrow> 'w::len word \<Rightarrow> bytes serde_result" where
  "unsigned_serialize n v = Inr (be_of_nat n (unat v))"

definition unsigned_deserialize :: "nat \<Rightarrow> string \<Rightarrow> bytes \<Rightarrow> 'w::len word serde_result" where
  "unsigned_deserialize n what bs =
     bind_result (reader_new bs usize_max) (\<lambda>r.
     bind_result (reader_read n what r) (\<lambda>(x, _). Inr (word_of_nat (nat_of_be x))))"

text \<open>The macro \<open>signed_serde!\<close>: the two's-complement bits with the sign bit flipped by \<open>flip\<close>.\<close>

definition signed_serialize :: "nat \<Rightarrow> 'w::len word \<Rightarrow> int \<Rightarrow> bytes serde_result" where
  "signed_serialize n flip v = Inr (be_of_nat n (unat ((word_of_int v :: 'w word) XOR flip)))"

definition signed_deserialize :: "nat \<Rightarrow> string \<Rightarrow> 'w::len word \<Rightarrow> bytes \<Rightarrow> int serde_result" where
  "signed_deserialize n what flip bs =
     bind_result (reader_new bs usize_max) (\<lambda>r.
     bind_result (reader_read n what r) (\<lambda>(x, _). Inr (sint ((word_of_nat (nat_of_be x) :: 'w word) XOR flip))))"

definition uint8_serde :: "8 word serde" where
  "uint8_serde = \<lparr>serialize = unsigned_serialize 1, deserialize = unsigned_deserialize 1 ''u8'', is_stub = False\<rparr>"
definition uint16_serde :: "16 word serde" where
  "uint16_serde = \<lparr>serialize = unsigned_serialize 2, deserialize = unsigned_deserialize 2 ''u16'', is_stub = False\<rparr>"
definition uint32_serde :: "32 word serde" where
  "uint32_serde = \<lparr>serialize = unsigned_serialize 4, deserialize = unsigned_deserialize 4 ''u32'', is_stub = False\<rparr>"
definition uint64_serde :: "64 word serde" where
  "uint64_serde = \<lparr>serialize = unsigned_serialize 8, deserialize = unsigned_deserialize 8 ''u64'', is_stub = False\<rparr>"

definition int8_serde :: "int serde" where
  "int8_serde = \<lparr>serialize = signed_serialize 1 (0 :: 8 word),
     deserialize = signed_deserialize 1 ''i8'' (0 :: 8 word), is_stub = False\<rparr>"
definition int16_serde :: "int serde" where
  "int16_serde = \<lparr>serialize = signed_serialize 2 (0x8000 :: 16 word),
     deserialize = signed_deserialize 2 ''i16'' (0x8000 :: 16 word), is_stub = False\<rparr>"
definition int32_serde :: "int serde" where
  "int32_serde = \<lparr>serialize = signed_serialize 4 (0x80000000 :: 32 word),
     deserialize = signed_deserialize 4 ''i32'' (0x80000000 :: 32 word), is_stub = False\<rparr>"
definition int64_serde :: "int serde" where
  "int64_serde = \<lparr>serialize = signed_serialize 8 (0x8000000000000000 :: 64 word),
     deserialize = signed_deserialize 8 ''i64'' (0x8000000000000000 :: 64 word), is_stub = False\<rparr>"

definition signed_range :: "nat \<Rightarrow> int \<Rightarrow> bool" where
  "signed_range bits v \<longleftrightarrow> - (2 ^ (bits - 1)) \<le> v \<and> v < 2 ^ (bits - 1)"

lemma primitive_read:
  assumes "length x = n" and "length (x @ rest) \<le> usize_max"
  shows "bind_result (reader_new (x @ rest) usize_max) (\<lambda>r.
     bind_result (reader_read n what r) (\<lambda>(y, _). f y)) = f x"
proof -
  let ?r = "\<lparr>data = x @ rest, offset = 0\<rparr>"
  have "reader_new (x @ rest) usize_max = Inr ?r" using assms by (simp add: reader_new_def)
  moreover have "reader_ok ?r" "reader_rest ?r = x @ rest" using assms by (simp_all add: reader_ok_def reader_rest_def)
  ultimately show ?thesis using reader_read_append [of ?r x rest what] assms(1) by auto
qed

lemma power_256: "256 ^ n = (2 :: nat) ^ (8 * n)"
  by (simp add: power_mult)

lemma unsigned_roundtrip:
  fixes v :: "'w::len word"
  assumes "LENGTH('w) = 8 * n" and "length rest + n \<le> usize_max"
  shows "unsigned_deserialize n what (be_of_nat n (unat v) @ rest) = Inr v"
proof -
  have "unat v < 256 ^ n" using unsigned_less [of v] assms(1) by (simp add: power_256)
  with assms(2) show ?thesis
    unfolding unsigned_deserialize_def by (subst primitive_read) (simp_all add: add.commute)
qed

lemma signed_roundtrip:
  fixes flip :: "'w::len word"
  assumes "LENGTH('w) = 8 * n" and "signed_range (8 * n) v" and "length rest + n \<le> usize_max"
  shows "signed_deserialize n what flip (be_of_nat n (unat ((word_of_int v :: 'w word) XOR flip)) @ rest) = Inr v"
proof -
  let ?w = "(word_of_int v :: 'w word) XOR flip"
  have "unat ?w < 256 ^ n" using unsigned_less [of ?w] assms(1) by (simp add: power_256)
  moreover have "?w XOR flip = word_of_int v"
    by (simp add: xor.assoc)
  moreover have "sint (word_of_int v :: 'w word) = v"
    using assms(1,2) by (simp add: signed_range_def sint_sbintrunc' signed_take_bit_int_eq_self_iff)
  ultimately show ?thesis
    using assms(3) unfolding signed_deserialize_def by (subst primitive_read) (simp_all add: add.commute)
qed


text \<open>Flipping the sign bit adds half the range: the encoding is sortable.\<close>

lemma xor_sign_bit:
  fixes w :: "'w::len word"
  shows "w XOR push_bit (LENGTH('w) - 1) 1 = w + 2 ^ (LENGTH('w) - 1)"
proof -
  have "(2 :: 'w word) * 2 ^ (LENGTH('w) - 1) = 2 ^ LENGTH('w)"
    by (metis One_nat_def Suc_pred len_gt_0 power_Suc)
  also have "\<dots> = 0" by (simp only: exp_eq_zero_iff)
  finally have "2 ^ (LENGTH('w) - 1) + 2 ^ (LENGTH('w) - 1) = (0 :: 'w word)"
    by (simp only: mult_2)
  then have "w - 2 ^ (LENGTH('w) - 1) = w + 2 ^ (LENGTH('w) - 1)"
    by (simp only: diff_eq_eq add.assoc add_0_right)
  then show ?thesis
    unfolding flip_bit_eq_xor [symmetric] flip_bit_eq_if set_bit_eq unset_bit_eq by simp
qed

lemma unat_flip_sign:
  fixes v :: int
  assumes "signed_range (LENGTH('w::len)) v"
  shows "int (unat ((word_of_int v :: 'w word) XOR push_bit (LENGTH('w) - 1) 1)) = v + 2 ^ (LENGTH('w) - 1)"
proof -
  have e: "(2 :: int) * 2 ^ (LENGTH('w) - 1) = 2 ^ LENGTH('w)"
    by (metis One_nat_def Suc_pred len_gt_0 power_Suc)
  have "(word_of_int v :: 'w word) + 2 ^ (LENGTH('w) - 1) = word_of_int (v + 2 ^ (LENGTH('w) - 1))"
    by simp
  then have "uint ((word_of_int v :: 'w word) XOR push_bit (LENGTH('w) - 1) 1) =
      (v + 2 ^ (LENGTH('w) - 1)) mod 2 ^ LENGTH('w)"
    by (simp only: xor_sign_bit uint_word_of_int)
  also have "\<dots> = v + 2 ^ (LENGTH('w) - 1)"
    using assms e by (intro mod_pos_pos_trivial) (auto simp: signed_range_def)
  finally show ?thesis by simp
qed

lemma signed_order:
  assumes "LENGTH('w::len) = 8 * n" and "signed_range (8 * n) v" and "signed_range (8 * n) w"
  shows "be_of_nat n (unat ((word_of_int v :: 'w word) XOR push_bit (LENGTH('w) - 1) 1)) <
      be_of_nat n (unat ((word_of_int w :: 'w word) XOR push_bit (LENGTH('w) - 1) 1)) \<longleftrightarrow> v < w"
proof -
  let ?f = "\<lambda>x. unat ((word_of_int x :: 'w word) XOR push_bit (LENGTH('w) - 1) 1)"
  have b: "?f x < 256 ^ n" for x
    using unsigned_less [of "(word_of_int x :: 'w word) XOR push_bit (LENGTH('w) - 1) 1"] assms(1)
    by (simp add: power_256)
  have "be_of_nat n (?f v) < be_of_nat n (?f w) \<longleftrightarrow> ?f v < ?f w"
    using be_order [of "be_of_nat n (?f v)" "be_of_nat n (?f w)"] b by simp
  also have "\<dots> \<longleftrightarrow> v < w"
    using unat_flip_sign [where 'w = 'w, of v] unat_flip_sign [where 'w = 'w, of w] assms
    by (simp add: zless_nat_eq_int_zless flip: of_nat_less_iff [where 'a = int])
  finally show ?thesis .
qed


section \<open>Booleans, characters and floats\<close>

definition bool_serialize :: "bool \<Rightarrow> bytes serde_result" where
  "bool_serialize v = Inr [if v then 1 else 0]"

definition bool_deserialize :: "bytes \<Rightarrow> bool serde_result" where
  "bool_deserialize bs =
     bind_result (reader_new bs usize_max) (\<lambda>r.
     bind_result (reader_read 1 ''bool'' r) (\<lambda>(x, _). Inr (x ! 0 \<noteq> 0)))"

definition bool_serde :: "bool serde" where
  "bool_serde = \<lparr>serialize = bool_serialize, deserialize = bool_deserialize, is_stub = False\<rparr>"

text \<open>A \<open>char\<close> is a Unicode scalar value.\<close>

definition unicode_scalar :: "nat \<Rightarrow> bool" where
  "unicode_scalar c \<longleftrightarrow> c < 0xD800 \<or> 0xE000 \<le> c \<and> c < 0x110000"

definition rune_serialize :: "nat \<Rightarrow> bytes serde_result" where
  "rune_serialize c = Inr (be_of_nat 4 (unat (word_of_nat c :: 32 word)))"

definition rune_deserialize :: "bytes \<Rightarrow> nat serde_result" where
  "rune_deserialize bs =
     bind_result (deserialize uint32_serde bs) (\<lambda>w.
       if unicode_scalar (unat w) then Inr (unat w) else Inl (SerdeError ''invalid Unicode scalar'' 0))"

definition rune_serde :: "nat serde" where
  "rune_serde = \<lparr>serialize = rune_serialize, deserialize = rune_deserialize, is_stub = False\<rparr>"

text \<open>Floats are represented by \<open>to_bits\<close>, which \<open>from_bits\<close> inverts.\<close>

type_synonym f32 = "32 word"
type_synonym f64 = "64 word"

definition float32_serde :: "f32 serde" where
  "float32_serde = \<lparr>serialize = (\<lambda>v. Inr (be_of_nat 4 (unat v))),
     deserialize = deserialize uint32_serde, is_stub = False\<rparr>"

definition float64_serde :: "f64 serde" where
  "float64_serde = \<lparr>serialize = (\<lambda>v. Inr (be_of_nat 8 (unat v))),
     deserialize = deserialize uint64_serde, is_stub = False\<rparr>"

section \<open>Strings and byte sequences\<close>

text \<open>
  UTF-8 as \<open>String::from_utf8\<close> accepts it: shortest forms only, no surrogates, nothing above
  \<open>10FFFF\<close>. A Rust string is such a byte sequence.
\<close>

definition cont :: "8 word \<Rightarrow> bool" where
  "cont b \<longleftrightarrow> 0x80 \<le> b \<and> b \<le> 0xBF"

fun utf8_valid :: "bytes \<Rightarrow> bool" where
  "utf8_valid [] \<longleftrightarrow> True"
| "utf8_valid (a # bs) \<longleftrightarrow>
     (if a \<le> 0x7F then utf8_valid bs
      else if 0xC2 \<le> a \<and> a \<le> 0xDF then
        (case bs of b # r \<Rightarrow> cont b \<and> utf8_valid r | _ \<Rightarrow> False)
      else if 0xE0 \<le> a \<and> a \<le> 0xEF then
        (case bs of b # c # r \<Rightarrow>
           cont b \<and> cont c \<and> (a = 0xE0 \<longrightarrow> 0xA0 \<le> b) \<and> (a = 0xED \<longrightarrow> b \<le> 0x9F) \<and> utf8_valid r
         | _ \<Rightarrow> False)
      else if 0xF0 \<le> a \<and> a \<le> 0xF4 then
        (case bs of b # c # d # r \<Rightarrow>
           cont b \<and> cont c \<and> cont d \<and> (a = 0xF0 \<longrightarrow> 0x90 \<le> b) \<and> (a = 0xF4 \<longrightarrow> b \<le> 0x8F) \<and> utf8_valid r
         | _ \<Rightarrow> False)
      else False)"

type_synonym rstring = bytes

definition string_serialize :: "serde_limits \<Rightarrow> rstring \<Rightarrow> bytes serde_result" where
  "string_serialize limits v =
     (if length v > max_string_bytes limits
      then Inl (SerdeError ''string exceeds configured serde limit'' 0)
      else Inr (put_size [] (length v) @ v))"

definition string_deserialize :: "serde_limits \<Rightarrow> bytes \<Rightarrow> rstring serde_result" where
  "string_deserialize limits bs =
     bind_result (reader_new bs (max_total_bytes limits)) (\<lambda>r.
     bind_result (reader_read_size (max_string_bytes limits) ''string length'' r) (\<lambda>(len, r1).
     bind_result (reader_read len ''string'' r1) (\<lambda>(x, _).
       if utf8_valid x then Inr x else Inl (SerdeError ''string is not valid UTF-8'' (offset r1)))))"

definition string_serde :: "serde_limits \<Rightarrow> rstring serde" where
  "string_serde limits = \<lparr>serialize = string_serialize limits, deserialize = string_deserialize limits, is_stub = False\<rparr>"

definition bytes_serialize :: "serde_limits \<Rightarrow> bytes \<Rightarrow> bytes serde_result" where
  "bytes_serialize limits v =
     (if length v > max_bytes limits then Inl (SerdeError ''byte sequence exceeds configured limit'' 0)
      else Inr (put_size [] (length v) @ v))"

definition bytes_deserialize :: "serde_limits \<Rightarrow> bytes \<Rightarrow> bytes serde_result" where
  "bytes_deserialize limits bs =
     bind_result (reader_new bs (max_total_bytes limits)) (\<lambda>r.
     bind_result (reader_read_size (max_bytes limits) ''bytes length'' r) (\<lambda>(len, r1).
     bind_result (reader_read len ''bytes'' r1) (\<lambda>(x, _). Inr x)))"

definition bytes_serde :: "serde_limits \<Rightarrow> bytes serde" where
  "bytes_serde limits = \<lparr>serialize = bytes_serialize limits, deserialize = bytes_deserialize limits, is_stub = False\<rparr>"

section \<open>Stub and JSON\<close>

definition stub_serde :: "'a serde" where
  "stub_serde = \<lparr>serialize = (\<lambda>_. Inl (SerdeError ''stub serde cannot serialize'' 0)),
     deserialize = (\<lambda>_. Inl (SerdeError ''stub serde cannot deserialize'' 0)), is_stub = True\<rparr>"

text \<open>\<open>serde_json\<close> is a parameter: its writer and its reader, with the error's message.\<close>

definition json_serde :: "('a \<Rightarrow> string + bytes) \<Rightarrow> (bytes \<Rightarrow> string + 'a) \<Rightarrow> 'a serde" where
  "json_serde to_vec from_slice =
     \<lparr>serialize = (\<lambda>v. case to_vec v of Inl e \<Rightarrow> Inl (SerdeError e 0) | Inr bs \<Rightarrow> Inr bs),
      deserialize = (\<lambda>bs. case from_slice bs of Inl e \<Rightarrow> Inl (SerdeError e 0) | Inr v \<Rightarrow> Inr v),
      is_stub = False\<rparr>"

end
