(* ===== verification/Serde_Containers.thy ===== *)
theory Serde_Containers
  imports Serde_Core
begin

text \<open>
  The containers of \<open>src/runtime/serde/serdeimpl.rs\<close>: arrays of framed elements, arrays of elements
  of one width, string arrays, maps, and the key-value stream serde. Every container is proved to
  read back what it wrote for any element serde that does so (\<open>serde_contract\<close>), and the contract
  of the container is derived from the one of its element, so nested containers need no proof of
  their own.
\<close>

section \<open>The primitive serdes meet the contract\<close>

lemma unsigned_contract:
  assumes "LENGTH('w::len) = 8 * n" and "n \<le> usize_max"
  shows "fixed_serde_contract (unsigned_serialize n) (unsigned_deserialize n what :: bytes \<Rightarrow> 'w word serde_result) (\<lambda>_. True) n"
  using assms unsigned_roundtrip [where 'w = 'w, of n "[]"]
  by unfold_locales (auto simp: unsigned_serialize_def)

lemma signed_contract:
  assumes "LENGTH('w::len) = 8 * n" and "n \<le> usize_max"
  shows "fixed_serde_contract (signed_serialize n flip) (signed_deserialize n what (flip :: 'w word)) (signed_range (8 * n)) n"
  using assms signed_roundtrip [where 'w = 'w, of n _ "[]"]
  by unfold_locales (auto simp: signed_serialize_def)

lemma small_usize: "n \<le> 8 \<Longrightarrow> n \<le> usize_max"
  by (simp add: usize_max_def)

interpretation u8: fixed_serde_contract "serialize uint8_serde" "deserialize uint8_serde" "\<lambda>_. True" 1
  using unsigned_contract [where 'w = 8] by (simp add: uint8_serde_def small_usize)

interpretation u16: fixed_serde_contract "serialize uint16_serde" "deserialize uint16_serde" "\<lambda>_. True" 2
  using unsigned_contract [where 'w = 16] by (simp add: uint16_serde_def small_usize)

interpretation u32: fixed_serde_contract "serialize uint32_serde" "deserialize uint32_serde" "\<lambda>_. True" 4
  using unsigned_contract [where 'w = 32] by (simp add: uint32_serde_def small_usize)

interpretation u64: fixed_serde_contract "serialize uint64_serde" "deserialize uint64_serde" "\<lambda>_. True" 8
  using unsigned_contract [where 'w = 64] by (simp add: uint64_serde_def small_usize)

interpretation i8: fixed_serde_contract "serialize int8_serde" "deserialize int8_serde" "signed_range 8" 1
  using signed_contract [where 'w = 8 and n = 1] by (simp add: int8_serde_def small_usize)

interpretation i16: fixed_serde_contract "serialize int16_serde" "deserialize int16_serde" "signed_range 16" 2
  using signed_contract [where 'w = 16 and n = 2] by (simp add: int16_serde_def small_usize)

interpretation i32: fixed_serde_contract "serialize int32_serde" "deserialize int32_serde" "signed_range 32" 4
  using signed_contract [where 'w = 32 and n = 4] by (simp add: int32_serde_def small_usize)

interpretation i64: fixed_serde_contract "serialize int64_serde" "deserialize int64_serde" "signed_range 64" 8
  using signed_contract [where 'w = 64 and n = 8] by (simp add: int64_serde_def small_usize)

interpretation f32: fixed_serde_contract "serialize float32_serde" "deserialize float32_serde" "\<lambda>_. True" 4
  using u32.fixed_serde_contract_axioms by (simp add: float32_serde_def uint32_serde_def unsigned_serialize_def [abs_def])

interpretation f64: fixed_serde_contract "serialize float64_serde" "deserialize float64_serde" "\<lambda>_. True" 8
  using u64.fixed_serde_contract_axioms by (simp add: float64_serde_def uint64_serde_def unsigned_serialize_def [abs_def])

interpretation boolean: fixed_serde_contract "serialize bool_serde" "deserialize bool_serde" "\<lambda>_. True" 1
proof unfold_locales
  fix v bs assume "serialize bool_serde v = Inr bs"
  then have bs: "bs = [if v then 1 else 0]" by (simp add: bool_serde_def bool_serialize_def split: if_splits)
  then show "length bs = 1" by simp
  from bs primitive_read [of bs 1 "[]" "''bool''" "\<lambda>x. Inr (x ! 0 \<noteq> 0)"]
  show "deserialize bool_serde bs = Inr v"
    by (simp add: bool_serde_def bool_deserialize_def usize_max_def split: if_splits)
qed (simp add: bool_serde_def bool_serialize_def)

lemma scalar_word: "unicode_scalar c \<Longrightarrow> unat (word_of_nat c :: 32 word) = c"
  by (auto simp: unicode_scalar_def unat_of_nat)

interpretation rune: fixed_serde_contract "serialize rune_serde" "deserialize rune_serde" unicode_scalar 4
proof unfold_locales
  fix v bs assume v: "unicode_scalar v" and s: "serialize rune_serde v = Inr bs"
  then have bs: "bs = be_of_nat 4 (unat (word_of_nat v :: 32 word))" by (simp add: rune_serde_def rune_serialize_def)
  then show "length bs = 4" by simp
  have "deserialize uint32_serde bs = Inr (word_of_nat v)"
    by (rule u32.reads_back) (simp_all add: bs uint32_serde_def unsigned_serialize_def)
  with v show "deserialize rune_serde bs = Inr v"
    by (simp add: rune_serde_def rune_deserialize_def scalar_word)
qed (simp add: rune_serde_def rune_serialize_def)

section \<open>Strings and byte sequences\<close>

text \<open>A length-prefixed read succeeds exactly on a length prefix followed by that many bytes.\<close>

lemma prefixed_read_iff:
  assumes "tot \<le> usize_max"
  shows "bind_result (reader_new bs tot) (\<lambda>r.
       bind_result (reader_read_size m what r) (\<lambda>(len, r1).
       bind_result (reader_read len what' r1) (\<lambda>(x, _). f (offset r1) x))) = Inr v \<longleftrightarrow>
    (\<exists>x rest. length bs \<le> tot \<and> length x \<le> m \<and> bs = be_of_nat size_bytes (length x) @ x @ rest \<and>
       f size_bytes x = Inr v)" (is "?l = Inr v \<longleftrightarrow> ?r")
proof
  assume "?l = Inr v"
  then obtain r n r1 x r2 where r: "reader_new bs tot = Inr r" and n: "reader_read_size m what r = Inr (n, r1)"
    and x: "reader_read n what' r1 = Inr (x, r2)" and f: "f (offset r1) x = Inr v"
    by (auto simp: bind_result_Inr)
  have ok: "reader_ok r" "reader_rest r = bs" "offset r = 0" and t: "length bs \<le> tot"
    using reader_new_ok [OF r assms] r by (auto simp: reader_new_def split: if_splits)
  note n' = n [unfolded reader_read_size_iff [OF ok(1)]]
  then have "reader_ok r1" using reader_ok_advance [OF ok(1), of size_bytes] by auto
  with x have "length x = n" "reader_rest r1 = x @ reader_rest r2" by (simp_all add: reader_read_iff)
  with n' ok t f show ?r by auto
next
  assume ?r
  then obtain x rest where t: "length bs \<le> tot" and m: "length x \<le> m"
    and bs: "bs = be_of_nat size_bytes (length x) @ x @ rest" and f: "f size_bytes x = Inr v" by blast
  let ?r = "\<lparr>data = bs, offset = 0\<rparr>"
  have ok: "reader_ok ?r" "reader_rest ?r = be_of_nat size_bytes (length x) @ x @ rest"
    using t assms bs by (simp_all add: reader_ok_def reader_rest_def)
  have "length x \<le> usize_max" using bs t assms by simp
  from reader_read_size_append [OF ok m this, of what] obtain r1 where
    r1: "reader_read_size m what ?r = Inr (length x, r1)" "reader_ok r1" "reader_rest r1 = x @ rest" "offset r1 = size_bytes"
    by auto
  from reader_read_append [OF r1(2,3), of what'] r1 t f show "?l = Inr v"
    by (simp add: reader_new_def)
qed

lemma string_deserialize_iff:
  "max_total_bytes l \<le> usize_max \<Longrightarrow> string_deserialize l bs = Inr v \<longleftrightarrow>
     length bs \<le> max_total_bytes l \<and> length v \<le> max_string_bytes l \<and> utf8_valid v \<and>
     (\<exists>rest. bs = be_of_nat size_bytes (length v) @ v @ rest)"
  unfolding string_deserialize_def
  using prefixed_read_iff [of "max_total_bytes l" bs "max_string_bytes l" "''string length''" "''string''"
      "\<lambda>off x. if utf8_valid x then Inr x else Inl (SerdeError ''string is not valid UTF-8'' off)" v]
  by (auto split: if_splits)

lemma bytes_deserialize_iff:
  "max_total_bytes l \<le> usize_max \<Longrightarrow> bytes_deserialize l bs = Inr v \<longleftrightarrow>
     length bs \<le> max_total_bytes l \<and> length v \<le> max_bytes l \<and>
     (\<exists>rest. bs = be_of_nat size_bytes (length v) @ v @ rest)"
  unfolding bytes_deserialize_def
  using prefixed_read_iff [of "max_total_bytes l" bs "max_bytes l" "''bytes length''" "''bytes''" "\<lambda>_. Inr" v]
  by auto

definition string_dom :: "serde_limits \<Rightarrow> rstring \<Rightarrow> bool" where
  "string_dom l v \<longleftrightarrow> utf8_valid v \<and> length v \<le> max_string_bytes l \<and>
     size_bytes + length v \<le> max_total_bytes l \<and> max_total_bytes l \<le> usize_max"

definition bytes_dom :: "serde_limits \<Rightarrow> bytes \<Rightarrow> bool" where
  "bytes_dom l v \<longleftrightarrow> length v \<le> max_bytes l \<and> size_bytes + length v \<le> max_total_bytes l \<and>
     max_total_bytes l \<le> usize_max"

interpretation str: serde_contract "serialize (string_serde l)" "deserialize (string_serde l)" "string_dom l" for l
  by unfold_locales
    (auto simp: string_serde_def string_serialize_def string_dom_def string_deserialize_iff put_size_def)

interpretation byt: serde_contract "serialize (bytes_serde l)" "deserialize (bytes_serde l)" "bytes_dom l" for l
  by unfold_locales
    (auto simp: bytes_serde_def bytes_serialize_def bytes_dom_def bytes_deserialize_iff put_size_def)

section \<open>Framed arrays\<close>

text \<open>\<open>Vec::with_capacity(count)\<close> for elements of \<open>esize\<close> bytes in memory panics above \<open>isize::MAX\<close> bytes.\<close>

definition with_capacity :: "nat \<Rightarrow> nat \<Rightarrow> unit serde_result" where
  "with_capacity esize num = (if num * esize > isize_max then Inl CapacityOverflow else Inr ())"

fun write_frames :: "('a \<Rightarrow> bytes serde_result) \<Rightarrow> bytes \<Rightarrow> 'a list \<Rightarrow> bytes serde_result" where
  "write_frames ser output [] = Inr output"
| "write_frames ser output (v # vs) =
     bind_result (ser v) (\<lambda>e. write_frames ser (put_size output (length e) @ e) vs)"

definition array_serialize :: "('a \<Rightarrow> bytes serde_result) \<Rightarrow> serde_limits \<Rightarrow> 'a list \<Rightarrow> bytes serde_result" where
  "array_serialize ser limits vs =
     (if length vs > max_container_elements limits
      then Inl (SerdeError ''array exceeds configured element limit'' 0)
      else write_frames ser (put_size [] (length vs)) vs)"

fun read_frames :: "(bytes \<Rightarrow> 'a serde_result) \<Rightarrow> nat \<Rightarrow> reader \<Rightarrow> 'a list serde_result" where
  "read_frames deser 0 r = Inr []"
| "read_frames deser (Suc n) r =
     bind_result (reader_read_size (length (data r)) ''array element length'' r) (\<lambda>(len, r1).
     bind_result (reader_read len ''array element'' r1) (\<lambda>(x, r2).
     bind_result (deser x) (\<lambda>v.
     bind_result (read_frames deser n r2) (\<lambda>vs. Inr (v # vs)))))"

definition array_deserialize :: "(bytes \<Rightarrow> 'a serde_result) \<Rightarrow> nat \<Rightarrow> serde_limits \<Rightarrow> bytes \<Rightarrow> 'a list serde_result" where
  "array_deserialize deser esize limits bs =
     bind_result (reader_new bs (max_total_bytes limits)) (\<lambda>r.
     bind_result (reader_read_size (max_container_elements limits) ''array count'' r) (\<lambda>(num, r1).
     bind_result (with_capacity esize num) (\<lambda>_. read_frames deser num r1)))"

text \<open>\<open>ArraySerde\<close>; \<open>ArraySerde::new\<close> uses the default limits.\<close>

definition array_serde :: "'a serde \<Rightarrow> nat \<Rightarrow> serde_limits \<Rightarrow> 'a list serde" where
  "array_serde s esize limits = \<lparr>serialize = array_serialize (serialize s) limits,
     deserialize = array_deserialize (deserialize s) esize limits, is_stub = False\<rparr>"

section \<open>Arrays of elements of one width\<close>

fun write_fixed :: "('a \<Rightarrow> bytes serde_result) \<Rightarrow> nat \<Rightarrow> bytes \<Rightarrow> 'a list \<Rightarrow> bytes serde_result" where
  "write_fixed ser width output [] = Inr output"
| "write_fixed ser width output (v # vs) =
     bind_result (ser v) (\<lambda>e.
       if length e \<noteq> width
       then Inl (SerdeError ''fixed-size serde returned an invalid element size'' (length output))
       else write_fixed ser width (output @ e) vs)"

definition fixed_array_serialize :: "('a \<Rightarrow> bytes serde_result) \<Rightarrow> nat \<Rightarrow> serde_limits \<Rightarrow> 'a list \<Rightarrow> bytes serde_result" where
  "fixed_array_serialize ser width limits vs =
     (if length vs > max_container_elements limits
      then Inl (SerdeError ''array exceeds configured element limit'' 0)
      else write_fixed ser width (put_size [] (length vs)) vs)"

fun read_fixed :: "(bytes \<Rightarrow> 'a serde_result) \<Rightarrow> nat \<Rightarrow> nat \<Rightarrow> reader \<Rightarrow> 'a list serde_result" where
  "read_fixed deser width 0 r = Inr []"
| "read_fixed deser width (Suc n) r =
     bind_result (reader_read width ''array element'' r) (\<lambda>(x, r1).
     bind_result (deser x) (\<lambda>v.
     bind_result (read_fixed deser width n r1) (\<lambda>vs. Inr (v # vs))))"

definition fixed_array_deserialize :: "(bytes \<Rightarrow> 'a serde_result) \<Rightarrow> nat \<Rightarrow> nat \<Rightarrow> serde_limits \<Rightarrow> bytes \<Rightarrow> 'a list serde_result" where
  "fixed_array_deserialize deser width esize limits bs =
     bind_result (reader_new bs (max_total_bytes limits)) (\<lambda>r.
     bind_result (reader_read_size (max_container_elements limits) ''array count'' r) (\<lambda>(num, r1).
       case checked_mul num width of
         None \<Rightarrow> Inl (SerdeError ''array size overflow'' (offset r1))
       | Some payload_size \<Rightarrow>
           if payload_size > length (data r1) - offset r1
           then Inl (SerdeError ''fixed-size array payload is truncated'' (offset r1))
           else bind_result (with_capacity esize num) (\<lambda>_. read_fixed deser width num r1)))"

definition fixed_array_serde :: "'a serde \<Rightarrow> nat \<Rightarrow> nat \<Rightarrow> serde_limits \<Rightarrow> 'a list serde" where
  "fixed_array_serde s width esize limits = \<lparr>serialize = fixed_array_serialize (serialize s) width limits,
     deserialize = fixed_array_deserialize (deserialize s) width esize limits, is_stub = False\<rparr>"

section \<open>String arrays\<close>

fun write_strings :: "serde_limits \<Rightarrow> bytes \<Rightarrow> rstring list \<Rightarrow> bytes serde_result" where
  "write_strings limits output [] = Inr output"
| "write_strings limits output (v # vs) =
     bind_result (serialize_to (string_serde limits) output v) (\<lambda>o'. write_strings limits o' vs)"

definition string_array_serialize :: "serde_limits \<Rightarrow> rstring list \<Rightarrow> bytes serde_result" where
  "string_array_serialize limits vs =
     (if length vs > max_container_elements limits
      then Inl (SerdeError ''array exceeds configured element limit'' 0)
      else write_strings limits (put_size [] (length vs)) vs)"

fun read_strings :: "serde_limits \<Rightarrow> nat \<Rightarrow> reader \<Rightarrow> rstring list serde_result" where
  "read_strings limits 0 r = Inr []"
| "read_strings limits (Suc n) r =
     bind_result (reader_read_size (max_string_bytes limits) ''string length'' r) (\<lambda>(len, r1).
     bind_result (reader_read len ''string'' r1) (\<lambda>(x, r2).
       if \<not> utf8_valid x then Inl (SerdeError ''string is not valid UTF-8'' (offset r1))
       else bind_result (read_strings limits n r2) (\<lambda>vs. Inr (x # vs))))"

text \<open>A \<open>String\<close> takes 24 bytes in memory.\<close>

definition string_array_deserialize :: "serde_limits \<Rightarrow> bytes \<Rightarrow> rstring list serde_result" where
  "string_array_deserialize limits bs =
     bind_result (reader_new bs (max_total_bytes limits)) (\<lambda>r.
     bind_result (reader_read_size (max_container_elements limits) ''array count'' r) (\<lambda>(num, r1).
     bind_result (with_capacity 24 num) (\<lambda>_. read_strings limits num r1)))"

definition string_array_serde :: "serde_limits \<Rightarrow> rstring list serde" where
  "string_array_serde limits = \<lparr>serialize = string_array_serialize limits,
     deserialize = string_array_deserialize limits, is_stub = False\<rparr>"

section \<open>Pairs of frames: maps and key-value messages\<close>

text \<open>\<open>MapSerde\<close>: a hash map is iterated in the order of its association list.\<close>

definition map_serialize :: "'k list serde \<Rightarrow> 'v list serde \<Rightarrow> ('k \<times> 'v) list \<Rightarrow> bytes serde_result" where
  "map_serialize ks vs m =
     bind_result (serialize ks (map fst m)) (\<lambda>ek.
     bind_result (serialize vs (map snd m)) (\<lambda>ev.
       Inr (put_size (put_size [] (length ek) @ ek) (length ev) @ ev)))"

definition map_deserialize :: "'k list serde \<Rightarrow> 'v list serde \<Rightarrow> bytes \<Rightarrow> ('k \<times> 'v) list serde_result" where
  "map_deserialize ks vs bs =
     bind_result (reader_new bs usize_max) (\<lambda>r.
     bind_result (reader_read_size (length (data r)) ''map keys length'' r) (\<lambda>(n, r1).
     bind_result (reader_read n ''map keys'' r1) (\<lambda>(x, r2).
     bind_result (deserialize ks x) (\<lambda>keys.
     bind_result (reader_read_size (length (data r2)) ''map values length'' r2) (\<lambda>(m, r3).
     bind_result (reader_read m ''map values'' r3) (\<lambda>(y, r4).
     bind_result (deserialize vs y) (\<lambda>values.
       if length keys \<noteq> length values
       then Inl (SerdeError ''map key and value counts do not match'' (offset r4))
       else Inr (fold (\<lambda>(k, v). hm_insert k v) (zip keys values) []))))))))"

definition map_serde :: "'k list serde \<Rightarrow> 'v list serde \<Rightarrow> ('k \<times> 'v) list serde" where
  "map_serde ks vs = \<lparr>serialize = map_serialize ks vs, deserialize = map_deserialize ks vs, is_stub = False\<rparr>"

text \<open>\<open>StreamKeyValueSerde\<close>; a \<open>KeyValue\<close> is a pair.\<close>

definition kv_serialize :: "'k serde \<Rightarrow> 'v serde \<Rightarrow> 'k \<times> 'v \<Rightarrow> bytes serde_result" where
  "kv_serialize ks vs kv =
     bind_result (serialize ks (fst kv)) (\<lambda>ek.
     bind_result (serialize vs (snd kv)) (\<lambda>ev.
       Inr (put_size (put_size [] (length ek) @ ek) (length ev) @ ev)))"

definition kv_deserialize :: "'k serde \<Rightarrow> 'v serde \<Rightarrow> bytes \<Rightarrow> ('k \<times> 'v) serde_result" where
  "kv_deserialize ks vs bs =
     bind_result (reader_new bs usize_max) (\<lambda>r.
     bind_result (reader_read_size (length (data r)) ''key length'' r) (\<lambda>(n, r1).
     bind_result (reader_read n ''key'' r1) (\<lambda>(x, r2).
     bind_result (deserialize ks x) (\<lambda>k.
     bind_result (reader_read_size (length (data r2)) ''value length'' r2) (\<lambda>(m, r3).
     bind_result (reader_read m ''value'' r3) (\<lambda>(y, r4).
     bind_result (deserialize vs y) (\<lambda>v. Inr (k, v))))))))"

text \<open>The trait \<open>StreamSerde<T>\<close>: key and value parts for transports that carry both.\<close>

record 'a stream_serde =
  base :: "'a serde"
  is_key_value :: bool
  serialize_key :: "'a \<Rightarrow> bytes option serde_result"
  serialize_value :: "'a \<Rightarrow> bytes serde_result"
  deserialize_key_value :: "bytes option \<Rightarrow> bytes \<Rightarrow> 'a serde_result"

definition make_stream_serde :: "'a serde \<Rightarrow> 'a stream_serde" where
  "make_stream_serde s = \<lparr>base = s, is_key_value = False, serialize_key = (\<lambda>_. Inr None),
     serialize_value = serialize s, deserialize_key_value = (\<lambda>_ bs. deserialize s bs)\<rparr>"

definition make_stream_key_value_serde :: "'k serde \<Rightarrow> 'v serde \<Rightarrow> ('k \<times> 'v) stream_serde" where
  "make_stream_key_value_serde ks vs =
     \<lparr>base = \<lparr>serialize = kv_serialize ks vs, deserialize = kv_deserialize ks vs, is_stub = False\<rparr>,
      is_key_value = True,
      serialize_key = (\<lambda>kv. bind_result (serialize ks (fst kv)) (\<lambda>bs. Inr (Some bs))),
      serialize_value = (\<lambda>kv. serialize vs (snd kv)),
      deserialize_key_value = (\<lambda>key bs.
        case key of
          None \<Rightarrow> Inl (SerdeError ''key is required'' 0)
        | Some kb \<Rightarrow>
            bind_result (deserialize ks kb) (\<lambda>k. bind_result (deserialize vs bs) (\<lambda>v. Inr (k, v))))\<rparr>"

section \<open>Round trips\<close>

definition frame :: "bytes \<Rightarrow> bytes" where
  "frame bs = be_of_nat size_bytes (length bs) @ bs"

text \<open>Reading one frame off the input.\<close>

lemma read_frame:
  assumes "reader_ok r" and "reader_rest r = frame bs @ rest" and "length bs \<le> m"
  shows "\<exists>r1 r2. reader_read_size m what r = Inr (length bs, r1) \<and> reader_read (length bs) what' r1 = Inr (bs, r2) \<and>
    reader_ok r2 \<and> reader_rest r2 = rest \<and> data r2 = data r \<and> offset r1 = offset r + size_bytes"
proof -
  have f: "reader_rest r = be_of_nat size_bytes (length bs) @ bs @ rest" using assms(2) by (simp add: frame_def)
  have "length bs \<le> length (reader_rest r)" by (simp add: f)
  also have "\<dots> \<le> usize_max" using assms(1) by (auto simp: reader_ok_def reader_rest_def)
  finally have u: "length bs \<le> usize_max" .
  from reader_read_size_append [OF assms(1) f assms(3) u, of what] obtain r1 where
    r1: "reader_read_size m what r = Inr (length bs, r1)" "reader_ok r1" "reader_rest r1 = bs @ rest"
      "data r1 = data r" "offset r1 = offset r + size_bytes" by blast
  from reader_read_append [OF r1(2,3), of what'] r1 show ?thesis by auto
qed

lemma frame_within: "reader_ok r \<Longrightarrow> reader_rest r = frame bs @ rest \<Longrightarrow> length bs \<le> length (data r)"
  by (metis frame_def le_trans length_append length_drop diff_le_self le_add1 le_add2 reader_rest_def)

definition array_bytes :: "('a \<Rightarrow> bytes) \<Rightarrow> 'a list \<Rightarrow> bytes" where
  "array_bytes enc vs = be_of_nat size_bytes (length vs) @ concat (map (\<lambda>v. frame (enc v)) vs)"

definition array_dom :: "('a \<Rightarrow> bool) \<Rightarrow> ('a \<Rightarrow> bytes) \<Rightarrow> nat \<Rightarrow> serde_limits \<Rightarrow> 'a list \<Rightarrow> bool" where
  "array_dom d enc esize l vs \<longleftrightarrow> list_all d vs \<and> length vs \<le> max_container_elements l \<and>
     length (array_bytes enc vs) \<le> max_total_bytes l \<and> max_total_bytes l \<le> usize_max \<and>
     length vs * esize \<le> isize_max"

lemma isize_le_usize: "n \<le> isize_max \<Longrightarrow> n \<le> usize_max"
  by (simp add: isize_max_def usize_max_def)

text \<open>Reading the element count off a fresh reader.\<close>

lemma read_count:
  assumes "length bs \<le> tot" and "tot \<le> usize_max" and "bs = be_of_nat size_bytes n @ rest" and "n \<le> m" and "n \<le> usize_max"
  shows "\<exists>r r1. reader_new bs tot = Inr r \<and> reader_read_size m what r = Inr (n, r1) \<and> reader_ok r1 \<and>
    reader_rest r1 = rest \<and> data r1 = bs \<and> offset r1 = size_bytes"
proof -
  let ?r = "\<lparr>data = bs, offset = 0\<rparr>"
  have ok: "reader_ok ?r" "reader_rest ?r = be_of_nat size_bytes n @ rest"
    using assms by (simp_all add: reader_ok_def reader_rest_def)
  from reader_read_size_append [OF ok assms(4,5), of what] assms(1) show ?thesis
    by (auto simp: reader_new_def)
qed

context serde_contract
begin

lemma write_frames_encoded:
  "list_all dom vs \<Longrightarrow> write_frames ser out vs = Inr (out @ concat (map (\<lambda>v. frame (encoded v)) vs))"
  by (induction vs arbitrary: out) (simp_all add: ser_encoded put_size_def frame_def)

lemma read_frames_encoded:
  "list_all dom vs \<Longrightarrow> reader_ok r \<Longrightarrow> reader_rest r = concat (map (\<lambda>v. frame (encoded v)) vs) @ rest \<Longrightarrow>
     read_frames deser (length vs) r = Inr vs"
proof (induction vs arbitrary: r)
  case (Cons v vs)
  have f: "reader_rest r = frame (encoded v) @ concat (map (\<lambda>v. frame (encoded v)) vs) @ rest"
    using Cons.prems by simp
  from read_frame [OF Cons.prems(2) f frame_within [OF Cons.prems(2) f]] obtain r1 r2 where
    r: "reader_read_size (length (data r)) ''array element length'' r = Inr (length (encoded v), r1)"
      "reader_read (length (encoded v)) ''array element'' r1 = Inr (encoded v, r2)" "reader_ok r2"
      "reader_rest r2 = concat (map (\<lambda>v. frame (encoded v)) vs) @ rest" by blast
  with Cons show ?case by (simp add: deser_encoded)
qed simp

lemma array_encoded:
  assumes "array_dom dom encoded esize l vs"
  shows "array_serialize ser l vs = Inr (array_bytes encoded vs)"
    and "array_deserialize deser esize l (array_bytes encoded vs) = Inr vs"
proof -
  have d: "list_all dom vs" and c: "length vs \<le> max_container_elements l"
    and t: "length (array_bytes encoded vs) \<le> max_total_bytes l" "max_total_bytes l \<le> usize_max"
    and cap: "length vs * esize \<le> isize_max"
    using assms by (simp_all add: array_dom_def)
  show "array_serialize ser l vs = Inr (array_bytes encoded vs)"
    using c by (simp add: array_serialize_def write_frames_encoded [OF d] put_size_def array_bytes_def)
  have "length vs \<le> length (concat (map (\<lambda>v. frame (encoded v)) vs))"
    by (induction vs) (simp_all add: frame_def size_bytes_def)
  then have u: "length vs \<le> usize_max" using t by (simp add: array_bytes_def)
  from read_count [OF t array_bytes_def c u] obtain r r1 where
    r: "reader_new (array_bytes encoded vs) (max_total_bytes l) = Inr r"
    "reader_read_size (max_container_elements l) ''array count'' r = Inr (length vs, r1)" "reader_ok r1"
    "reader_rest r1 = concat (map (\<lambda>v. frame (encoded v)) vs)" by blast
  from read_frames_encoded [OF d r(3), of "[]"] r cap
  show "array_deserialize deser esize l (array_bytes encoded vs) = Inr vs"
    by (simp add: array_deserialize_def with_capacity_def)
qed

lemma array_contract:
  "serde_contract (array_serialize ser l) (array_deserialize deser esize l) (array_dom dom encoded esize l)"
  by unfold_locales (use array_encoded in auto)

end

context fixed_serde_contract
begin

lemma write_fixed_encoded:
  "list_all dom vs \<Longrightarrow> write_fixed ser width out vs = Inr (out @ concat (map encoded vs))"
  by (induction vs arbitrary: out) (simp_all add: ser_encoded length_encoded)

lemma length_concat_encoded: "list_all dom vs \<Longrightarrow> length (concat (map encoded vs)) = length vs * width"
  by (induction vs) (simp_all add: length_encoded)

lemma read_fixed_encoded:
  "list_all dom vs \<Longrightarrow> reader_ok r \<Longrightarrow> reader_rest r = concat (map encoded vs) @ rest \<Longrightarrow>
     read_fixed deser width (length vs) r = Inr vs"
proof (induction vs arbitrary: r)
  case (Cons v vs)
  have "reader_rest r = encoded v @ concat (map encoded vs) @ rest" using Cons.prems by simp
  from reader_read_append [OF Cons.prems(2) this, of "''array element''"] Cons show ?case
    by (simp add: length_encoded deser_encoded)
qed simp

lemma fixed_array_roundtrip:
  assumes d: "list_all dom vs" and c: "length vs \<le> max_container_elements l"
    and t: "size_bytes + length vs * width \<le> max_total_bytes l" "max_total_bytes l \<le> usize_max"
    and cap: "length vs * esize \<le> isize_max" and w: "0 < width"
  shows "\<exists>bs. fixed_array_serialize ser width l vs = Inr bs \<and> length bs = size_bytes + length vs * width \<and>
    fixed_array_deserialize deser width esize l bs = Inr vs"
proof -
  let ?bs = "be_of_nat size_bytes (length vs) @ concat (map encoded vs)"
  have s: "fixed_array_serialize ser width l vs = Inr ?bs"
    using c by (simp add: fixed_array_serialize_def write_fixed_encoded [OF d] put_size_def)
  have len: "length ?bs = size_bytes + length vs * width" by (simp add: length_concat_encoded [OF d])
  have "length vs \<le> length vs * width" using w by simp
  then have u: "length vs \<le> usize_max" using t by linarith
  have "length ?bs \<le> max_total_bytes l" using len t by simp
  from read_count [OF this t(2) refl c u] obtain r r1 where
    r: "reader_new ?bs (max_total_bytes l) = Inr r"
    "reader_read_size (max_container_elements l) ''array count'' r = Inr (length vs, r1)" "reader_ok r1"
    "reader_rest r1 = concat (map encoded vs)" "data r1 = ?bs" "offset r1 = size_bytes" by blast
  have "checked_mul (length vs) width = Some (length vs * width)"
    using t by (simp add: checked_mul_def)
  with read_fixed_encoded [OF d r(3), of "[]"] r cap len
  have "fixed_array_deserialize deser width esize l ?bs = Inr vs"
    by (simp add: fixed_array_deserialize_def with_capacity_def length_concat_encoded [OF d])
  with s len show ?thesis by blast
qed

end

subsection \<open>String arrays\<close>

lemma string_serialize_frame:
  "length v \<le> max_string_bytes l \<Longrightarrow> serialize_to (string_serde l) out v = Inr (out @ frame v)"
  by (simp add: serialize_to_def string_serde_def string_serialize_def put_size_def frame_def)

lemma write_strings_frames:
  "list_all (\<lambda>v. length v \<le> max_string_bytes l) vs \<Longrightarrow>
     write_strings l out vs = Inr (out @ concat (map frame vs))"
  by (induction vs arbitrary: out) (simp_all add: string_serialize_frame)

lemma read_strings_frames:
  "list_all (\<lambda>v. length v \<le> max_string_bytes l \<and> utf8_valid v) vs \<Longrightarrow> reader_ok r \<Longrightarrow>
     reader_rest r = concat (map frame vs) @ rest \<Longrightarrow> read_strings l (length vs) r = Inr vs"
proof (induction vs arbitrary: r)
  case (Cons v vs)
  have f: "reader_rest r = frame v @ concat (map frame vs) @ rest" using Cons.prems by simp
  have "length v \<le> max_string_bytes l" using Cons.prems by simp
  from read_frame [OF Cons.prems(2) f this] obtain r1 r2 where
    "reader_read_size (max_string_bytes l) ''string length'' r = Inr (length v, r1)"
    "reader_read (length v) ''string'' r1 = Inr (v, r2)" "reader_ok r2"
    "reader_rest r2 = concat (map frame vs) @ rest" by blast
  with Cons show ?case by simp
qed simp

definition string_array_dom :: "serde_limits \<Rightarrow> rstring list \<Rightarrow> bool" where
  "string_array_dom l vs \<longleftrightarrow> list_all (\<lambda>v. length v \<le> max_string_bytes l \<and> utf8_valid v) vs \<and>
     length vs \<le> max_container_elements l \<and> length (array_bytes (\<lambda>v. v) vs) \<le> max_total_bytes l \<and>
     max_total_bytes l \<le> usize_max \<and> length vs * 24 \<le> isize_max"

lemma string_array_encoded:
  assumes "string_array_dom l vs"
  shows "string_array_serialize l vs = Inr (array_bytes (\<lambda>v. v) vs)"
    and "string_array_deserialize l (array_bytes (\<lambda>v. v) vs) = Inr vs"
proof -
  have d: "list_all (\<lambda>v. length v \<le> max_string_bytes l \<and> utf8_valid v) vs" and c: "length vs \<le> max_container_elements l"
    and t: "length (array_bytes (\<lambda>v. v) vs) \<le> max_total_bytes l" "max_total_bytes l \<le> usize_max"
    and cap: "length vs * 24 \<le> isize_max"
    using assms by (simp_all add: string_array_dom_def)
  have "list_all (\<lambda>v. length v \<le> max_string_bytes l) vs" using d by (simp add: list_all_iff)
  from write_strings_frames [OF this] c show "string_array_serialize l vs = Inr (array_bytes (\<lambda>v. v) vs)"
    by (simp add: string_array_serialize_def put_size_def array_bytes_def)
  have "length vs \<le> length vs * 24" by simp
  then have u: "length vs \<le> usize_max" using cap isize_le_usize by (meson le_trans)
  from read_count [OF t array_bytes_def c u] obtain r r1 where
    r: "reader_new (array_bytes (\<lambda>v. v) vs) (max_total_bytes l) = Inr r"
    "reader_read_size (max_container_elements l) ''array count'' r = Inr (length vs, r1)" "reader_ok r1"
    "reader_rest r1 = concat (map frame vs)" by blast
  from read_strings_frames [OF d r(3), of "[]"] r cap
  show "string_array_deserialize l (array_bytes (\<lambda>v. v) vs) = Inr vs"
    by (simp add: string_array_deserialize_def with_capacity_def)
qed

interpretation strs: serde_contract "serialize (string_array_serde l)" "deserialize (string_array_serde l)" "string_array_dom l" for l
  by unfold_locales (auto simp: string_array_serde_def string_array_encoded)

subsection \<open>Two frames\<close>

lemma read_two_frames:
  assumes "length (frame a @ frame b) \<le> usize_max"
  shows "\<exists>r r1 r2 r3 r4. reader_new (frame a @ frame b) usize_max = Inr r \<and>
    reader_read_size (length (data r)) w1 r = Inr (length a, r1) \<and> reader_read (length a) w2 r1 = Inr (a, r2) \<and>
    reader_read_size (length (data r2)) w3 r2 = Inr (length b, r3) \<and> reader_read (length b) w4 r3 = Inr (b, r4)"
proof -
  let ?r = "\<lparr>data = frame a @ frame b, offset = 0\<rparr>"
  have ok: "reader_ok ?r" and rest: "reader_rest ?r = frame a @ frame b"
    using assms by (simp_all add: reader_ok_def reader_rest_def)
  have new: "reader_new (frame a @ frame b) usize_max = Inr ?r" using assms by (simp add: reader_new_def)
  from read_frame [OF ok rest frame_within [OF ok rest], where what = w1 and what' = w2] obtain r1 r2 where
    one: "reader_read_size (length (data ?r)) w1 ?r = Inr (length a, r1)" "reader_read (length a) w2 r1 = Inr (a, r2)"
    "reader_ok r2" "reader_rest r2 = frame b" by blast
  then have rest2: "reader_rest r2 = frame b @ []" by simp
  from read_frame [OF one(3) rest2 frame_within [OF one(3) rest2], where what = w3 and what' = w4] obtain r3 r4 where
    two: "reader_read_size (length (data r2)) w3 r2 = Inr (length b, r3)" "reader_read (length b) w4 r3 = Inr (b, r4)"
    by blast
  show ?thesis by (intro exI conjI, rule new, rule one(1), rule one(2), rule two(1), rule two(2))
qed

lemma fold_insert_distinct:
  "hm_wf (acc @ m) \<Longrightarrow> fold (\<lambda>(k, v). hm_insert k v) m acc = acc @ m"
proof (induction m arbitrary: acc)
  case (Cons kv m)
  obtain k v where kv: "kv = (k, v)" by (cases kv)
  have "map_of acc k = None" using Cons.prems kv by (auto simp: map_of_eq_None_iff)
  with Cons kv show ?case by (simp add: hm_insert_new_append)
qed simp

lemma map_roundtrip:
  assumes ks: "serde_contract (serialize ks) (deserialize ks) kd" and vs: "serde_contract (serialize vs) (deserialize vs) vd"
    and d: "kd (map fst m)" "vd (map snd m)" and m: "hm_wf m"
    and s: "map_serialize ks vs m = Inr bs" and l: "length bs \<le> usize_max"
  shows "map_deserialize ks vs bs = Inr m"
proof -
  from s obtain ek ev where e: "serialize ks (map fst m) = Inr ek" "serialize vs (map snd m) = Inr ev"
    and bs: "bs = frame ek @ frame ev"
    by (auto simp: map_serialize_def bind_result_Inr put_size_def frame_def)
  have "deserialize ks ek = Inr (map fst m)" "deserialize vs ev = Inr (map snd m)"
    using serde_contract.reads_back [OF ks d(1) e(1)] serde_contract.reads_back [OF vs d(2) e(2)] by simp_all
  moreover from l have "length (frame ek @ frame ev) \<le> usize_max" by (simp add: bs)
  from read_two_frames [OF this, of "''map keys length''" "''map keys''" "''map values length''" "''map values''"]
  obtain r r1 r2 r3 r4 where "reader_new bs usize_max = Inr r"
    "reader_read_size (length (data r)) ''map keys length'' r = Inr (length ek, r1)"
    "reader_read (length ek) ''map keys'' r1 = Inr (ek, r2)"
    "reader_read_size (length (data r2)) ''map values length'' r2 = Inr (length ev, r3)"
    "reader_read (length ev) ''map values'' r3 = Inr (ev, r4)" unfolding bs by blast
  moreover have "fold (\<lambda>(k, v). hm_insert k v) (zip (map fst m) (map snd m)) [] = m"
    using fold_insert_distinct [of "[]" m] m by (simp add: zip_map_fst_snd)
  ultimately show ?thesis by (simp add: map_deserialize_def)
qed

lemma kv_roundtrip:
  assumes ks: "serde_contract (serialize ks) (deserialize ks) kd" and vs: "serde_contract (serialize vs) (deserialize vs) vd"
    and d: "kd k" "vd v" and s: "kv_serialize ks vs (k, v) = Inr bs" and l: "length bs \<le> usize_max"
  shows "kv_deserialize ks vs bs = Inr (k, v)"
proof -
  from s obtain ek ev where e: "serialize ks k = Inr ek" "serialize vs v = Inr ev"
    and bs: "bs = frame ek @ frame ev"
    by (auto simp: kv_serialize_def bind_result_Inr put_size_def frame_def)
  have "deserialize ks ek = Inr k" "deserialize vs ev = Inr v"
    using serde_contract.reads_back [OF ks d(1) e(1)] serde_contract.reads_back [OF vs d(2) e(2)] by simp_all
  moreover from l have "length (frame ek @ frame ev) \<le> usize_max" by (simp add: bs)
  from read_two_frames [OF this, of "''key length''" "''key''" "''value length''" "''value''"]
  obtain r r1 r2 r3 r4 where "reader_new bs usize_max = Inr r"
    "reader_read_size (length (data r)) ''key length'' r = Inr (length ek, r1)"
    "reader_read (length ek) ''key'' r1 = Inr (ek, r2)"
    "reader_read_size (length (data r2)) ''value length'' r2 = Inr (length ev, r3)"
    "reader_read (length ev) ''value'' r3 = Inr (ev, r4)" unfolding bs by blast
  ultimately show ?thesis by (simp add: kv_deserialize_def)
qed

section \<open>Properties\<close>

text \<open>
  C36. The 16, 32 and 64 bit signed integer serdes write every value of their range, read it back,
  and are sortable: the lexicographic order of the encodings is the numeric order of the values.
\<close>

theorem signed_serdes_sortable:
  assumes "S = int16_serde \<and> b = 16 \<or> S = int32_serde \<and> b = 32 \<or> S = int64_serde \<and> b = (64 :: nat)"
    and "signed_range b v" and "signed_range b w"
  shows "\<exists>x y. serialize S v = Inr x \<and> serialize S w = Inr y \<and> deserialize S x = Inr v \<and>
    (x < y \<longleftrightarrow> v < w)"
  using assms(1)
proof (elim disjE conjE)
  assume S: "S = int16_serde" "b = 16"
  have "serialize S v = Inr (i16.encoded v)" "serialize S w = Inr (i16.encoded w)" "deserialize S (i16.encoded v) = Inr v"
    using S assms i16.ser_encoded i16.deser_encoded by simp_all
  with signed_order [where 'w = 16, of 2 v w] assms S show ?thesis
    by (simp add: int16_serde_def signed_serialize_def)
next
  assume S: "S = int32_serde" "b = 32"
  have "serialize S v = Inr (i32.encoded v)" "serialize S w = Inr (i32.encoded w)" "deserialize S (i32.encoded v) = Inr v"
    using S assms i32.ser_encoded i32.deser_encoded by simp_all
  with signed_order [where 'w = 32, of 4 v w] assms S show ?thesis
    by (simp add: int32_serde_def signed_serialize_def)
next
  assume S: "S = int64_serde" "b = 64"
  have "serialize S v = Inr (i64.encoded v)" "serialize S w = Inr (i64.encoded w)" "deserialize S (i64.encoded v) = Inr v"
    using S assms i64.ser_encoded i64.deser_encoded by simp_all
  with signed_order [where 'w = 64, of 8 v w] assms S show ?thesis
    by (simp add: int64_serde_def signed_serialize_def)
qed

theorem signed_serdes_sortable_witness:
  "\<exists>x y. serialize int32_serde (- 7) = Inr x \<and> serialize int32_serde 5 = Inr y \<and>
     deserialize int32_serde x = Inr (- 7) \<and> x < y"
  using signed_serdes_sortable [of int32_serde 32 "- 7" 5] by (simp add: signed_range_def)

text \<open>
  C37. Decoding a string is exact. Under limits that fit a \<open>usize\<close>, \<open>StringSerde\<close> decodes an input
  to \<open>v\<close> exactly when the input, within the total limit, is what it writes for \<open>v\<close> followed by
  anything, and \<open>v\<close> is valid UTF-8: there is one encoding per string, no other input is accepted,
  and trailing bytes are ignored.
\<close>

theorem string_decoding_exact:
  assumes "max_total_bytes l \<le> usize_max"
  shows "string_deserialize l bs = Inr v \<longleftrightarrow>
    (\<exists>x rest. string_serialize l v = Inr x \<and> bs = x @ rest \<and> utf8_valid v \<and> length bs \<le> max_total_bytes l)"
  by (auto simp: string_deserialize_iff [OF assms] string_serialize_def put_size_def split: if_splits)

theorem string_decoding_exact_witness:
  "string_deserialize default_limits [0, 0, 0, 0, 0, 0, 0, 2, 0xC3, 0xA9, 7] = Inr [0xC3, 0xA9] \<longleftrightarrow>
   (\<exists>x rest. string_serialize default_limits [0xC3, 0xA9] = Inr x \<and>
      [0, 0, 0, 0, 0, 0, 0, 2, 0xC3, 0xA9, 7] = x @ rest \<and> utf8_valid [0xC3, 0xA9] \<and>
      length [0, 0, 0, 0, 0, 0, 0, 2, 0xC3, 0xA9, 7 :: 8 word] \<le> max_total_bytes default_limits)"
  by (rule string_decoding_exact) (simp add: default_limits_def)

text \<open>
  C38. Arrays of framed elements round trip: for every element serde that reads back what it
  writes, \<open>ArraySerde\<close> reads back every array of such elements it wrote, if the output is within
  the total limit and the elements fit in memory.
\<close>

theorem array_serde_roundtrip:
  assumes "serde_contract (serialize S) (deserialize S) d" and "list_all d vs"
    and "serialize (array_serde S esize l) vs = Inr bs" and "length bs \<le> max_total_bytes l"
    and "max_total_bytes l \<le> usize_max" and "length vs * esize \<le> isize_max"
  shows "deserialize (array_serde S esize l) bs = Inr vs"
proof -
  let ?enc = "serde_contract.encoded (serialize S)"
  have c: "length vs \<le> max_container_elements l"
    using assms(3) by (auto simp: array_serde_def array_serialize_def split: if_splits)
  have "bs = array_bytes ?enc vs"
    using assms(3) c serde_contract.write_frames_encoded [OF assms(1,2)]
    by (simp add: array_serde_def array_serialize_def array_bytes_def put_size_def)
  moreover have "array_dom d ?enc esize l vs"
    using assms c calculation by (simp add: array_dom_def)
  ultimately show ?thesis
    using serde_contract.array_encoded(2) [OF assms(1)] by (simp add: array_serde_def)
qed

theorem array_serde_roundtrip_witness:
  "\<exists>bs. serialize (array_serde int16_serde 2 default_limits) [- 1, 5] = Inr bs \<and>
     deserialize (array_serde int16_serde 2 default_limits) bs = Inr [- 1, 5]"
proof (intro exI conjI)
  have d: "list_all (signed_range 16) [- 1, 5]" by (simp add: signed_range_def)
  then have l: "length (array_bytes i16.encoded [- 1, 5]) = 28"
    by (simp add: array_bytes_def frame_def i16.length_encoded size_bytes_def)
  show s: "serialize (array_serde int16_serde 2 default_limits) [- 1, 5] = Inr (array_bytes i16.encoded [- 1, 5])"
    using i16.write_frames_encoded [OF d]
    by (simp add: array_serde_def array_serialize_def array_bytes_def put_size_def default_limits_def usize_max_def)
  show "deserialize (array_serde int16_serde 2 default_limits) (array_bytes i16.encoded [- 1, 5]) = Inr [- 1, 5]"
    using l by (intro array_serde_roundtrip [OF i16.serde_contract_axioms d s])
      (simp_all add: default_limits_def usize_max_def isize_max_def)
qed

text \<open>
  Fixed-width arrays round trip in their exact size: for every element serde of one width
  \<open>FixedSizeArraySerde\<close> writes eight bytes plus the width per element, and reads it back.
\<close>

theorem fixed_array_serde_roundtrip:
  assumes "fixed_serde_contract (serialize S) (deserialize S) d width" and "0 < width" and "list_all d vs"
    and "length vs \<le> max_container_elements l" and "8 + length vs * width \<le> max_total_bytes l"
    and "max_total_bytes l \<le> usize_max" and "length vs * esize \<le> isize_max"
  shows "\<exists>bs. serialize (fixed_array_serde S width esize l) vs = Inr bs \<and> length bs = 8 + length vs * width \<and>
    deserialize (fixed_array_serde S width esize l) bs = Inr vs"
  using fixed_serde_contract.fixed_array_roundtrip [OF assms(1,3,4) _ assms(6,7,2)] assms(5)
  by (simp add: fixed_array_serde_def size_bytes_def)

theorem fixed_array_serde_roundtrip_witness:
  "\<exists>bs. serialize (fixed_array_serde int64_serde 8 8 default_limits) [- 3, 12] = Inr bs \<and> length bs = 24 \<and>
     deserialize (fixed_array_serde int64_serde 8 8 default_limits) bs = Inr [- 3, 12]"
  using fixed_array_serde_roundtrip [OF i64.fixed_serde_contract_axioms, of "[- 3, 12]" default_limits 8]
  by (simp add: signed_range_def default_limits_def usize_max_def isize_max_def)

text \<open>
  Maps round trip: \<open>MapSerde\<close> reads back every hash map it wrote, for any serdes of the key
  and value vectors that read back what they write, in spite of writing keys and values apart.
\<close>

theorem map_serde_roundtrip:
  assumes "serde_contract (serialize ks) (deserialize ks) kd" and "serde_contract (serialize vs) (deserialize vs) vd"
    and "kd (map fst m)" and "vd (map snd m)" and "hm_wf m"
    and "serialize (map_serde ks vs) m = Inr bs" and "length bs \<le> usize_max"
  shows "deserialize (map_serde ks vs) bs = Inr m"
  using map_roundtrip [OF assms(1-5) _ assms(7)] assms(6) by (simp add: map_serde_def)

theorem map_serde_roundtrip_witness:
  "\<exists>bs. serialize (map_serde (string_array_serde default_limits) (bytes_serde default_limits)) [([0x61], 5)] = Inr bs \<and>
     deserialize (map_serde (string_array_serde default_limits) (bytes_serde default_limits)) bs = Inr [([0x61], 5)]"
proof (intro exI conjI)
  let ?ek = "array_bytes (\<lambda>v. v) [[0x61]]" and ?ev = "frame [5]"
  have k: "string_array_dom default_limits [[0x61]]"
    by (simp add: string_array_dom_def array_bytes_def frame_def size_bytes_def default_limits_def usize_max_def isize_max_def)
  have v: "bytes_dom default_limits [5]"
    by (simp add: bytes_dom_def size_bytes_def default_limits_def usize_max_def)
  show s: "serialize (map_serde (string_array_serde default_limits) (bytes_serde default_limits)) [([0x61], 5)] =
      Inr (frame ?ek @ frame ?ev)"
    using string_array_encoded(1) [OF k]
    by (simp add: map_serde_def map_serialize_def string_array_serde_def bytes_serde_def bytes_serialize_def
        put_size_def frame_def default_limits_def usize_max_def)
  show "deserialize (map_serde (string_array_serde default_limits) (bytes_serde default_limits)) (frame ?ek @ frame ?ev) =
      Inr [([0x61], 5)]"
    by (rule map_serde_roundtrip [OF strs.serde_contract_axioms byt.serde_contract_axioms _ _ _ s])
      (use k v in \<open>simp_all add: frame_def array_bytes_def size_bytes_def usize_max_def\<close>)
qed

text \<open>
  An unchecked element count. With the default limits, an eight-byte input that announces more
  elements than a \<open>Vec\<close> can hold makes \<open>ArraySerde\<close> and \<open>StringArraySerde\<close> panic in
  \<open>Vec::with_capacity\<close> instead of returning an error, while \<open>FixedSizeArraySerde\<close> checks the count
  against the input first and reports the truncation.
\<close>

theorem array_count_panics:
  assumes "n \<le> usize_max" and "isize_max < n * esize" and "isize_max < n * 24" and "0 < width"
  shows "array_deserialize deser esize default_limits (be_of_nat 8 n) = Inl CapacityOverflow \<and>
    string_array_deserialize default_limits (be_of_nat 8 n) = Inl CapacityOverflow \<and>
    (\<exists>msg. fixed_array_deserialize deser width esize default_limits (be_of_nat 8 n) = Inl (SerdeError msg 8))"
proof -
  have n: "0 < n" using assms(2) by (cases n) auto
  have "\<exists>r r1. reader_new (be_of_nat 8 n) usize_max = Inr r \<and>
      reader_read_size usize_max ''array count'' r = Inr (n, r1) \<and> reader_ok r1 \<and>
      reader_rest r1 = [] \<and> data r1 = be_of_nat 8 n \<and> offset r1 = size_bytes"
    using assms(1) by (intro read_count) (simp_all add: size_bytes_def usize_max_def)
  then obtain r r1 where "reader_new (be_of_nat 8 n) usize_max = Inr r"
    "reader_read_size usize_max ''array count'' r = Inr (n, r1)" "data r1 = be_of_nat 8 n" "offset r1 = 8"
    by (auto simp: size_bytes_def)
  with assms n show ?thesis
    by (auto simp: array_deserialize_def string_array_deserialize_def fixed_array_deserialize_def
        default_limits_def with_capacity_def checked_mul_def)
qed

theorem array_count_panics_witness:
  "array_deserialize (deserialize rune_serde) 4 default_limits (be_of_nat 8 usize_max) = Inl CapacityOverflow"
  using array_count_panics [of usize_max 4 4 "deserialize rune_serde"]
  by (simp add: usize_max_def isize_max_def)

end
