(* ===== verification/Serde_Registry.thy ===== *)
theory Serde_Registry
  imports Runtime_Prelude
begin

text \<open>
  The serde registry of \<open>src/runtime/serde/registry.rs\<close>: per service an optional provider of
  serializers, and a cache of the serializer of each service and type. \<open>get\<close> looks the cache up,
  runs the provider without holding the lock and then enters its choice if no other caller was
  faster, so it is modelled as a lookup and a commit with any other calls in between. The lemmas
  show that all callers of a key get one serializer, of the requested type.
\<close>

section \<open>Types and serializers\<close>

text \<open>The types the defaults know (\<open>TypeId\<close>), vectors of any type, and all other types by number.\<close>

datatype type_id =
  TBool | TChar | TI8 | TI16 | TI32 | TI64 | TU8 | TU16 | TU32 | TU64 | TF32 | TF64 | TString
  | TVec type_id | TOther nat

datatype serde_kind =
  BoolSerde | RuneSerde | Int8Serde | Int16Serde | Int32Serde | Int64Serde
  | UInt8Serde | UInt16Serde | UInt32Serde | UInt64Serde | Float32Serde | Float64Serde
  | StringSerde | BytesSerde | ArraySerde serde_kind | StubSerde | CustomSerde nat

text \<open>A type-erased serializer knows its type: \<open>downcast\<close> succeeds exactly on it.\<close>

record serializer =
  serializer_type :: type_id
  kind :: serde_kind

definition downcast :: "type_id \<Rightarrow> serializer \<Rightarrow> serde_kind option" where
  "downcast t s = (if serializer_type s = t then Some (kind s) else None)"

definition typed :: "type_id \<Rightarrow> serializer \<Rightarrow> serde_kind runtime_result" where
  "typed t s = (case downcast t s of
     Some k \<Rightarrow> Inr k
   | None \<Rightarrow> Inl (InvalidConfiguration ''serde provider returned an incompatible serializer''))"

definition scalar_table :: "(type_id \<times> serde_kind) list" where
  "scalar_table = [(TBool, BoolSerde), (TChar, RuneSerde), (TI8, Int8Serde), (TI16, Int16Serde),
     (TI32, Int32Serde), (TI64, Int64Serde), (TU8, UInt8Serde), (TU16, UInt16Serde), (TU32, UInt32Serde),
     (TU64, UInt64Serde), (TF32, Float32Serde), (TF64, Float64Serde), (TString, StringSerde)]"

fun scalar_and_array :: "(type_id \<times> serde_kind) list \<Rightarrow> type_id \<Rightarrow> serializer option" where
  "scalar_and_array [] t = None"
| "scalar_and_array ((st, sk) # tab) t =
     (if t = st then Some \<lparr>serializer_type = st, kind = sk\<rparr>
      else if t = TVec st then Some \<lparr>serializer_type = TVec st, kind = ArraySerde sk\<rparr>
      else scalar_and_array tab t)"

definition default_serializer :: "type_id \<Rightarrow> serializer option" where
  "default_serializer t =
     (if t = TVec TU8 then Some \<lparr>serializer_type = TVec TU8, kind = BytesSerde\<rparr>
      else scalar_and_array scalar_table t)"

section \<open>The registry\<close>

text \<open>A provider answers for a type with an error, nothing, or a serializer of its choice.\<close>

type_synonym provider = "type_id \<Rightarrow> serializer option runtime_result"
type_synonym service = "int option"

record registry =
  providers :: "(service \<times> provider) list"
  serializers :: "((service \<times> type_id) \<times> serializer) list"

definition registry_new :: registry where
  "registry_new = \<lparr>providers = [], serializers = []\<rparr>"

definition set_provider :: "service \<Rightarrow> provider \<Rightarrow> registry \<Rightarrow> unit runtime_result \<times> registry" where
  "set_provider svc p st =
     (if map_of (providers st) svc \<noteq> None \<or> (\<exists>key \<in> fst ` set (serializers st). fst key = svc)
      then (Inl (DuplicateResource ''service serde provider''), st)
      else (Inr (), st\<lparr>providers := hm_insert svc p (providers st)\<rparr>))"

text \<open>The first part of \<open>get\<close>: the cached serializer, or the provider to ask.\<close>

definition get_lookup :: "service \<Rightarrow> type_id \<Rightarrow> registry \<Rightarrow> serde_kind runtime_result + provider option" where
  "get_lookup svc t st =
     (case map_of (serializers st) (svc, t) of
        Some s \<Rightarrow> Inl (typed t s)
      | None \<Rightarrow> Inr (map_of (providers st) svc))"

definition select_serializer :: "type_id \<Rightarrow> provider option \<Rightarrow> serializer runtime_result" where
  "select_serializer t p =
     (case (case p of Some f \<Rightarrow> f t | None \<Rightarrow> Inr None) of
        Inl e \<Rightarrow> Inl e
      | Inr sel \<Rightarrow>
          Inr (case sel of
            Some s \<Rightarrow> s
          | None \<Rightarrow> (case default_serializer t of
                Some s \<Rightarrow> s
              | None \<Rightarrow> \<lparr>serializer_type = t, kind = StubSerde\<rparr>)))"

definition or_insert_with :: "'k \<Rightarrow> 'v \<Rightarrow> ('k \<times> 'v) list \<Rightarrow> 'v \<times> ('k \<times> 'v) list" where
  "or_insert_with k v m = (case map_of m k of Some w \<Rightarrow> (w, m) | None \<Rightarrow> (v, hm_insert k v m))"

text \<open>The second part of \<open>get\<close>, after the provider has returned.\<close>

definition get_commit :: "service \<Rightarrow> type_id \<Rightarrow> provider option \<Rightarrow> registry \<Rightarrow> serde_kind runtime_result \<times> registry" where
  "get_commit svc t p st =
     (case select_serializer t p of
        Inl e \<Rightarrow> (Inl e, st)
      | Inr sel \<Rightarrow>
          (case typed t sel of
             Inl e \<Rightarrow> (Inl e, st)
           | Inr _ \<Rightarrow>
               let (s, m) = or_insert_with (svc, t) sel (serializers st) in
               (typed t s, st\<lparr>serializers := m\<rparr>)))"

text \<open>\<open>get\<close> without interference.\<close>

definition get :: "service \<Rightarrow> type_id \<Rightarrow> registry \<Rightarrow> serde_kind runtime_result \<times> registry" where
  "get svc t st = (case get_lookup svc t st of Inl r \<Rightarrow> (r, st) | Inr p \<Rightarrow> get_commit svc t p st)"

text \<open>\<open>cache\<close> enters a serde of the type \<open>t\<close>; \<open>None\<close> is the failed \<open>expect\<close>.\<close>

definition cache :: "service \<Rightarrow> type_id \<Rightarrow> serde_kind \<Rightarrow> registry \<Rightarrow> serde_kind option \<times> registry" where
  "cache svc t k st =
     (let (s, m) = or_insert_with (svc, t) \<lparr>serializer_type = t, kind = k\<rparr> (serializers st) in
      (downcast t s, st\<lparr>serializers := m\<rparr>))"

section \<open>Interleaved calls\<close>

datatype reg_op =
  SetProvider service provider | GetCommit service type_id "provider option" | Cache service type_id serde_kind

fun reg_exec :: "reg_op \<Rightarrow> registry \<Rightarrow> registry" where
  "reg_exec (SetProvider svc p) st = snd (set_provider svc p st)"
| "reg_exec (GetCommit svc t p) st = snd (get_commit svc t p st)"
| "reg_exec (Cache svc t k) st = snd (cache svc t k st)"

definition reg_inv :: "registry \<Rightarrow> bool" where
  "reg_inv st \<longleftrightarrow> (\<forall>svc t s. map_of (serializers st) (svc, t) = Some s \<longrightarrow> serializer_type s = t)"

text \<open>Entries are only added, each of the type of its key.\<close>

definition reg_le :: "registry \<Rightarrow> registry \<Rightarrow> bool" where
  "reg_le st st' \<longleftrightarrow> map_of (serializers st) \<subseteq>\<^sub>m map_of (serializers st')"

lemma typed_Inr: "typed t s = Inr k \<longleftrightarrow> serializer_type s = t \<and> kind s = k"
  by (auto simp: typed_def downcast_def)

lemma or_insert_with_spec:
  "or_insert_with k v m = (w, m') \<Longrightarrow>
     map_of m' k = Some w \<and> map_of m \<subseteq>\<^sub>m map_of m' \<and> (\<forall>j. j \<noteq> k \<longrightarrow> map_of m' j = map_of m j) \<and>
     w = (case map_of m k of Some x \<Rightarrow> x | None \<Rightarrow> v)"
  by (auto simp: or_insert_with_def map_le_def split: option.splits)

lemma set_provider_frame [simp]: "serializers (snd (set_provider svc p st)) = serializers st"
  by (simp add: set_provider_def)

lemma get_commit_spec:
  assumes "reg_inv st"
  shows "reg_inv (snd (get_commit svc t p st)) \<and> reg_le st (snd (get_commit svc t p st)) \<and>
    (\<forall>k. fst (get_commit svc t p st) = Inr k \<longrightarrow>
       map_of (serializers (snd (get_commit svc t p st))) (svc, t) = Some \<lparr>serializer_type = t, kind = k\<rparr>)"
proof (cases "\<exists>sel. select_serializer t p = Inr sel \<and> serializer_type sel = t")
  case True
  then obtain sel where sel: "select_serializer t p = Inr sel" "serializer_type sel = t" by blast
  obtain s m where o: "or_insert_with (svc, t) sel (serializers st) = (s, m)" by fastforce
  note sp = or_insert_with_spec [OF o]
  have ty: "serializer_type s = t" using sp sel assms by (auto simp: reg_inv_def split: option.splits)
  have gc: "get_commit svc t p st = (typed t s, st\<lparr>serializers := m\<rparr>)"
    using sel o by (simp add: get_commit_def typed_def downcast_def)
  have "map_of m (svc', t') = Some s' \<Longrightarrow> serializer_type s' = t'" for svc' t' s'
    using sp ty assms by (cases "(svc', t') = (svc, t)") (auto simp: reg_inv_def)
  then have "reg_inv (st\<lparr>serializers := m\<rparr>)" by (simp add: reg_inv_def)
  then show ?thesis using gc sp by (auto simp: reg_le_def typed_Inr)
next
  case False
  then have "get_commit svc t p st = (fst (get_commit svc t p st), st) \<and> (\<nexists>k. fst (get_commit svc t p st) = Inr k)"
    by (auto simp: get_commit_def typed_def downcast_def split: sum.splits)
  with assms show ?thesis by (metis map_le_refl prod.sel(2) reg_le_def)
qed

lemma cache_spec:
  assumes "reg_inv st"
  shows "reg_inv (snd (cache svc t k st)) \<and> reg_le st (snd (cache svc t k st)) \<and>
    (\<exists>k'. fst (cache svc t k st) = Some k' \<and>
       map_of (serializers (snd (cache svc t k st))) (svc, t) = Some \<lparr>serializer_type = t, kind = k'\<rparr>)"
proof -
  obtain s m where o: "or_insert_with (svc, t) \<lparr>serializer_type = t, kind = k\<rparr> (serializers st) = (s, m)"
    by fastforce
  note sp = or_insert_with_spec [OF o]
  have ty: "serializer_type s = t" using sp assms by (auto simp: reg_inv_def split: option.splits)
  have c: "cache svc t k st = (Some (kind s), st\<lparr>serializers := m\<rparr>)"
    using o ty by (simp add: cache_def downcast_def)
  have "map_of m (svc', t') = Some s' \<Longrightarrow> serializer_type s' = t'" for svc' t' s'
    using sp ty assms by (cases "(svc', t') = (svc, t)") (auto simp: reg_inv_def)
  then have "reg_inv (st\<lparr>serializers := m\<rparr>)" by (simp add: reg_inv_def)
  then show ?thesis using c sp ty by (auto simp: reg_le_def)
qed

lemma reg_exec_inv: "reg_inv st \<Longrightarrow> reg_inv (reg_exec x st) \<and> reg_le st (reg_exec x st)"
proof (cases x)
  case (SetProvider svc p)
  moreover assume "reg_inv st"
  ultimately show ?thesis by (simp add: reg_inv_def reg_le_def)
qed (simp_all add: get_commit_spec cache_spec)

lemma reg_run_inv: "reg_inv st \<Longrightarrow> reg_inv (fold reg_exec xs st) \<and> reg_le st (fold reg_exec xs st)"
proof (induction xs arbitrary: st)
  case (Cons x xs)
  from reg_exec_inv [OF Cons.prems, of x] Cons.IH [of "reg_exec x st"] show ?case
    by (auto simp: reg_le_def intro: map_le_trans)
qed (simp add: reg_le_def)

lemma registry_new_inv [simp]: "reg_inv registry_new"
  by (simp add: reg_inv_def registry_new_def)

lemma get_lookup_cached:
  "map_of (serializers st) (svc, t) = Some \<lparr>serializer_type = t, kind = k\<rparr> \<Longrightarrow> get svc t st = (Inr k, st)"
  by (simp add: get_def get_lookup_def typed_def downcast_def)

section \<open>Properties\<close>

text \<open>
  All callers agree. Once a \<open>get\<close> for a service and type has succeeded, with any calls before
  it (also between its own lookup and its commit) and any calls after it, every later \<open>get\<close> for
  them returns the same serializer and leaves the registry as it is, and from then on no provider
  can be set for that service.
\<close>

theorem registry_get_agrees:
  assumes "get_commit svc t p (fold reg_exec before registry_new) = (Inr k, st)"
  shows "get svc t (fold reg_exec after st) = (Inr k, fold reg_exec after st) \<and>
    set_provider svc q (fold reg_exec after st) =
      (Inl (DuplicateResource ''service serde provider''), fold reg_exec after st)"
proof -
  let ?b = "fold reg_exec before registry_new" and ?a = "fold reg_exec after st"
  have "reg_inv ?b" using reg_run_inv [OF registry_new_inv] by blast
  from get_commit_spec [OF this, of svc t p] assms
  have "reg_inv st" and "map_of (serializers st) (svc, t) = Some \<lparr>serializer_type = t, kind = k\<rparr>" by simp_all
  with reg_run_inv [of st after] have m: "map_of (serializers ?a) (svc, t) = Some \<lparr>serializer_type = t, kind = k\<rparr>"
    by (auto simp: reg_le_def map_le_def dom_def)
  then have "\<exists>key \<in> fst ` set (serializers ?a). fst key = svc"
    by (force dest: map_of_SomeD)
  with get_lookup_cached [OF m] show ?thesis
    by (simp only: set_provider_def) simp
qed

theorem registry_get_agrees_witness:
  "get (Some 1) TI32 (fold reg_exec [Cache (Some 1) TI32 (CustomSerde 4)]
      (snd (get_commit (Some 1) TI32 None (fold reg_exec [] registry_new)))) =
     (Inr Int32Serde, fold reg_exec [Cache (Some 1) TI32 (CustomSerde 4)]
      (snd (get_commit (Some 1) TI32 None (fold reg_exec [] registry_new))))"
  using registry_get_agrees [of "Some 1" TI32 None "[]" Int32Serde
      "snd (get_commit (Some 1) TI32 None (fold reg_exec [] registry_new))" "[Cache (Some 1) TI32 (CustomSerde 4)]"]
  by (simp add: get_commit_def select_serializer_def default_serializer_def scalar_table_def typed_def downcast_def
      or_insert_with_def registry_new_def)

end
