(* ===== verification/Message_Context.thy ===== *)
theory Message_Context
  imports Runtime_Prelude
begin

text \<open>
  \<open>src/runtime/common.rs\<close>: construction-time cells, payloads, the message context (deadline,
  metadata, sampling, priority, process-local values, transport metadata, \<open>grpc-timeout\<close>), the
  \<open>CompleteOnDrop\<close> guard and stream ids. The lemmas show what a derived context keeps of the one it
  comes from, which transport headers carry over, how \<open>traceparent\<close> and \<open>grpc-timeout\<close> are read,
  that an abandoned transport operation is cancelled once and finished, and that stream ids differ.

  Cancellation tokens (tokio-util) and OpenTelemetry contexts are parameters: a context carries
  opaque values of both, and the operations that touch them take the library functions as
  arguments. Header values are strings of bytes.
\<close>

section \<open>Cells and payloads\<close>

definition cell_empty :: "'a option" where "cell_empty = None"

definition cell_get :: "'a option \<Rightarrow> 'a option" where "cell_get c = c"

definition cell_set :: "'a \<Rightarrow> 'a option \<Rightarrow> ('a + unit) \<times> 'a option" where
  "cell_set v c = (if c \<noteq> None then (Inl v, c) else (Inr (), Some v))"

definition cell_replace :: "'a \<Rightarrow> 'a option \<Rightarrow> 'a option \<times> 'a option" where
  "cell_replace v c = (c, Some v)"

text \<open>An \<open>Arc\<close> is its address in a heap of shared values; \<open>Arc::new\<close> allocates.\<close>

datatype 'a payload = Owned 'a | Shared nat

definition payload_into_arc :: "'a payload \<Rightarrow> 'a list \<Rightarrow> nat \<times> 'a list" where
  "payload_into_arc p heap = (case p of Owned v \<Rightarrow> (length heap, heap @ [v]) | Shared a \<Rightarrow> (a, heap))"

definition payload_share :: "'a payload \<Rightarrow> 'a list \<Rightarrow> ('a payload \<times> 'a payload) \<times> 'a list" where
  "payload_share p heap = (let (a, heap') = payload_into_arc p heap in ((Shared a, Shared a), heap'))"

definition payload_deref :: "'a payload \<Rightarrow> 'a list \<Rightarrow> 'a" where
  "payload_deref p heap = (case p of Owned v \<Rightarrow> v | Shared a \<Rightarrow> heap ! a)"

text \<open>\<open>into_value\<close> moves or clones: the value is the one the handle stands for.\<close>

definition payload_into_value :: "'a payload \<Rightarrow> 'a list \<Rightarrow> 'a" where
  "payload_into_value p heap = payload_deref p heap"

definition payload_ok :: "'a payload \<Rightarrow> 'a list \<Rightarrow> bool" where
  "payload_ok p heap \<longleftrightarrow> (case p of Owned _ \<Rightarrow> True | Shared a \<Rightarrow> a < length heap)"

lemma payload_share_spec:
  assumes "payload_ok p heap" and "payload_share p heap = ((x, y), heap')"
  shows "payload_ok x heap' \<and> payload_ok y heap' \<and> payload_into_value x heap' = payload_into_value p heap \<and>
    payload_into_value y heap' = payload_into_value p heap \<and> take (length heap) heap' = heap \<and>
    (heap' = heap \<longleftrightarrow> (\<exists>a. p = Shared a))"
  using assms by (auto simp: payload_share_def payload_into_arc_def payload_ok_def payload_into_value_def
      payload_deref_def split: payload.splits)

section \<open>The trace parent header\<close>

definition hex_digit :: "char \<Rightarrow> nat option" where
  "hex_digit c =
     (let n = of_char c :: nat in
      if 48 \<le> n \<and> n \<le> 57 then Some (n - 48)
      else if 97 \<le> n \<and> n \<le> 102 then Some (n - 87)
      else if 65 \<le> n \<and> n \<le> 70 then Some (n - 55)
      else None)"

text \<open>\<open>from_str_radix\<close> on two hexadecimal digits.\<close>

definition hex_byte :: "char \<Rightarrow> char \<Rightarrow> nat option" where
  "hex_byte a b = (case (hex_digit a, hex_digit b) of (Some x, Some y) \<Rightarrow> Some (16 * x + y) | _ \<Rightarrow> None)"

definition traceparent_flags :: "string \<Rightarrow> nat option" where
  "traceparent_flags v =
     (if length v \<noteq> 55 \<or> v ! 2 \<noteq> CHR ''-'' \<or> v ! 35 \<noteq> CHR ''-'' \<or> v ! 52 \<noteq> CHR ''-'' then None
      else if \<not> list_all (\<lambda>(i, c). i \<in> {2, 35, 52} \<or> hex_digit c \<noteq> None) (enumerate 0 v) then None
      else if take 2 v = ''ff'' \<or> list_all (\<lambda>c. c = CHR ''0'') (take 32 (drop 3 v)) \<or>
           list_all (\<lambda>c. c = CHR ''0'') (take 16 (drop 36 v)) then None
      else hex_byte (v ! 53) (v ! 54))"

definition traceparent_is_sampled :: "string \<Rightarrow> bool" where
  "traceparent_is_sampled v = (case traceparent_flags v of None \<Rightarrow> False | Some f \<Rightarrow> odd f)"

section \<open>Message contexts\<close>

definition stream_id_header :: string where "stream_id_header = ''x-stream-id''"
definition trace_sampling_header :: string where "trace_sampling_header = ''x-trace''"

type_synonym metadata = "(string \<times> string) list"

text \<open>
  Local values form a chain from the newest binding on: a list of key identity and value. The
  type of a key decides the type of the values stored under it, so \<open>downcast\<close> cannot fail.
\<close>

record ('t, 'o, 'v) message_context =
  cancellation :: 't
  deadline :: "instant option"
  metadata :: metadata
  open_telemetry :: 'o
  sampling_enabled :: bool
  priority :: "int option"
  local_values :: "(nat \<times> 'v) list"

text \<open>\<open>tok\<close> and \<open>otel\<close> are a new cancellation token and an empty OpenTelemetry context.\<close>

definition context_new :: "'t \<Rightarrow> 'o \<Rightarrow> ('t, 'o, 'v) message_context" where
  "context_new tok otel = \<lparr>cancellation = tok, deadline = None, metadata = [], open_telemetry = otel,
     sampling_enabled = False, priority = None, local_values = []\<rparr>"

definition context_child :: "('t \<Rightarrow> 't) \<Rightarrow> ('t, 'o, 'v) message_context \<Rightarrow> ('t, 'o, 'v) message_context" where
  "context_child child_token c = c\<lparr>cancellation := child_token (cancellation c)\<rparr>"

text \<open>
  \<open>Instant + Duration\<close> in nanoseconds: the standard library panics when the sum of seconds does
  not fit the platform's 64-bit signed clock.
\<close>

definition instant_max :: instant where "instant_max = 2 ^ 63 * 10 ^ 9 - 1"

definition instant_add :: "instant \<Rightarrow> duration \<Rightarrow> instant option" where
  "instant_add now d = (if now + d \<le> instant_max then Some (now + d) else None)"

definition with_deadline :: "'t \<Rightarrow> 'o \<Rightarrow> instant \<Rightarrow> ('t, 'o, 'v) message_context" where
  "with_deadline tok otel d = (context_new tok otel)\<lparr>deadline := Some d\<rparr>"

definition with_timeout :: "'t \<Rightarrow> 'o \<Rightarrow> instant \<Rightarrow> duration \<Rightarrow> ('t, 'o, 'v) message_context option" where
  "with_timeout tok otel now d = map_option (with_deadline tok otel) (instant_add now d)"

definition with_timeout_limit :: "instant \<Rightarrow> duration \<Rightarrow> ('t, 'o, 'v) message_context \<Rightarrow>
    ('t, 'o, 'v) message_context option" where
  "with_timeout_limit now d c =
     (case instant_add now d of
        None \<Rightarrow> None
      | Some dl \<Rightarrow> Some (case deadline c of
            None \<Rightarrow> c\<lparr>deadline := Some dl\<rparr>
          | Some cur \<Rightarrow> if dl < cur then c\<lparr>deadline := Some dl\<rparr> else c))"

definition with_local_value :: "nat \<Rightarrow> 'v \<Rightarrow> ('t, 'o, 'v) message_context \<Rightarrow> ('t, 'o, 'v) message_context" where
  "with_local_value k v c = c\<lparr>local_values := (k, v) # local_values c\<rparr>"

fun find_local :: "nat \<Rightarrow> (nat \<times> 'v) list \<Rightarrow> 'v option" where
  "find_local k [] = None"
| "find_local k ((j, v) # parent) = (if j = k then Some v else find_local k parent)"

definition local_value :: "nat \<Rightarrow> ('t, 'o, 'v) message_context \<Rightarrow> 'v option" where
  "local_value k c = find_local k (local_values c)"

text \<open>\<open>extract\<close> is the global propagator's.\<close>

definition with_metadata :: "(metadata \<Rightarrow> 'o) \<Rightarrow> metadata \<Rightarrow> ('t, 'o, 'v) message_context \<Rightarrow>
    ('t, 'o, 'v) message_context" where
  "with_metadata extract m c =
     (let explicit_sampling = (case map_of m trace_sampling_header of None \<Rightarrow> False | Some v \<Rightarrow> v \<noteq> []);
          sampled_parent = (case map_of m ''traceparent'' of None \<Rightarrow> False | Some v \<Rightarrow> traceparent_is_sampled v);
          valid_parent = (case map_of m ''traceparent'' of None \<Rightarrow> False | Some v \<Rightarrow> traceparent_flags v \<noteq> None);
          sampling = (explicit_sampling \<or> sampled_parent) in
      c\<lparr>sampling_enabled := sampling,
        open_telemetry := (if sampling \<or> valid_parent then extract m else open_telemetry c),
        metadata := m\<rparr>)"

definition with_metadata_untraced :: "metadata \<Rightarrow> ('t, 'o, 'v) message_context \<Rightarrow> ('t, 'o, 'v) message_context" where
  "with_metadata_untraced m c = c\<lparr>metadata := m\<rparr>"

definition tracing_parent_from_http_headers :: "(metadata \<Rightarrow> 'o) \<Rightarrow> metadata \<Rightarrow> 'o option" where
  "tracing_parent_from_http_headers extract h =
     (let explicit_sampling = (case map_of h trace_sampling_header of None \<Rightarrow> False | Some v \<Rightarrow> v \<noteq> []);
          sampled_parent = (case map_of h ''traceparent'' of None \<Rightarrow> False | Some v \<Rightarrow> traceparent_is_sampled v) in
      if \<not> explicit_sampling \<and> \<not> sampled_parent then None else Some (extract h))"

definition with_stream_id :: "string \<Rightarrow> ('t, 'o, 'v) message_context \<Rightarrow> ('t, 'o, 'v) message_context" where
  "with_stream_id i c = c\<lparr>metadata := hm_insert stream_id_header i (metadata c)\<rparr>"

definition stream_id :: "('t, 'o, 'v) message_context \<Rightarrow> string option" where
  "stream_id c = map_of (metadata c) stream_id_header"

definition remaining :: "instant \<Rightarrow> ('t, 'o, 'v) message_context \<Rightarrow> duration option" where
  "remaining now c = map_option (\<lambda>d. d - now) (deadline c)"

definition with_open_telemetry_context :: "'o \<Rightarrow> ('t, 'o, 'v) message_context \<Rightarrow> ('t, 'o, 'v) message_context" where
  "with_open_telemetry_context o' c = c\<lparr>open_telemetry := o'\<rparr>"

text \<open>A span is disabled or has an OpenTelemetry context.\<close>

definition with_span_context :: "'o option \<Rightarrow> ('t, 'o, 'v) message_context \<Rightarrow> ('t, 'o, 'v) message_context" where
  "with_span_context span c =
     (case span of Some o' \<Rightarrow> if sampling_enabled c then c\<lparr>open_telemetry := o'\<rparr> else c | None \<Rightarrow> c)"

definition enable_sampling :: "('t, 'o, 'v) message_context \<Rightarrow> ('t, 'o, 'v) message_context" where
  "enable_sampling c = c\<lparr>sampling_enabled := True, metadata := hm_insert trace_sampling_header ''1'' (metadata c)\<rparr>"

definition with_priority :: "int \<Rightarrow> ('t, 'o, 'v) message_context \<Rightarrow> ('t, 'o, 'v) message_context" where
  "with_priority p c = c\<lparr>priority := Some p\<rparr>"

text \<open>\<open>valid\<close> is \<open>span().span_context().is_valid()\<close> and \<open>inject\<close> the propagator's.\<close>

definition extend_transport_metadata :: "('o \<Rightarrow> bool) \<Rightarrow> ('o \<Rightarrow> metadata \<Rightarrow> metadata) \<Rightarrow> bool \<Rightarrow>
    ('t, 'o, 'v) message_context \<Rightarrow> metadata \<Rightarrow> metadata" where
  "extend_transport_metadata valid inject tracing_enabled c m =
     (let m1 = (case map_of (metadata c) stream_id_header of None \<Rightarrow> m | Some v \<Rightarrow> hm_insert stream_id_header v m) in
      if \<not> tracing_enabled then m1
      else let m2 = (case map_of (metadata c) trace_sampling_header of
               None \<Rightarrow> m1 | Some v \<Rightarrow> hm_insert trace_sampling_header v m1) in
        if valid (open_telemetry c) then inject (open_telemetry c) m2 else m2)"

definition transport_metadata :: "('o \<Rightarrow> bool) \<Rightarrow> ('o \<Rightarrow> metadata \<Rightarrow> metadata) \<Rightarrow> ('t, 'o, 'v) message_context \<Rightarrow> metadata" where
  "transport_metadata valid inject c = extend_transport_metadata valid inject True c []"

text \<open>\<open>token_cancelled\<close> is \<open>is_cancelled\<close> of the cancellation token.\<close>

definition is_cancelled :: "('t \<Rightarrow> bool) \<Rightarrow> instant \<Rightarrow> ('t, 'o, 'v) message_context \<Rightarrow> bool" where
  "is_cancelled token_cancelled now c \<longleftrightarrow>
     token_cancelled (cancellation c) \<or> (case deadline c of None \<Rightarrow> False | Some d \<Rightarrow> d \<le> now)"

section \<open>gRPC requests\<close>

text \<open>\<open>str::parse::<u64>\<close>: an optional plus sign, at least one digit, at most \<open>u64::MAX\<close>.\<close>

definition dec_digit :: "char \<Rightarrow> nat option" where
  "dec_digit c = (let n = of_char c :: nat in if 48 \<le> n \<and> n \<le> 57 then Some (n - 48) else None)"

fun parse_digits :: "nat \<Rightarrow> string \<Rightarrow> nat option" where
  "parse_digits acc [] = Some acc"
| "parse_digits acc (c # cs) =
     (case dec_digit c of
        None \<Rightarrow> None
      | Some d \<Rightarrow> if 10 * acc + d \<le> usize_max then parse_digits (10 * acc + d) cs else None)"

definition parse_u64 :: "string \<Rightarrow> nat option" where
  "parse_u64 s =
     (let ds = (case s of c # cs \<Rightarrow> if c = CHR ''+'' then cs else s | [] \<Rightarrow> []) in
      if ds = [] then None else parse_digits 0 ds)"

text \<open>Durations in nanoseconds.\<close>

definition parse_grpc_timeout :: "string \<Rightarrow> duration option" where
  "parse_grpc_timeout v =
     (if v = [] then None
      else case parse_u64 (butlast v) of
        None \<Rightarrow> None
      | Some n \<Rightarrow>
          (if last v = CHR ''H'' then Some (saturating_mul n 3600 * 10 ^ 9)
           else if last v = CHR ''M'' then Some (saturating_mul n 60 * 10 ^ 9)
           else if last v = CHR ''S'' then Some (n * 10 ^ 9)
           else if last v = CHR ''m'' then Some (n * 10 ^ 6)
           else if last v = CHR ''u'' then Some (n * 10 ^ 3)
           else if last v = CHR ''n'' then Some n
           else None))"

text \<open>
  The metadata of a request: ASCII entries whose value is printable, with the tracing headers
  dropped when tracing is off (\<open>None\<close> as a value stands for one that \<open>to_str\<close> rejects). The result
  is \<open>None\<close> for the panic of the deadline addition.
\<close>

datatype request_entry = Ascii string "string option" | Binary

definition request_metadata :: "bool \<Rightarrow> request_entry list \<Rightarrow> metadata" where
  "request_metadata tracing_enabled es =
     fold (\<lambda>(k, v). hm_insert k v)
       (List.map_filter (\<lambda>e. case e of
            Ascii name value \<Rightarrow>
              if \<not> tracing_enabled \<and> name \<in> {trace_sampling_header, ''traceparent'', ''tracestate'', ''baggage''}
              then None else map_option (\<lambda>v. (name, v)) value
          | Binary \<Rightarrow> None) es) []"

definition from_tonic_request :: "'t \<Rightarrow> 'o \<Rightarrow> (metadata \<Rightarrow> 'o) \<Rightarrow> instant \<Rightarrow> bool \<Rightarrow> request_entry list \<Rightarrow>
    ('t, 'o, 'v) message_context option" where
  "from_tonic_request tok otel extract now tracing_enabled es =
     (let m = request_metadata tracing_enabled es;
          timeout = (case map_of m ''grpc-timeout'' of None \<Rightarrow> None | Some v \<Rightarrow> parse_grpc_timeout v);
          c = (if tracing_enabled then with_metadata extract m (context_new tok otel)
               else with_metadata_untraced m (context_new tok otel)) in
      case timeout of
        None \<Rightarrow> Some c
      | Some d \<Rightarrow> map_option (\<lambda>dl. c\<lparr>deadline := Some dl\<rparr>) (instant_add now d))"

text \<open>
  \<open>apply_to_tonic_request\<close>: \<open>encodable\<close> says which headers \<open>MetadataKey\<close> and \<open>MetadataValue\<close> accept.
  The result is the request metadata and the timeout set on the request.
\<close>

definition apply_to_tonic_request :: "('o \<Rightarrow> bool) \<Rightarrow> ('o \<Rightarrow> metadata \<Rightarrow> metadata) \<Rightarrow> (string \<Rightarrow> string \<Rightarrow> bool) \<Rightarrow>
    instant \<Rightarrow> ('t, 'o, 'v) message_context \<Rightarrow> metadata \<Rightarrow> metadata \<times> duration option" where
  "apply_to_tonic_request valid inject encodable now c req =
     (let ins = (\<lambda>(name, value) m. if encodable name value then hm_insert name value m else m);
          pairs = (if valid (open_telemetry c) then transport_metadata valid inject c
                   else List.map_filter (\<lambda>name. map_option (\<lambda>v. (name, v)) (map_of (metadata c) name))
                     [stream_id_header, trace_sampling_header]) in
      (fold ins pairs req, remaining now c))"

section \<open>Abandoned transport operations\<close>

text \<open>
  \<open>CompleteOnDrop\<close>: whether the future is still held and whether a poll is in progress (a poll that
  panics leaves the flag set), and the two effects of \<open>drop\<close>: the context is cancelled, the future
  is handed to a new task. A poll of a completed operation is the failed \<open>expect\<close>, \<open>None\<close>.
\<close>

datatype poll_outcome = Pending | Ready | Panicked

record complete_on_drop =
  future :: bool
  polling :: bool
  cancelled :: bool
  spawned :: nat

definition cod_new :: complete_on_drop where
  "cod_new = \<lparr>future = True, polling = False, cancelled = False, spawned = 0\<rparr>"

definition cod_poll :: "poll_outcome \<Rightarrow> complete_on_drop \<Rightarrow> complete_on_drop option" where
  "cod_poll r g =
     (if \<not> future g then None
      else let g1 = g\<lparr>polling := True\<rparr> in
        Some (case r of
            Panicked \<Rightarrow> g1
          | Pending \<Rightarrow> g1\<lparr>polling := False\<rparr>
          | Ready \<Rightarrow> g1\<lparr>polling := False, future := False\<rparr>))"

definition cod_drop :: "complete_on_drop \<Rightarrow> complete_on_drop" where
  "cod_drop g =
     (if future g
      then let g1 = g\<lparr>future := False, cancelled := True\<rparr> in
        if \<not> polling g1 then g1\<lparr>spawned := spawned g1 + 1\<rparr> else g1
      else g)"

fun cod_polls :: "poll_outcome list \<Rightarrow> complete_on_drop \<Rightarrow> complete_on_drop option" where
  "cod_polls [] g = Some g"
| "cod_polls (r # rs) g = (case cod_poll r g of None \<Rightarrow> None | Some g' \<Rightarrow> cod_polls rs g')"

section \<open>Stream ids\<close>

definition hex_char :: "nat \<Rightarrow> char" where
  "hex_char d = char_of (if d < 10 then 48 + d else 87 + d)"

text \<open>The format \<open>{:x}\<close>.\<close>

fun to_hex :: "nat \<Rightarrow> string" where
  "to_hex n = (if n < 16 then [hex_char n] else to_hex (n div 16) @ [hex_char (n mod 16)])"

declare to_hex.simps [simp del]

text \<open>The counter is an \<open>AtomicU64\<close>; \<open>fetch_add\<close> wraps around.\<close>

definition new_stream_id :: "nat \<Rightarrow> nat \<Rightarrow> string \<times> nat" where
  "new_stream_id timestamp sequence =
     (to_hex timestamp @ ''-'' @ to_hex sequence, (sequence + 1) mod 2 ^ 64)"

fun stream_ids :: "nat list \<Rightarrow> nat \<Rightarrow> string list" where
  "stream_ids [] n = []"
| "stream_ids (t # ts) n = (let (i, n') = new_stream_id t n in i # stream_ids ts n')"

section \<open>Derived contexts\<close>

datatype ('o, 'v) derivation =
  DChild | DTimeoutLimit instant duration | DLocalValue nat 'v | DMetadata metadata | DUntraced metadata
  | DStreamId string | DOpenTelemetry 'o | DSpan "'o option" | DSampling | DPriority int

fun derive :: "('t \<Rightarrow> 't) \<Rightarrow> (metadata \<Rightarrow> 'o) \<Rightarrow> ('o, 'v) derivation \<Rightarrow> ('t, 'o, 'v) message_context \<Rightarrow>
    ('t, 'o, 'v) message_context option" where
  "derive ct ex DChild c = Some (context_child ct c)"
| "derive ct ex (DTimeoutLimit now d) c = with_timeout_limit now d c"
| "derive ct ex (DLocalValue k v) c = Some (with_local_value k v c)"
| "derive ct ex (DMetadata m) c = Some (with_metadata ex m c)"
| "derive ct ex (DUntraced m) c = Some (with_metadata_untraced m c)"
| "derive ct ex (DStreamId i) c = Some (with_stream_id i c)"
| "derive ct ex (DOpenTelemetry o') c = Some (with_open_telemetry_context o' c)"
| "derive ct ex (DSpan sp) c = Some (with_span_context sp c)"
| "derive ct ex DSampling c = Some (enable_sampling c)"
| "derive ct ex (DPriority p) c = Some (with_priority p c)"

fun derives :: "('t \<Rightarrow> 't) \<Rightarrow> (metadata \<Rightarrow> 'o) \<Rightarrow> ('o, 'v) derivation list \<Rightarrow> ('t, 'o, 'v) message_context \<Rightarrow>
    ('t, 'o, 'v) message_context option" where
  "derives ct ex [] c = Some c"
| "derives ct ex (x # xs) c = (case derive ct ex x c of None \<Rightarrow> None | Some c' \<Rightarrow> derives ct ex xs c')"

text \<open>The last value bound to a key, and the deadlines asked for.\<close>

fun last_bound :: "nat \<Rightarrow> ('o, 'v) derivation list \<Rightarrow> 'v option \<Rightarrow> 'v option" where
  "last_bound k [] r = r"
| "last_bound k (DLocalValue j v # xs) r = last_bound k xs (if j = k then Some v else r)"
| "last_bound k (_ # xs) r = last_bound k xs r"

fun tightest :: "('o, 'v) derivation list \<Rightarrow> instant option \<Rightarrow> instant option" where
  "tightest [] d = d"
| "tightest (DTimeoutLimit now t # xs) d =
     tightest xs (Some (case d of None \<Rightarrow> now + t | Some e \<Rightarrow> min e (now + t)))"
| "tightest (_ # xs) d = tightest xs d"

lemmas context_defs = context_child_def with_timeout_limit_def with_local_value_def with_metadata_def
  with_metadata_untraced_def with_stream_id_def with_open_telemetry_context_def with_span_context_def
  enable_sampling_def with_priority_def

lemma derive_step:
  assumes "derive ct ex x c = Some c'"
  shows "deadline c' = tightest [x] (deadline c) \<and> local_value k c' = last_bound k [x] (local_value k c)"
  using assms
  by (cases x) (auto simp: context_defs local_value_def instant_add_def Let_def min_def
      split: option.splits if_splits)

lemma tightest_Cons: "tightest (x # xs) d = tightest xs (tightest [x] d)"
  by (cases x) simp_all

lemma last_bound_Cons: "last_bound k (x # xs) r = last_bound k xs (last_bound k [x] r)"
  by (cases x) simp_all

lemma derives_spec:
  "derives ct ex xs c = Some c' \<Longrightarrow>
     deadline c' = tightest xs (deadline c) \<and> local_value k c' = last_bound k xs (local_value k c)"
proof (induction xs arbitrary: c)
  case (Cons x xs)
  then obtain c1 where c1: "derive ct ex x c = Some c1" "derives ct ex xs c1 = Some c'"
    by (auto split: option.splits)
  from derive_step [OF c1(1), of k] Cons.IH [OF c1(2)] show ?case
    by (simp add: tightest_Cons [of x xs] last_bound_Cons [of k x xs])
qed simp

lemma tightest_le: "tightest xs (Some d) = Some e \<Longrightarrow> e \<le> d"
proof (induction xs arbitrary: d)
  case (Cons x xs)
  then show ?case by (cases x) (force simp: min_def split: if_splits)+
qed simp

lemma tightest_Some: "\<exists>e. tightest xs (Some d) = Some e"
proof (induction xs arbitrary: d)
  case (Cons x xs)
  then show ?case by (cases x) auto
qed simp

section \<open>Properties\<close>

text \<open>
  What a derived context keeps. For every sequence of derivations (\<open>child\<close>,
  \<open>with_timeout_limit\<close>, local values, metadata, stream id, spans, sampling, priority) the deadline is
  the smallest of the original one and those asked for, so a context derived from an expired one
  is expired; and a local value is the last one bound to its key, or the inherited one.
\<close>

theorem derived_context:
  assumes "derives child_token extract xs c = Some c'"
  shows "deadline c' = tightest xs (deadline c) \<and>
    (is_cancelled (\<lambda>_. False) now c \<longrightarrow> is_cancelled (\<lambda>_. False) now c') \<and>
    local_value k c' = last_bound k xs (local_value k c)"
proof -
  from derives_spec [OF assms, of k] have d: "deadline c' = tightest xs (deadline c)"
    and l: "local_value k c' = last_bound k xs (local_value k c)" by simp_all
  have "is_cancelled (\<lambda>_. False) now c \<longrightarrow> is_cancelled (\<lambda>_. False) now c'"
  proof (cases "deadline c")
    case (Some e)
    obtain e' where "tightest xs (Some e) = Some e'" using tightest_Some by blast
    with tightest_le [OF this] d Some show ?thesis by (simp add: is_cancelled_def)
  qed (simp add: is_cancelled_def)
  with d l show ?thesis by blast
qed

theorem derived_context_witness:
  "local_value 1 (the (derives (\<lambda>t. t) (\<lambda>m. ()) [DLocalValue 1 ''a'', DTimeoutLimit 5 10, DChild, DLocalValue 1 ''b'']
     (context_new () ()))) = Some ''b''"
  using derived_context [of "\<lambda>t. t" "\<lambda>m. ()" "[DLocalValue 1 ''a'', DTimeoutLimit 5 10, DChild, DLocalValue 1 ''b'']"
      "context_new () ()" "the (derives (\<lambda>t. t) (\<lambda>m. ())
        [DLocalValue 1 ''a'', DTimeoutLimit 5 10, DChild, DLocalValue 1 ''b''] (context_new () ()))" 0 1]
  by (simp add: with_timeout_limit_def instant_add_def instant_max_def with_local_value_def context_new_def)

text \<open>The propagator writes its own fields only.\<close>

definition propagator_fields :: "('o \<Rightarrow> metadata \<Rightarrow> metadata) \<Rightarrow> bool" where
  "propagator_fields inject \<longleftrightarrow> (\<forall>o' m h. h \<in> {stream_id_header, trace_sampling_header} \<longrightarrow>
     map_of (inject o' m) h = map_of m h)"

lemma headers_differ: "stream_id_header \<noteq> trace_sampling_header"
  by (simp add: stream_id_header_def trace_sampling_header_def)



text \<open>
  When a gRPC request panics. Building the context of a request panics exactly when its
  \<open>grpc-timeout\<close> header parses and the sum of the current instant and the timeout exceeds what an
  \<open>Instant\<close> can hold; the parser itself accepts any 64-bit number of hours, minutes or seconds.
\<close>

theorem grpc_timeout_panics_iff:
  "from_tonic_request tok otel extract now tracing es = None \<longleftrightarrow>
     (\<exists>v d. map_of (request_metadata tracing es) ''grpc-timeout'' = Some v \<and>
        parse_grpc_timeout v = Some d \<and> instant_max < now + d)"
  by (auto simp: from_tonic_request_def Let_def instant_add_def split: option.splits)

text \<open>Such a header: the largest number of seconds that parses.\<close>

lemma grpc_timeout_overflow:
  "from_tonic_request tok otel extract now True [Ascii ''grpc-timeout'' (Some ''18446744073709551615S'')] = None"
proof -
  have "parse_grpc_timeout ''18446744073709551615S'' = Some (18446744073709551615 * 10 ^ 9)"
    by (simp add: parse_grpc_timeout_def parse_u64_def dec_digit_def usize_max_def)
  moreover have "map_of (request_metadata True [Ascii ''grpc-timeout'' (Some ''18446744073709551615S'')]) ''grpc-timeout'' =
      Some ''18446744073709551615S''"
    by (simp add: request_metadata_def map_filter_simps)
  ultimately show ?thesis
    unfolding grpc_timeout_panics_iff by (simp add: instant_max_def)
qed

text \<open>
  An abandoned operation is finished once. A guarded operation polled any number of times and
  then dropped: if it had completed, dropping does nothing; if its last poll panicked, its context
  is cancelled and it is not resumed; otherwise its context is cancelled and it is handed to
  exactly one new task.
\<close>

theorem complete_on_drop_once:
  "map_option cod_drop (cod_polls (replicate n Pending @ rs) cod_new) =
     (case rs of
        [] \<Rightarrow> Some \<lparr>future = False, polling = False, cancelled = True, spawned = 1\<rparr>
      | [Ready] \<Rightarrow> Some \<lparr>future = False, polling = False, cancelled = False, spawned = 0\<rparr>
      | [Panicked] \<Rightarrow> Some \<lparr>future = False, polling = True, cancelled = True, spawned = 0\<rparr>
      | _ \<Rightarrow> map_option cod_drop (cod_polls rs cod_new))"
proof -
  have "cod_polls (replicate n Pending @ rs) cod_new = cod_polls rs cod_new"
    by (induction n) (simp_all add: cod_poll_def cod_new_def)
  then show ?thesis
    by (auto simp: cod_poll_def cod_new_def cod_drop_def split: list.split poll_outcome.split)
qed

lemma hex_char_code: "x < 16 \<Longrightarrow> (of_char (hex_char x) :: nat) = (if x < 10 then 48 + x else 87 + x)"
  by (simp add: hex_char_def)

lemma hex_char_inj:
  assumes "a < 16" and "b < 16" and "hex_char a = hex_char b"
  shows "a = b"
proof -
  have "(if a < 10 then 48 + a else 87 + a) = (if b < 10 then 48 + b else 87 + b)"
    unfolding hex_char_code [OF assms(1), symmetric] hex_char_code [OF assms(2), symmetric] assms(3) ..
  with assms(1,2) show ?thesis by (simp split: if_splits)
qed

lemma hex_char_dash: "d < 16 \<Longrightarrow> hex_char d \<noteq> CHR ''-''"
proof
  assume "d < 16" and "hex_char d = CHR ''-''"
  with hex_char_code [of d] show False by (auto split: if_splits)
qed

lemma to_hex_no_dash: "CHR ''-'' \<notin> set (to_hex n)"
proof (induction n rule: to_hex.induct)
  case (1 n)
  then show ?case
    using hex_char_dash [of n] hex_char_dash [of "n mod 16"] by (subst to_hex.simps) auto
qed

lemma to_hex_Nil [simp]: "to_hex n \<noteq> []" "[] \<noteq> to_hex n"
  by (subst to_hex.simps, simp)+

lemma to_hex_inj: "to_hex a = to_hex b \<Longrightarrow> a = b"
proof (induction a arbitrary: b rule: to_hex.induct)
  case (1 a)
  have a: "to_hex a = (if a < 16 then [hex_char a] else to_hex (a div 16) @ [hex_char (a mod 16)])"
    and b: "to_hex b = (if b < 16 then [hex_char b] else to_hex (b div 16) @ [hex_char (b mod 16)])"
    by (rule to_hex.simps)+
  show ?case
  proof (cases "a < 16 \<or> b < 16")
    case True
    with 1 a b show ?thesis by (auto split: if_splits dest: hex_char_inj)
  next
    case False
    with 1 a b have "to_hex (a div 16) = to_hex (b div 16)" "hex_char (a mod 16) = hex_char (b mod 16)"
      by auto
    with "1.IH" False have "a div 16 = b div 16" "a mod 16 = b mod 16"
      using hex_char_inj [of "a mod 16" "b mod 16"] by simp_all
    then show ?thesis by (metis div_mult_mod_eq)
  qed
qed

lemma stream_id_inj:
  "to_hex t @ ''-'' @ to_hex n = to_hex t' @ ''-'' @ to_hex n' \<Longrightarrow> n = n'"
  using to_hex_no_dash [of t] to_hex_no_dash [of n] to_hex_inj by (auto simp: append_Cons_eq_iff)

lemma stream_ids_nth:
  "n < 2 ^ 64 \<Longrightarrow> i < length ts \<Longrightarrow> stream_ids ts n ! i = to_hex (ts ! i) @ ''-'' @ to_hex ((n + i) mod 2 ^ 64)"
proof (induction ts arbitrary: n i)
  case (Cons t ts)
  show ?case
  proof (cases i)
    case 0
    with Cons.prems show ?thesis by (simp add: new_stream_id_def)
  next
    case (Suc j)
    with Cons.prems Cons.IH [of "(n + 1) mod 2 ^ 64" j] show ?thesis
      by (simp add: new_stream_id_def mod_add_left_eq)
  qed
qed simp

lemma mod_shift_neq: "i < j \<Longrightarrow> j < m \<Longrightarrow> (n + i) mod m \<noteq> (n + j) mod m" for i j m n :: nat
  using mod_eq_dvd_iff_nat [of "n + i" "n + j" m] nat_dvd_not_less [of "j - i" m] by auto

lemma length_stream_ids [simp]: "length (stream_ids ts n) = length ts"
  by (induction ts arbitrary: n) (simp_all add: new_stream_id_def)

text \<open>
  Stream ids are unique. Whatever the clock reads (it may stand still or go back), up to
  \<open>2 ^ 64\<close> consecutive calls of \<open>new_stream_id\<close> in a process return pairwise different ids, from
  any value of the counter on.
\<close>

theorem stream_ids_distinct:
  assumes "n < 2 ^ 64" and "length ts \<le> 2 ^ 64"
  shows "distinct (stream_ids ts n)"
  unfolding distinct_conv_nth length_stream_ids
proof (intro allI impI)
  fix i j assume ij: "i < length ts" "j < length ts" "i \<noteq> j"
  have "(n + i) mod 2 ^ 64 \<noteq> (n + j) mod 2 ^ 64"
    using ij assms(2) mod_shift_neq [of i j "2 ^ 64" n] mod_shift_neq [of j i "2 ^ 64" n]
    by (cases i j rule: linorder_cases) auto
  then show "stream_ids ts n ! i \<noteq> stream_ids ts n ! j"
    using stream_id_inj by (simp only: stream_ids_nth [OF assms(1) ij(1)] stream_ids_nth [OF assms(1) ij(2)]) blast
qed

theorem stream_ids_distinct_witness: "distinct (stream_ids [7, 7, 3] (2 ^ 64 - 1))"
  by (rule stream_ids_distinct) simp_all

end
