(* ===== verification/Runtime_Config.thy ===== *)
theory Runtime_Config
  imports Runtime_Prelude
begin

text \<open>
  The runtime configuration: the configuration data of \<open>src/runtime/config/mod.rs\<close> and
  \<open>RuntimeConfig\<close> of \<open>src/runtime/config/runtime.rs\<close>, which checks a configuration and indexes it.
  Fields of connectors, endpoints and streams that only the transports or the editor read
  (addresses, topics, positions, JSON properties) are left out; an error message is represented by
  its fixed text. The lemmas characterise the accepted configurations and the lookups.
\<close>

section \<open>Configuration data\<close>

datatype call_semantics =
  FunctionCall | ParallelCall | TaskPool string | PriorityTaskPool string int

definition semantics_is_async :: "call_semantics \<Rightarrow> bool" where
  "semantics_is_async c \<longleftrightarrow> c \<noteq> FunctionCall"

record service_config =
  svc_id :: int
  svc_name :: string
  svc_call_semantics :: call_semantics
  shutdown_timeout :: int

record pool_config =
  pool_name :: string
  executors_count :: nat
  queue_capacity :: nat

record link_config =
  link_from :: int
  link_to :: int
  link_semantics :: call_semantics
  link_async :: bool

record module_config =
  mod_name :: string
  mod_path :: string

record type_config =
  ty_name :: string
  ty_definition :: string

record stream_config =
  sc_id :: int
  sc_name :: string
  pipeline :: string
  component :: string
  id_source :: int
  id_sources :: "int list"
  id_service :: int

datatype join_type = Inner | Left | Right | Outer | Undefined

datatype runtime_stream_config =
    PlainCfg stream_config | ErrorCfg stream_config | MapCfg stream_config | FilterCfg stream_config
  | FlatMapCfg stream_config | FlatMapIterableCfg stream_config | KeyByCfg stream_config
  | MergeCfg stream_config | SplitCfg stream_config | CaseCfg stream_config | WhenCfg stream_config
  | CycleLinkCfg stream_config | InputCfg stream_config int | SubStreamCfg stream_config
  | ProcessCfg stream_config | DelayCfg stream_config duration | SinkCfg stream_config int
  | JoinCfg stream_config join_type duration bool | MultiJoinCfg stream_config duration bool

fun cfg_stream :: "runtime_stream_config \<Rightarrow> stream_config" where
  "cfg_stream (PlainCfg c) = c"
| "cfg_stream (ErrorCfg c) = c"
| "cfg_stream (MapCfg c) = c"
| "cfg_stream (FilterCfg c) = c"
| "cfg_stream (FlatMapCfg c) = c"
| "cfg_stream (FlatMapIterableCfg c) = c"
| "cfg_stream (KeyByCfg c) = c"
| "cfg_stream (MergeCfg c) = c"
| "cfg_stream (SplitCfg c) = c"
| "cfg_stream (CaseCfg c) = c"
| "cfg_stream (WhenCfg c) = c"
| "cfg_stream (CycleLinkCfg c) = c"
| "cfg_stream (InputCfg c _) = c"
| "cfg_stream (SubStreamCfg c) = c"
| "cfg_stream (ProcessCfg c) = c"
| "cfg_stream (DelayCfg c _) = c"
| "cfg_stream (SinkCfg c _) = c"
| "cfg_stream (JoinCfg c _ _ _) = c"
| "cfg_stream (MultiJoinCfg c _ _) = c"

fun cfg_endpoint_id :: "runtime_stream_config \<Rightarrow> int option" where
  "cfg_endpoint_id (InputCfg _ e) = Some e"
| "cfg_endpoint_id (SinkCfg _ e) = Some e"
| "cfg_endpoint_id _ = None"

datatype data_connector_type = HTTP | GRPC | Kafka | Cron | Temporal | Custom

record connector_base =
  dc_id :: int
  dc_name :: string

datatype data_connector =
    HttpConnector connector_base | GrpcConnector connector_base | KafkaConnector connector_base
  | CronConnector connector_base | TemporalConnector connector_base | CustomConnector connector_base

fun connector_base_of :: "data_connector \<Rightarrow> connector_base" where
  "connector_base_of (HttpConnector c) = c"
| "connector_base_of (GrpcConnector c) = c"
| "connector_base_of (KafkaConnector c) = c"
| "connector_base_of (CronConnector c) = c"
| "connector_base_of (TemporalConnector c) = c"
| "connector_base_of (CustomConnector c) = c"

fun connector_type :: "data_connector \<Rightarrow> data_connector_type" where
  "connector_type (HttpConnector _) = HTTP"
| "connector_type (GrpcConnector _) = GRPC"
| "connector_type (KafkaConnector _) = Kafka"
| "connector_type (CronConnector _) = Cron"
| "connector_type (TemporalConnector _) = Temporal"
| "connector_type (CustomConnector _) = Custom"

record endpoint_base =
  ep_id :: int
  ep_name :: string
  id_data_connector :: int
  tracing_enabled :: bool

text \<open>A cron endpoint has a time zone, a Temporal endpoint a schedule and a time zone.\<close>

datatype endpoint =
    HttpEndpoint endpoint_base | GrpcEndpoint endpoint_base | KafkaEndpoint endpoint_base
  | CronEndpoint endpoint_base string | TemporalEndpoint endpoint_base string string
  | CustomEndpoint endpoint_base

fun endpoint_base_of :: "endpoint \<Rightarrow> endpoint_base" where
  "endpoint_base_of (HttpEndpoint e) = e"
| "endpoint_base_of (GrpcEndpoint e) = e"
| "endpoint_base_of (KafkaEndpoint e) = e"
| "endpoint_base_of (CronEndpoint e _) = e"
| "endpoint_base_of (TemporalEndpoint e _ _) = e"
| "endpoint_base_of (CustomEndpoint e) = e"

fun endpoint_type :: "endpoint \<Rightarrow> data_connector_type" where
  "endpoint_type (HttpEndpoint _) = HTTP"
| "endpoint_type (GrpcEndpoint _) = GRPC"
| "endpoint_type (KafkaEndpoint _) = Kafka"
| "endpoint_type (CronEndpoint _ _) = Cron"
| "endpoint_type (TemporalEndpoint _ _ _) = Temporal"
| "endpoint_type (CustomEndpoint _) = Custom"

section \<open>The runtime configuration\<close>

record runtime_config =
  rc_default_semantics :: call_semantics
  services_by_id :: "(int \<times> service_config) list"
  services_by_name :: "(string \<times> service_config) list"
  streams_by_id :: "(int \<times> runtime_stream_config) list"
  streams_by_name :: "(string \<times> runtime_stream_config) list"
  pools_by_name :: "(string \<times> pool_config) list"
  connectors_by_id :: "(int \<times> data_connector) list"
  connectors_by_name :: "(string \<times> data_connector) list"
  endpoints_by_id :: "(int \<times> endpoint) list"
  endpoints_by_name :: "(string \<times> endpoint) list"
  rc_links :: "((int \<times> int) \<times> link_config) list"
  modules_by_name :: "(string \<times> module_config) list"
  types_by_name :: "(string \<times> type_config) list"

definition with_default_call_semantics :: "call_semantics \<Rightarrow> runtime_config" where
  "with_default_call_semantics c = \<lparr>rc_default_semantics = c, services_by_id = [], services_by_name = [],
     streams_by_id = [], streams_by_name = [], pools_by_name = [], connectors_by_id = [],
     connectors_by_name = [], endpoints_by_id = [], endpoints_by_name = [], rc_links = [],
     modules_by_name = [], types_by_name = []\<rparr>"

text \<open>
  The loops of \<open>from_parts\<close>: entries with an id and a name are inserted into both maps, entries
  with one key into one; an entry whose key is taken ends the loop.
\<close>

definition duplicate :: "string \<Rightarrow> 'a runtime_result" where
  "duplicate kind = Inl (InvalidConfiguration (''duplicate '' @ kind))"

fun insert_keyed :: "string \<Rightarrow> ('a \<Rightarrow> 'k) \<Rightarrow> 'a list \<Rightarrow> ('k \<times> 'a) list \<Rightarrow> ('k \<times> 'a) list runtime_result" where
  "insert_keyed kind f [] m = Inr m"
| "insert_keyed kind f (x # xs) m =
     (if map_of m (f x) \<noteq> None then duplicate kind else insert_keyed kind f xs (hm_insert (f x) x m))"

fun insert_named :: "string \<Rightarrow> ('a \<Rightarrow> int) \<Rightarrow> ('a \<Rightarrow> string) \<Rightarrow> ('a \<Rightarrow> runtime_error option) \<Rightarrow> 'a list \<Rightarrow>
    (int \<times> 'a) list \<times> (string \<times> 'a) list \<Rightarrow> ((int \<times> 'a) list \<times> (string \<times> 'a) list) runtime_result" where
  "insert_named kind f g chk [] (ids, names) = Inr (ids, names)"
| "insert_named kind f g chk (x # xs) (ids, names) =
     (if map_of ids (f x) \<noteq> None then duplicate (kind @ '' id'')
      else if map_of names (g x) \<noteq> None then duplicate (kind @ '' name'')
      else case chk x of
        Some e \<Rightarrow> Inl e
      | None \<Rightarrow> insert_named kind f g chk xs (hm_insert (f x) x ids, hm_insert (g x) x names))"

definition check_endpoint :: "(int \<times> data_connector) list \<Rightarrow> endpoint \<Rightarrow> runtime_error option" where
  "check_endpoint connectors e =
     (case map_of connectors (id_data_connector (endpoint_base_of e)) of
        None \<Rightarrow> Some (InvalidConfiguration ''endpoint references unknown data connector'')
      | Some c \<Rightarrow>
          if connector_type c \<noteq> endpoint_type e
          then Some (InvalidConfiguration ''endpoint type does not match data connector'')
          else case e of
            CronEndpoint _ tz \<Rightarrow>
              if tz \<noteq> ''UTC'' then Some (InvalidConfiguration ''Cron endpoint requires timezone UTC'') else None
          | TemporalEndpoint _ schedule tz \<Rightarrow>
              if schedule \<noteq> [] \<and> tz \<noteq> ''UTC''
              then Some (InvalidConfiguration ''scheduled Temporal endpoint requires timezone UTC'') else None
          | _ \<Rightarrow> None)"

fun semantics_pool :: "call_semantics \<Rightarrow> string option" where
  "semantics_pool (TaskPool p) = Some p"
| "semantics_pool (PriorityTaskPool p _) = Some p"
| "semantics_pool _ = None"

definition referenced_pools :: "runtime_config \<Rightarrow> call_semantics list" where
  "referenced_pools rt = rc_default_semantics rt #
     map (svc_call_semantics \<circ> snd) (services_by_id rt) @ map (link_semantics \<circ> snd) (rc_links rt)"

fun add_default_pools :: "call_semantics list \<Rightarrow> (string \<times> pool_config) list \<Rightarrow> (string \<times> pool_config) list" where
  "add_default_pools [] m = m"
| "add_default_pools (c # cs) m =
     (case semantics_pool c of
        None \<Rightarrow> add_default_pools cs m
      | Some p \<Rightarrow>
          add_default_pools cs
            (case map_of m p of
               Some _ \<Rightarrow> m
             | None \<Rightarrow> hm_insert p \<lparr>pool_name = p, executors_count = 1, queue_capacity = 0\<rparr> m))"

abbreviation bind_rt :: "'a runtime_result \<Rightarrow> ('a \<Rightarrow> 'b runtime_result) \<Rightarrow> 'b runtime_result" where
  "bind_rt r f \<equiv> (case r of Inl e \<Rightarrow> Inl e | Inr x \<Rightarrow> f x)"

definition from_parts :: "call_semantics \<Rightarrow> service_config list \<Rightarrow> runtime_stream_config list \<Rightarrow> pool_config list \<Rightarrow>
    data_connector list \<Rightarrow> endpoint list \<Rightarrow> link_config list \<Rightarrow> runtime_config runtime_result" where
  "from_parts sem services streams pools connectors endpoints links =
     bind_rt (insert_named ''service'' svc_id svc_name (\<lambda>_. None) services ([], [])) (\<lambda>(svi, svn).
     bind_rt (insert_named ''stream'' (sc_id \<circ> cfg_stream) (sc_name \<circ> cfg_stream) (\<lambda>_. None) streams ([], [])) (\<lambda>(sti, stn).
     bind_rt (insert_keyed ''pool name'' pool_name pools []) (\<lambda>ps.
     bind_rt (insert_named ''data connector'' (dc_id \<circ> connector_base_of) (dc_name \<circ> connector_base_of) (\<lambda>_. None)
       connectors ([], [])) (\<lambda>(dci, dcn).
     bind_rt (insert_named ''endpoint'' (ep_id \<circ> endpoint_base_of) (ep_name \<circ> endpoint_base_of) (check_endpoint dci)
       endpoints ([], [])) (\<lambda>(epi, epn).
     bind_rt (insert_keyed ''link'' (\<lambda>l. (link_from l, link_to l)) links []) (\<lambda>ls.
     let rt = (with_default_call_semantics sem)\<lparr>services_by_id := svi, services_by_name := svn,
       streams_by_id := sti, streams_by_name := stn, pools_by_name := ps, connectors_by_id := dci,
       connectors_by_name := dcn, endpoints_by_id := epi, endpoints_by_name := epn, rc_links := ls\<rparr> in
     Inr (rt\<lparr>pools_by_name := add_default_pools (referenced_pools rt) ps\<rparr>)))))))"

definition config_new :: "call_semantics \<Rightarrow> service_config list \<Rightarrow> runtime_stream_config list \<Rightarrow> pool_config list \<Rightarrow>
    data_connector list \<Rightarrow> endpoint list \<Rightarrow> link_config list \<Rightarrow> module_config list \<Rightarrow> type_config list \<Rightarrow>
    runtime_config runtime_result" where
  "config_new sem services streams pools connectors endpoints links modules types =
     bind_rt (from_parts sem services streams pools connectors endpoints links) (\<lambda>rt.
     bind_rt (insert_keyed ''module name'' mod_name modules (modules_by_name rt)) (\<lambda>ms.
     bind_rt (insert_keyed ''type name'' ty_name types (types_by_name rt)) (\<lambda>ts.
     Inr (rt\<lparr>modules_by_name := ms, types_by_name := ts\<rparr>))))"

section \<open>Lookups\<close>

definition service_by_id :: "runtime_config \<Rightarrow> int \<Rightarrow> service_config option" where
  "service_by_id rt i = map_of (services_by_id rt) i"

definition service_by_name :: "runtime_config \<Rightarrow> string \<Rightarrow> service_config option" where
  "service_by_name rt n = map_of (services_by_name rt) n"

definition stream_by_id :: "runtime_config \<Rightarrow> int \<Rightarrow> runtime_stream_config option" where
  "stream_by_id rt i = map_of (streams_by_id rt) i"

definition stream_by_name :: "runtime_config \<Rightarrow> string \<Rightarrow> runtime_stream_config option" where
  "stream_by_name rt n = map_of (streams_by_name rt) n"

definition pool_by_name :: "runtime_config \<Rightarrow> string \<Rightarrow> pool_config option" where
  "pool_by_name rt n = map_of (pools_by_name rt) n"

definition data_connector_by_id :: "runtime_config \<Rightarrow> int \<Rightarrow> data_connector option" where
  "data_connector_by_id rt i = map_of (connectors_by_id rt) i"

definition endpoint_by_id :: "runtime_config \<Rightarrow> int \<Rightarrow> endpoint option" where
  "endpoint_by_id rt i = map_of (endpoints_by_id rt) i"

definition config_link :: "runtime_config \<Rightarrow> int \<Rightarrow> int \<Rightarrow> link_config option" where
  "config_link rt a b = map_of (rc_links rt) (a, b)"

definition module_by_name :: "runtime_config \<Rightarrow> string \<Rightarrow> module_config option" where
  "module_by_name rt n = map_of (modules_by_name rt) n"

definition type_by_name :: "runtime_config \<Rightarrow> string \<Rightarrow> type_config option" where
  "type_by_name rt n = map_of (types_by_name rt) n"

section \<open>What the loops accept\<close>

abbreviation keyed :: "('a \<Rightarrow> 'k) \<Rightarrow> 'a list \<Rightarrow> ('k \<times> 'a) list" where
  "keyed f xs \<equiv> map (\<lambda>x. (f x, x)) xs"

lemma insert_keyed_iff:
  "insert_keyed kind f xs m = Inr r \<longleftrightarrow>
     distinct (map f xs) \<and> f ` set xs \<inter> dom (map_of m) = {} \<and> r = m @ keyed f xs"
proof (induction xs arbitrary: m)
  case (Cons x xs)
  then show ?case by (auto simp: duplicate_def hm_insert_new_append domIff)
qed auto

lemma insert_named_iff:
  "insert_named kind f g chk xs (ids, names) = Inr r \<longleftrightarrow>
     distinct (map f xs) \<and> distinct (map g xs) \<and> f ` set xs \<inter> dom (map_of ids) = {} \<and>
     g ` set xs \<inter> dom (map_of names) = {} \<and> list_all (\<lambda>x. chk x = None) xs \<and>
     r = (ids @ keyed f xs, names @ keyed g xs)"
proof (induction xs arbitrary: ids names)
  case (Cons x xs)
  then show ?case by (auto simp: duplicate_def hm_insert_new_append domIff split: option.splits)
qed auto

lemma keyed_lookup: "distinct (map f xs) \<Longrightarrow> map_of (keyed f xs) k = Some x \<longleftrightarrow> x \<in> set xs \<and> f x = k"
  by (subst map_of_eq_Some_iff) (auto simp: comp_def)

lemma add_default_pools_lookup:
  "map_of (add_default_pools cs m) p =
     (case map_of m p of
        Some c \<Rightarrow> Some c
      | None \<Rightarrow> if Some p \<in> semantics_pool ` set cs
          then Some \<lparr>pool_name = p, executors_count = 1, queue_capacity = 0\<rparr> else None)"
  by (induction cs m rule: add_default_pools.induct) (auto split: option.splits)

fun schedule_utc :: "endpoint \<Rightarrow> bool" where
  "schedule_utc (CronEndpoint _ tz) \<longleftrightarrow> tz = ''UTC''"
| "schedule_utc (TemporalEndpoint _ schedule tz) \<longleftrightarrow> schedule = [] \<or> tz = ''UTC''"
| "schedule_utc _ \<longleftrightarrow> True"

lemma pool_lookup:
  assumes "distinct (map pool_name pools)"
  shows "map_of (add_default_pools cs (keyed pool_name pools)) n = Some p \<longleftrightarrow>
    p \<in> set pools \<and> pool_name p = n \<or>
    n \<notin> pool_name ` set pools \<and> p = \<lparr>pool_name = n, executors_count = 1, queue_capacity = 0\<rparr> \<and>
      Some n \<in> semantics_pool ` set cs"
proof (cases "map_of (keyed pool_name pools) n")
  case None
  then have "n \<notin> pool_name ` set pools" by (auto simp: map_of_eq_None_iff image_comp comp_def)
  with None show ?thesis by (auto simp: add_default_pools_lookup)
next
  case (Some q)
  moreover from this have "q \<in> set pools" "pool_name q = n" using keyed_lookup [OF assms] by auto
  ultimately show ?thesis
    using keyed_lookup [OF assms, of n p] by (auto simp: add_default_pools_lookup)
qed

definition valid_parts :: "service_config list \<Rightarrow> runtime_stream_config list \<Rightarrow> pool_config list \<Rightarrow>
    data_connector list \<Rightarrow> endpoint list \<Rightarrow> link_config list \<Rightarrow> bool" where
  "valid_parts services streams pools connectors endpoints links \<longleftrightarrow>
     distinct (map svc_id services) \<and> distinct (map svc_name services) \<and>
     distinct (map (sc_id \<circ> cfg_stream) streams) \<and> distinct (map (sc_name \<circ> cfg_stream) streams) \<and>
     distinct (map pool_name pools) \<and>
     distinct (map (dc_id \<circ> connector_base_of) connectors) \<and> distinct (map (dc_name \<circ> connector_base_of) connectors) \<and>
     distinct (map (ep_id \<circ> endpoint_base_of) endpoints) \<and> distinct (map (ep_name \<circ> endpoint_base_of) endpoints) \<and>
     distinct (map (\<lambda>l. (link_from l, link_to l)) links) \<and>
     list_all (\<lambda>e. \<exists>c \<in> set connectors. dc_id (connector_base_of c) = id_data_connector (endpoint_base_of e) \<and>
       connector_type c = endpoint_type e) endpoints \<and>
     list_all schedule_utc endpoints"

lemma check_endpoint_found:
  "map_of connectors (id_data_connector (endpoint_base_of e)) = Some c \<Longrightarrow>
     check_endpoint connectors e = None \<longleftrightarrow> connector_type c = endpoint_type e \<and> schedule_utc e"
  by (cases e) (simp_all add: check_endpoint_def)

lemma check_endpoint_iff:
  assumes "distinct (map (dc_id \<circ> connector_base_of) connectors)"
  shows "check_endpoint (keyed (dc_id \<circ> connector_base_of) connectors) e = None \<longleftrightarrow>
    (\<exists>c \<in> set connectors. dc_id (connector_base_of c) = id_data_connector (endpoint_base_of e) \<and>
      connector_type c = endpoint_type e) \<and> schedule_utc e"
proof (cases "map_of (keyed (dc_id \<circ> connector_base_of) connectors) (id_data_connector (endpoint_base_of e))")
  case None
  then have "\<forall>c \<in> set connectors. dc_id (connector_base_of c) \<noteq> id_data_connector (endpoint_base_of e)"
    by (force simp: map_of_eq_None_iff)
  with None show ?thesis by (auto simp: check_endpoint_def)
next
  case (Some c)
  then have c: "c \<in> set connectors" "dc_id (connector_base_of c) = id_data_connector (endpoint_base_of e)"
    using keyed_lookup [OF assms] by auto
  have u: "d = c" if "d \<in> set connectors" "dc_id (connector_base_of d) = id_data_connector (endpoint_base_of e)" for d
    using keyed_lookup [OF assms, of "id_data_connector (endpoint_base_of e)" d] Some that by simp
  show ?thesis unfolding check_endpoint_found [OF Some] using c u by blast
qed

text \<open>The configuration that \<open>from_parts\<close> builds from valid parts.\<close>

definition indexed :: "call_semantics \<Rightarrow> service_config list \<Rightarrow> runtime_stream_config list \<Rightarrow> pool_config list \<Rightarrow>
    data_connector list \<Rightarrow> endpoint list \<Rightarrow> link_config list \<Rightarrow> runtime_config" where
  "indexed sem services streams pools connectors endpoints links =
     (let rt = (with_default_call_semantics sem)\<lparr>services_by_id := keyed svc_id services,
       services_by_name := keyed svc_name services, streams_by_id := keyed (sc_id \<circ> cfg_stream) streams,
       streams_by_name := keyed (sc_name \<circ> cfg_stream) streams, pools_by_name := keyed pool_name pools,
       connectors_by_id := keyed (dc_id \<circ> connector_base_of) connectors,
       connectors_by_name := keyed (dc_name \<circ> connector_base_of) connectors,
       endpoints_by_id := keyed (ep_id \<circ> endpoint_base_of) endpoints,
       endpoints_by_name := keyed (ep_name \<circ> endpoint_base_of) endpoints,
       rc_links := keyed (\<lambda>l. (link_from l, link_to l)) links\<rparr> in
     rt\<lparr>pools_by_name := add_default_pools (referenced_pools rt) (keyed pool_name pools)\<rparr>)"

lemma indexed_sel:
  "services_by_id (indexed sem services streams pools connectors endpoints links) = keyed svc_id services"
  "services_by_name (indexed sem services streams pools connectors endpoints links) = keyed svc_name services"
  "streams_by_id (indexed sem services streams pools connectors endpoints links) = keyed (sc_id \<circ> cfg_stream) streams"
  "streams_by_name (indexed sem services streams pools connectors endpoints links) = keyed (sc_name \<circ> cfg_stream) streams"
  "connectors_by_id (indexed sem services streams pools connectors endpoints links) = keyed (dc_id \<circ> connector_base_of) connectors"
  "endpoints_by_id (indexed sem services streams pools connectors endpoints links) = keyed (ep_id \<circ> endpoint_base_of) endpoints"
  "rc_links (indexed sem services streams pools connectors endpoints links) = keyed (\<lambda>l. (link_from l, link_to l)) links"
  "pools_by_name (indexed sem services streams pools connectors endpoints links) =
     add_default_pools (sem # map svc_call_semantics services @ map link_semantics links) (keyed pool_name pools)"
  by (simp_all add: indexed_def Let_def referenced_pools_def with_default_call_semantics_def comp_def
      del: add_default_pools.simps)

lemma bind_rt_Inr: "bind_rt r f = Inr y \<longleftrightarrow> (\<exists>x. r = Inr x \<and> f x = Inr y)"
  by (auto split: sum.splits)

lemma from_parts_iff:
  "from_parts sem services streams pools connectors endpoints links = Inr rt \<longleftrightarrow>
     valid_parts services streams pools connectors endpoints links \<and>
     rt = indexed sem services streams pools connectors endpoints links"
proof (cases "distinct (map (dc_id \<circ> connector_base_of) connectors)")
  case True
  note chk = check_endpoint_iff [OF True, unfolded comp_apply]
  show ?thesis
    unfolding from_parts_def bind_rt_Inr split_paired_Ex prod.case insert_named_iff insert_keyed_iff
    by (auto simp: valid_parts_def indexed_def chk list_all_iff Let_def)
next
  case False
  then show ?thesis
    unfolding from_parts_def bind_rt_Inr split_paired_Ex prod.case insert_named_iff insert_keyed_iff
    by (auto simp: valid_parts_def)
qed

lemma valid_distinct:
  assumes "valid_parts services streams pools connectors endpoints links"
  shows "distinct (map svc_id services)" "distinct (map svc_name services)"
    "distinct (map (sc_id \<circ> cfg_stream) streams)" "distinct (map (sc_name \<circ> cfg_stream) streams)"
    "distinct (map pool_name pools)" "distinct (map (dc_id \<circ> connector_base_of) connectors)"
    "distinct (map (ep_id \<circ> endpoint_base_of) endpoints)" "distinct (map (\<lambda>l. (link_from l, link_to l)) links)"
  using assms by (simp_all add: valid_parts_def)

lemmas lookup_defs = service_by_id_def service_by_name_def stream_by_id_def stream_by_name_def
  pool_by_name_def data_connector_by_id_def endpoint_by_id_def config_link_def

section \<open>Properties\<close>

text \<open>
  C31. A configuration is accepted exactly when it is valid: ids and names are unique within their
  kind, no two links join the same pair of streams, every endpoint refers to a configured connector
  of its own type, and scheduled endpoints use UTC.
\<close>

theorem config_accepts_iff:
  "(\<exists>rt. from_parts sem services streams pools connectors endpoints links = Inr rt) \<longleftrightarrow>
     valid_parts services streams pools connectors endpoints links"
  by (simp add: from_parts_iff)

text \<open>
  In an accepted configuration every lookup by id, by name or by link finds exactly the
  configured entry; a pool lookup finds the configured pool or else, for a pool that only some call
  semantics mentions, a pool with one executor and no queue bound; and the connector of every
  endpoint is found and has the endpoint's type.
\<close>

theorem config_lookups:
  assumes "from_parts sem services streams pools connectors endpoints links = Inr rt"
  shows "(service_by_id rt i = Some sv \<longleftrightarrow> sv \<in> set services \<and> svc_id sv = i) \<and>
    (service_by_name rt n = Some sv \<longleftrightarrow> sv \<in> set services \<and> svc_name sv = n) \<and>
    (stream_by_id rt i = Some st \<longleftrightarrow> st \<in> set streams \<and> sc_id (cfg_stream st) = i) \<and>
    (stream_by_name rt n = Some st \<longleftrightarrow> st \<in> set streams \<and> sc_name (cfg_stream st) = n) \<and>
    (config_link rt a b = Some l \<longleftrightarrow> l \<in> set links \<and> link_from l = a \<and> link_to l = b) \<and>
    (endpoint_by_id rt i = Some ep \<longleftrightarrow> ep \<in> set endpoints \<and> ep_id (endpoint_base_of ep) = i) \<and>
    (pool_by_name rt n = Some p \<longleftrightarrow> p \<in> set pools \<and> pool_name p = n \<or>
       n \<notin> pool_name ` set pools \<and> p = \<lparr>pool_name = n, executors_count = 1, queue_capacity = 0\<rparr> \<and>
       Some n \<in> semantics_pool ` insert sem (svc_call_semantics ` set services \<union> link_semantics ` set links)) \<and>
    list_all (\<lambda>e. map_option connector_type (data_connector_by_id rt (id_data_connector (endpoint_base_of e))) =
      Some (endpoint_type e)) endpoints"
proof -
  from assms have v: "valid_parts services streams pools connectors endpoints links"
    and rt: "rt = indexed sem services streams pools connectors endpoints links"
    by (simp_all add: from_parts_iff)
  note look = keyed_lookup [OF valid_distinct(1) [OF v]] keyed_lookup [OF valid_distinct(2) [OF v]]
    keyed_lookup [OF valid_distinct(3) [OF v], unfolded comp_apply] keyed_lookup [OF valid_distinct(4) [OF v], unfolded comp_apply]
    keyed_lookup [OF valid_distinct(7) [OF v], unfolded comp_apply] keyed_lookup [OF valid_distinct(8) [OF v]]
  have pools: "pool_by_name rt n = Some p \<longleftrightarrow> p \<in> set pools \<and> pool_name p = n \<or>
       n \<notin> pool_name ` set pools \<and> p = \<lparr>pool_name = n, executors_count = 1, queue_capacity = 0\<rparr> \<and>
       Some n \<in> semantics_pool ` insert sem (svc_call_semantics ` set services \<union> link_semantics ` set links)"
    unfolding rt pool_by_name_def indexed_sel pool_lookup [OF valid_distinct(5) [OF v]] by simp
  have "map_option connector_type (data_connector_by_id rt (id_data_connector (endpoint_base_of e))) = Some (endpoint_type e)"
    if "e \<in> set endpoints" for e
  proof -
    obtain c where c: "c \<in> set connectors" "dc_id (connector_base_of c) = id_data_connector (endpoint_base_of e)"
      "connector_type c = endpoint_type e"
      using v \<open>e \<in> set endpoints\<close> by (auto simp: valid_parts_def list_all_iff)
    then have "data_connector_by_id rt (id_data_connector (endpoint_base_of e)) = Some c"
      using keyed_lookup [OF valid_distinct(6) [OF v]]
      by (simp add: rt indexed_sel data_connector_by_id_def)
    with c(3) show ?thesis by simp
  qed
  then show ?thesis
    using pools by (simp add: rt indexed_sel lookup_defs look list_all_iff)
qed

definition sample_config :: "runtime_config" where
  "sample_config = (case from_parts (TaskPool ''shared'')
     [\<lparr>svc_id = 1, svc_name = ''orders'', svc_call_semantics = PriorityTaskPool ''fast'' 3, shutdown_timeout = 30000\<rparr>]
     [PlainCfg \<lparr>sc_id = 10, sc_name = ''in'', pipeline = [], component = [], id_source = 0, id_sources = [], id_service = 1\<rparr>]
     [\<lparr>pool_name = ''fast'', executors_count = 4, queue_capacity = 0\<rparr>]
     [CronConnector \<lparr>dc_id = 5, dc_name = ''cron''\<rparr>]
     [CronEndpoint \<lparr>ep_id = 6, ep_name = ''tick'', id_data_connector = 5, tracing_enabled = False\<rparr> ''UTC'']
     [\<lparr>link_from = 10, link_to = 11, link_semantics = ParallelCall, link_async = False\<rparr>] of Inr rt \<Rightarrow> rt)"

theorem config_lookups_witness:
  "pool_by_name sample_config ''shared'' = Some \<lparr>pool_name = ''shared'', executors_count = 1, queue_capacity = 0\<rparr> \<and>
   pool_by_name sample_config ''fast'' = Some \<lparr>pool_name = ''fast'', executors_count = 4, queue_capacity = 0\<rparr>"
proof -
  have "from_parts (TaskPool ''shared'')
     [\<lparr>svc_id = 1, svc_name = ''orders'', svc_call_semantics = PriorityTaskPool ''fast'' 3, shutdown_timeout = 30000\<rparr>]
     [PlainCfg \<lparr>sc_id = 10, sc_name = ''in'', pipeline = [], component = [], id_source = 0, id_sources = [], id_service = 1\<rparr>]
     [\<lparr>pool_name = ''fast'', executors_count = 4, queue_capacity = 0\<rparr>]
     [CronConnector \<lparr>dc_id = 5, dc_name = ''cron''\<rparr>]
     [CronEndpoint \<lparr>ep_id = 6, ep_name = ''tick'', id_data_connector = 5, tracing_enabled = False\<rparr> ''UTC'']
     [\<lparr>link_from = 10, link_to = 11, link_semantics = ParallelCall, link_async = False\<rparr>] = Inr sample_config"
    by (simp add: sample_config_def from_parts_def check_endpoint_def Let_def)
  from config_lookups [OF this] show ?thesis by simp
qed

end
