(* ===== verification/Join_Storage.thy ===== *)
theory Join_Storage
  imports Runtime_Config
begin

text \<open>
  \<open>HashMapJoinStorage\<close> of \<open>src/runtime/store/hashmap.rs\<close>, the per-key state of joins, and the
  decision of \<open>JoinStream::call_function\<close> (\<open>src/operators/join.rs\<close>). Entries live in a heap and are
  compared by address (\<open>Arc::ptr_eq\<close>); every \<open>join_value\<close> call is a task that admits an entry,
  waits for its lock, adds its value, runs the callback under the lock and removes the entry when
  the callback asks for it; every accepted group with a positive TTL has a timer. One action of
  \<open>js_step\<close> is what happens between two points where a task or timer can be descheduled, so a
  sequence of actions is an arbitrary interleaving. The lemmas show that a group is completed at
  most once and with all its values, that no value is lost before its group, that the gauge counts
  the stored keys, and when the \<open>expect\<close> on the deadline can fail.

  The values of the callbacks are inputs of the actions. Deadlines are assumed not to overflow the
  clock. A context with a deadline may be cancelled at any time.
\<close>

section \<open>Data\<close>

type_synonym addr = nat

record ('k, 'v) jentry =
  ekey :: 'k
  jvalues :: "'v list list"
  processed :: bool
  generation :: nat
  expiry :: "nat option"
  edeadline :: "instant option"
  locked :: bool

datatype task_phase =
  Admit | Waiting addr | Retire addr | Invoking addr | Remove addr | Finished addr | Failed addr

record ('k, 'v) jtask =
  tkey :: 'k
  tindex :: nat
  tvalue :: 'v
  tdeadline :: "instant option"
  ttl :: duration
  renew :: bool
  phase :: task_phase

datatype timer_phase = Armed instant | Evict | TimerDone

record 'k jtimer =
  rkey :: 'k
  raddr :: addr
  rgeneration :: nat
  rdeadline :: "instant option"
  rcancelled :: bool
  rphase :: timer_phase

record ('k, 'v) jstore =
  now :: instant
  items :: "('k \<times> addr) list"
  heap :: "('k, 'v) jentry list"
  tasks :: "('k, 'v) jtask list"
  timers :: "'k jtimer list"
  jcount :: int
  evictions :: nat
  completions :: "(addr \<times> 'v list list) list"
  js_started :: bool
  js_stopped :: bool

definition js_new :: "('k, 'v) jstore" where
  "js_new = \<lparr>now = 0, items = [], heap = [], tasks = [], timers = [], jcount = 0, evictions = 0,
     completions = [], js_started = False, js_stopped = False\<rparr>"

section \<open>Configuration and life cycle\<close>

text \<open>The settings of \<open>from_stream\<close>, read from the current runtime configuration at every call.\<close>

definition join_config :: "runtime_config \<Rightarrow> int \<Rightarrow> duration \<times> bool" where
  "join_config rt stream_id =
     (case stream_by_id rt stream_id of
        None \<Rightarrow> (0, False)
      | Some (JoinCfg _ _ t r) \<Rightarrow> (t, r)
      | Some (MultiJoinCfg _ t r) \<Rightarrow> (t, r)
      | Some _ \<Rightarrow> (0, False))"

definition js_start :: "('k, 'v) jstore \<Rightarrow> unit runtime_result \<times> ('k, 'v) jstore" where
  "js_start s =
     (if js_stopped s then (Inl (ResourceStopped ''hashmap join storage''), s)
      else if js_started s then (Inl (ResourceAlreadyStarted ''hashmap join storage''), s)
      else (Inr (), s\<lparr>js_started := True\<rparr>))"

definition js_stop :: "('k, 'v) jstore \<Rightarrow> ('k, 'v) jstore" where
  "js_stop s = s\<lparr>js_stopped := True\<rparr>"

section \<open>Steps of a call\<close>

definition expired :: "instant \<Rightarrow> ('k, 'v) jentry \<Rightarrow> bool" where
  "expired t e = (case edeadline e of None \<Rightarrow> False | Some d \<Rightarrow> d \<le> t)"

text \<open>The start of \<open>join_value_with\<close>: the settings are read once.\<close>

definition spawn_call :: "'k \<Rightarrow> nat \<Rightarrow> 'v \<Rightarrow> instant option \<Rightarrow> duration \<times> bool \<Rightarrow> ('k, 'v) jstore \<Rightarrow> ('k, 'v) jstore" where
  "spawn_call k i v dl cfg s =
     s\<lparr>tasks := tasks s @ [\<lparr>tkey = k, tindex = i, tvalue = v, tdeadline = dl,
        ttl = (case dl of None \<Rightarrow> fst cfg | Some d \<Rightarrow> d - now s), renew = snd cfg, phase = Admit\<rparr>]\<rparr>"

definition set_phase :: "nat \<Rightarrow> task_phase \<Rightarrow> ('k, 'v) jstore \<Rightarrow> ('k, 'v) jstore" where
  "set_phase n p s = s\<lparr>tasks := (tasks s)[n := (tasks s ! n)\<lparr>phase := p\<rparr>]\<rparr>"

definition set_entry :: "addr \<Rightarrow> ('k, 'v) jentry \<Rightarrow> ('k, 'v) jstore \<Rightarrow> ('k, 'v) jstore" where
  "set_entry a e s = s\<lparr>heap := (heap s)[a := e]\<rparr>"

definition remove_if_same :: "'k \<Rightarrow> addr \<Rightarrow> ('k, 'v) jstore \<Rightarrow> ('k, 'v) jstore" where
  "remove_if_same k a s =
     (if map_of (items s) k = Some a then s\<lparr>items := hm_remove k (items s), jcount := jcount s - 1\<rparr> else s)"

definition admit :: "nat \<Rightarrow> ('k, 'v) jstore \<Rightarrow> ('k, 'v) jstore" where
  "admit n s =
     (let t = tasks s ! n; k = tkey t in
      case map_of (items s) k of
        Some a \<Rightarrow>
          if \<not> expired (now s) (heap s ! a) then set_phase n (Waiting a) s
          else set_phase n (Waiting (length (heap s))) (s\<lparr>
            heap := heap s @ [\<lparr>ekey = k, jvalues = [], processed = False, generation = 0, expiry = None,
              edeadline = (if ttl t > 0 then Some (now s + ttl t) else None), locked = False\<rparr>],
            items := hm_insert k (length (heap s)) (items s)\<rparr>)
      | None \<Rightarrow>
          set_phase n (Waiting (length (heap s))) (s\<lparr>
            heap := heap s @ [\<lparr>ekey = k, jvalues = [], processed = False, generation = 0, expiry = None,
              edeadline = (if ttl t > 0 then Some (now s + ttl t) else None), locked = False\<rparr>],
            items := hm_insert k (length (heap s)) (items s), jcount := jcount s + 1\<rparr>))"

text \<open>\<open>resize_with(index + 1, Vec::new)\<close> where needed, and \<open>values[index].push(value)\<close>.\<close>

definition push_value :: "nat \<Rightarrow> 'v \<Rightarrow> 'v list list \<Rightarrow> 'v list list" where
  "push_value i v vs =
     (let vs' = (if length vs \<le> i then vs @ replicate (i + 1 - length vs) [] else vs) in
      vs'[i := vs' ! i @ [v]])"

text \<open>
  With the lock of entry \<open>a\<close>: retry on a processed or expired entry, else add the value; the first
  value of a group arms its timer. \<open>None\<close> means the lock is taken.
\<close>

definition enter :: "nat \<Rightarrow> addr \<Rightarrow> ('k, 'v) jstore \<Rightarrow> ('k, 'v) jstore option" where
  "enter n a s =
     (let t = tasks s ! n; e = heap s ! a in
      if locked e then None
      else if processed e \<or> expired (now s) e then Some (set_phase n (Retire a) s)
      else let first_value = (jvalues e = []);
               e1 = e\<lparr>jvalues := push_value (tindex t) (tvalue t) (jvalues e)\<rparr> in
        if \<not> first_value then Some (set_phase n (Invoking a) (set_entry a (e1\<lparr>locked := True\<rparr>) s))
        else let g = (generation e + 1) mod 2 ^ 64; e2 = e1\<lparr>generation := g\<rparr> in
          if ttl t = 0 then Some (set_phase n (Invoking a) (set_entry a (e2\<lparr>locked := True\<rparr>) s))
          else let r = length (timers s); e3 = e2\<lparr>expiry := Some r\<rparr> in
            (case edeadline e of
               None \<Rightarrow>
                 Some (set_phase n (Failed a) (set_entry a e3 (s\<lparr>timers := timers s @
                   [\<lparr>rkey = tkey t, raddr = a, rgeneration = g, rdeadline = tdeadline t, rcancelled = False, rphase = TimerDone\<rparr>]\<rparr>)))
             | Some d \<Rightarrow>
                 Some (set_phase n (Invoking a) (set_entry a (e3\<lparr>locked := True\<rparr>) (s\<lparr>timers := timers s @
                   [\<lparr>rkey = tkey t, raddr = a, rgeneration = g, rdeadline = tdeadline t, rcancelled = False, rphase = Armed d\<rparr>]\<rparr>)))))"

definition cancel_timer :: "nat option \<Rightarrow> 'k jtimer list \<Rightarrow> 'k jtimer list" where
  "cancel_timer r ts = (case r of None \<Rightarrow> ts | Some i \<Rightarrow> ts[i := (ts ! i)\<lparr>rcancelled := True\<rparr>])"

text \<open>The callback returns \<open>b\<close>; the lock is released at the end of the block.\<close>

definition leave :: "nat \<Rightarrow> addr \<Rightarrow> bool \<Rightarrow> ('k, 'v) jstore \<Rightarrow> ('k, 'v) jstore" where
  "leave n a b s =
     (let t = tasks s ! n; e = heap s ! a in
      if b then
        set_phase n (Remove a) (set_entry a (e\<lparr>processed := True, expiry := None, locked := False\<rparr>)
          (s\<lparr>timers := cancel_timer (expiry e) (timers s), completions := completions s @ [(a, jvalues e)]\<rparr>))
      else
        set_phase n (Finished a) (set_entry a
          (e\<lparr>processed := False, edeadline := (if renew t then Some (now s + ttl t) else edeadline e), locked := False\<rparr>) s))"

section \<open>Steps of a timer\<close>

definition set_timer :: "nat \<Rightarrow> timer_phase \<Rightarrow> ('k, 'v) jstore \<Rightarrow> ('k, 'v) jstore" where
  "set_timer n p s = s\<lparr>timers := (timers s)[n := (timers s ! n)\<lparr>rphase := p\<rparr>]\<rparr>"

definition timer_wakes :: "instant \<Rightarrow> 'k jtimer \<Rightarrow> instant \<Rightarrow> bool" where
  "timer_wakes t r wake \<longleftrightarrow> (case rdeadline r of Some _ \<Rightarrow> True | None \<Rightarrow> wake \<le> t)"

definition timer_fire :: "nat \<Rightarrow> instant \<Rightarrow> ('k, 'v) jstore \<Rightarrow> ('k, 'v) jstore option" where
  "timer_fire n wake s =
     (let r = timers s ! n; a = raddr r; e = heap s ! a in
      if rcancelled r then Some (set_timer n TimerDone s)
      else if \<not> timer_wakes (now s) r wake then None
      else if locked e then None
      else if processed e \<or> generation e \<noteq> rgeneration r then Some (set_timer n TimerDone s)
      else case (rdeadline r, edeadline e) of
          (None, Some d) \<Rightarrow>
            if d > now s then Some (set_timer n (Armed d) s)
            else Some (set_timer n Evict (set_entry a (e\<lparr>processed := True, expiry := None\<rparr>)
              (s\<lparr>completions := completions s @ [(a, jvalues e)]\<rparr>)))
        | _ \<Rightarrow>
            Some (set_timer n Evict (set_entry a (e\<lparr>processed := True, expiry := None\<rparr>)
              (s\<lparr>completions := completions s @ [(a, jvalues e)]\<rparr>))))"

definition timer_evict :: "nat \<Rightarrow> ('k, 'v) jstore \<Rightarrow> ('k, 'v) jstore" where
  "timer_evict n s =
     (let r = timers s ! n in
      set_timer n TimerDone
        (if map_of (items s) (rkey r) = Some (raddr r)
         then (remove_if_same (rkey r) (raddr r) s)\<lparr>evictions := evictions s + 1\<rparr> else s))"

section \<open>Interleavings\<close>

datatype ('k, 'v) jaction =
  Call 'k nat 'v "instant option" "duration \<times> bool" | TaskStep nat bool | TimerStep nat | Tick duration

fun js_step :: "('k, 'v) jaction \<Rightarrow> ('k, 'v) jstore \<Rightarrow> ('k, 'v) jstore option" where
  "js_step (Call k i v dl cfg) s = Some (spawn_call k i v dl cfg s)"
| "js_step (Tick d) s = Some (s\<lparr>now := now s + d\<rparr>)"
| "js_step (TaskStep n b) s =
     (if n < length (tasks s) then
        (case phase (tasks s ! n) of
           Admit \<Rightarrow> Some (admit n s)
         | Waiting a \<Rightarrow> enter n a s
         | Retire a \<Rightarrow> Some (set_phase n Admit (remove_if_same (tkey (tasks s ! n)) a s))
         | Invoking a \<Rightarrow> Some (leave n a b s)
         | Remove a \<Rightarrow> Some (set_phase n (Finished a) (remove_if_same (tkey (tasks s ! n)) a s))
         | Finished a \<Rightarrow> None
         | Failed a \<Rightarrow> None)
      else None)"
| "js_step (TimerStep n) s =
     (if n < length (timers s) then
        (case rphase (timers s ! n) of
           Armed wake \<Rightarrow> timer_fire n wake s
         | Evict \<Rightarrow> Some (timer_evict n s)
         | TimerDone \<Rightarrow> None)
      else None)"

fun js_run :: "('k, 'v) jaction list \<Rightarrow> ('k, 'v) jstore \<Rightarrow> ('k, 'v) jstore option" where
  "js_run [] s = Some s"
| "js_run (x # xs) s = (case js_step x s of None \<Rightarrow> None | Some s' \<Rightarrow> js_run xs s')"

section \<open>The join decision\<close>

definition side :: "'v list list \<Rightarrow> nat \<Rightarrow> 'v list" where
  "side vs i = (if i < length vs then vs ! i else [])"

text \<open>The join type of the stream's current configuration.\<close>

definition join_type_of :: "runtime_stream_config \<Rightarrow> join_type" where
  "join_type_of c = (case c of JoinCfg _ jt _ _ \<Rightarrow> jt | _ \<Rightarrow> Undefined)"

definition can_call :: "join_type \<Rightarrow> 'v list list \<Rightarrow> bool" where
  "can_call jt vs =
     (case jt of
        Inner \<Rightarrow> side vs 0 \<noteq> [] \<and> side vs 1 \<noteq> []
      | Left \<Rightarrow> side vs 0 \<noteq> []
      | Right \<Rightarrow> side vs 1 \<noteq> []
      | Outer \<Rightarrow> True
      | Undefined \<Rightarrow> False)"

text \<open>\<open>f\<close> is the business function, which receives both sides.\<close>

definition call_function :: "runtime_stream_config \<Rightarrow> ('k \<Rightarrow> 'v list \<Rightarrow> 'v list \<Rightarrow> bool) \<Rightarrow> 'k \<Rightarrow> 'v list list \<Rightarrow> bool" where
  "call_function c f k vs = (if \<not> can_call (join_type_of c) vs then False else f k (side vs 0) (side vs 1))"

text \<open>\<open>MultiJoinStream::call_function\<close>: the left input must have a value.\<close>

definition multi_call_function :: "('k \<Rightarrow> 'v list list \<Rightarrow> bool) \<Rightarrow> 'k \<Rightarrow> 'v list list \<Rightarrow> bool" where
  "multi_call_function f k vs = (if side vs 0 = [] then False else f k vs)"

section \<open>The invariant\<close>

definition entry_le :: "('k, 'v) jentry \<Rightarrow> ('k, 'v) jentry \<Rightarrow> bool" where
  "entry_le e e' \<longleftrightarrow> ekey e' = ekey e \<and> (\<forall>i. set (side (jvalues e) i) \<subseteq> set (side (jvalues e') i)) \<and>
     (processed e \<longrightarrow> processed e' \<and> jvalues e' = jvalues e)"

definition heap_le :: "('k, 'v) jentry list \<Rightarrow> ('k, 'v) jentry list \<Rightarrow> bool" where
  "heap_le h h' \<longleftrightarrow> length h \<le> length h' \<and> (\<forall>a < length h. entry_le (h ! a) (h' ! a))"

definition items_inv :: "('k \<times> addr) list \<Rightarrow> int \<Rightarrow> ('k, 'v) jentry list \<Rightarrow> bool" where
  "items_inv m n h \<longleftrightarrow> hm_wf m \<and> n = int (length m) \<and>
     (\<forall>k a. map_of m k = Some a \<longrightarrow> a < length h \<and> ekey (h ! a) = k)"

fun at_entry :: "task_phase \<Rightarrow> addr option" where
  "at_entry Admit = None"
| "at_entry (Waiting a) = Some a"
| "at_entry (Retire a) = Some a"
| "at_entry (Invoking a) = Some a"
| "at_entry (Remove a) = Some a"
| "at_entry (Finished a) = Some a"
| "at_entry (Failed a) = Some a"

definition has_pushed :: "task_phase \<Rightarrow> bool" where
  "has_pushed p \<longleftrightarrow> (case p of Invoking _ \<Rightarrow> True | Remove _ \<Rightarrow> True | Finished _ \<Rightarrow> True | Failed _ \<Rightarrow> True | _ \<Rightarrow> False)"

definition task_inv :: "('k, 'v) jentry list \<Rightarrow> ('k, 'v) jtask \<Rightarrow> bool" where
  "task_inv h t \<longleftrightarrow> (\<forall>a. at_entry (phase t) = Some a \<longrightarrow> a < length h \<and> ekey (h ! a) = tkey t \<and>
     (has_pushed (phase t) \<longrightarrow> tvalue t \<in> set (side (jvalues (h ! a)) (tindex t))))"

definition lock_inv :: "('k, 'v) jtask list \<Rightarrow> ('k, 'v) jentry list \<Rightarrow> bool" where
  "lock_inv ts h \<longleftrightarrow>
     (\<forall>n a. n < length ts \<and> phase (ts ! n) = Invoking a \<longrightarrow> locked (h ! a) \<and> \<not> processed (h ! a)) \<and>
     (\<forall>n m a. n < length ts \<and> m < length ts \<and> phase (ts ! n) = Invoking a \<and> phase (ts ! m) = Invoking a \<longrightarrow> n = m)"

definition comp_inv :: "(addr \<times> 'v list list) list \<Rightarrow> ('k, 'v) jentry list \<Rightarrow> bool" where
  "comp_inv cs h \<longleftrightarrow> distinct (map fst cs) \<and>
     (\<forall>(a, vs) \<in> set cs. a < length h \<and> processed (h ! a) \<and> jvalues (h ! a) = vs)"

definition timers_inv :: "'k jtimer list \<Rightarrow> ('k, 'v) jentry list \<Rightarrow> bool" where
  "timers_inv ts h \<longleftrightarrow> list_all (\<lambda>r. raddr r < length h) ts"

definition js_inv :: "('k, 'v) jstore \<Rightarrow> bool" where
  "js_inv s \<longleftrightarrow> items_inv (items s) (jcount s) (heap s) \<and> list_all (task_inv (heap s)) (tasks s) \<and>
     lock_inv (tasks s) (heap s) \<and> comp_inv (completions s) (heap s) \<and> timers_inv (timers s) (heap s)"

lemma heap_le_refl [simp]: "heap_le h h"
  by (simp add: heap_le_def entry_le_def)

lemma heap_le_append [simp]: "heap_le h (h @ xs)"
  by (simp add: heap_le_def entry_le_def nth_append)

lemma entry_le_refl [simp]: "entry_le e e"
  by (simp add: entry_le_def)

lemma heap_le_update: "entry_le (h ! a) e \<Longrightarrow> heap_le h (h[a := e])"
  unfolding heap_le_def by (metis entry_le_refl le_refl length_list_update nth_list_update_eq nth_list_update_neq)

lemma items_inv_mono: "items_inv m n h \<Longrightarrow> heap_le h h' \<Longrightarrow> items_inv m n h'"
  by (fastforce simp: items_inv_def heap_le_def entry_le_def)

lemma task_inv_mono: "task_inv h t \<Longrightarrow> heap_le h h' \<Longrightarrow> task_inv h' t"
proof -
  assume t: "task_inv h t" and le: "heap_le h h'"
  show ?thesis unfolding task_inv_def
  proof (intro allI impI)
    fix a assume a: "at_entry (phase t) = Some a"
    with t have b: "a < length h" "ekey (h ! a) = tkey t"
      "has_pushed (phase t) \<longrightarrow> tvalue t \<in> set (side (jvalues (h ! a)) (tindex t))"
      by (auto simp: task_inv_def)
    with le have "entry_le (h ! a) (h' ! a)" "length h \<le> length h'" by (simp_all add: heap_le_def)
    with b show "a < length h' \<and> ekey (h' ! a) = tkey t \<and>
        (has_pushed (phase t) \<longrightarrow> tvalue t \<in> set (side (jvalues (h' ! a)) (tindex t)))"
      by (auto simp: entry_le_def)
  qed
qed

lemma tasks_inv_mono: "list_all (task_inv h) ts \<Longrightarrow> heap_le h h' \<Longrightarrow> list_all (task_inv h') ts"
  by (auto simp: list_all_iff intro: task_inv_mono)

lemma comp_inv_mono: "comp_inv cs h \<Longrightarrow> heap_le h h' \<Longrightarrow> comp_inv cs h'"
  unfolding comp_inv_def heap_le_def entry_le_def by (fastforce split: prod.splits)

lemma timers_inv_mono: "timers_inv ts h \<Longrightarrow> heap_le h h' \<Longrightarrow> timers_inv ts h'"
  by (auto simp: timers_inv_def heap_le_def list_all_iff)

lemma comp_inv_new: "comp_inv cs h \<Longrightarrow> a < length h \<Longrightarrow> \<not> processed (h ! a) \<Longrightarrow> a \<notin> fst ` set cs"
  by (auto simp: comp_inv_def)

text \<open>Completing entry \<open>a\<close>.\<close>

lemma comp_inv_complete:
  assumes "comp_inv cs h" and "a < length h" and "\<not> processed (h ! a)" and "processed e" and "jvalues e = jvalues (h ! a)"
    and "ekey e = ekey (h ! a)"
  shows "comp_inv (cs @ [(a, jvalues (h ! a))]) (h[a := e])"
proof -
  have "heap_le h (h[a := e])" using assms by (intro heap_le_update) (simp add: entry_le_def)
  from comp_inv_mono [OF assms(1) this] comp_inv_new [OF assms(1,2,3)] assms show ?thesis
    by (auto simp: comp_inv_def)
qed

lemma side_push: "set (side (push_value i v vs) j) = set (side vs j) \<union> (if j = i then {v} else {})"
proof (cases "length vs \<le> i")
  case True
  then show ?thesis
    by (auto simp: push_value_def Let_def side_def nth_list_update nth_append)
next
  case False
  then show ?thesis by (auto simp: push_value_def Let_def side_def nth_list_update)
qed

lemma push_value_ne: "push_value i v vs \<noteq> []"
proof -
  have "v \<in> set (side (push_value i v vs) i)" by (simp add: side_push)
  then show ?thesis by (auto simp: side_def)
qed

text \<open>Changing the phase of one task.\<close>

lemma lock_inv_phase:
  assumes "lock_inv ts h" and "\<forall>a. p \<noteq> Invoking a" and "n < length ts"
  shows "lock_inv (ts[n := (ts ! n)\<lparr>phase := p\<rparr>]) h"
  using assms unfolding lock_inv_def by (auto simp: nth_list_update)

lemma tasks_phase:
  assumes "list_all (task_inv h) ts" and "n < length ts" and "task_inv h ((ts ! n)\<lparr>phase := p\<rparr>)"
  shows "list_all (task_inv h) (ts[n := (ts ! n)\<lparr>phase := p\<rparr>])"
  using assms set_update_subset_insert [of ts n] by (fastforce simp: list_all_iff)

lemma task_at: "list_all (task_inv h) ts \<Longrightarrow> n < length ts \<Longrightarrow> task_inv h (ts ! n)"
  by (simp add: list_all_length)

lemma remove_if_same_inv: "js_inv s \<Longrightarrow> js_inv (remove_if_same k a s)"
proof -
  assume inv: "js_inv s"
  have "items_inv (hm_remove k (items s)) (jcount s - 1) (heap s)" if "map_of (items s) k = Some a"
    using inv that hm_len_remove [of "items s" k a] by (auto simp: js_inv_def items_inv_def hm_wf_remove split: if_splits)
  with inv show ?thesis by (simp add: remove_if_same_def js_inv_def)
qed

lemma remove_if_same_frame [simp]:
  "tasks (remove_if_same k a s) = tasks s" "heap (remove_if_same k a s) = heap s"
  "timers (remove_if_same k a s) = timers s" "completions (remove_if_same k a s) = completions s"
  "now (remove_if_same k a s) = now s"
  by (simp_all add: remove_if_same_def)

lemma set_phase_inv:
  assumes "js_inv s" and "n < length (tasks s)" and "\<forall>a. p \<noteq> Invoking a"
    and "task_inv (heap s) ((tasks s ! n)\<lparr>phase := p\<rparr>)"
  shows "js_inv (set_phase n p s)"
  using assms by (simp add: js_inv_def set_phase_def lock_inv_phase tasks_phase)

lemma lock_inv_append:
  assumes "lock_inv ts h" and "list_all (task_inv h) ts"
  shows "lock_inv ts (h @ xs)"
proof -
  have "a < length h" if "n < length ts" "phase (ts ! n) = Invoking a" for n a
    using task_at [OF assms(2) that(1)] that(2) by (simp add: task_inv_def)
  with assms(1) show ?thesis unfolding lock_inv_def by (auto simp: nth_append)
qed

lemma items_inv_add:
  assumes inv: "items_inv m n h" and e: "ekey e = k" and c: "c = int (length (hm_insert k (length h) m))"
  shows "items_inv (hm_insert k (length h) m) c (h @ [e])"
proof -
  have "b < length (h @ [e]) \<and> ekey ((h @ [e]) ! b) = j"
    if b: "map_of (hm_insert k (length h) m) j = Some b" for j b
  proof (cases "j = k")
    case True
    with b have "b = length h" by simp
    with e True show ?thesis by simp
  next
    case False
    with b have "map_of m j = Some b" by simp
    with inv have "b < length h" "ekey (h ! b) = j" by (auto simp: items_inv_def)
    then show ?thesis by (simp add: nth_append)
  qed
  moreover have "hm_wf (hm_insert k (length h) m)" using inv by (auto simp: items_inv_def)
  ultimately show ?thesis using c unfolding items_inv_def by blast
qed

lemma admit_inv:
  assumes inv: "js_inv s" and n: "n < length (tasks s)"
  shows "js_inv (admit n s)"
proof -
  let ?t = "tasks s ! n" and ?h = "heap s"
  let ?e = "\<lparr>ekey = tkey ?t, jvalues = [], processed = False, generation = 0, expiry = None,
    edeadline = (if ttl ?t > 0 then Some (now s + ttl ?t) else None), locked = False\<rparr>"
  have new: "js_inv (set_phase n (Waiting (length ?h)) (s\<lparr>heap := ?h @ [?e],
      items := hm_insert (tkey ?t) (length ?h) (items s), jcount := c\<rparr>))"
    if "c = int (length (hm_insert (tkey ?t) (length ?h) (items s)))" for c
  proof (rule set_phase_inv)
    have le: "heap_le ?h (?h @ [?e])" by simp
    have "lock_inv (tasks s) (?h @ [?e])"
      using inv by (simp add: js_inv_def lock_inv_append)
    moreover have "items_inv (hm_insert (tkey ?t) (length ?h) (items s)) c (?h @ [?e])"
      using inv that by (intro items_inv_add [where n = "jcount s"]) (simp_all add: js_inv_def)
    ultimately show "js_inv (s\<lparr>heap := ?h @ [?e], items := hm_insert (tkey ?t) (length ?h) (items s), jcount := c\<rparr>)"
      using inv tasks_inv_mono [OF _ le] comp_inv_mono [OF _ le] timers_inv_mono [OF _ le] by (simp add: js_inv_def)
  qed (use n in \<open>simp_all add: task_inv_def has_pushed_def\<close>)
  show ?thesis
  proof (cases "map_of (items s) (tkey ?t)")
    case None
    then have "jcount s + 1 = int (length (hm_insert (tkey ?t) (length ?h) (items s)))"
      using inv hm_len_insert_new [OF None] by (simp add: js_inv_def items_inv_def)
    from new [OF this] None show ?thesis by (simp add: admit_def Let_def)
  next
    case (Some a)
    then have "jcount s = int (length (hm_insert (tkey ?t) (length ?h) (items s)))"
      using inv hm_len_insert_old [OF Some] by (simp add: js_inv_def items_inv_def)
    moreover have "js_inv (set_phase n (Waiting a) s)"
      using inv n Some by (intro set_phase_inv) (auto simp: task_inv_def has_pushed_def js_inv_def items_inv_def)
    moreover have "s\<lparr>heap := ?h @ [?e], items := hm_insert (tkey ?t) (length ?h) (items s)\<rparr> =
        s\<lparr>heap := ?h @ [?e], items := hm_insert (tkey ?t) (length ?h) (items s), jcount := jcount s\<rparr>"
      by (cases s) simp
    ultimately show ?thesis using new [of "jcount s"] Some unfolding admit_def Let_def by (simp only: option.case) simp
  qed
qed

lemma entry_update_inv:
  assumes inv: "js_inv s" and le: "entry_le (heap s ! a) e"
    and lk: "\<forall>n < length (tasks s). phase (tasks s ! n) \<noteq> Invoking a"
  shows "js_inv (set_entry a e s)"
proof -
  have hl: "heap_le (heap s) ((heap s)[a := e])" by (rule heap_le_update [OF le])
  have "lock_inv (tasks s) ((heap s)[a := e])"
    using inv lk unfolding js_inv_def lock_inv_def by (metis nth_list_update_neq)
  with inv items_inv_mono [OF _ hl] tasks_inv_mono [OF _ hl] comp_inv_mono [OF _ hl] timers_inv_mono [OF _ hl]
  show ?thesis by (simp add: js_inv_def set_entry_def)
qed

lemma unlocked_free:
  assumes "js_inv s" and "\<not> locked (heap s ! a) \<or> processed (heap s ! a)"
  shows "\<forall>n < length (tasks s). phase (tasks s ! n) \<noteq> Invoking a"
  using assms by (auto simp: js_inv_def lock_inv_def)

text \<open>Taking the lock of a free, unprocessed entry.\<close>

lemma invoking_inv:
  assumes inv: "js_inv s" and n: "n < length (tasks s)" and lk: "locked (heap s ! a)" "\<not> processed (heap s ! a)"
    and free: "\<forall>m < length (tasks s). phase (tasks s ! m) \<noteq> Invoking a"
    and t: "task_inv (heap s) ((tasks s ! n)\<lparr>phase := Invoking a\<rparr>)"
  shows "js_inv (set_phase n (Invoking a) s)"
proof -
  have "lock_inv ((tasks s)[n := (tasks s ! n)\<lparr>phase := Invoking a\<rparr>]) (heap s)"
    using inv lk free n unfolding js_inv_def lock_inv_def by (auto simp: nth_list_update split: if_splits)
  with inv n t show ?thesis by (simp add: js_inv_def set_phase_def tasks_phase)
qed

lemma push_le:
  assumes "\<not> processed e" and "ekey e' = ekey e" and "jvalues e' = push_value i v (jvalues e)"
  shows "entry_le e e'"
  using assms by (auto simp: entry_le_def side_push)

lemma timers_append_inv: "js_inv s \<Longrightarrow> raddr r < length (heap s) \<Longrightarrow> js_inv (s\<lparr>timers := timers s @ [r]\<rparr>)"
  by (simp add: js_inv_def timers_inv_def)

lemma enter_inv:
  assumes inv: "js_inv s" and n: "n < length (tasks s)" and p: "phase (tasks s ! n) = Waiting a"
    and e: "enter n a s = Some s'"
  shows "js_inv s'"
proof -
  let ?t = "tasks s ! n" and ?e = "heap s ! a"
  have ta: "a < length (heap s)" "ekey ?e = tkey ?t"
    using task_at [of "heap s" "tasks s" n] inv n p by (auto simp: js_inv_def task_inv_def)
  have nl: "\<not> locked ?e" using e by (auto simp: enter_def Let_def split: if_splits)
  note free = unlocked_free [OF inv]
  show ?thesis
  proof (cases "processed ?e \<or> expired (now s) ?e")
    case True
    with e nl have "s' = set_phase n (Retire a) s" by (simp add: enter_def Let_def)
    then show ?thesis using inv n ta by (simp add: set_phase_inv task_inv_def has_pushed_def)
  next
    case False
    have step: "js_inv (set_entry a e' s1)" if "js_inv s1" "tasks s1 = tasks s" "heap s1 = heap s"
      "ekey e' = ekey ?e" "jvalues e' = push_value (tindex ?t) (tvalue ?t) (jvalues ?e)" for e' s1
      using that False nl free by (intro entry_update_inv) (auto intro!: push_le)
    have inv1: "js_inv (set_phase n (Invoking a) (set_entry a e' s1))"
      if "js_inv s1" "tasks s1 = tasks s" "heap s1 = heap s" "ekey e' = ekey ?e" "locked e'" "\<not> processed e'"
        "jvalues e' = push_value (tindex ?t) (tvalue ?t) (jvalues ?e)" for e' s1
      by (rule invoking_inv) (use that step n ta nl free in \<open>auto simp: set_entry_def task_inv_def side_push\<close>)
    have inv2: "js_inv (set_phase n (Failed a) (set_entry a e' s1))"
      if "js_inv s1" "tasks s1 = tasks s" "heap s1 = heap s" "ekey e' = ekey ?e"
        "jvalues e' = push_value (tindex ?t) (tvalue ?t) (jvalues ?e)" for e' s1
      by (rule set_phase_inv) (use that step n ta in \<open>auto simp: set_entry_def task_inv_def side_push\<close>)
    have tm: "js_inv (s\<lparr>timers := timers s @ [r]\<rparr>)" if "raddr r = a" for r
      using inv ta that by (simp add: timers_append_inv)
    show ?thesis
      using e False nl by (auto simp: enter_def Let_def split: if_splits option.splits intro!: inv1 inv2 inv tm)
  qed
qed

lemma set_entry_frame [simp]:
  "tasks (set_entry a e s) = tasks s" "heap (set_entry a e s) = (heap s)[a := e]" "timers (set_entry a e s) = timers s"
  "items (set_entry a e s) = items s" "jcount (set_entry a e s) = jcount s" "completions (set_entry a e s) = completions s"
  "now (set_entry a e s) = now s"
  by (simp_all add: set_entry_def)

lemma cancel_timers_inv: "timers_inv ts h \<Longrightarrow> timers_inv (cancel_timer r ts) h"
proof (cases r)
  case (Some i)
  moreover assume "timers_inv ts h"
  ultimately show ?thesis
    by (cases "i < length ts")
      (auto simp: timers_inv_def cancel_timer_def list_all_length nth_list_update)
qed (simp add: cancel_timer_def)

lemma lock_inv_leave:
  assumes lk: "lock_inv ts h" and others: "\<forall>m < length ts. m \<noteq> n \<longrightarrow> phase (ts ! m) \<noteq> Invoking a"
    and p: "\<forall>x. phase t' \<noteq> Invoking x"
  shows "lock_inv (ts[n := t']) (h[a := e])"
proof -
  have 1: "phase (ts ! m) = Invoking x \<and> x \<noteq> a \<and> m \<noteq> n"
    if "m < length ts" "phase (ts[n := t'] ! m) = Invoking x" for m x
    using that others p by (cases "m = n") auto
  have "locked (h[a := e] ! x) \<and> \<not> processed (h[a := e] ! x)"
    if "m < length ts" "phase (ts[n := t'] ! m) = Invoking x" for m x
    using lk 1 [OF that] that(1) by (auto simp: lock_inv_def)
  with 1 lk show ?thesis unfolding lock_inv_def length_list_update by blast
qed

text \<open>The holder of the lock completes or leaves its entry.\<close>

lemma leave_inv:
  assumes inv: "js_inv s" and n: "n < length (tasks s)" and p: "phase (tasks s ! n) = Invoking a"
  shows "js_inv (leave n a b s)"
proof -
  let ?t = "tasks s ! n" and ?e = "heap s ! a" and ?h = "heap s"
  have t: "task_inv ?h ?t" using task_at inv n by (auto simp: js_inv_def)
  then have ta: "a < length ?h" "ekey ?e = tkey ?t" "tvalue ?t \<in> set (side (jvalues ?e) (tindex ?t))"
    using p by (simp_all add: task_inv_def has_pushed_def)
  have np: "\<not> processed ?e" using inv n p by (auto simp: js_inv_def lock_inv_def)
  define e' where "e' = (if b then ?e\<lparr>processed := True, expiry := None, locked := False\<rparr>
    else ?e\<lparr>processed := False, edeadline := (if renew ?t then Some (now s + ttl ?t) else edeadline ?e), locked := False\<rparr>)"
  define p' where "p' = (if b then Remove a else Finished a)"
  have e': "ekey e' = ekey ?e" "jvalues e' = jvalues ?e" by (simp_all add: e'_def)
  have le: "heap_le ?h (?h[a := e'])" using np e' by (intro heap_le_update) (simp add: entry_le_def)
  have "\<forall>m < length (tasks s). m \<noteq> n \<longrightarrow> phase (tasks s ! m) \<noteq> Invoking a"
    using inv n p by (auto simp: js_inv_def lock_inv_def)
  then have lock: "lock_inv ((tasks s)[n := ?t\<lparr>phase := p'\<rparr>]) (?h[a := e'])"
    using inv by (intro lock_inv_leave) (simp_all add: js_inv_def p'_def)
  have ti: "task_inv (?h[a := e']) (?t\<lparr>phase := p'\<rparr>)"
    using ta e' by (simp add: task_inv_def p'_def)
  have tasks: "list_all (task_inv (?h[a := e'])) ((tasks s)[n := ?t\<lparr>phase := p'\<rparr>])"
    using inv n ti tasks_inv_mono [OF _ le] by (intro tasks_phase) (simp_all add: js_inv_def)
  have comp: "comp_inv (if b then completions s @ [(a, jvalues ?e)] else completions s) (?h[a := e'])"
  proof (cases b)
    case True
    then have pr: "processed e'" by (simp add: e'_def)
    have "comp_inv (completions s) ?h" using inv by (simp add: js_inv_def)
    from comp_inv_complete [OF this ta(1) np pr e'(2,1)] True show ?thesis by simp
  qed (use inv comp_inv_mono [OF _ le] in \<open>simp add: js_inv_def\<close>)
  have rest: "items_inv (items s) (jcount s) (?h[a := e'])" "timers_inv (timers s) (?h[a := e'])"
    using inv items_inv_mono [OF _ le] timers_inv_mono [OF _ le] by (simp_all add: js_inv_def)
  show ?thesis
    using lock tasks comp rest cancel_timers_inv [OF rest(2)]
    by (cases b) (simp_all add: leave_def Let_def js_inv_def set_phase_def e'_def p'_def)
qed

lemma set_timer_inv: "js_inv s \<Longrightarrow> js_inv (set_timer n p s)"
proof -
  assume inv: "js_inv s"
  then have "timers_inv ((timers s)[n := (timers s ! n)\<lparr>rphase := p\<rparr>]) (heap s)"
    by (cases "n < length (timers s)") (auto simp: js_inv_def timers_inv_def list_all_length nth_list_update)
  with inv show ?thesis by (simp add: set_timer_def js_inv_def)
qed

lemma evict_entry_inv:
  assumes inv: "js_inv s" and a: "a < length (heap s)" and u: "\<not> locked (heap s ! a)" "\<not> processed (heap s ! a)"
  shows "js_inv (set_entry a ((heap s ! a)\<lparr>processed := True, expiry := None\<rparr>)
    (s\<lparr>completions := completions s @ [(a, jvalues (heap s ! a))]\<rparr>))"
proof -
  let ?e = "(heap s ! a)\<lparr>processed := True, expiry := None\<rparr>"
  have "js_inv (set_entry a ?e s)"
    using u unlocked_free [OF inv] by (intro entry_update_inv [OF inv]) (simp_all add: entry_le_def)
  moreover have "comp_inv (completions s @ [(a, jvalues (heap s ! a))]) ((heap s)[a := ?e])"
    using inv a u by (intro comp_inv_complete) (simp_all add: js_inv_def)
  ultimately show ?thesis by (simp add: js_inv_def)
qed

lemma timer_inv:
  assumes inv: "js_inv s" and n: "n < length (timers s)" and f: "timer_fire n wake s = Some s'"
  shows "js_inv s'"
proof -
  have "raddr (timers s ! n) < length (heap s)"
    using inv n by (simp add: js_inv_def timers_inv_def list_all_length)
  with f inv show ?thesis
    by (auto simp: timer_fire_def Let_def split: if_splits option.splits
        intro!: set_timer_inv evict_entry_inv)
qed

lemma timer_evict_inv: "js_inv s \<Longrightarrow> js_inv (timer_evict n s)"
proof -
  assume inv: "js_inv s"
  from remove_if_same_inv [OF inv] have "js_inv ((remove_if_same k a s)\<lparr>evictions := evictions s + 1\<rparr>)" for k a
    by (simp add: js_inv_def)
  with inv show ?thesis by (simp add: timer_evict_def Let_def set_timer_inv)
qed

lemma js_step_inv:
  assumes inv: "js_inv s" and st: "js_step x s = Some s'"
  shows "js_inv s'"
proof (cases x)
  case (Call k i v dl cfg)
  with st inv show ?thesis
    by (auto simp: spawn_call_def js_inv_def task_inv_def lock_inv_def nth_append less_Suc_eq)
next
  case (Tick d)
  with st inv show ?thesis by (auto simp: js_inv_def)
next
  case (TimerStep n)
  with st inv show ?thesis
    by (auto simp: timer_inv timer_evict_inv split: if_splits timer_phase.splits)
next
  case (TaskStep n b)
  with st have n: "n < length (tasks s)" by (auto split: if_splits)
  let ?t = "tasks s ! n"
  have t: "task_inv (heap s) ?t" using task_at inv n by (auto simp: js_inv_def)
  show ?thesis
  proof (cases "phase ?t")
    case (Retire a)
    have "js_inv (set_phase n Admit (remove_if_same (tkey ?t) a s))"
      using remove_if_same_inv [OF inv] n by (intro set_phase_inv) (simp_all add: task_inv_def)
    with TaskStep st n Retire show ?thesis by simp
  next
    case (Remove a)
    have "js_inv (set_phase n (Finished a) (remove_if_same (tkey ?t) a s))"
      using remove_if_same_inv [OF inv] n t Remove
      by (intro set_phase_inv) (simp_all add: task_inv_def has_pushed_def)
    with TaskStep st n Remove show ?thesis by simp
  qed (use TaskStep st n inv admit_inv leave_inv enter_inv in auto)
qed

lemma js_new_inv: "js_inv js_new"
  by (simp add: js_new_def js_inv_def items_inv_def lock_inv_def comp_inv_def timers_inv_def)

lemma js_run_inv: "js_run xs s = Some s' \<Longrightarrow> js_inv s \<Longrightarrow> js_inv s'"
  by (induction xs arbitrary: s) (auto split: option.splits dest: js_step_inv)

section \<open>The deadline of an armed group\<close>

definition no_failure :: "('k, 'v) jtask list \<Rightarrow> bool" where
  "no_failure ts \<longleftrightarrow> list_all (\<lambda>t. \<forall>a. phase t \<noteq> Failed a) ts"

definition all_deadlines :: "('k, 'v) jentry list \<Rightarrow> bool" where
  "all_deadlines h \<longleftrightarrow> list_all (\<lambda>e. edeadline e \<noteq> None) h"

text \<open>When all calls have a positive TTL every entry has a deadline; when all have none no timer is armed.\<close>

definition ttl_inv :: "('k, 'v) jstore \<Rightarrow> bool" where
  "ttl_inv s \<longleftrightarrow>
     (list_all (\<lambda>t. 0 < ttl t) (tasks s) \<longrightarrow> all_deadlines (heap s) \<and> no_failure (tasks s)) \<and>
     (list_all (\<lambda>t. ttl t = 0) (tasks s) \<longrightarrow> no_failure (tasks s))"

lemma ttl_all_phase: "n < length ts \<Longrightarrow> list_all (\<lambda>t. P (ttl t)) (ts[n := (ts ! n)\<lparr>phase := p\<rparr>]) = list_all (\<lambda>t. P (ttl t)) ts"
  by (auto simp: list_all_length nth_list_update)

lemma no_failure_phase: "no_failure ts \<Longrightarrow> \<forall>a. p \<noteq> Failed a \<Longrightarrow> no_failure (ts[n := (ts ! n)\<lparr>phase := p\<rparr>])"
  unfolding no_failure_def by (rule list_all_update) simp_all

text \<open>A step that changes the phase of one task without a failure and keeps all deadlines.\<close>

lemma ttl_inv_phase:
  assumes "ttl_inv s" and "n < length (tasks s)" and "\<forall>a. p \<noteq> Failed a"
    and "tasks s' = (tasks s)[n := (tasks s ! n)\<lparr>phase := p\<rparr>]"
    and "list_all (\<lambda>t. 0 < ttl t) (tasks s) \<Longrightarrow> all_deadlines (heap s) \<Longrightarrow>
      all_deadlines (heap s')"
  shows "ttl_inv s'"
proof -
  note pos = ttl_all_phase [OF assms(2), of "\<lambda>x. 0 < x" p] and zero = ttl_all_phase [OF assms(2), of "\<lambda>x. x = 0" p]
  show ?thesis
    unfolding ttl_inv_def assms(4) pos zero
    using assms(1,3,5) no_failure_phase [of "tasks s" p n] by (auto simp: ttl_inv_def)
qed

lemma ttl_inv_frame: "ttl_inv s \<Longrightarrow> tasks s' = tasks s \<Longrightarrow>
    (all_deadlines (heap s) \<Longrightarrow> all_deadlines (heap s')) \<Longrightarrow> ttl_inv s'"
  by (auto simp: ttl_inv_def)

lemma deadlines_kept: "all_deadlines h \<Longrightarrow> a < length h \<Longrightarrow>
    edeadline e = edeadline (h ! a) \<or> edeadline e \<noteq> None \<Longrightarrow> all_deadlines (h[a := e])"
  unfolding all_deadlines_def by (rule list_all_update) (auto simp: list_all_length)

lemma ttl_at: "n < length (tasks s) \<Longrightarrow> list_all (\<lambda>t. P (ttl t)) (tasks s) \<Longrightarrow> P (ttl (tasks s ! n))"
  by (simp add: list_all_length)

lemma enter_ttl:
  assumes tt: "ttl_inv s" and n: "n < length (tasks s)" and a: "a < length (heap s)" and e: "enter n a s = Some s'"
  shows "ttl_inv s'"
proof (cases "edeadline (heap s ! a) = None \<and> (\<exists>x. phase (tasks s' ! n) = Failed x)")
  case True
  then have pos: "0 < ttl (tasks s ! n)"
    using e n by (auto simp: enter_def Let_def set_phase_def set_entry_def split: if_splits option.splits)
  have ts: "tasks s' = (tasks s)[n := (tasks s ! n)\<lparr>phase := phase (tasks s' ! n)\<rparr>]"
    using e n by (auto simp: enter_def Let_def set_phase_def set_entry_def split: if_splits option.splits)
  have "\<not> list_all (\<lambda>t. 0 < ttl t) (tasks s)"
    using True tt a by (auto simp: ttl_inv_def all_deadlines_def list_all_length)
  moreover have "\<not> list_all (\<lambda>t. ttl t = 0) (tasks s)"
    using pos n by (auto simp: list_all_length)
  ultimately show ?thesis
    unfolding ttl_inv_def
    by (subst (1 2) ts) (simp add: ttl_all_phase [OF n, of "\<lambda>x. 0 < x"] ttl_all_phase [OF n, of "\<lambda>x. x = 0"])
next
  case False
  obtain p where p: "tasks s' = (tasks s)[n := (tasks s ! n)\<lparr>phase := p\<rparr>]" "\<forall>x. p \<noteq> Failed x"
    using e n False by (auto simp: enter_def Let_def set_phase_def set_entry_def split: if_splits option.splits)
  show ?thesis
    by (rule ttl_inv_phase [OF tt n p(2,1)])
      (use e a in \<open>auto simp: enter_def Let_def set_phase_def set_entry_def
        split: if_splits option.splits intro!: deadlines_kept\<close>)
qed

lemma js_step_ttl:
  assumes inv: "js_inv s" and tt: "ttl_inv s" and st: "js_step x s = Some s'"
  shows "ttl_inv s'"
proof (cases x)
  case (Call k i v dl cfg)
  with st tt show ?thesis by (auto simp: spawn_call_def ttl_inv_def no_failure_def)
next
  case (Tick d)
  with st tt show ?thesis by (auto simp: ttl_inv_def)
next
  case (TimerStep n)
  then have "raddr (timers s ! n) < length (heap s)"
    using st inv by (auto simp: js_inv_def timers_inv_def list_all_length split: if_splits)
  with TimerStep st show ?thesis
    by (auto simp: timer_fire_def timer_evict_def set_timer_def set_entry_def Let_def
        split: if_splits timer_phase.splits option.splits intro!: ttl_inv_frame [OF tt] deadlines_kept)
next
  case (TaskStep n b)
  with st have n: "n < length (tasks s)" by (auto split: if_splits)
  have a: "a < length (heap s)" if "at_entry (phase (tasks s ! n)) = Some a" for a
    using task_at [of "heap s" "tasks s" n] inv n that by (auto simp: js_inv_def task_inv_def)
  show ?thesis
  proof (cases "phase (tasks s ! n)")
    case Admit
    with TaskStep st n have s': "s' = admit n s" by simp
    have "\<exists>y. tasks s' = (tasks s)[n := (tasks s ! n)\<lparr>phase := Waiting y\<rparr>]"
      unfolding s' admit_def Let_def set_phase_def by (auto split: option.split)
    then obtain y where y: "tasks s' = (tasks s)[n := (tasks s ! n)\<lparr>phase := Waiting y\<rparr>]" ..
    show ?thesis
      by (rule ttl_inv_phase [OF tt n _ y])
        (use ttl_at [OF n, of "\<lambda>x. 0 < x"] in \<open>auto simp: all_deadlines_def s' admit_def Let_def set_phase_def split: option.splits if_splits\<close>)
  next
    case (Waiting a')
    with TaskStep st n a show ?thesis by (auto intro: enter_ttl [OF tt n])
  next
    case (Retire a')
    with TaskStep st n show ?thesis
      by (intro ttl_inv_phase [OF tt n, of Admit]) (auto simp: set_phase_def)
  next
    case (Invoking a')
    with TaskStep st n have s': "s' = leave n a' b s" by simp
    show ?thesis
      by (rule ttl_inv_phase [OF tt n, of "if b then Remove a' else Finished a'"])
        (use a Invoking in \<open>auto simp: s' leave_def Let_def set_phase_def set_entry_def intro!: deadlines_kept\<close>)
  next
    case (Remove a')
    with TaskStep st n show ?thesis
      by (intro ttl_inv_phase [OF tt n, of "Finished a'"]) (auto simp: set_phase_def)
  qed (use TaskStep st n in auto)
qed

lemma js_run_ttl: "js_run xs s = Some s' \<Longrightarrow> js_inv s \<Longrightarrow> ttl_inv s \<Longrightarrow> ttl_inv s'"
  by (induction xs arbitrary: s) (auto split: option.splits dest: js_step_inv js_step_ttl)

section \<open>The values of a group\<close>

text \<open>\<open>pushed a i ts\<close> collects the values that the tasks added to side \<open>i\<close> of the entry at \<open>a\<close>.\<close>

definition in_group :: "addr \<Rightarrow> nat \<Rightarrow> ('k, 'v) jtask \<Rightarrow> bool" where
  "in_group a i t \<longleftrightarrow> has_pushed (phase t) \<and> at_entry (phase t) = Some a \<and> tindex t = i"

definition pushed :: "addr \<Rightarrow> nat \<Rightarrow> ('k, 'v) jtask list \<Rightarrow> 'v multiset" where
  "pushed a i ts = mset (map tvalue (filter (in_group a i) ts))"

definition vals_inv :: "('k, 'v) jstore \<Rightarrow> bool" where
  "vals_inv s \<longleftrightarrow> (\<forall>a i. a < length (heap s) \<longrightarrow> mset (side (jvalues (heap s ! a)) i) = pushed a i (tasks s))"

lemma mset_side_push: "mset (side (push_value i v vs) j) = mset (side vs j) + (if i = j then {#v#} else {#})"
  by (auto simp: side_def push_value_def Let_def nth_append nth_list_update)

lemma pushed_split:
  assumes "n < length ts"
  obtains M where "pushed a i ts = M + (if in_group a i (ts ! n) then {#tvalue (ts ! n)#} else {#})"
    and "\<And>t. pushed a i (ts[n := t]) = M + (if in_group a i t then {#tvalue t#} else {#})"
proof
  let ?M = "pushed a i (take n ts) + pushed a i (drop (Suc n) ts)"
  show "pushed a i ts = ?M + (if in_group a i (ts ! n) then {#tvalue (ts ! n)#} else {#})"
    by (subst id_take_nth_drop [OF assms]) (simp add: pushed_def)
  show "pushed a i (ts[n := t]) = ?M + (if in_group a i t then {#tvalue t#} else {#})" for t
    using assms by (simp add: upd_conv_take_nth_drop pushed_def)
qed

lemma pushed_same:
  assumes "n < length ts" and "in_group a i t = in_group a i (ts ! n)" and "tvalue t = tvalue (ts ! n)"
  shows "pushed a i (ts[n := t]) = pushed a i ts"
proof -
  obtain M where "pushed a i ts = M + (if in_group a i (ts ! n) then {#tvalue (ts ! n)#} else {#})"
    and "\<And>t. pushed a i (ts[n := t]) = M + (if in_group a i t then {#tvalue t#} else {#})"
    by (rule pushed_split [OF assms(1), of a i]) blast
  with assms(2,3) show ?thesis by simp
qed

lemma pushed_fresh: "list_all (task_inv h) ts \<Longrightarrow> length h \<le> a \<Longrightarrow> pushed a i ts = {#}"
  by (auto simp: pushed_def list_all_iff task_inv_def in_group_def filter_empty_conv)

text \<open>A step that moves one task without adding its value anywhere.\<close>

lemma vals_inv_phase:
  assumes v: "vals_inv s" and inv: "js_inv s" and n: "n < length (tasks s)"
    and g: "\<And>a i. in_group a i ((tasks s ! n)\<lparr>phase := p\<rparr>) = in_group a i (tasks s ! n)"
    and ts: "tasks s' = (tasks s)[n := (tasks s ! n)\<lparr>phase := p\<rparr>]"
    and old: "\<And>a. a < length (heap s) \<Longrightarrow> jvalues (heap s' ! a) = jvalues (heap s ! a)"
    and new: "\<And>a. length (heap s) \<le> a \<Longrightarrow> a < length (heap s') \<Longrightarrow> jvalues (heap s' ! a) = []"
  shows "vals_inv s'"
  unfolding vals_inv_def
proof (intro allI impI)
  fix a i assume a: "a < length (heap s')"
  have same: "pushed a i (tasks s') = pushed a i (tasks s)"
    unfolding ts by (rule pushed_same [OF n]) (simp_all add: g)
  show "mset (side (jvalues (heap s' ! a)) i) = pushed a i (tasks s')"
  proof (cases "a < length (heap s)")
    case True
    with v old same show ?thesis by (simp add: vals_inv_def)
  next
    case False
    then have "pushed a i (tasks s) = {#}" using inv by (intro pushed_fresh [of "heap s"]) (simp_all add: js_inv_def)
    with False new a same show ?thesis by (simp add: side_def)
  qed
qed

lemma vals_inv_frame: "vals_inv s \<Longrightarrow> tasks s' = tasks s \<Longrightarrow> length (heap s') = length (heap s) \<Longrightarrow>
    (\<And>a. a < length (heap s) \<Longrightarrow> jvalues (heap s' ! a) = jvalues (heap s ! a)) \<Longrightarrow> vals_inv s'"
  by (simp add: vals_inv_def)

lemma update_values: "a < length h \<Longrightarrow> jvalues e = jvalues (h ! b) \<Longrightarrow> jvalues (h[b := e] ! a) = jvalues (h ! a)"
  by (cases "b = a") simp_all

text \<open>A step that adds the value of a task to its entry.\<close>

lemma vals_inv_push:
  assumes v: "vals_inv s" and n: "n < length (tasks s)" and b: "b < length (heap s)"
    and w: "phase (tasks s ! n) = Waiting b" and p: "has_pushed p" "at_entry p = Some b"
    and ts: "tasks s' = (tasks s)[n := (tasks s ! n)\<lparr>phase := p\<rparr>]"
    and hp: "heap s' = (heap s)[b := e]"
    and e: "jvalues e = push_value (tindex (tasks s ! n)) (tvalue (tasks s ! n)) (jvalues (heap s ! b))"
  shows "vals_inv s'"
  unfolding vals_inv_def
proof (intro allI impI)
  fix a i assume a: "a < length (heap s')"
  let ?t = "tasks s ! n"
  obtain M where M: "pushed a i (tasks s) = M + (if in_group a i ?t then {#tvalue ?t#} else {#})"
    "pushed a i (tasks s') = M + (if in_group a i (?t\<lparr>phase := p\<rparr>) then {#tvalue (?t\<lparr>phase := p\<rparr>)#} else {#})"
    unfolding ts by (rule pushed_split [OF n]) blast
  have "\<not> in_group a i ?t" using w by (simp add: in_group_def has_pushed_def)
  then have "pushed a i (tasks s') = pushed a i (tasks s) + (if a = b \<and> tindex ?t = i then {#tvalue ?t#} else {#})"
    using M p by (auto simp: in_group_def)
  moreover have "mset (side (jvalues (heap s ! a)) i) = pushed a i (tasks s)"
    using v a hp by (simp add: vals_inv_def)
  ultimately show "mset (side (jvalues (heap s' ! a)) i) = pushed a i (tasks s')"
    using b hp e by (cases "a = b") (simp_all add: mset_side_push)
qed

lemma enter_vals:
  assumes v: "vals_inv s" and inv: "js_inv s" and n: "n < length (tasks s)" and w: "phase (tasks s ! n) = Waiting a"
    and e: "enter n a s = Some s'"
  shows "vals_inv s'"
proof (cases "processed (heap s ! a) \<or> expired (now s) (heap s ! a)")
  case True
  with e have "s' = set_phase n (Retire a) s" by (auto simp: enter_def Let_def split: if_splits)
  then show ?thesis
    by (intro vals_inv_phase [OF v inv n, of "Retire a"]) (simp_all add: set_phase_def in_group_def has_pushed_def w)
next
  case False
  have a: "a < length (heap s)"
    using task_at [of "heap s" "tasks s" n] inv n w by (auto simp: js_inv_def task_inv_def)
  have "\<exists>p e. has_pushed p \<and> at_entry p = Some a \<and> tasks s' = (tasks s)[n := (tasks s ! n)\<lparr>phase := p\<rparr>] \<and>
      heap s' = (heap s)[a := e] \<and>
      jvalues e = push_value (tindex (tasks s ! n)) (tvalue (tasks s ! n)) (jvalues (heap s ! a))"
    using e False
    by (auto simp: enter_def Let_def set_phase_def set_entry_def has_pushed_def split: if_splits option.splits)
      (auto intro!: exI)
  then show ?thesis using vals_inv_push [OF v n a w] by blast
qed

lemma js_step_vals:
  assumes inv: "js_inv s" and v: "vals_inv s" and st: "js_step x s = Some s'"
  shows "vals_inv s'"
proof (cases x)
  case (Call k i v' dl cfg)
  with st v show ?thesis
    by (auto simp: spawn_call_def vals_inv_def pushed_def in_group_def has_pushed_def)
next
  case (Tick d)
  with st v show ?thesis by (auto simp: vals_inv_def)
next
  case (TimerStep n)
  with st show ?thesis
    by (auto simp: timer_fire_def timer_evict_def set_timer_def set_entry_def Let_def
        split: if_splits timer_phase.splits option.splits intro!: vals_inv_frame [OF v] update_values)
next
  case (TaskStep n b)
  with st have n: "n < length (tasks s)" by (auto split: if_splits)
  note step = vals_inv_phase [OF v inv n]
  show ?thesis
  proof (cases "phase (tasks s ! n)")
    case Admit
    with TaskStep st n have s': "s' = admit n s" by simp
    have "\<exists>y. tasks s' = (tasks s)[n := (tasks s ! n)\<lparr>phase := Waiting y\<rparr>]"
      unfolding s' admit_def Let_def set_phase_def by (auto split: option.split)
    then obtain y where y: "tasks s' = (tasks s)[n := (tasks s ! n)\<lparr>phase := Waiting y\<rparr>]" ..
    show ?thesis
      by (rule step [OF _ y])
        (auto simp: Admit in_group_def has_pushed_def s' admit_def Let_def set_phase_def nth_append split: option.splits if_splits)
  next
    case (Waiting a)
    with TaskStep st n show ?thesis by (auto intro: enter_vals [OF v inv n])
  next
    case (Retire a)
    with TaskStep st n show ?thesis
      by (intro step [of Admit]) (auto simp: set_phase_def in_group_def has_pushed_def)
  next
    case (Invoking a)
    with TaskStep st n have s': "s' = leave n a b s" by simp
    show ?thesis
      by (rule step [of "if b then Remove a else Finished a"])
        (auto simp: Invoking in_group_def has_pushed_def s' leave_def Let_def set_phase_def set_entry_def intro!: update_values)
  next
    case (Remove a)
    with TaskStep st n show ?thesis
      by (intro step [of "Finished a"]) (auto simp: set_phase_def in_group_def has_pushed_def)
  qed (use TaskStep st n in auto)
qed

lemma js_run_vals: "js_run xs s = Some s' \<Longrightarrow> js_inv s \<Longrightarrow> vals_inv s \<Longrightarrow> vals_inv s'"
  by (induction xs arbitrary: s) (auto split: option.splits dest: js_step_inv js_step_vals)

lemma js_new_vals: "vals_inv js_new"
  by (simp add: vals_inv_def js_new_def)

section \<open>Properties\<close>

text \<open>
  Two calls of an inner join for one key, both sides delivered by the second callback, and a third
  call for another key that waits.
\<close>

definition join_example :: "(nat, string) jaction list" where
  "join_example = [Call 7 0 ''a'' None (5, False), TaskStep 0 False, Call 7 1 ''b'' None (5, False),
     TaskStep 0 False, TaskStep 1 False, TaskStep 0 False, TaskStep 1 False, TaskStep 1 True,
     TaskStep 1 False, Call 8 0 ''c'' None (5, False), TaskStep 2 False]"

lemmas js_defs = spawn_call_def admit_def enter_def leave_def Let_def set_phase_def set_entry_def
  expired_def push_value_def cancel_timer_def remove_if_same_def timer_fire_def timer_evict_def
  timer_wakes_def set_timer_def

lemma join_example_run: "js_run join_example js_new = Some (the (js_run join_example js_new))"
  by (simp add: join_example_def js_new_def js_defs)

text \<open>
  C2. Groups of a join are delivered exactly. Whatever calls are made on a new storage and however
  the steps of the calls, of the timers and of the clock interleave: no group is delivered twice;
  the values a group was delivered with are, side by side, exactly the values of the calls that
  joined it, none lost, none doubled and none added later; a call joins a group of its own key only;
  never do two calls run a callback on the same group at once; and the gauge counts the stored keys.
\<close>

theorem join_groups_exact:
  assumes "js_run xs js_new = Some s"
  shows "distinct (map fst (completions s)) \<and>
    list_all (\<lambda>(a, vs). a < length (heap s) \<and> (\<forall>i. mset (side vs i) = pushed a i (tasks s))) (completions s) \<and>
    list_all (\<lambda>t. \<forall>a. at_entry (phase t) = Some a \<longrightarrow> a < length (heap s) \<and> ekey (heap s ! a) = tkey t) (tasks s) \<and>
    (\<forall>n m a. n < length (tasks s) \<and> m < length (tasks s) \<and> phase (tasks s ! n) = Invoking a \<and>
       phase (tasks s ! m) = Invoking a \<longrightarrow> n = m) \<and>
    jcount s = int (length (items s)) \<and> distinct (map fst (items s))"
proof -
  have inv: "js_inv s" and v: "vals_inv s"
    using js_run_inv [OF assms js_new_inv] js_run_vals [OF assms js_new_inv js_new_vals] .
  have "list_all (\<lambda>(a, vs). a < length (heap s) \<and> (\<forall>i. mset (side vs i) = pushed a i (tasks s))) (completions s)"
    using inv v by (auto simp: js_inv_def comp_inv_def vals_inv_def list_all_iff)
  moreover have "list_all (\<lambda>t. \<forall>a. at_entry (phase t) = Some a \<longrightarrow> a < length (heap s) \<and> ekey (heap s ! a) = tkey t) (tasks s)"
    using inv by (auto simp: js_inv_def task_inv_def list_all_iff)
  moreover have "\<forall>n m a. n < length (tasks s) \<and> m < length (tasks s) \<and> phase (tasks s ! n) = Invoking a \<and>
       phase (tasks s ! m) = Invoking a \<longrightarrow> n = m"
    using inv by (simp add: js_inv_def lock_inv_def)
  ultimately show ?thesis using inv by (simp add: js_inv_def comp_inv_def items_inv_def)
qed

theorem join_groups_exact_witness:
  "list_all (\<lambda>(a, vs). mset (side vs 1) = pushed a 1 (tasks (the (js_run join_example js_new))))
     (completions (the (js_run join_example js_new)))"
  using join_groups_exact [OF join_example_run] by (auto simp: list_all_iff)

text \<open>
  C22. The \<open>expect\<close> on the deadline of an armed group never fails while the calls agree on whether
  groups expire: all effective TTLs are positive, or all are zero.
\<close>

theorem join_agreeing_ttl_safe:
  assumes "js_run xs js_new = Some s"
    and "list_all (\<lambda>t. 0 < ttl t) (tasks s) \<or> list_all (\<lambda>t. ttl t = 0) (tasks s)"
  shows "list_all (\<lambda>t. \<forall>a. phase t \<noteq> Failed a) (tasks s)"
proof -
  have "ttl_inv js_new" by (simp add: ttl_inv_def js_new_def no_failure_def all_deadlines_def)
  from js_run_ttl [OF assms(1) js_new_inv this] assms(2) show ?thesis
    by (auto simp: ttl_inv_def no_failure_def)
qed

theorem join_agreeing_ttl_safe_witness:
  "map phase (tasks (the (js_run join_example js_new))) = [Finished 0, Finished 0, Waiting 1]"
proof -
  have "list_all (\<lambda>t. 0 < ttl t) (tasks (the (js_run join_example js_new)))"
    by (simp add: join_example_def js_new_def js_defs)
  with join_agreeing_ttl_safe [OF join_example_run] show ?thesis
    by (simp add: join_example_def js_new_def js_defs)
qed

text \<open>
  Calls that disagree on the TTL can panic. A call without expiry admits an entry and is
  descheduled before it takes the lock; a call for the same key whose context has a deadline finds
  that entry, is the first to add a value, and fails on \<open>expect("positive TTL has a deadline")\<close>.
\<close>

theorem join_first_value_race_panics:
  "map phase (tasks (the (js_run
     [Call (7::nat) 0 ''a'' None (0, False), TaskStep 0 False, Call 7 1 ''b'' (Some 10) (0, False),
      TaskStep 1 False, TaskStep 1 False] js_new))) = [Waiting 0, Failed 0]"
  by (simp add: js_new_def js_defs)

text \<open>
  With TTL renewal and no TTL every value starts a group of its own: the first of two calls of
  one key leaves its group expired, the second opens another one, the first value is in no stored
  group and no timer will deliver it. (Without renewal the two calls share one group.)
\<close>

theorem join_zero_ttl_renewal_splits:
  "map_option (\<lambda>s. (items s, map jvalues (heap s), timers s, completions s))
     (js_run [Call (7::nat) 0 ''a'' None (0, True), TaskStep 0 False, TaskStep 0 False, TaskStep 0 False,
       Call 7 1 ''b'' None (0, True), TaskStep 1 False, TaskStep 1 False] js_new) =
     Some ([(7, 1)], [[[''a'']], [[], [''b'']]], [], []) \<and>
   map_option (\<lambda>s. (items s, map jvalues (heap s), timers s, completions s))
     (js_run [Call (7::nat) 0 ''a'' None (0, False), TaskStep 0 False, TaskStep 0 False, TaskStep 0 False,
       Call 7 1 ''b'' None (0, False), TaskStep 1 False, TaskStep 1 False] js_new) =
     Some ([(7, 0)], [[[''a''], [''b'']]], [], [])"
  by (simp add: js_new_def js_defs)

end
