(* ===== verification/Stream_Graph.thy ===== *)
theory Stream_Graph
  imports Runtime_Config
begin

text \<open>
  The construction of a stream graph: the registries of \<open>RuntimeEnvironment\<close>
  (\<open>src/runtime/environment/mod.rs\<close>), \<open>Stream\<close> (\<open>src/runtime/stream.rs\<close>), the link of a stream to
  its consumer (\<open>LinkCollector::new\<close> of \<open>src/runtime/collector.rs\<close>) and the constructors of the
  stateless operators (\<open>src/operators\<close>). Streams, operators and call counters are objects compared by
  identity, so they are addresses into lists of the graph. Values have one type here; serializers,
  metric labels and type names are left out. Business functions are parameters of the operators, a
  function that calls its collector being the list of its calls. A panic is \<open>None\<close>.

  Delay, joins and callable substreams have theories of their own.
\<close>

section \<open>Data\<close>

type_synonym stream_addr = nat
type_synonym op_addr = nat

datatype caller = CallDirect bool | CallParallel | CallTaskPool nat | CallPriorityTaskPool nat int

record link =
  consumer :: op_addr
  caller :: caller
  lfrom :: string
  lto :: string
  calls :: nat

record stream =
  str_id :: int
  str_name :: string
  downstream :: "link option"

datatype ('c, 'v) operator =
    MapStream stream_addr "'c \<Rightarrow> 'v \<Rightarrow> ('c \<times> 'v) list"
  | FilterStream stream_addr "'c \<Rightarrow> 'v \<Rightarrow> bool"
  | FlatMapStream stream_addr "'c \<Rightarrow> 'v \<Rightarrow> ('c \<times> 'v) list"
  | FlatMapIterableStream stream_addr "'v \<Rightarrow> 'v list"
  | KeyByStream stream_addr "'c \<Rightarrow> 'v \<Rightarrow> ('c \<times> 'v) list"
  | MergeStream stream_addr
  | SplitStream stream_addr "stream_addr list" "nat list"
  | CaseStream int "'v \<Rightarrow> nat" "stream_addr list"
  | ProcessStream stream_addr stream_addr "'c \<Rightarrow> 'v \<Rightarrow> (bool \<times> 'c \<times> 'v) list"
  | SinkStream stream_addr "nat option"
  | LinkStream stream_addr "stream_addr option"

record graph_link =
  gl_from :: int
  gl_to :: int
  gl_semantics :: call_semantics
  gl_calls :: nat

record ('c, 'v) graph =
  service_id :: "int option"
  config :: runtime_config
  graph_links :: "graph_link list"
  runtime_streams :: "int set"
  task_pools :: "(string \<times> nat) list"
  priority_task_pools :: "(string \<times> nat) list"
  endpoint_consumers :: "(int \<times> nat) list"
  storages :: "nat list"
  buildables :: "op_addr list"
  streams :: "stream list"
  operators :: "('c, 'v) operator list"
  counters :: nat

definition graph_new :: "int option \<Rightarrow> runtime_config \<Rightarrow> ('c, 'v) graph" where
  "graph_new svc cfg = \<lparr>service_id = svc, config = cfg, graph_links = [], runtime_streams = {}, task_pools = [],
     priority_task_pools = [], endpoint_consumers = [], storages = [], buildables = [], streams = [], operators = [], counters = 0\<rparr>"

section \<open>The environment\<close>

definition env_stream_name :: "int \<Rightarrow> ('c, 'v) graph \<Rightarrow> string" where
  "env_stream_name i g =
     (case stream_by_id (config g) i of Some c \<Rightarrow> sc_name (cfg_stream c) | None \<Rightarrow> int_to_string i)"

definition call_semantics :: "int \<Rightarrow> int \<Rightarrow> ('c, 'v) graph \<Rightarrow> call_semantics" where
  "call_semantics a b g =
     (case config_link (config g) a b of
        Some l \<Rightarrow> link_semantics l
      | None \<Rightarrow>
          (case service_id g of
             None \<Rightarrow> rc_default_semantics (config g)
           | Some i \<Rightarrow>
               (case service_by_id (config g) i of
                  Some s \<Rightarrow> svc_call_semantics s
                | None \<Rightarrow> rc_default_semantics (config g))))"

definition function_call_async :: "int \<Rightarrow> int \<Rightarrow> ('c, 'v) graph \<Rightarrow> bool" where
  "function_call_async a b g =
     (case config_link (config g) a b of
        Some l \<Rightarrow> link_semantics l = FunctionCall \<and> link_async l
      | None \<Rightarrow> False)"

definition register_runtime_stream :: "int \<Rightarrow> ('c, 'v) graph \<Rightarrow> ('c, 'v) graph" where
  "register_runtime_stream i g = g\<lparr>runtime_streams := insert i (runtime_streams g)\<rparr>"

text \<open>The first link with the same ends is overwritten, else the link is appended.\<close>

fun replace_link :: "graph_link \<Rightarrow> graph_link list \<Rightarrow> graph_link list" where
  "replace_link l [] = [l]"
| "replace_link l (k # ks) =
     (if gl_from k = gl_from l \<and> gl_to k = gl_to l then l # ks else k # replace_link l ks)"

definition register_graph_link :: "int \<Rightarrow> int \<Rightarrow> call_semantics \<Rightarrow> nat \<Rightarrow> ('c, 'v) graph \<Rightarrow> ('c, 'v) graph" where
  "register_graph_link a b sem n g =
     g\<lparr>graph_links := replace_link \<lparr>gl_from = a, gl_to = b, gl_semantics = sem, gl_calls = n\<rparr> (graph_links g)\<rparr>"

definition task_pool :: "string \<Rightarrow> ('c, 'v) graph \<Rightarrow> nat runtime_result" where
  "task_pool n g = (case map_of (task_pools g) n of Some p \<Rightarrow> Inr p | None \<Rightarrow> Inl (TaskPoolNotFound n))"

definition priority_task_pool :: "string \<Rightarrow> ('c, 'v) graph \<Rightarrow> nat runtime_result" where
  "priority_task_pool n g =
     (case map_of (priority_task_pools g) n of Some p \<Rightarrow> Inr p | None \<Rightarrow> Inl (PriorityTaskPoolNotFound n))"

text \<open>A duplicate name is an error, but the new pool has replaced the old one.\<close>

definition register_task_pool :: "string \<Rightarrow> nat \<Rightarrow> ('c, 'v) graph \<Rightarrow> unit runtime_result \<times> ('c, 'v) graph" where
  "register_task_pool n p g =
     ((case map_of (task_pools g) n of Some _ \<Rightarrow> Inl (DuplicateResource n) | None \<Rightarrow> Inr ()),
      g\<lparr>task_pools := hm_insert n p (task_pools g)\<rparr>)"

definition register_priority_task_pool :: "string \<Rightarrow> nat \<Rightarrow> ('c, 'v) graph \<Rightarrow> unit runtime_result \<times> ('c, 'v) graph" where
  "register_priority_task_pool n p g =
     ((case map_of (priority_task_pools g) n of Some _ \<Rightarrow> Inl (DuplicateResource n) | None \<Rightarrow> Inr ()),
      g\<lparr>priority_task_pools := hm_insert n p (priority_task_pools g)\<rparr>)"

definition register_endpoint_consumer :: "int \<Rightarrow> nat \<Rightarrow> ('c, 'v) graph \<Rightarrow> unit runtime_result \<times> ('c, 'v) graph" where
  "register_endpoint_consumer i x g =
     ((case map_of (endpoint_consumers g) i of Some _ \<Rightarrow> Inl (DuplicateResource ''endpoint consumer'') | None \<Rightarrow> Inr ()),
      g\<lparr>endpoint_consumers := hm_insert i x (endpoint_consumers g)\<rparr>)"

definition endpoint_consumer :: "int \<Rightarrow> ('c, 'v) graph \<Rightarrow> nat option" where
  "endpoint_consumer i g = map_of (endpoint_consumers g) i"

definition clear_endpoint_consumers :: "('c, 'v) graph \<Rightarrow> ('c, 'v) graph" where
  "clear_endpoint_consumers g = g\<lparr>endpoint_consumers := []\<rparr>"

definition register_storage :: "nat \<Rightarrow> ('c, 'v) graph \<Rightarrow> ('c, 'v) graph" where
  "register_storage x g = g\<lparr>storages := storages g @ [x]\<rparr>"

definition for_service :: "int \<Rightarrow> ('c, 'v) graph \<Rightarrow> ('c, 'v) graph" where
  "for_service i g = g\<lparr>service_id := Some i\<rparr>"

text \<open>The name of the environment's service, or of the only service there is.\<close>

definition service_name :: "('c, 'v) graph \<Rightarrow> string" where
  "service_name g =
     (case (case service_id g of None \<Rightarrow> None | Some i \<Rightarrow> service_by_id (config g) i) of
        Some s \<Rightarrow> svc_name s
      | None \<Rightarrow>
          (case services_by_id (config g) of [(_, s)] \<Rightarrow> svc_name s | _ \<Rightarrow> []))"

definition stream_grouping :: "int \<Rightarrow> ('c, 'v) graph \<Rightarrow> string \<times> string" where
  "stream_grouping i g =
     (if i = - (2 ^ 31) then ([], [])
      else case stream_by_id (config g) \<bar>i\<bar> of
        Some c \<Rightarrow> (pipeline (cfg_stream c), component (cfg_stream c))
      | None \<Rightarrow> ([], []))"

definition env_streams :: "('c, 'v) graph \<Rightarrow> (int \<times> string) list" where
  "env_streams g = sort_key fst (map (\<lambda>(_, c). (sc_id (cfg_stream c), sc_name (cfg_stream c))) (streams_by_id (config g)))"

section \<open>Streams and links\<close>

definition configured_stream_id :: "int \<Rightarrow> int option" where
  "configured_stream_id i = (if i = - (2 ^ 31) then None else Some \<bar>i\<bar>)"

definition alloc_stream :: "int \<Rightarrow> string \<Rightarrow> ('c, 'v) graph \<Rightarrow> stream_addr \<times> ('c, 'v) graph" where
  "alloc_stream i n g = (length (streams g), g\<lparr>streams := streams g @ [\<lparr>str_id = i, str_name = n, downstream = None\<rparr>]\<rparr>)"

text \<open>\<open>Stream::with_id_and_serde\<close>, which \<open>new\<close>, \<open>with_id\<close> and \<open>derived\<close> end in.\<close>

definition stream_new :: "int \<Rightarrow> ('c, 'v) graph \<Rightarrow> (stream_addr \<times> ('c, 'v) graph) option" where
  "stream_new i g =
     (let g1 = register_runtime_stream i g in
      case configured_stream_id i of
        None \<Rightarrow> None
      | Some j \<Rightarrow> Some (alloc_stream i (env_stream_name j g1) g1))"

definition derived_with_name :: "int \<Rightarrow> string \<Rightarrow> ('c, 'v) graph \<Rightarrow> stream_addr \<times> ('c, 'v) graph" where
  "derived_with_name i n g = alloc_stream i n (register_runtime_stream i g)"

definition alloc_operator :: "('c, 'v) operator \<Rightarrow> ('c, 'v) graph \<Rightarrow> op_addr \<times> ('c, 'v) graph" where
  "alloc_operator oper g = (length (operators g), g\<lparr>operators := operators g @ [oper]\<rparr>)"

definition make_caller :: "call_semantics \<Rightarrow> bool \<Rightarrow> ('c, 'v) graph \<Rightarrow> caller runtime_result" where
  "make_caller sem async g =
     (case sem of
        FunctionCall \<Rightarrow> Inr (CallDirect async)
      | ParallelCall \<Rightarrow> Inr CallParallel
      | TaskPool n \<Rightarrow> bind_rt (task_pool n g) (\<lambda>p. Inr (CallTaskPool p))
      | PriorityTaskPool n pr \<Rightarrow> bind_rt (priority_task_pool n g) (\<lambda>p. Inr (CallPriorityTaskPool p pr)))"

definition caller_is_async :: "caller \<Rightarrow> bool" where
  "caller_is_async c = (case c of CallDirect b \<Rightarrow> b | _ \<Rightarrow> True)"

definition link_new :: "op_addr \<Rightarrow> call_semantics \<Rightarrow> int \<Rightarrow> int \<Rightarrow> string \<Rightarrow> bool \<Rightarrow> ('c, 'v) graph \<Rightarrow>
    link runtime_result \<times> ('c, 'v) graph" where
  "link_new con sem source_id target_id source_name async g =
     (case make_caller sem async g of
        Inl e \<Rightarrow> (Inl e, g)
      | Inr c \<Rightarrow>
          (Inr \<lparr>consumer = con, caller = c, lfrom = source_name, lto = env_stream_name target_id g, calls = counters g\<rparr>,
           register_graph_link source_id target_id sem (counters g) (g\<lparr>counters := counters g + 1\<rparr>)))"

definition set_downstream :: "stream_addr \<Rightarrow> link \<Rightarrow> ('c, 'v) graph \<Rightarrow> ('c, 'v) graph" where
  "set_downstream s l g = g\<lparr>streams := (streams g)[s := (streams g ! s)\<lparr>downstream := Some l\<rparr>]\<rparr>"

text \<open>The link is created, and registered, before the cell of the stream is found to be taken.\<close>

definition try_set_consumer :: "stream_addr \<Rightarrow> op_addr \<Rightarrow> int \<Rightarrow> ('c, 'v) graph \<Rightarrow> unit runtime_result \<times> ('c, 'v) graph" where
  "try_set_consumer s con target_id g =
     (let st = streams g ! s in
      case link_new con (call_semantics (str_id st) target_id g) (str_id st) target_id (str_name st)
          (function_call_async (str_id st) target_id g) g of
        (Inl e, g1) \<Rightarrow> (Inl e, g1)
      | (Inr l, g1) \<Rightarrow>
          (case downstream st of
             Some _ \<Rightarrow> (Inl (ConsumerAlreadySet (str_name st)), g1)
           | None \<Rightarrow> (Inr (), set_downstream s l g1)))"

text \<open>The typed variant looks first.\<close>

definition try_set_typed_consumer :: "stream_addr \<Rightarrow> op_addr \<Rightarrow> int \<Rightarrow> ('c, 'v) graph \<Rightarrow> unit runtime_result \<times> ('c, 'v) graph" where
  "try_set_typed_consumer s con target_id g =
     (let st = streams g ! s in
      case downstream st of
        Some _ \<Rightarrow> (Inl (ConsumerAlreadySet (str_name st)), g)
      | None \<Rightarrow>
          (case link_new con (call_semantics (str_id st) target_id g) (str_id st) target_id (str_name st)
               (function_call_async (str_id st) target_id g) g of
             (Inl e, g1) \<Rightarrow> (Inl e, g1)
           | (Inr l, g1) \<Rightarrow> (Inr (), set_downstream s l g1)))"

section \<open>Operators\<close>

text \<open>A constructor gives its result or an error, and the graph; \<open>None\<close> is a panic.\<close>

type_synonym ('a, 'c, 'v) made = "('a runtime_result \<times> ('c, 'v) graph) option"

text \<open>\<open>InputStream::new\<close>: the input stream and its error stream.\<close>

definition make_input :: "int \<Rightarrow> ('c, 'v) graph \<Rightarrow> (stream_addr \<times> stream_addr, 'c, 'v) made" where
  "make_input i g =
     (case stream_new (- i) g of
        None \<Rightarrow> None
      | Some (err, g1) \<Rightarrow>
          (case stream_new i g1 of None \<Rightarrow> None | Some (st, g2) \<Rightarrow> Some (Inr (st, err), g2)))"

definition connect :: "stream_addr \<Rightarrow> ('c, 'v) operator \<Rightarrow> int \<Rightarrow> 'a \<Rightarrow> ('c, 'v) graph \<Rightarrow> ('a, 'c, 'v) made" where
  "connect source oper target_id res g =
     (let (con, g1) = alloc_operator oper g in
      case try_set_consumer source con target_id g1 of
        (Inl e, g2) \<Rightarrow> Some (Inl e, g2)
      | (Inr _, g2) \<Rightarrow> Some (Inr res, g2))"

text \<open>\<open>make\<close> of the operators with one output stream.\<close>

definition make_unary :: "int \<Rightarrow> (stream_addr \<Rightarrow> ('c, 'v) operator) \<Rightarrow> stream_addr \<Rightarrow> ('c, 'v) graph \<Rightarrow> (stream_addr, 'c, 'v) made" where
  "make_unary i oper source g =
     (case stream_new i g of
        None \<Rightarrow> None
      | Some (out, g1) \<Rightarrow> connect source (oper out) (str_id (streams g1 ! out)) out g1)"

definition make_map :: "int \<Rightarrow> stream_addr \<Rightarrow> ('c \<Rightarrow> 'v \<Rightarrow> ('c \<times> 'v) list) \<Rightarrow> ('c, 'v) graph \<Rightarrow> (stream_addr, 'c, 'v) made" where
  "make_map i source f g = make_unary i (\<lambda>out. MapStream out f) source g"

definition make_filter :: "int \<Rightarrow> stream_addr \<Rightarrow> ('c \<Rightarrow> 'v \<Rightarrow> bool) \<Rightarrow> ('c, 'v) graph \<Rightarrow> (stream_addr, 'c, 'v) made" where
  "make_filter i source f g = make_unary i (\<lambda>out. FilterStream out f) source g"

definition make_flat_map :: "int \<Rightarrow> stream_addr \<Rightarrow> ('c \<Rightarrow> 'v \<Rightarrow> ('c \<times> 'v) list) \<Rightarrow> ('c, 'v) graph \<Rightarrow> (stream_addr, 'c, 'v) made" where
  "make_flat_map i source f g = make_unary i (\<lambda>out. FlatMapStream out f) source g"

definition make_flat_map_iterable :: "int \<Rightarrow> stream_addr \<Rightarrow> ('v \<Rightarrow> 'v list) \<Rightarrow> ('c, 'v) graph \<Rightarrow> (stream_addr, 'c, 'v) made" where
  "make_flat_map_iterable i source f g = make_unary i (\<lambda>out. FlatMapIterableStream out f) source g"

definition make_key_by :: "int \<Rightarrow> stream_addr \<Rightarrow> ('c \<Rightarrow> 'v \<Rightarrow> ('c \<times> 'v) list) \<Rightarrow> ('c, 'v) graph \<Rightarrow> (stream_addr, 'c, 'v) made" where
  "make_key_by i source f g = make_unary i (\<lambda>out. KeyByStream out f) source g"

text \<open>\<open>MergeStream::make\<close> stops at the first source that cannot be connected.\<close>

fun connect_all :: "stream_addr list \<Rightarrow> op_addr \<Rightarrow> int \<Rightarrow> ('c, 'v) graph \<Rightarrow> unit runtime_result \<times> ('c, 'v) graph" where
  "connect_all [] con t g = (Inr (), g)"
| "connect_all (s # ss) con t g =
     (case try_set_consumer s con t g of (Inl e, g1) \<Rightarrow> (Inl e, g1) | (Inr _, g1) \<Rightarrow> connect_all ss con t g1)"

definition make_merge :: "int \<Rightarrow> stream_addr list \<Rightarrow> ('c, 'v) graph \<Rightarrow> (stream_addr, 'c, 'v) made" where
  "make_merge i sources g =
     (if sources = [] then None
      else case stream_new i g of
        None \<Rightarrow> None
      | Some (out, g1) \<Rightarrow>
          (let (con, g2) = alloc_operator (MergeStream out) g1 in
           case connect_all sources con (str_id (streams g1 ! out)) g2 of
             (Inl e, g3) \<Rightarrow> Some (Inl e, g3)
           | (Inr _, g3) \<Rightarrow> Some (Inr out, g3)))"

definition make_process :: "int \<Rightarrow> stream_addr \<Rightarrow> ('c \<Rightarrow> 'v \<Rightarrow> (bool \<times> 'c \<times> 'v) list) \<Rightarrow> ('c, 'v) graph \<Rightarrow>
    (stream_addr \<times> stream_addr, 'c, 'v) made" where
  "make_process i source f g =
     (case stream_new i g of
        None \<Rightarrow> None
      | Some (out, g1) \<Rightarrow>
          (case stream_new (- i) g1 of
             None \<Rightarrow> None
           | Some (err, g2) \<Rightarrow> connect source (ProcessStream out err f) (str_id (streams g2 ! out)) (out, err) g2))"

text \<open>The branches of a split, named \<open>{name}SplitLink{index}\<close>.\<close>

fun create_links :: "int \<Rightarrow> string \<Rightarrow> nat \<Rightarrow> nat \<Rightarrow> ('c, 'v) graph \<Rightarrow> stream_addr list \<times> ('c, 'v) graph" where
  "create_links i n 0 k g = ([], g)"
| "create_links i n (Suc m) k g =
     (let (s, g1) = derived_with_name i (n @ ''SplitLink'' @ to_decimal k) g;
          (ss, g2) = create_links i n m (k + 1) g1 in (s # ss, g2))"

definition make_split :: "int \<Rightarrow> string \<Rightarrow> nat \<Rightarrow> stream_addr \<Rightarrow> ('c, 'v) graph \<Rightarrow> (stream_addr list, 'c, 'v) made" where
  "make_split i n branches source g =
     (let (links, g1) = create_links i n branches 0 g in
      case stream_new i g1 of
        None \<Rightarrow> None
      | Some (st, g2) \<Rightarrow>
          (let (con, g3) = alloc_operator (SplitStream st links [0..<branches]) g2;
               g4 = g3\<lparr>buildables := buildables g3 @ [con]\<rparr> in
           case try_set_consumer source con i g4 of
             (Inl e, g5) \<Rightarrow> Some (Inl e, g5)
           | (Inr _, g5) \<Rightarrow> Some (Inr links, g5)))"

definition make_case :: "int \<Rightarrow> ('v \<Rightarrow> nat) \<Rightarrow> stream_addr \<Rightarrow> ('c, 'v) graph \<Rightarrow> (op_addr, 'c, 'v) made" where
  "make_case i sel source g =
     (let g1 = register_runtime_stream i g; con = length (operators g1) in
      connect source (CaseStream i sel []) i con g1)"

definition add_when :: "op_addr \<Rightarrow> int \<Rightarrow> ('c, 'v) graph \<Rightarrow> (stream_addr, 'c, 'v) made" where
  "add_when con j g =
     (case operators g ! con of
        CaseStream i sel ws \<Rightarrow>
          (case stream_new j g of
             None \<Rightarrow> None
           | Some (out, g1) \<Rightarrow>
               (let g2 = register_graph_link i j (call_semantics i j g1) (counters g1) (g1\<lparr>counters := counters g1 + 1\<rparr>) in
                Some (Inr out, g2\<lparr>operators := (operators g2)[con := CaseStream i sel (ws @ [out])]\<rparr>)))
      | _ \<Rightarrow> None)"

text \<open>
  \<open>TypedCaseStream::when_index\<close>: the loop keeps the index found so far; the error of an ambiguous
  or unknown name is represented by its fixed text.
\<close>

fun when_loop :: "string \<Rightarrow> stream list \<Rightarrow> nat \<Rightarrow> stream_addr list \<Rightarrow> nat option \<Rightarrow> nat option runtime_result" where
  "when_loop n sts k [] sel = Inr sel"
| "when_loop n sts k (w # ws) sel =
     (if str_name (sts ! w) \<noteq> n then when_loop n sts (k + 1) ws sel
      else case sel of
        Some _ \<Rightarrow> Inl (InvalidConfiguration ''case branch is ambiguous'')
      | None \<Rightarrow> when_loop n sts (k + 1) ws (Some k))"

definition when_index :: "string \<Rightarrow> stream list \<Rightarrow> stream_addr list \<Rightarrow> nat runtime_result" where
  "when_index n sts ws =
     (if n = [] then Inl (InvalidConfiguration ''case branch name must not be empty'')
      else bind_rt (when_loop n sts 0 ws None) (\<lambda>sel.
        case sel of Some k \<Rightarrow> Inr k | None \<Rightarrow> Inl (InvalidConfiguration ''case branch was not found'')))"

text \<open>\<open>TypedCaseStream::from_branches\<close> accepts only the registered branches, by id and in order.\<close>

definition from_branches :: "stream list \<Rightarrow> stream_addr list \<Rightarrow> stream_addr list \<Rightarrow> unit runtime_result" where
  "from_branches sts expected branches =
     (if length expected \<noteq> length branches \<or>
         list_ex (\<lambda>(k, w). (if k < length branches then Some (str_id (sts ! (branches ! k))) else None) \<noteq> Some (str_id (sts ! w)))
           (List.enumerate 0 expected)
      then Inl (InvalidConfiguration ''typed branches must match the registered When streams in order'') else Inr ())"

text \<open>The result is the operator and its error stream.\<close>

definition make_sink :: "int \<Rightarrow> stream_addr \<Rightarrow> ('c, 'v) graph \<Rightarrow> (op_addr \<times> stream_addr, 'c, 'v) made" where
  "make_sink i source g =
     (let g1 = register_runtime_stream i g in
      case stream_new (- i) g1 of
        None \<Rightarrow> None
      | Some (err, g2) \<Rightarrow>
          connect source (SinkStream err None) i (length (operators g2), err) g2)"

definition set_sink_consumer :: "op_addr \<Rightarrow> nat \<Rightarrow> ('c, 'v) graph \<Rightarrow> ('c, 'v) graph" where
  "set_sink_consumer con k g =
     (case operators g ! con of
        SinkStream err _ \<Rightarrow> g\<lparr>operators := (operators g)[con := SinkStream err (Some k)]\<rparr>
      | _ \<Rightarrow> g)"

definition make_link :: "int \<Rightarrow> ('c, 'v) graph \<Rightarrow> (op_addr \<times> stream_addr, 'c, 'v) made" where
  "make_link i g =
     (case stream_new i g of
        None \<Rightarrow> None
      | Some (st, g1) \<Rightarrow>
          (let (con, g2) = alloc_operator (LinkStream st None) g1 in Some (Inr (con, st), g2)))"

definition set_source :: "op_addr \<Rightarrow> stream_addr \<Rightarrow> ('c, 'v) graph \<Rightarrow> (unit, 'c, 'v) made" where
  "set_source con source g =
     (case operators g ! con of
        LinkStream st (Some _) \<Rightarrow> Some (Inl (SourceAlreadySet (str_name (streams g ! st))), g)
      | LinkStream st None \<Rightarrow>
          (case try_set_typed_consumer source con (str_id (streams g ! st)) g of
             (Inl e, g1) \<Rightarrow> Some (Inl e, g1)
           | (Inr _, g1) \<Rightarrow> Some (Inr (), g1\<lparr>operators := (operators g1)[con := LinkStream st (Some source)]\<rparr>))
      | _ \<Rightarrow> None)"

section \<open>Building\<close>

definition stream_is_async :: "stream \<Rightarrow> bool" where
  "stream_is_async s = (case downstream s of Some l \<Rightarrow> caller_is_async (caller l) | None \<Rightarrow> False)"

text \<open>\<open>SplitStream::build\<close>: branches with an asynchronous link first, otherwise in order.\<close>

definition split_order :: "stream list \<Rightarrow> stream_addr list \<Rightarrow> nat list" where
  "split_order sts links = sort_key (\<lambda>k. if \<not> stream_is_async (sts ! (links ! k)) then 1 else (0::nat)) [0..<length links]"

definition build_operator :: "op_addr \<Rightarrow> ('c, 'v) graph \<Rightarrow> unit runtime_result \<times> ('c, 'v) graph" where
  "build_operator con g =
     (case operators g ! con of
        SplitStream st links ord \<Rightarrow>
          (case find (\<lambda>s. downstream (streams g ! s) = None) links of
             Some s \<Rightarrow> (Inl (ConsumerNotSet (str_name (streams g ! s))), g)
           | None \<Rightarrow>
               (Inr (), g\<lparr>operators := (operators g)[con := SplitStream st links (split_order (streams g) links)]\<rparr>))
      | _ \<Rightarrow> (Inr (), g))"

fun build_all :: "op_addr list \<Rightarrow> ('c, 'v) graph \<Rightarrow> unit runtime_result \<times> ('c, 'v) graph" where
  "build_all [] g = (Inr (), g)"
| "build_all (b # bs) g = (case build_operator b g of (Inl e, g1) \<Rightarrow> (Inl e, g1) | (Inr _, g1) \<Rightarrow> build_all bs g1)"

definition build_runtime_streams :: "('c, 'v) graph \<Rightarrow> unit runtime_result \<times> ('c, 'v) graph" where
  "build_runtime_streams g = build_all (buildables g) g"

section \<open>Construction programs\<close>

text \<open>
  The calls a service makes to construct its graph with the fluent interface. A command refers to
  streams and operators that exist; an error is reported to the caller, who may go on.
\<close>

datatype ('c, 'v) build_command =
    NewInput int
  | NewMap int stream_addr "'c \<Rightarrow> 'v \<Rightarrow> ('c \<times> 'v) list"
  | NewFilter int stream_addr "'c \<Rightarrow> 'v \<Rightarrow> bool"
  | NewFlatMap int stream_addr "'c \<Rightarrow> 'v \<Rightarrow> ('c \<times> 'v) list"
  | NewFlatMapIterable int stream_addr "'v \<Rightarrow> 'v list"
  | NewKeyBy int stream_addr "'c \<Rightarrow> 'v \<Rightarrow> ('c \<times> 'v) list"
  | NewMerge int "stream_addr list"
  | NewProcess int stream_addr "'c \<Rightarrow> 'v \<Rightarrow> (bool \<times> 'c \<times> 'v) list"
  | NewSplit int string nat stream_addr
  | NewCase int stream_addr "'v \<Rightarrow> nat"
  | NewWhen op_addr int
  | NewSink int stream_addr
  | SetSink op_addr nat
  | AddTaskPool string nat
  | AddPriorityTaskPool string nat
  | Build

abbreviation graph_of :: "('a, 'c, 'v) made \<Rightarrow> ('c, 'v) graph option" where
  "graph_of m \<equiv> map_option snd m"

fun sources_of :: "('c, 'v) build_command \<Rightarrow> stream_addr list" where
  "sources_of (NewMap _ s _) = [s]"
| "sources_of (NewFilter _ s _) = [s]"
| "sources_of (NewFlatMap _ s _) = [s]"
| "sources_of (NewFlatMapIterable _ s _) = [s]"
| "sources_of (NewKeyBy _ s _) = [s]"
| "sources_of (NewMerge _ ss) = ss"
| "sources_of (NewProcess _ s _) = [s]"
| "sources_of (NewSplit _ _ _ s) = [s]"
| "sources_of (NewCase _ s _) = [s]"
| "sources_of (NewSink _ s) = [s]"
| "sources_of _ = []"

fun build_cmd :: "('c, 'v) build_command \<Rightarrow> ('c, 'v) graph \<Rightarrow> ('c, 'v) graph option" where
  "build_cmd (NewInput i) g = graph_of (make_input i g)"
| "build_cmd (NewMap i s f) g = graph_of (make_map i s f g)"
| "build_cmd (NewFilter i s f) g = graph_of (make_filter i s f g)"
| "build_cmd (NewFlatMap i s f) g = graph_of (make_flat_map i s f g)"
| "build_cmd (NewFlatMapIterable i s f) g = graph_of (make_flat_map_iterable i s f g)"
| "build_cmd (NewKeyBy i s f) g = graph_of (make_key_by i s f g)"
| "build_cmd (NewMerge i ss) g = graph_of (make_merge i ss g)"
| "build_cmd (NewProcess i s f) g = graph_of (make_process i s f g)"
| "build_cmd (NewSplit i n k s) g = graph_of (make_split i n k s g)"
| "build_cmd (NewCase i s sel) g = graph_of (make_case i sel s g)"
| "build_cmd (NewWhen con j) g = (if con < length (operators g) then graph_of (add_when con j g) else None)"
| "build_cmd (NewSink i s) g = graph_of (make_sink i s g)"
| "build_cmd (SetSink con k) g = (if con < length (operators g) then Some (set_sink_consumer con k g) else None)"
| "build_cmd (AddTaskPool n p) g = Some (snd (register_task_pool n p g))"
| "build_cmd (AddPriorityTaskPool n p) g = Some (snd (register_priority_task_pool n p g))"
| "build_cmd Build g = Some (snd (build_runtime_streams g))"

fun build_graph :: "('c, 'v) build_command list \<Rightarrow> ('c, 'v) graph \<Rightarrow> ('c, 'v) graph option" where
  "build_graph [] g = Some g"
| "build_graph (x # xs) g =
     (if list_all (\<lambda>s. s < length (streams g)) (sources_of x)
      then case build_cmd x g of None \<Rightarrow> None | Some g' \<Rightarrow> build_graph xs g'
      else None)"

section \<open>Forward graphs\<close>

fun targets :: "('c, 'v) operator \<Rightarrow> stream_addr list" where
  "targets (MapStream out _) = [out]"
| "targets (FilterStream out _) = [out]"
| "targets (FlatMapStream out _) = [out]"
| "targets (FlatMapIterableStream out _) = [out]"
| "targets (KeyByStream out _) = [out]"
| "targets (MergeStream out) = [out]"
| "targets (SplitStream _ links _) = links"
| "targets (CaseStream _ _ ws) = ws"
| "targets (ProcessStream out err _) = [out, err]"
| "targets (SinkStream _ _) = []"
| "targets (LinkStream st _) = [st]"

fun order_ok :: "('c, 'v) operator \<Rightarrow> bool" where
  "order_ok (SplitStream _ links ord) \<longleftrightarrow> mset ord = mset [0..<length links]"
| "order_ok _ \<longleftrightarrow> True"

definition op_ok :: "nat \<Rightarrow> ('c, 'v) operator \<Rightarrow> bool" where
  "op_ok n oper \<longleftrightarrow> list_all (\<lambda>t. t < n) (targets oper) \<and> order_ok oper"

text \<open>Every link leads to an operator whose output streams are younger than the linked stream.\<close>

definition forward :: "stream list \<Rightarrow> ('c, 'v) operator list \<Rightarrow> bool" where
  "forward sts ops \<longleftrightarrow> list_all (op_ok (length sts)) ops \<and>
     (\<forall>s l. s < length sts \<and> downstream (sts ! s) = Some l \<longrightarrow>
        consumer l < length ops \<and> list_all (\<lambda>t. s < t) (targets (ops ! consumer l)))"

abbreviation graph_forward :: "('c, 'v) graph \<Rightarrow> bool" where
  "graph_forward g \<equiv> forward (streams g) (operators g)"

lemma op_ok_mono: "op_ok n oper \<Longrightarrow> n \<le> m \<Longrightarrow> op_ok m oper"
  by (auto simp: op_ok_def list_all_iff)

lemma forward_stream: "forward sts ops \<Longrightarrow> downstream x = None \<Longrightarrow> forward (sts @ [x]) ops"
  by (auto simp: forward_def list_all_iff nth_append less_Suc_eq intro: op_ok_mono [of "length sts"])

lemma forward_operator: "forward sts ops \<Longrightarrow> op_ok (length sts) oper \<Longrightarrow> forward sts (ops @ [oper])"
  by (fastforce simp: forward_def nth_append)

lemma forward_link:
  assumes "forward sts ops" and "consumer l < length ops" and "list_all (\<lambda>t. s < t) (targets (ops ! consumer l))"
  shows "forward (sts[s := (sts ! s)\<lparr>downstream := Some l\<rparr>]) ops"
proof -
  have "consumer k < length ops \<and> list_all (\<lambda>t. x < t) (targets (ops ! consumer k))"
    if "x < length sts" "downstream (sts[s := (sts ! s)\<lparr>downstream := Some l\<rparr>] ! x) = Some k" for x k
    using that assms by (cases "x = s") (auto simp: forward_def)
  with assms(1) show ?thesis unfolding forward_def length_list_update by blast
qed

text \<open>Replacing an operator by one that may also write to the streams \<open>new\<close>.\<close>

lemma forward_replace:
  assumes fw: "forward sts ops" and con: "con < length ops" and ok: "op_ok (length sts) oper"
    and new: "\<And>t. t \<in> set (targets oper) \<Longrightarrow> t \<in> set (targets (ops ! con)) \<or>
      (\<forall>s l. s < length sts \<and> downstream (sts ! s) = Some l \<and> consumer l = con \<longrightarrow> s < t)"
  shows "forward sts (ops[con := oper])"
proof -
  have "list_all (op_ok (length sts)) (ops[con := oper])"
    using fw ok set_update_subset_insert [of ops con oper] by (fastforce simp: forward_def list_all_iff)
  moreover have "list_all (\<lambda>t. s < t) (targets (ops[con := oper] ! consumer l))"
    if "s < length sts" "downstream (sts ! s) = Some l" for s l
    using fw new that con by (cases "consumer l = con") (fastforce simp: forward_def list_all_iff)+
  ultimately show ?thesis using fw by (simp add: forward_def)
qed

section \<open>Construction keeps graphs forward\<close>

lemma register_frame [simp]:
  "streams (register_runtime_stream i g) = streams g" "operators (register_runtime_stream i g) = operators g"
  "streams (register_graph_link a b sem n g) = streams g" "operators (register_graph_link a b sem n g) = operators g"
  by (simp_all add: register_runtime_stream_def register_graph_link_def)

lemma link_new_frame:
  "streams (snd (link_new con sem i t n b g)) = streams g"
  "operators (snd (link_new con sem i t n b g)) = operators g"
  "fst (link_new con sem i t n b g) = Inr l \<Longrightarrow> consumer l = con"
  by (auto simp: link_new_def split: sum.splits)

lemma stream_new_spec:
  assumes "stream_new i g = Some (a, g')"
  shows "a = length (streams g)" "length (streams g') = Suc (length (streams g))" "operators g' = operators g"
    "graph_forward g \<Longrightarrow> graph_forward g'"
  using assms by (auto simp: stream_new_def alloc_stream_def Let_def intro!: forward_stream split: option.splits)

lemma derived_with_name_spec:
  "fst (derived_with_name i n g) = length (streams g)"
  "length (streams (snd (derived_with_name i n g))) = Suc (length (streams g))"
  "operators (snd (derived_with_name i n g)) = operators g"
  "graph_forward g \<Longrightarrow> graph_forward (snd (derived_with_name i n g))"
  by (auto simp: derived_with_name_def alloc_stream_def intro!: forward_stream)

lemma try_set_consumer_forward:
  assumes "graph_forward g" and "con < length (operators g)" and "list_all (\<lambda>t. s < t) (targets (operators g ! con))"
    and "try_set_consumer s con t g = (r, g')"
  shows "graph_forward g'" and "operators g' = operators g" and "length (streams g') = length (streams g)"
proof -
  let ?l = "link_new con (call_semantics (str_id (streams g ! s)) t g) (str_id (streams g ! s)) t
    (str_name (streams g ! s)) (function_call_async (str_id (streams g ! s)) t g) g"
  obtain q g1 where l: "?l = (q, g1)" by fastforce
  then have f: "streams g1 = streams g" "operators g1 = operators g" "\<And>k. q = Inr k \<Longrightarrow> consumer k = con"
    using link_new_frame [of con _ _ t _ _ g] by (metis fst_conv snd_conv)+
  show "graph_forward g'"
    using assms l f by (auto simp: try_set_consumer_def Let_def set_downstream_def
        split: sum.splits option.splits intro!: forward_link)
  show "operators g' = operators g" "length (streams g') = length (streams g)"
    using assms(4) l f by (auto simp: try_set_consumer_def Let_def set_downstream_def split: sum.splits option.splits)
qed

lemma connect_forward:
  assumes "graph_forward g" and "op_ok (length (streams g)) oper" and "list_all (\<lambda>t. s < t) (targets oper)"
    and "connect s oper t res g = Some (r, g')"
  shows "graph_forward g'"
proof -
  let ?g = "g\<lparr>operators := operators g @ [oper]\<rparr>"
  obtain q g2 where q: "try_set_consumer s (length (operators g)) t ?g = (q, g2)" by fastforce
  have "graph_forward g2"
    by (rule try_set_consumer_forward(1) [OF _ _ _ q]) (use assms in \<open>simp_all add: forward_operator\<close>)
  with assms(4) q show ?thesis by (auto simp: connect_def alloc_operator_def split: sum.splits)
qed

lemma make_unary_forward:
  assumes "graph_forward g" and "s < length (streams g)" and "\<And>out. targets (oper out) = [out] \<and> order_ok (oper out)"
    and "make_unary i oper s g = Some (r, g')"
  shows "graph_forward g'"
proof -
  obtain out g1 where g1: "stream_new i g = Some (out, g1)"
    and c: "connect s (oper out) (str_id (streams g1 ! out)) out g1 = Some (r, g')"
    using assms(4) by (auto simp: make_unary_def split: option.splits)
  show ?thesis
    by (rule connect_forward [OF _ _ _ c]) (use assms(1-3) stream_new_spec [OF g1] in \<open>simp_all add: op_ok_def\<close>)
qed

lemma make_process_forward:
  assumes "graph_forward g" and "s < length (streams g)" and "make_process i s f g = Some (r, g')"
  shows "graph_forward g'"
proof -
  obtain out err g1 g2 where g1: "stream_new i g = Some (out, g1)" and g2: "stream_new (- i) g1 = Some (err, g2)"
    and c: "connect s (ProcessStream out err f) (str_id (streams g2 ! out)) (out, err) g2 = Some (r, g')"
    using assms(3) by (auto simp: make_process_def split: option.splits)
  show ?thesis
    by (rule connect_forward [OF _ _ _ c])
      (use assms(1,2) stream_new_spec [OF g1] stream_new_spec [OF g2] in \<open>simp_all add: op_ok_def\<close>)
qed

lemma make_sink_forward:
  assumes "graph_forward g" and "make_sink i s g = Some (r, g')"
  shows "graph_forward g'"
proof -
  obtain err g2 where g2: "stream_new (- i) (register_runtime_stream i g) = Some (err, g2)"
    and c: "connect s (SinkStream err None) i (length (operators g2), err) g2 = Some (r, g')"
    using assms(2) by (auto simp: make_sink_def Let_def split: option.splits)
  show ?thesis
    by (rule connect_forward [OF _ _ _ c]) (use assms(1) stream_new_spec [OF g2] in \<open>simp_all add: op_ok_def\<close>)
qed

lemma make_case_forward:
  assumes "graph_forward g" and "make_case i sel s g = Some (r, g')"
  shows "graph_forward g'"
  using assms connect_forward [of "register_runtime_stream i g" "CaseStream i sel []" s]
  by (auto simp: make_case_def Let_def op_ok_def)

lemma connect_all_forward:
  assumes "graph_forward g" and "con < length (operators g)" and "connect_all ss con t g = (r, g')"
    and "list_all (\<lambda>s. list_all (\<lambda>x. s < x) (targets (operators g ! con))) ss"
  shows "graph_forward g'"
  using assms
proof (induction ss arbitrary: g)
  case (Cons s ss)
  obtain q g1 where q: "try_set_consumer s con t g = (q, g1)" by fastforce
  note f = try_set_consumer_forward [OF Cons.prems(1,2) _ q]
  show ?case
  proof (cases q)
    case (Inl e)
    with Cons.prems q f show ?thesis by simp
  next
    case (Inr u)
    with Cons.prems q f show ?thesis by (intro Cons.IH [of g1]) simp_all
  qed
qed simp

lemma make_merge_forward:
  assumes "graph_forward g" and "list_all (\<lambda>s. s < length (streams g)) ss" and "make_merge i ss g = Some (r, g')"
  shows "graph_forward g'"
proof -
  obtain out g1 q g3 where g1: "stream_new i g = Some (out, g1)"
    and c: "connect_all ss (length (operators g1)) (str_id (streams g1 ! out)) (g1\<lparr>operators := operators g1 @ [MergeStream out]\<rparr>) = (q, g3)"
    and g': "g' = g3"
    using assms(3) by (auto simp: make_merge_def alloc_operator_def Let_def split: if_splits option.splits prod.splits sum.splits)
  have "graph_forward g3"
    by (rule connect_all_forward [OF _ _ c])
      (use assms(1,2) stream_new_spec [OF g1] in \<open>simp_all add: op_ok_def forward_operator\<close>)
  with g' show ?thesis by simp
qed

lemma create_links_spec:
  assumes "create_links i n m k g = (ss, g')" and "graph_forward g"
  shows "graph_forward g' \<and> operators g' = operators g \<and> ss = [length (streams g)..<length (streams g) + m] \<and>
    length (streams g') = length (streams g) + m"
  using assms
proof (induction m arbitrary: k g g' ss)
  case (Suc m)
  let ?d = "derived_with_name i (n @ ''SplitLink'' @ to_decimal k) g"
  obtain ts g2 where r: "create_links i n m (k + 1) (snd ?d) = (ts, g2)" by fastforce
  then have eqs: "ss = fst ?d # ts" "g' = g2"
    using Suc.prems(1) by (auto simp: Let_def split: prod.splits)
  have "graph_forward (snd ?d)" using Suc.prems(2) by (rule derived_with_name_spec(4))
  from Suc.IH [OF r this] have "graph_forward g2" "operators g2 = operators g"
    "ts = [Suc (length (streams g))..<Suc (length (streams g)) + m]" "length (streams g2) = Suc (length (streams g)) + m"
    unfolding derived_with_name_spec by auto
  then show ?case
    unfolding eqs derived_with_name_spec(1) by (simp add: upt_conv_Cons)
qed simp

lemma make_split_forward:
  assumes fw: "graph_forward g" and s: "s < length (streams g)" and mk: "make_split i n m s g = Some (r, g')"
  shows "graph_forward g'"
proof -
  obtain links g1 where cl: "create_links i n m 0 g = (links, g1)" by fastforce
  note c = create_links_spec [OF cl fw]
  obtain st g2 q g5 where g2: "stream_new i g1 = Some (st, g2)"
    and t: "try_set_consumer s (length (operators g2)) i
      (g2\<lparr>operators := operators g2 @ [SplitStream st links [0..<m]], buildables := buildables g2 @ [length (operators g2)]\<rparr>) = (q, g5)"
    and g': "g' = g5"
    using mk cl by (auto simp: make_split_def alloc_operator_def Let_def split: option.splits prod.splits sum.splits)
  have "op_ok (length (streams g2)) (SplitStream st links [0..<m])"
    using c stream_new_spec [OF g2] by (auto simp: op_ok_def list_all_iff)
  moreover have "list_all (\<lambda>t. s < t) links" using c s by (auto simp: list_all_iff)
  moreover have "graph_forward g2" using c by (intro stream_new_spec(4) [OF g2] conjunct1 [OF c])
  ultimately have "graph_forward g5"
    by (intro try_set_consumer_forward(1) [OF _ _ _ t]) (auto intro: forward_operator)
  with g' show ?thesis by simp
qed

lemma add_when_spec:
  assumes "add_when con j g = Some (r, g')"
  obtains i sel ws out g1 where "operators g ! con = CaseStream i sel ws" and "stream_new j g = Some (out, g1)"
    and "streams g' = streams g1" and "operators g' = (operators g1)[con := CaseStream i sel (ws @ [out])]"
  using assms by (cases "operators g ! con") (auto simp: add_when_def Let_def split: option.splits)

lemma stream_new_unlinked:
  "stream_new i g = Some (a, g') \<Longrightarrow> downstream (streams g' ! a) = None"
  by (auto simp: stream_new_def alloc_stream_def Let_def split: option.splits)

lemma add_when_forward:
  assumes fw: "graph_forward g" and con: "con < length (operators g)" and mk: "add_when con j g = Some (r, g')"
  shows "graph_forward g'"
proof -
  obtain i sel ws out g1 where o: "operators g ! con = CaseStream i sel ws" and g1: "stream_new j g = Some (out, g1)"
    and g': "streams g' = streams g1" "operators g' = (operators g1)[con := CaseStream i sel (ws @ [out])]"
    using mk by (rule add_when_spec)
  note sp = stream_new_spec [OF g1]
  have "op_ok (length (streams g)) (operators g ! con)"
    using fw con by (simp add: forward_def list_all_length)
  then have ok: "op_ok (length (streams g1)) (CaseStream i sel (ws @ [out]))"
    unfolding o using sp by (auto simp: op_ok_def list_all_iff)
  have younger: "s < out" if "s < length (streams g1)" "downstream (streams g1 ! s) = Some l" for s l
    using that sp stream_new_unlinked [OF g1] by (cases "s = out") auto
  have "graph_forward g1" using sp(4) [OF fw] .
  moreover have "con < length (operators g1)" using con sp(3) by simp
  ultimately show ?thesis unfolding g'
    by (rule forward_replace [OF _ _ ok]) (use o sp(3) younger in auto)
qed

lemma set_sink_consumer_forward:
  assumes "graph_forward g" and "con < length (operators g)"
  shows "graph_forward (set_sink_consumer con k g)"
  using assms by (auto simp: set_sink_consumer_def op_ok_def split: operator.splits intro!: forward_replace)

lemma split_order_mset: "mset (split_order sts links) = mset [0..<length links]"
  by (simp add: split_order_def)

lemma build_operator_forward:
  assumes "graph_forward g"
  shows "graph_forward (snd (build_operator con g))"
proof (cases "con < length (operators g)")
  case True
  then have "op_ok (length (streams g)) (operators g ! con)" using assms by (simp add: forward_def list_all_length)
  with assms True show ?thesis
    by (auto simp: build_operator_def op_ok_def split_order_mset split: operator.splits option.splits intro!: forward_replace)
next
  case False
  then have "(operators g)[con := x] = operators g" for x by (simp add: list_update_beyond)
  with assms show ?thesis by (auto simp: build_operator_def split: operator.splits option.splits)
qed

lemma build_all_forward: "graph_forward g \<Longrightarrow> graph_forward (snd (build_all bs g))"
proof (induction bs arbitrary: g)
  case (Cons b bs)
  obtain q g1 where q: "build_operator b g = (q, g1)" by fastforce
  then have "graph_forward g1" using build_operator_forward [OF Cons.prems, of b] by simp
  with q Cons.IH show ?case by (auto split: sum.splits)
qed simp

lemma make_input_forward: "graph_forward g \<Longrightarrow> make_input i g = Some (r, g') \<Longrightarrow> graph_forward g'"
  by (auto simp: make_input_def dest!: stream_new_spec(4) split: option.splits)

lemma build_cmd_forward:
  assumes fw: "graph_forward g" and src: "list_all (\<lambda>s. s < length (streams g)) (sources_of x)"
    and x: "build_cmd x g = Some g'"
  shows "graph_forward g'"
proof -
  show ?thesis
  proof (cases x)
    case (NewMap i s f)
    then show ?thesis using x src make_unary_forward [OF fw, of s "\<lambda>out. MapStream out f" i] by (auto simp: make_map_def)
  next
    case (NewFilter i s f)
    then show ?thesis using x src make_unary_forward [OF fw, of s "\<lambda>out. FilterStream out f" i] by (auto simp: make_filter_def)
  next
    case (NewFlatMap i s f)
    then show ?thesis using x src make_unary_forward [OF fw, of s "\<lambda>out. FlatMapStream out f" i] by (auto simp: make_flat_map_def)
  next
    case (NewFlatMapIterable i s f)
    then show ?thesis using x src make_unary_forward [OF fw, of s "\<lambda>out. FlatMapIterableStream out f" i] by (auto simp: make_flat_map_iterable_def)
  next
    case (NewKeyBy i s f)
    then show ?thesis using x src make_unary_forward [OF fw, of s "\<lambda>out. KeyByStream out f" i] by (auto simp: make_key_by_def)
  next
    case (NewMerge i ss)
    then show ?thesis using x src by (auto intro: make_merge_forward [OF fw])
  next
    case (NewProcess i s f)
    then show ?thesis using x src by (auto intro: make_process_forward [OF fw])
  next
    case (NewSplit i n k s)
    then show ?thesis using x src by (auto intro: make_split_forward [OF fw])
  next
    case (NewWhen con j)
    then show ?thesis using x by (auto intro: add_when_forward [OF fw] split: if_splits)
  next
    case (SetSink con k)
    then show ?thesis using x by (auto intro: set_sink_consumer_forward [OF fw] split: if_splits)
  next
    case (NewInput i)
    then show ?thesis using x by (auto intro: make_input_forward [OF fw])
  next
    case (NewCase i s sel)
    then show ?thesis using x by (auto intro: make_case_forward [OF fw])
  next
    case (NewSink i s)
    then show ?thesis using x by (auto intro: make_sink_forward [OF fw])
  qed (use x fw in \<open>auto simp: register_task_pool_def register_priority_task_pool_def build_runtime_streams_def build_all_forward\<close>)
qed

lemma build_graph_forward: "build_graph xs g = Some g' \<Longrightarrow> graph_forward g \<Longrightarrow> graph_forward g'"
  by (induction xs arbitrary: g) (auto split: if_splits option.splits dest: build_cmd_forward)

lemma graph_new_forward: "graph_forward (graph_new svc cfg)"
  by (simp add: forward_def graph_new_def)

section \<open>Branches of a case\<close>

definition named :: "string \<Rightarrow> stream list \<Rightarrow> nat \<Rightarrow> stream_addr list \<Rightarrow> nat list" where
  "named n sts k ws = map fst (filter (\<lambda>(i, w). str_name (sts ! w) = n) (List.enumerate k ws))"

lemma when_loop_named:
  "when_loop n sts k ws sel =
     (case (case sel of None \<Rightarrow> [] | Some j \<Rightarrow> [j]) @ named n sts k ws of
        [] \<Rightarrow> Inr None
      | [j] \<Rightarrow> Inr (Some j)
      | _ \<Rightarrow> Inl (InvalidConfiguration ''case branch is ambiguous''))"
proof (induction ws arbitrary: k sel)
  case Nil
  then show ?case by (auto simp: named_def split: option.splits)
next
  case (Cons w ws)
  have "named n sts k (w # ws) = (if str_name (sts ! w) = n then [k] else []) @ named n sts (Suc k) ws"
    by (simp add: named_def)
  with Cons.IH show ?case by (auto split: option.splits list.splits)
qed

text \<open>
  A branch of a case is found by its name exactly when the name is not empty and one branch, and
  one only, has it: the index is that of this branch.
\<close>

theorem when_index_unique:
  "when_index n sts ws = Inr k \<longleftrightarrow>
     n \<noteq> [] \<and> map fst (filter (\<lambda>(i, w). str_name (sts ! w) = n) (List.enumerate 0 ws)) = [k]"
  by (auto simp: when_index_def when_loop_named named_def split: list.splits)

end
