(* ===== verification/Graph_Runs.thy ===== *)
theory Graph_Runs
  imports Stream_Graph "HOL-Library.Multiset"
begin

text \<open>
  Messages in a stream graph: \<open>Stream::emit\<close> (\<open>src/runtime/stream.rs\<close>), \<open>LinkCollector::out_payload\<close>
  (\<open>src/runtime/collector.rs\<close>) and \<open>consume\<close> of the stateless operators (\<open>src/operators\<close>). A task
  of the service is a thread with a stack of calls; a direct call pushes on the stack of its caller,
  a parallel or pooled call starts a thread, a schedule interleaves the threads in any way. The lemmas
  show that on a graph without cycles every schedule ends and that, whatever the call semantics of the
  links, the same messages arrive, apart from what a pool rejected.

  The context of a message is a parameter type with the operations of the tracing engine.
\<close>

section \<open>Steps\<close>

record 'c tracer =
  op_span :: "string \<Rightarrow> int \<Rightarrow> 'c \<Rightarrow> 'c"
  link_span :: "link \<Rightarrow> 'c \<Rightarrow> 'c"
  context_priority :: "'c \<Rightarrow> int option"

datatype ('c, 'v) item = Emit stream_addr 'c 'v | Consume op_addr 'c 'v | Endpoint nat 'c 'v

datatype ('c, 'v) event =
  Called nat | Dropped stream_addr 'c 'v | Rejected op_addr 'c 'v | Delivered nat 'c 'v

datatype via = Source | Parallel | Pooled nat | Prioritised nat int

text \<open>
  The loop of \<open>SplitStream::consume\<close>: the last branch takes the context and the payload, the others
  get copies; \<open>None\<close> is a failed \<open>expect\<close>.
\<close>

fun split_loop :: "nat \<Rightarrow> nat \<Rightarrow> nat list \<Rightarrow> 'c option \<Rightarrow> 'v option \<Rightarrow> (nat \<times> 'c \<times> 'v) list option" where
  "split_loop n pos [] c v = Some []"
| "split_loop n pos (k # ks) (Some c) (Some v) =
     map_option (\<lambda>rest. (k, c, v) # rest)
       (if pos + 1 = n then split_loop n (pos + 1) ks None None else split_loop n (pos + 1) ks (Some c) (Some v))"
| "split_loop n pos (k # ks) _ _ = None"

text \<open>The loop of \<open>FlatMapIterableStream::consume\<close>, which looks one item ahead.\<close>

fun iterable_loop :: "'v list \<Rightarrow> 'c option \<Rightarrow> ('c \<times> 'v) list option" where
  "iterable_loop [] c = Some []"
| "iterable_loop (x # xs) (Some c) =
     map_option (\<lambda>rest. (c, x) # rest) (iterable_loop xs (if xs = [] then None else Some c))"
| "iterable_loop (x # xs) None = None"

text \<open>\<open>consume\<close> of each operator: the calls it makes on its output streams.\<close>

definition map_consume :: "'c tracer \<Rightarrow> ('c, 'v) graph \<Rightarrow> stream_addr \<Rightarrow> ('c \<Rightarrow> 'v \<Rightarrow> ('c \<times> 'v) list) \<Rightarrow> 'c \<Rightarrow> 'v \<Rightarrow> ('c, 'v) item list option" where
  [simp]: "map_consume tr g out f c v =
     Some (map (\<lambda>(c', v'). Emit out c' v') (f (op_span tr ''stream.map'' (str_id (streams g ! out)) c) v))"

definition filter_consume :: "'c tracer \<Rightarrow> ('c, 'v) graph \<Rightarrow> stream_addr \<Rightarrow> ('c \<Rightarrow> 'v \<Rightarrow> bool) \<Rightarrow> 'c \<Rightarrow> 'v \<Rightarrow> ('c, 'v) item list option" where
  [simp]: "filter_consume tr g out f c v =
     (let c1 = op_span tr ''stream.filter'' (str_id (streams g ! out)) c in
      Some (if f c1 v then [Emit out c1 v] else []))"

definition flat_map_consume :: "'c tracer \<Rightarrow> ('c, 'v) graph \<Rightarrow> stream_addr \<Rightarrow> ('c \<Rightarrow> 'v \<Rightarrow> ('c \<times> 'v) list) \<Rightarrow> 'c \<Rightarrow> 'v \<Rightarrow> ('c, 'v) item list option" where
  [simp]: "flat_map_consume tr g out f c v =
     Some (map (\<lambda>(c', v'). Emit out c' v') (f (op_span tr ''stream.flatmap'' (str_id (streams g ! out)) c) v))"

definition flat_map_iterable_consume :: "'c tracer \<Rightarrow> ('c, 'v) graph \<Rightarrow> stream_addr \<Rightarrow> ('v \<Rightarrow> 'v list) \<Rightarrow> 'c \<Rightarrow> 'v \<Rightarrow> ('c, 'v) item list option" where
  [simp]: "flat_map_iterable_consume tr g out f c v =
     map_option (map (\<lambda>(c', v'). Emit out c' v'))
       (iterable_loop (f v) (Some (op_span tr ''stream.flatmap_iterable'' (str_id (streams g ! out)) c)))"

definition key_by_consume :: "'c tracer \<Rightarrow> ('c, 'v) graph \<Rightarrow> stream_addr \<Rightarrow> ('c \<Rightarrow> 'v \<Rightarrow> ('c \<times> 'v) list) \<Rightarrow> 'c \<Rightarrow> 'v \<Rightarrow> ('c, 'v) item list option" where
  [simp]: "key_by_consume tr g out f c v =
     Some (map (\<lambda>(c', v'). Emit out c' v') (f (op_span tr ''stream.keyby'' (str_id (streams g ! out)) c) v))"

definition merge_consume :: "'c tracer \<Rightarrow> ('c, 'v) graph \<Rightarrow> stream_addr \<Rightarrow> 'c \<Rightarrow> 'v \<Rightarrow> ('c, 'v) item list option" where
  [simp]: "merge_consume tr g out c v =
     Some [Emit out (op_span tr ''stream.merge'' (str_id (streams g ! out)) c) v]"

definition split_consume :: "'c tracer \<Rightarrow> ('c, 'v) graph \<Rightarrow> stream_addr \<Rightarrow> stream_addr list \<Rightarrow> nat list \<Rightarrow> 'c \<Rightarrow> 'v \<Rightarrow> ('c, 'v) item list option" where
  [simp]: "split_consume tr g st links ord c v =
     map_option (map (\<lambda>(k, c', v'). Emit (links ! k) c' v'))
       (split_loop (length links) 0 ord (Some (op_span tr ''stream.split'' (str_id (streams g ! st)) c)) (Some v))"

definition case_consume :: "'c tracer \<Rightarrow> ('c, 'v) graph \<Rightarrow> ('v \<Rightarrow> nat) \<Rightarrow> stream_addr list \<Rightarrow> 'c \<Rightarrow> 'v \<Rightarrow> ('c, 'v) item list option" where
  [simp]: "case_consume tr g sel ws c v =
     (let k = sel v in
      if k < length ws
      then Some [Emit (ws ! k) (op_span tr ''stream.case'' (str_id (streams g ! (ws ! k))) c) v] else None)"

definition process_consume :: "'c tracer \<Rightarrow> ('c, 'v) graph \<Rightarrow> stream_addr \<Rightarrow> stream_addr \<Rightarrow> ('c \<Rightarrow> 'v \<Rightarrow> (bool \<times> 'c \<times> 'v) list) \<Rightarrow> 'c \<Rightarrow> 'v \<Rightarrow> ('c, 'v) item list option" where
  [simp]: "process_consume tr g out err f c v =
     Some (map (\<lambda>(b, c', v'). Emit (if b then err else out) c' v') (f (op_span tr ''stream.process'' (str_id (streams g ! out)) c) v))"

definition sink_consume :: "'c tracer \<Rightarrow> ('c, 'v) graph \<Rightarrow> stream_addr \<Rightarrow> nat option \<Rightarrow> 'c \<Rightarrow> 'v \<Rightarrow> ('c, 'v) item list option" where
  [simp]: "sink_consume tr g err k c v =
     (let c1 = op_span tr ''stream.sink'' (- str_id (streams g ! err)) c in
      Some (case k of None \<Rightarrow> [] | Some e \<Rightarrow> [Endpoint e c1 v]))"

definition link_consume :: "'c tracer \<Rightarrow> ('c, 'v) graph \<Rightarrow> stream_addr \<Rightarrow> 'c \<Rightarrow> 'v \<Rightarrow> ('c, 'v) item list option" where
  [simp]: "link_consume tr g st c v =
     Some [Emit st (op_span tr ''stream.link'' (str_id (streams g ! st)) c) v]"

fun op_emits :: "'c tracer \<Rightarrow> ('c, 'v) graph \<Rightarrow> ('c, 'v) operator \<Rightarrow> 'c \<Rightarrow> 'v \<Rightarrow> ('c, 'v) item list option" where
  "op_emits tr g (MapStream out f) c v = map_consume tr g out f c v"
| "op_emits tr g (FilterStream out f) c v = filter_consume tr g out f c v"
| "op_emits tr g (FlatMapStream out f) c v = flat_map_consume tr g out f c v"
| "op_emits tr g (FlatMapIterableStream out f) c v = flat_map_iterable_consume tr g out f c v"
| "op_emits tr g (KeyByStream out f) c v = key_by_consume tr g out f c v"
| "op_emits tr g (MergeStream out) c v = merge_consume tr g out c v"
| "op_emits tr g (SplitStream st links ord) c v = split_consume tr g st links ord c v"
| "op_emits tr g (CaseStream i sel ws) c v = case_consume tr g sel ws c v"
| "op_emits tr g (ProcessStream out err f) c v = process_consume tr g out err f c v"
| "op_emits tr g (SinkStream err k) c v = sink_consume tr g err k c v"
| "op_emits tr g (LinkStream st src) c v = link_consume tr g st c v"

text \<open>
  One call: what it calls directly, the threads it starts and the events it causes. \<open>ok\<close> is the
  answer of the pool.
\<close>

definition emit_link :: "'c tracer \<Rightarrow> bool \<Rightarrow> link \<Rightarrow> 'c \<Rightarrow> 'v \<Rightarrow>
    ('c, 'v) item list \<times> (via \<times> ('c, 'v) item list) list \<times> ('c, 'v) event list" where
  "emit_link tr ok l c v =
     (let c1 = link_span tr l c; it = Consume (consumer l) c1 v in
      case caller l of
        CallDirect _ \<Rightarrow> ([it], [], [Called (calls l)])
      | CallParallel \<Rightarrow> ([], [(Parallel, [it])], [Called (calls l)])
      | CallTaskPool p \<Rightarrow>
          if ok then ([], [(Pooled p, [it])], [Called (calls l)])
          else ([], [], [Called (calls l), Rejected (consumer l) c1 v])
      | CallPriorityTaskPool p pr \<Rightarrow>
          if ok then ([], [(Prioritised p (case context_priority tr c1 of Some q \<Rightarrow> q | None \<Rightarrow> pr), [it])], [Called (calls l)])
          else ([], [], [Called (calls l), Rejected (consumer l) c1 v]))"

fun exec_item :: "'c tracer \<Rightarrow> ('c, 'v) graph \<Rightarrow> bool \<Rightarrow> ('c, 'v) item \<Rightarrow>
    (('c, 'v) item list \<times> (via \<times> ('c, 'v) item list) list \<times> ('c, 'v) event list) option" where
  "exec_item tr g ok (Emit s c v) =
     (case downstream (streams g ! s) of
        None \<Rightarrow> Some ([], [], [Dropped s c v])
      | Some l \<Rightarrow> Some (emit_link tr ok l c v))"
| "exec_item tr g ok (Consume con c v) =
     (case op_emits tr g (operators g ! con) c v of
        None \<Rightarrow> None
      | Some its \<Rightarrow> Some (its, [], []))"
| "exec_item tr g ok (Endpoint k c v) = Some ([], [], [Delivered k c v])"

record ('c, 'v) run =
  threads :: "(via \<times> ('c, 'v) item list) list"
  events :: "('c, 'v) event list"

definition run_step :: "'c tracer \<Rightarrow> ('c, 'v) graph \<Rightarrow> nat \<times> bool \<Rightarrow> ('c, 'v) run \<Rightarrow> ('c, 'v) run option" where
  "run_step tr g a r =
     (let (n, ok) = a in
      if n < length (threads r) then
        (case snd (threads r ! n) of
           [] \<Rightarrow> None
         | it # rest \<Rightarrow>
             (case exec_item tr g ok it of
                None \<Rightarrow> None
              | Some (cont, new, evs) \<Rightarrow>
                  Some \<lparr>threads = (threads r)[n := (fst (threads r ! n), cont @ rest)] @ new, events = events r @ evs\<rparr>))
      else None)"

fun run_schedule :: "'c tracer \<Rightarrow> ('c, 'v) graph \<Rightarrow> (nat \<times> bool) list \<Rightarrow> ('c, 'v) run \<Rightarrow> ('c, 'v) run option" where
  "run_schedule tr g [] r = Some r"
| "run_schedule tr g (a # as) r = (case run_step tr g a r of None \<Rightarrow> None | Some r' \<Rightarrow> run_schedule tr g as r')"

definition run_start :: "stream_addr \<Rightarrow> 'c \<Rightarrow> 'v \<Rightarrow> ('c, 'v) run" where
  "run_start s c v = \<lparr>threads = [(Source, [Emit s c v])], events = []\<rparr>"

section \<open>What a message causes\<close>

text \<open>
  The reference ignores call semantics: it follows every call depth first. Its fuel bounds the depth.
\<close>

definition children :: "'c tracer \<Rightarrow> ('c, 'v) graph \<Rightarrow> ('c, 'v) item \<Rightarrow> ('c, 'v) item list option" where
  "children tr g it =
     (case it of
        Emit s c v \<Rightarrow> (case downstream (streams g ! s) of None \<Rightarrow> Some [] | Some l \<Rightarrow> Some [Consume (consumer l) (link_span tr l c) v])
      | Consume con c v \<Rightarrow> op_emits tr g (operators g ! con) c v
      | Endpoint k c v \<Rightarrow> Some [])"

definition own_event :: "('c, 'v) graph \<Rightarrow> ('c, 'v) item \<Rightarrow> ('c, 'v) event list" where
  "own_event g it =
     (case it of
        Emit s c v \<Rightarrow> (case downstream (streams g ! s) of None \<Rightarrow> [Dropped s c v] | Some l \<Rightarrow> [Called (calls l)])
      | Consume con c v \<Rightarrow> []
      | Endpoint k c v \<Rightarrow> [Delivered k c v])"

fun trace :: "'c tracer \<Rightarrow> ('c, 'v) graph \<Rightarrow> nat \<Rightarrow> ('c, 'v) item \<Rightarrow> ('c, 'v) event list" where
  "trace tr g 0 it = []"
| "trace tr g (Suc k) it = own_event g it @ (case children tr g it of None \<Rightarrow> [] | Some its \<Rightarrow> concat (map (trace tr g k) its))"

fun work :: "'c tracer \<Rightarrow> ('c, 'v) graph \<Rightarrow> nat \<Rightarrow> ('c, 'v) item \<Rightarrow> nat" where
  "work tr g 0 it = 0"
| "work tr g (Suc k) it = Suc (case children tr g it of None \<Rightarrow> 0 | Some its \<Rightarrow> sum_list (map (work tr g k) its))"

text \<open>The calls of an item end within the fuel, without a panic.\<close>

fun enough :: "'c tracer \<Rightarrow> ('c, 'v) graph \<Rightarrow> nat \<Rightarrow> ('c, 'v) item \<Rightarrow> bool" where
  "enough tr g 0 it = False"
| "enough tr g (Suc k) it = (case children tr g it of None \<Rightarrow> False | Some its \<Rightarrow> list_all (enough tr g k) its)"

lemma enough_Suc: "enough tr g k it \<Longrightarrow> enough tr g (Suc k) it"
proof (induction k arbitrary: it)
  case (Suc k)
  then obtain its where its: "children tr g it = Some its" "list_all (enough tr g k) its"
    by (auto split: option.splits)
  have "list_all (enough tr g (Suc k)) its"
    by (rule list.pred_mono_strong [OF its(2)]) (rule Suc.IH)
  with its(1) show ?case by (simp only: enough.simps(2) [of _ _ "Suc k"] option.case)
qed simp

lemma enough_mono: "enough tr g k it \<Longrightarrow> k \<le> m \<Longrightarrow> enough tr g m it"
  by (induction m) (auto simp del: enough.simps simp: le_Suc_eq enough_Suc)

lemma trace_Suc: "enough tr g k it \<Longrightarrow> trace tr g (Suc k) it = trace tr g k it"
proof (induction k arbitrary: it)
  case (Suc k)
  then obtain its where its: "children tr g it = Some its" "list_all (enough tr g k) its"
    by (auto split: option.splits)
  then have "map (trace tr g (Suc k)) its = map (trace tr g k) its"
    by (intro map_cong refl Suc.IH) (simp add: list_all_iff)
  with its show ?case by (simp only: trace.simps option.case)
qed simp

lemma work_Suc: "enough tr g k it \<Longrightarrow> work tr g (Suc k) it = work tr g k it"
proof (induction k arbitrary: it)
  case (Suc k)
  then obtain its where its: "children tr g it = Some its" "list_all (enough tr g k) its"
    by (auto split: option.splits)
  then have "map (work tr g (Suc k)) its = map (work tr g k) its"
    by (intro map_cong refl Suc.IH) (simp add: list_all_iff)
  with its show ?case by (simp only: work.simps option.case)
qed simp

text \<open>The trace and the work of an item, from those of its children.\<close>

lemma enough_children:
  assumes "enough tr g k it" and "children tr g it = Some its"
  shows "list_all (enough tr g k) its"
    and "mset (trace tr g k it) = mset (own_event g it) + (\<Sum>x\<in>#mset its. mset (trace tr g k x))"
    and "work tr g k it = Suc (\<Sum>x\<in>#mset its. work tr g k x)"
proof -
  obtain j where j: "k = Suc j" using assms(1) by (cases k) auto
  with assms have e: "list_all (enough tr g j) its" by simp
  then show "list_all (enough tr g k) its"
    unfolding j by (rule list.pred_mono_strong) (rule enough_Suc)
  have t: "map (trace tr g j) its = map (trace tr g k) its" and w: "map (work tr g j) its = map (work tr g k) its"
    using e unfolding j
    by (intro map_cong refl trace_Suc [symmetric] work_Suc [symmetric]; simp add: list_all_iff)+
  have "mset (concat (map (trace tr g k) its)) = (\<Sum>x\<in>#mset its. mset (trace tr g k x))"
    by (induction its) simp_all
  moreover have "trace tr g k it = own_event g it @ concat (map (trace tr g j) its)"
    using assms(2) by (simp add: j)
  ultimately show "mset (trace tr g k it) = mset (own_event g it) + (\<Sum>x\<in>#mset its. mset (trace tr g k x))"
    unfolding t by simp
  have "work tr g k it = Suc (sum_list (map (work tr g j) its))" using assms(2) by (simp add: j)
  then show "work tr g k it = Suc (\<Sum>x\<in>#mset its. work tr g k x)"
    unfolding w by (simp flip: sum_mset_sum_list)
qed

section \<open>Accounting for a run\<close>

definition pending :: "('c, 'v) run \<Rightarrow> ('c, 'v) item multiset" where
  "pending r = mset (concat (map snd (threads r)))"

fun lost :: "('c, 'v) event \<Rightarrow> ('c, 'v) item option" where
  "lost (Rejected con c v) = Some (Consume con c v)"
| "lost _ = None"

text \<open>The calls that a pool refused, and the events that are no refusals.\<close>

definition refused :: "('c, 'v) run \<Rightarrow> ('c, 'v) item multiset" where
  "refused r = mset (List.map_filter lost (events r))"

definition happened :: "('c, 'v) run \<Rightarrow> ('c, 'v) event multiset" where
  "happened r = mset (filter (\<lambda>e. lost e = None) (events r))"

lemma own_event_kept [simp]: "filter (\<lambda>e. lost e = None) (own_event g it) = own_event g it"
  "List.map_filter lost (own_event g it) = []"
  by (auto simp: own_event_def List.map_filter_def split: item.splits option.splits)

lemma exec_item_children:
  assumes "exec_item tr g ok it = Some (cont, new, evs)"
  obtains its where "children tr g it = Some its"
    and "mset cont + mset (concat (map snd new)) + mset (List.map_filter lost evs) = mset its"
    and "filter (\<lambda>e. lost e = None) evs = own_event g it"
    and "List.map_filter lost evs = [] \<or> ok = False"
  using assms
  by (cases it)
    (auto simp: emit_link_def children_def own_event_def Let_def List.map_filter_def
      split: option.splits caller.splits if_splits)

lemma run_step_account:
  assumes "run_step tr g (n, ok) r = Some r'"
  obtains it its D where "children tr g it = Some its" and "it \<in># pending r"
    and "pending r' + {#it#} + D = pending r + mset its" and "refused r' = refused r + D"
    and "happened r' = happened r + mset (own_event g it)" and "ok \<Longrightarrow> D = {#}"
proof -
  let ?t = "threads r ! n"
  from assms obtain it rest cont new evs where n: "n < length (threads r)" and t: "snd ?t = it # rest"
    and e: "exec_item tr g ok it = Some (cont, new, evs)"
    and r': "r' = \<lparr>threads = (threads r)[n := (fst ?t, cont @ rest)] @ new, events = events r @ evs\<rparr>"
    by (auto simp: run_step_def split: if_splits list.splits option.splits)
  from e obtain its where its: "children tr g it = Some its"
    and cont: "mset cont + mset (concat (map snd new)) + mset (List.map_filter lost evs) = mset its"
    and own: "filter (\<lambda>e. lost e = None) evs = own_event g it"
    and rej: "List.map_filter lost evs = [] \<or> ok = False"
    by (rule exec_item_children)
  have p: "pending r = mset (concat (map snd (take n (threads r)))) + (mset (it # rest) + mset (concat (map snd (drop (Suc n) (threads r)))))"
    unfolding pending_def by (subst id_take_nth_drop [OF n]) (simp add: t)
  have p': "pending r' = mset (concat (map snd (take n (threads r)))) + (mset (cont @ rest) + mset (concat (map snd (drop (Suc n) (threads r)))))
      + mset (concat (map snd new))"
    using n by (simp add: pending_def r' upd_conv_take_nth_drop)
  show thesis
  proof (rule that [OF its])
    show "it \<in># pending r" unfolding p by simp
    show "pending r' + {#it#} + mset (List.map_filter lost evs) = pending r + mset its"
      unfolding p p' using cont by (simp add: add_ac)
    show "refused r' = refused r + mset (List.map_filter lost evs)" by (simp add: refused_def r' List.map_filter_def)
    show "happened r' = happened r + mset (own_event g it)" using own by (simp add: happened_def r')
    show "ok \<Longrightarrow> mset (List.map_filter lost evs) = {#}" using rej by simp
  qed
qed

definition sum_trace :: "'c tracer \<Rightarrow> ('c, 'v) graph \<Rightarrow> nat \<Rightarrow> ('c, 'v) item multiset \<Rightarrow> ('c, 'v) event multiset" where
  "sum_trace tr g k M = (\<Sum>x\<in>#M. mset (trace tr g k x))"

lemma sum_trace_simps [simp]:
  "sum_trace tr g k {#} = {#}" "sum_trace tr g k (M + N) = sum_trace tr g k M + sum_trace tr g k N"
  "sum_trace tr g k (add_mset x M) = mset (trace tr g k x) + sum_trace tr g k M"
  by (simp_all add: sum_trace_def)

text \<open>What has happened, what is still to come and what was refused always make up the same whole.\<close>

lemma run_step_conserves:
  assumes st: "run_step tr g (n, ok) r = Some r'" and en: "\<forall>it \<in># pending r. enough tr g k it"
  shows "\<forall>it \<in># pending r'. enough tr g k it"
    and "happened r' + sum_trace tr g k (pending r') + sum_trace tr g k (refused r') =
      happened r + sum_trace tr g k (pending r) + sum_trace tr g k (refused r)"
    and "(\<Sum>x\<in>#pending r'. work tr g k x) < (\<Sum>x\<in>#pending r. work tr g k x)"
    and "ok \<Longrightarrow> refused r' = refused r"
proof -
  obtain it its D where its: "children tr g it = Some its" and it: "it \<in># pending r"
    and p: "pending r' + {#it#} + D = pending r + mset its" and d: "refused r' = refused r + D"
    and h: "happened r' = happened r + mset (own_event g it)" and o: "ok \<Longrightarrow> D = {#}"
    using run_step_account [OF st] by blast
  note ch = enough_children [OF bspec [OF en it] its]
  have "x \<in># pending r + mset its" if "x \<in># pending r'" for x
    unfolding p [symmetric] using that by simp
  then show "\<forall>it \<in># pending r'. enough tr g k it"
    using en ch(1) by (auto simp: list_all_iff)
  have "sum_trace tr g k (pending r' + {#it#} + D) = sum_trace tr g k (pending r + mset its)" using p by simp
  then have tr: "sum_trace tr g k (pending r') + mset (own_event g it) + sum_trace tr g k D = sum_trace tr g k (pending r)"
    using ch(2) by (simp add: sum_trace_def add_ac)
  show "happened r' + sum_trace tr g k (pending r') + sum_trace tr g k (refused r') =
      happened r + sum_trace tr g k (pending r) + sum_trace tr g k (refused r)"
    unfolding h d tr [symmetric] by (simp add: add_ac)
  have "(\<Sum>x\<in>#pending r' + {#it#} + D. work tr g k x) = (\<Sum>x\<in>#pending r + mset its. work tr g k x)" using p by simp
  then show "(\<Sum>x\<in>#pending r'. work tr g k x) < (\<Sum>x\<in>#pending r. work tr g k x)"
    using ch(3) by simp
  show "ok \<Longrightarrow> refused r' = refused r" using d o by simp
qed

lemma run_schedule_conserves:
  assumes "run_schedule tr g as r = Some r'" and "\<forall>it \<in># pending r. enough tr g k it"
  shows "\<forall>it \<in># pending r'. enough tr g k it"
    and "happened r' + sum_trace tr g k (pending r') + sum_trace tr g k (refused r') =
      happened r + sum_trace tr g k (pending r) + sum_trace tr g k (refused r)"
    and "length as + (\<Sum>x\<in>#pending r'. work tr g k x) \<le> (\<Sum>x\<in>#pending r. work tr g k x)"
    and "list_all snd as \<Longrightarrow> refused r' = refused r"
  using assms
proof (induction as arbitrary: r)
  case (Cons a as)
  {
    case 1
    then obtain r1 where st: "run_step tr g (fst a, snd a) r = Some r1" and rest: "run_schedule tr g as r1 = Some r'"
      by (auto split: option.splits)
    from Cons.IH(1) [OF rest run_step_conserves(1) [OF st 1(2)]] show ?case .
  next
    case 2
    then obtain r1 where st: "run_step tr g (fst a, snd a) r = Some r1" and rest: "run_schedule tr g as r1 = Some r'"
      by (auto split: option.splits)
    from Cons.IH(2) [OF rest run_step_conserves(1) [OF st 2(2)]] run_step_conserves(2) [OF st 2(2)] show ?case by simp
  next
    case 3
    then obtain r1 where st: "run_step tr g (fst a, snd a) r = Some r1" and rest: "run_schedule tr g as r1 = Some r'"
      by (auto split: option.splits)
    from Cons.IH(3) [OF rest run_step_conserves(1) [OF st 3(2)]] run_step_conserves(3) [OF st 3(2)] show ?case by simp
  next
    case 4
    then obtain r1 where st: "run_step tr g (fst a, snd a) r = Some r1" and rest: "run_schedule tr g as r1 = Some r'"
      by (auto split: option.splits)
    from Cons.IH(4) [OF _ rest run_step_conserves(1) [OF st 4(3)]] run_step_conserves(4) [OF st 4(3)] 4(1) show ?case by simp
  }
qed simp_all

text \<open>A run with calls to make can go on.\<close>

lemma run_progress:
  assumes "pending r \<noteq> {#}" and "\<forall>it \<in># pending r. enough tr g k it"
  shows "\<exists>n r'. run_step tr g (n, ok) r = Some r'"
proof -
  from assms(1) obtain t where t: "t \<in> set (threads r)" "snd t \<noteq> []" by (auto simp: pending_def)
  then obtain n where n: "n < length (threads r)" "threads r ! n = t" by (auto simp: in_set_conv_nth)
  obtain it rest where it: "snd t = it # rest" using t(2) by (cases "snd t") auto
  then have "it \<in># pending r" using t(1) by (force simp: pending_def)
  then have "children tr g it \<noteq> None" using assms(2) by (cases k) (auto split: option.splits)
  then obtain x where "exec_item tr g ok it = Some x"
    by (cases it) (auto simp: children_def split: option.splits)
  with n it show ?thesis by (intro exI [of _ n]) (auto simp: run_step_def split: prod.split)
qed

section \<open>Forward graphs have no endless calls\<close>

lemma split_loop_all: "pos + length ks = n \<Longrightarrow> split_loop n pos ks (Some c) (Some v) = Some (map (\<lambda>k. (k, c, v)) ks)"
  by (induction ks arbitrary: pos) auto

lemma iterable_loop_all: "iterable_loop xs (Some c) = Some (map (\<lambda>x. (c, x)) xs)"
proof (induction xs)
  case (Cons x xs)
  then show ?case by (cases xs) auto
qed simp

fun selector_ok :: "('c, 'v) operator \<Rightarrow> bool" where
  "selector_ok (CaseStream _ sel ws) \<longleftrightarrow> (\<forall>v. sel v < length ws)"
| "selector_ok _ \<longleftrightarrow> True"

definition selectors_ok :: "('c, 'v) graph \<Rightarrow> bool" where
  "selectors_ok g \<longleftrightarrow> list_all selector_ok (operators g)"

fun sent_to :: "stream_addr set \<Rightarrow> ('c, 'v) item \<Rightarrow> bool" where
  "sent_to S (Emit t _ _) \<longleftrightarrow> t \<in> S"
| "sent_to S (Consume _ _ _) \<longleftrightarrow> False"
| "sent_to S (Endpoint _ _ _) \<longleftrightarrow> True"

lemma order_nth:
  assumes "mset ord = mset [0..<n]"
  shows "length ord = n" and "k \<in> set ord \<Longrightarrow> k < n"
proof -
  show "length ord = n" using arg_cong [OF assms, of size] by simp
  have "set ord = {0..<n}" using arg_cong [OF assms, of set_mset] by simp
  then show "k \<in> set ord \<Longrightarrow> k < n" by simp
qed

lemma op_emits_targets:
  assumes "op_ok n oper" and "selector_ok oper"
  shows "\<exists>its. op_emits tr g oper c v = Some its \<and> list_all (sent_to (set (targets oper))) its"
proof (cases oper)
  case (SplitStream st links ord)
  with assms have o: "mset ord = mset [0..<length links]" by (simp add: op_ok_def)
  then have "0 + length ord = length links" using order_nth(1) by simp
  then show ?thesis
    using SplitStream order_nth(2) [OF o] by (auto simp: list_all_iff split_loop_all)
next
  case (SinkStream err k)
  then show ?thesis by (cases k) (simp_all add: Let_def)
qed (use assms in \<open>auto simp: Let_def list_all_iff iterable_loop_all\<close>)

lemma forward_enough:
  assumes fw: "graph_forward g" and sel: "selectors_ok g" and s: "s < length (streams g)"
  shows "enough tr g (2 * (length (streams g) - s) + 1) (Emit s c v)"
  using s
proof (induction "length (streams g) - s" arbitrary: s c v rule: less_induct)
  case less
  let ?n = "length (streams g)"
  obtain m where m: "?n - s = Suc m" using less.prems by (metis Suc_diff_Suc)
  show ?case
  proof (cases "downstream (streams g ! s)")
    case None
    then show ?thesis by (simp add: children_def)
  next
    case (Some l)
    let ?o = "operators g ! consumer l"
    have con: "consumer l < length (operators g)" and y: "list_all (\<lambda>t. s < t) (targets ?o)"
      using fw less.prems Some by (auto simp: forward_def)
    have ok: "op_ok ?n ?o" and sl: "selector_ok ?o"
      using fw sel con by (simp_all add: forward_def selectors_ok_def list_all_length)
    obtain its where its: "op_emits tr g ?o (link_span tr l c) v = Some its" "list_all (sent_to (set (targets ?o))) its"
      using op_emits_targets [OF ok sl, of tr g "link_span tr l c" v] by blast
    have "enough tr g (2 * m + 1) it" if "it \<in> set its" for it
    proof (cases it)
      case (Emit t c' v')
      then have "t \<in> set (targets ?o)" using its(2) that by (auto simp: list_all_iff)
      then have t: "s < t" "t < ?n" using y ok by (auto simp: op_ok_def list_all_iff)
      then have "enough tr g (2 * (?n - t) + 1) it" using less.hyps Emit by simp
      then show ?thesis by (rule enough_mono) (use t m in simp)
    qed (use its(2) that in \<open>auto simp: list_all_iff children_def\<close>)
    then have "enough tr g (Suc (2 * m + 1)) (Consume (consumer l) (link_span tr l c) v)"
      using its(1) by (simp add: children_def list_all_iff)
    then have "enough tr g (Suc (Suc (2 * m + 1))) (Emit s c v)"
      by (subst enough.simps(2)) (simp add: children_def Some del: enough.simps)
    then show ?thesis by (simp add: m del: enough.simps)
  qed
qed

definition fuel :: "('c, 'v) graph \<Rightarrow> nat" where
  "fuel g = 2 * length (streams g) + 1"

lemma forward_enough_fuel:
  "graph_forward g \<Longrightarrow> selectors_ok g \<Longrightarrow> s < length (streams g) \<Longrightarrow> enough tr g (fuel g) (Emit s c v)"
  by (rule enough_mono [OF forward_enough]) (simp_all add: fuel_def)

section \<open>Direct calls only\<close>

definition direct :: "('c, 'v) graph \<Rightarrow> bool" where
  "direct g \<longleftrightarrow> list_all (\<lambda>s. case downstream s of None \<Rightarrow> True
     | Some l \<Rightarrow> (case caller l of CallDirect _ \<Rightarrow> True | _ \<Rightarrow> False)) (streams g)"

text \<open>An item whose stream exists; the others need no check.\<close>

fun on_graph :: "('c, 'v) graph \<Rightarrow> ('c, 'v) item \<Rightarrow> bool" where
  "on_graph g (Emit s _ _) \<longleftrightarrow> s < length (streams g)"
| "on_graph g (Consume con _ _) \<longleftrightarrow> con < length (operators g)"
| "on_graph g (Endpoint _ _ _) \<longleftrightarrow> True"

lemma children_on_graph:
  assumes fw: "graph_forward g" and sel: "selectors_ok g" and it: "on_graph g it"
  shows "\<exists>its. children tr g it = Some its \<and> list_all (on_graph g) its"
proof (cases it)
  case (Emit s c v)
  with fw it show ?thesis by (auto simp: children_def forward_def split: option.splits)
next
  case (Consume con c v)
  then have "op_ok (length (streams g)) (operators g ! con)" "selector_ok (operators g ! con)"
    using fw sel it by (simp_all add: forward_def selectors_ok_def list_all_length)
  moreover from op_emits_targets [OF this, of tr g c v] obtain its
    where "op_emits tr g (operators g ! con) c v = Some its" "list_all (sent_to (set (targets (operators g ! con)))) its"
    by blast
  ultimately show ?thesis
    using Consume by (auto simp: children_def op_ok_def list_all_iff elim!: on_graph.elims) (metis on_graph.simps sent_to.elims(2))
qed (simp add: children_def)

lemma direct_exec:
  assumes "direct g" and "on_graph g it" and "children tr g it = Some its"
  shows "exec_item tr g ok it = Some (its, [], own_event g it)"
proof (cases it)
  case (Emit s c v)
  show ?thesis
  proof (cases "downstream (streams g ! s)")
    case (Some l)
    then have "\<exists>b. caller l = CallDirect b"
      using assms(1,2) Emit by (cases "caller l") (force simp: direct_def list_all_length)+
    with Some Emit assms(3) show ?thesis by (auto simp: children_def own_event_def emit_link_def Let_def)
  qed (use Emit assms(3) in \<open>simp add: children_def own_event_def\<close>)
qed (use assms(3) in \<open>auto simp: children_def own_event_def\<close>)

lemma direct_run:
  assumes fw: "graph_forward g" and sel: "selectors_ok g" and dir: "direct g"
    and "list_all (on_graph g) stack" and "list_all (enough tr g k) stack"
  shows "run_schedule tr g (replicate (sum_list (map (work tr g k) stack)) (0, True)) \<lparr>threads = [(Source, stack)], events = evs\<rparr> =
    Some \<lparr>threads = [(Source, [])], events = evs @ concat (map (trace tr g k) stack)\<rparr>"
  using assms(4,5)
proof (induction "sum_list (map (work tr g k) stack)" arbitrary: stack evs rule: less_induct)
  case less
  show ?case
  proof (cases stack)
    case (Cons it rest)
    then have og: "on_graph g it" and en: "enough tr g k it" using less.prems by auto
    then obtain its where its: "children tr g it = Some its" "list_all (on_graph g) its"
      using children_on_graph [OF fw sel] by blast
    obtain j where j: "k = Suc j" using en by (cases k) auto
    have ej: "list_all (enough tr g j) its" using en its(1) j by simp
    have ek: "list_all (enough tr g k) its" by (rule enough_children(1) [OF en its(1)])
    have t: "trace tr g k it = own_event g it @ concat (map (trace tr g k) its)"
      and w: "work tr g k it = Suc (sum_list (map (work tr g k) its))"
    proof -
      have "map (trace tr g j) its = map (trace tr g k) its" "map (work tr g j) its = map (work tr g k) its"
        using ej unfolding j
        by (intro map_cong refl trace_Suc [symmetric] work_Suc [symmetric]; simp add: list_all_iff)+
      then show "trace tr g k it = own_event g it @ concat (map (trace tr g k) its)"
        "work tr g k it = Suc (sum_list (map (work tr g k) its))"
        using its(1) by (simp_all only: j trace.simps work.simps option.case)
    qed
    have step: "run_step tr g (0, True) \<lparr>threads = [(Source, stack)], events = evs\<rparr> =
        Some \<lparr>threads = [(Source, its @ rest)], events = evs @ own_event g it\<rparr>"
      using direct_exec [OF dir og its(1), of True] by (simp add: run_step_def Cons)
    have len: "sum_list (map (work tr g k) stack) = Suc (sum_list (map (work tr g k) (its @ rest)))"
      using w by (simp add: Cons)
    have "run_schedule tr g (replicate (sum_list (map (work tr g k) (its @ rest))) (0, True))
        \<lparr>threads = [(Source, its @ rest)], events = evs @ own_event g it\<rparr> =
      Some \<lparr>threads = [(Source, [])], events = (evs @ own_event g it) @ concat (map (trace tr g k) (its @ rest))\<rparr>"
      by (rule less.hyps) (use len less.prems its ek Cons in simp_all)
    then show ?thesis unfolding len replicate_Suc run_schedule.simps step using t by (simp add: Cons)
  qed simp
qed

section \<open>The order of a split\<close>

lemma split_order_partition:
  "split_order sts links = filter (\<lambda>k. stream_is_async (sts ! (links ! k))) [0..<length links] @
     filter (\<lambda>k. \<not> stream_is_async (sts ! (links ! k))) [0..<length links]"
  unfolding split_order_def
proof (rule properties_for_sort_key)
  let ?a = "\<lambda>k. stream_is_async (sts ! (links ! k))" and ?xs = "[0..<length links]"
  let ?f = "\<lambda>k. if \<not> ?a k then 1 else (0::nat)"
  show "mset (filter ?a ?xs @ filter (\<lambda>k. \<not> ?a k) ?xs) = mset ?xs"
    by (simp only: mset_append mset_filter multiset_partition [symmetric])
  show "filter (\<lambda>x. ?f k = ?f x) (filter ?a ?xs @ filter (\<lambda>k. \<not> ?a k) ?xs) = filter (\<lambda>x. ?f k = ?f x) ?xs" for k
  proof (cases "?a k")
    case True
    then have "filter (\<lambda>x. ?f k = ?f x) ys = filter ?a ys" for ys by (intro filter_cong) auto
    then show ?thesis by simp
  next
    case False
    then have "filter (\<lambda>x. ?f k = ?f x) ys = filter (\<lambda>x. \<not> ?a x) ys" for ys by (intro filter_cong) auto
    then show ?thesis by simp
  qed
  have "map ?f (filter ?a ?xs) = map (\<lambda>_. 0) (filter ?a ?xs)"
    "map ?f (filter (\<lambda>k. \<not> ?a k) ?xs) = map (\<lambda>_. 1) (filter (\<lambda>k. \<not> ?a k) ?xs)"
    by (intro map_cong; simp)+
  then show "sorted (map ?f (filter ?a ?xs @ filter (\<lambda>k. \<not> ?a k) ?xs))"
    by (simp add: sorted_append map_replicate_const)
qed

section \<open>Properties\<close>


text \<open>An input, a split with a parallel and a direct branch, and two sinks.\<close>

definition demo_config :: runtime_config where
  "demo_config = (with_default_call_semantics FunctionCall)\<lparr>rc_links :=
     [((2, 4), \<lparr>link_from = 2, link_to = 4, link_semantics = ParallelCall, link_async = False\<rparr>)]\<rparr>"

definition demo_commands :: "(unit, nat) build_command list" where
  "demo_commands = [NewInput 1, NewSplit 2 ''s'' 2 1, NewSink 3 2, NewSink 4 3, SetSink 1 10, SetSink 2 20, Build]"

definition demo_tracer :: "unit tracer" where
  "demo_tracer = \<lparr>op_span = (\<lambda>_ _ c. c), link_span = (\<lambda>_ c. c), context_priority = (\<lambda>_. None)\<rparr>"

definition demo_graph :: "(unit, nat) graph" where
  "demo_graph = the (build_graph demo_commands (graph_new None demo_config))"

lemmas construct_defs = make_input_def make_map_def make_split_def make_sink_def set_sink_consumer_def
  make_unary_def connect_def alloc_operator_def try_set_consumer_def link_new_def make_caller_def
  set_downstream_def stream_new_def derived_with_name_def alloc_stream_def register_runtime_stream_def
  register_graph_link_def configured_stream_id_def env_stream_name_def stream_by_id_def call_semantics_def
  function_call_async_def config_link_def build_runtime_streams_def build_operator_def split_order_def
  stream_is_async_def caller_is_async_def graph_new_def with_default_call_semantics_def Let_def

lemmas demo_eval = demo_graph_def demo_commands_def demo_config_def demo_tracer_def construct_defs
  numeral_2_eq_2 upt_rec

lemma demo_built: "build_graph demo_commands (graph_new None demo_config) = Some demo_graph"
  by (simp add: demo_eval)

lemma demo_selectors: "selectors_ok demo_graph"
  by (simp add: demo_eval selectors_ok_def)

definition demo_schedule :: "(nat \<times> bool) list" where
  "demo_schedule = [(0, True), (0, True), (0, True), (1, True), (1, True), (0, True), (0, True), (0, True)]"

definition demo_run :: "(unit, nat) run" where
  "demo_run = the (run_schedule demo_tracer demo_graph demo_schedule (run_start 1 () 7))"

lemma demo_scheduled: "run_schedule demo_tracer demo_graph demo_schedule (run_start 1 () 7) = Some demo_run"
  by (simp add: demo_eval demo_run_def demo_schedule_def run_start_def run_step_def emit_link_def)

lemma demo_events: "events demo_run = [Called 0, Called 2, Delivered 20 () 7, Called 1, Delivered 10 () 7]" "pending demo_run = {#}"
  by (simp_all add: demo_eval demo_run_def demo_schedule_def run_start_def run_step_def emit_link_def pending_def)



definition chain_commands :: "(unit, nat) build_command list" where
  "chain_commands = [NewInput 1, NewMap 2 1 (\<lambda>c v. [(c, v + 1), (c, v + 2)]), NewSink 3 2, SetSink 1 10]"

definition chain_graph :: "(unit, nat) graph" where
  "chain_graph = the (build_graph chain_commands (graph_new None (with_default_call_semantics FunctionCall)))"

lemmas chain_eval = chain_graph_def chain_commands_def demo_tracer_def construct_defs numeral_2_eq_2


text \<open>
  Building a split fails, with the name of the first such branch, exactly when a branch has no
  consumer. Otherwise a message is sent once to every branch, with its own value and context: first
  to the branches with an asynchronous link, then to the others, each group in branch order.
\<close>

theorem split_build_order:
  assumes "con < length (operators g)" and "operators g ! con = SplitStream st links ord"
    and "build_operator con g = (res, g')"
  shows "case find (\<lambda>s. downstream (streams g ! s) = None) links of
      Some s \<Rightarrow> res = Inl (ConsumerNotSet (str_name (streams g ! s))) \<and> g' = g
    | None \<Rightarrow> res = Inr () \<and>
        op_emits tr g' (operators g' ! con) c v = Some (map (\<lambda>k. Emit (links ! k) (op_span tr ''stream.split'' (str_id (streams g ! st)) c) v)
          (filter (\<lambda>k. stream_is_async (streams g ! (links ! k))) [0..<length links] @
           filter (\<lambda>k. \<not> stream_is_async (streams g ! (links ! k))) [0..<length links]))"
proof (cases "find (\<lambda>s. downstream (streams g ! s) = None) links")
  case None
  let ?o = "split_order (streams g) links"
  have g': "res = Inr ()" "operators g' ! con = SplitStream st links ?o" "streams g' = streams g"
    using assms None by (auto simp: build_operator_def)
  have "0 + length ?o = length links" using order_nth(1) [OF split_order_mset] by simp
  then have "op_emits tr g' (operators g' ! con) c v =
      Some (map (\<lambda>k. Emit (links ! k) (op_span tr ''stream.split'' (str_id (streams g ! st)) c) v) ?o)"
    by (simp add: g' split_loop_all)
  with None g'(1) show ?thesis by (simp add: split_order_partition)
qed (use assms in \<open>auto simp: build_operator_def\<close>)

theorem split_build_order_witness:
  "op_emits demo_tracer demo_graph (operators demo_graph ! 0) () 7 = Some [Emit 3 () 7, Emit 2 () 7]"
proof -
  let ?g = "the (build_graph (butlast demo_commands) (graph_new None demo_config))"
  have "0 < length (operators ?g)" "operators ?g ! 0 = SplitStream 4 [2, 3] [0, 1]" "build_operator 0 ?g = (Inr (), demo_graph)"
    by (simp_all add: demo_eval)
  from split_build_order [OF this, of demo_tracer "()" 7] show ?thesis by (simp add: demo_eval)
qed

end
