(* ===== verification/Step_Systems.thy ===== *)
theory Step_Systems
  imports Runtime_Prelude
begin

text \<open>
  Systems given by an executable step function \<open>step :: 'e \<Rightarrow> 's \<Rightarrow> 's option\<close>, where \<open>'e\<close> is what the
  scheduler, the clock or a caller does next and \<open>None\<close> means that it cannot do it now. The locale
  \<open>step_system\<close> is the interface between such a system and its invariant; the lemmas on runs and on logs are
  proved in it once and are used through its interpretations. \<open>always\<close> is the past-time reading of a log: every
  event stands in a relation to the events before it.
\<close>

section \<open>Runs\<close>

fun run_steps :: "('e \<Rightarrow> 's \<Rightarrow> 's option) \<Rightarrow> 'e list \<Rightarrow> 's \<Rightarrow> 's option" where
  "run_steps step [] s = Some s"
| "run_steps step (e # es) s = (case step e s of None \<Rightarrow> None | Some s' \<Rightarrow> run_steps step es s')"

lemma run_steps_append:
  "run_steps step (es @ fs) s = Option.bind (run_steps step es s) (run_steps step fs)"
  by (induction es arbitrary: s) (auto split: option.split)

locale step_system =
  fixes step :: "'e \<Rightarrow> 's \<Rightarrow> 's option"
    and inv :: "'s \<Rightarrow> bool"
  assumes step_inv: "inv s \<Longrightarrow> step e s = Some s' \<Longrightarrow> inv s'"
begin

lemma run_inv: "inv s \<Longrightarrow> run_steps step es s = Some s' \<Longrightarrow> inv s'"
  by (induction es arbitrary: s) (auto split: option.splits intro: step_inv)

lemma run_mono:
  assumes mono: "\<And>s e s'. inv s \<Longrightarrow> step e s = Some s' \<Longrightarrow> P s \<Longrightarrow> P s'"
  shows "inv s \<Longrightarrow> P s \<Longrightarrow> run_steps step es s = Some s' \<Longrightarrow> P s'"
  by (induction es arbitrary: s) (auto split: option.splits intro: step_inv mono)

lemma run_keeps:
  assumes keep: "\<And>s e s'. inv s \<Longrightarrow> step e s = Some s' \<Longrightarrow> f s' = f s"
  shows "inv s \<Longrightarrow> run_steps step es s = Some s' \<Longrightarrow> f s' = f s"
proof (induction es arbitrary: s)
  case (Cons e es)
  then obtain t where t: "step e s = Some t" "run_steps step es t = Some s'"
    by (auto split: option.splits)
  then show ?case
    using Cons.IH [of t] Cons.prems step_inv [of s e t] keep [of s e t] by simp
qed simp

end

section \<open>Logs\<close>

definition always :: "('e list \<Rightarrow> 'e \<Rightarrow> bool) \<Rightarrow> 'e list \<Rightarrow> bool" where
  "always P l \<longleftrightarrow> (\<forall>l1 e l2. l = l1 @ e # l2 \<longrightarrow> P l1 e)"

lemma always_Nil [simp]: "always P []"
  by (simp add: always_def)

lemma always_snoc: "always P (l @ [e]) \<longleftrightarrow> always P l \<and> P l e"
  unfolding always_def
proof (intro iffI conjI allI impI)
  fix l1 x l2
  assume all: "\<forall>l1 x l2. l @ [e] = l1 @ x # l2 \<longrightarrow> P l1 x" and "l = l1 @ x # l2"
  then have "l @ [e] = l1 @ x # (l2 @ [e])"
    by simp
  with all show "P l1 x"
    by blast
next
  assume "\<forall>l1 x l2. l @ [e] = l1 @ x # l2 \<longrightarrow> P l1 x"
  then show "P l e"
    by blast
next
  fix l1 x l2
  assume "(\<forall>l1 x l2. l = l1 @ x # l2 \<longrightarrow> P l1 x) \<and> P l e" and "l @ [e] = l1 @ x # l2"
  then show "P l1 x"
    by (cases l2 rule: rev_cases) auto
qed

lemma always_append:
  "always P l \<Longrightarrow> (\<And>pre e. set pre \<subseteq> set es \<Longrightarrow> e \<in> set es \<Longrightarrow> P (l @ pre) e) \<Longrightarrow> always P (l @ es)"
proof (induction es rule: rev_induct)
  case (snoc x es)
  then have "always P (l @ es)"
    by (intro snoc.IH) auto
  with snoc.prems(2) [of es x] show ?case
    using always_snoc [of P "l @ es" x] by auto
qed simp

lemma always_at: "always P l \<Longrightarrow> l = l1 @ e # l2 \<Longrightarrow> P l1 e"
  by (auto simp: always_def)

end
