(* ===== verification/Service_App.thy ===== *)
theory Service_App
  imports Stream_Graph Message_Context Queued_Pool Step_Systems
begin

text \<open>
  The life of a service (\<open>src/runtime/serviceapp.rs\<close>): the registration of connectors and components, the pools
  that the configuration asks for, the start sequence and the stop protocol.

  \<open>ServiceApp::stop\<close> is an asynchronous function under a lock: one caller at a time advances a cursor over phases
  of cleanup jobs, a caller that gives up leaves the jobs it spawned running, and the next caller goes on from
  there. Its body is cut at its suspension points into the segments of \<open>stop_poll\<close>, and \<open>app_step\<close> interleaves
  them with everything else that may happen: a start in progress, jobs and servers that end, a deadline that
  passes, callers that are dropped. \<open>None\<close> as the result of a segment is a panic. Connectors, components, pools and
  storages are objects, named by their addresses; what their \<open>start\<close> and \<open>stop\<close> return is chosen by the scheduler.
\<close>

section \<open>Error texts\<close>

text \<open>\<open>{:?}\<close> of a string, for the ASCII characters.\<close>

definition debug_char :: "char \<Rightarrow> string" where
  "debug_char c =
     (if c = CHR ''\"'' then [CHR 0x5C, CHR ''\"'']
      else if c = CHR 0x5C then [CHR 0x5C, CHR 0x5C]
      else if of_char c = (0 :: nat) then [CHR 0x5C, CHR ''0'']
      else if of_char c = (9 :: nat) then [CHR 0x5C, CHR ''t'']
      else if of_char c = (10 :: nat) then [CHR 0x5C, CHR ''n'']
      else if of_char c = (13 :: nat) then [CHR 0x5C, CHR ''r'']
      else if of_char c < (32 :: nat) \<or> of_char c = (127 :: nat) then [CHR 0x5C, CHR ''u'', CHR ''{''] @ to_hex (of_char c) @ ''}''
      else [c])"

definition debug_string :: "string \<Rightarrow> string" where
  "debug_string s = CHR ''\"'' # concat (map debug_char s) @ [CHR ''\"'']"

fun error_text :: "runtime_error \<Rightarrow> string" where
  "error_text (TaskPoolNotFound n) = ''task pool '' @ debug_string n @ '' is not registered''"
| "error_text (PriorityTaskPoolNotFound n) = ''priority task pool '' @ debug_string n @ '' is not registered''"
| "error_text (ConsumerAlreadySet n) = ''stream '' @ debug_string n @ '' already has a downstream consumer''"
| "error_text (SourceAlreadySet n) = ''stream '' @ debug_string n @ '' already has a source''"
| "error_text (ConsumerNotSet n) = ''stream '' @ debug_string n @ '' has no downstream consumer''"
| "error_text (DuplicateResource n) = ''runtime resource '' @ debug_string n @ '' is already registered''"
| "error_text (ResourceAlreadyStarted n) = ''runtime resource '' @ debug_string n @ '' is already started''"
| "error_text (ResourceStopped n) = ''runtime resource '' @ debug_string n @ '' is stopped''"
| "error_text ContextCancelled = ''message context is cancelled''"
| "error_text DuplicateKey = ''duplicate key''"
| "error_text (InvalidConfiguration m) = ''invalid runtime configuration: '' @ m"
| "error_text (Transport m) = ''transport error: '' @ m"
| "error_text (Metrics m) = m"

section \<open>Data\<close>

datatype app_state = Created | Starting | Running | Stopping | Stopped

datatype resource =
    RuntimeMetrics | Storage nat | WorkerPool nat | PriorityPool nat | DelayPool | Component nat | DataSink nat
  | DataSource nat | GrpcServer | HttpServer | ParallelTasks | MetricsEngine | TracingEngine | LogsEngine

text \<open>A \<open>JoinHandle\<close>: the spawned task is running, or has ended with the result that awaiting it gives.\<close>

datatype task_handle = Live | Ended "unit runtime_result"

record shutdown_job =
  operation :: resource
  handle :: "task_handle option"
  job_completed :: bool

record shutdown_progress =
  phase :: nat
  phases :: "shutdown_job list list option"
  failure :: "string option"

record ('c, 'v) app =
  app_service :: int
  environment :: "('c, 'v) graph"
  data_sources :: "(int \<times> nat \<times> string) list"
  data_sinks :: "(int \<times> nat \<times> string) list"
  components :: "nat list"
  grpc_routes :: bool
  grpc_cancelled :: bool
  http_cancelled :: bool
  grpc_task :: "task_handle option"
  http_task :: "task_handle option"
  state :: app_state
  shutdown :: shutdown_progress

section \<open>Construction\<close>

text \<open>
  \<open>register_configured_pools\<close>: a pool for every link and for the service's default, unless one of that name is
  registered. \<open>n\<close> is the address of the next new pool.
\<close>

definition pool_executor_count :: "('c, 'v) graph \<Rightarrow> string \<Rightarrow> nat option" where
  "pool_executor_count g p = map_option executors_count (pool_by_name (config g) p)"

fun register_pool :: "call_semantics \<Rightarrow> nat \<Rightarrow> ('c, 'v) graph \<Rightarrow> unit runtime_result \<times> ('c, 'v) graph" where
  "register_pool (TaskPool p) n g =
     (case task_pool p g of
        Inr _ \<Rightarrow> (Inr (), g)
      | Inl _ \<Rightarrow>
          (case (pool_create (pool_executor_count g) p False :: (nat \<times> unit pool) runtime_result) of
             Inl e \<Rightarrow> (Inl e, g)
           | Inr _ \<Rightarrow> register_task_pool p n g))"
| "register_pool (PriorityTaskPool p _) n g =
     (case priority_task_pool p g of
        Inr _ \<Rightarrow> (Inr (), g)
      | Inl _ \<Rightarrow>
          (case (pool_create (pool_executor_count g) p True :: (nat \<times> unit pool) runtime_result) of
             Inl e \<Rightarrow> (Inl e, g)
           | Inr _ \<Rightarrow> register_priority_task_pool p n g))"
| "register_pool _ n g = (Inr (), g)"

fun register_pools :: "call_semantics list \<Rightarrow> nat \<Rightarrow> ('c, 'v) graph \<Rightarrow> unit runtime_result \<times> ('c, 'v) graph" where
  "register_pools [] n g = (Inr (), g)"
| "register_pools (c # cs) n g =
     (case register_pool c n g of (Inl e, g1) \<Rightarrow> (Inl e, g1) | (Inr _, g1) \<Rightarrow> register_pools cs (n + 1) g1)"

definition configured_semantics :: "('c, 'v) graph \<Rightarrow> call_semantics list" where
  "configured_semantics g =
     map (link_semantics \<circ> snd) (rc_links (config g)) @
     [case Option.bind (service_id g) (service_by_id (config g)) of
        Some s \<Rightarrow> svc_call_semantics s
      | None \<Rightarrow> rc_default_semantics (config g)]"

definition register_configured_pools :: "nat \<Rightarrow> ('c, 'v) graph \<Rightarrow> unit runtime_result \<times> ('c, 'v) graph" where
  "register_configured_pools n g = register_pools (configured_semantics g) n g"

definition app_new :: "nat \<Rightarrow> ('c, 'v) graph \<Rightarrow> service_config \<Rightarrow> ('c, 'v) app runtime_result" where
  "app_new n g svc =
     (case register_configured_pools n (for_service (svc_id svc) g) of
        (Inl e, _) \<Rightarrow> Inl e
      | (Inr _, g1) \<Rightarrow>
          Inr \<lparr>app_service = svc_id svc, environment = g1, data_sources = [], data_sinks = [], components = [],
            grpc_routes = False, grpc_cancelled = False, http_cancelled = False, grpc_task = None, http_task = None,
            state = Created, shutdown = \<lparr>phase = 0, phases = None, failure = None\<rparr>\<rparr>)"

text \<open>\<open>config\<close> panics when the published configuration has lost the service.\<close>

definition app_config :: "('c, 'v) app \<Rightarrow> service_config option" where
  "app_config a = service_by_id (config (environment a)) (app_service a)"

definition validate_reload :: "service_config \<Rightarrow> ('c, 'v) app \<Rightarrow> unit runtime_result option" where
  "validate_reload c a = Option.bind (app_config a) (\<lambda>current. Some (
     if svc_id c \<noteq> svc_id current \<or> svc_name c \<noteq> svc_name current
     then Inl (InvalidConfiguration ''service id and name cannot change during reload'') else Inr ()))"

text \<open>The registrations have the application to themselves, so that \<open>try_lock\<close> succeeds.\<close>

definition ensure_created :: "('c, 'v) app \<Rightarrow> unit runtime_result option" where
  "ensure_created a = Option.bind (app_config a) (\<lambda>c. Some (
     if state a = Created then Inr ()
     else if state a = Stopped then Inl (ResourceStopped (svc_name c))
     else Inl (ResourceAlreadyStarted (svc_name c))))"

abbreviation when_created :: "('c, 'v) app \<Rightarrow> unit runtime_result \<times> ('c, 'v) app \<Rightarrow>
    (unit runtime_result \<times> ('c, 'v) app) option" where
  "when_created a r \<equiv> Option.bind (ensure_created a) (\<lambda>ok. Some (case ok of Inl e \<Rightarrow> (Inl e, a) | Inr _ \<Rightarrow> r))"

text \<open>A duplicate id is an error, but the new connector has replaced the old one.\<close>

definition register_data_source :: "int \<Rightarrow> nat \<Rightarrow> string \<Rightarrow> ('c, 'v) app \<Rightarrow> (unit runtime_result \<times> ('c, 'v) app) option" where
  "register_data_source i obj name a = when_created a
     ((case map_of (data_sources a) i of Some _ \<Rightarrow> Inl (DuplicateResource name) | None \<Rightarrow> Inr ()),
      a\<lparr>data_sources := hm_insert i (obj, name) (data_sources a)\<rparr>)"

definition register_data_sink :: "int \<Rightarrow> nat \<Rightarrow> string \<Rightarrow> ('c, 'v) app \<Rightarrow> (unit runtime_result \<times> ('c, 'v) app) option" where
  "register_data_sink i obj name a = when_created a
     ((case map_of (data_sinks a) i of Some _ \<Rightarrow> Inl (DuplicateResource name) | None \<Rightarrow> Inr ()),
      a\<lparr>data_sinks := hm_insert i (obj, name) (data_sinks a)\<rparr>)"

definition add_component :: "nat \<Rightarrow> ('c, 'v) app \<Rightarrow> (unit runtime_result \<times> ('c, 'v) app) option" where
  "add_component obj a = when_created a (Inr (), a\<lparr>components := components a @ [obj]\<rparr>)"

definition add_grpc_service :: "('c, 'v) app \<Rightarrow> (unit runtime_result \<times> ('c, 'v) app) option" where
  "add_grpc_service a = when_created a (Inr (), a\<lparr>grpc_routes := True\<rparr>)"

section \<open>Starting\<close>

text \<open>The resources in the order in which \<open>start_with_admission\<close> starts them once the streams are built.\<close>

definition downstream_resources :: "('c, 'v) app \<Rightarrow> resource list" where
  "downstream_resources a =
     RuntimeMetrics # map Storage (storages (environment a)) @ map (WorkerPool \<circ> snd) (task_pools (environment a)) @
     map (PriorityPool \<circ> snd) (priority_task_pools (environment a)) @ map Component (components a) @
     map (\<lambda>(_, obj, _). DataSink obj) (data_sinks a)"

definition admission_resources :: "('c, 'v) app \<Rightarrow> resource list" where
  "admission_resources a = map (\<lambda>(_, obj, _). DataSource obj) (data_sources a) @ [GrpcServer, HttpServer]"

definition start_plan :: "bool \<Rightarrow> ('c, 'v) app \<Rightarrow> resource list" where
  "start_plan admission a = downstream_resources a @ (if admission then admission_resources a else [])"

text \<open>
  What a successful \<open>start\<close> of a server leaves behind: \<open>start_grpc_server\<close> does nothing without a service, the
  HTTP server always listens.
\<close>

fun server_started :: "resource \<Rightarrow> ('c, 'v) app \<Rightarrow> ('c, 'v) app" where
  "server_started GrpcServer a = (if grpc_routes a then a\<lparr>grpc_cancelled := False, grpc_task := Some Live\<rparr> else a)"
| "server_started HttpServer a = a\<lparr>http_cancelled := False, http_task := Some Live\<rparr>"
| "server_started _ a = a"

section \<open>Stopping\<close>

definition job_of :: "resource \<Rightarrow> shutdown_job" where
  "job_of r = \<lparr>operation = r, handle = None, job_completed = False\<rparr>"

definition shutdown_resources :: "('c, 'v) app \<Rightarrow> resource list list" where
  "shutdown_resources a =
     [map (\<lambda>(_, obj, _). DataSource obj) (data_sources a) @ map Component (components a),
      map (WorkerPool \<circ> snd) (task_pools (environment a)) @ map (PriorityPool \<circ> snd) (priority_task_pools (environment a)) @
        DelayPool # map Storage (storages (environment a)),
      [ParallelTasks], map (\<lambda>(_, obj, _). DataSink obj) (data_sinks a),
      [RuntimeMetrics], [MetricsEngine], [TracingEngine], [LogsEngine]]"

definition shutdown_phases :: "('c, 'v) app \<Rightarrow> shutdown_job list list" where
  "shutdown_phases a = map (map job_of) (shutdown_resources a)"

datatype stop_pc = DrainGrpc | DrainHttp | NextPhase | WaitJob nat

datatype app_event =
    StartOp resource "unit runtime_result"
  | Spawn nat nat
  | JobDone nat nat "unit runtime_result"
  | ServerDone resource
  | StartReturn "unit runtime_result"
  | StopReturn "unit runtime_result"

type_synonym ('c, 'v) stop_segment = "('c, 'v) app \<times> app_event list \<times> (stop_pc + unit runtime_result)"

text \<open>\<open>drain_server\<close> polled once: nothing yet, or a result and what is left of the handle.\<close>

definition drain_server :: "bool \<Rightarrow> task_handle option \<Rightarrow> (unit runtime_result \<times> task_handle option) option" where
  "drain_server expired t =
     (case t of
        None \<Rightarrow> Some (Inr (), None)
      | Some (Ended r) \<Rightarrow> Some (r, None)
      | Some Live \<Rightarrow> (if expired then Some (Inl ContextCancelled, Some Live) else None))"

text \<open>A cancelled context may be retried; any other error stays.\<close>

definition note_failure :: "runtime_error \<Rightarrow> ('c, 'v) app \<Rightarrow> ('c, 'v) app" where
  "note_failure e a =
     (if e = ContextCancelled then a else a\<lparr>shutdown := (shutdown a)\<lparr>failure := Some (error_text e)\<rparr>\<rparr>)"

definition after_drain :: "stop_pc \<Rightarrow> unit runtime_result \<Rightarrow> ('c, 'v) app \<Rightarrow> ('c, 'v) stop_segment" where
  "after_drain pc r a = (case r of Inr _ \<Rightarrow> (a, [], Inl pc) | Inl e \<Rightarrow> (note_failure e a, [], Inr (Inl e)))"

definition needs_spawn :: "shutdown_job \<Rightarrow> bool" where
  "needs_spawn j \<longleftrightarrow> \<not> job_completed j \<and> handle j = None"

definition spawn_jobs :: "shutdown_job list \<Rightarrow> shutdown_job list" where
  "spawn_jobs js = map (\<lambda>j. if needs_spawn j then j\<lparr>handle := Some Live\<rparr> else j) js"

definition spawn_log :: "nat \<Rightarrow> shutdown_job list \<Rightarrow> app_event list" where
  "spawn_log p js = map (Spawn p) (filter (\<lambda>i. needs_spawn (js ! i)) [0..<length js])"

definition set_phases :: "shutdown_job list list \<Rightarrow> ('c, 'v) app \<Rightarrow> ('c, 'v) app" where
  "set_phases phs a = a\<lparr>shutdown := (shutdown a)\<lparr>phases := Some phs\<rparr>\<rparr>"

definition current_phases :: "('c, 'v) app \<Rightarrow> shutdown_job list list" where
  "current_phases a = (case phases (shutdown a) of Some phs \<Rightarrow> phs | None \<Rightarrow> shutdown_phases a)"

text \<open>The body of \<open>stop\<close> once it holds the lock, up to the first server.\<close>

definition stop_enter :: "string \<Rightarrow> ('c, 'v) app \<Rightarrow> ('c, 'v) stop_segment" where
  "stop_enter name a =
     (if state a = Stopped then (a, [], Inr (Inr ()))
      else if state a = Created then (a\<lparr>state := Stopped\<rparr>, [], Inr (Inr ()))
      else if state a = Starting then (a, [], Inr (Inl (ResourceAlreadyStarted name)))
      else
        let a1 = a\<lparr>state := Stopping\<rparr> in
        case failure (shutdown a1) of
          Some e \<Rightarrow> (a1, [], Inr (Inl (Transport e)))
        | None \<Rightarrow> (a1\<lparr>grpc_cancelled := True, http_cancelled := True\<rparr>, [], Inl DrainGrpc))"

text \<open>The loop over the phases: the end, or the jobs of the next phase that are neither done nor running.\<close>

definition next_phase :: "bool \<Rightarrow> ('c, 'v) app \<Rightarrow> ('c, 'v) stop_segment option" where
  "next_phase expired a =
     (let phs = current_phases a; p = phase (shutdown a) in
      if p = length phs then
        Some ((set_phases phs a)\<lparr>environment := clear_endpoint_consumers (environment a), state := Stopped\<rparr>, [], Inr (Inr ()))
      else if expired then Some (set_phases phs a, [], Inr (Inl ContextCancelled))
      else if p < length phs then
        Some (set_phases (phs[p := spawn_jobs (phs ! p)]) a, spawn_log p (phs ! p), Inl (WaitJob 0))
      else None)"

definition set_job :: "nat \<Rightarrow> nat \<Rightarrow> shutdown_job \<Rightarrow> ('c, 'v) app \<Rightarrow> ('c, 'v) app" where
  "set_job p i j a = (let phs = current_phases a in set_phases (phs[p := (phs ! p)[i := j]]) a)"

definition wait_job :: "bool \<Rightarrow> nat \<Rightarrow> ('c, 'v) app \<Rightarrow> ('c, 'v) stop_segment option" where
  "wait_job expired i a =
     (let p = phase (shutdown a); js = current_phases a ! p in
      if i \<ge> length js then Some (a\<lparr>shutdown := (shutdown a)\<lparr>phase := p + 1\<rparr>\<rparr>, [], Inl NextPhase)
      else
        let j = js ! i in
        if job_completed j then Some (a, [], Inl (WaitJob (i + 1)))
        else case handle j of
          None \<Rightarrow> None
        | Some Live \<Rightarrow> Some (a, [], if expired then Inr (Inl ContextCancelled) else Inl (WaitJob i))
        | Some (Ended (Inr _)) \<Rightarrow>
            Some (set_job p i (j\<lparr>handle := None, job_completed := True\<rparr>) a, [], Inl (WaitJob (i + 1)))
        | Some (Ended (Inl e)) \<Rightarrow>
            Some (note_failure e (set_job p i (j\<lparr>handle := None\<rparr>) a), [], Inr (Inl e)))"

fun stop_poll :: "bool \<Rightarrow> stop_pc \<Rightarrow> ('c, 'v) app \<Rightarrow> ('c, 'v) stop_segment option" where
  "stop_poll expired DrainGrpc a =
     (case drain_server expired (grpc_task a) of
        None \<Rightarrow> Some (a, [], Inl DrainGrpc)
      | Some (r, t) \<Rightarrow> Some (after_drain DrainHttp r (a\<lparr>grpc_task := t\<rparr>)))"
| "stop_poll expired DrainHttp a =
     (case drain_server expired (http_task a) of
        None \<Rightarrow> Some (a, [], Inl DrainHttp)
      | Some (r, t) \<Rightarrow> Some (after_drain NextPhase r (a\<lparr>http_task := t\<rparr>)))"
| "stop_poll expired NextPhase a = next_phase expired a"
| "stop_poll expired (WaitJob i) a = wait_job expired i a"

section \<open>The application and its callers\<close>

text \<open>
  \<open>starter\<close> is the start call in progress: the resources it has still to start, or the error after which it calls
  \<open>stop\<close>. \<open>holder\<close> is the stop call that holds the lock; \<open>sc_behalf\<close> is the error of the start call that made it.
\<close>

datatype start_progress = Launching "resource list" | Failed runtime_error

record stop_call =
  sc_pc :: stop_pc
  sc_cancelled :: bool
  sc_behalf :: "runtime_error option"

record ('c, 'v) service =
  app :: "('c, 'v) app"
  starter :: "start_progress option"
  holder :: "stop_call option"
  panicked :: bool
  log :: "app_event list"

definition service_of :: "('c, 'v) app \<Rightarrow> ('c, 'v) service" where
  "service_of a = \<lparr>app = a, starter = None, holder = None, panicked = False, log = []\<rparr>"

datatype app_action =
    StartCall bool
  | StartNext "unit runtime_result"
  | StartCleanup bool
  | StartGivesUp
  | StartDropped
  | StopCall bool
  | StopWaits
  | StopPoll
  | Deadline
  | StopDropped
  | JobEnds nat nat "unit runtime_result"
  | ServerEnds resource "unit runtime_result"

definition stop_returns :: "runtime_error option \<Rightarrow> unit runtime_result \<Rightarrow> app_event list" where
  "stop_returns behalf r = StopReturn r # (case behalf of None \<Rightarrow> [] | Some e \<Rightarrow> [StartReturn (Inl e)])"

text \<open>A segment of a stop call ends: the call goes on, or it returns and releases the lock.\<close>

definition stop_segment :: "bool \<Rightarrow> runtime_error option \<Rightarrow> ('c, 'v) stop_segment option \<Rightarrow> ('c, 'v) service \<Rightarrow> ('c, 'v) service" where
  "stop_segment expired behalf sg s =
     (case sg of
        None \<Rightarrow> s\<lparr>panicked := True, holder := None\<rparr>
      | Some (a, evs, Inl pc) \<Rightarrow>
          s\<lparr>app := a, log := log s @ evs,
            holder := Some \<lparr>sc_pc = pc, sc_cancelled = expired, sc_behalf = behalf\<rparr>\<rparr>
      | Some (a, evs, Inr r) \<Rightarrow> s\<lparr>app := a, log := log s @ evs @ stop_returns behalf r, holder := None\<rparr>)"

text \<open>\<open>stop\<close> called while the lock is free; it first reads its configuration.\<close>

definition app_name :: "('c, 'v) app \<Rightarrow> string" where
  "app_name a = (case app_config a of Some c \<Rightarrow> svc_name c | None \<Rightarrow> [])"

definition enter_stop :: "bool \<Rightarrow> runtime_error option \<Rightarrow> ('c, 'v) service \<Rightarrow> ('c, 'v) service" where
  "enter_stop expired behalf s =
     (if app_config (app s) = None then s\<lparr>panicked := True\<rparr>
      else stop_segment expired behalf (Some (stop_enter (app_name (app s)) (app s))) s)"

text \<open>\<open>start_with_admission\<close> up to its first suspension: the state, then the streams.\<close>

definition start_call :: "bool \<Rightarrow> ('c, 'v) service \<Rightarrow> ('c, 'v) service" where
  "start_call admission s =
     (let a = app s in
      if app_config a = None then s\<lparr>panicked := True\<rparr>
      else if state a \<noteq> Created then s\<lparr>log := log s @ [StartReturn (Inl (ResourceAlreadyStarted (app_name a)))]\<rparr>
      else case build_runtime_streams (environment a) of
        (Inl e, g) \<Rightarrow> s\<lparr>app := a\<lparr>environment := g, state := Running\<rparr>, starter := Some (Failed e)\<rparr>
      | (Inr _, g) \<Rightarrow>
          (let a1 = a\<lparr>environment := g, state := Starting\<rparr> in
           s\<lparr>app := a1, starter := Some (Launching (start_plan admission a1))\<rparr>))"

definition start_next :: "unit runtime_result \<Rightarrow> resource list \<Rightarrow> ('c, 'v) service \<Rightarrow> ('c, 'v) service" where
  "start_next r xs s =
     (case xs of
        [] \<Rightarrow> s\<lparr>app := (app s)\<lparr>state := Running\<rparr>, starter := None, log := log s @ [StartReturn (Inr ())]\<rparr>
      | x # xs' \<Rightarrow>
          (case r of
             Inr _ \<Rightarrow> s\<lparr>app := server_started x (app s), starter := Some (Launching xs'), log := log s @ [StartOp x r]\<rparr>
           | Inl e \<Rightarrow> s\<lparr>app := (app s)\<lparr>state := Running\<rparr>, starter := Some (Failed e), log := log s @ [StartOp x r]\<rparr>))"

definition end_job :: "nat \<Rightarrow> nat \<Rightarrow> unit runtime_result \<Rightarrow> ('c, 'v) app \<Rightarrow> ('c, 'v) app option" where
  "end_job p i r a =
     (case phases (shutdown a) of
        None \<Rightarrow> None
      | Some phs \<Rightarrow>
          (if p < length phs \<and> i < length (phs ! p) \<and> handle (phs ! p ! i) = Some Live
           then Some (set_job p i ((phs ! p ! i)\<lparr>handle := Some (Ended r)\<rparr>) a) else None))"

fun end_server :: "resource \<Rightarrow> unit runtime_result \<Rightarrow> ('c, 'v) app \<Rightarrow> ('c, 'v) app option" where
  "end_server GrpcServer r a = (if grpc_task a = Some Live then Some (a\<lparr>grpc_task := Some (Ended r)\<rparr>) else None)"
| "end_server HttpServer r a = (if http_task a = Some Live then Some (a\<lparr>http_task := Some (Ended r)\<rparr>) else None)"
| "end_server _ r a = None"

fun app_step :: "app_action \<Rightarrow> ('c, 'v) service \<Rightarrow> ('c, 'v) service option" where
  "app_step (StartCall admission) s = (if starter s = None then Some (start_call admission s) else None)"
| "app_step (StartNext r) s = (case starter s of Some (Launching xs) \<Rightarrow> Some (start_next r xs s) | _ \<Rightarrow> None)"
| "app_step (StartCleanup expired) s =
     (case (starter s, holder s) of
        (Some (Failed e), None) \<Rightarrow>
          Some (enter_stop expired (Some e) (s\<lparr>starter := None\<rparr>))
      | _ \<Rightarrow> None)"
| "app_step StartGivesUp s =
     (case (starter s, holder s) of
        (Some (Failed e), Some _) \<Rightarrow>
          Some (s\<lparr>starter := None, log := log s @ stop_returns (Some e) (Inl ContextCancelled)\<rparr>)
      | _ \<Rightarrow> None)"
| "app_step StartDropped s = (if starter s = None then None else Some (s\<lparr>starter := None\<rparr>))"
| "app_step (StopCall expired) s =
     (if holder s = None then Some (enter_stop expired None s) else None)"
| "app_step StopWaits s =
     (if holder s = None then None else Some (s\<lparr>log := log s @ stop_returns None (Inl ContextCancelled)\<rparr>))"
| "app_step StopPoll s =
     (case holder s of
        None \<Rightarrow> None
      | Some c \<Rightarrow> Some (stop_segment (sc_cancelled c) (sc_behalf c) (stop_poll (sc_cancelled c) (sc_pc c) (app s)) s))"
| "app_step Deadline s =
     (case holder s of None \<Rightarrow> None | Some c \<Rightarrow> Some (s\<lparr>holder := Some (c\<lparr>sc_cancelled := True\<rparr>)\<rparr>))"
| "app_step StopDropped s = (if holder s = None then None else Some (s\<lparr>holder := None\<rparr>))"
| "app_step (JobEnds p i r) s =
     (case end_job p i r (app s) of None \<Rightarrow> None | Some a \<Rightarrow> Some (s\<lparr>app := a, log := log s @ [JobDone p i r]\<rparr>))"
| "app_step (ServerEnds x r) s =
     (case end_server x r (app s) of None \<Rightarrow> None | Some a \<Rightarrow> Some (s\<lparr>app := a, log := log s @ [ServerDone x]\<rparr>))"

section \<open>The pools of the configuration\<close>

text \<open>The configuration knows the pool that a semantics needs; a caller of that semantics can be made.\<close>

definition pool_known :: "('c, 'v) graph \<Rightarrow> call_semantics \<Rightarrow> bool" where
  "pool_known g c \<longleftrightarrow> (case semantics_pool c of None \<Rightarrow> True | Some p \<Rightarrow> pool_by_name (config g) p \<noteq> None)"

fun callable :: "call_semantics \<Rightarrow> ('c, 'v) graph \<Rightarrow> bool" where
  "callable (TaskPool p) g \<longleftrightarrow> map_of (task_pools g) p \<noteq> None"
| "callable (PriorityTaskPool p _) g \<longleftrightarrow> map_of (priority_task_pools g) p \<noteq> None"
| "callable _ g \<longleftrightarrow> True"

lemma callable_iff: "callable c g \<longleftrightarrow> (\<exists>k. make_caller c b g = Inr k)"
  by (cases c) (auto simp: make_caller_def task_pool_def priority_task_pool_def split: option.splits)

lemma register_pool_ok:
  assumes "register_pool c n g = (r, g')"
  shows "config g' = config g" "callable d g \<Longrightarrow> callable d g'" "pool_known g c \<Longrightarrow> r = Inr () \<and> callable c g'"
  using assms
  by (cases c; cases d;
      auto simp: task_pool_def priority_task_pool_def pool_create_def pool_executor_count_def pool_known_def
        register_task_pool_def register_priority_task_pool_def split: option.splits)+

lemma register_pools_ok:
  "register_pools cs n g = (r, g') \<Longrightarrow>
     config g' = config g \<and> (callable d g \<longrightarrow> callable d g') \<and>
     (list_all (pool_known g) cs \<longrightarrow> r = Inr () \<and> list_all (\<lambda>c. callable c g') cs)"
proof (induction cs n g arbitrary: r d rule: register_pools.induct)
  case (2 c cs n g)
  obtain r1 g1 where c: "register_pool c n g = (r1, g1)"
    by (cases "register_pool c n g")
  note c1 = register_pool_ok [OF c]
  show ?case
  proof (cases r1)
    case (Inl e)
    then show ?thesis
      using 2(2) c c1 by (auto simp: pool_known_def)
  next
    case (Inr u)
    then have rest: "register_pools cs (n + 1) g1 = (r, g')"
      using 2(2) c by simp
    have "pool_known g1 = pool_known g"
      using c1(1) by (simp add: pool_known_def fun_eq_iff split: option.split)
    then show ?thesis
      using 2(1) [OF c [symmetric] Inr rest, of d] 2(1) [OF c [symmetric] Inr rest, of c] c1 by (auto simp: list_all_iff)
  qed
qed simp

lemma for_service_simps [simp]:
  "config (for_service i g) = config g" "service_id (for_service i g) = Some i"
  by (simp_all add: for_service_def)

lemma indexed_known:
  assumes "config g = indexed sem services strs pools connectors endpoints links" "distinct (map pool_name pools)"
    and "c \<in> set (sem # map svc_call_semantics services @ map link_semantics links)"
  shows "pool_known g c"
proof (cases "semantics_pool c")
  case (Some p)
  then have "Some p \<in> semantics_pool ` set (sem # map svc_call_semantics services @ map link_semantics links)"
    using assms(3) by (metis imageI)
  then show ?thesis
    using Some assms(1) pool_lookup [OF assms(2)] keyed_lookup [OF assms(2)]
    by (auto simp: pool_known_def pool_by_name_def indexed_sel add_default_pools_lookup simp del: add_default_pools.simps
        split: option.split)
qed (simp add: pool_known_def)

definition demo_service :: service_config where
  "demo_service = \<lparr>svc_id = 1, svc_name = ''orders'', svc_call_semantics = TaskPool ''workers'', shutdown_timeout = 1000\<rparr>"

definition demo_link :: link_config where
  "demo_link = \<lparr>link_from = 1, link_to = 2, link_semantics = PriorityTaskPool ''urgent'' 3, link_async = False\<rparr>"



end
