(* ===== verification/Service_Runs.thy ===== *)
theory Service_Runs
  imports Service_App
begin

text \<open>
  What every interleaving of starts, stops, jobs and servers of a service keeps. The invariant has a part on the
  application (\<open>app_ok\<close>: the phases and the cursor, the history of every job, the servers) and a part on the calls
  in progress (\<open>calls_ok\<close>, \<open>starts_ok\<close>).
\<close>

section \<open>What never changes\<close>

definition same_parts :: "('c, 'v) app \<Rightarrow> ('c, 'v) app \<Rightarrow> bool" where
  "same_parts a b \<longleftrightarrow>
     app_service b = app_service a \<and> data_sources b = data_sources a \<and> data_sinks b = data_sinks a \<and>
     components b = components a \<and> grpc_routes b = grpc_routes a \<and>
     config (environment b) = config (environment a) \<and> storages (environment b) = storages (environment a) \<and>
     task_pools (environment b) = task_pools (environment a) \<and>
     priority_task_pools (environment b) = priority_task_pools (environment a)"

lemma same_parts_refl [simp]: "same_parts a a"
  by (simp add: same_parts_def)

lemma same_parts_eqs:
  assumes "same_parts a b"
  shows "shutdown_resources b = shutdown_resources a" "downstream_resources b = downstream_resources a"
    "admission_resources b = admission_resources a" "start_plan adm b = start_plan adm a"
    "app_config b = app_config a"
  using assms
  by (simp_all add: same_parts_def shutdown_resources_def downstream_resources_def admission_resources_def
      start_plan_def app_config_def)

lemma build_operator_keeps:
  "build_operator b g = (r, g') \<Longrightarrow> config g' = config g \<and> storages g' = storages g \<and> task_pools g' = task_pools g \<and>
     priority_task_pools g' = priority_task_pools g"
  by (auto simp: build_operator_def split: operator.splits option.splits)

lemma build_all_keeps:
  "build_all bs g = (r, g') \<Longrightarrow> config g' = config g \<and> storages g' = storages g \<and> task_pools g' = task_pools g \<and>
     priority_task_pools g' = priority_task_pools g"
proof (induction bs g arbitrary: r rule: build_all.induct)
  case (2 b bs g)
  then show ?case
    by (auto split: prod.splits sum.splits dest!: build_operator_keeps)
qed simp

lemma build_runtime_streams_keeps:
  "build_runtime_streams (environment a) = (r, g) \<Longrightarrow> same_parts a0 a \<Longrightarrow>
     same_parts a0 (a\<lparr>environment := g, state := st\<rparr>)"
  using build_all_keeps [of "buildables (environment a)" "environment a" r g]
  by (simp add: build_runtime_streams_def same_parts_def)

section \<open>The history of a job\<close>

fun of_job :: "nat \<Rightarrow> nat \<Rightarrow> app_event \<Rightarrow> bool" where
  "of_job p i (Spawn q k) \<longleftrightarrow> q = p \<and> k = i"
| "of_job p i (JobDone q k _) \<longleftrightarrow> q = p \<and> k = i"
| "of_job p i _ \<longleftrightarrow> False"

definition hist :: "nat \<Rightarrow> nat \<Rightarrow> app_event list \<Rightarrow> app_event list" where
  "hist p i l = filter (of_job p i) l"

lemma hist_append [simp]: "hist p i (l @ l') = hist p i l @ hist p i l'"
  by (simp add: hist_def)

lemma hist_simps [simp]: "hist p i [] = []" "hist p i (e # l) = (if of_job p i e then e # hist p i l else hist p i l)"
  by (simp_all add: hist_def)

definition attempts :: "nat \<Rightarrow> nat \<Rightarrow> nat \<Rightarrow> app_event list" where
  "attempts p i n = concat (replicate n [Spawn p i, JobDone p i (Inl ContextCancelled)])"

lemma attempts_snoc: "attempts p i n @ [Spawn p i, JobDone p i (Inl ContextCancelled)] = attempts p i (Suc n)"
  by (induction n) (auto simp: attempts_def)

text \<open>What the fields of a job say about the events of the job: \<open>n\<close> attempts whose caller ran out of time, then this.\<close>

definition last_attempt :: "bool \<Rightarrow> nat \<Rightarrow> nat \<Rightarrow> shutdown_job \<Rightarrow> app_event list \<Rightarrow> bool" where
  "last_attempt failed p i j l \<longleftrightarrow>
     (if job_completed j then l = [Spawn p i, JobDone p i (Inr ())]
      else case handle j of
        Some Live \<Rightarrow> l = [Spawn p i]
      | Some (Ended r) \<Rightarrow> l = [Spawn p i, JobDone p i r]
      | None \<Rightarrow> l = [] \<or> failed \<and> (\<exists>e. e \<noteq> ContextCancelled \<and> l = [Spawn p i, JobDone p i (Inl e)]))"

definition job_hist :: "bool \<Rightarrow> nat \<Rightarrow> nat \<Rightarrow> shutdown_job \<Rightarrow> app_event list \<Rightarrow> bool" where
  "job_hist failed p i j l \<longleftrightarrow> (\<exists>n r. l = attempts p i n @ r \<and> last_attempt failed p i j r)"

lemma job_hist_fresh [simp]: "job_hist failed p i (job_of r) []"
  by (auto simp: job_hist_def last_attempt_def job_of_def attempts_def intro!: exI [of _ 0])

lemma job_hist_spawn:
  "job_hist False p i j l \<Longrightarrow> needs_spawn j \<Longrightarrow> job_hist False p i (j\<lparr>handle := Some Live\<rparr>) (l @ [Spawn p i])"
  by (auto simp: job_hist_def last_attempt_def needs_spawn_def)

lemma job_hist_done:
  "job_hist f p i j l \<Longrightarrow> handle j = Some Live \<Longrightarrow> \<not> job_completed j \<Longrightarrow>
     job_hist f p i (j\<lparr>handle := Some (Ended r)\<rparr>) (l @ [JobDone p i r])"
  by (auto simp: job_hist_def last_attempt_def)

lemma job_hist_completed:
  "job_hist f p i j l \<Longrightarrow> handle j = Some (Ended (Inr u)) \<Longrightarrow> \<not> job_completed j \<Longrightarrow>
     job_hist f p i (j\<lparr>handle := None, job_completed := True\<rparr>) l"
  by (auto simp: job_hist_def last_attempt_def)

lemma job_hist_failed:
  assumes "job_hist False p i j l" "handle j = Some (Ended (Inl e))" "\<not> job_completed j"
  shows "job_hist (e \<noteq> ContextCancelled) p i (j\<lparr>handle := None\<rparr>) l"
proof (cases "e = ContextCancelled")
  case True
  obtain n where l: "l = attempts p i n @ [Spawn p i, JobDone p i (Inl e)]"
    using assms by (auto simp: job_hist_def last_attempt_def)
  then have "l = attempts p i (Suc n) @ []"
    using True attempts_snoc [of p i n] by simp
  then show ?thesis
    using assms(3) by (auto simp: job_hist_def last_attempt_def)
next
  case False
  then show ?thesis
    using assms by (auto simp: job_hist_def last_attempt_def)
qed

lemma job_hist_mono: "job_hist False p i j l \<Longrightarrow> job_hist f p i j l"
  by (auto simp: job_hist_def last_attempt_def split: if_splits option.splits task_handle.splits)

lemma job_hist_done_mem: "job_hist f p i j (hist p i l) \<Longrightarrow> job_completed j \<Longrightarrow> JobDone p i (Inr ()) \<in> set l"
  by (fastforce simp: job_hist_def last_attempt_def hist_def dest: arg_cong [of _ _ set])

section \<open>The invariant of the application\<close>

definition servers_down :: "('c, 'v) app \<Rightarrow> bool" where
  "servers_down a \<longleftrightarrow> grpc_task a = None \<and> http_task a = None"

definition job_ok :: "nat \<Rightarrow> nat \<Rightarrow> shutdown_job \<Rightarrow> bool" where
  "job_ok cursor p j \<longleftrightarrow>
     (p < cursor \<longrightarrow> job_completed j) \<and> (cursor < p \<longrightarrow> needs_spawn j) \<and> (job_completed j \<longrightarrow> handle j = None)"

definition jobs_ok :: "nat \<Rightarrow> bool \<Rightarrow> shutdown_job list list \<Rightarrow> app_event list \<Rightarrow> bool" where
  "jobs_ok cursor failed phs l \<longleftrightarrow>
     (\<forall>p i. p < length phs \<longrightarrow> i < length (phs ! p) \<longrightarrow>
        job_ok cursor p (phs ! p ! i) \<and> job_hist failed p i (phs ! p ! i) (hist p i l))"

definition phases_ok :: "('c, 'v) app \<Rightarrow> app_event list \<Rightarrow> bool" where
  "phases_ok a l \<longleftrightarrow>
     (case phases (shutdown a) of
        None \<Rightarrow> phase (shutdown a) = 0 \<and> (\<forall>p i. hist p i l = [])
      | Some phs \<Rightarrow>
          map (map operation) phs = shutdown_resources a \<and> servers_down a \<and> phase (shutdown a) \<le> length phs \<and>
          state a \<in> {Stopping, Stopped} \<and> jobs_ok (phase (shutdown a)) (failure (shutdown a) \<noteq> None) phs l)"

text \<open>The servers that were started and have not ended are still owned.\<close>

definition servers_ok :: "('c, 'v) app \<Rightarrow> app_event list \<Rightarrow> bool" where
  "servers_ok a l \<longleftrightarrow>
     (grpc_routes a \<and> StartOp GrpcServer (Inr ()) \<in> set l \<longrightarrow> grpc_task a = Some Live \<or> ServerDone GrpcServer \<in> set l) \<and>
     (StartOp HttpServer (Inr ()) \<in> set l \<longrightarrow> http_task a = Some Live \<or> ServerDone HttpServer \<in> set l)"

definition state_ok :: "('c, 'v) app \<Rightarrow> bool" where
  "state_ok a \<longleftrightarrow>
     (failure (shutdown a) \<noteq> None \<longrightarrow> state a = Stopping) \<and>
     (state a = Created \<longrightarrow> servers_down a) \<and>
     (state a = Stopped \<longrightarrow> servers_down a \<and>
        (case phases (shutdown a) of
           None \<Rightarrow> True
         | Some phs \<Rightarrow> phase (shutdown a) = length phs \<and> endpoint_consumers (environment a) = []))"

text \<open>When a job is spawned, every job of the earlier phases has succeeded and the servers have ended.\<close>

definition stop_order :: "('c, 'v) app \<Rightarrow> app_event list \<Rightarrow> app_event \<Rightarrow> bool" where
  "stop_order a l e \<longleftrightarrow>
     (case e of
        Spawn p i \<Rightarrow>
          (\<forall>q<p. \<forall>k<length (shutdown_resources a ! q). JobDone q k (Inr ()) \<in> set l) \<and>
          (grpc_routes a \<and> StartOp GrpcServer (Inr ()) \<in> set l \<longrightarrow> ServerDone GrpcServer \<in> set l) \<and>
          (StartOp HttpServer (Inr ()) \<in> set l \<longrightarrow> ServerDone HttpServer \<in> set l)
      | _ \<Rightarrow> True)"

definition app_ok :: "('c, 'v) app \<Rightarrow> ('c, 'v) app \<Rightarrow> app_event list \<Rightarrow> bool" where
  "app_ok a0 a l \<longleftrightarrow>
     same_parts a0 a \<and> phases_ok a l \<and> servers_ok a l \<and> state_ok a \<and> always (stop_order a0) l"

lemmas app_ok_defs = app_ok_def phases_ok_def servers_ok_def state_ok_def

text \<open>Events that are neither of a job nor of a server leave it alone.\<close>

fun plain_event :: "app_event \<Rightarrow> bool" where
  "plain_event (StartReturn _) \<longleftrightarrow> True"
| "plain_event (StopReturn _) \<longleftrightarrow> True"
| "plain_event (StartOp x r) \<longleftrightarrow> x \<notin> {GrpcServer, HttpServer} \<or> r \<noteq> Inr ()"
| "plain_event _ \<longleftrightarrow> False"

lemma plain_of_job: "plain_event e \<Longrightarrow> \<not> of_job p i e"
  by (cases e) auto

lemma app_ok_plain:
  assumes "app_ok a0 a l" "plain_event e"
  shows "app_ok a0 a (l @ [e])"
proof -
  have "jobs_ok c f phs l \<Longrightarrow> jobs_ok c f phs (l @ [e])" for c f phs
    using plain_of_job [OF assms(2)] by (simp add: jobs_ok_def)
  then have "phases_ok a (l @ [e])"
    using assms plain_of_job [OF assms(2)] by (auto simp: app_ok_def phases_ok_def split: option.splits)
  moreover have "servers_ok a (l @ [e])" "stop_order a0 l e"
    using assms by (cases e; auto simp: app_ok_def servers_ok_def stop_order_def)+
  ultimately show ?thesis
    using assms(1) by (simp add: app_ok_def always_snoc)
qed

lemma app_ok_plains: "app_ok a0 a l \<Longrightarrow> list_all plain_event es \<Longrightarrow> app_ok a0 a (l @ es)"
proof (induction es rule: rev_induct)
  case (snoc e es)
  then show ?case using app_ok_plain [of a0 a "l @ es" e] by simp
qed simp

lemma stop_returns_plain: "list_all plain_event (stop_returns b r)"
  by (simp add: stop_returns_def split: option.splits)

lemma phases_ok_resources: "same_parts a0 a \<Longrightarrow> phases_ok a l \<Longrightarrow> phases (shutdown a) = Some phs \<Longrightarrow>
    map (map operation) phs = shutdown_resources a0"
  using same_parts_eqs(1) [of a0 a] by (simp add: phases_ok_def)

lemma phases_ok_length: "same_parts a0 a \<Longrightarrow> phases_ok a l \<Longrightarrow> phases (shutdown a) = Some phs \<Longrightarrow>
    length phs = 8"
  using phases_ok_resources [of a0 a l phs] by (auto simp: shutdown_resources_def dest: arg_cong [of _ _ length])

text \<open>A phase the cursor has passed is complete.\<close>

lemma jobs_ok_passed:
  assumes "jobs_ok c f phs l" "map (map operation) phs = rs" "q < c" "c \<le> length phs" "k < length (rs ! q)"
  shows "JobDone q k (Inr ()) \<in> set l"
proof -
  have "q < length phs" "k < length (phs ! q)"
    using assms by (auto simp: nth_map)
  then show ?thesis
    using assms(1,3) by (intro job_hist_done_mem [where j = "phs ! q ! k"]) (auto simp: jobs_ok_def job_ok_def)
qed

section \<open>The segments of a stop call\<close>

definition pc_ok :: "stop_pc \<Rightarrow> ('c, 'v) app \<Rightarrow> bool" where
  "pc_ok pc a \<longleftrightarrow>
     state a = Stopping \<and> failure (shutdown a) = None \<and>
     (case pc of
        DrainGrpc \<Rightarrow> True
      | DrainHttp \<Rightarrow> grpc_task a = None
      | NextPhase \<Rightarrow> servers_down a
      | WaitJob i \<Rightarrow>
          (\<exists>phs. phases (shutdown a) = Some phs \<and> phase (shutdown a) < length phs \<and>
             (let js = phs ! phase (shutdown a) in
              i \<le> length js \<and> (\<forall>k<i. job_completed (js ! k)) \<and>
              (\<forall>k<length js. i \<le> k \<longrightarrow> \<not> needs_spawn (js ! k)))))"

text \<open>What a segment leaves: the invariant, and the next program point or a result that fits the state.\<close>

definition seg_ok :: "('c, 'v) app \<Rightarrow> app_event list \<Rightarrow> ('c, 'v) stop_segment \<Rightarrow> bool" where
  "seg_ok a0 l sgm \<longleftrightarrow>
     (case sgm of (a, evs, out) \<Rightarrow>
        app_ok a0 a (l @ evs) \<and>
        (case out of
           Inl pc \<Rightarrow> pc_ok pc a
         | Inr (Inr _) \<Rightarrow> state a = Stopped
         | Inr (Inl e) \<Rightarrow> state a \<noteq> Stopped))"

lemma stop_enter_ok:
  assumes "app_ok a0 a l"
  shows "seg_ok a0 l (stop_enter n a)"
proof -
  have upd: "app_ok a0 (a\<lparr>state := Stopping, grpc_cancelled := g, http_cancelled := h\<rparr>) l"
    if "state a \<in> {Running, Stopping}" for g h
    using assms that
    by (auto simp: app_ok_defs same_parts_def shutdown_resources_def servers_down_def split: option.splits)
  have "app_ok a0 (a\<lparr>state := Stopped\<rparr>) l" if "state a = Created"
    using assms that
    by (auto simp: app_ok_defs same_parts_def shutdown_resources_def servers_down_def split: option.splits)
  moreover have "app_ok a0 (a\<lparr>state := Stopping\<rparr>) l" if "state a \<in> {Running, Stopping}"
    using upd [OF that, where g = "grpc_cancelled a" and h = "http_cancelled a"] by simp
  ultimately show ?thesis
    using assms upd by (cases "state a")
      (auto simp: stop_enter_def seg_ok_def pc_ok_def Let_def split: option.splits)
qed

lemma note_failure_ok:
  assumes "app_ok a0 a l" "state a = Stopping"
  shows "app_ok a0 (note_failure e a) l"
proof (cases "e = ContextCancelled")
  case False
  have "jobs_ok c f phs l \<Longrightarrow> jobs_ok c True phs l" for c f phs
    by (cases f) (auto simp: jobs_ok_def intro: job_hist_mono)
  then show ?thesis
    using assms False
    by (auto simp: note_failure_def app_ok_defs same_parts_def shutdown_resources_def servers_down_def
        split: option.splits)
qed (use assms in \<open>simp add: note_failure_def\<close>)

lemma note_failure_state [simp]: "state (note_failure e a) = state a"
  by (simp add: note_failure_def)

lemma drain_ok:
  assumes "app_ok a0 a l" "state a = Stopping" "t = None \<or> t = upd"
    and "drain_server x upd = Some (r, t)"
  shows "grpc_task a = upd \<Longrightarrow> app_ok a0 (a\<lparr>grpc_task := t\<rparr>) l" "http_task a = upd \<Longrightarrow> app_ok a0 (a\<lparr>http_task := t\<rparr>) l"
  using assms
  by (auto simp: app_ok_defs same_parts_def shutdown_resources_def servers_down_def drain_server_def
      split: option.splits task_handle.splits if_splits)

lemma drain_server_cases:
  "drain_server x t0 = Some (r, t) \<Longrightarrow> (t = None \<or> t = t0) \<and> (r = Inr () \<longrightarrow> t = None)"
  by (auto simp: drain_server_def split: option.splits task_handle.splits if_splits)

lemma after_drain_ok:
  assumes "app_ok a0 a l" "state a = Stopping" "failure (shutdown a) = None" "r = Inr () \<longrightarrow> pc_ok pc a"
  shows "seg_ok a0 l (after_drain pc r a)"
  using assms note_failure_ok [OF assms(1,2)]
  by (auto simp: after_drain_def seg_ok_def split: sum.splits)

lemma drain_poll_ok:
  assumes "app_ok a0 a l" "pc_ok pc a" "pc = DrainGrpc \<or> pc = DrainHttp"
  shows "\<exists>sgm. stop_poll x pc a = Some sgm \<and> seg_ok a0 l sgm"
proof -
  have st: "state a = Stopping" "failure (shutdown a) = None"
    using assms by (auto simp: pc_ok_def)
  from assms(3) show ?thesis
  proof
    assume pc: "pc = DrainGrpc"
    show ?thesis
    proof (cases "drain_server x (grpc_task a)")
      case (Some rt)
      then obtain r t where rt: "drain_server x (grpc_task a) = Some (r, t)" by (cases rt) auto
      have "app_ok a0 (a\<lparr>grpc_task := t\<rparr>) l"
        using drain_ok(1) [OF assms(1) st(1) _ rt] drain_server_cases [OF rt] by simp
      then show ?thesis
        using rt st drain_server_cases [OF rt] pc after_drain_ok [of a0 "a\<lparr>grpc_task := t\<rparr>" l r DrainHttp]
        by (auto simp: pc_ok_def)
    qed (use assms pc in \<open>simp add: seg_ok_def\<close>)
  next
    assume pc: "pc = DrainHttp"
    show ?thesis
    proof (cases "drain_server x (http_task a)")
      case (Some rt)
      then obtain r t where rt: "drain_server x (http_task a) = Some (r, t)" by (cases rt) auto
      have "app_ok a0 (a\<lparr>http_task := t\<rparr>) l"
        using drain_ok(2) [OF assms(1) st(1) _ rt] drain_server_cases [OF rt] by simp
      moreover have "grpc_task a = None"
        using assms(2) pc by (simp add: pc_ok_def)
      ultimately show ?thesis
        using rt st drain_server_cases [OF rt] pc after_drain_ok [of a0 "a\<lparr>http_task := t\<rparr>" l r NextPhase]
        by (auto simp: pc_ok_def servers_down_def)
    qed (use assms pc in \<open>simp add: seg_ok_def\<close>)
  qed
qed

text \<open>The first call that gets past the servers fixes the phases.\<close>

lemma set_phases_simps [simp]:
  "shutdown (set_phases phs a) = (shutdown a)\<lparr>phases := Some phs\<rparr>" "state (set_phases phs a) = state a"
  "environment (set_phases phs a) = environment a" "grpc_task (set_phases phs a) = grpc_task a"
  "http_task (set_phases phs a) = http_task a" "same_parts a0 (set_phases phs a) = same_parts a0 a"
  "shutdown_resources (set_phases phs a) = shutdown_resources a" "grpc_routes (set_phases phs a) = grpc_routes a"
  "servers_down (set_phases phs a) = servers_down a" "current_phases (set_phases phs a) = phs"
  "set_phases phs' (set_phases phs a) = set_phases phs' a"
  by (simp_all add: set_phases_def same_parts_def shutdown_resources_def servers_down_def current_phases_def)

lemma fix_phases_ok:
  assumes "app_ok a0 a l" "state a = Stopping" "servers_down a" "failure (shutdown a) = None"
  shows "app_ok a0 (set_phases (current_phases a) a) l"
proof (cases "phases (shutdown a)")
  case None
  have "jobs_ok 0 False (shutdown_phases a) l"
    using assms(1) None
    by (auto simp: jobs_ok_def shutdown_phases_def job_ok_def app_ok_defs) (auto simp: job_of_def needs_spawn_def)
  moreover have "map (map operation) (shutdown_phases a) = shutdown_resources a"
    by (simp add: shutdown_phases_def comp_def job_of_def)
  ultimately show ?thesis
    using assms None by (simp add: app_ok_defs current_phases_def)
next
  case (Some phs)
  then have "set_phases (current_phases a) a = a"
    by (simp add: set_phases_def current_phases_def)
  then show ?thesis using assms(1) by simp
qed

lemma hist_spawn_log:
  "i < length js \<Longrightarrow> hist q i (spawn_log p js) = (if q = p \<and> needs_spawn (js ! i) then [Spawn p i] else [])"
proof -
  assume i: "i < length js"
  have "hist q i (map (Spawn p) (filter (\<lambda>i. needs_spawn (js ! i)) [0..<n])) =
      (if q = p \<and> i < n \<and> needs_spawn (js ! i) then [Spawn p i] else [])" for n
    by (induction n) (auto simp: less_Suc_eq)
  then show ?thesis using i by (simp add: spawn_log_def)
qed

lemma hist_spawn_other: "q \<noteq> p \<Longrightarrow> hist q i (spawn_log p js) = []"
  by (simp add: hist_def spawn_log_def comp_def)

lemma jobs_ok_spawn:
  assumes "jobs_ok p False phs l" "p < length phs"
  shows "jobs_ok p False (phs[p := spawn_jobs (phs ! p)]) (l @ spawn_log p (phs ! p))"
  unfolding jobs_ok_def
proof (intro allI impI)
  fix q i
  let ?phs = "phs[p := spawn_jobs (phs ! p)]"
  assume q: "q < length ?phs" and i: "i < length (?phs ! q)"
  then have i': "q < length phs" "i < length (phs ! q)"
    using assms(2) by (auto simp: spawn_jobs_def nth_list_update split: if_split_asm)
  have old: "job_ok p q (phs ! q ! i)" "job_hist False q i (phs ! q ! i) (hist q i l)"
    using assms(1) i' by (auto simp: jobs_ok_def)
  show "job_ok p q (?phs ! q ! i) \<and> job_hist False q i (?phs ! q ! i) (hist q i (l @ spawn_log p (phs ! p)))"
  proof (cases "q = p")
    case True
    then show ?thesis
      using old i' assms(2) by (auto simp: hist_spawn_log spawn_jobs_def job_ok_def needs_spawn_def intro!: job_hist_spawn)
  next
    case False
    then show ?thesis using old by (simp add: hist_spawn_other)
  qed
qed

lemma spawn_order:
  assumes ok: "app_ok a0 a l" and p: "phases (shutdown a) = Some phs" "phase (shutdown a) = p" "p < length phs"
  shows "always (stop_order a0) (l @ spawn_log p js)"
proof (rule always_append)
  fix pre e
  assume "e \<in> set (spawn_log p js)"
  then obtain i where e: "e = Spawn p i"
    by (auto simp: spawn_log_def)
  have res: "map (map operation) phs = shutdown_resources a0" and jobs: "jobs_ok p (failure (shutdown a) \<noteq> None) phs l"
    using ok p phases_ok_resources [of a0 a l phs] by (auto simp: app_ok_def phases_ok_def)
  have "JobDone q k (Inr ()) \<in> set l" if "q < p" "k < length (shutdown_resources a0 ! q)" for q k
    using jobs_ok_passed [OF jobs res that(1)] that(2) p(3) by simp
  moreover have "servers_down a" "grpc_routes a = grpc_routes a0" "servers_ok a l"
    using ok p by (auto simp: app_ok_def phases_ok_def same_parts_def)
  moreover have "StartOp x r \<notin> set (spawn_log p js)" "ServerDone x \<notin> set (spawn_log p js)" for x r
    by (auto simp: spawn_log_def)
  moreover assume "set pre \<subseteq> set (spawn_log p js)"
  ultimately show "stop_order a0 (l @ pre) e"
    unfolding e by (auto simp: stop_order_def servers_ok_def servers_down_def)
qed (use ok in \<open>simp add: app_ok_def\<close>)

lemma servers_ok_spawn: "servers_ok a l \<Longrightarrow> servers_ok a (l @ spawn_log p js)"
  by (auto simp: servers_ok_def spawn_log_def)

lemma spawn_jobs_ready: "k < length js \<Longrightarrow> \<not> needs_spawn (spawn_jobs js ! k)"
  by (simp add: spawn_jobs_def needs_spawn_def)

lemma next_phase_fixed_ok:
  assumes ok: "app_ok a0 a l" and pc: "pc_ok NextPhase a" and phs: "phases (shutdown a) = Some phs"
  shows "\<exists>sgm. next_phase x a = Some sgm \<and> seg_ok a0 l sgm"
proof -
  let ?p = "phase (shutdown a)" and ?js = "phs ! phase (shutdown a)"
  have st: "state a = Stopping" "failure (shutdown a) = None" "servers_down a" "?p \<le> length phs"
    and jobs: "jobs_ok ?p False phs l"
    using ok pc phs by (auto simp: pc_ok_def app_ok_def phases_ok_def)
  have fix': "set_phases phs a = a"
    using phs by (simp add: set_phases_def)
  consider "?p = length phs" | "?p < length phs" "x" | "?p < length phs" "\<not> x"
    using st(4) by linarith
  then show ?thesis
  proof cases
    case 1
    have "app_ok a0 (a\<lparr>environment := clear_endpoint_consumers (environment a), state := Stopped\<rparr>) l"
      using ok phs st 1
      by (auto simp: app_ok_defs same_parts_def shutdown_resources_def servers_down_def clear_endpoint_consumers_def)
    then show ?thesis
      using 1 phs fix' by (simp add: next_phase_def current_phases_def seg_ok_def Let_def)
  next
    case 2
    then show ?thesis
      using ok st phs fix' by (simp add: next_phase_def current_phases_def seg_ok_def Let_def)
  next
    case 3
    have "app_ok a0 (set_phases (phs[?p := spawn_jobs ?js]) a) (l @ spawn_log ?p ?js)"
    proof -
      have "map (map operation) (phs[?p := spawn_jobs ?js]) = map (map operation) phs"
        using 3 by (simp add: map_update spawn_jobs_def comp_def if_distrib [of operation] list_update_same_conv cong: if_cong)
      then show ?thesis
        using ok st phs 3 jobs_ok_spawn [OF jobs 3(1)] spawn_order [OF ok phs refl 3(1)] servers_ok_spawn
        by (auto simp: app_ok_def phases_ok_def servers_ok_def state_ok_def spawn_log_def)
    qed
    moreover have "pc_ok (WaitJob 0) (set_phases (phs[?p := spawn_jobs ?js]) a)"
      using st 3 by (simp add: pc_ok_def spawn_jobs_ready) (simp add: spawn_jobs_def needs_spawn_def)
    ultimately show ?thesis
      using 3 phs by (simp add: next_phase_def current_phases_def seg_ok_def Let_def)
  qed
qed

lemma next_phase_ok:
  assumes ok: "app_ok a0 a l" and pc: "pc_ok NextPhase a"
  shows "\<exists>sgm. next_phase x a = Some sgm \<and> seg_ok a0 l sgm"
proof -
  let ?b = "set_phases (current_phases a) a"
  have "next_phase x ?b = next_phase x a"
    by (simp add: next_phase_def Let_def)
  moreover have "app_ok a0 ?b l"
    using fix_phases_ok [OF ok] pc by (simp add: pc_ok_def)
  moreover have "pc_ok NextPhase ?b"
    using pc by (simp add: pc_ok_def)
  ultimately show ?thesis
    using next_phase_fixed_ok [of a0 ?b l "current_phases a" x] by simp
qed

text \<open>One job changes, with the events that go with it.\<close>

lemma jobs_ok_set:
  assumes "jobs_ok c f phs l" "p < length phs" "i < length (phs ! p)" "job_ok c p j" "job_hist f p i j (hist p i l')"
    and others: "\<And>q k. (q, k) \<noteq> (p, i) \<Longrightarrow> hist q k l' = hist q k l"
  shows "jobs_ok c f (phs[p := (phs ! p)[i := j]]) l'"
  unfolding jobs_ok_def
proof (intro allI impI)
  fix q k
  let ?phs = "phs[p := (phs ! p)[i := j]]"
  assume q: "q < length ?phs" "k < length (?phs ! q)"
  show "job_ok c q (?phs ! q ! k) \<and> job_hist f q k (?phs ! q ! k) (hist q k l')"
  proof (cases "(q, k) = (p, i)")
    case False
    then have "?phs ! q ! k = phs ! q ! k" "k < length (phs ! q)"
      using q assms(2,3) by (auto simp: nth_list_update split: if_split_asm)
    then show ?thesis
      using assms(1) q others [OF False] by (auto simp: jobs_ok_def)
  qed (use assms in simp)
qed

lemma map_operation_set:
  assumes "p < length phs" "i < length (phs ! p)" "operation j = operation (phs ! p ! i)"
  shows "map (map operation) (phs[p := (phs ! p)[i := j]]) = map (map operation) phs"
  using assms list_update_id [of "map operation (phs ! p)" i] list_update_id [of "map (map operation) phs" p]
  by (simp add: map_update)

lemma set_job_ok:
  assumes ok: "app_ok a0 a l" and phs: "phases (shutdown a) = Some phs" "p < length phs" "i < length (phs ! p)"
    and j: "operation j = operation (phs ! p ! i)" "job_ok (phase (shutdown a)) p j"
      "job_hist (failure (shutdown a) \<noteq> None) p i j (hist p i (l @ es))"
    and es: "\<And>q k. (q, k) \<noteq> (p, i) \<Longrightarrow> hist q k es = []" "always (stop_order a0) (l @ es)" "servers_ok a (l @ es)"
  shows "app_ok a0 (set_job p i j a) (l @ es)"
proof -
  have "jobs_ok (phase (shutdown a)) (failure (shutdown a) \<noteq> None) phs l"
    using ok phs by (simp add: app_ok_def phases_ok_def)
  then have "jobs_ok (phase (shutdown a)) (failure (shutdown a) \<noteq> None) (phs[p := (phs ! p)[i := j]]) (l @ es)"
    using phs j es by (intro jobs_ok_set [where l = l]) auto
  then show ?thesis
    using ok phs es map_operation_set [OF phs(2,3) j(1)]
    by (auto simp: app_ok_def phases_ok_def servers_ok_def state_ok_def set_job_def current_phases_def Let_def)
qed

lemma set_job_simps [simp]:
  "state (set_job p i j a) = state a" "failure (shutdown (set_job p i j a)) = failure (shutdown a)"
  "phase (shutdown (set_job p i j a)) = phase (shutdown a)"
  by (simp_all add: set_job_def Let_def)

lemma wait_job_next_ok:
  assumes "pc_ok (WaitJob i) a" "phases (shutdown a) = Some phs" "i < length (phs ! phase (shutdown a))"
    and "job_completed j"
  shows "pc_ok (WaitJob (i + 1)) (set_job (phase (shutdown a)) i j a)"
  using assms by (auto simp: pc_ok_def set_job_def current_phases_def Let_def less_Suc_eq needs_spawn_def nth_list_update)

lemma advance_ok:
  assumes ok: "app_ok a0 a l" and st: "state a = Stopping" "phases (shutdown a) = Some phs" "phase (shutdown a) < length phs"
    and all: "\<And>k. k < length (phs ! phase (shutdown a)) \<Longrightarrow> job_completed (phs ! phase (shutdown a) ! k)"
  shows "app_ok a0 (a\<lparr>shutdown := (shutdown a)\<lparr>phase := phase (shutdown a) + 1\<rparr>\<rparr>) l"
proof -
  let ?c = "phase (shutdown a)"
  have jobs: "jobs_ok ?c (failure (shutdown a) \<noteq> None) phs l"
    using ok st by (simp add: app_ok_def phases_ok_def)
  have "jobs_ok (?c + 1) (failure (shutdown a) \<noteq> None) phs l"
    unfolding jobs_ok_def
  proof (intro allI impI)
    fix p i
    assume "p < length phs" "i < length (phs ! p)"
    then show "job_ok (?c + 1) p (phs ! p ! i) \<and> job_hist (failure (shutdown a) \<noteq> None) p i (phs ! p ! i) (hist p i l)"
      using jobs all [of i] by (cases p ?c rule: linorder_cases) (auto simp: jobs_ok_def job_ok_def)
  qed
  then show ?thesis
    using ok st by (auto simp: app_ok_defs same_parts_def shutdown_resources_def servers_down_def)
qed

lemma note_failure_set_job: "note_failure e (set_job p i j a) = set_job p i j (note_failure e a)"
proof -
  have "shutdown_phases (a\<lparr>shutdown := x\<rparr>) = shutdown_phases a" for x
    by (simp add: shutdown_phases_def shutdown_resources_def)
  then have "current_phases (note_failure e a) = current_phases a"
    by (simp add: note_failure_def current_phases_def split: option.split)
  then show ?thesis
    by (simp add: set_job_def Let_def) (simp add: note_failure_def set_phases_def)
qed

lemma wait_failed_ok:
  assumes ok: "app_ok a0 a l" and phs: "phases (shutdown a) = Some phs" "p < length phs" "i < length (phs ! p)"
    and st: "state a = Stopping" "failure (shutdown a) = None" "p = phase (shutdown a)"
    and j: "handle (phs ! p ! i) = Some (Ended (Inl e))" "\<not> job_completed (phs ! p ! i)"
  shows "app_ok a0 (note_failure e (set_job p i ((phs ! p ! i)\<lparr>handle := None\<rparr>) a)) l"
proof -
  let ?b = "note_failure e a"
  have b: "app_ok a0 ?b l" "always (stop_order a0) l" "servers_ok ?b l"
    using note_failure_ok [OF ok st(1)] by (auto simp: app_ok_def)
  have b': "phases (shutdown ?b) = Some phs" "phase (shutdown ?b) = phase (shutdown a)"
      "failure (shutdown ?b) \<noteq> None \<longleftrightarrow> e \<noteq> ContextCancelled"
    using phs st by (auto simp: note_failure_def)
  have "job_hist False p i (phs ! p ! i) (hist p i l)"
    using ok phs st by (auto simp: app_ok_def phases_ok_def jobs_ok_def)
  then have "job_hist (failure (shutdown ?b) \<noteq> None) p i ((phs ! p ! i)\<lparr>handle := None\<rparr>) (hist p i (l @ []))"
    using job_hist_failed [OF _ j] b'(3) by simp
  then show ?thesis
    unfolding note_failure_set_job
    using set_job_ok [OF b(1) b'(1) phs(2,3), of "(phs ! p ! i)\<lparr>handle := None\<rparr>" "[]"] b b' j st(3)
    by (simp add: job_ok_def)
qed

lemma wait_done_ok:
  assumes ok: "app_ok a0 a l" and phs: "phases (shutdown a) = Some phs" "p < length phs" "i < length (phs ! p)"
    and st: "failure (shutdown a) = None" "p = phase (shutdown a)"
    and j: "handle (phs ! p ! i) = Some (Ended (Inr u))" "\<not> job_completed (phs ! p ! i)"
  shows "app_ok a0 (set_job p i ((phs ! p ! i)\<lparr>handle := None, job_completed := True\<rparr>) a) l"
proof -
  have "job_hist False p i (phs ! p ! i) (hist p i l)" "always (stop_order a0) l" "servers_ok a l"
    using ok phs st by (auto simp: app_ok_def phases_ok_def jobs_ok_def)
  then show ?thesis
    using set_job_ok [OF ok phs, of "(phs ! p ! i)\<lparr>handle := None, job_completed := True\<rparr>" "[]"]
      job_hist_completed [OF _ j] st by (simp add: job_ok_def)
qed

lemma wait_job_ok:
  assumes ok: "app_ok a0 a l" and pc: "pc_ok (WaitJob i) a"
  shows "\<exists>sgm. wait_job x i a = Some sgm \<and> seg_ok a0 l sgm"
proof -
  let ?p = "phase (shutdown a)"
  from pc obtain phs where phs: "phases (shutdown a) = Some phs" "?p < length phs"
    and js: "i \<le> length (phs ! ?p)" "\<And>k. k < i \<Longrightarrow> job_completed (phs ! ?p ! k)"
      "\<And>k. k < length (phs ! ?p) \<Longrightarrow> i \<le> k \<Longrightarrow> \<not> needs_spawn (phs ! ?p ! k)"
    and st: "state a = Stopping" "failure (shutdown a) = None"
    by (auto simp: pc_ok_def Let_def)
  let ?j = "phs ! ?p ! i"
  have cur: "current_phases a = phs" using phs by (simp add: current_phases_def)
  have sd: "servers_down a" using ok phs by (simp add: app_ok_def phases_ok_def)
  consider "\<not> i < length (phs ! ?p)" | "i < length (phs ! ?p)" "job_completed ?j"
    | "i < length (phs ! ?p)" "\<not> job_completed ?j" "handle ?j = Some Live"
    | e where "i < length (phs ! ?p)" "\<not> job_completed ?j" "handle ?j = Some (Ended (Inl e))"
    | u where "i < length (phs ! ?p)" "\<not> job_completed ?j" "handle ?j = Some (Ended (Inr u))"
    using js(3) [of i] by (metis needs_spawn_def not_None_eq order_refl sum.exhaust task_handle.exhaust)
  then show ?thesis
  proof cases
    case 1
    then have "app_ok a0 (a\<lparr>shutdown := (shutdown a)\<lparr>phase := ?p + 1\<rparr>\<rparr>) l"
      using js by (intro advance_ok [OF ok st(1) phs]) auto
    then show ?thesis
      using 1 st sd by (simp add: wait_job_def Let_def cur seg_ok_def pc_ok_def servers_down_def)
  next
    case 2
    then have "pc_ok (WaitJob (i + 1)) a"
      using pc phs by (auto simp: pc_ok_def Let_def less_Suc_eq)
    then show ?thesis using 2 ok by (simp add: wait_job_def Let_def cur seg_ok_def)
  next
    case 3
    then show ?thesis using ok pc st by (simp add: wait_job_def Let_def cur seg_ok_def)
  next
    case 4
    then show ?thesis
      using wait_failed_ok [OF ok phs 4(1) st refl 4(3,2)] st by (simp add: wait_job_def Let_def cur seg_ok_def)
  next
    case 5
    then show ?thesis
      using wait_done_ok [OF ok phs 5(1) st(2) refl 5(3,2)] wait_job_next_ok [OF pc phs(1) 5(1)]
      by (simp add: wait_job_def Let_def cur seg_ok_def)
  qed
qed

lemma stop_poll_ok:
  assumes "app_ok a0 a l" "pc_ok pc a"
  shows "\<exists>sgm. stop_poll x pc a = Some sgm \<and> seg_ok a0 l sgm"
  using assms drain_poll_ok [of a0 a l pc x] next_phase_ok [of a0 a l x] wait_job_ok [of a0 a l _ x]
  by (cases pc) auto

section \<open>What happens beside the calls\<close>

lemma end_job_ok:
  assumes ok: "app_ok a0 a l" and step: "end_job p i r a = Some a'"
  shows "app_ok a0 a' (l @ [JobDone p i r])" "pc_ok pc a \<Longrightarrow> pc_ok pc a'" "state a' = state a" "same_parts a a'"
proof -
  obtain phs where phs: "phases (shutdown a) = Some phs" "p < length phs" "i < length (phs ! p)"
    and j: "handle (phs ! p ! i) = Some Live" and a': "a' = set_job p i ((phs ! p ! i)\<lparr>handle := Some (Ended r)\<rparr>) a"
    using step by (auto simp: end_job_def split: option.splits if_splits)
  let ?f = "failure (shutdown a) \<noteq> None" and ?j = "(phs ! p ! i)\<lparr>handle := Some (Ended r)\<rparr>"
  have old: "job_ok (phase (shutdown a)) p (phs ! p ! i)" "job_hist ?f p i (phs ! p ! i) (hist p i l)"
    using ok phs by (auto simp: app_ok_def phases_ok_def jobs_ok_def)
  then have nc: "\<not> job_completed (phs ! p ! i)"
    using j by (auto simp: job_ok_def)
  have "servers_ok a (l @ [JobDone p i r])" "always (stop_order a0) (l @ [JobDone p i r])"
    using ok by (auto simp: app_ok_def servers_ok_def always_snoc stop_order_def)
  then show "app_ok a0 a' (l @ [JobDone p i r])"
    unfolding a' using old j nc job_hist_done [OF old(2) j nc, of r]
    by (intro set_job_ok [OF ok phs]) (auto simp: job_ok_def needs_spawn_def)
  show "state a' = state a" "same_parts a a'"
    by (auto simp: a' set_job_def Let_def)
  show "pc_ok pc a \<Longrightarrow> pc_ok pc a'"
    unfolding a' using phs nc
    by (cases pc) (auto simp: pc_ok_def set_job_def current_phases_def Let_def needs_spawn_def nth_list_update
        split: if_splits)
qed

lemma end_server_ok:
  assumes ok: "app_ok a0 a l" and step: "end_server x r a = Some a'"
  shows "app_ok a0 a' (l @ [ServerDone x])" "pc_ok pc a \<Longrightarrow> pc_ok pc a'" "state a' = state a" "same_parts a a'"
proof -
  obtain t where a': "x = GrpcServer \<and> grpc_task a = Some Live \<and> a' = a\<lparr>grpc_task := t\<rparr> \<or>
      x = HttpServer \<and> http_task a = Some Live \<and> a' = a\<lparr>http_task := t\<rparr>"
    using step by (cases x) (auto split: if_splits)
  have no: "phases (shutdown a) = None" "state a \<noteq> Created" "state a \<noteq> Stopped"
    using ok a' by (auto simp: app_ok_defs servers_down_def split: option.splits)
  from a' show "app_ok a0 a' (l @ [ServerDone x])"
  proof
    assume "x = GrpcServer \<and> grpc_task a = Some Live \<and> a' = a\<lparr>grpc_task := t\<rparr>"
    then show ?thesis
      using ok no by (simp add: app_ok_defs always_snoc stop_order_def same_parts_def)
  next
    assume "x = HttpServer \<and> http_task a = Some Live \<and> a' = a\<lparr>http_task := t\<rparr>"
    then show ?thesis
      using ok no by (simp add: app_ok_defs always_snoc stop_order_def same_parts_def)
  qed
  show "state a' = state a" "same_parts a a'"
    using a' by (auto simp: same_parts_def)
  show "pc_ok pc a \<Longrightarrow> pc_ok pc a'"
    using a' no by (cases pc) (auto simp: pc_ok_def servers_down_def)
qed

lemma server_started_simps [simp]:
  "state (server_started x a) = state a" "shutdown (server_started x a) = shutdown a"
  "same_parts a0 (server_started x a) = same_parts a0 a" "environment (server_started x a) = environment a"
  "shutdown_resources (server_started x a) = shutdown_resources a" "grpc_routes (server_started x a) = grpc_routes a"
  by (cases x; simp add: same_parts_def shutdown_resources_def)+

lemma start_op_ok:
  assumes ok: "app_ok a0 a l" and st: "state a = Starting"
  shows "app_ok a0 (server_started x a) (l @ [StartOp x (Inr ())])"
    "app_ok a0 (a\<lparr>state := Running\<rparr>) (l @ [StartOp x (Inl e)])"
    "app_ok a0 (a\<lparr>state := Running\<rparr>) (l @ [StartReturn (Inr ())])"
proof -
  have no: "phases (shutdown a) = None" "failure (shutdown a) = None"
    using ok st by (auto simp: app_ok_defs split: option.splits)
  show "app_ok a0 (server_started x a) (l @ [StartOp x (Inr ())])"
    using ok st no by (cases x) (auto simp: app_ok_defs always_snoc stop_order_def same_parts_def)
  have "app_ok a0 (a\<lparr>state := Running\<rparr>) l"
    using ok st no by (auto simp: app_ok_defs same_parts_def)
  then show "app_ok a0 (a\<lparr>state := Running\<rparr>) (l @ [StartOp x (Inl e)])"
    "app_ok a0 (a\<lparr>state := Running\<rparr>) (l @ [StartReturn (Inr ())])"
    by (auto intro!: app_ok_plain)
qed

lemma start_call_app_ok:
  assumes ok: "app_ok a0 a l" and st: "state a = Created" and b: "build_runtime_streams (environment a) = (r, g)"
    and s: "s = Starting \<or> s = Running"
  shows "app_ok a0 (a\<lparr>environment := g, state := s\<rparr>) l"
proof -
  have no: "phases (shutdown a) = None" "failure (shutdown a) = None"
    using ok st by (auto simp: app_ok_defs split: option.splits)
  have "same_parts a0 (a\<lparr>environment := g, state := s\<rparr>)"
    using build_runtime_streams_keeps [OF b] ok by (simp add: app_ok_def)
  then show ?thesis
    using ok st no s by (auto simp: app_ok_defs)
qed

section \<open>The order of a start\<close>

fun starts :: "app_event list \<Rightarrow> (resource \<times> unit runtime_result) list" where
  "starts [] = []"
| "starts (StartOp x r # l) = (x, r) # starts l"
| "starts (_ # l) = starts l"

lemma starts_append [simp]: "starts (l @ l') = starts l @ starts l'"
  by (induction l rule: starts.induct) auto

definition all_started :: "resource list \<Rightarrow> (resource \<times> unit runtime_result) list" where
  "all_started xs = map (\<lambda>x. (x, Inr ())) xs"

lemma all_started_simps [simp]: "all_started [] = []" "all_started (xs @ ys) = all_started xs @ all_started ys"
    "all_started (x # xs) = (x, Inr ()) # all_started xs"
  by (simp_all add: all_started_def)

text \<open>A resource starts when exactly those before it in the plan have; success is reported when all have.\<close>

definition launch_order :: "resource list \<Rightarrow> app_event list \<Rightarrow> app_event \<Rightarrow> bool" where
  "launch_order plan l e \<longleftrightarrow>
     (case e of
        StartOp x r \<Rightarrow> (\<exists>ys zs. plan = ys @ x # zs \<and> starts l = all_started ys)
      | StartReturn (Inr _) \<Rightarrow> starts l = all_started plan
      | _ \<Rightarrow> True)"

fun no_start :: "app_event \<Rightarrow> bool" where
  "no_start (StartOp _ _) \<longleftrightarrow> False"
| "no_start (StartReturn r) \<longleftrightarrow> r \<noteq> Inr ()"
| "no_start _ \<longleftrightarrow> True"

lemma no_start_order: "no_start e \<Longrightarrow> launch_order plan l e"
  by (cases e) (auto simp: launch_order_def split: sum.splits)

lemma no_start_starts: "list_all no_start l \<Longrightarrow> starts l = []"
  by (induction l rule: starts.induct) auto

lemma no_start_always: "always (launch_order plan) l \<Longrightarrow> list_all no_start es \<Longrightarrow> always (launch_order plan) (l @ es)"
  by (auto simp: list_all_iff intro!: always_append no_start_order)

definition starts_ok :: "('c, 'v) app \<Rightarrow> ('c, 'v) service \<Rightarrow> bool" where
  "starts_ok a0 s \<longleftrightarrow>
     (state (app s) = Created \<longrightarrow> list_all no_start (log s) \<and> starter s = None) \<and>
     (\<exists>adm. always (launch_order (start_plan adm a0)) (log s) \<and>
        (\<forall>xs. starter s = Some (Launching xs) \<longrightarrow>
           state (app s) = Starting \<and> (\<exists>ys. start_plan adm a0 = ys @ xs \<and> starts (log s) = all_started ys)))"

text \<open>Steps that start nothing.\<close>

lemma starts_ok_keep:
  assumes "starts_ok a0 s" "log s' = log s @ es" "list_all no_start es" "state (app s') = Created \<longrightarrow> state (app s) = Created"
    and "starter s' = starter s \<or> (\<forall>xs. starter s' \<noteq> Some (Launching xs))" "state (app s') = Created \<longrightarrow> starter s' = None"
    and "state (app s) = Starting \<longrightarrow> state (app s') = Starting \<or> (\<forall>xs. starter s' \<noteq> Some (Launching xs))"
  shows "starts_ok a0 s'"
proof -
  obtain adm where adm: "always (launch_order (start_plan adm a0)) (log s)"
      "\<forall>xs. starter s = Some (Launching xs) \<longrightarrow>
        state (app s) = Starting \<and> (\<exists>ys. start_plan adm a0 = ys @ xs \<and> starts (log s) = all_started ys)"
    using assms(1) by (auto simp: starts_ok_def)
  have "always (launch_order (start_plan adm a0)) (log s')" "starts (log s') = starts (log s)"
    using no_start_always [OF adm(1) assms(3)] no_start_starts [OF assms(3)] assms(2) by auto
  then show ?thesis
    using assms adm unfolding starts_ok_def by (intro conjI exI [of _ adm]) auto
qed

section \<open>The invariant of the service\<close>

definition service_ok :: "('c, 'v) app \<Rightarrow> ('c, 'v) service \<Rightarrow> bool" where
  "service_ok a0 s \<longleftrightarrow>
     app_ok a0 (app s) (log s) \<and> starts_ok a0 s \<and> \<not> panicked s \<and> app_config a0 \<noteq> None \<and>
     (\<forall>c. holder s = Some c \<longrightarrow> pc_ok (sc_pc c) (app s))"

lemma stop_returns_no_start [simp]: "list_all no_start (stop_returns b r)"
  by (simp add: stop_returns_def split: option.splits)

lemma set_job_static [simp]: "state (note_failure e (set_job p i j a)) = state a"
  by simp

lemma stop_poll_events:
  "stop_poll x pc a = Some (a', evs, out) \<Longrightarrow> list_all no_start evs \<and> (state a' = state a \<or> state a' = Stopped)"
  by (cases pc)
    (auto simp: after_drain_def next_phase_def wait_job_def Let_def spawn_log_def list_all_iff
      split: option.splits prod.splits sum.splits if_splits task_handle.splits)

lemma stop_enter_events:
  "stop_enter n a = (a', evs, out) \<Longrightarrow>
     evs = [] \<and> state a' \<noteq> Created \<and> (state a = Starting \<longrightarrow> state a' = Starting)"
  by (cases "state a") (auto simp: stop_enter_def Let_def split: option.splits)

lemma stop_segment_ok:
  assumes ok: "service_ok a0 s" and sgm: "seg_ok a0 (log s) (a', evs, out)" "list_all no_start evs"
    and st: "state a' \<noteq> Created" "state (app s) = Starting \<longrightarrow> state a' = Starting"
  shows "service_ok a0 (stop_segment x b (Some (a', evs, out)) s)"
proof -
  let ?s = "stop_segment x b (Some (a', evs, out)) s"
  have app: "app ?s = a'" "starter ?s = starter s" "panicked ?s = panicked s"
    by (auto simp: stop_segment_def split: sum.splits)
  have "\<exists>es. log ?s = log s @ evs @ es \<and> list_all no_start es \<and> list_all plain_event es"
    using stop_returns_plain by (cases out) (auto simp: stop_segment_def)
  then obtain es where es: "log ?s = log s @ evs @ es" "list_all no_start es" "list_all plain_event es"
    by blast
  have "app_ok a0 a' (log ?s)"
    using app_ok_plains [of a0 a' "log s @ evs" es] sgm es by (simp add: seg_ok_def)
  moreover have "starts_ok a0 ?s"
    using ok st es sgm(2) app by (intro starts_ok_keep [of a0 s ?s "evs @ es"]) (auto simp: service_ok_def)
  moreover have "\<forall>c. holder ?s = Some c \<longrightarrow> pc_ok (sc_pc c) a'"
    using sgm(1) by (auto simp: stop_segment_def seg_ok_def split: sum.splits)
  ultimately show ?thesis
    using ok app by (simp add: service_ok_def)
qed

lemma enter_stop_ok:
  assumes ok: "service_ok a0 s"
  shows "service_ok a0 (enter_stop x b s)"
proof -
  obtain a' evs out where e: "stop_enter (app_name (app s)) (app s) = (a', evs, out)"
    by (metis prod_cases3)
  have cfg: "app_config (app s) \<noteq> None"
    using ok same_parts_eqs(5) [of a0 "app s"] by (auto simp: service_ok_def app_ok_def)
  have "seg_ok a0 (log s) (a', evs, out)"
    using stop_enter_ok [of a0 "app s" "log s" "app_name (app s)"] ok e by (simp add: service_ok_def)
  then show ?thesis
    using cfg e stop_enter_events [OF e] stop_segment_ok [OF ok, of a' evs out x b] by (auto simp: enter_stop_def)
qed

lemma stop_poll_step_ok:
  assumes ok: "service_ok a0 s" and h: "holder s = Some c"
  shows "service_ok a0 (stop_segment x b (stop_poll x (sc_pc c) (app s)) s)"
proof -
  have pc: "pc_ok (sc_pc c) (app s)" "state (app s) = Stopping"
    using ok h by (auto simp: service_ok_def pc_ok_def)
  obtain sgm where sgm: "stop_poll x (sc_pc c) (app s) = Some sgm" "seg_ok a0 (log s) sgm"
    using stop_poll_ok [of a0 "app s" "log s" "sc_pc c" x] ok pc by (auto simp: service_ok_def)
  obtain a' evs out where s3: "sgm = (a', evs, out)"
    by (cases sgm) auto
  show ?thesis
    using stop_poll_events [of x "sc_pc c" "app s" a' evs out] sgm s3 pc stop_segment_ok [OF ok, of a' evs out x b]
    by auto
qed

text \<open>Steps beside the calls.\<close>

lemma service_ok_keep:
  assumes ok: "service_ok a0 s" and app: "app_ok a0 (app s') (log s')" and log: "log s' = log s @ es" "list_all no_start es"
    and st: "state (app s') = state (app s)" "starter s' = starter s \<or> starter s' = None"
    and pan: "panicked s' = panicked s" and h: "\<And>c. holder s' = Some c \<Longrightarrow> pc_ok (sc_pc c) (app s')"
  shows "service_ok a0 s'"
proof -
  have "starts_ok a0 s'"
    using ok st by (intro starts_ok_keep [of a0 s s' es, OF _ log]) (auto simp: service_ok_def starts_ok_def)
  then show ?thesis
    using ok app pan h by (simp add: service_ok_def)
qed

lemma launching_holder: "service_ok a0 s \<Longrightarrow> starter s = Some (Launching xs) \<Longrightarrow> holder s = None \<and> state (app s) = Starting"
  by (cases "holder s") (auto simp: service_ok_def starts_ok_def pc_ok_def)

lemma start_next_ok:
  assumes ok: "service_ok a0 s" and xs: "starter s = Some (Launching xs)"
  shows "service_ok a0 (start_next r xs s)"
proof -
  have st: "state (app s) = Starting" "holder s = None" and app: "app_ok a0 (app s) (log s)"
    using ok launching_holder [OF ok xs] by (auto simp: service_ok_def)
  obtain adm ys where adm: "always (launch_order (start_plan adm a0)) (log s)" "start_plan adm a0 = ys @ xs"
      "starts (log s) = all_started ys"
    using ok xs by (auto simp: service_ok_def starts_ok_def)
  note op = start_op_ok [OF app st(1)]
  show ?thesis
  proof (cases xs)
    case Nil
    then have "launch_order (start_plan adm a0) (log s) (StartReturn (Inr ()))"
      using adm by (simp add: launch_order_def)
    then have "starts_ok a0 (start_next r xs s)"
      using Nil adm(1) by (auto simp: starts_ok_def start_next_def always_snoc)
    then show ?thesis
      using op(3) ok Nil st by (simp add: service_ok_def start_next_def)
  next
    case (Cons x xs')
    then have "launch_order (start_plan adm a0) (log s) (StartOp x r)"
      using adm by (auto simp: launch_order_def)
    moreover have "start_plan adm a0 = (ys @ [x]) @ xs'" "starts (log s) @ [(x, Inr ())] = all_started (ys @ [x])"
      using Cons adm by auto
    ultimately have "starts_ok a0 (start_next r xs s)"
      using Cons adm(1) st unfolding starts_ok_def
      by (intro conjI exI [of _ adm]) (cases r; auto simp: start_next_def always_snoc)+
    then show ?thesis
      using op(1) [of x] op(2) [of x] ok Cons st
      by (auto simp: service_ok_def start_next_def split: sum.splits)
  qed
qed

lemma start_call_ok:
  assumes ok: "service_ok a0 s" and none: "starter s = None"
  shows "service_ok a0 (start_call adm s)"
proof -
  have cfg: "app_config (app s) \<noteq> None" and app: "app_ok a0 (app s) (log s)"
    using ok same_parts_eqs(5) [of a0 "app s"] by (auto simp: service_ok_def app_ok_def)
  show ?thesis
  proof (cases "state (app s) = Created")
    case False
    let ?e = "StartReturn (Inl (ResourceAlreadyStarted (app_name (app s))))"
    have "start_call adm s = s\<lparr>log := log s @ [?e]\<rparr>"
      using cfg False by (auto simp: start_call_def)
    moreover have "service_ok a0 (s\<lparr>log := log s @ [?e]\<rparr>)"
      using app_ok_plain [OF app, of ?e] ok
      by (intro service_ok_keep [OF ok, of _ "[?e]"]) (auto simp: service_ok_def)
    ultimately show ?thesis by simp
  next
    case True
    obtain r g where b: "build_runtime_streams (environment (app s)) = (r, g)"
      by (cases "build_runtime_streams (environment (app s))")
    have h: "holder s = None" "list_all no_start (log s)"
      using ok True by (cases "holder s"; auto simp: service_ok_def pc_ok_def starts_ok_def)+
    have new: "app_ok a0 ((app s)\<lparr>environment := g, state := st\<rparr>) (log s)" if "st = Starting \<or> st = Running" for st
      using start_call_app_ok [OF app True b that] .
    have plan: "start_plan adm ((app s)\<lparr>environment := g, state := st\<rparr>) = start_plan adm a0" for st
      using build_runtime_streams_keeps [OF b, of a0 st] app same_parts_eqs(4) by (auto simp: app_ok_def)
    have order: "always (launch_order (start_plan adm a0)) (log s)" "starts (log s) = []"
      using no_start_always [of _ "[]" "log s"] no_start_starts h by auto
    show ?thesis
      using cfg True b h new plan order ok
      by (auto simp: start_call_def service_ok_def starts_ok_def Let_def split: sum.splits)
  qed
qed

lemma service_step_ok:
  assumes ok: "service_ok a0 s" and step: "app_step e s = Some s'"
  shows "service_ok a0 s'"
proof -
  have app: "app_ok a0 (app s) (log s)" and pc: "\<And>c. holder s = Some c \<Longrightarrow> pc_ok (sc_pc c) (app s)"
    using ok by (auto simp: service_ok_def)
  have gone: "service_ok a0 (s\<lparr>starter := None\<rparr>)"
    using app pc by (intro service_ok_keep [OF ok, of _ "[]"]) auto
  show ?thesis
  proof (cases e)
    case (StartCall adm)
    then show ?thesis using step start_call_ok [OF ok, of adm] by (auto split: if_splits)
  next
    case (StartNext r)
    then show ?thesis using step start_next_ok [OF ok] by (auto split: option.splits start_progress.splits)
  next
    case (StartCleanup x)
    then show ?thesis
      using step enter_stop_ok [OF gone] by (auto split: option.splits start_progress.splits)
  next
    case StartGivesUp
    then obtain f where f: "s' = s\<lparr>starter := None, log := log s @ stop_returns (Some f) (Inl ContextCancelled)\<rparr>"
      using step by (auto split: option.splits start_progress.splits)
    then show ?thesis
      using pc app_ok_plains [OF app stop_returns_plain]
      by (intro service_ok_keep [OF ok, of _ "stop_returns (Some f) (Inl ContextCancelled)"]) auto
  next
    case StartDropped
    then show ?thesis using step gone by (auto split: if_splits)
  next
    case (StopCall x)
    then show ?thesis using step enter_stop_ok [OF ok] by (auto split: if_splits)
  next
    case StopWaits
    then show ?thesis
      using step pc app_ok_plains [OF app stop_returns_plain]
      by (intro service_ok_keep [OF ok, of _ "stop_returns None (Inl ContextCancelled)"]) (auto split: if_splits)
  next
    case StopPoll
    then show ?thesis using step stop_poll_step_ok [OF ok] by (auto split: option.splits)
  next
    case Deadline
    then show ?thesis
      using step app pc by (intro service_ok_keep [OF ok, of _ "[]"]) (auto split: option.splits)
  next
    case StopDropped
    then show ?thesis
      using step app pc by (intro service_ok_keep [OF ok, of _ "[]"]) (auto split: if_splits)
  next
    case (JobEnds p i r)
    then obtain a where a: "end_job p i r (app s) = Some a" "s' = s\<lparr>app := a, log := log s @ [JobDone p i r]\<rparr>"
      using step by (auto split: option.splits)
    then show ?thesis
      using pc end_job_ok [OF app a(1)] by (intro service_ok_keep [OF ok, of _ "[JobDone p i r]"]) auto
  next
    case (ServerEnds x r)
    then obtain a where a: "end_server x r (app s) = Some a" "s' = s\<lparr>app := a, log := log s @ [ServerDone x]\<rparr>"
      using step by (auto split: option.splits)
    then show ?thesis
      using pc end_server_ok [OF app a(1)] by (intro service_ok_keep [OF ok, of _ "[ServerDone x]"]) auto
  qed
qed

interpretation service: step_system app_step "service_ok a0" for a0
  by unfold_locales (rule service_step_ok)

text \<open>A constructed application that no call has reached yet.\<close>

definition fresh_app :: "('c, 'v) app \<Rightarrow> bool" where
  "fresh_app a \<longleftrightarrow>
     state a = Created \<and> app_config a \<noteq> None \<and> grpc_task a = None \<and> http_task a = None \<and>
     shutdown a = \<lparr>phase = 0, phases = None, failure = None\<rparr>"

lemma fresh_service_ok: "fresh_app a \<Longrightarrow> service_ok a (service_of a)"
  by (auto simp: fresh_app_def service_ok_def service_of_def app_ok_defs starts_ok_def servers_down_def)

lemma service_run_ok: "fresh_app a \<Longrightarrow> run_steps app_step acts (service_of a) = Some s \<Longrightarrow> service_ok a s"
  using service.run_inv fresh_service_ok by blast

section \<open>A stop call that is not cut short returns\<close>

text \<open>
  The task that the stop call waits for, as the step in which it ends well. \<open>drive\<close> runs the call: the awaited
  task ends, or the call goes on.
\<close>

definition awaited :: "('c, 'v) service \<Rightarrow> app_action option" where
  "awaited s =
     (case holder s of
        None \<Rightarrow> None
      | Some c \<Rightarrow>
          (case sc_pc c of
             DrainGrpc \<Rightarrow> if grpc_task (app s) = Some Live then Some (ServerEnds GrpcServer (Inr ())) else None
           | DrainHttp \<Rightarrow> if http_task (app s) = Some Live then Some (ServerEnds HttpServer (Inr ())) else None
           | NextPhase \<Rightarrow> None
           | WaitJob i \<Rightarrow>
               (let p = phase (shutdown (app s)); js = current_phases (app s) ! p in
                if i < length js \<and> handle (js ! i) = Some Live then Some (JobEnds p i (Inr ())) else None)))"

fun drive :: "nat \<Rightarrow> ('c, 'v) service \<Rightarrow> ('c, 'v) service option" where
  "drive 0 s = (if holder s = None then Some s else None)"
| "drive (Suc n) s =
     (if holder s = None then Some s
      else Option.bind (app_step (case awaited s of Some e \<Rightarrow> e | None \<Rightarrow> StopPoll) s) (drive n))"

text \<open>The program points a stop call has before it.\<close>

definition rest_points :: "nat \<Rightarrow> ('c, 'v) app \<Rightarrow> nat" where
  "rest_points p a = (\<Sum>q\<in>{p..<length (current_phases a)}. length (current_phases a ! q) + 2)"

fun points :: "stop_pc \<Rightarrow> ('c, 'v) app \<Rightarrow> nat" where
  "points DrainGrpc a = 3 + rest_points (phase (shutdown a)) a"
| "points DrainHttp a = 2 + rest_points (phase (shutdown a)) a"
| "points NextPhase a = 1 + rest_points (phase (shutdown a)) a"
| "points (WaitJob i) a =
     length (current_phases a ! phase (shutdown a)) - i + 2 + rest_points (phase (shutdown a) + 1) a"

fun no_error :: "task_handle option \<Rightarrow> bool" where
  "no_error (Some (Ended (Inl _))) \<longleftrightarrow> False"
| "no_error _ \<longleftrightarrow> True"

definition no_errors :: "('c, 'v) app \<Rightarrow> bool" where
  "no_errors a \<longleftrightarrow>
     no_error (grpc_task a) \<and> no_error (http_task a) \<and>
     list_all (list_all (\<lambda>j. no_error (handle j))) (current_phases a)"

lemma shutdown_phases_cong:
  "shutdown_resources a = shutdown_resources b \<Longrightarrow> shutdown_phases a = shutdown_phases b"
  by (simp add: shutdown_phases_def)

lemma current_phases_simps [simp]:
  "current_phases (a\<lparr>grpc_task := t\<rparr>) = current_phases a" "current_phases (a\<lparr>http_task := t\<rparr>) = current_phases a"
  "current_phases (set_job p i j a) = (current_phases a)[p := (current_phases a ! p)[i := j]]"
  by (auto simp: current_phases_def set_job_def Let_def shutdown_resources_def intro!: shutdown_phases_cong
      split: option.split)

lemma no_errors_set_job:
  assumes "no_errors a" "no_error (handle j)"
  shows "no_errors (set_job p i j a)"
proof (cases "p < length (current_phases a)")
  case True
  then have "list_all (\<lambda>j. no_error (handle j)) ((current_phases a ! p)[i := j])"
    using assms by (intro list_all_update) (auto simp: no_errors_def list_all_length)
  then have "list_all (list_all (\<lambda>j. no_error (handle j))) ((current_phases a)[p := (current_phases a ! p)[i := j]])"
    using assms list_all_update [of "list_all (\<lambda>j. no_error (handle j))" "current_phases a" _ p]
    by (simp add: no_errors_def)
  then show ?thesis
    using assms by (simp add: no_errors_def) (simp add: set_job_def Let_def)
next
  case False
  then show ?thesis
    using assms by (simp add: no_errors_def list_update_beyond) (simp add: set_job_def Let_def)
qed

lemma rest_points_step:
  "p < length (current_phases a) \<Longrightarrow>
     rest_points p a = length (current_phases a ! p) + 2 + rest_points (p + 1) a"
  by (simp add: rest_points_def sum.atLeast_Suc_lessThan)

lemma rest_points_cong:
  "length (current_phases b) = length (current_phases a) \<Longrightarrow>
   (\<And>q. q < length (current_phases a) \<Longrightarrow> length (current_phases b ! q) = length (current_phases a ! q)) \<Longrightarrow>
   rest_points p b = rest_points p a"
  by (simp add: rest_points_def)

lemma await_step:
  assumes ok: "service_ok a0 s" and h: "holder s = Some c" and ne: "no_errors (app s)" and w: "awaited s = Some e"
  shows "\<exists>s'. app_step e s = Some s' \<and> holder s' = holder s \<and> awaited s' = None \<and> no_errors (app s') \<and>
    points (sc_pc c) (app s') = points (sc_pc c) (app s)"
proof (cases "sc_pc c")
  case DrainGrpc
  then show ?thesis
    using w h ne by (auto simp: awaited_def no_errors_def rest_points_def split: if_splits)
next
  case DrainHttp
  then show ?thesis
    using w h ne by (auto simp: awaited_def no_errors_def rest_points_def split: if_splits)
next
  case NextPhase
  then show ?thesis using w h by (simp add: awaited_def)
next
  case (WaitJob i)
  let ?p = "phase (shutdown (app s))"
  obtain phs where phs: "phases (shutdown (app s)) = Some phs" "?p < length phs"
    using ok h WaitJob by (auto simp: service_ok_def pc_ok_def)
  let ?b = "set_job ?p i ((phs ! ?p ! i)\<lparr>handle := Some (Ended (Inr ()))\<rparr>) (app s)"
  have cur: "current_phases (app s) = phs" using phs by (simp add: current_phases_def)
  then have e: "e = JobEnds ?p i (Inr ())" "i < length (phs ! ?p)" "handle (phs ! ?p ! i) = Some Live"
    using w h WaitJob by (auto simp: awaited_def Let_def split: if_splits)
  have "end_job ?p i (Inr ()) (app s) = Some ?b"
    using phs e by (simp add: end_job_def)
  moreover have "no_errors ?b"
    using ne by (rule no_errors_set_job) simp
  moreover have "rest_points q ?b = rest_points q (app s)" for q
    using phs by (intro rest_points_cong) (auto simp: cur nth_list_update)
  ultimately show ?thesis
    using WaitJob h e phs cur by (auto simp: awaited_def Let_def)
qed

text \<open>A segment that has nothing to wait for.\<close>

definition advances :: "('c, 'v) app \<Rightarrow> stop_pc \<Rightarrow> ('c, 'v) stop_segment option \<Rightarrow> bool" where
  "advances a pc sgm \<longleftrightarrow>
     (case sgm of
        None \<Rightarrow> False
      | Some (b, evs, Inl pc') \<Rightarrow> no_errors b \<and> points pc' b < points pc a
      | Some (b, evs, Inr r) \<Rightarrow> r = Inr ())"

lemma drain_advances:
  assumes "no_errors a"
  shows "grpc_task a \<noteq> Some Live \<Longrightarrow> advances a DrainGrpc (stop_poll False DrainGrpc a)"
    "http_task a \<noteq> Some Live \<Longrightarrow> advances a DrainHttp (stop_poll False DrainHttp a)"
  using assms
  by (auto simp: advances_def drain_server_def after_drain_def no_errors_def rest_points_def
      split: option.splits task_handle.splits sum.splits)

lemma next_phase_advances:
  assumes ne: "no_errors a" and le: "phase (shutdown a) \<le> length (current_phases a)"
  shows "advances a NextPhase (next_phase False a)"
proof (cases "phase (shutdown a) = length (current_phases a)")
  case True
  then show ?thesis by (simp add: advances_def next_phase_def Let_def)
next
  case False
  let ?p = "phase (shutdown a)"
  let ?phs = "current_phases a" and ?b = "set_phases ((current_phases a)[?p := spawn_jobs (current_phases a ! ?p)]) a"
  have p: "?p < length ?phs" using le False by simp
  then have "list_all (\<lambda>j. no_error (handle j)) (spawn_jobs (?phs ! ?p))"
    using ne by (auto simp: no_errors_def list_all_length spawn_jobs_def)
  then have "list_all (list_all (\<lambda>j. no_error (handle j))) (?phs[?p := spawn_jobs (?phs ! ?p)])"
    using ne by (intro list_all_update) (simp_all add: no_errors_def)
  then have "no_errors ?b"
    using ne by (simp add: no_errors_def)
  moreover have "rest_points q ?b = rest_points q a" for q
    using p by (intro rest_points_cong) (auto simp: spawn_jobs_def nth_list_update)
  moreover have "length (current_phases ?b ! ?p) = length (?phs ! ?p)"
    using p by (simp add: spawn_jobs_def)
  ultimately show ?thesis
    using p False rest_points_step [OF p] by (simp add: advances_def next_phase_def Let_def del: set_phases_simps(10))
qed

lemma wait_job_advances:
  assumes ne: "no_errors a" and pc: "pc_ok (WaitJob i) a"
    and nl: "\<not> (i < length (current_phases a ! phase (shutdown a)) \<and>
      handle (current_phases a ! phase (shutdown a) ! i) = Some Live)"
  shows "advances a (WaitJob i) (wait_job False i a)"
proof -
  let ?p = "phase (shutdown a)"
  obtain phs where phs: "phases (shutdown a) = Some phs" "?p < length phs" "i \<le> length (phs ! ?p)"
    and sp: "\<And>k. k < length (phs ! ?p) \<Longrightarrow> i \<le> k \<Longrightarrow> \<not> needs_spawn (phs ! ?p ! k)"
    using pc by (auto simp: pc_ok_def Let_def)
  have cur: "current_phases a = phs" using phs by (simp add: current_phases_def)
  let ?j = "phs ! ?p ! i"
  consider "\<not> i < length (phs ! ?p)" | "i < length (phs ! ?p)" "job_completed ?j"
    | r where "i < length (phs ! ?p)" "\<not> job_completed ?j" "handle ?j = Some (Ended r)"
    using sp [of i] nl cur by (metis needs_spawn_def not_None_eq order_refl task_handle.exhaust)
  then show ?thesis
  proof cases
    case 1
    have "current_phases (a\<lparr>shutdown := (shutdown a)\<lparr>phase := Suc ?p\<rparr>\<rparr>) = phs"
      using phs by (simp add: current_phases_def)
    then show ?thesis
      using 1 ne cur by (simp add: advances_def wait_job_def Let_def no_errors_def rest_points_def)
  next
    case 2
    then show ?thesis using ne cur by (simp add: advances_def wait_job_def Let_def)
  next
    case 3
    have "no_error (handle ?j)"
      using ne cur phs 3(1) by (auto simp: no_errors_def list_all_length)
    then have r: "r = Inr ()" using 3 by (cases r) auto
    let ?b = "set_job ?p i (?j\<lparr>handle := None, job_completed := True\<rparr>) a"
    have "no_errors ?b" using ne by (rule no_errors_set_job) simp
    moreover have "rest_points q ?b = rest_points q a" for q
      using phs by (intro rest_points_cong) (auto simp: cur nth_list_update)
    ultimately show ?thesis
      using 3 r phs cur by (simp add: advances_def wait_job_def Let_def)
  qed
qed

lemma poll_step:
  assumes ok: "service_ok a0 s" and h: "holder s = Some c" "\<not> sc_cancelled c" and ne: "no_errors (app s)"
    and w: "awaited s = None"
  shows "\<exists>s'. app_step StopPoll s = Some s' \<and>
    (holder s' = None \<and> state (app s') = Stopped \<or>
     (\<exists>c'. holder s' = Some c' \<and> \<not> sc_cancelled c' \<and> no_errors (app s') \<and>
        points (sc_pc c') (app s') < points (sc_pc c) (app s)))"
proof -
  have app: "app_ok a0 (app s) (log s)" and pc: "pc_ok (sc_pc c) (app s)"
    using ok h by (auto simp: service_ok_def)
  have le: "phase (shutdown (app s)) \<le> length (current_phases (app s))"
    using app by (auto simp: app_ok_def phases_ok_def current_phases_def split: option.splits)
  have adv: "advances (app s) (sc_pc c) (stop_poll False (sc_pc c) (app s))"
    using w h drain_advances [OF ne] next_phase_advances [OF ne le] wait_job_advances [OF ne] pc
    by (cases "sc_pc c") (auto simp: awaited_def Let_def split: if_splits)
  obtain a' evs out where sgm: "stop_poll False (sc_pc c) (app s) = Some (a', evs, out)"
      "seg_ok a0 (log s) (a', evs, out)"
    using stop_poll_ok [OF app pc, of False] by (metis prod_cases3)
  then show ?thesis
    using adv h by (cases out) (auto simp: advances_def stop_segment_def seg_ok_def)
qed

lemma drive_returns:
  assumes "service_ok a0 s" "holder s = Some c" "\<not> sc_cancelled c" "no_errors (app s)"
    and "2 * points (sc_pc c) (app s) + (if awaited s = None then 0 else 1) \<le> n"
  shows "\<exists>s'. drive n s = Some s' \<and> holder s' = None \<and> state (app s') = Stopped"
  using assms
proof (induction n arbitrary: s c)
  case 0
  then show ?case by (cases "sc_pc c") (auto split: if_splits)
next
  case (Suc n)
  show ?case
  proof (cases "awaited s")
    case None
    then obtain s' where s': "app_step StopPoll s = Some s'"
      "holder s' = None \<and> state (app s') = Stopped \<or>
       (\<exists>c'. holder s' = Some c' \<and> \<not> sc_cancelled c' \<and> no_errors (app s') \<and>
          points (sc_pc c') (app s') < points (sc_pc c) (app s))"
      using poll_step [OF Suc.prems(1-4)] by auto
    have ok': "service_ok a0 s'"
      using service_step_ok [OF Suc.prems(1) s'(1)] .
    from s'(2) show ?thesis
    proof
      assume "holder s' = None \<and> state (app s') = Stopped"
      then show ?thesis
        using s'(1) None Suc.prems(2) by (cases n) auto
    next
      assume "\<exists>c'. holder s' = Some c' \<and> \<not> sc_cancelled c' \<and> no_errors (app s') \<and>
          points (sc_pc c') (app s') < points (sc_pc c) (app s)"
      then obtain c' where c': "holder s' = Some c'" "\<not> sc_cancelled c'" "no_errors (app s')"
          "points (sc_pc c') (app s') < points (sc_pc c) (app s)"
        by blast
      then show ?thesis
        using Suc.IH [OF ok' c'(1-3)] Suc.prems None s'(1) by (simp split: if_splits)
    qed
  next
    case (Some e)
    then obtain s' where s': "app_step e s = Some s'" "holder s' = holder s" "awaited s' = None" "no_errors (app s')"
        "points (sc_pc c) (app s') = points (sc_pc c) (app s)"
      using await_step [OF Suc.prems(1,2,4)] by blast
    then show ?thesis
      using Suc.IH [OF service_step_ok [OF Suc.prems(1) s'(1)], of c] Suc.prems Some by simp
  qed
qed

section \<open>Results and failures\<close>

definition outcome_ok :: "('c, 'v) service \<Rightarrow> bool" where
  "outcome_ok s \<longleftrightarrow>
     (StopReturn (Inr ()) \<in> set (log s) \<longrightarrow> state (app s) = Stopped) \<and>
     (state (app s) = Stopped \<and> phases (shutdown (app s)) = None \<longrightarrow> starts (log s) = [])"

lemma stop_enter_created:
  "stop_enter n a = (a', evs, out) \<Longrightarrow> state a' = Stopped \<Longrightarrow>
     (state a = Created \<or> state a = Stopped) \<and> shutdown a' = shutdown a"
  by (cases "state a") (auto simp: stop_enter_def Let_def split: option.splits)

lemma stop_poll_stopped:
  "stop_poll x pc a = Some (a', evs, out) \<Longrightarrow> state a \<noteq> Stopped \<Longrightarrow> state a' = Stopped \<Longrightarrow> phases (shutdown a') \<noteq> None"
  by (cases pc)
    (auto simp: after_drain_def next_phase_def wait_job_def Let_def
      split: option.splits prod.splits sum.splits if_splits task_handle.splits)

lemma segment_outcome:
  assumes "outcome_ok s" "seg_ok a0 (log s) (a', evs, out)" "list_all no_start evs" "StopReturn (Inr ()) \<notin> set evs"
    and "state (app s) = Stopped \<Longrightarrow> state a' = Stopped"
    and "state a' = Stopped \<Longrightarrow> phases (shutdown a') = None \<Longrightarrow> starts (log s) = []"
  shows "outcome_ok (stop_segment x b (Some (a', evs, out)) s)"
proof (cases out)
  case (Inl pc)
  then show ?thesis
    using assms no_start_starts [OF assms(3)] by (auto simp: outcome_ok_def stop_segment_def)
next
  case (Inr r)
  have "StopReturn (Inr ()) \<in> set (stop_returns b r) \<longrightarrow> r = Inr ()" "starts (stop_returns b r) = []"
    by (auto simp: stop_returns_def split: option.splits)
  then show ?thesis
    using assms Inr no_start_starts [OF assms(3)]
    by (auto simp: outcome_ok_def stop_segment_def seg_ok_def split: sum.splits)
qed

lemma created_starts: "service_ok a0 s \<Longrightarrow> state (app s) = Created \<Longrightarrow> starts (log s) = []"
  by (auto simp: service_ok_def starts_ok_def intro: no_start_starts)

lemma enter_outcome:
  assumes ok: "service_ok a0 s" and out: "outcome_ok s"
  shows "outcome_ok (enter_stop x b s)"
proof -
  obtain a' evs r where e: "stop_enter (app_name (app s)) (app s) = (a', evs, r)"
    by (metis prod_cases3)
  have "seg_ok a0 (log s) (a', evs, r)"
    using stop_enter_ok [of a0 "app s" "log s" "app_name (app s)"] ok e by (simp add: service_ok_def)
  moreover have "state (app s) = Stopped \<Longrightarrow> state a' = Stopped"
    using e by (auto simp: stop_enter_def)
  moreover have "starts (log s) = []" if "state a' = Stopped" "phases (shutdown a') = None"
    using stop_enter_created [OF e that(1)] that(2) out created_starts [OF ok] by (auto simp: outcome_ok_def)
  ultimately have "outcome_ok (stop_segment x b (Some (a', evs, r)) s)"
    using stop_enter_events [OF e] by (intro segment_outcome [OF out]) auto
  then show ?thesis
    using e out by (auto simp: enter_stop_def outcome_ok_def)
qed

lemma poll_outcome:
  assumes ok: "service_ok a0 s" and out: "outcome_ok s" and h: "holder s = Some c"
  shows "outcome_ok (stop_segment x b (stop_poll x (sc_pc c) (app s)) s)"
proof -
  have pc: "app_ok a0 (app s) (log s)" "pc_ok (sc_pc c) (app s)" "state (app s) = Stopping"
    using ok h by (auto simp: service_ok_def pc_ok_def)
  obtain a' evs r where sgm: "stop_poll x (sc_pc c) (app s) = Some (a', evs, r)" "seg_ok a0 (log s) (a', evs, r)"
    using stop_poll_ok [OF pc(1,2), of x] by (metis prod_cases3)
  have "StopReturn (Inr ()) \<notin> set evs"
    using sgm(1) by (cases "sc_pc c") (auto simp: after_drain_def next_phase_def wait_job_def spawn_log_def Let_def
      split: option.splits prod.splits sum.splits if_splits task_handle.splits)
  then have "outcome_ok (stop_segment x b (Some (a', evs, r)) s)"
    using stop_poll_events [OF sgm(1)] stop_poll_stopped [OF sgm(1)] pc(3)
    by (intro segment_outcome [OF out sgm(2)]) auto
  then show ?thesis using sgm(1) by simp
qed

lemma start_outcome:
  assumes ok: "service_ok a0 s" and out: "outcome_ok s"
  shows "starter s = None \<Longrightarrow> outcome_ok (start_call adm s)"
    and "starter s = Some (Launching xs) \<Longrightarrow> outcome_ok (start_next r xs s)"
proof -
  show "outcome_ok (start_call adm s)"
    using out by (auto simp: outcome_ok_def start_call_def Let_def split: prod.splits sum.splits)
  assume "starter s = Some (Launching xs)"
  then have "state (app s) = Starting"
    using launching_holder [OF ok] by simp
  then show "outcome_ok (start_next r xs s)"
    using out by (auto simp: outcome_ok_def start_next_def split: list.splits sum.splits)
qed

lemma outcome_same:
  "outcome_ok s \<Longrightarrow> log s' = log s @ es \<Longrightarrow> list_all no_start es \<Longrightarrow> StopReturn (Inr ()) \<notin> set es \<Longrightarrow>
   state (app s') = state (app s) \<Longrightarrow> (phases (shutdown (app s')) = None \<longleftrightarrow> phases (shutdown (app s)) = None) \<Longrightarrow> outcome_ok s'"
  by (auto simp: outcome_ok_def no_start_starts)

lemma outcome_step:
  assumes ok: "service_ok a0 s" and step: "app_step e s = Some s'" and out: "outcome_ok s"
  shows "outcome_ok s'"
proof -
  have gone: "service_ok a0 (s\<lparr>starter := None\<rparr>)" "outcome_ok (s\<lparr>starter := None\<rparr>)"
    using out ok by (auto simp: outcome_ok_def intro!: service_ok_keep [OF ok, of _ "[]"]) (auto simp: service_ok_def)
  show ?thesis
  proof (cases e)
    case (StartCall adm)
    then show ?thesis using step start_outcome(1) [OF ok out] by (auto split: if_splits)
  next
    case (StartNext r)
    then show ?thesis using step start_outcome(2) [OF ok out] by (auto split: option.splits start_progress.splits)
  next
    case (StartCleanup x)
    then show ?thesis using step enter_outcome [OF gone] by (auto split: option.splits start_progress.splits)
  next
    case StartGivesUp
    then show ?thesis
      using step by (auto intro!: outcome_same [OF out] simp: stop_returns_def split: option.splits start_progress.splits)
  next
    case (StopCall x)
    then show ?thesis using step enter_outcome [OF ok out] by (auto split: if_splits)
  next
    case StopPoll
    then show ?thesis using step poll_outcome [OF ok out] by (auto split: option.splits)
  next
    case (JobEnds p i r)
    then show ?thesis
      using step by (auto intro!: outcome_same [OF out] simp: end_job_def set_job_def Let_def split: option.splits if_splits)
  next
    case (ServerEnds x r)
    then show ?thesis
      using step by (cases x) (auto intro!: outcome_same [OF out] split: if_splits)
  qed (use step in \<open>auto intro!: outcome_same [OF out] simp: stop_returns_def split: option.splits if_splits\<close>)
qed

lemma outcome_run:
  assumes "fresh_app a" "run_steps app_step acts (service_of a) = Some s"
  shows "outcome_ok s"
proof -
  have init: "outcome_ok (service_of a)"
    by (simp add: outcome_ok_def service_of_def)
  show ?thesis
    by (rule service.run_mono [where P = outcome_ok, OF _ fresh_service_ok [OF assms(1)] init assms(2)]) (rule outcome_step)
qed

text \<open>A failure is final: nothing is spawned and nothing succeeds after it.\<close>

definition failed_with :: "string \<Rightarrow> app_event list \<Rightarrow> ('c, 'v) service \<Rightarrow> bool" where
  "failed_with f l s \<longleftrightarrow>
     failure (shutdown (app s)) = Some f \<and> state (app s) = Stopping \<and> holder s = None \<and> starter s \<notin> range (Some \<circ> Launching) \<and>
     (\<exists>es. log s = l @ es \<and> list_all (\<lambda>e. (\<forall>p i. e \<noteq> Spawn p i) \<and> e \<noteq> StopReturn (Inr ()) \<and> no_start e) es)"

lemma failed_step:
  assumes "failed_with f l s" "app_step e s = Some s'" "service_ok a0 s"
  shows "failed_with f l s'"
proof -
  have cfg: "app_config (app s) \<noteq> None"
    using assms(3) same_parts_eqs(5) [of a0 "app s"] by (auto simp: service_ok_def app_ok_def)
  have "end_job p i r (app s) = Some a \<Longrightarrow> failure (shutdown a) = failure (shutdown (app s)) \<and> state a = state (app s)" for p i r a
    by (auto simp: end_job_def set_job_def Let_def split: option.splits if_splits)
  moreover have "end_server x r (app s) = Some a \<Longrightarrow> failure (shutdown a) = failure (shutdown (app s)) \<and> state a = state (app s)" for x r a
    by (cases x) (auto split: if_splits)
  ultimately show ?thesis
    using assms(1,2) cfg
    by (cases e)
      (auto simp: failed_with_def start_call_def enter_stop_def stop_enter_def stop_segment_def stop_returns_def Let_def
        split: if_splits option.splits start_progress.splits)
qed

section \<open>A service to evaluate\<close>

definition demo_app :: "(unit, nat) app" where
  "demo_app =
     (case from_parts FunctionCall [demo_service] [] [] [] [] [] of
        Inl e \<Rightarrow> undefined
      | Inr cfg \<Rightarrow>
          (case app_new 0 (register_storage 7 (graph_new None cfg)) demo_service of
             Inl e \<Rightarrow> undefined
           | Inr a \<Rightarrow>
               (let a1 = snd (the (add_component 20 a)); a2 = snd (the (register_data_sink 3 30 ''out'' a1)) in
                snd (the (register_data_source 4 40 ''in'' a2)))))"

definition demo_start :: "app_action list" where
  "demo_start = StartCall True # replicate 9 (StartNext (Inr ()))"

definition demo_servers :: "app_action list" where
  "demo_servers = demo_start @ [StopCall False, StopPoll, ServerEnds HttpServer (Inr ()), StopPoll, StopPoll]"

text \<open>The first caller runs out of time, the second one waits for the jobs of the first.\<close>

definition demo_retry :: "app_action list" where
  "demo_retry = demo_servers @ [Deadline, StopPoll, StopCall False, StopPoll, StopPoll, StopPoll]"

definition demo_jobs :: "nat \<Rightarrow> nat \<Rightarrow> app_action list" where
  "demo_jobs p n = concat (map (\<lambda>i. [JobEnds p i (Inr ()), StopPoll]) [0..<n]) @ [StopPoll, StopPoll]"

definition demo_stop :: "app_action list" where
  "demo_stop = demo_retry @ demo_jobs 0 2 @ demo_jobs 1 3 @ concat (map (\<lambda>p. demo_jobs p 1) [2, 3, 4, 5, 6, 7])"

definition demo_fail :: "app_action list" where
  "demo_fail = demo_servers @ [JobEnds 0 0 (Inl (Transport ''reset'')), StopPoll]"

definition demo_run :: "app_action list \<Rightarrow> (unit, nat) service" where
  "demo_run acts = the (run_steps app_step acts (service_of demo_app))"

definition runs :: "app_action list \<Rightarrow> bool" where
  "runs acts = (case run_steps app_step acts (service_of demo_app) of None \<Rightarrow> False | Some _ \<Rightarrow> True)"

lemma demo_run_eq: "runs acts \<Longrightarrow> run_steps app_step acts (service_of demo_app) = Some (demo_run acts)"
  by (auto simp: runs_def demo_run_def split: option.splits)

lemma demo_fresh: "fresh_app demo_app"
  by code_simp

section \<open>Properties\<close>

lemma starts_mem: "(x, r) \<in> set (starts l) \<longleftrightarrow> StartOp x r \<in> set l"
  by (induction l rule: starts.induct) auto

lemma downstream_not_admission: "x \<in> set (admission_resources a) \<Longrightarrow> x \<notin> set (downstream_resources a)"
  by (auto simp: admission_resources_def downstream_resources_def)

text \<open>
  C15. Graph admission opens last: whenever a data source, the gRPC server or the HTTP server is started, the
  runtime metrics and every storage, pool, component and data sink of the service have been started successfully
  before, whatever else happens at the same time.
\<close>

theorem service_start_order:
  assumes "fresh_app a" "run_steps app_step acts (service_of a) = Some s"
    and "log s = before @ StartOp x r # after" "x \<in> set (admission_resources a)"
  shows "(\<lambda>y. StartOp y (Inr ())) ` set (downstream_resources a) \<subseteq> set before"
proof -
  obtain adm where "always (launch_order (start_plan adm a)) (log s)"
    using service_run_ok [OF assms(1,2)] by (auto simp: service_ok_def starts_ok_def)
  then have "launch_order (start_plan adm a) before (StartOp x r)"
    using assms(3) by (rule always_at)
  then obtain ys zs where plan: "start_plan adm a = ys @ x # zs" and st: "starts before = all_started ys"
    by (auto simp: launch_order_def)
  have "set (downstream_resources a) \<subseteq> set ys"
    using plan downstream_not_admission [OF assms(4)]
    by (auto simp: start_plan_def append_eq_append_conv2 append_eq_Cons_conv split: if_splits)
  then show ?thesis
    using st by (auto simp: starts_mem [symmetric] all_started_def)
qed

theorem service_start_order_witness:
  "(\<lambda>y. StartOp y (Inr ())) ` set (downstream_resources demo_app) \<subseteq> set (take 5 (log (demo_run demo_start)))"
proof (rule service_start_order [OF demo_fresh demo_run_eq])
  show "runs demo_start"
    by code_simp
  show "log (demo_run demo_start) = take 5 (log (demo_run demo_start)) @ StartOp (DataSource 40) (Inr ()) # drop 6 (log (demo_run demo_start))"
    by code_simp
  show "DataSource 40 \<in> set (admission_resources demo_app)"
    by code_simp
qed



text \<open>
  C24. What a successful \<open>stop\<close> means: when a call has returned \<open>Ok\<close> the service is stopped for good and both
  servers are gone, and if anything had been started every shutdown job of every phase has ended successfully and
  no endpoint consumer is left.
\<close>

theorem service_stop_result:
  assumes "fresh_app a" "run_steps app_step acts (service_of a) = Some s" "StopReturn (Inr ()) \<in> set (log s)"
  shows "state (app s) = Stopped \<and> grpc_task (app s) = None \<and> http_task (app s) = None \<and>
    (starts (log s) = [] \<or>
     endpoint_consumers (environment (app s)) = [] \<and>
     {JobDone p i (Inr ()) | p i. p < 8 \<and> i < length (shutdown_resources a ! p)} \<subseteq> set (log s))"
proof -
  have app: "app_ok a (app s) (log s)" and st: "state (app s) = Stopped"
    and none: "phases (shutdown (app s)) = None \<Longrightarrow> starts (log s) = []"
    using service_run_ok [OF assms(1,2)] outcome_run [OF assms(1,2)] assms(3) by (auto simp: service_ok_def outcome_ok_def)
  have "JobDone p i (Inr ()) \<in> set (log s)"
    if "phases (shutdown (app s)) = Some phs" "p < 8" "i < length (shutdown_resources a ! p)" for phs p i
  proof -
    have parts: "same_parts a (app s)" "phases_ok (app s) (log s)" "state_ok (app s)"
      using app by (simp_all add: app_ok_def)
    note res = phases_ok_resources [OF parts(1,2) that(1)] and len = phases_ok_length [OF parts(1,2) that(1)]
    have jobs: "jobs_ok (phase (shutdown (app s))) (failure (shutdown (app s)) \<noteq> None) phs (log s)"
      using parts(2) that(1) by (simp add: phases_ok_def)
    have "phase (shutdown (app s)) = length phs"
      using parts(3) st that(1) by (simp add: state_ok_def)
    then show ?thesis
      using jobs_ok_passed [OF jobs res, of p i] len that by simp
  qed
  then have jobs: "{JobDone p i (Inr ()) | p i. p < 8 \<and> i < length (shutdown_resources a ! p)} \<subseteq> set (log s)"
    if "phases (shutdown (app s)) = Some phs" for phs
    using that by blast
  have "state_ok (app s)"
    using app by (simp add: app_ok_def)
  then show ?thesis
    using st none jobs by (cases "phases (shutdown (app s))") (simp_all add: state_ok_def servers_down_def)
qed

theorem service_stop_result_witness:
  "state (app (demo_run demo_stop)) = Stopped \<and> grpc_task (app (demo_run demo_stop)) = None \<and>
   http_task (app (demo_run demo_stop)) = None \<and>
   (starts (log (demo_run demo_stop)) = [] \<or>
    endpoint_consumers (environment (app (demo_run demo_stop))) = [] \<and>
    {JobDone p i (Inr ()) | p i. p < 8 \<and> i < length (shutdown_resources demo_app ! p)} \<subseteq> set (log (demo_run demo_stop)))"
proof (rule service_stop_result [OF demo_fresh demo_run_eq])
  show "runs demo_stop" "StopReturn (Inr ()) \<in> set (log (demo_run demo_stop))"
    by code_simp+
qed

text \<open>
  C25. A failure other than a cancelled context is final: whatever happens after it, the failure stays, no job is
  spawned, no call reports success, and a new call of \<open>stop\<close> does nothing but return the failure.
\<close>

theorem service_failure_final:
  assumes "fresh_app a" "run_steps app_step acts (service_of a) = Some s"
    and "failure (shutdown (app s)) = Some f" "run_steps app_step later s = Some t"
  shows "failure (shutdown (app t)) = Some f \<and> state (app t) = Stopping \<and>
    (\<exists>es. log t = log s @ es \<and> StopReturn (Inr ()) \<notin> set es \<and> (\<nexists>q j. Spawn q j \<in> set es)) \<and>
    app_step (StopCall x) t = Some (t\<lparr>log := log t @ [StopReturn (Inl (Transport f))]\<rparr>)"
proof -
  have ok: "service_ok a s"
    using service_run_ok [OF assms(1,2)] .
  have "failed_with f (log s) s"
    using ok assms(3) by (cases "holder s")
      (auto simp: service_ok_def failed_with_def app_ok_def state_ok_def pc_ok_def starts_ok_def)
  then have t: "failed_with f (log s) t"
    by (rule service.run_mono [where P = "failed_with f (log s)", OF _ ok _ assms(4), rotated])
      (rule failed_step)
  have "app_config (app t) \<noteq> None"
    using service.run_inv [OF ok assms(4)] same_parts_eqs(5) [of a "app t"] by (auto simp: service_ok_def app_ok_def)
  moreover have "(app t)\<lparr>state := Stopping\<rparr> = app t"
    using t by (simp add: failed_with_def)
  ultimately have "app_step (StopCall x) t = Some (t\<lparr>log := log t @ [StopReturn (Inl (Transport f))]\<rparr>)"
    using t by (auto simp: failed_with_def enter_stop_def stop_enter_def stop_segment_def stop_returns_def)
  moreover obtain es where "log t = log s @ es"
    "\<forall>e\<in>set es. (\<forall>p i. e \<noteq> Spawn p i) \<and> e \<noteq> StopReturn (Inr ()) \<and> no_start e"
    using t by (auto simp: failed_with_def list_all_iff)
  ultimately show ?thesis
    using t unfolding failed_with_def by blast
qed

theorem service_failure_final_witness:
  "failure (shutdown (app (demo_run (demo_fail @ [StopCall False])))) = Some ''transport error: reset''"
proof -
  have all: "runs demo_fail" "runs (demo_fail @ [StopCall False])"
    "failure (shutdown (app (demo_run demo_fail))) = Some ''transport error: reset''"
    by code_simp+
  have "run_steps app_step [StopCall False] (demo_run demo_fail) = Some (demo_run (demo_fail @ [StopCall False]))"
    using demo_run_eq [OF all(1)] demo_run_eq [OF all(2)] by (simp only: run_steps_append Option.bind.simps)
  then show ?thesis
    using service_failure_final [OF demo_fresh demo_run_eq [OF all(1)] all(3)] by blast
qed

text \<open>
  C14. \<open>stop\<close> returns: from any reachable state in which a stop call holds the lock with a live context, if the
  tasks it waits for end successfully when it waits for them, the call returns within twice the number of
  program points that are left, and the service is stopped.
\<close>

theorem service_stop_returns:
  assumes "fresh_app a" "run_steps app_step acts (service_of a) = Some s"
    and "holder s = Some c" "\<not> sc_cancelled c" "no_errors (app s)" "n \<ge> 2 * points (sc_pc c) (app s) + 1"
  shows "\<exists>t. drive n s = Some t \<and> holder t = None \<and> state (app t) = Stopped"
  using drive_returns [OF service_run_ok [OF assms(1,2)] assms(3-5), of n] assms(6) by auto

theorem service_stop_returns_witness:
  "\<exists>t. drive 60 (demo_run demo_retry) = Some t \<and> holder t = None \<and> state (app t) = Stopped"
proof (rule service_stop_returns [OF demo_fresh demo_run_eq])
  show "runs demo_retry" "holder (demo_run demo_retry) = Some \<lparr>sc_pc = WaitJob 0, sc_cancelled = False, sc_behalf = None\<rparr>"
    "\<not> sc_cancelled \<lparr>sc_pc = WaitJob 0, sc_cancelled = False, sc_behalf = None\<rparr>" "no_errors (app (demo_run demo_retry))"
    "60 \<ge> 2 * points (sc_pc \<lparr>sc_pc = WaitJob 0, sc_cancelled = False, sc_behalf = None\<rparr>) (app (demo_run demo_retry)) + 1"
    by code_simp+
qed

end
