(* ===== verification/Delay_Pool.thy ===== *)
theory Delay_Pool
  imports Message_Context Step_Systems
begin

text \<open>
  The delay pool (\<open>src/runtime/pool/delaypool.rs\<close>) and the delay operator (\<open>src/operators/delay.rs\<close>). A call of
  \<open>consume\<close> asks the business function for a duration, computes the time to run at and waits for the pool's lock; an
  accepted message becomes a task that sleeps, runs its callback and ends. The steps of calls, tasks, the clock
  and \<open>stop\<close> interleave freely. \<open>TaskTracker::wait\<close> is complete when the tracker is closed and no task is left.

  A token is cancelled when it is in \<open>dead\<close>; the tokens of child contexts are cancelled together with it. Tracing is
  left out; the pool's metrics are counted when they are configured.
\<close>

section \<open>Data\<close>

type_synonym ('o, 'l) ctx = "(nat, 'o, 'l) message_context"

text \<open>\<open>ScheduledDelay\<close>: the callback is the emission of the value, unless the context is cancelled by then.\<close>

record ('o, 'l, 'v) scheduled =
  d_ctx :: "('o, 'l) ctx"
  d_value :: 'v
  run_at :: instant
  expedited_by_deadline :: bool
  d_metrics :: bool

datatype wait_state = Admitted | Sleeping | Executing

record pool_metrics =
  wait_queue_length :: int
  tasks_total :: nat
  task_cancelled :: nat
  stop_timeout :: nat

datatype delay_event =
    Asked nat instant duration
  | Accepted nat
  | Rejected nat runtime_error
  | Direct nat instant
  | Started nat instant bool
  | Emitted nat instant
  | Skipped nat instant
  | Ended nat
  | StopDone

record ('o, 'l, 'v) delay_pool =
  clock :: instant
  dead :: "nat list"
  stopped :: bool
  calls :: "(nat \<times> ('o, 'l, 'v) scheduled) list"
  tasks :: "(nat \<times> wait_state \<times> ('o, 'l, 'v) scheduled) list"
  active_tasks :: nat
  metrics :: "pool_metrics option option"
  stopping :: nat
  stopping_late :: nat
  fresh :: nat
  history :: "delay_event list"

definition delay_pool_new :: "instant \<Rightarrow> ('o, 'l, 'v) delay_pool" where
  "delay_pool_new now = \<lparr>clock = now, dead = [], stopped = False, calls = [], tasks = [], active_tasks = 0,
     metrics = None, stopping = 0, stopping_late = 0, fresh = 0, history = []\<rparr>"

abbreviation ctx_cancelled :: "('o, 'l) ctx \<Rightarrow> ('o, 'l, 'v) delay_pool \<Rightarrow> bool" where
  "ctx_cancelled c s \<equiv> is_cancelled (\<lambda>t. t \<in> set (dead s)) (clock s) c"

section \<open>The pool\<close>

text \<open>\<open>configure_metrics\<close>: the first configuration counts, also one with \<open>noop\<close> metrics.\<close>

definition configure_metrics :: "bool \<Rightarrow> ('o, 'l, 'v) delay_pool \<Rightarrow> ('o, 'l, 'v) delay_pool" where
  "configure_metrics noop s =
     (if metrics s \<noteq> None then s
      else if noop then s\<lparr>metrics := Some None\<rparr>
      else s\<lparr>metrics := Some (Some \<lparr>wait_queue_length = 0, tasks_total = 0, task_cancelled = 0, stop_timeout = 0\<rparr>)\<rparr>)"

definition measured :: "('o, 'l, 'v) delay_pool \<Rightarrow> bool" where
  "measured s \<longleftrightarrow> (case metrics s of Some (Some _) \<Rightarrow> True | _ \<Rightarrow> False)"

definition on_metrics :: "bool \<Rightarrow> (pool_metrics \<Rightarrow> pool_metrics) \<Rightarrow> ('o, 'l, 'v) delay_pool \<Rightarrow> ('o, 'l, 'v) delay_pool" where
  "on_metrics enabled f s = (if enabled then s\<lparr>metrics := map_option (map_option f) (metrics s)\<rparr> else s)"

text \<open>The time at which a delay runs, and whether the deadline of the context comes first.\<close>

definition delay_times :: "instant \<Rightarrow> duration \<Rightarrow> instant option \<Rightarrow> (instant \<times> bool) runtime_result" where
  "delay_times now d limit =
     (let requested_at = instant_add now d in
      case (case (requested_at, limit) of
          (Some requested, Some dl) \<Rightarrow> Some (min requested dl)
        | (Some requested, None) \<Rightarrow> Some requested
        | (None, Some dl) \<Rightarrow> Some dl
        | (None, None) \<Rightarrow> None) of
        None \<Rightarrow> Inl (InvalidConfiguration ''delay duration exceeds the clock range'')
      | Some r \<Rightarrow> Inr (r, (case requested_at of None \<Rightarrow> True | Some requested \<Rightarrow> r < requested)))"

text \<open>\<open>delay\<close> up to the lock.\<close>

definition delay_prepare :: "('o, 'l) ctx \<Rightarrow> duration \<Rightarrow> 'v \<Rightarrow> ('o, 'l, 'v) delay_pool \<Rightarrow> ('o, 'l, 'v) scheduled runtime_result" where
  "delay_prepare c d v s =
     (if ctx_cancelled c s then Inl ContextCancelled
      else case delay_times (clock s) d (deadline c) of
        Inl e \<Rightarrow> Inl e
      | Inr (r, x) \<Rightarrow>
          Inr \<lparr>d_ctx = c, d_value = v, run_at = r, expedited_by_deadline = x, d_metrics = measured s\<rparr>)"

text \<open>\<open>delay\<close> under the lock.\<close>

definition delay_admit :: "nat \<Rightarrow> ('o, 'l, 'v) scheduled \<Rightarrow> ('o, 'l, 'v) delay_pool \<Rightarrow> unit runtime_result \<times> ('o, 'l, 'v) delay_pool" where
  "delay_admit k x s =
     (if stopped s then (Inl (ResourceStopped ''delay''), s)
      else
        (Inr (),
         (on_metrics (d_metrics x) (\<lambda>m. m\<lparr>wait_queue_length := wait_queue_length m + 1\<rparr>) s)
           \<lparr>active_tasks := active_tasks s + 1, tasks := tasks s @ [(k, Admitted, x)]\<rparr>))"

text \<open>\<open>wait_ready\<close>: the check when the task first runs, and the two ways out of the sleep.\<close>

definition first_check :: "('o, 'l, 'v) scheduled \<Rightarrow> ('o, 'l, 'v) delay_pool \<Rightarrow> bool option" where
  "first_check x s =
     (if run_at x \<le> clock s then Some (expedited_by_deadline x \<or> ctx_cancelled (d_ctx x) s) else None)"

text \<open>\<open>execute\<close> up to the end of the callback of the operator, and after it.\<close>

definition run_callback :: "nat \<Rightarrow> ('o, 'l, 'v) scheduled \<Rightarrow> bool \<Rightarrow> ('o, 'l, 'v) delay_pool \<Rightarrow> ('o, 'l, 'v) delay_pool" where
  "run_callback k x was_cancelled s =
     (on_metrics (was_cancelled \<and> d_metrics x) (\<lambda>m. m\<lparr>task_cancelled := task_cancelled m + 1\<rparr>) s)
       \<lparr>tasks := hm_insert k (Executing, x) (tasks s),
        history := history s @ [Started k (clock s) was_cancelled,
          if ctx_cancelled (d_ctx x) s then Skipped k (clock s) else Emitted k (clock s)]\<rparr>"

definition end_task :: "nat \<Rightarrow> ('o, 'l, 'v) scheduled \<Rightarrow> ('o, 'l, 'v) delay_pool \<Rightarrow> ('o, 'l, 'v) delay_pool" where
  "end_task k x s =
     (on_metrics (d_metrics x)
        (\<lambda>m. m\<lparr>wait_queue_length := wait_queue_length m - 1, tasks_total := tasks_total m + 1\<rparr>) s)
       \<lparr>active_tasks := active_tasks s - 1, tasks := hm_remove k (tasks s), history := history s @ [Ended k]\<rparr>"

section \<open>The operator and the scheduler\<close>

text \<open>
  \<open>DelayStream::consume\<close>: \<open>d\<close> is what the business function answers. A zero delay emits at once, even for a
  cancelled context; a rejected one goes to \<open>delay_error\<close>.
\<close>

definition delay_consume :: "('o, 'l) ctx \<Rightarrow> duration \<Rightarrow> 'v \<Rightarrow> ('o, 'l, 'v) delay_pool \<Rightarrow> ('o, 'l, 'v) delay_pool" where
  "delay_consume c d v s =
     (let k = fresh s; s1 = s\<lparr>fresh := k + 1, history := history s @ [Asked k (clock s) d]\<rparr> in
      if d = 0 then s1\<lparr>history := history s1 @ [Direct k (clock s)]\<rparr>
      else case delay_prepare c d v s of
        Inl e \<Rightarrow> s1\<lparr>history := history s1 @ [Rejected k e]\<rparr>
      | Inr x \<Rightarrow> s1\<lparr>calls := calls s @ [(k, x)]\<rparr>)"

datatype ('o, 'l, 'v) delay_action =
    Configure bool
  | Consume "('o, 'l) ctx" duration 'v
  | Lock nat
  | DropCall nat
  | FirstPoll nat
  | TimerFires nat
  | CancelFires nat
  | CallbackEnds nat
  | Tick duration
  | Cancel "nat list"
  | StopCall
  | StopTimesOut
  | StopReturns bool

text \<open>
  \<open>stopping\<close> counts the calls of \<open>stop\<close> that have closed the tracker and wait for it, \<open>stopping_late\<close> those whose
  context is over, which wait on.
\<close>

fun delay_step :: "('o, 'l, 'v) delay_action \<Rightarrow> ('o, 'l, 'v) delay_pool \<Rightarrow> ('o, 'l, 'v) delay_pool option" where
  "delay_step (Configure noop) s = Some (configure_metrics noop s)"
| "delay_step (Consume c d v) s = Some (delay_consume c d v s)"
| "delay_step (Lock k) s =
     (case map_of (calls s) k of
        None \<Rightarrow> None
      | Some x \<Rightarrow>
          (case delay_admit k x (s\<lparr>calls := hm_remove k (calls s)\<rparr>) of
             (Inl e, s1) \<Rightarrow> Some (s1\<lparr>history := history s1 @ [Rejected k e]\<rparr>)
           | (Inr _, s1) \<Rightarrow> Some (s1\<lparr>history := history s1 @ [Accepted k]\<rparr>)))"
| "delay_step (DropCall k) s =
     (if map_of (calls s) k = None then None else Some (s\<lparr>calls := hm_remove k (calls s)\<rparr>))"
| "delay_step (FirstPoll k) s =
     (case map_of (tasks s) k of
        Some (Admitted, x) \<Rightarrow>
          (case first_check x s of
             None \<Rightarrow> Some (s\<lparr>tasks := hm_insert k (Sleeping, x) (tasks s)\<rparr>)
           | Some b \<Rightarrow> Some (run_callback k x b s))
      | _ \<Rightarrow> None)"
| "delay_step (TimerFires k) s =
     (case map_of (tasks s) k of
        Some (Sleeping, x) \<Rightarrow> if run_at x \<le> clock s then Some (run_callback k x (expedited_by_deadline x) s) else None
      | _ \<Rightarrow> None)"
| "delay_step (CancelFires k) s =
     (case map_of (tasks s) k of
        Some (Sleeping, x) \<Rightarrow> if ctx_cancelled (d_ctx x) s then Some (run_callback k x True s) else None
      | _ \<Rightarrow> None)"
| "delay_step (CallbackEnds k) s =
     (case map_of (tasks s) k of Some (Executing, x) \<Rightarrow> Some (end_task k x s) | _ \<Rightarrow> None)"
| "delay_step (Tick d) s = Some (s\<lparr>clock := clock s + d\<rparr>)"
| "delay_step (Cancel ts) s = Some (s\<lparr>dead := ts @ dead s\<rparr>)"
| "delay_step StopCall s = Some (s\<lparr>stopped := True, stopping := stopping s + 1\<rparr>)"
| "delay_step StopTimesOut s =
     (if stopping s = 0 then None
      else Some ((on_metrics (measured s) (\<lambda>m. m\<lparr>stop_timeout := stop_timeout m + 1\<rparr>) s)
        \<lparr>stopping := stopping s - 1, stopping_late := stopping_late s + 1\<rparr>))"
| "delay_step (StopReturns late) s =
     (if (if late then stopping_late s else stopping s) > 0 \<and> tasks s = []
      then Some ((if late then s\<lparr>stopping_late := stopping_late s - 1\<rparr> else s\<lparr>stopping := stopping s - 1\<rparr>)
        \<lparr>history := history s @ [StopDone]\<rparr>) else None)"

section \<open>Times\<close>

lemma delay_times_bounds:
  assumes "delay_times now d limit = Inr (r, x)"
  shows "(\<And>l. limit = Some l \<Longrightarrow> l \<le> instant_max) \<Longrightarrow> r \<le> now + d" "\<And>l. limit = Some l \<Longrightarrow> r \<le> l" "x \<Longrightarrow> limit = Some r" "\<not> x \<Longrightarrow> r = now + d"
    "(\<And>l. limit = Some l \<Longrightarrow> now \<le> l) \<Longrightarrow> now \<le> r"
  using assms by (auto simp: delay_times_def instant_add_def Let_def min_def split: option.splits if_splits)

lemma delay_times_error:
  "delay_times now d limit = Inl e \<longleftrightarrow>
     e = InvalidConfiguration ''delay duration exceeds the clock range'' \<and> limit = None \<and> instant_max < now + d"
  by (auto simp: delay_times_def instant_add_def Let_def split: option.splits if_splits)

section \<open>The history of a message\<close>

fun key_of :: "delay_event \<Rightarrow> nat option" where
  "key_of (Asked k _ _) = Some k"
| "key_of (Accepted k) = Some k"
| "key_of (Rejected k _) = Some k"
| "key_of (Direct k _) = Some k"
| "key_of (Started k _ _) = Some k"
| "key_of (Emitted k _) = Some k"
| "key_of (Skipped k _) = Some k"
| "key_of (Ended k) = Some k"
| "key_of StopDone = None"

definition of_key :: "nat \<Rightarrow> delay_event list \<Rightarrow> delay_event list" where
  "of_key k l = filter (\<lambda>e. key_of e = Some k) l"

lemma of_key_simps [simp]:
  "of_key k [] = []" "of_key k (e # l) = (if key_of e = Some k then e # of_key k l else of_key k l)"
  "of_key k (l @ l') = of_key k l @ of_key k l'"
  by (simp_all add: of_key_def)

lemma of_key_mem: "key_of e = Some k \<Longrightarrow> e \<in> set (of_key k l) \<longleftrightarrow> e \<in> set l"
  by (simp add: of_key_def)

definition timed :: "instant \<Rightarrow> instant \<Rightarrow> duration \<Rightarrow> ('o, 'l, 'v) scheduled \<Rightarrow> bool" where
  "timed now t d x \<longleftrightarrow> t \<le> now \<and> delay_times t d (deadline (d_ctx x)) = Inr (run_at x, expedited_by_deadline x)"

text \<open>One callback: it starts once, and emits or skips at that moment.\<close>

definition callback_events :: "nat \<Rightarrow> delay_event list \<Rightarrow> bool" where
  "callback_events k l \<longleftrightarrow> (\<exists>u b. l = [Started k u b, Emitted k u] \<or> l = [Started k u b, Skipped k u])"

definition closed_history :: "nat \<Rightarrow> delay_event list \<Rightarrow> bool" where
  "closed_history k h \<longleftrightarrow>
     h = [] \<or>
     (\<exists>t d. h = [Asked k t d] \<or> (\<exists>u. h = [Asked k t d, Direct k u]) \<or> (\<exists>e. h = [Asked k t d, Rejected k e]) \<or>
        (\<exists>l. callback_events k l \<and> h = [Asked k t d, Accepted k] @ l @ [Ended k]))"

fun open_history :: "nat \<Rightarrow> wait_state \<Rightarrow> instant \<Rightarrow> ('o, 'l, 'v) scheduled \<Rightarrow> delay_event list \<Rightarrow> bool" where
  "open_history k Executing now x h \<longleftrightarrow> (\<exists>t d l. callback_events k l \<and> h = [Asked k t d, Accepted k] @ l)"
| "open_history k _ now x h \<longleftrightarrow> (\<exists>t d. timed now t d x \<and> h = [Asked k t d, Accepted k])"

definition stage :: "nat \<Rightarrow> ('o, 'l, 'v) delay_pool \<Rightarrow> bool" where
  "stage k s \<longleftrightarrow>
     (let h = of_key k (history s) in
      case (map_of (calls s) k, map_of (tasks s) k) of
        (Some x, None) \<Rightarrow> \<exists>t d. timed (clock s) t d x \<and> h = [Asked k t d]
      | (None, Some (w, x)) \<Rightarrow> open_history k w (clock s) x h
      | (None, None) \<Rightarrow> closed_history k h
      | _ \<Rightarrow> False)"

text \<open>
  A message is emitted when it was asked for long enough ago; \<open>stop\<close> has returned only when every accepted message
  is done, and none is accepted afterwards.
\<close>

definition delay_order :: "delay_event list \<Rightarrow> delay_event \<Rightarrow> bool" where
  "delay_order l e \<longleftrightarrow>
     (case e of
        Emitted k u \<Rightarrow> \<exists>t d. Asked k t d \<in> set l \<and> t + d \<le> u
      | StopDone \<Rightarrow> \<forall>k. Accepted k \<in> set l \<longrightarrow> Ended k \<in> set l
      | Accepted k \<Rightarrow> StopDone \<notin> set l
      | _ \<Rightarrow> True)"

definition delay_ok :: "('o, 'l, 'v) delay_pool \<Rightarrow> bool" where
  "delay_ok s \<longleftrightarrow>
     (\<forall>k. stage k s) \<and> (\<forall>k\<ge>fresh s. of_key k (history s) = []) \<and> hm_wf (calls s) \<and> hm_wf (tasks s) \<and>
     active_tasks s = length (tasks s) \<and> (stopping s > 0 \<or> stopping_late s > 0 \<longrightarrow> stopped s) \<and>
     (StopDone \<in> set (history s) \<longrightarrow> stopped s \<and> tasks s = []) \<and> always delay_order (history s)"

lemma delay_pool_new_ok: "delay_ok (delay_pool_new now)"
  by (simp add: delay_ok_def delay_pool_new_def stage_def closed_history_def)

lemma timed_mono: "timed now t d x \<Longrightarrow> now \<le> now' \<Longrightarrow> timed now' t d x"
  by (simp add: timed_def)

lemma open_history_mono: "open_history k w now x h \<Longrightarrow> now \<le> now' \<Longrightarrow> open_history k w now' x h"
  by (cases w) (auto intro: timed_mono)

lemma stage_keep:
  assumes "stage k s" "map_of (calls s') k = map_of (calls s) k" "map_of (tasks s') k = map_of (tasks s) k"
    "of_key k (history s') = of_key k (history s)" "clock s \<le> clock s'"
  shows "stage k s'"
  using assms open_history_mono [OF _ assms(5)] timed_mono [OF _ assms(5)]
  by (auto simp: stage_def Let_def split: option.splits prod.splits)

text \<open>A step that concerns one message.\<close>

lemma delay_ok_message:
  assumes ok: "delay_ok s"
    and others: "\<And>j. j \<noteq> k \<Longrightarrow> map_of (calls s') j = map_of (calls s) j \<and> map_of (tasks s') j = map_of (tasks s) j"
    and log: "history s' = history s @ es" "\<And>e. e \<in> set es \<Longrightarrow> key_of e = Some k"
    and me: "stage k s'" and wf: "hm_wf (calls s')" "hm_wf (tasks s')" "active_tasks s' = length (tasks s')"
    and rest: "clock s' = clock s" "fresh s \<le> fresh s'" "k < fresh s'" "stopped s' = stopped s"
      "stopping s' = stopping s" "stopping_late s' = stopping_late s"
      "StopDone \<in> set (history s) \<Longrightarrow> tasks s' = []" "always delay_order (history s')"
  shows "delay_ok s'"
proof -
  have other: "of_key j (history s') = of_key j (history s)" if "j \<noteq> k" for j
    using log that by (auto simp: of_key_def filter_empty_conv)
  have "stage j s'" for j
  proof (cases "j = k")
    case False
    then show ?thesis
      using ok others other rest(1) by (intro stage_keep [of j s s']) (auto simp: delay_ok_def)
  qed (use me in simp)
  moreover have "StopDone \<notin> set es"
    using log(2) by fastforce
  moreover have "\<forall>j\<ge>fresh s'. of_key j (history s') = []"
    using ok other rest(2,3) by (auto simp: delay_ok_def)
  ultimately show ?thesis
    using ok wf rest log(1) by (auto simp: delay_ok_def)
qed

section \<open>Every step keeps it\<close>

lemma stageD:
  assumes "delay_ok s"
  shows "map_of (calls s) k = Some x \<Longrightarrow>
      map_of (tasks s) k = None \<and> (\<exists>t d. timed (clock s) t d x \<and> of_key k (history s) = [Asked k t d])"
    and "map_of (tasks s) k = Some (w, y) \<Longrightarrow>
      map_of (calls s) k = None \<and> open_history k w (clock s) y (of_key k (history s))"
proof -
  have "stage k s" using assms by (simp add: delay_ok_def)
  then show "map_of (calls s) k = Some x \<Longrightarrow>
      map_of (tasks s) k = None \<and> (\<exists>t d. timed (clock s) t d x \<and> of_key k (history s) = [Asked k t d])"
    "map_of (tasks s) k = Some (w, y) \<Longrightarrow>
      map_of (calls s) k = None \<and> open_history k w (clock s) y (of_key k (history s))"
    by (auto simp: stage_def Let_def split: option.splits)
qed

lemma key_fresh:
  assumes "delay_ok s" "of_key k (history s) \<noteq> []"
  shows "k < fresh s"
  using assms by (meson delay_ok_def not_less)

lemma fresh_unused:
  assumes "delay_ok s"
  shows "map_of (calls s) (fresh s) = None" "map_of (tasks s) (fresh s) = None" "of_key (fresh s) (history s) = []"
proof -
  show h: "of_key (fresh s) (history s) = []"
    using assms by (simp add: delay_ok_def)
  show "map_of (calls s) (fresh s) = None"
    using stageD(1) [OF assms, of "fresh s"] h by (cases "map_of (calls s) (fresh s)") auto
  show "map_of (tasks s) (fresh s) = None"
    using stageD(2) [OF assms, of "fresh s"] h
    by (cases "map_of (tasks s) (fresh s)") (auto elim!: open_history.elims)
qed

lemma on_metrics_simps [simp]:
  "clock (on_metrics b f s) = clock s" "dead (on_metrics b f s) = dead s" "stopped (on_metrics b f s) = stopped s"
  "calls (on_metrics b f s) = calls s" "tasks (on_metrics b f s) = tasks s"
  "active_tasks (on_metrics b f s) = active_tasks s" "stopping (on_metrics b f s) = stopping s"
  "stopping_late (on_metrics b f s) = stopping_late s" "fresh (on_metrics b f s) = fresh s"
  "history (on_metrics b f s) = history s"
  by (simp_all add: on_metrics_def)

lemma consume_ok:
  assumes ok: "delay_ok s"
  shows "delay_ok (delay_consume c d v s)"
proof -
  note new = fresh_unused [OF ok]
  have wf: "hm_wf (calls s)" "hm_wf (tasks s)" "active_tasks s = length (tasks s)" "always delay_order (history s)"
      "StopDone \<in> set (history s) \<longrightarrow> tasks s = []"
    using ok by (auto simp: delay_ok_def)
  have ord: "always delay_order (history s @ [Asked (fresh s) (clock s) d, e])" if "\<And>l. delay_order l e" for e
    using wf(4) that always_snoc [of delay_order "history s @ [Asked (fresh s) (clock s) d]" e]
    by (simp add: always_snoc delay_order_def)
  have ord1: "always delay_order (history s @ [Asked (fresh s) (clock s) d])"
    using wf(4) by (simp add: always_snoc delay_order_def)
  show ?thesis
  proof (cases "d = 0")
    case True
    then show ?thesis
      using new wf ord [of "Direct (fresh s) (clock s)"]
      by (intro delay_ok_message [OF ok, of "fresh s"])
        (auto simp: delay_consume_def Let_def delay_order_def stage_def closed_history_def)
  next
    case False
    show ?thesis
    proof (cases "delay_prepare c d v s")
      case (Inl e)
      then show ?thesis
        using new wf False ord [of "Rejected (fresh s) e"]
        by (intro delay_ok_message [OF ok, of "fresh s"])
          (auto simp: delay_consume_def Let_def delay_order_def stage_def closed_history_def)
    next
      case (Inr x)
      then have "timed (clock s) (clock s) d x"
        by (auto simp: delay_prepare_def timed_def split: if_splits sum.splits)
      moreover have "fresh s \<notin> fst ` set (calls s)"
        using new(1) by (simp add: map_of_eq_None_iff)
      ultimately show ?thesis
        using new wf False Inr ord1
        by (intro delay_ok_message [OF ok, of "fresh s"])
          (auto simp: delay_consume_def Let_def stage_def map_add_def split: option.splits)
    qed
  qed
qed

lemma lock_ok:
  assumes ok: "delay_ok s" and step: "delay_step (Lock k) s = Some s'"
  shows "delay_ok s'"
proof -
  obtain x where x: "map_of (calls s) k = Some x"
    using step by (auto split: option.splits)
  obtain t d where h: "map_of (tasks s) k = None" "timed (clock s) t d x" "of_key k (history s) = [Asked k t d]"
    using stageD(1) [OF ok x] by blast
  have k: "k < fresh s" using key_fresh [OF ok] h(3) by simp
  have wf: "hm_wf (calls s)" "hm_wf (tasks s)" "active_tasks s = length (tasks s)" "always delay_order (history s)"
      "StopDone \<in> set (history s) \<longrightarrow> stopped s \<and> tasks s = []"
    using ok by (auto simp: delay_ok_def)
  have new: "k \<notin> fst ` set (tasks s)"
    using h(1) by (simp add: map_of_eq_None_iff)
  show ?thesis
  proof (cases "stopped s")
    case True
    then have "s' = s\<lparr>calls := hm_remove k (calls s), history := history s @ [Rejected k (ResourceStopped ''delay'')]\<rparr>"
      using step x by (simp add: delay_admit_def)
    then show ?thesis
      using h wf k hm_wf_remove [OF wf(1)]
      by (intro delay_ok_message [OF ok, of k]) (auto simp: stage_def closed_history_def always_snoc delay_order_def)
  next
    case False
    then show ?thesis
      using h wf k hm_wf_remove [OF wf(1)] step x new
      by (intro delay_ok_message [OF ok, of k])
        (auto simp: delay_admit_def stage_def always_snoc delay_order_def map_add_def split: option.splits)
  qed
qed

text \<open>A callback runs when its time has come or its context is over, so what it emits is not early.\<close>

lemma emission_time:
  assumes "timed now t d x" "run_at x \<le> clock s \<or> ctx_cancelled (d_ctx x) s" "\<not> ctx_cancelled (d_ctx x) s"
  shows "t + d \<le> clock s"
proof -
  note times = delay_times_bounds [where now = t and d = d and limit = "deadline (d_ctx x)" and r = "run_at x" and
      x = "expedited_by_deadline x"]
  have le: "run_at x \<le> clock s" and dt: "delay_times t d (deadline (d_ctx x)) = Inr (run_at x, expedited_by_deadline x)"
    using assms by (auto simp: timed_def)
  show ?thesis
  proof (cases "expedited_by_deadline x")
    case True
    then have "ctx_cancelled (d_ctx x) s"
      using times(3) [OF dt] le by (simp add: is_cancelled_def)
    then show ?thesis using assms(3) by simp
  qed (use times(4) [OF dt] le in simp)
qed

lemma run_callback_ok:
  assumes ok: "delay_ok s" and x: "map_of (tasks s) k = Some (w, x)" "w \<noteq> Executing"
    and due: "run_at x \<le> clock s \<or> ctx_cancelled (d_ctx x) s"
  shows "delay_ok (run_callback k x b s)"
proof -
  obtain t d where h: "map_of (calls s) k = None" "timed (clock s) t d x" "of_key k (history s) = [Asked k t d, Accepted k]"
    using stageD(2) [OF ok x(1)] x(2) by (cases w) auto
  have k: "k < fresh s" using key_fresh [OF ok] h(3) by simp
  have wf: "hm_wf (calls s)" "hm_wf (tasks s)" "active_tasks s = length (tasks s)" "always delay_order (history s)"
      "StopDone \<notin> set (history s)"
    using ok x by (auto simp: delay_ok_def)
  let ?e = "if ctx_cancelled (d_ctx x) s then Skipped k (clock s) else Emitted k (clock s)"
  have "Asked k t d \<in> set (history s)"
    using h(3) of_key_mem [of "Asked k t d" k "history s"] by simp
  then have "delay_order (history s @ [Started k (clock s) b]) ?e"
    using emission_time [OF h(2) due] by (auto simp: delay_order_def)
  then have "always delay_order (history s @ [Started k (clock s) b, ?e])"
    using wf(4) always_snoc [of delay_order "history s @ [Started k (clock s) b]" ?e]
    by (simp add: always_snoc delay_order_def)
  then show ?thesis
    using h k wf x(1) hm_wf_insert [OF wf(2)] hm_len_insert_old [OF x(1)]
    by (intro delay_ok_message [OF ok, of k])
      (auto simp: run_callback_def stage_def callback_events_def)
qed

lemma end_task_ok:
  assumes ok: "delay_ok s" and x: "map_of (tasks s) k = Some (Executing, x)"
  shows "delay_ok (end_task k x s)"
proof -
  have wf: "hm_wf (calls s)" "hm_wf (tasks s)" "active_tasks s = length (tasks s)" "always delay_order (history s)"
      "StopDone \<notin> set (history s)"
    using ok x by (auto simp: delay_ok_def)
  obtain t d l where h: "map_of (calls s) k = None" "callback_events k l" "of_key k (history s) = [Asked k t d, Accepted k] @ l"
    using stageD(2) [OF ok x] by auto
  have "k < fresh s" using key_fresh [OF ok] h(3) by simp
  then show ?thesis
    using h wf hm_wf_remove [OF wf(2)] hm_len_remove [OF wf(2) x]
    by (intro delay_ok_message [OF ok, of k])
      (auto simp: end_task_def stage_def closed_history_def always_snoc delay_order_def)
qed

lemma sleep_ok:
  assumes ok: "delay_ok s" and x: "map_of (tasks s) k = Some (Admitted, x)"
  shows "delay_ok (s\<lparr>tasks := hm_insert k (Sleeping, x) (tasks s)\<rparr>)"
proof -
  have wf: "hm_wf (calls s)" "hm_wf (tasks s)" "active_tasks s = length (tasks s)" "always delay_order (history s)"
      "StopDone \<notin> set (history s)"
    using ok x by (auto simp: delay_ok_def)
  obtain t d where h: "map_of (calls s) k = None" "timed (clock s) t d x" "of_key k (history s) = [Asked k t d, Accepted k]"
    using stageD(2) [OF ok x] by auto
  have "k < fresh s" using key_fresh [OF ok] h(3) by simp
  then show ?thesis
    using h wf hm_wf_insert [OF wf(2)] hm_len_insert_old [OF x]
    by (intro delay_ok_message [OF ok, of k]) (auto simp: stage_def)
qed

lemma stop_returns_ok:
  assumes ok: "delay_ok s" and t: "tasks s = []" and st: "stopped s" and s': "history s' = history s @ [StopDone]"
    "calls s' = calls s" "tasks s' = tasks s" "clock s' = clock s" "fresh s' = fresh s" "active_tasks s' = active_tasks s"
    "stopped s' = stopped s"
  shows "delay_ok s'"
proof -
  have stages: "stage k s" for k using ok by (simp add: delay_ok_def)
  have "Ended k \<in> set (history s)" if "Accepted k \<in> set (history s)" for k
  proof -
    have "Accepted k \<in> set (of_key k (history s))"
      using that by (simp add: of_key_mem)
    then have "Ended k \<in> set (of_key k (history s))"
      using stages [of k] t by (auto simp: stage_def closed_history_def Let_def callback_events_def split: option.splits)
    then show ?thesis by (simp add: of_key_mem)
  qed
  then have "always delay_order (history s')"
    using ok s'(1) by (simp add: always_snoc delay_ok_def delay_order_def)
  moreover have "stage k s'" for k
    using stages [of k] s' by (intro stage_keep [of k s s']) auto
  ultimately show ?thesis
    using ok s' st t by (auto simp: delay_ok_def)
qed

lemma delay_ok_idle:
  assumes "delay_ok s" "calls s' = calls s" "tasks s' = tasks s" "history s' = history s" "clock s \<le> clock s'"
    "fresh s' = fresh s" "active_tasks s' = active_tasks s" "stopped s \<longrightarrow> stopped s'"
    "stopping s' > 0 \<or> stopping_late s' > 0 \<longrightarrow> stopped s'"
  shows "delay_ok s'"
proof -
  have "stage k s'" for k
    using assms by (intro stage_keep [of k s s']) (auto simp: delay_ok_def)
  then show ?thesis using assms by (simp add: delay_ok_def)
qed

lemma drop_call_ok:
  assumes ok: "delay_ok s" and x: "map_of (calls s) k = Some x"
  shows "delay_ok (s\<lparr>calls := hm_remove k (calls s)\<rparr>)"
proof -
  obtain t d where h: "map_of (tasks s) k = None" "of_key k (history s) = [Asked k t d]"
    using stageD(1) [OF ok x] by blast
  have "k < fresh s" using key_fresh [OF ok] h(2) by simp
  then show ?thesis
    using ok h hm_wf_remove [of "calls s" k]
    by (intro delay_ok_message [OF ok, of k]) (auto simp: delay_ok_def stage_def closed_history_def)
qed

lemma delay_step_ok:
  assumes ok: "delay_ok s" and step: "delay_step e s = Some s'"
  shows "delay_ok s'"
proof -
  have st: "stopping s > 0 \<or> stopping_late s > 0 \<longrightarrow> stopped s"
    using ok by (simp add: delay_ok_def)
  show ?thesis
  proof (cases e)
    case (Lock k)
    then show ?thesis using lock_ok [OF ok] step by blast
  next
    case (FirstPoll k)
    then show ?thesis
      using step sleep_ok [OF ok] run_callback_ok [OF ok, of k Admitted]
      by (auto simp: first_check_def split: option.splits prod.splits wait_state.splits if_splits)
  next
    case (TimerFires k)
    then show ?thesis
      using step run_callback_ok [OF ok, of k Sleeping]
      by (auto split: option.splits prod.splits wait_state.splits if_splits)
  next
    case (CancelFires k)
    then show ?thesis
      using step run_callback_ok [OF ok, of k Sleeping]
      by (auto split: option.splits prod.splits wait_state.splits if_splits)
  next
    case (StopReturns late)
    then show ?thesis
      using step st by (intro stop_returns_ok [OF ok]) (auto split: if_splits)
  next
    case (Configure noop)
    then show ?thesis using step st by (intro delay_ok_idle [OF ok]) (auto simp: configure_metrics_def split: if_splits)
  next
    case (Consume c d v)
    then show ?thesis using step consume_ok [OF ok] by auto
  next
    case (DropCall k)
    then show ?thesis using step drop_call_ok [OF ok] by (auto split: if_splits)
  next
    case (CallbackEnds k)
    then show ?thesis using step end_task_ok [OF ok] by (auto split: option.splits prod.splits wait_state.splits)
  qed (use step st in \<open>intro delay_ok_idle [OF ok]; auto split: if_splits\<close>)+
qed

interpretation delays: step_system delay_step delay_ok
  by unfold_locales (rule delay_step_ok)

section \<open>Properties\<close>

lemma delay_run_ok: "run_steps delay_step acts (delay_pool_new now) = Some s \<Longrightarrow> delay_ok s"
  using delays.run_inv delay_pool_new_ok by blast

text \<open>What the history of one message can be, from nothing to the end of its callback.\<close>

definition message_history :: "nat \<Rightarrow> delay_event list \<Rightarrow> bool" where
  "message_history k h \<longleftrightarrow>
     (\<exists>t d n l. (callback_events k l \<and> h = take n ([Asked k t d, Accepted k] @ l @ [Ended k]) \<and> n \<noteq> 3) \<or>
        (\<exists>u. h = [Asked k t d, Direct k u]) \<or> (\<exists>e. h = [Asked k t d, Rejected k e]))"

lemma message_historyI:
  assumes "callback_events k l" "h = take n ([Asked k t d, Accepted k] @ l @ [Ended k])" "n \<noteq> 3"
  shows "message_history k h"
  using assms unfolding message_history_def by blast

lemma some_callback: "callback_events k [Started k 0 False, Skipped k 0]"
  by (auto simp: callback_events_def)

lemma callback_length: "callback_events k l \<Longrightarrow> length l = 2"
  by (auto simp: callback_events_def)

lemma stage_history: "stage k s \<Longrightarrow> message_history k (of_key k (history s))"
proof -
  assume st: "stage k s"
  have "message_history k h" if "closed_history k h" for h
    using that message_historyI [OF some_callback, of h 0] message_historyI [OF some_callback, of h 1]
      message_historyI [of k _ h 5] callback_length
    by (auto simp: closed_history_def message_history_def)
  moreover have "message_history k h" if "open_history k w now x h" for w now and x :: "('a, 'b, 'c) scheduled" and h
    using that message_historyI [OF some_callback, of h 2] message_historyI [of k _ h 4] callback_length
    by (cases w) auto
  moreover have "message_history k [Asked k t d]" for t d
    using message_historyI [OF some_callback, of "[Asked k t d]" 1] by simp
  ultimately show ?thesis
    using st by (auto simp: stage_def Let_def split: option.splits)
qed

text \<open>
  C16. A delayed message has one fate under every interleaving of callers, timers, cancellations and \<open>stop\<close>: it is
  emitted directly, refused once, or accepted, and then its callback starts at most once, and emits or skips it at
  that moment. A message that is emitted has waited at least its delay, also when the deadline of its context woke
  it early. When \<open>stop\<close> returns, every message accepted before or after is done, and the number of active tasks is
  that of the tasks still tracked.
\<close>

theorem delay_pool_messages:
  assumes "run_steps delay_step acts (delay_pool_new now) = Some s"
  shows "message_history k (of_key k (history s)) \<and> active_tasks s = length (tasks s) \<and>
    (history s = before @ Emitted k u # after \<longrightarrow> (\<exists>t d. Asked k t d \<in> set before \<and> t + d \<le> u)) \<and>
    (history s = before @ StopDone # after \<longrightarrow> {j. Accepted j \<in> set (history s)} \<subseteq> {j. Ended j \<in> set before})"
proof -
  have ok: "stage k s" "active_tasks s = length (tasks s)" "always delay_order (history s)"
    using delay_run_ok [OF assms] by (auto simp: delay_ok_def)
  have "Ended j \<in> set before" if h: "history s = before @ StopDone # after" and acc: "Accepted j \<in> set (history s)" for j
  proof -
    have "Accepted j \<notin> set after"
    proof
      assume "Accepted j \<in> set after"
      then obtain l1 l2 where "after = l1 @ Accepted j # l2"
        by (meson split_list)
      then have "delay_order (before @ StopDone # l1) (Accepted j)"
        using always_at [OF ok(3), of "before @ StopDone # l1" "Accepted j" l2] h by simp
      then show False by (simp add: delay_order_def)
    qed
    then show ?thesis
      using always_at [OF ok(3) h] acc h by (auto simp: delay_order_def)
  qed
  moreover have "\<exists>t d. Asked k t d \<in> set before \<and> t + d \<le> u" if "history s = before @ Emitted k u # after"
    using always_at [OF ok(3) that] by (simp add: delay_order_def)
  ultimately show ?thesis
    using stage_history [OF ok(1)] ok(2) by blast
qed

definition demo_delays :: "(unit, unit, string) delay_action list" where
  "demo_delays =
     [Configure False, Consume (context_new 1 ()) 50 ''late'', Consume (with_deadline 2 () 30) 70 ''early'', Lock 0, Lock 1,
      FirstPoll 0, FirstPoll 1, StopCall, Consume (context_new 3 ()) 5 ''refused'', Lock 2, Tick 30, TimerFires 1, CallbackEnds 1,
      Tick 25, StopTimesOut, TimerFires 0, CallbackEnds 0, StopReturns True]"

definition demo_delay_run :: "(unit, unit, string) delay_pool" where
  "demo_delay_run = the (run_steps delay_step demo_delays (delay_pool_new 0))"

lemma demo_delay_history:
  "history demo_delay_run =
     [Asked 0 0 50, Asked 1 0 70, Accepted 0, Accepted 1, Asked 2 0 5, Rejected 2 (ResourceStopped ''delay''),
      Started 1 30 True, Skipped 1 30, Ended 1, Started 0 55 False, Emitted 0 55, Ended 0, StopDone]"
  "run_steps delay_step demo_delays (delay_pool_new 0) \<noteq> None"
  by (simp_all add: demo_delay_run_def demo_delays_def delay_pool_new_def configure_metrics_def delay_consume_def
      delay_prepare_def delay_times_def instant_add_def instant_max_def is_cancelled_def context_new_def with_deadline_def
      delay_admit_def on_metrics_def measured_def first_check_def run_callback_def end_task_def)

theorem delay_pool_messages_witness:
  "message_history 0 (of_key 0 (history demo_delay_run)) \<and> active_tasks demo_delay_run = length (tasks demo_delay_run) \<and>
   (\<exists>t d. Asked 0 t d \<in> set (take 10 (history demo_delay_run)) \<and> t + d \<le> 55)"
proof -
  have run: "run_steps delay_step demo_delays (delay_pool_new 0) = Some demo_delay_run"
    using demo_delay_history(2) by (auto simp: demo_delay_run_def)
  have "history demo_delay_run = take 10 (history demo_delay_run) @ Emitted 0 55 # [Ended 0, StopDone]"
    by (simp add: demo_delay_history(1))
  then show ?thesis
    using delay_pool_messages [OF run, of 0 "take 10 (history demo_delay_run)" 55 "[Ended 0, StopDone]"] by blast
qed

end
