(* ===== verification/Sub_Stream.thy ===== *)
theory Sub_Stream
  imports Stream_Graph Message_Context Step_Systems
begin

text \<open>
  Callable substreams (\<open>src/operators/substream.rs\<close>): a call sends a value into a part of the graph and hands the
  results that come back for it to the caller's collector, until the collector says that it has enough, the
  caller's context is cancelled or the caller goes away. A call object is found through the local value that the
  dispatched context carries, so results belong to the innermost call of their context.

  Calls and deliveries are tasks that interleave. Each of their steps is what happens between two suspension
  points; the gate is held by the delivery whose index it names. What the graph does in between is left open: any
  result may arrive with any context. A collector is called by \<open>Out\<close> and ends with its answer, or is dropped with
  its task.
\<close>

section \<open>Construction\<close>

record substream =
  ss_stream :: stream_addr
  ss_source :: "stream_addr option"
  ss_key :: nat
  ss_service :: int

text \<open>\<open>SubStream::new\<close>; \<open>key\<close> is the identity of the new \<open>ContextKey\<close>.\<close>

definition substream_new :: "stream_config \<Rightarrow> nat \<Rightarrow> ('c, 'v) graph \<Rightarrow> (substream \<times> ('c, 'v) graph) option" where
  "substream_new cfg key g =
     (case stream_new (sc_id cfg) g of
        None \<Rightarrow> None
      | Some (st, g1) \<Rightarrow> Some (\<lparr>ss_stream = st, ss_source = None, ss_key = key, ss_service = id_service cfg\<rparr>, g1))"

text \<open>\<open>Stream::config\<close> panics for a stream the configuration does not know.\<close>

definition stream_service :: "stream_addr \<Rightarrow> ('c, 'v) graph \<Rightarrow> int option" where
  "stream_service st g =
     Option.bind (configured_stream_id (str_id (streams g ! st)))
       (\<lambda>i. map_option (\<lambda>c. id_service (cfg_stream c)) (stream_by_id (config g) i))"

text \<open>\<open>set_source_typed\<close>; \<open>con\<close> is the address of the new \<open>ResultLink\<close>.\<close>

definition set_result_source :: "stream_addr \<Rightarrow> op_addr \<Rightarrow> substream \<Rightarrow> ('c, 'v) graph \<Rightarrow>
    (unit runtime_result \<times> substream \<times> ('c, 'v) graph) option" where
  "set_result_source source con ss g =
     (if ss_source ss \<noteq> None then Some (Inl (SourceAlreadySet (str_name (streams g ! ss_stream ss))), ss, g)
      else
        let bad = Inl (InvalidConfiguration ''SubStream result source must be a different stream in the same service'');
            connected = (case try_set_typed_consumer source con (str_id (streams g ! ss_stream ss)) g of
                (Inl e, g1) \<Rightarrow> (Inl e, ss, g1)
              | (Inr _, g1) \<Rightarrow> (Inr (), ss\<lparr>ss_source := Some source\<rparr>, g1)) in
        if str_id (streams g ! source) = str_id (streams g ! ss_stream ss) then Some (bad, ss, g)
        else case stream_service source g of
          None \<Rightarrow> None
        | Some i \<Rightarrow> Some (if i \<noteq> ss_service ss then (bad, ss, g) else connected))"

definition build_substream :: "substream \<Rightarrow> ('c, 'v) graph \<Rightarrow> unit runtime_result" where
  "build_substream ss g =
     (if downstream (streams g ! ss_stream ss) = None then Inl (ConsumerNotSet (str_name (streams g ! ss_stream ss)))
      else if ss_source ss = None then Inl (InvalidConfiguration ''SubStream result source is missing'')
      else if service_id g \<noteq> None \<and> service_id g \<noteq> Some (ss_service ss)
      then Inl (InvalidConfiguration ''SubStream belongs to a different service'')
      else Inr ())"

section \<open>Calls\<close>

type_synonym 'o call_ctx = "(nat, 'o, nat) message_context"

text \<open>Where the task of a caller and the task of a delivery are.\<close>

datatype caller_pc = Dispatching | Waiting | Closing | Returned | Dropped
datatype delivery_pc = Queued | Checked | Collecting | Over

record 'o call =
  callback :: "'o call_ctx option"
  gate :: "nat option"
  is_done :: bool
  completed :: bool
  call_ctx :: "'o call_ctx"
  caller_at :: caller_pc

record 'p delivery =
  to_call :: nat
  payload :: 'p
  delivery_at :: delivery_pc

datatype 'p call_event =
    Out nat 'p
  | OutEnd nat bool
  | OutAborted nat
  | Return nat "unit runtime_result"
  | Refused runtime_error

record ('o, 'p) calls_state =
  clock :: instant
  dead :: "nat list"
  calls :: "'o call list"
  deliveries :: "'p delivery list"
  log :: "'p call_event list"

abbreviation over :: "'o call_ctx \<Rightarrow> ('o, 'p) calls_state \<Rightarrow> bool" where
  "over c s \<equiv> is_cancelled (\<lambda>t. t \<in> set (dead s)) (clock s) c"

definition set_call :: "nat \<Rightarrow> 'o call \<Rightarrow> ('o, 'p) calls_state \<Rightarrow> ('o, 'p) calls_state" where
  "set_call n c s = s\<lparr>calls := (calls s)[n := c]\<rparr>"

definition set_delivery :: "nat \<Rightarrow> delivery_pc \<Rightarrow> ('o, 'p) calls_state \<Rightarrow> ('o, 'p) calls_state" where
  "set_delivery k pc s = s\<lparr>deliveries := (deliveries s)[k := (deliveries s ! k)\<lparr>delivery_at := pc\<rparr>]\<rparr>"

definition logged :: "'p call_event list \<Rightarrow> ('o, 'p) calls_state \<Rightarrow> ('o, 'p) calls_state" where
  "logged es s = s\<lparr>log := log s @ es\<rparr>"

definition close :: "'o call \<Rightarrow> 'o call" where
  "close c = c\<lparr>is_done := True, callback := None\<rparr>"

text \<open>\<open>consume\<close> up to the emission, whose context carries the new call.\<close>

definition begin_call :: "substream \<Rightarrow> ('c, 'v) graph \<Rightarrow> 'o call_ctx \<Rightarrow> ('o, 'p) calls_state \<Rightarrow>
    'o call_ctx option \<times> ('o, 'p) calls_state" where
  "begin_call ss g c s =
     (case build_substream ss g of
        Inl e \<Rightarrow> (None, logged [Refused e] s)
      | Inr _ \<Rightarrow>
          (if over c s then (None, logged [Refused ContextCancelled] s)
           else
             (Some (with_local_value (ss_key ss) (length (calls s)) c),
              s\<lparr>calls := calls s @ [\<lparr>callback = Some c, gate = None, is_done = False, completed = False,
                call_ctx = c, caller_at = Dispatching\<rparr>]\<rparr>)))"

text \<open>\<open>ResultLink::consume\<close>: a delivery to the call that the context carries, if any.\<close>

definition result_arrives :: "nat \<Rightarrow> 'o call_ctx \<Rightarrow> 'p \<Rightarrow> ('o, 'p) calls_state \<Rightarrow> ('o, 'p) calls_state" where
  "result_arrives key c p s =
     (case local_value key c of
        None \<Rightarrow> s
      | Some n \<Rightarrow> s\<lparr>deliveries := deliveries s @ [\<lparr>to_call = n, payload = p, delivery_at = Queued\<rparr>]\<rparr>)"

text \<open>\<open>deliver\<close>: the gate and the first check; the callback and the second check; the collector's answer.\<close>

definition take_gate :: "nat \<Rightarrow> ('o, 'p) calls_state \<Rightarrow> ('o, 'p) calls_state option" where
  "take_gate k s =
     (let d = deliveries s ! k; n = to_call d; c = calls s ! n in
      if k < length (deliveries s) \<and> delivery_at d = Queued \<and> n < length (calls s) \<and> gate c = None
      then Some (if is_done c then set_delivery k Over s else set_call n (c\<lparr>gate := Some k\<rparr>) (set_delivery k Checked s))
      else None)"

definition fetch_callback :: "nat \<Rightarrow> ('o, 'p) calls_state \<Rightarrow> ('o, 'p) calls_state option" where
  "fetch_callback k s =
     (let d = deliveries s ! k; n = to_call d; c = calls s ! n in
      if k < length (deliveries s) \<and> delivery_at d = Checked
      then Some (case callback c of
          None \<Rightarrow> set_call n (c\<lparr>gate := None\<rparr>) (set_delivery k Over s)
        | Some x \<Rightarrow>
            (if over x s then set_call n (close (c\<lparr>gate := None\<rparr>)) (set_delivery k Over s)
             else logged [Out n (payload d)] (set_delivery k Collecting s)))
      else None)"

definition collector_returns :: "nat \<Rightarrow> bool \<Rightarrow> ('o, 'p) calls_state \<Rightarrow> ('o, 'p) calls_state option" where
  "collector_returns k b s =
     (let d = deliveries s ! k; n = to_call d; c = (calls s ! n)\<lparr>gate := None\<rparr> in
      if k < length (deliveries s) \<and> delivery_at d = Collecting
      then Some (logged [OutEnd n b]
        (set_call n (if b then close (c\<lparr>completed := True\<rparr>) else c) (set_delivery k Over s)))
      else None)"

text \<open>The task of a delivery is dropped: its guard releases the gate.\<close>

definition delivery_dropped :: "nat \<Rightarrow> ('o, 'p) calls_state \<Rightarrow> ('o, 'p) calls_state option" where
  "delivery_dropped k s =
     (let d = deliveries s ! k; n = to_call d; c = calls s ! n in
      if k < length (deliveries s) \<and> delivery_at d \<noteq> Over
      then Some (case delivery_at d of
          Queued \<Rightarrow> set_delivery k Over s
        | Checked \<Rightarrow> set_call n (c\<lparr>gate := None\<rparr>) (set_delivery k Over s)
        | _ \<Rightarrow> logged [OutAborted n] (set_call n (c\<lparr>gate := None\<rparr>) (set_delivery k Over s)))
      else None)"

text \<open>\<open>dispatch\<close> after the emission: wait, then close under the gate and decide.\<close>

definition move_caller :: "nat \<Rightarrow> caller_pc \<Rightarrow> caller_pc \<Rightarrow> bool \<Rightarrow> ('o, 'p) calls_state \<Rightarrow> ('o, 'p) calls_state option" where
  "move_caller n pc pc' guard s =
     (if n < length (calls s) \<and> caller_at (calls s ! n) = pc \<and> guard
      then Some (set_call n ((calls s ! n)\<lparr>caller_at := pc'\<rparr>) s) else None)"

definition caller_returns :: "nat \<Rightarrow> ('o, 'p) calls_state \<Rightarrow> ('o, 'p) calls_state option" where
  "caller_returns n s =
     (let c = calls s ! n in
      if n < length (calls s) \<and> caller_at c = Closing \<and> gate c = None
      then Some (logged [Return n (if completed c then Inr () else Inl ContextCancelled)]
        (set_call n (close (c\<lparr>caller_at := Returned\<rparr>)) s))
      else None)"

text \<open>The caller's future is dropped: \<open>CallGuard\<close> closes the call without waiting for the gate.\<close>

definition caller_dropped :: "nat \<Rightarrow> ('o, 'p) calls_state \<Rightarrow> ('o, 'p) calls_state option" where
  "caller_dropped n s =
     (let c = calls s ! n in
      if n < length (calls s) \<and> caller_at c \<notin> {Returned, Dropped}
      then Some (set_call n (close (c\<lparr>caller_at := Dropped\<rparr>)) s) else None)"

datatype ('o, 'p) call_action =
    Call "'o call_ctx"
  | EmitEnds nat
  | Result "'o call_ctx" 'p
  | TakeGate nat
  | Fetch nat
  | CollectorReturns nat bool
  | DropDelivery nat
  | Wake nat
  | Close nat
  | DropCaller nat
  | Tick duration
  | Cancel "nat list"

fun call_step :: "substream \<Rightarrow> ('c, 'v) graph \<Rightarrow> ('o, 'p) call_action \<Rightarrow> ('o, 'p) calls_state \<Rightarrow> ('o, 'p) calls_state option" where
  "call_step ss g (Call c) s = Some (snd (begin_call ss g c s))"
| "call_step ss g (EmitEnds n) s = move_caller n Dispatching Waiting True s"
| "call_step ss g (Result c p) s = Some (result_arrives (ss_key ss) c p s)"
| "call_step ss g (TakeGate k) s = take_gate k s"
| "call_step ss g (Fetch k) s = fetch_callback k s"
| "call_step ss g (CollectorReturns k b) s = collector_returns k b s"
| "call_step ss g (DropDelivery k) s = delivery_dropped k s"
| "call_step ss g (Wake n) s = move_caller n Waiting Closing (over (call_ctx (calls s ! n)) s \<or> is_done (calls s ! n)) s"
| "call_step ss g (Close n) s = caller_returns n s"
| "call_step ss g (DropCaller n) s = caller_dropped n s"
| "call_step ss g (Tick d) s = Some (s\<lparr>clock := clock s + d\<rparr>)"
| "call_step ss g (Cancel ts) s = Some (s\<lparr>dead := ts @ dead s\<rparr>)"

definition calls_new :: "instant \<Rightarrow> ('o, 'p) calls_state" where
  "calls_new now = \<lparr>clock = now, dead = [], calls = [], deliveries = [], log = []\<rparr>"

section \<open>The history of a call\<close>

fun call_of :: "'p call_event \<Rightarrow> nat option" where
  "call_of (Out n _) = Some n"
| "call_of (OutEnd n _) = Some n"
| "call_of (OutAborted n) = Some n"
| "call_of (Return n _) = Some n"
| "call_of (Refused _) = None"

definition of_call :: "nat \<Rightarrow> 'p call_event list \<Rightarrow> 'p call_event list" where
  "of_call n l = filter (\<lambda>e. call_of e = Some n) l"

lemma of_call_simps [simp]:
  "of_call n [] = []" "of_call n (e # l) = (if call_of e = Some n then e # of_call n l else of_call n l)"
  "of_call n (l @ l') = of_call n l @ of_call n l'"
  by (simp_all add: of_call_def)

text \<open>Calls of the collector one after the other, none of which was enough.\<close>

definition rounds :: "nat \<Rightarrow> ('p \<times> bool) list \<Rightarrow> 'p call_event list" where
  "rounds n qs = concat (map (\<lambda>(p, aborted). [Out n p, if aborted then OutAborted n else OutEnd n False]) qs)"

lemma rounds_snoc: "rounds n (qs @ [(p, b)]) = rounds n qs @ [Out n p, if b then OutAborted n else OutEnd n False]"
  by (simp add: rounds_def)

text \<open>
  The events of a call: rounds, then a last one that was enough or one that is still running, then at most the
  return, which reports what the rounds say.
\<close>

definition call_history :: "nat \<Rightarrow> bool \<Rightarrow> 'p option \<Rightarrow> bool \<Rightarrow> 'p call_event list \<Rightarrow> bool" where
  "call_history n enough running returned h \<longleftrightarrow>
     (\<exists>qs p. h = rounds n qs @
        (if enough then [Out n p, OutEnd n True] else case running of Some x \<Rightarrow> [Out n x] | None \<Rightarrow> []) @
        (if returned then [Return n (if enough then Inr () else Inl ContextCancelled)] else []))"

definition running :: "nat \<Rightarrow> ('o, 'p) calls_state \<Rightarrow> 'p option" where
  "running n s =
     (case gate (calls s ! n) of
        None \<Rightarrow> None
      | Some k \<Rightarrow> if delivery_at (deliveries s ! k) = Collecting then Some (payload (deliveries s ! k)) else None)"

abbreviation inside :: "'p delivery \<Rightarrow> bool" where
  "inside d \<equiv> delivery_at d \<in> {Checked, Collecting}"

definition call_ok :: "nat \<Rightarrow> ('o, 'p) calls_state \<Rightarrow> bool" where
  "call_ok n s \<longleftrightarrow>
     (let c = calls s ! n in
      call_history n (completed c) (running n s) (caller_at c = Returned) (of_call n (log s)) \<and>
      (is_done c \<longleftrightarrow> callback c = None) \<and> (caller_at c \<in> {Returned, Dropped} \<or> completed c \<longrightarrow> is_done c) \<and>
      (caller_at c = Returned \<or> completed c \<longrightarrow> gate c = None) \<and>
      (\<forall>k. gate c = Some k \<longrightarrow> k < length (deliveries s) \<and> to_call (deliveries s ! k) = n \<and> inside (deliveries s ! k)))"

definition calls_ok :: "('o, 'p) calls_state \<Rightarrow> bool" where
  "calls_ok s \<longleftrightarrow>
     (\<forall>n<length (calls s). call_ok n s) \<and>
     (\<forall>k<length (deliveries s). inside (deliveries s ! k) \<longrightarrow>
        to_call (deliveries s ! k) < length (calls s) \<and> gate (calls s ! to_call (deliveries s ! k)) = Some k) \<and>
     (\<forall>n\<ge>length (calls s). of_call n (log s) = [])"

lemma calls_new_ok: "calls_ok (calls_new now)"
  by (simp add: calls_ok_def calls_new_def)

text \<open>A step that concerns one call, and at most one of its deliveries.\<close>

lemma calls_ok_one:
  assumes ok: "calls_ok s" and n: "n < length (calls s)"
    and s': "calls s' = (calls s)[n := c']" "deliveries s' = (deliveries s)[k := d']" "log s' = log s @ es"
    and d': "k < length (deliveries s) \<Longrightarrow> to_call d' = n \<and> to_call (deliveries s ! k) = n \<and> (inside d' \<longrightarrow> gate c' = Some k)"
    and g: "gate c' = gate (calls s ! n) \<or> k < length (deliveries s) \<and> (gate (calls s ! n) = None \<or> gate (calls s ! n) = Some k)"
    and es: "\<And>e. e \<in> set es \<Longrightarrow> call_of e = Some n" and me: "call_ok n s'"
  shows "calls_ok s'"
proof -
  have others: "call_ok m s'" if "m < length (calls s)" "m \<noteq> n" for m
  proof -
    have "call_ok m s" using ok that by (simp add: calls_ok_def)
    moreover have "of_call m (log s') = of_call m (log s)"
      using es that by (auto simp: s' of_call_def filter_empty_conv)
    moreover have "deliveries s' ! j = deliveries s ! j" if "gate (calls s ! m) = Some j" for j
    proof -
      have "j < length (deliveries s)" "to_call (deliveries s ! j) = m"
        using \<open>call_ok m s\<close> that by (auto simp: call_ok_def Let_def)
      then show ?thesis
        using d' \<open>m \<noteq> n\<close> s'(2) by (cases "j = k") auto
    qed
    ultimately show ?thesis
      using that s' by (auto simp: call_ok_def running_def Let_def split: option.splits)
  qed
  have "to_call (deliveries s' ! j) < length (calls s') \<and> gate (calls s' ! to_call (deliveries s' ! j)) = Some j"
    if j: "j < length (deliveries s')" "inside (deliveries s' ! j)" for j
  proof (cases "j = k")
    case True
    then show ?thesis using j d' n s' by auto
  next
    case False
    then have same: "deliveries s' ! j = deliveries s ! j" using s'(2) by simp
    then have "to_call (deliveries s ! j) < length (calls s)" "gate (calls s ! to_call (deliveries s ! j)) = Some j"
      using ok j s'(2) by (auto simp: calls_ok_def)
    then show ?thesis
      using same False g s'(1) by (cases "to_call (deliveries s ! j) = n") auto
  qed
  moreover have "of_call m (log s') = []" if "m \<ge> length (calls s')" for m
    using ok that es n by (auto simp: calls_ok_def s' of_call_def filter_empty_conv)
  ultimately show ?thesis
    using others me s'(1) by (auto simp: calls_ok_def)
qed

lemma state_simps [simp]:
  "calls (set_call n c s) = (calls s)[n := c]" "deliveries (set_call n c s) = deliveries s" "log (set_call n c s) = log s"
  "calls (set_delivery k pc s) = calls s" "log (set_delivery k pc s) = log s"
  "deliveries (set_delivery k pc s) = (deliveries s)[k := (deliveries s ! k)\<lparr>delivery_at := pc\<rparr>]"
  "calls (logged es s) = calls s" "deliveries (logged es s) = deliveries s" "log (logged es s) = log s @ es"
  by (simp_all add: set_call_def set_delivery_def logged_def)

lemma close_simps [simp]:
  "is_done (close c)" "callback (close c) = None" "gate (close c) = gate c" "completed (close c) = completed c"
  "caller_at (close c) = caller_at c"
  by (simp_all add: close_def)

lemma gate_holder:
  assumes "calls_ok s" "k < length (deliveries s)" "inside (deliveries s ! k)"
  shows "to_call (deliveries s ! k) < length (calls s)" "gate (calls s ! to_call (deliveries s ! k)) = Some k"
    "call_ok (to_call (deliveries s ! k)) s"
  using assms by (auto simp: calls_ok_def)

lemma call_history_start: "call_history n False None False h \<Longrightarrow> call_history n False (Some p) False (h @ [Out n p])"
  by (auto simp: call_history_def)

lemma call_history_end:
  assumes "call_history n False (Some p) False h"
  shows "call_history n True None False (h @ [OutEnd n True])" "call_history n False None False (h @ [OutEnd n False])"
    "call_history n False None False (h @ [OutAborted n])"
proof -
  obtain qs where h: "h = rounds n qs @ [Out n p]"
    using assms by (auto simp: call_history_def)
  then show "call_history n True None False (h @ [OutEnd n True])"
    by (auto simp: call_history_def)
  have "h @ [OutEnd n False] = rounds n (qs @ [(p, False)])" "h @ [OutAborted n] = rounds n (qs @ [(p, True)])"
    using h by (simp_all add: rounds_snoc)
  then show "call_history n False None False (h @ [OutEnd n False])" "call_history n False None False (h @ [OutAborted n])"
    by (auto simp: call_history_def)
qed

lemma call_history_return:
  "call_history n b None False h \<Longrightarrow>
     call_history n b None True (h @ [Return n (if b then Inr () else Inl ContextCancelled)])"
  by (auto simp: call_history_def)

section \<open>Every step keeps it\<close>

lemma call_okD:
  assumes "call_ok n s"
  shows "call_history n (completed (calls s ! n)) (running n s) (caller_at (calls s ! n) = Returned) (of_call n (log s))"
    "is_done (calls s ! n) \<longleftrightarrow> callback (calls s ! n) = None"
    "caller_at (calls s ! n) = Returned \<or> caller_at (calls s ! n) = Dropped \<or> completed (calls s ! n) \<Longrightarrow> is_done (calls s ! n)"
    "caller_at (calls s ! n) = Returned \<or> completed (calls s ! n) \<Longrightarrow> gate (calls s ! n) = None"
    "gate (calls s ! n) = Some k \<Longrightarrow> k < length (deliveries s) \<and> to_call (deliveries s ! k) = n \<and> inside (deliveries s ! k)"
  using assms by (auto simp: call_ok_def Let_def)

lemma calls_ok_same:
  assumes "calls_ok s" "calls s' = calls s" "deliveries s' = deliveries s @ ds" "\<And>d. d \<in> set ds \<Longrightarrow> delivery_at d = Queued"
    "log s' = log s @ es" "\<And>e. e \<in> set es \<Longrightarrow> call_of e = None"
  shows "calls_ok s'"
proof -
  have log: "of_call n (log s') = of_call n (log s)" for n
    using assms(5,6) by (auto simp: of_call_def filter_empty_conv)
  have "call_ok n s'" if "n < length (calls s)" for n
  proof -
    have c: "call_ok n s" using assms(1) that by (simp add: calls_ok_def)
    then have "running n s' = running n s"
      using call_okD(5) [OF c] assms(2,3) by (auto simp: running_def nth_append split: option.splits)
    then show ?thesis
      using c call_okD(5) [OF c] assms(2,3) log by (auto simp: call_ok_def Let_def nth_append)
  qed
  moreover have "\<not> inside (deliveries s' ! k)" if "length (deliveries s) \<le> k" "k < length (deliveries s')" for k
    using that assms(3,4) nth_mem [of "k - length (deliveries s)" ds] by (auto simp: nth_append)
  ultimately show ?thesis
    using assms(1,2,3) log by (auto simp: calls_ok_def nth_append)
qed

lemma begin_call_ok:
  assumes ok: "calls_ok s"
  shows "calls_ok (snd (begin_call ss g c s))"
proof -
  have refused: "calls_ok (logged [Refused e] s)" for e
    by (rule calls_ok_same [OF ok, where ds = "[]" and es = "[Refused e]"]) auto
  let ?c = "\<lparr>callback = Some c, gate = None, is_done = False, completed = False, call_ctx = c, caller_at = Dispatching\<rparr>"
  let ?s = "s\<lparr>calls := calls s @ [?c]\<rparr>"
  have "call_ok n ?s" if "n < length (calls s)" for n
  proof -
    have "call_ok n s" "running n ?s = running n s"
      using ok that by (simp_all add: calls_ok_def running_def nth_append split: option.split)
    then show ?thesis using that by (auto simp: call_ok_def nth_append Let_def)
  qed
  moreover have "call_ok (length (calls s)) ?s"
  proof -
    have "call_history (length (calls s)) False None False []"
      by (auto simp: call_history_def rounds_def intro!: exI [of _ "[]"])
    then show ?thesis
      using ok by (simp add: calls_ok_def call_ok_def running_def Let_def)
  qed
  moreover have "to_call (deliveries s ! k) < length (calls s) \<and> gate (calls s ! to_call (deliveries s ! k)) = Some k"
    if "k < length (deliveries s)" "inside (deliveries s ! k)" for k
    using gate_holder [OF ok that] by simp
  ultimately have "calls_ok ?s"
    using ok unfolding calls_ok_def by (auto simp: less_Suc_eq nth_append)
  then show ?thesis
    using refused by (simp add: begin_call_def split: sum.splits)
qed

lemma take_gate_ok:
  assumes ok: "calls_ok s" and step: "take_gate k s = Some s'"
  shows "calls_ok s'"
proof -
  let ?n = "to_call (deliveries s ! k)"
  have k: "k < length (deliveries s)" "delivery_at (deliveries s ! k) = Queued" "?n < length (calls s)" "gate (calls s ! ?n) = None"
    using step by (auto simp: take_gate_def Let_def split: if_splits)
  have c: "call_ok ?n s" using ok k by (simp add: calls_ok_def)
  note cd = call_okD [OF c]
  show ?thesis
  proof (cases "is_done (calls s ! ?n)")
    case True
    then have s': "s' = set_delivery k Over s" using step k by (simp add: take_gate_def Let_def)
    have "running ?n s' = running ?n s" using k by (simp add: running_def s')
    then have "call_ok ?n s'" using c k by (auto simp: call_ok_def s' Let_def)
    then show ?thesis
      using k s' by (intro calls_ok_one [OF ok k(3), of s' "calls s ! ?n" k _ "[]"]) auto
  next
    case False
    then have s': "s' = set_call ?n ((calls s ! ?n)\<lparr>gate := Some k\<rparr>) (set_delivery k Checked s)"
      using step k by (simp add: take_gate_def Let_def)
    have r: "running ?n s' = None" "running ?n s = None" using k by (simp_all add: running_def s')
    have "\<not> completed (calls s ! ?n)" "caller_at (calls s ! ?n) \<noteq> Returned" "caller_at (calls s ! ?n) \<noteq> Dropped"
      using False cd(3) by auto
    then have "call_ok ?n s'" using c k r False by (simp add: call_ok_def s' Let_def)
    then show ?thesis
      using k s' by (intro calls_ok_one [OF ok k(3), of s' _ k _ "[]"]) auto
  qed
qed

text \<open>The delivery that holds the gate ends.\<close>

lemma leave_gate_ok:
  assumes ok: "calls_ok s" and k: "k < length (deliveries s)" "inside (deliveries s ! k)" "n = to_call (deliveries s ! k)"
    and s': "calls s' = (calls s)[n := c]" "deliveries s' = (deliveries s)[k := (deliveries s ! k)\<lparr>delivery_at := Over\<rparr>]"
      "log s' = log s @ es" "\<And>e. e \<in> set es \<Longrightarrow> call_of e = Some n"
    and c: "gate c = None" "is_done c \<longleftrightarrow> callback c = None"
      "caller_at c = Returned \<or> caller_at c = Dropped \<or> completed c \<longrightarrow> is_done c"
      "call_history n (completed c) None (caller_at c = Returned) (of_call n (log s) @ of_call n es)"
  shows "calls_ok s'"
proof (rule calls_ok_one [OF ok _ s'(1,2,3) _ _ s'(4)])
  have n: "n < length (calls s)" "gate (calls s ! n) = Some k"
    using gate_holder [OF ok k(1,2)] k(3) by simp_all
  then show "n < length (calls s)" by simp
  show "to_call ((deliveries s ! k)\<lparr>delivery_at := Over\<rparr>) = n \<and> to_call (deliveries s ! k) = n \<and>
      (inside ((deliveries s ! k)\<lparr>delivery_at := Over\<rparr>) \<longrightarrow> gate c = Some k)"
    using k(3) by simp
  show "gate c = gate (calls s ! n) \<or> k < length (deliveries s) \<and> (gate (calls s ! n) = None \<or> gate (calls s ! n) = Some k)"
    using n k(1) by simp
  have "running n s' = None"
    using n(1) c(1) s'(1) by (simp add: running_def)
  then show "call_ok n s'"
    using n(1) c s' by (auto simp: call_ok_def Let_def)
qed

lemma fetch_callback_ok:
  assumes ok: "calls_ok s" and step: "fetch_callback k s = Some s'"
  shows "calls_ok s'"
proof -
  define n where "n = to_call (deliveries s ! k)"
  let ?c = "(calls s ! n)\<lparr>gate := None\<rparr>" and ?p = "payload (deliveries s ! k)"
  have k: "k < length (deliveries s)" "delivery_at (deliveries s ! k) = Checked"
    using step by (auto simp: fetch_callback_def Let_def split: if_splits)
  have n: "n < length (calls s)" "gate (calls s ! n) = Some k" "call_ok n s"
    using gate_holder [OF ok k(1)] k(2) by (simp_all add: n_def)
  note cd = call_okD [OF n(3)]
  have live: "\<not> completed (calls s ! n)" "caller_at (calls s ! n) \<noteq> Returned" and r: "running n s = None"
    using cd(4) n(2) k(2) by (auto simp: running_def)
  have h: "call_history n False None False (of_call n (log s))"
    using cd(1) live r by simp
  consider (none) "s' = set_call n ?c (set_delivery k Over s)"
    | (over) "s' = set_call n (close ?c) (set_delivery k Over s)"
    | (out) x where "callback (calls s ! n) = Some x" "s' = logged [Out n ?p] (set_delivery k Collecting s)"
    using step k by (cases "callback (calls s ! n)") (auto simp: fetch_callback_def Let_def n_def split: if_splits)
  then show ?thesis
  proof cases
    case none
    show ?thesis
      by (rule leave_gate_ok [OF ok k(1) _ n_def, of s' ?c "[]"]) (use none k live h cd(2,3) in simp_all)
  next
    case over
    show ?thesis
      by (rule leave_gate_ok [OF ok k(1) _ n_def, of s' "close ?c" "[]"]) (use over k live h in simp_all)
  next
    case out
    have "\<not> is_done (calls s ! n)" using cd(2) out by simp
    moreover have "running n s' = Some ?p" using n k out by (simp add: running_def)
    ultimately have me: "call_ok n s'"
      using call_history_start [OF h, of ?p] n k live out(2) cd(2,3) by (simp add: call_ok_def Let_def n_def)
    show ?thesis
    proof (rule calls_ok_one [OF ok n(1), of s' "calls s ! n" k "(deliveries s ! k)\<lparr>delivery_at := Collecting\<rparr>" "[Out n ?p]"])
      show "calls s' = (calls s)[n := calls s ! n]"
        "deliveries s' = (deliveries s)[k := (deliveries s ! k)\<lparr>delivery_at := Collecting\<rparr>]" "log s' = log s @ [Out n ?p]"
        using out(2) by simp_all
    qed (use n me in \<open>simp_all add: n_def\<close>)
  qed
qed

lemma collecting:
  assumes ok: "calls_ok s" and k: "k < length (deliveries s)" "delivery_at (deliveries s ! k) = Collecting"
    and n_def: "n = to_call (deliveries s ! k)"
  shows "call_ok n s" "\<not> completed (calls s ! n)" "caller_at (calls s ! n) \<noteq> Returned"
    "call_history n False (Some (payload (deliveries s ! k))) False (of_call n (log s))"
proof -
  show c: "call_ok n s"
    using gate_holder [OF ok k(1)] k(2) by (simp add: n_def)
  have n: "gate (calls s ! n) = Some k"
    using gate_holder [OF ok k(1)] k(2) by (simp add: n_def)
  note cd = call_okD [OF c]
  show live: "\<not> completed (calls s ! n)" "caller_at (calls s ! n) \<noteq> Returned"
    using cd(4) n by auto
  have "running n s = Some (payload (deliveries s ! k))" using n k by (simp add: running_def)
  then show "call_history n False (Some (payload (deliveries s ! k))) False (of_call n (log s))"
    using cd(1) live by simp
qed

lemma collector_returns_ok:
  assumes ok: "calls_ok s" and step: "collector_returns k b s = Some s'"
  shows "calls_ok s'"
proof -
  define n where "n = to_call (deliveries s ! k)"
  let ?c = "(calls s ! n)\<lparr>gate := None\<rparr>"
  have k: "k < length (deliveries s)" "delivery_at (deliveries s ! k) = Collecting"
    and s': "s' = logged [OutEnd n b] (set_call n (if b then close (?c\<lparr>completed := True\<rparr>) else ?c) (set_delivery k Over s))"
    using step by (auto simp: collector_returns_def Let_def n_def split: if_splits)
  note c = collecting [OF ok k n_def]
  note cd = call_okD [OF c(1)]
  show ?thesis
  proof (cases b)
    case True
    show ?thesis
      by (rule leave_gate_ok [OF ok k(1) _ n_def, of s' "close (?c\<lparr>completed := True\<rparr>)" "[OutEnd n True]"])
        (use True s' k c call_history_end(1) [OF c(4)] in simp_all)
  next
    case False
    show ?thesis
      by (rule leave_gate_ok [OF ok k(1) _ n_def, of s' ?c "[OutEnd n False]"])
        (use False s' k c cd(2,3) call_history_end(2) [OF c(4)] in simp_all)
  qed
qed

lemma queued_dropped_ok:
  assumes ok: "calls_ok s" and k: "k < length (deliveries s)" "delivery_at (deliveries s ! k) = Queued"
  shows "calls_ok (set_delivery k Over s)"
proof -
  let ?s = "set_delivery k Over s"
  have "call_ok n ?s" if "n < length (calls s)" for n
  proof -
    have c: "call_ok n s" using ok that by (simp add: calls_ok_def)
    have keep: "deliveries ?s ! j = deliveries s ! j" if "gate (calls s ! n) = Some j" for j
      using call_okD(5) [OF c that] k by (cases "j = k") auto
    then have "running n ?s = running n s"
      by (simp add: running_def split: option.split)
    then show ?thesis
      using c keep by (auto simp: call_ok_def Let_def)
  qed
  then show ?thesis
    using ok k by (auto simp: calls_ok_def nth_list_update)
qed

lemma delivery_dropped_ok:
  assumes ok: "calls_ok s" and step: "delivery_dropped k s = Some s'"
  shows "calls_ok s'"
proof -
  define n where "n = to_call (deliveries s ! k)"
  let ?c = "(calls s ! n)\<lparr>gate := None\<rparr>"
  have k: "k < length (deliveries s)" "delivery_at (deliveries s ! k) \<noteq> Over"
    using step by (auto simp: delivery_dropped_def Let_def split: if_splits)
  show ?thesis
  proof (cases "delivery_at (deliveries s ! k)")
    case Queued
    then show ?thesis
      using step k queued_dropped_ok [OF ok k(1)] by (simp add: delivery_dropped_def Let_def)
  next
    case Checked
    then have n: "gate (calls s ! n) = Some k" "call_ok n s"
      using gate_holder [OF ok k(1)] by (simp_all add: n_def)
    note cd = call_okD [OF n(2)]
    have "running n s = None" "\<not> completed (calls s ! n)" "caller_at (calls s ! n) \<noteq> Returned"
      using n(1) Checked cd(4) by (auto simp: running_def)
    moreover have "s' = set_call n ?c (set_delivery k Over s)"
      using step k Checked by (simp add: delivery_dropped_def Let_def n_def)
    ultimately show ?thesis
      using Checked cd(1,2,3) by (intro leave_gate_ok [OF ok k(1) _ n_def, of s' ?c "[]"]) simp_all
  next
    case Collecting
    note c = collecting [OF ok k(1) Collecting n_def]
    have "s' = logged [OutAborted n] (set_call n ?c (set_delivery k Over s))"
      using step k Collecting by (simp add: delivery_dropped_def Let_def n_def)
    then show ?thesis
      using Collecting c call_okD(2,3) [OF c(1)] call_history_end(3) [OF c(4)]
      by (intro leave_gate_ok [OF ok k(1) _ n_def, of s' ?c "[OutAborted n]"]) simp_all
  qed (use k in simp)
qed

text \<open>The caller moves; no delivery changes.\<close>

lemma caller_step_ok:
  assumes ok: "calls_ok s" and n: "n < length (calls s)"
    and s': "calls s' = (calls s)[n := c]" "deliveries s' = deliveries s" "log s' = log s @ es"
      "\<And>e. e \<in> set es \<Longrightarrow> call_of e = Some n"
    and c: "gate c = gate (calls s ! n)" "is_done c \<longleftrightarrow> callback c = None" "completed c = completed (calls s ! n)"
      "caller_at c = Returned \<or> caller_at c = Dropped \<or> completed c \<longrightarrow> is_done c" "caller_at c = Returned \<longrightarrow> gate c = None"
      "call_history n (completed c) (running n s) (caller_at c = Returned) (of_call n (log s) @ of_call n es)"
  shows "calls_ok s'"
proof (rule calls_ok_one [OF ok n s'(1) _ s'(3) _ _ s'(4), of "length (deliveries s)" undefined])
  have ok_n: "call_ok n s" using ok n by (simp add: calls_ok_def)
  have "running n s' = running n s"
    using n c(1) s'(1,2) by (simp add: running_def split: option.split)
  then show "call_ok n s'"
    using n c s' call_okD(4,5) [OF ok_n] by (auto simp: call_ok_def Let_def)
qed (use c(1) s'(2) in \<open>simp_all add: list_update_beyond\<close>)

lemma move_caller_ok:
  assumes ok: "calls_ok s" and step: "move_caller n pc pc' b s = Some s'"
    and pc: "pc \<notin> {Returned, Dropped}" "pc' \<notin> {Returned, Dropped}"
  shows "calls_ok s'"
proof -
  have n: "n < length (calls s)" "caller_at (calls s ! n) = pc" "s' = set_call n ((calls s ! n)\<lparr>caller_at := pc'\<rparr>) s"
    using step by (auto simp: move_caller_def split: if_splits)
  have "call_ok n s" using ok n by (simp add: calls_ok_def)
  note cd = call_okD [OF this]
  show ?thesis
    by (rule caller_step_ok [OF ok n(1), of s' "(calls s ! n)\<lparr>caller_at := pc'\<rparr>" "[]"]) (use n pc cd in simp_all)
qed

lemma caller_returns_ok:
  assumes ok: "calls_ok s" and step: "caller_returns n s = Some s'"
  shows "calls_ok s'"
proof -
  let ?c = "close ((calls s ! n)\<lparr>caller_at := Returned\<rparr>)"
  let ?e = "Return n (if completed (calls s ! n) then Inr () else Inl ContextCancelled)"
  have n: "n < length (calls s)" "caller_at (calls s ! n) = Closing" "gate (calls s ! n) = None" "s' = logged [?e] (set_call n ?c s)"
    using step by (auto simp: caller_returns_def Let_def split: if_splits)
  have "call_ok n s" using ok n by (simp add: calls_ok_def)
  note cd = call_okD [OF this]
  have r: "running n s = None" using n(3) by (simp add: running_def)
  have "call_history n (completed (calls s ! n)) None True (of_call n (log s) @ [?e])"
    using cd(1) n(2) r call_history_return [of n "completed (calls s ! n)" "of_call n (log s)"] by simp
  then show ?thesis
    using n r by (intro caller_step_ok [OF ok n(1), of s' ?c "[?e]"]) simp_all
qed

lemma caller_dropped_ok:
  assumes ok: "calls_ok s" and step: "caller_dropped n s = Some s'"
  shows "calls_ok s'"
proof -
  let ?c = "close ((calls s ! n)\<lparr>caller_at := Dropped\<rparr>)"
  have n: "n < length (calls s)" "caller_at (calls s ! n) \<noteq> Returned" "s' = set_call n ?c s"
    using step by (auto simp: caller_dropped_def Let_def split: if_splits)
  have "call_ok n s" using ok n by (simp add: calls_ok_def)
  note cd = call_okD [OF this]
  show ?thesis
    by (rule caller_step_ok [OF ok n(1), of s' ?c "[]"]) (use n cd(1) in simp_all)
qed

lemma call_step_ok:
  assumes ok: "calls_ok s" and step: "call_step ss g e s = Some s'"
  shows "calls_ok s'"
proof (cases e)
  case (Call c)
  then show ?thesis using step begin_call_ok [OF ok] by auto
next
  case (EmitEnds n)
  then show ?thesis using step move_caller_ok [OF ok, of n Dispatching Waiting True s'] by simp
next
  case (Result c p)
  then show ?thesis
    using step ok
    by (cases "local_value (ss_key ss) c") (auto simp: result_arrives_def intro!: calls_ok_same [OF ok, where es = "[]"])
next
  case (TakeGate k)
  then show ?thesis using step take_gate_ok [OF ok] by simp
next
  case (Fetch k)
  then show ?thesis using step fetch_callback_ok [OF ok] by simp
next
  case (CollectorReturns k b)
  then show ?thesis using step collector_returns_ok [OF ok] by simp
next
  case (DropDelivery k)
  then show ?thesis using step delivery_dropped_ok [OF ok] by simp
next
  case (Wake n)
  then show ?thesis using step move_caller_ok [OF ok, of n Waiting Closing _ s'] by simp
next
  case (Close n)
  then show ?thesis using step caller_returns_ok [OF ok] by simp
next
  case (DropCaller n)
  then show ?thesis using step caller_dropped_ok [OF ok] by simp
next
  case (Tick d)
  then show ?thesis using step by (auto intro!: calls_ok_same [OF ok, where ds = "[]" and es = "[]"])
next
  case (Cancel ts)
  then show ?thesis using step by (auto intro!: calls_ok_same [OF ok, where ds = "[]" and es = "[]"])
qed

interpretation subcalls: step_system "call_step ss g" calls_ok for ss g
  by unfold_locales (rule call_step_ok)

section \<open>Properties\<close>

text \<open>
  C13. The protocol of a call of a substream, under every interleaving of results, cancellations and dropped tasks:
  its collector is called once at a time; as soon as the collector says that it has enough, it is never called
  again; after the call has returned the collector is neither running nor called again; and the call returns \<open>Ok\<close>
  exactly when the collector had enough, and \<open>ContextCancelled\<close> otherwise.
\<close>

theorem substream_call_protocol:
  assumes "run_steps (call_step ss g) acts (calls_new now) = Some s" "n < length (calls s)"
  shows "\<exists>qs last ret. of_call n (log s) = rounds n qs @ last @ ret \<and>
    (last = [] \<or> (\<exists>p. last = [Out n p] \<and> ret = []) \<or> (\<exists>p. last = [Out n p, OutEnd n True])) \<and>
    (ret = [] \<or> ret = [Return n (if last = [] then Inl ContextCancelled else Inr ())])"
proof -
  have "calls_ok s"
    using subcalls.run_inv [OF calls_new_ok assms(1)] .
  then have c: "call_ok n s" using assms(2) by (simp add: calls_ok_def)
  let ?c = "calls s ! n"
  obtain qs p where h: "of_call n (log s) = rounds n qs @
      (if completed ?c then [Out n p, OutEnd n True] else case running n s of Some x \<Rightarrow> [Out n x] | None \<Rightarrow> []) @
      (if caller_at ?c = Returned then [Return n (if completed ?c then Inr () else Inl ContextCancelled)] else [])"
    (is "_ = _ @ ?last @ ?ret")
    using call_okD(1) [OF c] by (auto simp: call_history_def)
  have "running n s = None" if "caller_at ?c = Returned"
    using call_okD(4) [OF c] that by (simp add: running_def)
  then have "(?last = [] \<or> (\<exists>p. ?last = [Out n p] \<and> ?ret = []) \<or> (\<exists>p. ?last = [Out n p, OutEnd n True])) \<and>
      (?ret = [] \<or> ?ret = [Return n (if ?last = [] then Inl ContextCancelled else Inr ())])"
    by (auto split: option.splits)
  with h show ?thesis by blast
qed

definition demo_substream :: substream where
  "demo_substream = \<lparr>ss_stream = 0, ss_source = Some 1, ss_key = 5, ss_service = 1\<rparr>"

definition demo_body :: "(unit, nat) graph" where
  "demo_body = (graph_new None (with_default_call_semantics FunctionCall))
     \<lparr>streams := [\<lparr>str_id = 1, str_name = ''sub'',
        downstream = Some \<lparr>consumer = 0, caller = CallDirect False, lfrom = [], lto = [], calls = 0\<rparr>\<rparr>]\<rparr>"

definition demo_calls :: "(unit, nat) call_action list" where
  "demo_calls =
     (let c = context_new 1 (); d = with_local_value 5 0 c in
      [Call c, Result d 10, Result d 20, Result d 30, TakeGate 0, Fetch 0, EmitEnds 0, CollectorReturns 0 False,
       TakeGate 2, Fetch 2, CollectorReturns 2 True, Wake 0, Close 0, TakeGate 1])"

lemma demo_calls_run:
  "map_option log (run_steps (call_step demo_substream demo_body) demo_calls (calls_new 0)) =
     Some [Out 0 10, OutEnd 0 False, Out 0 30, OutEnd 0 True, Return 0 (Inr ())]"
  "map_option (length \<circ> calls) (run_steps (call_step demo_substream demo_body) demo_calls (calls_new 0)) = Some 1"
  by code_simp+

theorem substream_call_protocol_witness:
  "\<exists>qs last ret. [Out 0 (10 :: nat), OutEnd 0 False, Out 0 30, OutEnd 0 True, Return 0 (Inr ())] = rounds 0 qs @ last @ ret \<and>
    (last = [] \<or> (\<exists>p. last = [Out 0 p] \<and> ret = []) \<or> (\<exists>p. last = [Out 0 p, OutEnd 0 True])) \<and>
    (ret = [] \<or> ret = [Return 0 (if last = [] then Inl ContextCancelled else Inr ())])"
proof -
  obtain s where s: "run_steps (call_step demo_substream demo_body) demo_calls (calls_new 0) = Some s"
      "log s = [Out 0 10, OutEnd 0 False, Out 0 30, OutEnd 0 True, Return 0 (Inr ())]" "length (calls s) = 1"
    using demo_calls_run by auto
  have "of_call 0 (log s) = [Out 0 10, OutEnd 0 False, Out 0 30, OutEnd 0 True, Return 0 (Inr ())]" "0 < length (calls s)"
    using s(2,3) by simp_all
  then show ?thesis
    using substream_call_protocol [OF s(1), of 0] by (simp only:)
qed

end
