(* ===== verification/Kafka_Source.thy ===== *)
theory Kafka_Source
  imports Step_Systems "HOL-Library.Sublist"
begin

text \<open>
  The Kafka source: assignment of partitions from a checkpoint (\<open>src/datasource/kafka/checkpoint.rs\<close>) and the
  task of an endpoint that receives messages, hands them to one lane per partition and generation and lets the
  handler acknowledge them (\<open>RdkafkaKafkaEndpoint\<close> in \<open>src/datasource/kafka/rdkafka.rs\<close>).

  The client library is not part of the source: what it answers to a call is part of the action that makes the
  call. A context is the number of its token; it is over when its token was cancelled or when the context of the
  endpoint, from which it derives, is over. The rebalance callback, the receiving task, the lanes, the handlers
  and the callers of \<open>stop\<close> interleave; the callback is cut where it takes the lock of the assignments.
\<close>

section \<open>State\<close>

text \<open>A message of partition \<open>m_partition\<close> received under the assignment of generation \<open>m_generation\<close>.\<close>

record 'b message =
  m_topic :: string
  m_partition :: int
  m_offset :: int
  m_generation :: "64 word"
  m_body :: 'b

text \<open>Calls of the client library that change the assignment; an item is a topic, a partition and an offset.\<close>

type_synonym item = "string \<times> int \<times> int option"

datatype native_call = AssignCall "item list" | IncrementalAssign "item list" | Unassign | IncrementalUnassign "int list"

datatype handler_error = Text string | Runtime runtime_error

datatype ack = Commit | Mark

datatype 'b kafka_event =
    Native native_call
  | Installed "64 word" "int list"
  | Revoked "64 word"
  | Failing string
  | OnError handler_error
  | Received "'b message"
  | Begun "'b message"
  | Ended "'b message"
  | Acked ack "'b message" int
  | AckReturned ack "'b message" "string + unit"
  | StopReturned

type_synonym lane_key = "string \<times> int \<times> 64 word"

text \<open>A lane: its channel, the task behind it and whether the sender is still in the map of lanes.\<close>

record 'b lane =
  lane_of :: lane_key
  lane_ctx :: nat
  lane_queue :: "'b message list"
  lane_busy :: "'b message option"
  lane_alive :: bool
  lane_open :: bool

datatype 'b task_pc = Initializing | Receiving | Sending "'b message" nat | Draining | Finished

text \<open>
  \<open>partitions\<close>, \<open>revision\<close>, \<open>fault\<close> and \<open>failed\<close> are the fields of \<open>Assignments\<close>; \<open>assigning\<close> is a callback that
  has checked its items and not yet installed them.
\<close>

record 'b kafka =
  partitions :: "(int \<times> 64 word \<times> nat) list"
  revision :: "64 word"
  fault :: "string option"
  failed :: bool
  dead :: "nat list"
  tokens :: nat
  owner_over :: bool
  stopping :: bool
  assigning :: "(bool \<times> (native_call \<Rightarrow> string + unit) \<times> item list) option"
  restoring :: bool
  task_at :: "'b task_pc"
  seen_revision :: "64 word"
  lanes :: "'b lane list"
  log :: "'b kafka_event list"

definition kafka_new :: "'b kafka" where
  "kafka_new = \<lparr>partitions = [], revision = 0, fault = None, failed = False, dead = [], tokens = 0, owner_over = False,
     stopping = False, assigning = None, restoring = False, task_at = Initializing, seen_revision = 0, lanes = [], log = []\<rparr>"

definition logged :: "'b kafka_event list \<Rightarrow> 'b kafka \<Rightarrow> 'b kafka" where
  "logged es s = s\<lparr>log := log s @ es\<rparr>"

definition ctx_live :: "nat \<Rightarrow> 'b kafka \<Rightarrow> bool" where
  "ctx_live t s \<longleftrightarrow> t \<notin> set (dead s) \<and> \<not> owner_over s"

section \<open>Assignments\<close>

definition validate :: "(int \<times> int) list option \<Rightarrow> string + unit" where
  "validate offsets =
     (case offsets of
        Some values \<Rightarrow>
          (if list_ex (\<lambda>(p, n). p < 0 \<or> n < 0) values
           then Inl ''Kafka checkpoint has a negative partition or next offset'' else Inr ())
      | None \<Rightarrow> Inr ())"

definition current :: "int \<Rightarrow> 64 word \<Rightarrow> 'b kafka \<Rightarrow> bool" where
  "current p g s = (case map_of (partitions s) p of None \<Rightarrow> False | Some (g', t) \<Rightarrow> g' = g \<and> ctx_live t s)"

definition acknowledge :: "int \<Rightarrow> 64 word \<Rightarrow> ('b kafka \<Rightarrow> (string + 'r) \<times> 'b kafka) \<Rightarrow> 'b kafka \<Rightarrow> (string + 'r) \<times> 'b kafka" where
  "acknowledge p g f s =
     (if failed s \<or> \<not> current p g s then (Inl ''Kafka message belongs to a revoked assignment'', s) else f s)"

definition take_error :: "'b kafka \<Rightarrow> string option \<times> 'b kafka" where
  "take_error s = (fault s, s\<lparr>fault := None\<rparr>)"

definition fail :: "string \<Rightarrow> 'b kafka \<Rightarrow> 'b kafka" where
  "fail e s = logged [Failing e]
     (s\<lparr>fault := (if fault s = None then Some e else fault s), dead := map (snd \<circ> snd) (partitions s) @ dead s,
        failed := True\<rparr>)"

text \<open>Contexts of the listed partitions, or of all of them, are cancelled and their entries removed.\<close>

definition drop_partitions :: "int list \<Rightarrow> 'b kafka \<Rightarrow> 'b kafka" where
  "drop_partitions ps s =
     s\<lparr>dead := map (snd \<circ> snd) (filter (\<lambda>(p, _). p \<in> set ps) (partitions s)) @ dead s,
       partitions := filter (\<lambda>(p, _). p \<notin> set ps) (partitions s)\<rparr>"

definition drop_all :: "'b kafka \<Rightarrow> 'b kafka" where
  "drop_all s = s\<lparr>dead := map (snd \<circ> snd) (partitions s) @ dead s, partitions := []\<rparr>"

fun insert_partitions :: "64 word \<Rightarrow> int list \<Rightarrow> 'b kafka \<Rightarrow> 'b kafka" where
  "insert_partitions g [] s = s"
| "insert_partitions g (p # ps) s =
     insert_partitions g ps (s\<lparr>partitions := hm_insert p (g, tokens s) (partitions s), tokens := tokens s + 1\<rparr>)"

section \<open>Rebalancing\<close>

text \<open>What the client library and the handler answer to the callback.\<close>

record broker =
  cooperative :: bool
  restored :: "string + (int \<times> int) list option"
  watermarks :: "string \<Rightarrow> int \<Rightarrow> string + (int \<times> int)"
  set_offset :: "string \<Rightarrow> int \<Rightarrow> int \<Rightarrow> string + unit"
  native :: "native_call \<Rightarrow> string + unit"

definition check_item :: "broker \<Rightarrow> string \<Rightarrow> (int \<times> int) list option \<Rightarrow> string \<times> int \<Rightarrow> string + item" where
  "check_item b topic offsets x =
     (case x of (t, p) \<Rightarrow>
       if t \<noteq> topic then Inl ''Kafka assigned an unexpected topic''
       else case offsets of
         None \<Rightarrow> Inr (t, p, None)
       | Some os \<Rightarrow>
           (case map_of os p of
              None \<Rightarrow> Inl ''Kafka checkpoint does not cover assigned partition''
            | Some n \<Rightarrow>
                (case watermarks b t p of
                   Inl e \<Rightarrow> Inl e
                 | Inr (low, high) \<Rightarrow>
                     (if low < 0 \<or> n < low \<or> n > high then Inl ''Kafka checkpoint is outside retained log bounds''
                      else case set_offset b t p n of Inl e \<Rightarrow> Inl e | Inr _ \<Rightarrow> Inr (t, p, Some n)))))"

fun check_items :: "broker \<Rightarrow> string \<Rightarrow> (int \<times> int) list option \<Rightarrow> (string \<times> int) list \<Rightarrow> string + item list" where
  "check_items b topic offsets [] = Inr []"
| "check_items b topic offsets (x # xs) =
     (case check_item b topic offsets x of
        Inl e \<Rightarrow> Inl e
      | Inr y \<Rightarrow> (case check_items b topic offsets xs of Inl e \<Rightarrow> Inl e | Inr ys \<Rightarrow> Inr (y # ys)))"

text \<open>\<open>apply\<close> for an assignment, up to the lock.\<close>

definition check_assign :: "broker \<Rightarrow> string \<Rightarrow> (string \<times> int) list \<Rightarrow> 'b kafka \<Rightarrow> string + item list" where
  "check_assign b topic xs s =
     (if owner_over s \<or> failed s then Inl ''Kafka checkpoint owner cancelled''
      else case restored b of
        Inl e \<Rightarrow> Inl e
      | Inr offsets \<Rightarrow>
          (case validate offsets of
             Inl e \<Rightarrow> Inl e
           | Inr _ \<Rightarrow>
               (if (offsets \<noteq> None) \<noteq> restoring s then Inl ''Kafka recovery mode changed during lifecycle''
                else check_items b topic offsets xs)))"

abbreviation item_partitions :: "item list \<Rightarrow> int list" where
  "item_partitions ys \<equiv> map (fst \<circ> snd) ys"

definition install_assign :: "bool \<Rightarrow> (native_call \<Rightarrow> string + unit) \<Rightarrow> item list \<Rightarrow> 'b kafka \<Rightarrow> (string + unit) \<times> 'b kafka" where
  "install_assign coop call ys s =
     (if owner_over s then (Inl ''Kafka checkpoint restoration cancelled'', s)
      else
        let s1 = drop_partitions (item_partitions ys) (if coop then s else drop_all s);
            c = (if coop then IncrementalAssign ys else AssignCall ys);
            s2 = logged [Native c] s1;
            g = revision s + 1 in
        case call c of
          Inl e \<Rightarrow> (Inl e, s2)
        | Inr _ \<Rightarrow> (Inr (), logged [Installed g (item_partitions ys)] (insert_partitions g (item_partitions ys) (s2\<lparr>revision := g\<rparr>))))"

definition revoke :: "broker \<Rightarrow> (string \<times> int) list \<Rightarrow> 'b kafka \<Rightarrow> (string + unit) \<times> 'b kafka" where
  "revoke b xs s =
     (let ps = map snd xs;
          s1 = (if cooperative b then drop_partitions ps s else drop_all s);
          c = (if cooperative b then IncrementalUnassign ps else Unassign);
          s2 = logged [Native c] s1 in
      case native b c of
        Inl e \<Rightarrow> (Inl e, s2)
      | Inr _ \<Rightarrow> (Inr (), logged [Revoked (revision s + 1)] (s2\<lparr>revision := revision s + 1\<rparr>)))"

text \<open>\<open>rebalance\<close>: after an error everything is unassigned.\<close>

definition settle :: "(string + unit) \<times> 'b kafka \<Rightarrow> 'b kafka" where
  "settle r = (case r of (Inl e, s) \<Rightarrow> logged [Native Unassign] (fail e s) | (Inr _, s) \<Rightarrow> s)"

datatype rebalance = AssignPartitions | RevokePartitions | OtherEvent string

definition rebalance_start :: "broker \<Rightarrow> string \<Rightarrow> rebalance \<Rightarrow> (string \<times> int) list \<Rightarrow> 'b kafka \<Rightarrow> 'b kafka option" where
  "rebalance_start b topic ev xs s =
     (if task_at s = Initializing \<or> assigning s \<noteq> None then None
      else Some (case ev of
          AssignPartitions \<Rightarrow>
            (case check_assign b topic xs s of
               Inl e \<Rightarrow> settle (Inl e, s)
             | Inr ys \<Rightarrow> s\<lparr>assigning := Some (cooperative b, native b, ys)\<rparr>)
        | RevokePartitions \<Rightarrow> settle (revoke b xs s)
        | OtherEvent e \<Rightarrow> settle (Inl (''Kafka rebalance failed: '' @ e), s)))"

definition rebalance_finish :: "'b kafka \<Rightarrow> 'b kafka option" where
  "rebalance_finish s =
     (case assigning s of
        None \<Rightarrow> None
      | Some (coop, call, ys) \<Rightarrow> Some (settle (install_assign coop call ys (s\<lparr>assigning := None\<rparr>))))"

section \<open>The task of an endpoint\<close>

text \<open>
  The beginning of the task: the handler's checkpoint, then the consumer. \<open>created\<close> is what creating and
  subscribing the consumer answers.
\<close>

definition initialize :: "string + (int \<times> int) list option \<Rightarrow> string + unit \<Rightarrow> 'b kafka \<Rightarrow> bool runtime_result" where
  "initialize initial created s =
     (case initial of
        Inl e \<Rightarrow> Inl (Transport e)
      | Inr offsets \<Rightarrow>
          (if owner_over s \<or> stopping s then Inl ContextCancelled
           else case validate offsets of
             Inl e \<Rightarrow> Inl (Transport e)
           | Inr _ \<Rightarrow> (case created of Inl e \<Rightarrow> Inl (Transport e) | Inr _ \<Rightarrow> Inr (offsets \<noteq> None))))"

definition task_init :: "string + (int \<times> int) list option \<Rightarrow> string + unit \<Rightarrow> 'b kafka \<Rightarrow> 'b kafka option" where
  "task_init initial created s =
     (if task_at s \<noteq> Initializing then None
      else Some (case initialize initial created s of
          Inr r \<Rightarrow> s\<lparr>restoring := r, task_at := Receiving\<rparr>
        | Inl e \<Rightarrow>
            (if \<not> owner_over s \<and> \<not> stopping s then logged [OnError (Runtime e)] s else s)
              \<lparr>owner_over := True, task_at := Finished\<rparr>))"

text \<open>The loop is left: all senders are dropped and the lanes are joined.\<close>

definition leave_loop :: "'b kafka \<Rightarrow> 'b kafka" where
  "leave_loop s = s\<lparr>lanes := map (\<lambda>l. l\<lparr>lane_open := False\<rparr>) (lanes s), task_at := Draining\<rparr>"

definition task_break :: "'b kafka \<Rightarrow> 'b kafka option" where
  "task_break s =
     (if task_at s \<noteq> Receiving then None
      else if stopping s \<or> owner_over s then Some (leave_loop s)
      else if failed s then
        let (e, s1) = take_error s;
            s2 = (case e of None \<Rightarrow> s1 | Some t \<Rightarrow> logged [OnError (Text t)] s1) in
        Some (leave_loop (s2\<lparr>owner_over := True\<rparr>))
      else None)"

text \<open>\<open>lost\<close>: the error says that the offset to restore is not retained any more.\<close>

definition receive_error :: "string \<Rightarrow> bool \<Rightarrow> 'b kafka \<Rightarrow> 'b kafka option" where
  "receive_error e lost s =
     (if task_at s \<noteq> Receiving \<or> stopping s \<or> owner_over s \<or> failed s then None
      else
        let s1 = logged [OnError (Text e)] s in
        Some (if restoring s \<and> lost then leave_loop (s1\<lparr>owner_over := True\<rparr>) else s1))"

definition retain_lanes :: "'b kafka \<Rightarrow> 'b kafka" where
  "retain_lanes s =
     (if revision s = seen_revision s then s
      else s\<lparr>lanes := map (\<lambda>l. l\<lparr>lane_open := lane_open l \<and> (case lane_of l of (_, p, g) \<Rightarrow> current p g s)\<rparr>) (lanes s),
             seen_revision := revision s\<rparr>)"

fun lane_index :: "lane_key \<Rightarrow> 'b lane list \<Rightarrow> nat option" where
  "lane_index k [] = None"
| "lane_index k (l # ls) =
     (if lane_open l \<and> lane_of l = k then Some 0 else map_option Suc (lane_index k ls))"

definition lane_new :: "lane_key \<Rightarrow> nat \<Rightarrow> 'b lane" where
  "lane_new k t = \<lparr>lane_of = k, lane_ctx = t, lane_queue = [], lane_busy = None, lane_alive = True, lane_open = True\<rparr>"

definition route_message :: "string \<Rightarrow> int \<Rightarrow> int \<Rightarrow> 'b \<Rightarrow> 'b kafka \<Rightarrow> 'b kafka" where
  "route_message topic p offset body s =
     (case map_of (partitions s) p of
        None \<Rightarrow> s
      | Some (g, t) \<Rightarrow>
          (if \<not> ctx_live t s then s
           else
             let m = \<lparr>m_topic = topic, m_partition = p, m_offset = offset, m_generation = g, m_body = body\<rparr>;
                 k = (topic, p, g) in
             logged [Received m]
               (case lane_index k (lanes s) of
                  Some i \<Rightarrow> s\<lparr>task_at := Sending m i\<rparr>
                | None \<Rightarrow> s\<lparr>lanes := lanes s @ [lane_new k t], task_at := Sending m (length (lanes s))\<rparr>)))"

definition receive :: "string \<Rightarrow> int \<Rightarrow> int \<Rightarrow> 'b \<Rightarrow> 'b kafka \<Rightarrow> 'b kafka option" where
  "receive topic p offset body s =
     (if task_at s \<noteq> Receiving \<or> stopping s \<or> owner_over s \<or> failed s then None
      else Some (route_message topic p offset body (retain_lanes s)))"

definition lane_capacity :: nat where "lane_capacity = 256"

definition send :: "'b kafka \<Rightarrow> 'b kafka option" where
  "send s =
     (case task_at s of
        Sending m i \<Rightarrow>
          (let l = lanes s ! i in
           if \<not> lane_alive l then Some (leave_loop s)
           else if length (lane_queue l) < lane_capacity
           then Some (s\<lparr>lanes := (lanes s)[i := l\<lparr>lane_queue := lane_queue l @ [m]\<rparr>], task_at := Receiving\<rparr>)
           else None)
      | _ \<Rightarrow> None)"

definition send_abort :: "'b kafka \<Rightarrow> 'b kafka option" where
  "send_abort s =
     (case task_at s of
        Sending m i \<Rightarrow> (if stopping s \<or> owner_over s then Some (leave_loop s) else None)
      | _ \<Rightarrow> None)"

definition drained :: "'b kafka \<Rightarrow> 'b kafka option" where
  "drained s =
     (if task_at s = Draining \<and> list_all (\<lambda>l. \<not> lane_alive l) (lanes s) then Some (s\<lparr>task_at := Finished\<rparr>) else None)"

section \<open>Lanes and handlers\<close>

definition lane_take :: "nat \<Rightarrow> 'b kafka \<Rightarrow> 'b kafka option" where
  "lane_take i s =
     (let l = lanes s ! i in
      if i < length (lanes s) \<and> lane_alive l \<and> lane_busy l = None
      then if \<not> ctx_live (lane_ctx l) s then Some (s\<lparr>lanes := (lanes s)[i := l\<lparr>lane_alive := False\<rparr>]\<rparr>)
        else case lane_queue l of
          m # ms \<Rightarrow> Some (logged [Begun m] (s\<lparr>lanes := (lanes s)[i := l\<lparr>lane_queue := ms, lane_busy := Some m\<rparr>]\<rparr>))
        | [] \<Rightarrow> (if lane_open l then None else Some (s\<lparr>lanes := (lanes s)[i := l\<lparr>lane_alive := False\<rparr>]\<rparr>))
      else None)"

definition handler_ends :: "nat \<Rightarrow> 'b kafka \<Rightarrow> 'b kafka option" where
  "handler_ends i s =
     (let l = lanes s ! i in
      if i < length (lanes s)
      then case lane_busy l of
          None \<Rightarrow> None
        | Some m \<Rightarrow> Some (logged [Ended m] (s\<lparr>lanes := (lanes s)[i := l\<lparr>lane_busy := None\<rparr>]\<rparr>))
      else None)"

text \<open>
  \<open>commit\<close> and \<open>mark_message\<close> of a message that a handler was given, at any time and by any task that keeps it;
  \<open>r\<close> is what the client library answers.
\<close>

definition ack_message :: "ack \<Rightarrow> 'b message \<Rightarrow> string + unit \<Rightarrow> 'b kafka \<Rightarrow> 'b kafka option" where
  "ack_message a m r s =
     (if Begun m \<notin> set (log s) then None
      else
        let (res, s') = acknowledge (m_partition m) (m_generation m)
              (\<lambda>s. (r, logged [Acked a m (m_offset m + 1)] s)) s in
        Some (logged [AckReturned a m res] s'))"

section \<open>Stopping\<close>

definition stop_begin :: "'b kafka \<Rightarrow> 'b kafka" where "stop_begin s = s\<lparr>stopping := True\<rparr>"

definition stop_cancel :: "'b kafka \<Rightarrow> 'b kafka option" where
  "stop_cancel s = (if stopping s then Some (s\<lparr>owner_over := True\<rparr>) else None)"

definition stop_return :: "'b kafka \<Rightarrow> 'b kafka option" where
  "stop_return s = (if stopping s \<and> owner_over s \<and> task_at s = Finished then Some (logged [StopReturned] s) else None)"

section \<open>Steps\<close>

datatype 'b kafka_action =
    Init "string + (int \<times> int) list option" "string + unit"
  | Rebalance broker rebalance "(string \<times> int) list"
  | Install
  | Break
  | ReceiveError string bool
  | Receive string int int 'b
  | Send
  | SendAbort
  | Drained
  | LaneTake nat
  | HandlerEnds nat
  | Ack ack "'b message" "string + unit"
  | CancelContext nat
  | OwnerOver
  | StopBegin
  | StopCancel
  | StopReturn

fun kafka_step :: "string \<Rightarrow> 'b kafka_action \<Rightarrow> 'b kafka \<Rightarrow> 'b kafka option" where
  "kafka_step topic (Init i c) s = task_init i c s"
| "kafka_step topic (Rebalance b ev xs) s = rebalance_start b topic ev xs s"
| "kafka_step topic Install s = rebalance_finish s"
| "kafka_step topic Break s = task_break s"
| "kafka_step topic (ReceiveError e lost) s = receive_error e lost s"
| "kafka_step topic (Receive t p n b) s = receive t p n b s"
| "kafka_step topic Send s = send s"
| "kafka_step topic SendAbort s = send_abort s"
| "kafka_step topic Drained s = drained s"
| "kafka_step topic (LaneTake i) s = lane_take i s"
| "kafka_step topic (HandlerEnds i) s = handler_ends i s"
| "kafka_step topic (Ack a m r) s = ack_message a m r s"
| "kafka_step topic (CancelContext t) s = Some (s\<lparr>dead := t # dead s\<rparr>)"
| "kafka_step topic OwnerOver s = Some (s\<lparr>owner_over := True\<rparr>)"
| "kafka_step topic StopBegin s = Some (stop_begin s)"
| "kafka_step topic StopCancel s = stop_cancel s"
| "kafka_step topic StopReturn s = stop_return s"


section \<open>Acknowledgements\<close>

text \<open>Completed rebalances, and which calls of the client library reassign a partition.\<close>

fun completes :: "'b kafka_event \<Rightarrow> bool" where
  "completes (Installed _ _) = True"
| "completes (Revoked _) = True"
| "completes _ = False"

definition bumps :: "'b kafka_event list \<Rightarrow> nat" where
  "bumps l = length (filter completes l)"

fun touches :: "int \<Rightarrow> native_call \<Rightarrow> bool" where
  "touches p (AssignCall _) = True"
| "touches p (IncrementalAssign ys) = (p \<in> set (item_partitions ys))"
| "touches p Unassign = True"
| "touches p (IncrementalUnassign ps) = (p \<in> set ps)"

fun reassigns :: "int \<Rightarrow> 'b kafka_event \<Rightarrow> bool" where
  "reassigns p (Native c) = touches p c"
| "reassigns p _ = False"

definition reassigned :: "'b message \<Rightarrow> 'b kafka_event list \<Rightarrow> bool" where
  "reassigned m l \<longleftrightarrow> (\<exists>l1 l2. l = l1 @ Received m # l2 \<and> list_ex (reassigns (m_partition m)) l2)"

lemma bumps_simps [simp]:
  "bumps [] = 0" "bumps (l @ l') = bumps l + bumps l'" "bumps (e # l) = (if completes e then 1 else 0) + bumps l"
  by (simp_all add: bumps_def)

lemma reassigned_Nil [simp]: "\<not> reassigned m []"
  by (simp add: reassigned_def)

lemma reassigned_snoc [simp]:
  "reassigned m (l @ [e]) \<longleftrightarrow> reassigned m l \<or> (Received m \<in> set l \<and> reassigns (m_partition m) e)"
proof
  assume "reassigned m (l @ [e])"
  then obtain l1 l2 where l: "l @ [e] = l1 @ Received m # l2" "list_ex (reassigns (m_partition m)) l2"
    by (auto simp: reassigned_def)
  show "reassigned m l \<or> (Received m \<in> set l \<and> reassigns (m_partition m) e)"
    using l by (cases l2 rule: rev_cases) (auto simp: reassigned_def)
next
  assume "reassigned m l \<or> (Received m \<in> set l \<and> reassigns (m_partition m) e)"
  then obtain l1 l2 where "l = l1 @ Received m # l2" "list_ex (reassigns (m_partition m)) (l2 @ [e])"
    by (auto simp: reassigned_def in_set_conv_decomp)
  then show "reassigned m (l @ [e])"
    unfolding reassigned_def by (intro exI [of _ l1] exI [of _ "l2 @ [e]"]) simp
qed

lemma reassigned_received: "reassigned m l \<Longrightarrow> Received m \<in> set l"
  by (auto simp: reassigned_def)

text \<open>An offset is stored only while the assignment under which the message came is in force.\<close>

fun ack_ok :: "'b kafka_event list \<Rightarrow> 'b kafka_event \<Rightarrow> bool" where
  "ack_ok l (Acked a m n) \<longleftrightarrow>
     n = m_offset m + 1 \<and> Received m \<in> set l \<and> \<not> reassigned m l \<and> (\<forall>e. Failing e \<notin> set l)"
| "ack_ok l _ \<longleftrightarrow> True"

definition asg_ok :: "(int \<times> 64 word \<times> nat) list \<Rightarrow> 64 word \<Rightarrow> bool \<Rightarrow> 'b kafka_event list \<Rightarrow> bool" where
  "asg_ok ps r f l \<longleftrightarrow>
     r = of_nat (bumps l) \<and> bumps l < 2 ^ 64 \<and> (\<forall>p g t. map_of ps p = Some (g, t) \<longrightarrow> unat g \<le> bumps l) \<and>
     (f \<longleftrightarrow> (\<exists>e. Failing e \<in> set l)) \<and>
     (\<forall>m. Received m \<in> set l \<longrightarrow> unat (m_generation m) \<le> bumps l \<and>
        (\<not> f \<and> (\<exists>t. map_of ps (m_partition m) = Some (m_generation m, t)) \<longrightarrow> \<not> reassigned m l)) \<and>
     always ack_ok l"

lemma asg_ok_new: "asg_ok [] 0 False []"
  by (simp add: asg_ok_def)

fun neutral :: "'b kafka_event \<Rightarrow> bool" where
  "neutral (Native _) = False"
| "neutral (Installed _ _) = False"
| "neutral (Revoked _) = False"
| "neutral (Failing _) = False"
| "neutral (Received _) = False"
| "neutral (Acked _ _ _) = False"
| "neutral _ = True"

lemma neutral_ok: "neutral e \<Longrightarrow> ack_ok l e \<and> \<not> completes e \<and> \<not> reassigns p e"
  by (cases e) auto

lemma asg_ok_neutral: "asg_ok ps r f l \<Longrightarrow> neutral e \<Longrightarrow> asg_ok ps r f (l @ [e])"
  using neutral_ok [of e] by (auto simp: asg_ok_def always_snoc)

lemma asg_ok_drop:
  assumes "asg_ok ps r f l" "\<And>p v. map_of ps' p = Some v \<Longrightarrow> map_of ps p = Some v"
  shows "asg_ok ps' r f l"
  using assms by (fastforce simp: asg_ok_def)

lemma asg_ok_native:
  assumes "asg_ok ps r f l" "\<And>p. touches p c \<Longrightarrow> f \<or> map_of ps p = None"
  shows "asg_ok ps r f (l @ [Native c])"
  using assms by (auto simp: asg_ok_def always_snoc)

lemma asg_ok_fail:
  assumes "asg_ok ps r f l"
  shows "asg_ok ps r True (l @ [Failing e])"
  using assms by (auto simp: asg_ok_def always_snoc)

lemma asg_ok_received:
  assumes ok: "asg_ok ps r f l" and m: "map_of ps (m_partition m) = Some (m_generation m, t)"
  shows "asg_ok ps r f (l @ [Received m])"
  using assms reassigned_received [of m l] by (fastforce simp: asg_ok_def always_snoc)

lemma asg_ok_acked:
  assumes ok: "asg_ok ps r f l" and m: "map_of ps (m_partition m) = Some (m_generation m, t)" "\<not> f" "Received m \<in> set l"
  shows "asg_ok ps r f (l @ [Acked a m (m_offset m + 1)])"
  using assms by (auto simp: asg_ok_def always_snoc)

lemma asg_ok_bump:
  fixes ps :: "(int \<times> 64 word \<times> nat) list"
  assumes ok: "asg_ok ps r f l" and e: "completes e" "bumps l + 1 < 2 ^ 64"
    and ps': "\<And>p g t. map_of ps' p = Some (g, t) \<Longrightarrow> map_of ps p = Some (g, t) \<or> g = r + 1"
  shows "asg_ok ps' (r + 1) f (l @ [e])"
proof -
  have r: "r + 1 = of_nat (Suc (bumps l))"
    using ok by (simp add: asg_ok_def add.commute)
  then have g: "unat (r + 1) = Suc (bumps l)"
    using e(2) by (simp only: unat_of_nat take_bit_eq_mod) simp
  have ev: "ack_ok l e" "\<not> reassigns p e" "(\<exists>x. Failing x \<in> set (l @ [e])) \<longleftrightarrow> (\<exists>x. Failing x \<in> set l)"
      "Received m \<in> set (l @ [e]) \<longleftrightarrow> Received m \<in> set l" for p m
    using e(1) by (cases e; auto)+
  have "\<not> reassigned m l"
    if "Received m \<in> set l" "\<not> f" "map_of ps' (m_partition m) = Some (m_generation m, t)" for m t
  proof -
    have "unat (m_generation m) \<le> bumps l" using ok that(1) by (simp add: asg_ok_def)
    then have "m_generation m \<noteq> r + 1" using g by auto
    then show ?thesis using ps' [OF that(3)] ok that(1,2) by (auto simp: asg_ok_def)
  qed
  moreover have "unat g' \<le> Suc (bumps l)" if "map_of ps' p = Some (g', t)" for p g' t
    using ps' [OF that] ok g by (fastforce simp: asg_ok_def)
  ultimately show ?thesis
    using ok e r ev by (fastforce simp: asg_ok_def always_snoc)
qed

section \<open>Rebalancing keeps it\<close>

abbreviation asg :: "'b kafka \<Rightarrow> bool" where
  "asg s \<equiv> asg_ok (partitions s) (revision s) (failed s) (log s)"

fun is_assign :: "'b kafka_event \<Rightarrow> bool" where
  "is_assign (Native _) = True"
| "is_assign (Installed _ _) = True"
| "is_assign (Revoked _) = True"
| "is_assign (Failing _) = True"
| "is_assign _ = False"

text \<open>What the callback leaves alone, and where new entries come from.\<close>

definition rebal :: "'b kafka \<Rightarrow> 'b kafka \<Rightarrow> bool" where
  "rebal s s' \<longleftrightarrow>
     lanes s' = lanes s \<and> task_at s' = task_at s \<and> stopping s' = stopping s \<and> owner_over s' = owner_over s \<and>
     set (dead s) \<subseteq> set (dead s') \<and> (\<exists>es. log s' = log s @ es \<and> list_all is_assign es) \<and>
     bumps (log s) \<le> bumps (log s') \<and>
     (\<forall>p g t. map_of (partitions s') p = Some (g, t) \<longrightarrow>
        map_of (partitions s) p = Some (g, t) \<or> g = revision s + 1 \<and> bumps (log s) < bumps (log s'))"

lemma logged_simps [simp]:
  "partitions (logged es s) = partitions s" "revision (logged es s) = revision s" "failed (logged es s) = failed s"
  "dead (logged es s) = dead s" "owner_over (logged es s) = owner_over s" "stopping (logged es s) = stopping s"
  "task_at (logged es s) = task_at s" "lanes (logged es s) = lanes s" "log (logged es s) = log s @ es"
  by (simp_all add: logged_def)

lemma drop_simps [simp]:
  "revision (drop_partitions ps s) = revision s" "failed (drop_partitions ps s) = failed s" "owner_over (drop_partitions ps s) = owner_over s"
  "stopping (drop_partitions ps s) = stopping s" "task_at (drop_partitions ps s) = task_at s"
  "lanes (drop_partitions ps s) = lanes s" "log (drop_partitions ps s) = log s"
  "revision (drop_all s) = revision s" "failed (drop_all s) = failed s" "owner_over (drop_all s) = owner_over s"
  "stopping (drop_all s) = stopping s" "task_at (drop_all s) = task_at s"
  "lanes (drop_all s) = lanes s" "log (drop_all s) = log s"
  "set (dead s) \<subseteq> set (dead (drop_partitions ps s))" "set (dead s) \<subseteq> set (dead (drop_all s))"
  by (auto simp: drop_partitions_def drop_all_def)

lemma map_of_drop: "map_of (filter (\<lambda>(p, _). p \<notin> A) m) p = (if p \<in> A then None else map_of m p)"
  by (induction m) auto

lemma insert_partitions_other:
  "\<exists>ps' n. insert_partitions g ps s = s\<lparr>partitions := ps', tokens := n\<rparr> \<and>
     (\<forall>p g' t. map_of ps' p = Some (g', t) \<longrightarrow> map_of (partitions s) p = Some (g', t) \<or> g' = g)"
proof (induction ps arbitrary: s)
  case Nil
  then show ?case by (intro exI [of _ "partitions s"] exI [of _ "tokens s"]) simp
next
  case (Cons p ps)
  obtain ps' n where *: "insert_partitions g (p # ps) s = s\<lparr>partitions := ps', tokens := n\<rparr>"
      "\<And>q g' t. map_of ps' q = Some (g', t) \<Longrightarrow>
         map_of (hm_insert p (g, tokens s) (partitions s)) q = Some (g', t) \<or> g' = g"
    using Cons [of "s\<lparr>partitions := hm_insert p (g, tokens s) (partitions s), tokens := tokens s + 1\<rparr>"] by auto
  have "map_of (partitions s) q = Some (g', t) \<or> g' = g" if "map_of ps' q = Some (g', t)" for q g' t
    using *(2) [OF that] by (auto split: if_splits)
  with *(1) show ?case by blast
qed

lemma fail_step:
  assumes "rebal s t"
  shows "rebal s (settle (Inl e, t))" "asg t \<Longrightarrow> asg (settle (Inl e, t))"
proof -
  show "rebal s (settle (Inl e, t))"
    using assms by (auto simp: rebal_def settle_def fail_def)
  assume "asg t"
  then have "asg_ok (partitions t) (revision t) True ((log t @ [Failing e]) @ [Native Unassign])"
    by (intro asg_ok_native asg_ok_fail) auto
  then show "asg (settle (Inl e, t))"
    by (simp add: settle_def fail_def)
qed

lemma rebal_refl: "rebal s s"
  by (auto simp: rebal_def)

text \<open>Both callbacks drop entries, call the client library and, when it agrees, complete with a new revision.\<close>

definition dropped :: "'b kafka \<Rightarrow> 'b kafka \<Rightarrow> bool" where
  "dropped s t \<longleftrightarrow> rebal s t \<and> log t = log s \<and> revision t = revision s \<and> failed t = failed s \<and>
     (\<forall>p v. map_of (partitions t) p = Some v \<longrightarrow> map_of (partitions s) p = Some v)"

lemma dropped_drop [simp]:
  "dropped s (drop_partitions ps s)" "dropped s (drop_all s)" "dropped s (drop_partitions ps (drop_all s))"
  by (auto simp: dropped_def rebal_def) (auto simp: drop_partitions_def drop_all_def map_of_drop split: if_splits)

lemma native_step:
  assumes s1: "dropped s s1" and touch: "\<And>p. touches p c \<Longrightarrow> map_of (partitions s1) p = None"
    and s': "s' = logged [Native c] s1 \<or>
      s' = logged [e] ((logged [Native c] s1)\<lparr>revision := revision s + 1, partitions := qs, tokens := n\<rparr>)"
    and e: "completes e" and qs: "\<And>p g t. map_of qs p = Some (g, t) \<Longrightarrow> map_of (partitions s1) p = Some (g, t) \<or> g = revision s + 1"
  shows "rebal s s'" and "asg s \<Longrightarrow> bumps (log s') < 2 ^ 64 \<Longrightarrow> asg s'"
proof -
  have e': "is_assign e" using e by (cases e) auto
  have sub: "map_of (partitions s1) p = Some v \<Longrightarrow> map_of (partitions s) p = Some v" for p v
    using s1 by (cases v) (simp add: dropped_def)
  from s' show "rebal s s'"
  proof
    assume "s' = logged [Native c] s1"
    then show ?thesis using s1 sub by (simp add: rebal_def dropped_def)
  next
    assume "s' = logged [e] ((logged [Native c] s1)\<lparr>revision := revision s + 1, partitions := qs, tokens := n\<rparr>)"
    moreover have "map_of (partitions s) p = Some (g, t) \<or> g = revision s + 1" if "map_of qs p = Some (g, t)" for p g t
      using qs [OF that] sub by blast
    ultimately show ?thesis using s1 e e' by (simp add: rebal_def dropped_def)
  qed
  assume asg: "asg s" and b: "bumps (log s') < 2 ^ 64"
  have "asg_ok (partitions s1) (revision s) (failed s) (log s)"
    using asg s1 by (auto simp: dropped_def intro: asg_ok_drop)
  then have s2: "asg_ok (partitions s1) (revision s) (failed s) (log s @ [Native c])"
    by (rule asg_ok_native) (simp add: touch)
  show "asg s'"
    using s'
  proof
    assume "s' = logged [Native c] s1"
    then show ?thesis using s2 s1 by (simp add: dropped_def)
  next
    assume s': "s' = logged [e] ((logged [Native c] s1)\<lparr>revision := revision s + 1, partitions := qs, tokens := n\<rparr>)"
    then have "bumps (log s @ [Native c]) + 1 < 2 ^ 64"
      using b e s1 by (simp add: dropped_def)
    then show ?thesis
      using asg_ok_bump [OF s2 e _ qs] s' s1 by (simp add: dropped_def)
  qed
qed

lemma install_step:
  assumes r: "install_assign coop call ys s = (r, s')"
  shows "rebal s s'" and "asg s \<Longrightarrow> bumps (log s') < 2 ^ 64 \<Longrightarrow> asg s'"
proof -
  define c where "c = (if coop then IncrementalAssign ys else AssignCall ys)"
  define s1 where "s1 = drop_partitions (item_partitions ys) (if coop then s else drop_all s)"
  define s2 where "s2 = (logged [Native c] s1)\<lparr>revision := revision s + 1\<rparr>"
  have s1: "dropped s s1" "\<And>p. touches p c \<Longrightarrow> map_of (partitions s1) p = None"
    by (auto simp: s1_def c_def drop_partitions_def drop_all_def map_of_drop split: if_splits)
       (auto simp: dropped_def rebal_def map_of_drop split: if_splits)
  obtain qs n where ins: "insert_partitions (revision s + 1) (item_partitions ys) s2 = s2\<lparr>partitions := qs, tokens := n\<rparr>"
      "\<And>p g t. map_of qs p = Some (g, t) \<Longrightarrow> map_of (partitions s1) p = Some (g, t) \<or> g = revision s + 1"
    using insert_partitions_other [of "revision s + 1" "item_partitions ys" s2] by (auto simp: s2_def)
  consider "s' = s" | "s' = logged [Native c] s1 \<or> s' = logged [Installed (revision s + 1) (item_partitions ys)]
      ((logged [Native c] s1)\<lparr>revision := revision s + 1, partitions := qs, tokens := n\<rparr>)"
    using r ins(1) unfolding install_assign_def Let_def c_def [symmetric] s1_def [symmetric] s2_def
    by (auto split: if_splits sum.splits)
  then have "rebal s s' \<and> (asg s \<longrightarrow> bumps (log s') < 2 ^ 64 \<longrightarrow> asg s')"
  proof cases
    case 2 then show ?thesis using native_step [OF s1 _ _ ins(2)] by auto
  qed (simp add: rebal_refl)
  then show "rebal s s'" "asg s \<Longrightarrow> bumps (log s') < 2 ^ 64 \<Longrightarrow> asg s'" by auto
qed

lemma revoke_step:
  assumes r: "revoke b xs s = (r, s')"
  shows "rebal s s'" and "asg s \<Longrightarrow> bumps (log s') < 2 ^ 64 \<Longrightarrow> asg s'"
proof -
  define c where "c = (if cooperative b then IncrementalUnassign (map snd xs) else Unassign)"
  define s1 where "s1 = (if cooperative b then drop_partitions (map snd xs) s else drop_all s)"
  have s1: "dropped s s1" "\<And>p. touches p c \<Longrightarrow> map_of (partitions s1) p = None"
    by (auto simp: s1_def c_def) (force simp: drop_partitions_def drop_all_def map_of_drop split: if_splits)+
  have s': "s' = logged [Native c] s1 \<or> s' = logged [Revoked (revision s + 1)]
      ((logged [Native c] s1)\<lparr>revision := revision s + 1, partitions := partitions s1, tokens := tokens s1\<rparr>)"
    using r unfolding revoke_def Let_def c_def [symmetric] s1_def [symmetric]
    by (auto simp: logged_def split: sum.splits)
  show "rebal s s'" by (rule native_step [OF s1 s']) auto
  show "asg s \<Longrightarrow> bumps (log s') < 2 ^ 64 \<Longrightarrow> asg s'" by (rule native_step [OF s1 s']) auto
qed

lemma settle_step:
  assumes "rebal s t" "asg s \<Longrightarrow> bumps (log t) < 2 ^ 64 \<Longrightarrow> asg t"
  shows "rebal s (settle (r, t))" "asg s \<Longrightarrow> bumps (log (settle (r, t))) < 2 ^ 64 \<Longrightarrow> asg (settle (r, t))"
  using assms fail_step [of s t] by (cases r; simp add: settle_def fail_def)+

lemma rebalance_ok:
  assumes "rebalance_start b topic ev xs s = Some s' \<or> rebalance_finish s = Some s'"
  shows "rebal s s'" "asg s \<Longrightarrow> bumps (log s') < 2 ^ 64 \<Longrightarrow> asg s'"
proof -
  let ?s = "s\<lparr>assigning := None\<rparr>"
  have same: "rebal ?s t \<longleftrightarrow> rebal s t" for t by (simp add: rebal_def)
  consider (idle) ys where "s' = s\<lparr>assigning := Some (cooperative b, native b, ys)\<rparr>"
    | (err) e where "s' = settle (Inl e, s)"
    | (rev) "s' = settle (revoke b xs s)"
    | (ins) coop call ys where "s' = settle (install_assign coop call ys ?s)"
    using assms by (auto simp: rebalance_start_def rebalance_finish_def split: if_splits rebalance.splits sum.splits option.splits prod.splits)
  then have "rebal s s' \<and> (asg s \<longrightarrow> bumps (log s') < 2 ^ 64 \<longrightarrow> asg s')"
  proof cases
    case idle then show ?thesis by (auto simp: rebal_def)
  next
    case err then show ?thesis using fail_step [OF rebal_refl] by auto
  next
    case rev
    obtain r t where "revoke b xs s = (r, t)" by fastforce
    then show ?thesis using settle_step [of s t r] revoke_step [of b xs s r t] rev by auto
  next
    case ins
    obtain r t where "install_assign coop call ys ?s = (r, t)" by fastforce
    then show ?thesis using settle_step [of ?s t r] install_step [of coop call ys ?s r t] ins same by auto
  qed
  then show "rebal s s'" "asg s \<Longrightarrow> bumps (log s') < 2 ^ 64 \<Longrightarrow> asg s'" by auto
qed
section \<open>Lanes\<close>

definition key_of :: "'b message \<Rightarrow> lane_key" where
  "key_of m = (m_topic m, m_partition m, m_generation m)"

fun recv_msg :: "'b kafka_event \<Rightarrow> 'b message option" where
  "recv_msg (Received m) = Some m"
| "recv_msg _ = None"

fun begun_msg :: "'b kafka_event \<Rightarrow> 'b message option" where
  "begun_msg (Begun m) = Some m"
| "begun_msg _ = None"

fun ended_msg :: "'b kafka_event \<Rightarrow> 'b message option" where
  "ended_msg (Ended m) = Some m"
| "ended_msg _ = None"

text \<open>The messages of a lane in the events that \<open>sel\<close> selects, in their order.\<close>

definition lane_events :: "('b kafka_event \<Rightarrow> 'b message option) \<Rightarrow> lane_key \<Rightarrow> 'b kafka_event list \<Rightarrow> 'b message list" where
  "lane_events sel k l = filter (\<lambda>m. key_of m = k) (List.map_filter sel l)"

lemma lane_events_simps [simp]:
  "lane_events sel k [] = []"
  "lane_events sel k (l @ l') = lane_events sel k l @ lane_events sel k l'"
  "lane_events sel k (e # l) =
     (case sel e of None \<Rightarrow> [] | Some m \<Rightarrow> if key_of m = k then [m] else []) @ lane_events sel k l"
  by (simp_all add: lane_events_def map_filter_def split: option.split)

lemma lane_events_mem: "m \<in> set (lane_events sel k l) \<longleftrightarrow> key_of m = k \<and> (\<exists>e\<in>set l. sel e = Some m)"
  by (force simp: lane_events_def map_filter_def)

abbreviation received :: "lane_key \<Rightarrow> 'b kafka_event list \<Rightarrow> 'b message list" where
  "received \<equiv> lane_events recv_msg"

abbreviation begun :: "lane_key \<Rightarrow> 'b kafka_event list \<Rightarrow> 'b message list" where
  "begun \<equiv> lane_events begun_msg"

abbreviation ended :: "lane_key \<Rightarrow> 'b kafka_event list \<Rightarrow> 'b message list" where
  "ended \<equiv> lane_events ended_msg"

fun selected :: "'b kafka_event \<Rightarrow> bool" where
  "selected (Received _) = True"
| "selected (Begun _) = True"
| "selected (Ended _) = True"
| "selected StopReturned = True"
| "selected _ = False"

lemma unselected: "\<not> selected e \<Longrightarrow> recv_msg e = None \<and> begun_msg e = None \<and> ended_msg e = None \<and> e \<noteq> StopReturned"
  by (cases e) auto

definition draining :: "'b kafka \<Rightarrow> bool" where
  "draining s \<longleftrightarrow> task_at s = Draining \<or> task_at s = Finished"

definition pend :: "nat \<Rightarrow> 'b kafka \<Rightarrow> 'b message list" where
  "pend i s = (case task_at s of Sending m j \<Rightarrow> if j = i then [m] else [] | _ \<Rightarrow> [])"

abbreviation key_current :: "lane_key \<Rightarrow> 'b kafka \<Rightarrow> bool" where
  "key_current k s \<equiv> current (fst (snd k)) (snd (snd k)) s"

text \<open>
  The messages of a lane: those whose handling has begun, the queue, one on its way to the queue, and what was lost
  when the loop ended.
\<close>

definition lane_ok :: "nat \<Rightarrow> 'b kafka \<Rightarrow> bool" where
  "lane_ok i s \<longleftrightarrow>
     (let l = lanes s ! i; k = lane_of l in
      unat (snd (snd k)) \<le> bumps (log s) \<and> (\<not> lane_open l \<longrightarrow> draining s \<or> \<not> key_current k s) \<and>
      begun k (log s) = ended k (log s) @ (case lane_busy l of None \<Rightarrow> [] | Some m \<Rightarrow> [m]) \<and>
      (\<exists>lost. received k (log s) = begun k (log s) @ lane_queue l @ pend i s @ lost \<and> (draining s \<or> lost = [])) \<and>
      (lane_alive l \<or> lane_busy l = None))"

text \<open>Handling of a message begins only when the message before it has ended, and never after \<open>stop\<close>.\<close>

fun begin_ok :: "'b kafka_event list \<Rightarrow> 'b kafka_event \<Rightarrow> bool" where
  "begin_ok l (Begun m) \<longleftrightarrow> begun (key_of m) l = ended (key_of m) l \<and> StopReturned \<notin> set l"
| "begin_ok l _ \<longleftrightarrow> True"

definition task_ok :: "'b kafka \<Rightarrow> bool" where
  "task_ok s \<longleftrightarrow>
     (case task_at s of
        Initializing \<Rightarrow> lanes s = []
      | Sending m i \<Rightarrow> i < length (lanes s) \<and> key_of m = lane_of (lanes s ! i)
      | Finished \<Rightarrow> list_all (\<lambda>l. \<not> lane_alive l) (lanes s)
      | _ \<Rightarrow> True) \<and>
     (StopReturned \<in> set (log s) \<longrightarrow> task_at s = Finished)"

definition lanes_ok :: "'b kafka \<Rightarrow> bool" where
  "lanes_ok s \<longleftrightarrow>
     distinct (map lane_of (lanes s)) \<and> (\<forall>i<length (lanes s). lane_ok i s) \<and>
     (\<forall>k. k \<notin> set (map lane_of (lanes s)) \<longrightarrow> received k (log s) = [] \<and> begun k (log s) = [] \<and> ended k (log s) = []) \<and>
     task_ok s \<and> always begin_ok (log s)"

lemma lanes_okD:
  assumes "lanes_ok s"
  shows "distinct (map lane_of (lanes s))" "i < length (lanes s) \<Longrightarrow> lane_ok i s" "task_ok s" "always begin_ok (log s)"
    "k \<notin> set (map lane_of (lanes s)) \<Longrightarrow> received k (log s) = []" "k \<notin> set (map lane_of (lanes s)) \<Longrightarrow> begun k (log s) = []"
    "k \<notin> set (map lane_of (lanes s)) \<Longrightarrow> ended k (log s) = []"
  using assms unfolding lanes_ok_def by blast+

lemma lanes_ok_new: "lanes_ok kafka_new"
  by (simp add: lanes_ok_def kafka_new_def task_ok_def)

lemma begun_received:
  assumes ok: "lanes_ok s" and m: "Begun m \<in> set (log s)"
  shows "Received m \<in> set (log s)"
proof -
  have "m \<in> set (begun (key_of m) (log s))"
    using m by (auto simp: lane_events_mem intro: bexI [of _ "Begun m"])
  moreover from this have "key_of m \<in> set (map lane_of (lanes s))"
    using lanes_okD(6) [OF ok, of "key_of m"] by (metis empty_iff list.set(1))
  then obtain i where i: "i < length (lanes s)" "lane_of (lanes s ! i) = key_of m"
    by (auto simp: in_set_conv_nth)
  moreover have "lane_ok i s" using ok i by (simp add: lanes_ok_def)
  ultimately have "m \<in> set (received (key_of m) (log s))"
    by (auto simp: lane_ok_def Let_def)
  then obtain e where "e \<in> set (log s)" "recv_msg e = Some m"
    by (auto simp: lane_events_mem)
  then show ?thesis by - (cases e, auto)
qed

text \<open>A lane that a step does not concern.\<close>

lemma lane_ok_frame:
  assumes ok: "lane_ok i s"
    and l: "lane_of l = lane_of (lanes s ! i)" "lane_queue l = lane_queue (lanes s ! i)" "lane_busy l = lane_busy (lanes s ! i)"
      "lane_alive l = lane_alive (lanes s ! i)" "lanes s' ! i = l"
    and opn: "\<not> lane_open l \<Longrightarrow> draining s' \<or> \<not> key_current (lane_of l) s'"
    and log: "log s' = log s @ es" "received (lane_of l) es = []" "begun (lane_of l) es = []" "ended (lane_of l) es = []"
    and pend: "pend i s' = pend i s \<and> (draining s \<longrightarrow> draining s') \<or> draining s' \<and> pend i s' = []"
  shows "lane_ok i s'"
  using assms by (auto simp: lane_ok_def Let_def)

lemma always_other: "always begin_ok l \<Longrightarrow> list_all (\<lambda>e. \<not> selected e) es \<Longrightarrow> always begin_ok (l @ es)"
proof (rule always_append)
  fix pre e assume "list_all (\<lambda>e. \<not> selected e) es" "e \<in> set es"
  then have "\<not> selected e" by (auto simp: list_all_iff)
  then show "begin_ok (l @ pre) e" by (cases e) auto
qed

lemma unselected_all:
  assumes "list_all (\<lambda>e. \<not> selected e) es"
  shows "received k es = []" "begun k es = []" "ended k es = []" "StopReturned \<notin> set es"
  using assms by (induction es) (auto dest: unselected)

text \<open>Steps that leave the lanes and the place of the task alone; entries may only go or become over.\<close>

lemma lanes_ok_same:
  assumes ok: "lanes_ok s" and s': "lanes s' = lanes s" "task_at s' = task_at s" "log s' = log s @ es"
    and es: "list_all (\<lambda>e. \<not> selected e) es"
    and cur: "\<And>k. unat (snd (snd k)) \<le> bumps (log s) \<Longrightarrow> key_current k s' \<Longrightarrow> key_current k s"
  shows "lanes_ok s'"
proof -
  have "lane_ok i s'" if i: "i < length (lanes s)" for i
  proof -
    have lane: "lane_ok i s" using ok i by (simp add: lanes_ok_def)
    then have "unat (snd (snd (lane_of (lanes s ! i)))) \<le> bumps (log s)"
        "\<not> lane_open (lanes s ! i) \<Longrightarrow> draining s \<or> \<not> key_current (lane_of (lanes s ! i)) s"
      by (auto simp: lane_ok_def Let_def)
    moreover have "draining s' = draining s" "pend i s' = pend i s" using s' by (simp_all add: draining_def pend_def)
    ultimately show ?thesis
      using s' cur [of "lane_of (lanes s ! i)"]
      by (intro lane_ok_frame [OF lane, where l = "lanes s ! i" and es = es]) (auto simp: unselected_all [OF es])
  qed
  moreover have "task_ok s'"
    using lanes_okD(3) [OF ok] s' unselected_all(4) [OF es] by (simp add: task_ok_def split: task_pc.splits)
  ultimately show ?thesis
    using lanes_okD [OF ok] s' always_other [OF _ es] by (simp add: lanes_ok_def unselected_all [OF es])
qed

section \<open>Every step keeps the lanes\<close>

lemma current_less:
  assumes "partitions s' = partitions s" "set (dead s) \<subseteq> set (dead s')" "owner_over s \<longrightarrow> owner_over s'" "current p g s'"
  shows "current p g s"
  using assms by (auto simp: current_def ctx_live_def split: option.splits)

lemma current_rebal:
  assumes r: "rebal s s'" and asg: "asg s" and b: "bumps (log s') < 2 ^ 64" and g: "unat g \<le> bumps (log s)" and c: "current p g s'"
  shows "current p g s"
proof -
  obtain t where t: "map_of (partitions s') p = Some (g, t)" "ctx_live t s'"
    using c by (auto simp: current_def split: option.splits)
  have "g \<noteq> revision s + 1" if "bumps (log s) < bumps (log s')"
  proof -
    have "revision s + 1 = of_nat (Suc (bumps (log s)))" using asg by (simp add: asg_ok_def add.commute)
    then have "unat (revision s + 1) = Suc (bumps (log s))"
      using that b by (simp only: unat_of_nat take_bit_eq_mod) simp
    then show ?thesis using g by auto
  qed
  then have "map_of (partitions s) p = Some (g, t)"
    using r t(1) by (auto simp: rebal_def)
  then show ?thesis
    using t(2) r by (auto simp: current_def ctx_live_def rebal_def)
qed

lemma rebal_lanes_ok:
  assumes r: "rebal s s'" and asg: "asg s" "bumps (log s') < 2 ^ 64" and ok: "lanes_ok s"
  shows "lanes_ok s'"
proof -
  obtain es where es: "log s' = log s @ es" "list_all is_assign es"
    using r by (auto simp: rebal_def)
  have "is_assign e \<Longrightarrow> \<not> selected e" for e :: "'a kafka_event" by (cases e) auto
  then have "list_all (\<lambda>e. \<not> selected e) es"
    using es(2) by (auto simp: list_all_iff)
  moreover have "lanes s' = lanes s" "task_at s' = task_at s"
    using r by (simp_all add: rebal_def)
  ultimately show ?thesis
    using lanes_ok_same [OF ok _ _ es(1)] current_rebal [OF r asg] by blast
qed

lemma lanes_ok_weaken:
  assumes ok: "lanes_ok s" and s': "lanes s' = lanes s" "task_at s' = task_at s" "log s' = log s @ es"
      "partitions s' = partitions s" "set (dead s) \<subseteq> set (dead s')" "owner_over s \<longrightarrow> owner_over s'"
    and es: "list_all (\<lambda>e. \<not> selected e) es"
  shows "lanes_ok s'"
  by (rule lanes_ok_same [OF ok s'(1-3) es]) (rule current_less [OF s'(4-6)])

lemma leave_loop_ok:
  assumes ok: "lanes_ok s" and at: "task_at s = Receiving \<or> task_at s = Sending m n"
  shows "lanes_ok (leave_loop s)"
proof -
  have "lane_ok i (leave_loop s)" if i: "i < length (lanes s)" for i
    by (rule lane_ok_frame [OF lanes_okD(2) [OF ok i], where l = "(lanes s ! i)\<lparr>lane_open := False\<rparr>" and es = "[]"])
       (use i in \<open>simp_all add: leave_loop_def draining_def pend_def\<close>)
  moreover have "map lane_of (lanes (leave_loop s)) = map lane_of (lanes s)"
    by (simp add: leave_loop_def)
  moreover have "task_ok (leave_loop s)"
    using lanes_okD(3) [OF ok] at by (auto simp: task_ok_def leave_loop_def)
  moreover have "log (leave_loop s) = log s" "length (lanes (leave_loop s)) = length (lanes s)"
    by (simp_all add: leave_loop_def)
  ultimately show ?thesis
    using lanes_okD [OF ok] by (simp add: lanes_ok_def del: set_map)
qed

text \<open>A step of one lane.\<close>

lemma lanes_ok_one:
  assumes ok: "lanes_ok s" and i: "i < length (lanes s)"
    and s': "lanes s' = (lanes s)[i := l]" "lane_of l = lane_of (lanes s ! i)" "log s' = log s @ es"
      "partitions s' = partitions s" "dead s' = dead s" "owner_over s' = owner_over s" "draining s' = draining s"
    and es: "\<And>k sel. k \<noteq> lane_of l \<Longrightarrow> sel \<in> {recv_msg, begun_msg, ended_msg} \<Longrightarrow> lane_events sel k es = []"
    and pend: "\<And>j. j \<noteq> i \<Longrightarrow> pend j s' = pend j s"
    and me: "lane_ok i s'" and rest: "task_ok s'" "always begin_ok (log s')"
  shows "lanes_ok s'"
proof -
  have keys: "map lane_of (lanes s') = map lane_of (lanes s)"
    using i s'(1,2) by (auto simp: list_eq_iff_nth_eq nth_list_update)
  have cur: "current p g s' \<longleftrightarrow> current p g s" for p g
    using s'(4-6) by (auto simp: current_def ctx_live_def split: option.split)
  have "lane_ok j s'" if j: "j < length (lanes s)" for j
  proof (cases "j = i")
    case False
    have "lane_of (lanes s ! j) \<noteq> lane_of l"
      using False j i s'(2) lanes_okD(1) [OF ok] by (auto simp: distinct_conv_nth)
    then have "received (lane_of (lanes s ! j)) es = []" "begun (lane_of (lanes s ! j)) es = []"
        "ended (lane_of (lanes s ! j)) es = []"
      using es by simp_all
    moreover have "\<not> lane_open (lanes s ! j) \<Longrightarrow> draining s' \<or> \<not> key_current (lane_of (lanes s ! j)) s'"
      using lanes_okD(2) [OF ok j] s'(7) by (simp add: cur lane_ok_def Let_def)
    ultimately show ?thesis
      using False s'(1,3,7) pend [OF False]
      by (intro lane_ok_frame [OF lanes_okD(2) [OF ok j], where l = "lanes s ! j" and es = es]) simp_all
  qed (simp add: me)
  moreover have "received k (log s') = [] \<and> begun k (log s') = [] \<and> ended k (log s') = []" if "k \<notin> set (map lane_of (lanes s'))" for k
  proof -
    have "k \<noteq> lane_of l" using that i s'(2) unfolding keys by auto
    then show ?thesis using that lanes_okD(5-7) [OF ok, of k] s'(3) es unfolding keys by simp
  qed
  ultimately show ?thesis
    using lanes_okD(1) [OF ok] rest s'(1) unfolding lanes_ok_def keys by simp
qed
lemma retain_ok:
  assumes ok: "lanes_ok s" and at: "task_at s = Receiving"
  shows "lanes_ok (retain_lanes s)"
proof -
  have same: "partitions (retain_lanes s) = partitions s" "dead (retain_lanes s) = dead s" "log (retain_lanes s) = log s"
      "owner_over (retain_lanes s) = owner_over s" "task_at (retain_lanes s) = task_at s"
      "map lane_of (lanes (retain_lanes s)) = map lane_of (lanes s)" "length (lanes (retain_lanes s)) = length (lanes s)"
    by (simp_all add: retain_lanes_def)
  have cur: "current p g (retain_lanes s) \<longleftrightarrow> current p g s" for p g
    using same by (auto simp: current_def ctx_live_def split: option.split)
  have "lane_ok i (retain_lanes s)" if i: "i < length (lanes s)" for i
  proof (rule lane_ok_frame [OF lanes_okD(2) [OF ok i], where l = "lanes (retain_lanes s) ! i" and es = "[]"])
    show "\<not> lane_open (lanes (retain_lanes s) ! i) \<Longrightarrow>
        draining (retain_lanes s) \<or> \<not> key_current (lane_of (lanes (retain_lanes s) ! i)) (retain_lanes s)"
      using i at lanes_okD(2) [OF ok i] unfolding cur
      by (auto simp: retain_lanes_def lane_ok_def Let_def draining_def split: prod.splits if_splits)
  qed (use i same in \<open>simp_all add: retain_lanes_def pend_def draining_def\<close>)
  then show ?thesis
    using lanes_okD [OF ok] same at by (simp add: lanes_ok_def task_ok_def)
qed

lemma lane_index_Some: "lane_index k ls = Some i \<Longrightarrow> i < length ls \<and> lane_open (ls ! i) \<and> lane_of (ls ! i) = k"
  by (induction k ls arbitrary: i rule: lane_index.induct) (auto split: if_splits)

lemma lane_index_None: "lane_index k ls = None \<Longrightarrow> l \<in> set ls \<Longrightarrow> lane_open l \<Longrightarrow> lane_of l \<noteq> k"
  by (induction k ls rule: lane_index.induct) (auto split: if_splits)

lemma always_received: "always begin_ok l \<Longrightarrow> always begin_ok (l @ [Received m])"
  by (simp add: always_snoc)

text \<open>A message goes into the open lane of its key, or opens one: then no lane had the key.\<close>

lemma received_old_lane:
  assumes ok: "lanes_ok s" and at: "task_at s = Receiving" and i: "i < length (lanes s)" "lane_of (lanes s ! i) = key_of m"
  shows "lanes_ok (logged [Received m] (s\<lparr>task_at := Sending m i\<rparr>))"
proof (rule lanes_ok_one [OF ok i(1), where l = "lanes s ! i" and es = "[Received m]"])
  show "lane_ok i (logged [Received m] (s\<lparr>task_at := Sending m i\<rparr>))"
    using lanes_okD(2) [OF ok i(1)] at i(2)
    by (auto simp: lane_ok_def Let_def draining_def pend_def current_def ctx_live_def split: option.splits)
  show "task_ok (logged [Received m] (s\<lparr>task_at := Sending m i\<rparr>))"
    using lanes_okD(3) [OF ok] at i by (auto simp: task_ok_def)
  show "always begin_ok (log (logged [Received m] (s\<lparr>task_at := Sending m i\<rparr>)))"
    using lanes_okD(4) [OF ok] by (simp add: always_received)
qed (use at i in \<open>auto simp: draining_def pend_def\<close>)

lemma new_lane_ok:
  assumes ok: "lanes_ok s" and at: "task_at s = Receiving" and k: "k \<notin> set (map lane_of (lanes s))"
    and g: "unat (snd (snd k)) \<le> bumps (log s)"
  shows "lanes_ok (s\<lparr>lanes := lanes s @ [lane_new k t]\<rparr>)"
proof -
  let ?s = "s\<lparr>lanes := lanes s @ [lane_new k t]\<rparr>"
  have same: "draining ?s = draining s" "pend i ?s = pend i s" "current p h ?s = current p h s" for i p h
    by (auto simp: draining_def pend_def current_def ctx_live_def split: option.splits)
  have "lane_ok i ?s" if i: "i < length (lanes s)" for i
    by (rule lane_ok_frame [OF lanes_okD(2) [OF ok i], where l = "lanes s ! i" and es = "[]"])
       (use i lanes_okD(2) [OF ok i] in \<open>auto simp: same nth_append lane_ok_def Let_def\<close>)
  moreover have "lane_ok (length (lanes s)) ?s"
    using g at lanes_okD(5-7) [OF ok k] by (simp add: lane_ok_def lane_new_def Let_def pend_def)
  ultimately have "\<forall>i<length (lanes ?s). lane_ok i ?s"
    by (auto simp: less_Suc_eq)
  moreover have "distinct (map lane_of (lanes ?s))"
    using lanes_okD(1) [OF ok] k by (simp add: lane_new_def)
  moreover have "received k' (log ?s) = [] \<and> begun k' (log ?s) = [] \<and> ended k' (log ?s) = []" if "k' \<notin> set (map lane_of (lanes ?s))" for k'
    using lanes_okD(5-7) [OF ok, of k'] that by simp
  moreover have "task_ok ?s"
    using lanes_okD(3) [OF ok] at by (simp add: task_ok_def)
  ultimately show ?thesis
    using lanes_okD(4) [OF ok] by (simp add: lanes_ok_def del: set_map)
qed

lemma route_message_ok:
  assumes r: "lanes_ok r" "asg r" "task_at r = Receiving" and s': "s' = route_message topic p n b r"
  shows "lanes_ok s' \<and> asg s'"
proof -
  show ?thesis
  proof (cases "\<exists>g t. map_of (partitions r) p = Some (g, t) \<and> ctx_live t r")
    case False
    then have "s' = r" using s' by (auto simp: route_message_def split: option.splits)
    then show ?thesis using r by simp
  next
    case True
    then obtain g t where g: "map_of (partitions r) p = Some (g, t)" "ctx_live t r" by blast
    define m where "m = \<lparr>m_topic = topic, m_partition = p, m_offset = n, m_generation = g, m_body = b\<rparr>"
    have m: "key_of m = (topic, p, g)" "m_partition m = p" "m_generation m = g" by (simp_all add: m_def key_of_def)
    have s'': "s' = logged [Received m] (case lane_index (topic, p, g) (lanes r) of
               Some i \<Rightarrow> r\<lparr>task_at := Sending m i\<rparr>
             | None \<Rightarrow> r\<lparr>lanes := lanes r @ [lane_new (topic, p, g) t], task_at := Sending m (length (lanes r))\<rparr>)"
      using s' g by (simp add: route_message_def m_def Let_def cong: option.case_cong)
    have cur: "current p g r" using g by (simp add: current_def)
    have "lanes_ok s'"
    proof (cases "lane_index (topic, p, g) (lanes r)")
      case (Some i)
      then show ?thesis using received_old_lane [OF r(1,3), of i m] lane_index_Some [OF Some] s'' m by simp
    next
      case None
      let ?k = "(topic, p, g)"
      let ?r = "r\<lparr>lanes := lanes r @ [lane_new ?k t]\<rparr>"
      have k: "?k \<notin> set (map lane_of (lanes r))"
      proof
        assume "?k \<in> set (map lane_of (lanes r))"
        then obtain i where i: "i < length (lanes r)" "lane_of (lanes r ! i) = ?k" by (auto simp: in_set_conv_nth)
        then have "\<not> lane_open (lanes r ! i)" using lane_index_None [OF None, of "lanes r ! i"] by auto
        then show False using lanes_okD(2) [OF r(1) i(1)] i(2) cur r(3) by (auto simp: lane_ok_def Let_def draining_def)
      qed
      have "unat g \<le> bumps (log r)" using r(2) g(1) by (auto simp: asg_ok_def)
      then have "lanes_ok ?r" using new_lane_ok [OF r(1,3) k] by simp
      then have "lanes_ok (logged [Received m] (?r\<lparr>task_at := Sending m (length (lanes r))\<rparr>))"
        by (rule received_old_lane) (use r(3) m in \<open>simp_all add: lane_new_def\<close>)
      then show ?thesis using s'' None by (simp add: logged_def)
    qed
    moreover have "asg_ok (partitions r) (revision r) (failed r) (log r @ [Received m])"
      using asg_ok_received [OF r(2), of m t] g(1) m by simp
    then have "asg s'" using s'' by (simp split: option.split)
    ultimately show ?thesis by simp
  qed
qed

lemma receive_ok:
  assumes ok: "lanes_ok s" and asg: "asg s" and step: "receive topic p n b s = Some s'"
  shows "lanes_ok s' \<and> asg s'"
proof -
  have at: "task_at s = Receiving" and s': "s' = route_message topic p n b (retain_lanes s)"
    using step by (auto simp: receive_def split: if_splits)
  have "asg (retain_lanes s)" "task_at (retain_lanes s) = Receiving"
    using asg at by (auto simp: retain_lanes_def)
  then show ?thesis
    using route_message_ok [OF retain_ok [OF ok at] _ _ s'] by simp
qed

lemma send_ok:
  assumes ok: "lanes_ok s" and step: "send s = Some s'"
  shows "lanes_ok s'"
proof -
  obtain m i where at: "task_at s = Sending m i" using step by (auto simp: send_def split: task_pc.splits)
  have i: "i < length (lanes s)" "key_of m = lane_of (lanes s ! i)"
    using lanes_okD(3) [OF ok] at by (auto simp: task_ok_def)
  let ?l = "lanes s ! i"
  let ?l' = "?l\<lparr>lane_queue := lane_queue ?l @ [m]\<rparr>"
  let ?s = "s\<lparr>lanes := (lanes s)[i := ?l'], task_at := Receiving\<rparr>"
  consider "s' = leave_loop s" | "s' = ?s"
    using step at by (auto simp: send_def Let_def split: if_splits)
  then show ?thesis
  proof cases
    case 1
    then show ?thesis using leave_loop_ok [OF ok] at by auto
  next
    case 2
    have "lanes_ok ?s"
    proof (rule lanes_ok_one [OF ok i(1), where l = ?l' and es = "[]"])
      show "lane_ok i ?s"
        using lanes_okD(2) [OF ok i(1)] at i(1)
        by (auto simp: lane_ok_def Let_def draining_def pend_def current_def ctx_live_def split: option.splits)
    qed (use at i lanes_okD(3,4) [OF ok] in \<open>auto simp: draining_def pend_def task_ok_def\<close>)
    then show ?thesis using 2 by simp
  qed
qed

lemma lane_take_ok:
  assumes ok: "lanes_ok s" and step: "lane_take i s = Some s'"
  shows "lanes_ok s'"
proof -
  let ?l = "lanes s ! i"
  have i: "i < length (lanes s)" "lane_alive ?l" "lane_busy ?l = None"
    using step by (auto simp: lane_take_def Let_def split: if_splits)
  have lane: "lane_ok i s" using lanes_okD(2) [OF ok i(1)] .
  have fin: "task_at s \<noteq> Finished" using lanes_okD(3) [OF ok] i(1,2) by (auto simp: task_ok_def list_all_length)
  then have nostop: "StopReturned \<notin> set (log s)" using lanes_okD(3) [OF ok] by (auto simp: task_ok_def)
  consider "s' = s\<lparr>lanes := (lanes s)[i := ?l\<lparr>lane_alive := False\<rparr>]\<rparr>"
    | m ms where "lane_queue ?l = m # ms"
        "s' = logged [Begun m] (s\<lparr>lanes := (lanes s)[i := ?l\<lparr>lane_queue := ms, lane_busy := Some m\<rparr>]\<rparr>)"
    using step by (auto simp: lane_take_def Let_def split: if_splits list.splits)
  then show ?thesis
  proof cases
    case 1
    show ?thesis
      unfolding 1
    proof (rule lanes_ok_one [OF ok i(1), where l = "?l\<lparr>lane_alive := False\<rparr>" and es = "[]"])
      show "lane_ok i (s\<lparr>lanes := (lanes s)[i := ?l\<lparr>lane_alive := False\<rparr>]\<rparr>)"
        using lane i by (auto simp: lane_ok_def Let_def draining_def pend_def current_def ctx_live_def split: option.splits)
      show "task_ok (s\<lparr>lanes := (lanes s)[i := ?l\<lparr>lane_alive := False\<rparr>]\<rparr>)"
        using lanes_okD(3) [OF ok] i(1) fin by (auto simp: task_ok_def nth_list_update split: task_pc.splits)
    qed (use lanes_okD(4) [OF ok] in \<open>auto simp: draining_def pend_def\<close>)
  next
    case 2
    have "m \<in> set (received (lane_of ?l) (log s))" using lane 2(1) by (auto simp: lane_ok_def Let_def)
    then have m: "key_of m = lane_of ?l" by (auto simp: lane_events_mem)
    show ?thesis
      unfolding 2(2)
    proof (rule lanes_ok_one [OF ok i(1), where l = "?l\<lparr>lane_queue := ms, lane_busy := Some m\<rparr>" and es = "[Begun m]"])
      let ?s = "logged [Begun m] (s\<lparr>lanes := (lanes s)[i := ?l\<lparr>lane_queue := ms, lane_busy := Some m\<rparr>]\<rparr>)"
      show "lane_ok i ?s"
        using lane i 2(1) m by (auto simp: lane_ok_def Let_def draining_def pend_def current_def ctx_live_def split: option.splits)
      show "task_ok ?s"
        using lanes_okD(3) [OF ok] i(1) fin by (auto simp: task_ok_def nth_list_update split: task_pc.splits)
      show "always begin_ok (log ?s)"
        using lanes_okD(4) [OF ok] lane i(3) m nostop by (simp add: always_snoc lane_ok_def Let_def)
    qed (use m in \<open>auto simp: draining_def pend_def\<close>)
  qed
qed

lemma handler_ends_ok:
  assumes ok: "lanes_ok s" and step: "handler_ends i s = Some s'"
  shows "lanes_ok s'"
proof -
  let ?l = "lanes s ! i"
  obtain m where i: "i < length (lanes s)" "lane_busy ?l = Some m"
      "s' = logged [Ended m] (s\<lparr>lanes := (lanes s)[i := ?l\<lparr>lane_busy := None\<rparr>]\<rparr>)"
    using step by (auto simp: handler_ends_def Let_def split: if_splits option.splits)
  have lane: "lane_ok i s" using lanes_okD(2) [OF ok i(1)] .
  have "m \<in> set (begun (lane_of ?l) (log s))" using lane i(2) by (auto simp: lane_ok_def Let_def)
  then have m: "key_of m = lane_of ?l" by (auto simp: lane_events_mem)
  show ?thesis
    unfolding i(3)
  proof (rule lanes_ok_one [OF ok i(1), where l = "?l\<lparr>lane_busy := None\<rparr>" and es = "[Ended m]"])
    let ?s = "logged [Ended m] (s\<lparr>lanes := (lanes s)[i := ?l\<lparr>lane_busy := None\<rparr>]\<rparr>)"
    show "lane_ok i ?s"
      using lane i(1,2) m by (auto simp: lane_ok_def Let_def draining_def pend_def current_def ctx_live_def split: option.splits)
    have "task_at s = Finished \<Longrightarrow> list_all (\<lambda>l. \<not> lane_alive l) ((lanes s)[i := ?l\<lparr>lane_busy := None\<rparr>])"
      using lanes_okD(3) [OF ok] i(1) by (intro list_all_update) (auto simp: task_ok_def list_all_length)
    then show "task_ok ?s"
      using lanes_okD(3) [OF ok] i(1) by (auto simp: task_ok_def nth_list_update split: task_pc.splits)
    show "always begin_ok (log ?s)"
      using lanes_okD(4) [OF ok] by (simp add: always_snoc)
  qed (use m in \<open>auto simp: draining_def pend_def\<close>)
qed

section \<open>Runs\<close>

lemma task_init_ok:
  assumes ok: "lanes_ok s" and asg: "asg s" and step: "task_init i c s = Some s'"
  shows "lanes_ok s' \<and> asg s'"
proof -
  have at: "task_at s = Initializing" using step by (auto simp: task_init_def split: if_splits)
  then have ls: "lanes s = []" "StopReturned \<notin> set (log s)" using lanes_okD(3) [OF ok] by (auto simp: task_ok_def)
  have idle: "lanes_ok t" if "lanes t = []" "log t = log s \<or> log t = log s @ [OnError e]" "task_at t \<noteq> Initializing"
      "\<And>m j. task_at t \<noteq> Sending m j" for t e
    using that ls lanes_okD(4-) [OF ok] by (auto simp: lanes_ok_def task_ok_def always_snoc split: task_pc.splits)
  have "asg_ok (partitions s) (revision s) (failed s) (log s @ [OnError e])" for e
    by (rule asg_ok_neutral [OF asg]) simp
  then show ?thesis
    using step at ls asg by (auto simp: task_init_def split: if_splits sum.splits intro!: idle)
qed

lemma leave_ok:
  assumes ok: "lanes_ok s" and asg: "asg s" and at: "task_at s = Receiving"
    and t: "lanes t = lanes s" "task_at t = task_at s" "partitions t = partitions s" "revision t = revision s"
      "failed t = failed s" "dead t = dead s" "owner_over s \<longrightarrow> owner_over t" "log t = log s \<or> log t = log s @ [OnError e]"
  shows "lanes_ok (leave_loop t) \<and> asg (leave_loop t)"
proof -
  have "lanes_ok t"
    using t by (intro lanes_ok_weaken [OF ok, where es = "drop (length (log s)) (log t)"]) auto
  then have "lanes_ok (leave_loop t)"
    using leave_loop_ok at t(2) by metis
  moreover have "asg (leave_loop t)"
    using asg asg_ok_neutral [OF asg, of "OnError e"] t by (auto simp: leave_loop_def)
  ultimately show ?thesis ..
qed

lemma task_break_ok:
  assumes ok: "lanes_ok s" and asg: "asg s" and step: "task_break s = Some s'"
  shows "lanes_ok s' \<and> asg s'"
proof -
  have at: "task_at s = Receiving" using step by (auto simp: task_break_def split: if_splits)
  obtain t e where "s' = leave_loop t" "lanes t = lanes s" "task_at t = task_at s" "partitions t = partitions s"
      "revision t = revision s" "failed t = failed s" "dead t = dead s" "owner_over s \<longrightarrow> owner_over t"
      "log t = log s \<or> log t = log s @ [OnError e]"
    using step by (fastforce simp: task_break_def take_error_def split: if_splits option.splits)
  then show ?thesis using leave_ok [OF ok asg at] by simp
qed

lemma receive_error_ok:
  assumes ok: "lanes_ok s" and asg: "asg s" and step: "receive_error e lost s = Some s'"
  shows "lanes_ok s' \<and> asg s'"
proof -
  let ?t = "logged [OnError (Text e)] s"
  have at: "task_at s = Receiving" using step by (auto simp: receive_error_def split: if_splits)
  consider "s' = ?t" | "s' = leave_loop (?t\<lparr>owner_over := True\<rparr>)"
    using step by (auto simp: receive_error_def Let_def split: if_splits)
  then show ?thesis
  proof cases
    case 1
    then show ?thesis
      using lanes_ok_weaken [OF ok, where s' = ?t and es = "[OnError (Text e)]"] asg_ok_neutral [OF asg, of "OnError (Text e)"]
      by simp
  next
    case 2
    then show ?thesis using leave_ok [OF ok asg at, where t = "?t\<lparr>owner_over := True\<rparr>" and e = "Text e"] by simp
  qed
qed

lemma ack_message_ok:
  assumes ok: "lanes_ok s" and asg: "asg s" and step: "ack_message a m r s = Some s'"
  shows "lanes_ok s' \<and> asg s'"
proof -
  have m: "Received m \<in> set (log s)"
    using step begun_received [OF ok] by (auto simp: ack_message_def split: if_splits)
  obtain res where s': "s' = logged [AckReturned a m res] s \<or>
      \<not> failed s \<and> current (m_partition m) (m_generation m) s \<and> s' = logged [Acked a m (m_offset m + 1), AckReturned a m res] s"
    using step by (auto simp: ack_message_def acknowledge_def logged_def split: if_splits prod.splits)
  then have "lanes_ok s'"
    using lanes_ok_weaken [OF ok, where s' = s' and es = "drop (length (log s)) (log s')"] by auto
  moreover have "asg s'"
    using s'
  proof
    assume "s' = logged [AckReturned a m res] s"
    then show ?thesis using asg_ok_neutral [OF asg, of "AckReturned a m res"] by simp
  next
    assume *: "\<not> failed s \<and> current (m_partition m) (m_generation m) s \<and> s' = logged [Acked a m (m_offset m + 1), AckReturned a m res] s"
    then obtain t where "map_of (partitions s) (m_partition m) = Some (m_generation m, t)"
      by (auto simp: current_def split: option.splits)
    then have "asg_ok (partitions s) (revision s) (failed s) ((log s @ [Acked a m (m_offset m + 1)]) @ [AckReturned a m res])"
      using asg_ok_neutral [OF asg_ok_acked [OF asg _ _ m]] * by simp
    then show ?thesis using * by simp
  qed
  ultimately show ?thesis ..
qed

lemma finish_ok:
  assumes ok: "lanes_ok s"
  shows "drained s = Some s' \<Longrightarrow> lanes_ok s'" "stop_return s = Some s' \<Longrightarrow> lanes_ok s'"
proof -
  assume "drained s = Some s'"
  then have d: "task_at s = Draining" "list_all (\<lambda>l. \<not> lane_alive l) (lanes s)" "s' = s\<lparr>task_at := Finished\<rparr>"
    by (auto simp: drained_def split: if_splits)
  have "lane_ok i s'" if i: "i < length (lanes s)" for i
    by (rule lane_ok_frame [OF lanes_okD(2) [OF ok i], where l = "lanes s ! i" and es = "[]"])
       (use d in \<open>simp_all add: draining_def pend_def\<close>)
  then show "lanes_ok s'"
    using lanes_okD [OF ok] d by (simp add: lanes_ok_def task_ok_def)
next
  assume "stop_return s = Some s'"
  then have d: "task_at s = Finished" "s' = logged [StopReturned] s"
    by (auto simp: stop_return_def split: if_splits)
  have "lane_ok i s'" if i: "i < length (lanes s)" for i
    by (rule lane_ok_frame [OF lanes_okD(2) [OF ok i], where l = "lanes s ! i" and es = "[StopReturned]"])
       (use d in \<open>simp_all add: draining_def pend_def\<close>)
  then show "lanes_ok s'"
    using lanes_okD [OF ok] d by (simp add: lanes_ok_def task_ok_def always_snoc)
qed

lemma log_grows:
  assumes "kafka_step topic a s = Some s'"
  shows "bumps (log s) \<le> bumps (log s')"
proof (cases a)
  case (Rebalance b ev xs)
  then have "rebal s s'" using rebalance_ok(1) assms by fastforce
  then show ?thesis by (simp add: rebal_def)
next
  case Install
  then have "rebal s s'" using rebalance_ok(1) assms by fastforce
  then show ?thesis by (simp add: rebal_def)
qed (use assms in \<open>auto simp: task_init_def task_break_def receive_error_def receive_def route_message_def retain_lanes_def send_def
  send_abort_def drained_def lane_take_def handler_ends_def ack_message_def acknowledge_def stop_begin_def stop_cancel_def
  stop_return_def leave_loop_def take_error_def Let_def split: if_splits sum.splits option.splits list.splits task_pc.splits prod.splits\<close>)

definition kafka_ok :: "'b kafka \<Rightarrow> bool" where
  "kafka_ok s \<longleftrightarrow> (bumps (log s) < 2 ^ 64 \<longrightarrow> asg s \<and> lanes_ok s)"

lemma kafka_step_ok:
  assumes ok: "lanes_ok s" and asg: "asg s" and b: "bumps (log s') < 2 ^ 64" and step: "kafka_step topic a s = Some s'"
  shows "lanes_ok s' \<and> asg s'"
proof (cases a)
  case (Rebalance br ev xs)
  then have "rebal s s' \<and> asg s'" using rebalance_ok [of br topic ev xs s s'] step asg b by auto
  then show ?thesis using rebal_lanes_ok [OF _ asg b ok] by blast
next
  case Install
  then have "rebal s s' \<and> asg s'" using rebalance_ok [of undefined topic undefined undefined s s'] step asg b by auto
  then show ?thesis using rebal_lanes_ok [OF _ asg b ok] by blast
next
  case (Init i c)
  then show ?thesis using task_init_ok [OF ok asg] step by simp
next
  case Break
  then show ?thesis using task_break_ok [OF ok asg] step by simp
next
  case (ReceiveError e l)
  then show ?thesis using receive_error_ok [OF ok asg] step by simp
next
  case (Receive t p n x)
  then show ?thesis using receive_ok [OF ok asg] step by simp
next
  case Send
  then show ?thesis using send_ok [OF ok] step asg
    by (auto simp: send_def leave_loop_def Let_def split: task_pc.splits if_splits)
next
  case SendAbort
  then obtain m i where "task_at s = Sending m i" "s' = leave_loop s" 
    using step by (auto simp: send_abort_def split: task_pc.splits if_splits)
  then show ?thesis using leave_loop_ok [OF ok] asg by (auto simp: leave_loop_def)
next
  case Drained
  then show ?thesis using finish_ok(1) [OF ok] step asg by (auto simp: drained_def split: if_splits)
next
  case (LaneTake i)
  then show ?thesis using lane_take_ok [OF ok] step asg asg_ok_neutral [OF asg]
    by (auto simp: lane_take_def Let_def split: if_splits list.splits)
next
  case (HandlerEnds i)
  then show ?thesis using handler_ends_ok [OF ok] step asg asg_ok_neutral [OF asg]
    by (auto simp: handler_ends_def Let_def split: if_splits option.splits)
next
  case (Ack x m r)
  then show ?thesis using ack_message_ok [OF ok asg] step by simp
next
  case StopReturn
  then show ?thesis using finish_ok(2) [OF ok] step asg asg_ok_neutral [OF asg] by (auto simp: stop_return_def split: if_splits)
qed (use step asg lanes_ok_weaken [OF ok, where s' = s' and es = "[]"] in \<open>auto simp: stop_begin_def stop_cancel_def subset_insertI split: if_splits\<close>)

interpretation kafka: step_system "kafka_step topic" kafka_ok
proof unfold_locales
  fix s :: "'b kafka" and a s' assume "kafka_ok s" "kafka_step topic a s = Some s'"
  then show "kafka_ok s'"
    using log_grows [of topic a s s'] kafka_step_ok [of s s' topic a] by (auto simp: kafka_ok_def)
qed

lemma kafka_run:
  assumes "run_steps (kafka_step topic) as kafka_new = Some s" "bumps (log s) < 2 ^ 64"
  shows "asg s" "lanes_ok s"
proof -
  have "kafka_ok (kafka_new :: 'a kafka)"
    by (simp add: kafka_ok_def lanes_ok_new) (simp add: kafka_new_def asg_ok_new)
  then show "asg s" "lanes_ok s"
    using kafka.run_inv [OF _ assms(1)] assms(2) by (auto simp: kafka_ok_def)
qed

section \<open>What the source guarantees\<close>

text \<open>Items of an assignment that passed the checks: the offset is the checkpoint's and inside the retained log.\<close>

lemma check_item_spec:
  "check_item b topic offsets x = Inr (t, p, n) \<longleftrightarrow>
     x = (topic, p) \<and> t = topic \<and>
     (case offsets of
        None \<Rightarrow> n = None
      | Some os \<Rightarrow> \<exists>next low high. map_of os p = Some next \<and> watermarks b t p = Inr (low, high) \<and> 0 \<le> low \<and> low \<le> next \<and>
          next \<le> high \<and> set_offset b t p next = Inr () \<and> n = Some next)"
  by (cases x; cases offsets) (auto simp: check_item_def split: option.splits sum.splits if_splits)

text \<open>
  C4. A message is acknowledged only under the assignment it was received under. Under every interleaving of
  rebalances, received messages, handlers, cancellations and \<open>stop\<close>, with fewer than \<open>2 ^ 64\<close> completed rebalances:
  when the offset of a message is stored or committed, the message had been received, the stored offset is the next
  one, and since it was received no call of the client library has assigned, revoked or replaced its partition and
  no rebalance has failed.
\<close>

theorem kafka_ack_assignment:
  assumes run: "run_steps (kafka_step topic) as kafka_new = Some s" and few: "bumps (log s) < 2 ^ 64"
    and ack: "log s = l1 @ Acked a m n # l2"
  shows "n = m_offset m + 1 \<and> Received m \<in> set l1 \<and> (\<forall>e. Failing e \<notin> set l1) \<and>
    (\<forall>k1 k2. l1 = k1 @ Received m # k2 \<longrightarrow> \<not> list_ex (reassigns (m_partition m)) k2)"
proof -
  have "always ack_ok (log s)"
    using kafka_run(1) [OF run few] by (simp add: asg_ok_def)
  then have "ack_ok l1 (Acked a m n)"
    using ack by (rule always_at)
  then show ?thesis
    by (auto simp: reassigned_def)
qed


definition demo_broker :: broker where
  "demo_broker = \<lparr>cooperative = True, restored = Inr (Some [(0, 5), (1, 0)]), watermarks = (\<lambda>_ _. Inr (0, 9)),
     set_offset = (\<lambda>_ _ _. Inr ()), native = (\<lambda>_. Inr ())\<rparr>"

definition demo_message :: "int \<Rightarrow> string message" where
  "demo_message n = \<lparr>m_topic = ''t'', m_partition = 0, m_offset = n, m_generation = 1, m_body = ''x''\<rparr>"

text \<open>
  Two messages of an assignment: the first is committed, then the partition is revoked and assigned again, and the
  commit of the second is refused.
\<close>

definition demo_actions :: "string kafka_action list" where
  "demo_actions =
     [Init (Inr (Some [])) (Inr ()), Rebalance demo_broker AssignPartitions [(''t'', 0)], Install,
      Receive ''t'' 0 5 ''x'', Send, Receive ''t'' 0 6 ''x'', Send, LaneTake 0, Ack Commit (demo_message 5) (Inr ()),
      HandlerEnds 0, LaneTake 0, Rebalance demo_broker RevokePartitions [(''t'', 0)],
      Rebalance demo_broker AssignPartitions [(''t'', 0)], Install, Ack Commit (demo_message 6) (Inr ()), HandlerEnds 0]"

definition demo_log :: "string kafka_event list" where
  "demo_log =
     [Native (IncrementalAssign [(''t'', 0, Some 5)]), Installed 1 [0], Received (demo_message 5), Received (demo_message 6),
      Begun (demo_message 5), Acked Commit (demo_message 5) 6, AckReturned Commit (demo_message 5) (Inr ()),
      Ended (demo_message 5), Begun (demo_message 6), Native (IncrementalUnassign [0]), Revoked 2,
      Native (IncrementalAssign [(''t'', 0, Some 5)]), Installed 3 [0],
      AckReturned Commit (demo_message 6) (Inl ''Kafka message belongs to a revoked assignment''), Ended (demo_message 6)]"

lemma demo_kafka: "map_option log (run_steps (kafka_step ''t'') demo_actions kafka_new) = Some demo_log"
  by code_simp

lemma demo_bumps: "bumps demo_log < 2 ^ 64"
  by (simp add: demo_log_def)

theorem kafka_ack_assignment_witness:
  "6 = m_offset (demo_message 5) + 1 \<and> Received (demo_message 5) \<in> set (take 5 demo_log) \<and>
    (\<forall>e. Failing e \<notin> set (take 5 demo_log)) \<and>
    \<not> list_ex (reassigns (m_partition (demo_message 5))) [Received (demo_message 6), Begun (demo_message 5)]"
proof -
  obtain s where s: "run_steps (kafka_step ''t'') demo_actions kafka_new = Some s" "log s = demo_log"
    using demo_kafka by auto
  have few: "bumps (log s) < 2 ^ 64" using s(2) demo_bumps by simp
  have "log s = take 5 demo_log @ Acked Commit (demo_message 5) 6 # drop 6 demo_log"
    by (simp add: s(2) demo_log_def)
  from kafka_ack_assignment [OF s(1) few this] show ?thesis
    by (simp add: demo_log_def)
qed


end
