(* ===== verification/Kafka_Sink.thy ===== *)
theory Kafka_Sink
  imports Step_Systems
begin

text \<open>
  The Kafka sink, \<open>src/datasink/kafka/rdkafka.rs\<close>: registration of endpoints, \<open>start\<close>, \<open>stop\<close> and the messages that
  handlers send, each cut at its suspension points and at the accesses to shared fields. The configuration lookups, the
  client library's answers and the outcome of the handler's partitioner come with the actions. \<open>state\<close> is the source's
  \<open>AtomicU8\<close> with the values 0 to 3. A message is its topic, key and value and is left opaque (\<open>'m\<close>).
\<close>

section \<open>Data\<close>

datatype sink_state = Fresh | Starting | Running | Stopped

record endpoint_runtime =
  ep_enabled :: bool
  ep_partitions :: int

record kafka_endpoint =
  ke_id :: int
  ke_connector :: int
  ke_enabled :: bool
  ke_partitions :: int
  ke_replication :: int
  ke_topic :: string
  ke_create_topic :: bool

datatype security_protocol = PLAINTEXT | SASLPLAINTEXT | SASLSSL
datatype sasl_mechanism = PLAIN | SCRAMSHA256 | SCRAMSHA512

record kafka_connector =
  kc_id :: int
  brokers :: string
  security :: security_protocol
  username :: string
  password :: string
  mechanism :: sasl_mechanism

text \<open>A lookup in the runtime configuration: nothing, an entry of another kind, or a Kafka entry.\<close>

datatype 'a lookup = Absent | OtherKind | Found 'a

datatype start_phase =
    NoStart
  | Listing
  | Topics "(nat \<times> string) list"
  | Metadata "(nat \<times> string) list"

datatype sink_delivery = Delivery int int "string option"

datatype send_phase = CheckState | GetProducer | AwaitDelivery | Collect sink_delivery | Over sink_delivery

record 'm send_call =
  spawned :: bool
  content :: 'm
  chosen :: "int option"
  phase :: send_phase

datatype stop_phase = Waiting | Flushing | StopDone

datatype sink_event =
    Added int
  | Listed "int list"
  | StartOk
  | StartErr runtime_error
  | StartRefused runtime_error
  | Spawned nat
  | Handed nat
  | Delivered nat int int
  | Collected nat sink_delivery
  | StopAgain
  | Drained nat
  | StopOk nat
  | StopErr nat

record 'm sink =
  ident :: int
  state :: sink_state
  producer :: bool
  endpoints :: "(int \<times> nat) list"
  runtimes :: "endpoint_runtime list"
  adding :: "int option"
  start_at :: start_phase
  listed :: "int list"
  sends :: "'m send_call list"
  closed :: bool
  stops :: "stop_phase list"
  events :: "sink_event list"

definition sink_new :: "int \<Rightarrow> 'm sink" where
  "sink_new i = \<lparr>ident = i, state = Fresh, producer = False, endpoints = [], runtimes = [], adding = None, start_at = NoStart, listed = [],
     sends = [], closed = False, stops = [], events = []\<rparr>"

definition happened :: "sink_event list \<Rightarrow> 'm sink \<Rightarrow> 'm sink" where
  "happened es s = s\<lparr>events := events s @ es\<rparr>"

section \<open>Endpoints\<close>

text \<open>The configurations of the endpoint of a sink stream and of its connector, and the sink that is made for them.\<close>

definition kafka_sink_configs ::
  "(int \<Rightarrow> kafka_endpoint lookup) \<Rightarrow> (int \<Rightarrow> kafka_connector lookup) \<Rightarrow> int \<Rightarrow> runtime_error + (kafka_endpoint \<times> kafka_connector)" where
  "kafka_sink_configs endpoint_by_id data_connector_by_id endpoint_id =
     (case endpoint_by_id endpoint_id of
        Absent \<Rightarrow> Inl (InvalidConfiguration ''endpoint referenced by sink stream is not configured'')
      | OtherKind \<Rightarrow> Inl (InvalidConfiguration ''endpoint referenced by sink stream is not a Kafka endpoint'')
      | Found endpoint \<Rightarrow>
          (case data_connector_by_id (ke_connector endpoint) of
             Absent \<Rightarrow> Inl (InvalidConfiguration ''data connector referenced by endpoint is not configured'')
           | OtherKind \<Rightarrow> Inl (InvalidConfiguration ''endpoint does not reference a Kafka data connector'')
           | Found connector \<Rightarrow> Inr (endpoint, connector)))"

definition sink_from_stream ::
  "(int \<Rightarrow> kafka_endpoint lookup) \<Rightarrow> (int \<Rightarrow> kafka_connector lookup) \<Rightarrow> int \<Rightarrow> runtime_error + 'm sink" where
  "sink_from_stream endpoint_by_id data_connector_by_id endpoint_id =
     (case kafka_sink_configs endpoint_by_id data_connector_by_id endpoint_id of
        Inl e \<Rightarrow> Inl e
      | Inr (endpoint, connector) \<Rightarrow>
          (if ke_connector endpoint \<noteq> kc_id connector
           then Inl (InvalidConfiguration ''Kafka endpoint references another connector'')
           else Inr (sink_new (kc_id connector))))"

text \<open>
  \<open>get_or_add_endpoint\<close>: the state is read before the lock on the endpoints is taken, which may have to wait, and again
  after it; the endpoint is pushed before the lock is released.
\<close>

definition add_lock :: "kafka_endpoint \<Rightarrow> 'm sink \<Rightarrow> (runtime_error + 'm sink) option" where
  "add_lock c s =
     (if ke_connector c \<noteq> ident s then Some (Inl (InvalidConfiguration ''Kafka endpoint references another connector''))
      else if state s \<noteq> Fresh then Some (Inl (ResourceAlreadyStarted []))
      else if adding s \<noteq> None then None
      else Some (Inr (s\<lparr>adding := Some (ke_id c)\<rparr>)))"

definition add_push :: "'m sink \<Rightarrow> 'm sink option" where
  "add_push s =
     (case adding s of
        None \<Rightarrow> None
      | Some e \<Rightarrow>
          Some (happened [Added e]
            (case map_of (endpoints s) e of
               Some _ \<Rightarrow> s\<lparr>adding := None\<rparr>
             | None \<Rightarrow>
                 s\<lparr>adding := None, endpoints := endpoints s @ [(e, length (runtimes s))],
                   runtimes := runtimes s @ [\<lparr>ep_enabled = False, ep_partitions = 1\<rparr>]\<rparr>)))"

section \<open>Start\<close>

definition start_enter :: "'m sink \<Rightarrow> 'm sink" where
  "start_enter s =
     (case state s of
        Fresh \<Rightarrow> s\<lparr>state := Starting, start_at := Listing\<rparr>
      | Stopped \<Rightarrow> happened [StartRefused (ResourceStopped [])] s
      | _ \<Rightarrow> happened [StartRefused (ResourceAlreadyStarted [])] s)"

definition start_fails :: "bool \<Rightarrow> runtime_error \<Rightarrow> 'm sink \<Rightarrow> 'm sink" where
  "start_fails reset e s = happened [StartErr e] (s\<lparr>state := (if reset then Fresh else state s), start_at := NoStart\<rparr>)"

text \<open>The loop over the endpoints: it stores what it has read also when a later endpoint is refused.\<close>

fun start_endpoints ::
  "(int \<Rightarrow> kafka_endpoint lookup) \<Rightarrow> (int \<times> nat) list \<Rightarrow> endpoint_runtime list \<Rightarrow>
   (runtime_error + (nat \<times> string) list) \<times> endpoint_runtime list" where
  "start_endpoints endpoint_by_id [] rts = (Inr [], rts)"
| "start_endpoints endpoint_by_id ((e, i) # es) rts =
     (case endpoint_by_id e of
        Absent \<Rightarrow> (Inl (InvalidConfiguration ''Kafka endpoint is not configured''), rts)
      | OtherKind \<Rightarrow> (Inl (InvalidConfiguration ''endpoint is not Kafka''), rts)
      | Found c \<Rightarrow>
          (case start_endpoints endpoint_by_id es (rts[i := \<lparr>ep_enabled = ke_enabled c, ep_partitions = max (ke_partitions c) 1\<rparr>]) of
             (Inr topics, rts') \<Rightarrow> (Inr (if ke_enabled c then (i, ke_topic c) # topics else topics), rts')
           | r \<Rightarrow> r))"

definition apply_security :: "kafka_connector \<Rightarrow> runtime_error + (string \<times> string) list" where
  "apply_security c =
     (let protocol = (case security c of PLAINTEXT \<Rightarrow> ''PLAINTEXT'' | SASLPLAINTEXT \<Rightarrow> ''SASL_PLAINTEXT'' | SASLSSL \<Rightarrow> ''SASL_SSL'')
      in if security c = PLAINTEXT then Inr [(''security.protocol'', protocol)]
         else if username c = [] \<or> password c = [] then Inl (InvalidConfiguration ''Kafka SASL username and password must both be configured'')
         else Inr [(''security.protocol'', protocol),
           (''sasl.mechanism'', case mechanism c of PLAIN \<Rightarrow> ''PLAIN'' | SCRAMSHA256 \<Rightarrow> ''SCRAM-SHA-256'' | SCRAMSHA512 \<Rightarrow> ''SCRAM-SHA-512''),
           (''sasl.username'', username c), (''sasl.password'', password c)])"

text \<open>The connector and the clients: \<open>statistics\<close> and \<open>clients\<close> are what creating the statistics context, the admin
  client and the producer answers.\<close>

definition start_connect ::
  "kafka_connector lookup \<Rightarrow> (string \<Rightarrow> bool) \<Rightarrow> runtime_error option \<Rightarrow> string option \<Rightarrow> (nat \<times> string) list \<Rightarrow> 'm sink \<Rightarrow> 'm sink" where
  "start_connect connector blank statistics clients topics s =
     (case connector of
        Absent \<Rightarrow> start_fails True (InvalidConfiguration ''Kafka data connector is not configured'') s
      | OtherKind \<Rightarrow> start_fails True (InvalidConfiguration ''data connector is not Kafka'') s
      | Found c \<Rightarrow>
          (if blank (brokers c) then start_fails True (InvalidConfiguration ''no brokers specified for Kafka data connector'') s
           else case apply_security c of
             Inl e \<Rightarrow> start_fails False e s
           | Inr _ \<Rightarrow>
               (case statistics of
                  Some e \<Rightarrow> start_fails False e s
                | None \<Rightarrow>
                    (case clients of
                       Some e \<Rightarrow> start_fails True (Transport e) s
                     | None \<Rightarrow> s\<lparr>start_at := Topics topics\<rparr>))))"

text \<open>The part of \<open>start\<close> from the list of the endpoints to the first suspension.\<close>

definition start_list ::
  "(int \<Rightarrow> kafka_endpoint lookup) \<Rightarrow> kafka_connector lookup \<Rightarrow> (string \<Rightarrow> bool) \<Rightarrow> runtime_error option \<Rightarrow> string option \<Rightarrow>
   'm sink \<Rightarrow> 'm sink option" where
  "start_list endpoint_by_id connector blank statistics clients s =
     (if start_at s \<noteq> Listing \<or> adding s \<noteq> None then None
      else
        let (r, rts) = start_endpoints endpoint_by_id (endpoints s) (runtimes s);
            s1 = happened [Listed (map fst (endpoints s))] (s\<lparr>listed := map fst (endpoints s), runtimes := rts\<rparr>)
        in Some (case r of
             Inl e \<Rightarrow> start_fails True e s1
           | Inr topics \<Rightarrow>
               if topics = [] then happened [StartOk] (s1\<lparr>state := Running, start_at := NoStart\<rparr>)
               else start_connect connector blank statistics clients topics s1))"

fun topics_to_create :: "string list \<Rightarrow> kafka_endpoint list \<Rightarrow> (string \<times> int \<times> int) list" where
  "topics_to_create names [] = []"
| "topics_to_create names (c # cs) =
     (if ke_enabled c \<and> ke_create_topic c \<and> ke_topic c \<notin> set names
      then (ke_topic c, max (ke_partitions c) 1, max (ke_replication c) 1) # topics_to_create (ke_topic c # names) cs
      else topics_to_create names cs)"

fun kafka_only :: "kafka_endpoint lookup list \<Rightarrow> kafka_endpoint list" where
  "kafka_only [] = []"
| "kafka_only (Found c # ls) = c # kafka_only ls"
| "kafka_only (_ # ls) = kafka_only ls"

text \<open>The broker's answer to the creation: an error of the call, or for every topic success, that it exists, or an error.\<close>

datatype topic_result = TopicOk | TopicAlreadyExists | TopicError string

definition create_topics ::
  "(int \<Rightarrow> kafka_endpoint lookup) \<Rightarrow> ((string \<times> int \<times> int) list \<Rightarrow> string + topic_result list) \<Rightarrow> 'm sink \<Rightarrow> string + unit" where
  "create_topics endpoint_by_id admin s =
     (let topics = topics_to_create [] (kafka_only (map (endpoint_by_id \<circ> fst) (endpoints s)))
      in if topics = [] then Inr ()
         else case admin topics of
           Inl e \<Rightarrow> Inl e
         | Inr rs \<Rightarrow>
             (case find (\<lambda>r. case r of TopicError _ \<Rightarrow> True | _ \<Rightarrow> False) rs of
                Some (TopicError e) \<Rightarrow> Inl (''create Kafka topic failed: '' @ e)
              | _ \<Rightarrow> Inr ()))"

definition start_topics ::
  "(int \<Rightarrow> kafka_endpoint lookup) \<Rightarrow> ((string \<times> int \<times> int) list \<Rightarrow> string + topic_result list) \<Rightarrow> 'm sink \<Rightarrow> 'm sink option" where
  "start_topics endpoint_by_id admin s =
     (case start_at s of
        Topics ts \<Rightarrow>
          (if adding s \<noteq> None then None
           else case create_topics endpoint_by_id admin s of
             Inl e \<Rightarrow> Some (start_fails True (Transport e) s)
           | Inr _ \<Rightarrow> Some (s\<lparr>start_at := Metadata ts\<rparr>))
      | _ \<Rightarrow> None)"

fun discover :: "(string \<times> nat) list \<Rightarrow> (nat \<times> string) list \<Rightarrow> (nat \<times> int) list option" where
  "discover counts [] = Some []"
| "discover counts ((i, topic) # ts) =
     (let n = (case map_of counts topic of Some n \<Rightarrow> n | None \<Rightarrow> 0)
      in if 0 < n \<and> n < 2 ^ 31 then map_option (Cons (i, int n)) (discover counts ts) else None)"

fun store_partitions :: "(nat \<times> int) list \<Rightarrow> endpoint_runtime list \<Rightarrow> endpoint_runtime list" where
  "store_partitions [] rts = rts"
| "store_partitions ((i, n) # ps) rts = store_partitions ps (rts[i := (rts ! i)\<lparr>ep_partitions := n\<rparr>])"

definition start_metadata :: "(string + (string \<times> nat) list) \<Rightarrow> 'm sink \<Rightarrow> 'm sink option" where
  "start_metadata answer s =
     (case start_at s of
        Metadata ts \<Rightarrow>
          (case answer of
             Inl e \<Rightarrow> Some (start_fails False (Transport e) s)
           | Inr counts \<Rightarrow>
               (case discover counts ts of
                  None \<Rightarrow> Some (start_fails False (Transport ''Kafka topic has no partitions'') s)
                | Some ps \<Rightarrow>
                    Some (happened [StartOk]
                      (s\<lparr>runtimes := store_partitions ps (runtimes s), producer := True, state := Running, start_at := NoStart\<rparr>))))
      | _ \<Rightarrow> None)"

section \<open>Messages\<close>

text \<open>
  \<open>SinkMessage::send\<close> asks the partitioner and spawns a task on the tracker, which delivers the error or sends and
  delivers the outcome; \<open>send_sync\<close> runs the same \<open>RdkafkaKafkaDataSink::send\<close> in the caller.
\<close>

definition message_partition :: "('v \<Rightarrow> int \<Rightarrow> string + int) option \<Rightarrow> 'v \<Rightarrow> int \<Rightarrow> string + int option" where
  "message_partition partitioner v partitions =
     (case partitioner of
        Some p \<Rightarrow> (case p v (max partitions 1) of Inl e \<Rightarrow> Inl e | Inr n \<Rightarrow> Inr (Some n))
      | None \<Rightarrow> Inr None)"

definition begin_send :: "bool \<Rightarrow> 'm \<Rightarrow> string + int option \<Rightarrow> 'm sink \<Rightarrow> 'm sink" where
  "begin_send is_spawned m part s =
     (let n = length (sends s);
          first = (case part of
                     Inr _ \<Rightarrow> CheckState
                   | Inl e \<Rightarrow> if is_spawned then Collect (Delivery 0 0 (Some e)) else Over (Delivery 0 0 (Some e)));
          call = \<lparr>spawned = is_spawned, content = m, chosen = (case part of Inr p \<Rightarrow> p | Inl _ \<Rightarrow> None), phase = first\<rparr>
      in happened (if is_spawned then [Spawned n] else []) (s\<lparr>sends := sends s @ [call]\<rparr>))"

definition move_send :: "nat \<Rightarrow> send_phase \<Rightarrow> 'm sink \<Rightarrow> 'm sink" where
  "move_send n p s = s\<lparr>sends := (sends s)[n := (sends s ! n)\<lparr>phase := p\<rparr>]\<rparr>"

definition send_at :: "nat \<Rightarrow> send_phase \<Rightarrow> 'm sink \<Rightarrow> bool" where
  "send_at n p s \<longleftrightarrow> n < length (sends s) \<and> phase (sends s ! n) = p"

definition sent :: "nat \<Rightarrow> sink_delivery \<Rightarrow> 'm sink \<Rightarrow> 'm sink" where
  "sent n d s = move_send n (if spawned (sends s ! n) then Collect d else Over d) s"

definition send_check :: "nat \<Rightarrow> 'm sink \<Rightarrow> 'm sink option" where
  "send_check n s =
     (if send_at n CheckState s
      then Some (if state s \<noteq> Running then sent n (Delivery 0 0 (Some ''Kafka producer is not running'')) s
                 else move_send n GetProducer s)
      else None)"

definition send_get :: "nat \<Rightarrow> 'm sink \<Rightarrow> 'm sink option" where
  "send_get n s =
     (if send_at n GetProducer s
      then Some (if producer s then happened [Handed n] (move_send n AwaitDelivery s)
                 else sent n (Delivery 0 0 (Some ''Kafka producer is not running'')) s)
      else None)"

definition send_answer :: "nat \<Rightarrow> string + int \<times> int \<Rightarrow> 'm sink \<Rightarrow> 'm sink option" where
  "send_answer n answer s =
     (if send_at n AwaitDelivery s
      then Some (case answer of
          Inr (p, off) \<Rightarrow> happened [Delivered n p off] (sent n (Delivery p off None) s)
        | Inl e \<Rightarrow> sent n (Delivery 0 0 (Some e)) s)
      else None)"

definition collect_done :: "nat \<Rightarrow> 'm sink \<Rightarrow> 'm sink option" where
  "collect_done n s =
     (if n < length (sends s) then
        (case phase (sends s ! n) of
           Collect d \<Rightarrow> Some (happened [Collected n d] (move_send n (Over d) s))
         | _ \<Rightarrow> None)
      else None)"

section \<open>Stop\<close>

fun is_over :: "send_phase \<Rightarrow> bool" where
  "is_over (Over _) = True"
| "is_over _ = False"

definition tracker_empty :: "'m sink \<Rightarrow> bool" where
  "tracker_empty s \<longleftrightarrow> list_all (\<lambda>c. spawned c \<longrightarrow> is_over (phase c)) (sends s)"

definition stop_swap :: "'m sink \<Rightarrow> 'm sink" where
  "stop_swap s =
     (if state s = Stopped then happened [StopAgain] s
      else s\<lparr>state := Stopped, closed := True, stops := stops s @ [Waiting]\<rparr>)"

definition stop_at :: "nat \<Rightarrow> stop_phase \<Rightarrow> 'm sink \<Rightarrow> bool" where
  "stop_at i p s \<longleftrightarrow> i < length (stops s) \<and> stops s ! i = p"

definition stop_wait :: "nat \<Rightarrow> 'm sink \<Rightarrow> 'm sink option" where
  "stop_wait i s =
     (if stop_at i Waiting s \<and> closed s \<and> tracker_empty s
      then Some (if producer s then happened [Drained i] (s\<lparr>stops := (stops s)[i := Flushing]\<rparr>)
                 else happened [Drained i, StopOk i] (s\<lparr>stops := (stops s)[i := StopDone]\<rparr>))
      else None)"

definition wait_cancelled :: "nat \<Rightarrow> 'm sink \<Rightarrow> 'm sink option" where
  "wait_cancelled i s =
     (if stop_at i Waiting s then Some (happened [StopErr i] (s\<lparr>stops := (stops s)[i := StopDone]\<rparr>)) else None)"

definition stop_flush :: "nat \<Rightarrow> bool \<Rightarrow> bool \<Rightarrow> 'm sink \<Rightarrow> 'm sink option" where
  "stop_flush i flushed cancelled s =
     (if stop_at i Flushing s
      then Some (if flushed then happened [StopOk i] (s\<lparr>stops := (stops s)[i := StopDone]\<rparr>)
                 else if cancelled then happened [StopErr i] (s\<lparr>stops := (stops s)[i := StopDone]\<rparr>)
                 else s)
      else None)"

section \<open>Runs\<close>

datatype 'm sink_action =
    AddLock kafka_endpoint
  | AddPush
  | StartEnter
  | StartList "int \<Rightarrow> kafka_endpoint lookup" "kafka_connector lookup" "string \<Rightarrow> bool" "runtime_error option" "string option"
  | StartTopics "int \<Rightarrow> kafka_endpoint lookup" "(string \<times> int \<times> int) list \<Rightarrow> string + topic_result list"
  | StartMetadata "string + (string \<times> nat) list"
  | StartDropped
  | Send bool 'm "string + int option"
  | SendCheck nat
  | SendGet nat
  | SendAnswer nat "string + int \<times> int"
  | CollectDone nat
  | StopEnter
  | StopWait nat
  | StopCancel nat
  | StopFlush nat bool bool

fun sink_step :: "'m sink_action \<Rightarrow> 'm sink \<Rightarrow> 'm sink option" where
  "sink_step (AddLock e) s = (case add_lock e s of None \<Rightarrow> None | Some (Inl _) \<Rightarrow> Some s | Some (Inr s') \<Rightarrow> Some s')"
| "sink_step AddPush s = add_push s"
| "sink_step StartEnter s = Some (start_enter s)"
| "sink_step (StartList f c blank st cl) s = start_list f c blank st cl s"
| "sink_step (StartTopics f admin) s = start_topics f admin s"
| "sink_step (StartMetadata answer) s = start_metadata answer s"
| "sink_step StartDropped s =
     (case start_at s of Topics _ \<Rightarrow> Some (s\<lparr>start_at := NoStart\<rparr>) | Metadata _ \<Rightarrow> Some (s\<lparr>start_at := NoStart\<rparr>) | _ \<Rightarrow> None)"
| "sink_step (Send b m p) s = Some (begin_send b m p s)"
| "sink_step (SendCheck n) s = send_check n s"
| "sink_step (SendGet n) s = send_get n s"
| "sink_step (SendAnswer n a) s = send_answer n a s"
| "sink_step (CollectDone n) s = collect_done n s"
| "sink_step StopEnter s = Some (stop_swap s)"
| "sink_step (StopWait i) s = stop_wait i s"
| "sink_step (StopCancel i) s = wait_cancelled i s"
| "sink_step (StopFlush i f c) s = stop_flush i f c s"

section \<open>What runs keep\<close>

text \<open>Runs in which \<open>stop\<close> is not called while \<open>start\<close> is running, as the life cycle of a service does.\<close>

definition orderly_step :: "'m sink_action \<Rightarrow> 'm sink \<Rightarrow> 'm sink option" where
  "orderly_step a s = (if a = StopEnter \<and> start_at s \<noteq> NoStart then None else sink_step a s)"

fun sink_rule :: "sink_event list \<Rightarrow> sink_event \<Rightarrow> bool" where
  "sink_rule pre (Drained i) = (\<forall>n. Spawned n \<in> set pre \<longrightarrow> (\<exists>d. Collected n d \<in> set pre))"
| "sink_rule pre (Handed n) = (Spawned n \<in> set pre \<longrightarrow> (\<forall>i. Drained i \<notin> set pre))"
| "sink_rule pre (Delivered n p off) = (Handed n \<in> set pre \<and> (\<forall>p' off'. Delivered n p' off' \<notin> set pre))"
| "sink_rule pre (Collected n d) =
     (Spawned n \<in> set pre \<and> (\<forall>d'. Collected n d' \<notin> set pre) \<and>
      (\<forall>p off. d = Delivery p off None \<longrightarrow> Delivered n p off \<in> set pre))"
| "sink_rule pre (StopOk i) = (Drained i \<in> set pre)"
| "sink_rule pre StartOk =
     (\<exists>es. Listed es \<in> set pre \<and> (\<forall>e. Added e \<in> set pre \<longrightarrow> e \<in> set es))"
| "sink_rule pre _ = True"

fun about :: "nat \<Rightarrow> sink_event \<Rightarrow> bool" where
  "about n (Spawned k) = (k = n)"
| "about n (Handed k) = (k = n)"
| "about n (Delivered k _ _) = (k = n)"
| "about n (Collected k _) = (k = n)"
| "about n _ = False"

fun in_flight :: "send_phase \<Rightarrow> bool" where
  "in_flight GetProducer = True"
| "in_flight AwaitDelivery = True"
| "in_flight _ = False"

fun outcome_of :: "send_phase \<Rightarrow> sink_delivery option" where
  "outcome_of (Collect d) = Some d"
| "outcome_of (Over d) = Some d"
| "outcome_of _ = None"

definition send_ok :: "nat \<Rightarrow> 'm send_call \<Rightarrow> sink_event set \<Rightarrow> bool" where
  "send_ok n c E \<longleftrightarrow>
     (Spawned n \<in> E \<longleftrightarrow> spawned c) \<and>
     (\<forall>d. Collected n d \<in> E \<longleftrightarrow> spawned c \<and> phase c = Over d) \<and>
     (\<forall>d. phase c = Collect d \<longrightarrow> spawned c) \<and> (phase c = AwaitDelivery \<longrightarrow> Handed n \<in> E) \<and>
     (outcome_of (phase c) = None \<longrightarrow> (\<forall>p off. Delivered n p off \<notin> E)) \<and>
     (\<forall>p off. outcome_of (phase c) = Some (Delivery p off None) \<longrightarrow> Delivered n p off \<in> E) \<and>
     (spawned c \<and> in_flight (phase c) \<longrightarrow> (\<forall>i. Drained i \<notin> E))"

definition sends_ok :: "'m sink \<Rightarrow> bool" where
  "sends_ok s \<longleftrightarrow>
     (\<forall>n < length (sends s). send_ok n (sends s ! n) (set (events s))) \<and>
     (\<forall>e \<in> set (events s). \<forall>n. about n e \<longrightarrow> n < length (sends s))"

definition stops_ok :: "'m sink \<Rightarrow> bool" where
  "stops_ok s \<longleftrightarrow>
     (start_at s \<noteq> NoStart \<longrightarrow> state s = Starting) \<and>
     ((\<exists>i. Drained i \<in> set (events s)) \<longrightarrow> state s = Stopped) \<and>
     (stops s \<noteq> [] \<longrightarrow> state s = Stopped) \<and>
     (\<forall>i. stop_at i Flushing s \<longrightarrow> Drained i \<in> set (events s))"

fun listed_phase :: "start_phase \<Rightarrow> bool" where
  "listed_phase (Topics _) = True"
| "listed_phase (Metadata _) = True"
| "listed_phase _ = False"

definition adds_ok :: "'m sink \<Rightarrow> bool" where
  "adds_ok s \<longleftrightarrow>
     (\<forall>e. Added e \<in> set (events s) \<longrightarrow> e \<in> fst ` set (endpoints s)) \<and>
     (listed_phase (start_at s) \<longrightarrow> adding s = None \<and> Listed (map fst (endpoints s)) \<in> set (events s))"

definition sink_ok :: "'m sink \<Rightarrow> bool" where
  "sink_ok s \<longleftrightarrow> sends_ok s \<and> stops_ok s \<and> adds_ok s \<and> always sink_rule (events s)"

subsection \<open>Steps that leave the messages alone\<close>

fun plain :: "sink_event \<Rightarrow> bool" where
  "plain (Spawned _) = False"
| "plain (Handed _) = False"
| "plain (Delivered _ _ _) = False"
| "plain (Collected _ _) = False"
| "plain (Drained _) = False"
| "plain _ = True"

lemma send_ok_more:
  assumes "send_ok n c E" and "\<And>e. e \<in> F \<Longrightarrow> \<not> about n e" and "\<And>i. Drained i \<in> F \<Longrightarrow> \<not> (spawned c \<and> in_flight (phase c))"
  shows "send_ok n c (E \<union> F)"
proof -
  have "Spawned n \<notin> F" "Collected n d \<notin> F" "Delivered n p off \<notin> F" for d p off
    using assms(2) by fastforce+
  then show ?thesis using assms(1,3) unfolding send_ok_def by auto
qed

lemma plain_not_about: "plain e \<Longrightarrow> \<not> about n e" "plain e \<Longrightarrow> e \<noteq> Drained i"
  by (cases e; simp)+

lemma about_unique: "about n e \<Longrightarrow> about m e \<Longrightarrow> m = n"
  by (cases e) auto

lemma sends_ok_plain:
  assumes "sends_ok s" and "sends s' = sends s" and "events s' = events s @ es" and "list_all plain es"
  shows "sends_ok s'"
proof -
  have p: "\<not> about n e" "e \<noteq> Drained i" if "e \<in> set es" for e n i
    using assms(4) that plain_not_about [of e] by (auto simp: list_all_iff)
  have "send_ok n (sends s ! n) (set (events s) \<union> set es)" if "n < length (sends s)" for n
    using assms(1) that p by (intro send_ok_more) (auto simp: sends_ok_def)
  then show ?thesis using assms(1) p by (auto simp: sends_ok_def assms(2,3))
qed

lemma sink_ok_plain:
  assumes "sink_ok s" and "sends s' = sends s" and "events s' = events s @ es" and "list_all plain es"
    and "stops_ok s'" and "adds_ok s'" and "always sink_rule (events s')"
  shows "sink_ok s'"
  using assms sends_ok_plain [of s s' es] by (simp add: sink_ok_def)

lemma happened_simps [simp]:
  "state (happened es s) = state s" "producer (happened es s) = producer s" "endpoints (happened es s) = endpoints s"
  "runtimes (happened es s) = runtimes s" "adding (happened es s) = adding s" "start_at (happened es s) = start_at s"
  "listed (happened es s) = listed s" "sends (happened es s) = sends s" "closed (happened es s) = closed s"
  "stops (happened es s) = stops s" "events (happened es s) = events s @ es"
  by (simp_all add: happened_def)

lemma sink_okD:
  assumes "sink_ok s"
  shows "sends_ok s" "stops_ok s" "adds_ok s" "always sink_rule (events s)"
  using assms by (auto simp: sink_ok_def)

lemma always_free: "always sink_rule l \<Longrightarrow> (\<And>pre. sink_rule pre e) \<Longrightarrow> always sink_rule (l @ [e])"
  by (simp add: always_snoc)
lemma add_lock_ok: "sink_ok s \<Longrightarrow> add_lock c s = Some (Inr s') \<Longrightarrow> sink_ok s'"
  by (rule sink_ok_plain [of s s' "[]"])
    (auto simp: add_lock_def stops_ok_def adds_ok_def stop_at_def sink_ok_def split: if_splits)

lemma add_push_ok:
  assumes ok: "sink_ok s" and step: "add_push s = Some s'"
  shows "sink_ok s'"
proof -
  obtain e where e: "adding s = Some e" using step by (auto simp: add_push_def split: option.splits)
  have s': "sends s' = sends s" "events s' = events s @ [Added e]" "start_at s' = start_at s" "state s' = state s" "stops s' = stops s"
      "fst ` set (endpoints s') = insert e (fst ` set (endpoints s))" "adding s' = None"
    using step e by (auto simp: add_push_def image_iff split: option.splits dest: map_of_SomeD) (metis fst_conv map_of_SomeD)
  have "\<not> listed_phase (start_at s)" using sink_okD(3) [OF ok] e by (auto simp: adds_ok_def)
  then show ?thesis
    using sink_okD [OF ok] s' by (intro sink_ok_plain [OF ok s'(1,2)]) (auto simp: stops_ok_def adds_ok_def stop_at_def always_snoc)
qed

lemma refused_ok: "sink_ok s \<Longrightarrow> sink_ok (happened [StartRefused e] s)"
  by (rule sink_ok_plain [of s _ "[StartRefused e]"]) (auto simp: stops_ok_def adds_ok_def stop_at_def always_snoc sink_ok_def)

lemma start_enter_ok:
  assumes ok: "sink_ok s"
  shows "sink_ok (start_enter s)"
proof (cases "state s = Fresh")
  case True
  then show ?thesis
    using sink_okD [OF ok] by (intro sink_ok_plain [OF ok, of _ "[]"]) (auto simp: start_enter_def stops_ok_def adds_ok_def stop_at_def)
next
  case False
  then show ?thesis using refused_ok [OF ok] by (cases "state s") (simp_all add: start_enter_def)
qed

lemma added_endpoints: "sink_ok s \<Longrightarrow> Added e \<in> set (events s) \<Longrightarrow> e \<in> set (map fst (endpoints s))"
  by (simp add: sink_ok_def adds_ok_def)

lemma start_ok_rule:
  assumes "sink_ok s" and "Listed (map fst (endpoints s)) \<in> set es \<union> set (events s)" and "\<And>e. Added e \<notin> set es"
  shows "sink_rule (events s @ es) StartOk"
  using assms added_endpoints [OF assms(1)] by (auto intro!: exI [of _ "map fst (endpoints s)"])

text \<open>The phases of \<open>start\<close>: it is running, so nothing was stopped, and it goes on, fails or succeeds.\<close>

lemma start_moves:
  assumes ok: "sink_ok s" and "start_at s \<noteq> NoStart"
    and "sends s' = sends s" "endpoints s' = endpoints s" "stops s' = stops s" "adding s' = adding s"
    and es: "events s' = events s @ es" "list_all plain es" "list_all (\<lambda>e. \<forall>x. e \<noteq> Added x) es" "always sink_rule (events s')"
    and "start_at s' \<noteq> NoStart \<longrightarrow> state s' = state s"
    and "listed_phase (start_at s') \<longrightarrow> adding s = None \<and> (listed_phase (start_at s) \<or> Listed (map fst (endpoints s)) \<in> set es)"
  shows "sink_ok s'"
proof (rule sink_ok_plain [OF ok assms(3) es(1,2) _ _ es(4)])
  have st: "state s = Starting" "stops s = []" "\<And>i. Drained i \<notin> set (events s)"
    using sink_okD(2) [OF ok] assms(2) by (auto simp: stops_ok_def)
  have "Drained i \<notin> set es" for i using es(2) plain_not_about(2) by (fastforce simp: list_all_iff)
  then show "stops_ok s'" using assms st by (auto simp: stops_ok_def stop_at_def)
  have "Listed (map fst (endpoints s)) \<in> set (events s')" if "listed_phase (start_at s')"
    using assms(12) that es(1) sink_okD(3) [OF ok] by (auto simp: adds_ok_def)
  then show "adds_ok s'"
    using sink_okD(3) [OF ok] assms(4,6,12) es(1,3) by (auto simp: adds_ok_def list_all_iff)
qed

lemma start_fails_simps [simp]:
  "sends (start_fails r e s) = sends s" "endpoints (start_fails r e s) = endpoints s" "stops (start_fails r e s) = stops s"
  "adding (start_fails r e s) = adding s" "events (start_fails r e s) = events s @ [StartErr e]" "start_at (start_fails r e s) = NoStart"
  by (simp_all add: start_fails_def)

lemma start_connect_shape:
  "\<exists>es. (es = [] \<or> (\<exists>e. es = [StartErr e])) \<and> events (start_connect c blank st cl topics s) = events s @ es \<and>
     sends (start_connect c blank st cl topics s) = sends s \<and> endpoints (start_connect c blank st cl topics s) = endpoints s \<and>
     stops (start_connect c blank st cl topics s) = stops s \<and> adding (start_connect c blank st cl topics s) = adding s \<and>
     (start_at (start_connect c blank st cl topics s) \<noteq> NoStart \<longrightarrow> state (start_connect c blank st cl topics s) = state s)"
  by (cases c; cases st; cases cl) (auto simp: start_connect_def split: sum.split)

lemma start_list_ok:
  assumes ok: "sink_ok s" and step: "start_list f c blank st cl s = Some s'"
  shows "sink_ok s'"
proof -
  have at: "start_at s = Listing" "adding s = None" using step by (auto simp: start_list_def split: if_splits)
  let ?l = "Listed (map fst (endpoints s))"
  have al: "always sink_rule (events s @ [?l])" using sink_okD(4) [OF ok] by (simp add: always_snoc)
  have "always sink_rule (events s @ [?l, StartErr e])" for e using al always_snoc [of sink_rule "events s @ [?l]"] by simp
  moreover have "always sink_rule (events s @ [?l, StartOk])"
    using al always_snoc [of sink_rule "events s @ [?l]" StartOk] start_ok_rule [OF ok, of "[?l]"] by simp
  ultimately have logs: "always sink_rule (events s @ es)" if "es \<in> {[?l], [?l, StartOk]} \<union> range (\<lambda>e. [?l, StartErr e])" for es
    using al that by auto
  obtain r rts where r: "start_endpoints f (endpoints s) (runtimes s) = (r, rts)" by fastforce
  let ?s1 = "happened [?l] (s\<lparr>listed := map fst (endpoints s), runtimes := rts\<rparr>)"
  have s': "s' = (case r of Inl e \<Rightarrow> start_fails True e ?s1
      | Inr topics \<Rightarrow> if topics = [] then happened [StartOk] (?s1\<lparr>state := Running, start_at := NoStart\<rparr>)
          else start_connect c blank st cl topics ?s1)"
    using step at by (simp add: start_list_def r Let_def)
  have "\<exists>es. es \<in> {[?l], [?l, StartOk]} \<union> range (\<lambda>e. [?l, StartErr e]) \<and> events s' = events s @ es \<and> sends s' = sends s \<and>
      endpoints s' = endpoints s \<and> stops s' = stops s \<and> adding s' = adding s \<and> (start_at s' \<noteq> NoStart \<longrightarrow> state s' = state s)"
  proof (cases r)
    case (Inl e)
    then show ?thesis unfolding s' by simp
  next
    case (Inr topics)
    then show ?thesis using start_connect_shape [of c blank st cl topics ?s1] unfolding s' by (cases "topics = []") auto
  qed
  then obtain es where es: "es \<in> {[?l], [?l, StartOk]} \<union> range (\<lambda>e. [?l, StartErr e])" "events s' = events s @ es" "sends s' = sends s"
      "endpoints s' = endpoints s" "stops s' = stops s" "adding s' = adding s" "start_at s' \<noteq> NoStart \<longrightarrow> state s' = state s"
    by blast
  show ?thesis
  proof (rule start_moves [OF ok _ es(3-6,2) _ _ _ es(7)])
    show "always sink_rule (events s')" using logs [OF es(1)] es(2) by simp
  qed (use at es(1) in auto)
qed

lemma start_topics_ok:
  assumes ok: "sink_ok s" and step: "start_topics f admin s = Some s'"
  shows "sink_ok s'"
proof -
  obtain ts where at: "start_at s = Topics ts" "adding s = None" using step by (auto simp: start_topics_def split: start_phase.splits if_splits)
  have "\<exists>es. (es = [] \<or> (\<exists>e. es = [StartErr e])) \<and> events s' = events s @ es \<and> sends s' = sends s \<and> endpoints s' = endpoints s \<and>
      stops s' = stops s \<and> adding s' = adding s \<and> (start_at s' \<noteq> NoStart \<longrightarrow> state s' = state s)"
    using step at by (auto simp: start_topics_def split: sum.splits)
  then obtain es where es: "es = [] \<or> (\<exists>e. es = [StartErr e])" "events s' = events s @ es" "sends s' = sends s"
      "endpoints s' = endpoints s" "stops s' = stops s" "adding s' = adding s" "start_at s' \<noteq> NoStart \<longrightarrow> state s' = state s"
    by blast
  show ?thesis
    by (rule start_moves [OF ok _ es(3-6,2) _ _ _ es(7)]) (use at es(1,2) sink_okD(4) [OF ok] in \<open>auto simp: always_snoc\<close>)
qed

lemma start_metadata_ok:
  assumes ok: "sink_ok s" and step: "start_metadata answer s = Some s'"
  shows "sink_ok s'"
proof -
  obtain ts where at: "start_at s = Metadata ts" using step by (auto simp: start_metadata_def split: start_phase.splits)
  have "\<exists>es. (es = [StartOk] \<or> (\<exists>e. es = [StartErr e])) \<and> events s' = events s @ es \<and> sends s' = sends s \<and> endpoints s' = endpoints s \<and>
      stops s' = stops s \<and> adding s' = adding s \<and> start_at s' = NoStart"
    using step at by (auto simp: start_metadata_def split: sum.splits option.splits)
  then obtain es where es: "es = [StartOk] \<or> (\<exists>e. es = [StartErr e])" "events s' = events s @ es" "sends s' = sends s"
      "endpoints s' = endpoints s" "stops s' = stops s" "adding s' = adding s" "start_at s' = NoStart"
    by blast
  have "sink_rule (events s) StartOk"
    using start_ok_rule [OF ok, of "[]"] sink_okD(3) [OF ok] at by (simp add: adds_ok_def)
  then have "always sink_rule (events s')" using es(1,2) sink_okD(4) [OF ok] by (auto simp: always_snoc simp del: sink_rule.simps(6))
  then show ?thesis
    by (intro start_moves [OF ok _ es(3-6,2)]) (use at es(1,7) in auto)
qed

lemma start_dropped_ok: "sink_ok s \<Longrightarrow> sink_step StartDropped s = Some s' \<Longrightarrow> sink_ok s'"
  by (rule sink_ok_plain [of s s' "[]"]) (auto simp: stops_ok_def adds_ok_def stop_at_def sink_ok_def split: start_phase.splits)
subsection \<open>Messages\<close>

lemma move_send_simps [simp]:
  "state (move_send n p s) = state s" "producer (move_send n p s) = producer s" "endpoints (move_send n p s) = endpoints s"
  "adding (move_send n p s) = adding s" "start_at (move_send n p s) = start_at s" "stops (move_send n p s) = stops s"
  "closed (move_send n p s) = closed s" "events (move_send n p s) = events s"
  "sends (move_send n p s) = (sends s)[n := (sends s ! n)\<lparr>phase := p\<rparr>]"
  by (simp_all add: move_send_def)

text \<open>One message moves on, with the events it causes.\<close>

lemma send_moves:
  assumes ok: "sink_ok s" and n: "n < length (sends s)"
    and s': "s' = happened es (move_send n p s)" and es: "\<And>e. e \<in> set es \<Longrightarrow> about n e"
    and send: "send_ok n ((sends s ! n)\<lparr>phase := p\<rparr>) (set (events s) \<union> set es)" and rule: "always sink_rule (events s @ es)"
  shows "sink_ok s'"
proof -
  have quiet: "Drained i \<notin> set es" "Added e \<notin> set es" for i e using es [of "Drained i"] es [of "Added e"] by auto
  have "send_ok k ((sends s)[n := (sends s ! n)\<lparr>phase := p\<rparr>] ! k) (set (events s) \<union> set es)" if "k < length (sends s)" for k
  proof (cases "k = n")
    case False
    have "\<not> about k e" if "e \<in> set es" for e using es [OF that] False by (cases e) auto
    then show ?thesis using False that sink_okD(1) [OF ok] quiet by (auto simp: sends_ok_def intro!: send_ok_more)
  qed (use send n in simp)
  moreover have "m < length (sends s)" if "e \<in> set (events s @ es)" "about m e" for m e
    using that es about_unique [of n e m] n sink_okD(1) [OF ok] by (auto simp: sends_ok_def)
  ultimately have "sends_ok s'" by (auto simp: sends_ok_def s')
  moreover have "stops_ok s'" "adds_ok s'" using sink_okD(2,3) [OF ok] quiet by (auto simp: stops_ok_def adds_ok_def stop_at_def s')
  ultimately show ?thesis using rule by (simp add: sink_ok_def s')
qed

lemma send_okD:
  assumes "sink_ok s" and "n < length (sends s)"
  shows "send_ok n (sends s ! n) (set (events s))"
  using assms by (simp add: sink_ok_def sends_ok_def)

lemma happened_Nil [simp]: "happened [] s = s"
  by (simp add: happened_def)

lemma sent_error_ok:
  assumes "sink_ok s" and "n < length (sends s)" and "outcome_of (phase (sends s ! n)) = None"
  shows "sink_ok (sent n (Delivery 0 0 (Some e)) s)"
  using send_okD [OF assms(1,2)] assms sink_okD(4) [OF assms(1)]
  by (intro send_moves [OF assms(1,2), of _ "[]"]) (auto simp: sent_def send_ok_def)

lemma send_check_ok:
  assumes ok: "sink_ok s" and step: "send_check n s = Some s'"
  shows "sink_ok s'"
proof -
  have n: "n < length (sends s)" "phase (sends s ! n) = CheckState" using step by (auto simp: send_check_def send_at_def split: if_splits)
  show ?thesis
  proof (cases "state s = Running")
    case True
    then have "\<And>i. Drained i \<notin> set (events s)" using sink_okD(2) [OF ok] by (auto simp: stops_ok_def)
    then show ?thesis using True step n send_okD [OF ok n(1)] sink_okD(4) [OF ok]
      by (intro send_moves [OF ok n(1), of _ "[]" GetProducer]) (auto simp: send_check_def send_at_def send_ok_def)
  next
    case False
    then show ?thesis using step n sent_error_ok [OF ok n(1)] by (auto simp: send_check_def send_at_def)
  qed
qed

lemma send_get_ok:
  assumes ok: "sink_ok s" and step: "send_get n s = Some s'"
  shows "sink_ok s'"
proof -
  have n: "n < length (sends s)" "phase (sends s ! n) = GetProducer" using step by (auto simp: send_get_def send_at_def split: if_splits)
  show ?thesis
  proof (cases "producer s")
    case True
    then show ?thesis using step n send_okD [OF ok n(1)] sink_okD(4) [OF ok]
      by (intro send_moves [OF ok n(1), of _ "[Handed n]" AwaitDelivery]) (auto simp: send_get_def send_at_def send_ok_def always_snoc)
  next
    case False
    then show ?thesis using step n sent_error_ok [OF ok n(1)] by (auto simp: send_get_def send_at_def)
  qed
qed

lemma send_answer_ok:
  assumes ok: "sink_ok s" and step: "send_answer n answer s = Some s'"
  shows "sink_ok s'"
proof -
  have n: "n < length (sends s)" "phase (sends s ! n) = AwaitDelivery" using step by (auto simp: send_answer_def send_at_def split: if_splits)
  show ?thesis
  proof (cases answer)
    case (Inl e)
    then show ?thesis using step n sent_error_ok [OF ok n(1)] by (auto simp: send_answer_def send_at_def)
  next
    case (Inr a)
    then obtain p off where "answer = Inr (p, off)" by (cases a) auto
    then show ?thesis using step n send_okD [OF ok n(1)] sink_okD(4) [OF ok]
      by (intro send_moves [OF ok n(1), of _ "[Delivered n p off]" "if spawned (sends s ! n) then Collect (Delivery p off None) else Over (Delivery p off None)"])
        (auto simp: send_answer_def send_at_def sent_def send_ok_def always_snoc)
  qed
qed

lemma collect_done_ok:
  assumes ok: "sink_ok s" and step: "collect_done n s = Some s'"
  shows "sink_ok s'"
proof -
  obtain d where n: "n < length (sends s)" "phase (sends s ! n) = Collect d" and s': "s' = happened [Collected n d] (move_send n (Over d) s)"
    using step by (auto simp: collect_done_def split: if_splits send_phase.splits)
  show ?thesis using n send_okD [OF ok n(1)] sink_okD(4) [OF ok]
    by (intro send_moves [OF ok n(1) s']) (auto simp: send_ok_def always_snoc)
qed
lemma begin_send_ok:
  assumes ok: "sink_ok s"
  shows "sink_ok (begin_send b m part s)"
proof -
  let ?n = "length (sends s)" and ?es = "if b then [Spawned (length (sends s))] else []" and ?s = "begin_send b m part s"
  obtain c where s': "sends ?s = sends s @ [c]" "events ?s = events s @ ?es" "spawned c = b"
      "phase c = CheckState \<or> (\<exists>e. phase c = (if b then Collect (Delivery 0 0 (Some e)) else Over (Delivery 0 0 (Some e))))"
    by (auto simp: begin_send_def Let_def split: sum.split)
  have same: "state ?s = state s" "start_at ?s = start_at s" "stops ?s = stops s" "endpoints ?s = endpoints s" "adding ?s = adding s"
    by (simp_all add: begin_send_def Let_def)
  have none: "\<not> about ?n e" if "e \<in> set (events s)" for e
    using sink_okD(1) [OF ok] that unfolding sends_ok_def by blast
  have fresh: "Spawned ?n \<notin> set (events s)" "Collected ?n d \<notin> set (events s)" "Delivered ?n p off \<notin> set (events s)" for d p off
    using none [of "Spawned ?n"] none [of "Collected ?n d"] none [of "Delivered ?n p off"] by auto
  have "send_ok ?n c (set (events s) \<union> set ?es)"
    using s'(3,4) fresh by (auto simp: send_ok_def)
  moreover have "send_ok k (sends s ! k) (set (events s) \<union> set ?es)" if "k < ?n" for k
    using that send_okD [OF ok that] by (intro send_ok_more) (auto split: if_splits)
  ultimately have "send_ok k (sends ?s ! k) (set (events ?s))" if "k < length (sends ?s)" for k
    using that s'(1,2) by (cases "k = ?n") (auto simp: nth_append)
  moreover have "k < length (sends ?s)" if "e \<in> set (events ?s)" "about k e" for k e
    using that sink_okD(1) [OF ok] s'(1,2) by (fastforce simp: sends_ok_def split: if_splits)
  ultimately have "sends_ok ?s" by (simp add: sends_ok_def)
  moreover have "stops_ok ?s" "adds_ok ?s"
    using sink_okD(2,3) [OF ok] s'(2) same by (auto simp: stops_ok_def adds_ok_def stop_at_def)
  moreover have "always sink_rule (events ?s)" using sink_okD(4) [OF ok] s'(2) by (simp add: always_snoc)
  ultimately show ?thesis by (simp add: sink_ok_def)
qed

subsection \<open>Stop\<close>

lemma stop_swap_ok: "sink_ok s \<Longrightarrow> start_at s = NoStart \<Longrightarrow> sink_ok (stop_swap s)"
  by (rule sink_ok_plain [of s _ "if state s = Stopped then [StopAgain] else []"])
    (auto simp: stop_swap_def stops_ok_def adds_ok_def stop_at_def always_snoc sink_ok_def nth_append split: if_splits)

lemma stop_end_ok:
  assumes ok: "sink_ok s" and "stop_at i Flushing s \<or> e = StopErr i" and "e = StopOk i \<or> e = StopErr i"
    and "i < length (stops s)"
  shows "sink_ok (happened [e] (s\<lparr>stops := (stops s)[i := StopDone]\<rparr>))"
proof (rule sink_ok_plain [OF ok, of _ "[e]"])
  have "stops s \<noteq> []" using assms(4) by auto
  then show "stops_ok (happened [e] (s\<lparr>stops := (stops s)[i := StopDone]\<rparr>))"
    using sink_okD(2) [OF ok] assms(3,4) by (auto simp: stops_ok_def stop_at_def nth_list_update split: if_splits)
  show "adds_ok (happened [e] (s\<lparr>stops := (stops s)[i := StopDone]\<rparr>))"
    using sink_okD(3) [OF ok] assms(3) by (auto simp: adds_ok_def)
  have "sink_rule (events s) e" using assms(2,3) sink_okD(2) [OF ok] by (auto simp: stops_ok_def)
  then show "always sink_rule (events (happened [e] (s\<lparr>stops := (stops s)[i := StopDone]\<rparr>)))"
    using sink_okD(4) [OF ok] by (simp add: always_snoc)
qed (use assms(3) in auto)

lemma stop_drained_ok:
  assumes ok: "sink_ok s" and i: "stop_at i Waiting s" and empty: "tracker_empty s"
  shows "sink_ok (happened [Drained i] (s\<lparr>stops := (stops s)[i := Flushing]\<rparr>))" (is "sink_ok ?s")
proof -
  have over: "\<exists>d. phase (sends s ! k) = Over d" if "k < length (sends s)" "spawned (sends s ! k)" for k
    using empty that by (cases "phase (sends s ! k)") (auto simp: tracker_empty_def list_all_length)
  have "send_ok k (sends s ! k) (set (events s) \<union> {Drained i})" if "k < length (sends s)" for k
    using over [OF that] send_okD [OF ok that] by (intro send_ok_more) auto
  then have "sends_ok ?s" using sink_okD(1) [OF ok] by (auto simp: sends_ok_def)
  moreover have "stops_ok ?s" using sink_okD(2) [OF ok] i by (auto simp: stops_ok_def stop_at_def nth_list_update split: if_splits)
  moreover have "adds_ok ?s" using sink_okD(3) [OF ok] by (auto simp: adds_ok_def)
  moreover have "\<exists>d. Collected k d \<in> set (events s)" if k: "Spawned k \<in> set (events s)" for k
  proof -
    have "about k (Spawned k)" by simp
    then have "k < length (sends s)" using sink_okD(1) [OF ok] k unfolding sends_ok_def by blast
    then show ?thesis using send_okD [OF ok] k over by (fastforce simp: send_ok_def)
  qed
  then have "always sink_rule (events ?s)" using sink_okD(4) [OF ok] by (simp add: always_snoc)
  ultimately show ?thesis by (simp add: sink_ok_def)
qed

lemma stop_wait_ok:
  assumes ok: "sink_ok s" and step: "stop_wait i s = Some s'"
  shows "sink_ok s'"
proof -
  have i: "stop_at i Waiting s" "tracker_empty s" using step by (auto simp: stop_wait_def split: if_splits)
  let ?d = "happened [Drained i] (s\<lparr>stops := (stops s)[i := Flushing]\<rparr>)"
  have d: "sink_ok ?d" by (rule stop_drained_ok [OF ok i])
  show ?thesis
  proof (cases "producer s")
    case True
    then show ?thesis using step d i by (simp add: stop_wait_def split: if_splits)
  next
    case False
    have "sink_ok (happened [StopOk i] (?d\<lparr>stops := (stops ?d)[i := StopDone]\<rparr>))"
      using i by (intro stop_end_ok [OF d]) (auto simp: stop_at_def)
    moreover have "happened [StopOk i] (?d\<lparr>stops := (stops ?d)[i := StopDone]\<rparr>) = s'"
      using False step by (simp add: stop_wait_def happened_def split: if_splits)
    ultimately show ?thesis by simp
  qed
qed

lemma orderly_step_ok:
  assumes ok: "sink_ok s" and step: "orderly_step a s = Some s'"
  shows "sink_ok s'"
proof (cases a)
  case (AddLock e)
  then show ?thesis using step ok add_lock_ok [OF ok, of e] by (auto simp: orderly_step_def split: option.splits sum.splits)
next
  case (StopCancel i)
  then show ?thesis using step stop_end_ok [OF ok, of i "StopErr i"]
    by (auto simp: orderly_step_def wait_cancelled_def stop_at_def split: if_splits)
next
  case (StopFlush i f c)
  then show ?thesis using step ok stop_end_ok [OF ok, of i "StopErr i"] stop_end_ok [OF ok, of i "StopOk i"]
    by (auto simp: orderly_step_def stop_flush_def stop_at_def split: if_splits)
next
  case StopEnter
  then show ?thesis using step stop_swap_ok [OF ok] by (auto simp: orderly_step_def split: if_splits)
next
  case StartDropped
  then show ?thesis using step start_dropped_ok [OF ok] by (auto simp: orderly_step_def simp del: sink_step.simps)
qed (use step ok in \<open>auto simp: orderly_step_def intro: add_push_ok start_enter_ok start_list_ok start_topics_ok start_metadata_ok
    begin_send_ok send_check_ok send_get_ok send_answer_ok collect_done_ok stop_wait_ok\<close>)

interpretation sink_run: step_system orderly_step sink_ok
  by unfold_locales (rule orderly_step_ok)

lemma sink_new_ok: "sink_ok (sink_new i)"
  by (simp add: sink_ok_def sink_new_def sends_ok_def stops_ok_def adds_ok_def stop_at_def)
section \<open>The protocol of the sink\<close>


definition demo_endpoint :: kafka_endpoint where
  "demo_endpoint = \<lparr>ke_id = 7, ke_connector = 1, ke_enabled = True, ke_partitions = 0, ke_replication = 0, ke_topic = ''t'', ke_create_topic = True\<rparr>"

definition demo_connector :: "security_protocol \<Rightarrow> kafka_connector" where
  "demo_connector p = \<lparr>kc_id = 1, brokers = ''b'', security = p, username = [], password = [], mechanism = PLAIN\<rparr>"

definition demo_start :: "security_protocol \<Rightarrow> unit sink_action list" where
  "demo_start p =
     [AddLock demo_endpoint, AddPush, StartEnter, StartList (\<lambda>_. Found demo_endpoint) (Found (demo_connector p)) (\<lambda>b. b = []) None None]"

definition demo_topics :: "unit sink_action list" where
  "demo_topics = [StartTopics (\<lambda>_. Found demo_endpoint) (\<lambda>_. Inr [TopicAlreadyExists]), StartMetadata (Inr [(''t'', 3)])]"

definition demo_sends :: "unit sink_action list" where
  "demo_sends =
     [Send True () (Inr None), SendCheck 0, SendGet 0, StopEnter, Send True () (Inr (Some 1)), SendCheck 1, SendAnswer 0 (Inr (2, 40)),
      CollectDone 0, CollectDone 1, StopWait 0, StopFlush 0 True False]"

definition demo_log :: "sink_event list" where
  "demo_log =
     [Added 7, Listed [7], StartOk, Spawned 0, Handed 0, Spawned 1, Delivered 0 2 40, Collected 0 (Delivery 2 40 None),
      Collected 1 (Delivery 0 0 (Some ''Kafka producer is not running'')), Drained 0, StopOk 0]"

lemmas sink_evaluation = sink_new_def orderly_step_def add_lock_def add_push_def start_enter_def start_list_def start_connect_def
  start_fails_def start_topics_def start_metadata_def create_topics_def apply_security_def begin_send_def send_check_def send_get_def
  send_answer_def collect_done_def stop_swap_def stop_wait_def stop_flush_def move_send_def sent_def send_at_def stop_at_def
  tracker_empty_def happened_def demo_endpoint_def demo_connector_def Let_def

lemma demo_sink_run:
  "\<exists>s. run_steps orderly_step (demo_start PLAINTEXT @ demo_topics @ demo_sends) (sink_new 1) = Some s \<and> events s = demo_log"
  by (simp add: sink_evaluation demo_start_def demo_topics_def demo_sends_def demo_log_def)


section \<open>Starts that end badly\<close>

text \<open>
  Most errors of \<open>start\<close> put the state back, so that it can be called again. The errors that leave by \<open>?\<close> do not: with
  SASL and no user name \<open>start\<close> returns its error and the state stays \<open>Starting\<close>, so every later \<open>start\<close> is refused as
  already started, until the sink is stopped for good.
\<close>

theorem sink_start_sticks:
  "\<exists>s. run_steps orderly_step (demo_start SASLSSL) (sink_new 1 :: unit sink) = Some s \<and> last (events s) =
       StartErr (InvalidConfiguration ''Kafka SASL username and password must both be configured'') \<and>
     start_at s = NoStart \<and> events (start_enter s) = events s @ [StartRefused (ResourceAlreadyStarted [])]"
  by (simp add: sink_evaluation demo_start_def)

text \<open>
  A \<open>stop\<close> during \<open>start\<close> succeeds and is then undone: \<open>start\<close> stores its own state at the end, the sink is running and
  sends, although it was stopped.
\<close>

theorem sink_stop_during_start:
  "\<exists>s. run_steps sink_step (demo_start PLAINTEXT @ [StopEnter, StopWait 0] @ demo_topics @ [Send True () (Inr None), SendCheck 0, SendGet 0])
         (sink_new 1) = Some s \<and>
     events s = [Added 7, Listed [7], Drained 0, StopOk 0, StartOk, Spawned 0, Handed 0] \<and> state s = Running"
  by (simp add: sink_evaluation demo_start_def demo_topics_def)

end
