(* ===== verification/Endpoint_Request.thy ===== *)
theory Endpoint_Request
  imports Message_Context Result_Router Step_Systems
begin

text \<open>
  A request of a source endpoint (\<open>src/datasource/localsource/custom.rs\<close>; the endpoints of the Kafka source have the
  same code): admission under the handler's concurrency limit, \<open>begin_request\<close>, \<open>consume_message\<close>, the wait for
  \<open>done\<close>, \<open>end_request\<close>, and the results that the graph sends back meanwhile, which find their request by its stream
  id and run one of its callbacks.

  Every request and every result is a task. A step is what a task does between two points where another can
  interfere: a suspension, an atomic operation of the admission, or a call of the handler, which begins and ends in
  different steps. \<open>RotatingMap\<close> is used as the map it implements. Handlers, contexts and clocks are part of the
  actions; \<open>hash\<close> is the hash function of the gauges.
\<close>

section \<open>State\<close>

text \<open>
  Where the task of a request is. \<open>Sleeping n\<close> waits on a \<open>Notified\<close> made after \<open>n\<close> calls of \<open>notify_waiters\<close>;
  \<open>Locking\<close> and \<open>Ending\<close> know the request that was taken out of the map, whose lifetime is locked.
\<close>

datatype request_pc =
    Top | AskLimit | Compare nat nat | Sleeping nat
  | Beginning | Consuming | WaitDone | Locking "nat option" bool | Ending "nat option" | EndingDuplicate
  | Releasing | Notifying | Gone

datatype handler_result = Success | Failure string

record request =
  q_at :: request_pc
  q_stream_id :: string
  q_over :: bool
  q_done :: bool
  q_callbacks :: "(string \<times> nat) list"
  q_readers :: "nat list"
  q_writer :: bool
  q_result :: handler_result

datatype result_pc = ReadLock nat | Calling nat string | Over

record result_task =
  r_stream_id :: string
  r_at :: result_pc

datatype counter =
    MessagesTotal | RequestErrors | BeginRequestFailed | MissingStreamId | LateResult | UnknownMessageId | DuplicateMessageId

datatype request_event =
    BeginCall nat
  | BeginFailed nat
  | ConsumeCall nat
  | ConsumeReturned nat handler_result
  | DoneCalled nat
  | CallStart nat nat
  | CallEnd nat nat
  | EndCall nat handler_result
  | EndReturned nat
  | Abandoned nat
  | Counted counter

record endpoint_state =
  active :: nat
  stopped :: bool
  notify_calls :: nat
  sequence :: nat
  pending_map :: "(string \<times> nat) list"
  active_gauge :: int
  pending_gauge :: pending_requests
  requests :: "request list"
  results :: "result_task list"
  log :: "request_event list"

definition endpoint_new :: "bool \<Rightarrow> endpoint_state" where
  "endpoint_new enabled = \<lparr>active = 0, stopped = False, notify_calls = 0, sequence = 0, pending_map = [], active_gauge = 0,
     pending_gauge = pr_new enabled, requests = [], results = [], log = []\<rparr>"

definition logged :: "request_event list \<Rightarrow> endpoint_state \<Rightarrow> endpoint_state" where
  "logged es s = s\<lparr>log := log s @ es\<rparr>"

definition upd :: "nat \<Rightarrow> (request \<Rightarrow> request) \<Rightarrow> endpoint_state \<Rightarrow> endpoint_state" where
  "upd r f s = s\<lparr>requests := (requests s)[r := f (requests s ! r)]\<rparr>"

definition move :: "nat \<Rightarrow> request_pc \<Rightarrow> endpoint_state \<Rightarrow> endpoint_state" where
  "move r pc s = upd r (q_at_update (\<lambda>_. pc)) s"

definition at :: "nat \<Rightarrow> endpoint_state \<Rightarrow> request_pc option" where
  "at r s = (if r < length (requests s) then Some (q_at (requests s ! r)) else None)"

text \<open>Counters exist only when the metrics of the endpoint are enabled.\<close>

definition counted :: "bool \<Rightarrow> counter \<Rightarrow> endpoint_state \<Rightarrow> endpoint_state" where
  "counted enabled c s = (if enabled then logged [Counted c] s else s)"

section \<open>Admission\<close>

definition arrive :: "endpoint_state \<Rightarrow> endpoint_state" where
  "arrive s = s\<lparr>requests := requests s @
     [\<lparr>q_at = Top, q_stream_id = [], q_over = False, q_done = False, q_callbacks = [], q_readers = [], q_writer = False,
       q_result = Success\<rparr>]\<rparr>"

definition acquire_check :: "nat \<Rightarrow> endpoint_state \<Rightarrow> endpoint_state option" where
  "acquire_check r s =
     (if at r s = Some Top then Some (move r (if stopped s then Gone else AskLimit) s) else None)"

definition acquire_read :: "nat \<Rightarrow> nat \<Rightarrow> endpoint_state \<Rightarrow> endpoint_state option" where
  "acquire_read r limit s =
     (if at r s = Some AskLimit then Some (move r (Compare limit (active s)) s) else None)"

definition acquire_decide :: "nat \<Rightarrow> endpoint_state \<Rightarrow> endpoint_state option" where
  "acquire_decide r s =
     (case at r s of
        Some (Compare limit a) \<Rightarrow>
          Some (if limit = 0 \<or> a < limit
            then if active s = a then logged [BeginCall r] (move r Beginning (s\<lparr>active := a + 1\<rparr>)) else move r Top s
            else move r (Sleeping (notify_calls s)) s)
      | _ \<Rightarrow> None)"

definition acquire_wake :: "nat \<Rightarrow> endpoint_state \<Rightarrow> endpoint_state option" where
  "acquire_wake r s =
     (case at r s of
        Some (Sleeping n) \<Rightarrow> (if notify_calls s \<noteq> n then Some (move r Top s) else None)
      | _ \<Rightarrow> None)"

text \<open>\<open>ActiveRequestGuard::drop\<close>, in its two operations.\<close>

definition release :: "nat \<Rightarrow> endpoint_state \<Rightarrow> endpoint_state option" where
  "release r s = (if at r s = Some Releasing then Some (move r Notifying (s\<lparr>active := active s - 1\<rparr>)) else None)"

definition notify :: "nat \<Rightarrow> endpoint_state \<Rightarrow> endpoint_state option" where
  "notify r s = (if at r s = Some Notifying then Some (move r Gone (s\<lparr>notify_calls := notify_calls s + 1\<rparr>)) else None)"

section \<open>A request\<close>

text \<open>
  The rest of the first half: \<open>begin_request\<close> has answered, with the stream id of its context if it has one. With a
  result stream the request is registered; a stream id that is in use ends it.
\<close>

definition begin_returns :: "bool \<Rightarrow> bool \<Rightarrow> (string \<Rightarrow> nat) \<Rightarrow> nat \<Rightarrow> string + string option \<Rightarrow> instant \<Rightarrow> nat \<Rightarrow>
    endpoint_state \<Rightarrow> endpoint_state option" where
  "begin_returns has_result enabled hash r res now stamp s =
     (if at r s \<noteq> Some Beginning then None
      else Some (case res of
          Inl e \<Rightarrow> logged [BeginFailed r] (counted enabled BeginRequestFailed (move r Releasing s))
        | Inr given \<Rightarrow>
            (let (i, n) = (case given of Some i \<Rightarrow> (i, sequence s) | None \<Rightarrow> new_stream_id stamp (sequence s));
                 s1 = upd r (q_stream_id_update (\<lambda>_. i)) (s\<lparr>sequence := n, active_gauge := active_gauge s + (if enabled then 1 else 0)\<rparr>) in
             if \<not> has_result then logged [ConsumeCall r] (move r Consuming s1)
             else if map_of (pending_map s) i \<noteq> None
             then logged [EndCall r (Failure ''duplicate key'')] (move r EndingDuplicate s1)
             else logged [ConsumeCall r] (move r Consuming
               (s1\<lparr>pending_map := hm_insert i r (pending_map s), pending_gauge := pr_add hash now i (pending_gauge s)\<rparr>)))))"

text \<open>After the wait the request is taken out of the map; its lifetime is locked when it was there.\<close>

definition remove_request :: "bool \<Rightarrow> (string \<Rightarrow> nat) \<Rightarrow> nat \<Rightarrow> bool \<Rightarrow> endpoint_state \<Rightarrow> endpoint_state" where
  "remove_request has_result hash r late s =
     (if has_result
      then let i = q_stream_id (requests s ! r) in
        move r (Locking (map_of (pending_map s) i) late)
          (s\<lparr>pending_map := hm_remove i (pending_map s), pending_gauge := pr_remove hash i (pending_gauge s)\<rparr>)
      else move r (Locking None late) s)"

definition consume_returns :: "bool \<Rightarrow> (string \<Rightarrow> nat) \<Rightarrow> nat \<Rightarrow> handler_result \<Rightarrow> endpoint_state \<Rightarrow> endpoint_state option" where
  "consume_returns has_result hash r res s =
     (if at r s \<noteq> Some Consuming then None
      else
        let s1 = logged [ConsumeReturned r res] (upd r (q_result_update (\<lambda>_. res)) s) in
        Some (if res = Success \<and> has_result then move r WaitDone s1 else remove_request has_result hash r False s1))"

definition cancel_text :: string where "cancel_text = ''request context cancelled before ResultContext::done''"

definition wait_ends :: "bool \<Rightarrow> (string \<Rightarrow> nat) \<Rightarrow> nat \<Rightarrow> bool \<Rightarrow> endpoint_state \<Rightarrow> endpoint_state option" where
  "wait_ends has_result hash r by_done s =
     (if at r s \<noteq> Some WaitDone then None
      else if by_done
      then if q_done (requests s ! r) then Some (remove_request has_result hash r False s) else None
      else if q_over (requests s ! r)
      then Some (remove_request has_result hash r True (upd r (q_result_update (\<lambda>_. Failure cancel_text)) s))
      else None)"

text \<open>The write lock, if there is one to take, the last look at \<open>done\<close> and the call of \<open>end_request\<close>.\<close>

definition set_writer :: "nat option \<Rightarrow> bool \<Rightarrow> endpoint_state \<Rightarrow> endpoint_state" where
  "set_writer removed b s = (case removed of None \<Rightarrow> s | Some x \<Rightarrow> upd x (q_writer_update (\<lambda>_. b)) s)"

definition lock_write :: "nat \<Rightarrow> endpoint_state \<Rightarrow> endpoint_state option" where
  "lock_write r s =
     (case at r s of
        Some (Locking removed late) \<Rightarrow>
          (let q = requests s ! r; res = (if late \<and> q_done q then Success else q_result q) in
           if (case removed of None \<Rightarrow> True | Some x \<Rightarrow> q_readers (requests s ! x) = [] \<and> \<not> q_writer (requests s ! x))
           then Some (logged [EndCall r res] (move r (Ending removed) (upd r (q_result_update (\<lambda>_. res)) (set_writer removed True s))))
           else None)
      | _ \<Rightarrow> None)"

definition end_returns :: "bool \<Rightarrow> nat \<Rightarrow> endpoint_state \<Rightarrow> endpoint_state option" where
  "end_returns enabled r s =
     (let s1 = logged [EndReturned r] (move r Releasing (s\<lparr>active_gauge := active_gauge s - (if enabled then 1 else 0)\<rparr>)) in
      case at r s of
        Some (Ending removed) \<Rightarrow>
          Some (counted enabled (if q_result (requests s ! r) = Success then MessagesTotal else RequestErrors) (set_writer removed False s1))
      | Some EndingDuplicate \<Rightarrow> Some (counted enabled RequestErrors s1)
      | _ \<Rightarrow> None)"

text \<open>The task is dropped: its guards release the lock and the admission; nothing else is undone.\<close>

fun before_admission :: "request_pc \<Rightarrow> bool" where
  "before_admission Top = True"
| "before_admission AskLimit = True"
| "before_admission (Compare _ _) = True"
| "before_admission (Sleeping _) = True"
| "before_admission _ = False"

definition drop_request :: "nat \<Rightarrow> endpoint_state \<Rightarrow> endpoint_state option" where
  "drop_request r s =
     (case at r s of
        None \<Rightarrow> None
      | Some pc \<Rightarrow>
          (if pc = Releasing \<or> pc = Notifying \<or> pc = Gone then None
           else Some (logged [Abandoned r]
             (if before_admission pc then move r Gone s
              else move r Releasing (case pc of Ending removed \<Rightarrow> set_writer removed False s | _ \<Rightarrow> s)))))"

section \<open>Results\<close>

definition result_arrives :: "bool \<Rightarrow> string option \<Rightarrow> endpoint_state \<Rightarrow> endpoint_state" where
  "result_arrives enabled given s =
     (case given of
        None \<Rightarrow> counted enabled MissingStreamId s
      | Some i \<Rightarrow>
          (case map_of (pending_map s) i of
             None \<Rightarrow> counted enabled LateResult s
           | Some r \<Rightarrow> s\<lparr>results := results s @ [\<lparr>r_stream_id = i, r_at = ReadLock r\<rparr>]\<rparr>))"

definition set_result :: "nat \<Rightarrow> result_pc \<Rightarrow> endpoint_state \<Rightarrow> endpoint_state" where
  "set_result j pc s = s\<lparr>results := (results s)[j := (results s ! j)\<lparr>r_at := pc\<rparr>]\<rparr>"

text \<open>The read lock, the second look at the map, the message id that the handler gives the value, and its callback.\<close>

definition read_lock :: "bool \<Rightarrow> nat \<Rightarrow> string \<Rightarrow> endpoint_state \<Rightarrow> endpoint_state option" where
  "read_lock enabled j message_id s =
     (if j < length (results s)
      then case r_at (results s ! j) of
          ReadLock r \<Rightarrow>
            (if q_writer (requests s ! r) then None
             else Some
               (if map_of (pending_map s) (r_stream_id (results s ! j)) \<noteq> Some r
                then counted enabled LateResult (set_result j Over s)
                else case map_of (q_callbacks (requests s ! r)) message_id of
                    None \<Rightarrow> counted enabled UnknownMessageId (set_result j Over s)
                  | Some _ \<Rightarrow> logged [CallStart j r]
                      (upd r (\<lambda>q. q\<lparr>q_readers := j # q_readers q\<rparr>) (set_result j (Calling r message_id) s))))
        | _ \<Rightarrow> None
      else None)"

definition call_returns :: "bool \<Rightarrow> nat \<Rightarrow> bool \<Rightarrow> endpoint_state \<Rightarrow> endpoint_state option" where
  "call_returns enabled j b s =
     (if j < length (results s)
      then case r_at (results s ! j) of
          Calling r i \<Rightarrow>
            (let s1 = logged [CallEnd j r] (upd r (\<lambda>q. q\<lparr>q_readers := removeAll j (q_readers q)\<rparr>) (set_result j Over s)) in
             Some (if \<not> b then s1
               else if map_of (q_callbacks (requests s ! r)) i = None then counted enabled DuplicateMessageId s1
               else upd r (\<lambda>q. q\<lparr>q_callbacks := hm_remove i (q_callbacks q)\<rparr>) s1))
        | _ \<Rightarrow> None
      else None)"

definition drop_result :: "nat \<Rightarrow> endpoint_state \<Rightarrow> endpoint_state option" where
  "drop_result j s =
     (if j < length (results s)
      then case r_at (results s ! j) of
          Calling r i \<Rightarrow> Some (logged [CallEnd j r] (upd r (\<lambda>q. q\<lparr>q_readers := removeAll j (q_readers q)\<rparr>) (set_result j Over s)))
        | ReadLock r \<Rightarrow> Some (set_result j Over s)
        | Over \<Rightarrow> None
      else None)"

section \<open>What handlers do\<close>

text \<open>A handler has the \<open>ResultContext\<close> of a request once it was asked to consume its message.\<close>

definition set_result_callback :: "nat \<Rightarrow> string \<Rightarrow> nat \<Rightarrow> endpoint_state \<Rightarrow> endpoint_state option" where
  "set_result_callback r i c s =
     (if ConsumeCall r \<in> set (log s) then Some (upd r (\<lambda>q. q\<lparr>q_callbacks := hm_insert i c (q_callbacks q)\<rparr>) s) else None)"

definition done_call :: "nat \<Rightarrow> endpoint_state \<Rightarrow> endpoint_state option" where
  "done_call r s =
     (if ConsumeCall r \<in> set (log s) then Some (logged [DoneCalled r] (upd r (q_done_update (\<lambda>_. True)) s)) else None)"

section \<open>Steps\<close>

datatype endpoint_action =
    Arrive
  | AcquireCheck nat
  | AcquireRead nat nat
  | AcquireDecide nat
  | AcquireWake nat
  | BeginReturns nat "string + string option" instant nat
  | ConsumeReturns nat handler_result
  | WaitEnds nat bool
  | LockWrite nat
  | EndReturns nat
  | Release nat
  | Notify nat
  | DropRequest nat
  | ResultArrives "string option"
  | TakeReadLock nat string
  | CallReturns nat bool
  | DropResult nat
  | SetCallback nat string nat
  | DoneCall nat
  | ContextOver nat
  | StopStore
  | StopNotify

fun endpoint_step :: "bool \<Rightarrow> bool \<Rightarrow> (string \<Rightarrow> nat) \<Rightarrow> endpoint_action \<Rightarrow> endpoint_state \<Rightarrow> endpoint_state option" where
  "endpoint_step hr en hash Arrive s = Some (arrive s)"
| "endpoint_step hr en hash (AcquireCheck r) s = acquire_check r s"
| "endpoint_step hr en hash (AcquireRead r limit) s = acquire_read r limit s"
| "endpoint_step hr en hash (AcquireDecide r) s = acquire_decide r s"
| "endpoint_step hr en hash (AcquireWake r) s = acquire_wake r s"
| "endpoint_step hr en hash (BeginReturns r res now stamp) s = begin_returns hr en hash r res now stamp s"
| "endpoint_step hr en hash (ConsumeReturns r res) s = consume_returns hr hash r res s"
| "endpoint_step hr en hash (WaitEnds r b) s = wait_ends hr hash r b s"
| "endpoint_step hr en hash (LockWrite r) s = lock_write r s"
| "endpoint_step hr en hash (EndReturns r) s = end_returns en r s"
| "endpoint_step hr en hash (Release r) s = release r s"
| "endpoint_step hr en hash (Notify r) s = notify r s"
| "endpoint_step hr en hash (DropRequest r) s = drop_request r s"
| "endpoint_step hr en hash (ResultArrives i) s = Some (result_arrives en i s)"
| "endpoint_step hr en hash (TakeReadLock j i) s = read_lock en j i s"
| "endpoint_step hr en hash (CallReturns j b) s = call_returns en j b s"
| "endpoint_step hr en hash (DropResult j) s = drop_result j s"
| "endpoint_step hr en hash (SetCallback r i c) s = set_result_callback r i c s"
| "endpoint_step hr en hash (DoneCall r) s = done_call r s"
| "endpoint_step hr en hash (ContextOver r) s = Some (upd r (q_over_update (\<lambda>_. True)) s)"
| "endpoint_step hr en hash StopStore s = Some (s\<lparr>stopped := True\<rparr>)"
| "endpoint_step hr en hash StopNotify s = Some (s\<lparr>notify_calls := notify_calls s + 1\<rparr>)"

section \<open>The history of a request\<close>

fun about :: "request_event \<Rightarrow> nat option" where
  "about (BeginCall r) = Some r"
| "about (BeginFailed r) = Some r"
| "about (ConsumeCall r) = Some r"
| "about (ConsumeReturned r _) = Some r"
| "about (DoneCalled r) = Some r"
| "about (CallStart _ r) = Some r"
| "about (CallEnd _ r) = Some r"
| "about (EndCall r _) = Some r"
| "about (EndReturned r) = Some r"
| "about (Abandoned r) = Some r"
| "about (Counted _) = None"

fun main_event :: "request_event \<Rightarrow> bool" where
  "main_event (ConsumeCall _) = True"
| "main_event (ConsumeReturned _ _) = True"
| "main_event (EndCall _ _) = True"
| "main_event _ = False"

definition hist :: "nat \<Rightarrow> request_event list \<Rightarrow> request_event list" where
  "hist r l = filter (\<lambda>e. main_event e \<and> about e = Some r) l"

fun is_start :: "nat \<Rightarrow> request_event \<Rightarrow> bool" where
  "is_start r (CallStart _ r') = (r' = r)"
| "is_start r _ = False"

fun is_end :: "nat \<Rightarrow> request_event \<Rightarrow> bool" where
  "is_end r (CallEnd _ r') = (r' = r)"
| "is_end r _ = False"

definition starts :: "nat \<Rightarrow> request_event list \<Rightarrow> nat" where "starts r l = length (filter (is_start r) l)"
definition ends :: "nat \<Rightarrow> request_event list \<Rightarrow> nat" where "ends r l = length (filter (is_end r) l)"

fun has_ended :: "nat \<Rightarrow> request_event \<Rightarrow> bool" where
  "has_ended r (EndCall r' _) = (r' = r)"
| "has_ended r _ = False"

definition ended :: "nat \<Rightarrow> request_event list \<Rightarrow> bool" where "ended r l = list_ex (has_ended r) l"

lemma history_simps [simp]:
  "hist r [] = []" "hist r (l @ l') = hist r l @ hist r l'"
  "hist r (e # l) = (if main_event e \<and> about e = Some r then e # hist r l else hist r l)"
  "starts r [] = 0" "starts r (l @ l') = starts r l + starts r l'" "starts r (e # l) = (if is_start r e then 1 else 0) + starts r l"
  "ends r [] = 0" "ends r (l @ l') = ends r l + ends r l'" "ends r (e # l) = (if is_end r e then 1 else 0) + ends r l"
  "ended r [] = False" "ended r (l @ l') = (ended r l \<or> ended r l')" "ended r (e # l) = (has_ended r e \<or> ended r l)"
  by (simp_all add: hist_def starts_def ends_def ended_def)

lemma other_request: "about e \<noteq> Some r \<Longrightarrow> \<not> is_start r e \<and> \<not> is_end r e \<and> \<not> has_ended r e"
  by (cases e) auto

lemma others_request:
  assumes "\<And>e. e \<in> set es \<Longrightarrow> about e \<noteq> Some r"
  shows "hist r es = []" "starts r es = 0" "ends r es = 0" "\<not> ended r es" "DoneCalled r \<notin> set es" "ConsumeCall r \<notin> set es"
proof -
  have "hist r es = [] \<and> starts r es = 0 \<and> ends r es = 0 \<and> \<not> ended r es"
    using assms by (induction es) (auto dest: other_request)
  then show "hist r es = []" "starts r es = 0" "ends r es = 0" "\<not> ended r es" by auto
  show "DoneCalled r \<notin> set es" "ConsumeCall r \<notin> set es"
    using assms [of "DoneCalled r"] assms [of "ConsumeCall r"] by auto
qed

text \<open>How a request ends: with the handler's result, but a request that waits for results succeeds exactly when \<open>done\<close> was called.\<close>

definition outcome :: "bool \<Rightarrow> handler_result \<Rightarrow> bool \<Rightarrow> handler_result" where
  "outcome has_result c done_called =
     (if c = Success \<and> has_result \<and> \<not> done_called then Failure cancel_text else c)"

fun event_ok :: "bool \<Rightarrow> request_event list \<Rightarrow> request_event \<Rightarrow> bool" where
  "event_ok hr l (EndCall r res) \<longleftrightarrow>
     \<not> ended r l \<and> starts r l = ends r l \<and>
     (hist r l = [] \<and> res = Failure ''duplicate key'' \<or>
      (\<exists>c. hist r l = [ConsumeCall r, ConsumeReturned r c] \<and> res = outcome hr c (DoneCalled r \<in> set l)))"
| "event_ok hr l (CallStart j r) \<longleftrightarrow> ConsumeCall r \<in> set l \<and> \<not> ended r l"
| "event_ok hr l _ \<longleftrightarrow> True"

fun at_ok :: "bool \<Rightarrow> nat \<Rightarrow> request \<Rightarrow> request_event list \<Rightarrow> request_pc \<Rightarrow> bool" where
  "at_ok hr r q l Consuming \<longleftrightarrow> hist r l = [ConsumeCall r]"
| "at_ok hr r q l WaitDone \<longleftrightarrow> hr \<and> hist r l = [ConsumeCall r, ConsumeReturned r Success] \<and> q_result q = Success"
| "at_ok hr r q l (Locking removed late) \<longleftrightarrow>
     removed = (if hr then Some r else None) \<and> \<not> ended r l \<and>
     (\<exists>c. hist r l = [ConsumeCall r, ConsumeReturned r c] \<and>
        (if late then hr \<and> c = Success \<and> q_result q = Failure cancel_text
         else q_result q = c \<and> (c = Success \<and> hr \<longrightarrow> q_done q)))"
| "at_ok hr r q l (Ending removed) \<longleftrightarrow> removed = (if hr then Some r else None) \<and> ended r l"
| "at_ok hr r q l EndingDuplicate \<longleftrightarrow> ended r l"
| "at_ok hr r q l Releasing \<longleftrightarrow> True"
| "at_ok hr r q l Notifying \<longleftrightarrow> True"
| "at_ok hr r q l Gone \<longleftrightarrow> True"
| "at_ok hr r q l _ \<longleftrightarrow> hist r l = [] \<and> \<not> ended r l \<and> q_readers q = []"

fun registered :: "request_pc \<Rightarrow> bool" where
  "registered Consuming = True"
| "registered WaitDone = True"
| "registered _ = False"

fun past :: "request_pc \<Rightarrow> bool" where
  "past Releasing = True"
| "past Notifying = True"
| "past Gone = True"
| "past _ = False"

definition request_ok :: "bool \<Rightarrow> (string \<times> nat) list \<Rightarrow> nat \<Rightarrow> request \<Rightarrow> request_event list \<Rightarrow> bool" where
  "request_ok hr pm r q l \<longleftrightarrow>
     (q_done q \<longleftrightarrow> DoneCalled r \<in> set l) \<and> starts r l = ends r l + length (q_readers q) \<and> (ended r l \<longrightarrow> q_readers q = []) \<and>
     (hr \<or> q_readers q = []) \<and> at_ok hr r q l (q_at q) \<and> (registered (q_at q) \<and> hr \<longrightarrow> map_of pm (q_stream_id q) = Some r) \<and>
     (\<forall>i. map_of pm i = Some r \<longrightarrow>
        hr \<and> i = q_stream_id q \<and> ConsumeCall r \<in> set l \<and> \<not> ended r l \<and> (registered (q_at q) \<or> past (q_at q)))"

definition link_ok :: "nat list list \<Rightarrow> result_task list \<Rightarrow> bool" where
  "link_ok rs ts \<longleftrightarrow>
     (\<forall>r<length rs. distinct (rs ! r) \<and> (\<forall>j. j \<in> set (rs ! r) \<longleftrightarrow> j < length ts \<and> (\<exists>i. r_at (ts ! j) = Calling r i))) \<and>
     (\<forall>t\<in>set ts. case r_at t of ReadLock r \<Rightarrow> r < length rs | Calling r _ \<Rightarrow> r < length rs | Over \<Rightarrow> True)"

definition endpoint_ok :: "bool \<Rightarrow> endpoint_state \<Rightarrow> bool" where
  "endpoint_ok hr s \<longleftrightarrow>
     (\<forall>r<length (requests s). request_ok hr (pending_map s) r (requests s ! r) (log s)) \<and>
     (\<forall>i r. map_of (pending_map s) i = Some r \<longrightarrow> r < length (requests s)) \<and>
     (\<forall>e r. e \<in> set (log s) \<longrightarrow> about e = Some r \<longrightarrow> r < length (requests s)) \<and>
     link_ok (map q_readers (requests s)) (results s) \<and> always (event_ok hr) (log s)"

lemma endpoint_okD:
  assumes "endpoint_ok hr s"
  shows "r < length (requests s) \<Longrightarrow> request_ok hr (pending_map s) r (requests s ! r) (log s)"
    "map_of (pending_map s) i = Some r \<Longrightarrow> r < length (requests s)"
    "e \<in> set (log s) \<Longrightarrow> about e = Some r \<Longrightarrow> r < length (requests s)"
    "link_ok (map q_readers (requests s)) (results s)" "always (event_ok hr) (log s)"
  using assms unfolding endpoint_ok_def by blast+

lemma endpoint_new_ok: "endpoint_ok hr (endpoint_new en)"
  by (simp add: endpoint_ok_def endpoint_new_def link_ok_def)

lemma request_ok_frame:
  assumes ok: "request_ok hr pm r q l" and es: "\<And>e. e \<in> set es \<Longrightarrow> about e \<noteq> Some r"
    and pm: "\<And>i. map_of pm' i = Some r \<longleftrightarrow> map_of pm i = Some r"
  shows "request_ok hr pm' r q (l @ es)"
  using ok unfolding request_ok_def pm by (cases "q_at q") (auto simp: others_request [OF es])

text \<open>A step of one request.\<close>

lemma endpoint_ok_link:
  assumes ok: "endpoint_ok hr s" and r: "r < length (requests s)"
    and s': "requests s' = (requests s)[r := q]" "log s' = log s @ es"
    and link: "link_ok (map q_readers (requests s')) (results s')" and q: "request_ok hr (pending_map s') r q (log s')"
    and es: "\<And>e r'. e \<in> set es \<Longrightarrow> about e = Some r' \<Longrightarrow> r' = r"
    and pm: "\<And>i r'. r' \<noteq> r \<Longrightarrow> map_of (pending_map s') i = Some r' \<longleftrightarrow> map_of (pending_map s) i = Some r'"
    and alw: "always (event_ok hr) (log s')"
  shows "endpoint_ok hr s'"
proof -
  have "request_ok hr (pending_map s') r' (requests s' ! r') (log s')" if r': "r' < length (requests s)" for r'
  proof (cases "r' = r")
    case False
    then show ?thesis
      using request_ok_frame [OF endpoint_okD(1) [OF ok r'], of es "pending_map s'"] es pm [OF False] s' by auto
  qed (use q s' r in simp)
  moreover have "r' < length (requests s)" if "map_of (pending_map s') i = Some r'" for i r'
    using that r pm [of r' i] endpoint_okD(2) [OF ok, of i r'] by (cases "r' = r") auto
  moreover have "r' < length (requests s)" if "e \<in> set (log s')" "about e = Some r'" for e r'
    using that r s'(2) es endpoint_okD(3) [OF ok] by auto
  ultimately show ?thesis
    using link alw s' unfolding endpoint_ok_def by simp
qed

corollary endpoint_ok_one:
  assumes ok: "endpoint_ok hr s" and r: "r < length (requests s)"
    and s': "requests s' = (requests s)[r := q]" "log s' = log s @ es" "results s' = results s"
    and q: "q_readers q = q_readers (requests s ! r)" "request_ok hr (pending_map s') r q (log s')"
    and es: "\<And>e r'. e \<in> set es \<Longrightarrow> about e = Some r' \<Longrightarrow> r' = r"
    and pm: "\<And>i r'. r' \<noteq> r \<Longrightarrow> map_of (pending_map s') i = Some r' \<longleftrightarrow> map_of (pending_map s) i = Some r'"
    and alw: "always (event_ok hr) (log s')"
  shows "endpoint_ok hr s'"
proof -
  have "map q_readers (requests s') = map q_readers (requests s)"
    using q(1) s'(1) r by (simp add: map_update list_update_same_conv)
  then show ?thesis
    using endpoint_ok_link [OF ok r s'(1,2) _ q(2) es pm alw] endpoint_okD(4) [OF ok] s'(3) by simp
qed

section \<open>Every step keeps it\<close>

lemma request_simps [simp]:
  "requests (logged es s) = requests s" "pending_map (logged es s) = pending_map s" "results (logged es s) = results s"
  "log (logged es s) = log s @ es" "active (logged es s) = active s"
  "requests (upd r f s) = (requests s)[r := f (requests s ! r)]" "pending_map (upd r f s) = pending_map s"
  "results (upd r f s) = results s" "log (upd r f s) = log s" "active (upd r f s) = active s"
  "requests (set_result j pc s) = requests s" "pending_map (set_result j pc s) = pending_map s"
  "results (set_result j pc s) = (results s)[j := (results s ! j)\<lparr>r_at := pc\<rparr>]" "log (set_result j pc s) = log s"
  "active (set_result j pc s) = active s"
  by (simp_all add: logged_def upd_def set_result_def)

lemma move_simps [simp]:
  "requests (move r pc s) = (requests s)[r := (requests s ! r)\<lparr>q_at := pc\<rparr>]" "pending_map (move r pc s) = pending_map s"
  "results (move r pc s) = results s" "log (move r pc s) = log s" "active (move r pc s) = active s"
  by (simp_all add: move_def)

lemma counted_simps [simp]:
  "requests (counted en c s) = requests s" "pending_map (counted en c s) = pending_map s" "results (counted en c s) = results s"
  "log (counted en c s) = log s @ (if en then [Counted c] else [])" "active (counted en c s) = active s"
  by (simp_all add: counted_def)

fun plain :: "request_event \<Rightarrow> bool" where
  "plain (BeginCall _) = True"
| "plain (BeginFailed _) = True"
| "plain (EndReturned _) = True"
| "plain (Abandoned _) = True"
| "plain (Counted _) = True"
| "plain _ = False"

lemma plain_event: "plain e \<Longrightarrow> \<not> main_event e \<and> \<not> is_start r e \<and> \<not> is_end r e \<and> \<not> has_ended r e \<and> event_ok hr l e \<and>
    e \<noteq> DoneCalled r \<and> e \<noteq> ConsumeCall r"
  by (cases e) auto

lemma plain_all:
  assumes "list_all plain es"
  shows "hist r es = []" "starts r es = 0" "ends r es = 0" "\<not> ended r es" "DoneCalled r \<notin> set es" "ConsumeCall r \<notin> set es"
  using assms by (induction es) (auto dest: plain_event [of _ r])

lemma plain_always: "always (event_ok hr) l \<Longrightarrow> list_all plain es \<Longrightarrow> always (event_ok hr) (l @ es)"
  by (rule always_append) (auto simp: list_all_iff dest: plain_event)

lemma at_ok_plain: "list_all plain es \<Longrightarrow> at_ok hr r q (l @ es) pc = at_ok hr r q l pc"
  by (cases pc) (auto simp: plain_all)

text \<open>A request moves on without an event of its history.\<close>

lemma move_ok:
  assumes ok: "endpoint_ok hr s" and r: "at r s = Some pc"
    and s': "requests s' = (requests s)[r := q']" "log s' = log s @ es" "results s' = results s" "pending_map s' = pending_map s"
    and q': "q_readers q' = q_readers (requests s ! r)" "q_done q' = q_done (requests s ! r)"
      "q_stream_id q' = q_stream_id (requests s ! r)" "q_result q' = q_result (requests s ! r)"
    and es: "list_all plain es" "\<And>e r'. e \<in> set es \<Longrightarrow> about e = Some r' \<Longrightarrow> r' = r"
    and pc': "at_ok hr r (requests s ! r) (log s) pc \<Longrightarrow> at_ok hr r (requests s ! r) (log s) (q_at q')"
      "registered (q_at q') \<Longrightarrow> registered pc" "registered pc \<or> past pc \<Longrightarrow> registered (q_at q') \<or> past (q_at q')"
  shows "endpoint_ok hr s'"
proof -
  have len: "r < length (requests s)" and at: "q_at (requests s ! r) = pc"
    using r by (auto simp: at_def split: if_splits)
  have "at_ok hr r q' l p = at_ok hr r (requests s ! r) l p" for l p
    using q' by (cases p) auto
  note q = q' this
  have "request_ok hr (pending_map s) r q' (log s @ es)"
    using endpoint_okD(1) [OF ok len] pc' es(1) at by (auto simp: request_ok_def q at_ok_plain plain_all)
  then show ?thesis
    using endpoint_ok_one [OF ok len s'(1-3)] q s' es plain_always [OF endpoint_okD(5) [OF ok] es(1)] by simp
qed

lemma atD: "at r s = Some pc \<Longrightarrow> r < length (requests s) \<and> q_at (requests s ! r) = pc"
  by (simp add: at_def split: if_splits)

corollary move_plain:
  assumes ok: "endpoint_ok hr s" and r: "at r s = Some pc"
    and t: "requests t = requests s" "log t = log s" "results t = results s" "pending_map t = pending_map s"
    and pc': "at_ok hr r (requests s ! r) (log s) pc \<Longrightarrow> at_ok hr r (requests s ! r) (log s) pc'"
      "registered pc' \<Longrightarrow> registered pc" "registered pc \<or> past pc \<Longrightarrow> registered pc' \<or> past pc'"
    and es: "list_all plain es" "\<And>e r'. e \<in> set es \<Longrightarrow> about e = Some r' \<Longrightarrow> r' = r"
  shows "endpoint_ok hr (logged es (move r pc' t))"
  by (rule move_ok [OF ok r, where q' = "(requests s ! r)\<lparr>q_at := pc'\<rparr>" and es = es]) (use t pc' es in auto)

lemma logged_Nil: "logged [] s = s"
  by (simp add: logged_def)

lemma acquire_ok:
  assumes ok: "endpoint_ok hr s"
  shows "acquire_check r s = Some s' \<Longrightarrow> endpoint_ok hr s'" "acquire_read r limit s = Some s' \<Longrightarrow> endpoint_ok hr s'"
    "acquire_decide r s = Some s' \<Longrightarrow> endpoint_ok hr s'" "acquire_wake r s = Some s' \<Longrightarrow> endpoint_ok hr s'"
    "release r s = Some s' \<Longrightarrow> endpoint_ok hr s'" "notify r s = Some s' \<Longrightarrow> endpoint_ok hr s'"
proof -
  note quiet = move_plain [OF ok, where es = "[]", unfolded logged_Nil]
  show "acquire_check r s = Some s' \<Longrightarrow> endpoint_ok hr s'" "acquire_read r limit s = Some s' \<Longrightarrow> endpoint_ok hr s'"
      "release r s = Some s' \<Longrightarrow> endpoint_ok hr s'" "notify r s = Some s' \<Longrightarrow> endpoint_ok hr s'"
    by (auto simp: acquire_check_def acquire_read_def release_def notify_def split: if_splits intro!: quiet)
  show "acquire_decide r s = Some s' \<Longrightarrow> endpoint_ok hr s'"
    by (auto simp: acquire_decide_def split: option.splits request_pc.splits if_splits intro!: quiet move_plain [OF ok])
  show "acquire_wake r s = Some s' \<Longrightarrow> endpoint_ok hr s'"
    by (auto simp: acquire_wake_def split: option.splits request_pc.splits if_splits intro!: quiet)
qed

lemma hist_ended: "ended r l \<longleftrightarrow> list_ex (has_ended r) (hist r l)"
proof (induction l)
  case (Cons e l)
  then show ?case by (cases e) auto
qed simp

lemma remove_ok:
  assumes ok: "endpoint_ok hr s" and r: "at r s = Some pc" "registered pc"
    and t: "requests t = (requests s)[r := (requests s ! r)\<lparr>q_result := x\<rparr>]" "log t = log s @ es" "results t = results s"
      "pending_map t = pending_map s"
    and es: "es = [] \<or> es = [ConsumeReturned r c]" and h: "hist r (log t) = [ConsumeCall r, ConsumeReturned r c]"
    and x: "if late then hr \<and> c = Success \<and> x = Failure cancel_text
      else x = c \<and> (c = Success \<and> hr \<longrightarrow> q_done (requests s ! r))"
  shows "endpoint_ok hr (remove_request hr hash r late t)"
proof -
  have len: "r < length (requests s)" and at: "q_at (requests s ! r) = pc"
    using atD [OF r(1)] by auto
  let ?i = "q_stream_id (requests s ! r)"
  let ?q = "(requests s ! r)\<lparr>q_result := x, q_at := Locking (if hr then Some r else None) late\<rparr>"
  note old = endpoint_okD(1) [OF ok len, unfolded request_ok_def]
  have reg: "hr \<Longrightarrow> map_of (pending_map s) ?i = Some r" using old at r(2) by blast
  let ?s = "remove_request hr hash r late t"
  have s': "requests ?s = (requests s)[r := ?q]" "log ?s = log s @ es" "results ?s = results s"
      "pending_map ?s = (if hr then hm_remove ?i (pending_map s) else pending_map s)"
    using t reg len by (auto simp: remove_request_def Let_def)
  have pend: "map_of (pending_map ?s) i = Some r' \<longleftrightarrow> map_of (pending_map s) i = Some r'" if "r' \<noteq> r" for i r'
    using reg that by (auto simp: s'(4))
  have "map_of (pending_map ?s) i \<noteq> Some r" for i
    using old by (auto simp: s'(4))
  moreover have "\<not> ended r (log s @ es)" using h t(2) hist_ended [of r "log s @ es"] by simp
  ultimately have "request_ok hr (pending_map ?s) r ?q (log s @ es)"
    using old h x es t(2) by (auto simp: request_ok_def split: if_splits)
  moreover have "always (event_ok hr) (log s @ es)"
    using endpoint_okD(5) [OF ok] es by (auto simp: always_snoc)
  ultimately show ?thesis
    using endpoint_ok_one [OF ok len s'(1-3)] pend s'(2) es by auto
qed

lemma begin_returns_ok:
  assumes ok: "endpoint_ok hr s" and step: "begin_returns hr en hash r res now stamp s = Some s'"
  shows "endpoint_ok hr s'"
proof -
  have r: "at r s = Some Beginning" using step by (auto simp: begin_returns_def split: if_splits)
  have len: "r < length (requests s)" and at: "q_at (requests s ! r) = Beginning" using atD [OF r] by auto
  note old = endpoint_okD(1) [OF ok len, unfolded request_ok_def]
  have h: "hist r (log s) = []" "\<not> ended r (log s)" "q_readers (requests s ! r) = []" "map_of (pending_map s) j \<noteq> Some r" for j
    using old at by auto
  consider e where "res = Inl e" "s' = logged [BeginFailed r] (counted en BeginRequestFailed (move r Releasing s))"
    | i where "requests s' = (requests s)[r := (requests s ! r)\<lparr>q_stream_id := i, q_at := EndingDuplicate\<rparr>]" "results s' = results s"
        "log s' = log s @ [EndCall r (Failure ''duplicate key'')]" "pending_map s' = pending_map s"
    | i where "requests s' = (requests s)[r := (requests s ! r)\<lparr>q_stream_id := i, q_at := Consuming\<rparr>]" "results s' = results s"
        "log s' = log s @ [ConsumeCall r]" "hr \<Longrightarrow> map_of (pending_map s) i = None"
        "pending_map s' = (if hr then hm_insert i r (pending_map s) else pending_map s)"
    using step r len
    by (auto simp: begin_returns_def Let_def split: sum.splits option.splits prod.splits if_splits)
  then show ?thesis
  proof cases
    case 1
    have "s' = logged ((if en then [Counted BeginRequestFailed] else []) @ [BeginFailed r]) (move r Releasing s)"
      using 1 by (simp add: counted_def logged_def)
    then show ?thesis by (auto intro!: move_plain [OF ok r])
  next
    case 2
    show ?thesis
      by (rule endpoint_ok_one [OF ok len 2(1,3,2)])
         (use 2 h old endpoint_okD(5) [OF ok] in \<open>auto simp: request_ok_def always_snoc\<close>)
  next
    case 3
    show ?thesis
    proof (rule endpoint_ok_one [OF ok len 3(1,3,2)])
      show "request_ok hr (pending_map s') r ((requests s ! r)\<lparr>q_stream_id := i, q_at := Consuming\<rparr>) (log s')"
        using 3 h old by (auto simp: request_ok_def split: if_splits)
    qed (use 3 endpoint_okD(5) [OF ok] in \<open>auto simp: always_snoc\<close>)
  qed
qed

lemma consume_returns_ok:
  assumes ok: "endpoint_ok hr s" and step: "consume_returns hr hash r res s = Some s'"
  shows "endpoint_ok hr s'"
proof -
  let ?t = "logged [ConsumeReturned r res] (upd r (q_result_update (\<lambda>_. res)) s)"
  have r: "at r s = Some Consuming" using step by (auto simp: consume_returns_def split: if_splits)
  have len: "r < length (requests s)" and at: "q_at (requests s ! r) = Consuming" using atD [OF r] by auto
  note old = endpoint_okD(1) [OF ok len, unfolded request_ok_def]
  have h: "hist r (log s) = [ConsumeCall r]" using old at by simp
  consider "res = Success" hr "s' = move r WaitDone ?t"
    | "res = Success \<longrightarrow> \<not> hr" "s' = remove_request hr hash r False ?t"
    using step r by (auto simp: consume_returns_def Let_def split: if_splits)
  then show ?thesis
  proof cases
    case 1
    have s': "requests s' = (requests s)[r := (requests s ! r)\<lparr>q_result := Success, q_at := WaitDone\<rparr>]"
        "log s' = log s @ [ConsumeReturned r Success]" "results s' = results s" "pending_map s' = pending_map s"
      using 1 len by simp_all
    show ?thesis
      by (rule endpoint_ok_one [OF ok len s'(1-3)])
         (use s' h old at 1 endpoint_okD(5) [OF ok] hist_ended [of r "log s"] in \<open>auto simp: request_ok_def always_snoc\<close>)
  next
    case 2
    then show ?thesis
      using remove_ok [OF ok r, of ?t res "[ConsumeReturned r res]" res False] h by auto
  qed
qed

lemma wait_ends_ok:
  assumes ok: "endpoint_ok hr s" and step: "wait_ends hr hash r b s = Some s'"
  shows "endpoint_ok hr s'"
proof -
  have r: "at r s = Some WaitDone" using step by (auto simp: wait_ends_def split: if_splits)
  have len: "r < length (requests s)" and at: "q_at (requests s ! r) = WaitDone" using atD [OF r] by auto
  note old = endpoint_okD(1) [OF ok len, unfolded request_ok_def]
  have h: hr "hist r (log s) = [ConsumeCall r, ConsumeReturned r Success]" "q_result (requests s ! r) = Success"
    using old at by auto
  have same: "requests s = (requests s)[r := (requests s ! r)\<lparr>q_result := Success\<rparr>]"
    using h(3) by (metis (no_types, lifting) list_update_id request.surjective request.update_convs(8) request.select_convs(8))
  show ?thesis
    using step r remove_ok [OF ok r, of s Success "[]" Success False] h same
      remove_ok [OF ok r, of "upd r (q_result_update (\<lambda>_. Failure cancel_text)) s" "Failure cancel_text" "[]" Success True]
    by (auto simp: wait_ends_def split: if_splits)
qed

lemma lock_write_ok:
  assumes ok: "endpoint_ok hr s" and step: "lock_write r s = Some s'"
  shows "endpoint_ok hr s'"
proof -
  obtain removed late where r: "at r s = Some (Locking removed late)"
    using step by (auto simp: lock_write_def split: option.splits request_pc.splits)
  let ?q = "requests s ! r"
  let ?res = "if late \<and> q_done ?q then Success else q_result ?q"
  have len: "r < length (requests s)" and at: "q_at ?q = Locking removed late" using atD [OF r] by auto
  note old = endpoint_okD(1) [OF ok len, unfolded request_ok_def]
  have rem: "removed = (if hr then Some r else None)" using old at by simp
  obtain c where c: "hist r (log s) = [ConsumeCall r, ConsumeReturned r c]" "\<not> ended r (log s)"
      "if late then hr \<and> c = Success \<and> q_result ?q = Failure cancel_text else q_result ?q = c \<and> (c = Success \<and> hr \<longrightarrow> q_done ?q)"
    using old at by auto
  have res: "?res = outcome hr c (DoneCalled r \<in> set (log s))"
    using c(3) old by (auto simp: outcome_def split: if_splits)
  have rd: "q_readers ?q = []" using step r rem old by (auto simp: lock_write_def Let_def split: if_splits)
  let ?q' = "?q\<lparr>q_writer := (if hr then True else q_writer ?q), q_result := ?res, q_at := Ending removed\<rparr>"
  have s': "requests s' = (requests s)[r := ?q']" "log s' = log s @ [EndCall r ?res]" "results s' = results s" "pending_map s' = pending_map s"
    using step r rem len by (auto simp: lock_write_def set_writer_def Let_def split: if_splits)
  show ?thesis
  proof (rule endpoint_ok_one [OF ok len s'(1-3)])
    show "request_ok hr (pending_map s') r ?q' (log s')"
      using old s' rd rem at by (auto simp: request_ok_def)
    have "event_ok hr (log s) (EndCall r ?res)"
      using c old rd res by (simp only: event_ok.simps) auto
    then show "always (event_ok hr) (log s')"
      using endpoint_okD(5) [OF ok] s'(2) by (simp add: always_snoc del: event_ok.simps)
  qed (use s' in auto)
qed

lemma end_returns_ok:
  assumes ok: "endpoint_ok hr s" and step: "end_returns en r s = Some s'"
  shows "endpoint_ok hr s'"
proof -
  obtain pc where r: "at r s = Some pc" "pc = EndingDuplicate \<or> (\<exists>x. pc = Ending x)"
    using step by (auto simp: end_returns_def Let_def split: option.splits request_pc.splits)
  have len: "r < length (requests s)" and at: "q_at (requests s ! r) = pc" using atD [OF r(1)] by auto
  have rem: "x = Some r \<or> x = None" if "pc = Ending x" for x
    using endpoint_okD(1) [OF ok len] at that by (auto simp: request_ok_def split: if_splits)
  obtain b c where s': "requests s' = (requests s)[r := (requests s ! r)\<lparr>q_at := Releasing, q_writer := b\<rparr>]"
      "log s' = log s @ [EndReturned r] @ (if en then [Counted c] else [])" "results s' = results s" "pending_map s' = pending_map s"
  proof (cases pc)
    case (Ending x)
    then show ?thesis
      using step r rem [OF Ending] len
      by (intro that [of "if x = None then q_writer (requests s ! r) else False"
            "if q_result (requests s ! r) = Success then MessagesTotal else RequestErrors"])
         (auto simp: end_returns_def Let_def set_writer_def split: option.splits)
  next
    case EndingDuplicate
    then show ?thesis
      using step r len by (intro that [of "q_writer (requests s ! r)" RequestErrors]) (auto simp: end_returns_def Let_def)
  qed (use r(2) in auto)
  show ?thesis
    by (rule move_ok [OF ok r(1) s']) (use r(2) in \<open>auto split: if_splits\<close>)
qed

lemma drop_request_ok:
  assumes ok: "endpoint_ok hr s" and step: "drop_request r s = Some s'"
  shows "endpoint_ok hr s'"
proof -
  obtain pc where r: "at r s = Some pc" using step by (auto simp: drop_request_def split: option.splits)
  have len: "r < length (requests s)" and at: "q_at (requests s ! r) = pc" using atD [OF r] by auto
  show ?thesis
  proof (cases "\<exists>x. pc = Ending x")
    case False
    then have "s' = logged [Abandoned r] (move r (if before_admission pc then Gone else Releasing) s)"
      using step r by (auto simp: drop_request_def split: if_splits request_pc.splits)
    then show ?thesis by (auto intro!: move_plain [OF ok r])
  next
    case True
    then obtain x where x: "pc = Ending x" by blast
    have "x = Some r \<or> x = None"
      using endpoint_okD(1) [OF ok len] at x by (auto simp: request_ok_def split: if_splits)
    then have s': "requests s' = (requests s)[r := (requests s ! r)\<lparr>q_writer := (if x = None then q_writer (requests s ! r) else False), q_at := Releasing\<rparr>]"
        "log s' = log s @ [Abandoned r]" "results s' = results s" "pending_map s' = pending_map s"
      using step r x len by (auto simp: drop_request_def set_writer_def)
    show ?thesis
      by (rule move_ok [OF ok r s']) (use x in \<open>auto split: if_splits\<close>)
  qed
qed

section \<open>Results and handlers\<close>

lemma link_append: "link_ok rs ts \<Longrightarrow> r < length rs \<Longrightarrow> link_ok rs (ts @ [\<lparr>r_stream_id = i, r_at = ReadLock r\<rparr>])"
  unfolding link_ok_def by (auto simp: nth_append less_Suc_eq)

lemma link_request:
  assumes "link_ok rs ts" "j < length ts" "r_at (ts ! j) = ReadLock r \<or> r_at (ts ! j) = Calling r i"
  shows "r < length rs"
proof -
  have "case r_at (ts ! j) of ReadLock r \<Rightarrow> r < length rs | Calling r _ \<Rightarrow> r < length rs | Over \<Rightarrow> True"
    using assms(1,2) nth_mem [of j ts] unfolding link_ok_def by blast
  then show ?thesis using assms(3) by auto
qed

text \<open>One task changes; the lists of readers follow.\<close>

lemma link_update:
  assumes ok: "link_ok rs ts" and j: "j < length ts" and r: "r < length rs"
    and t: "r_at t = Over \<or> (\<exists>i. r_at t = Calling r i)" and old: "r_at (ts ! j) = ReadLock r \<or> (\<exists>i. r_at (ts ! j) = Calling r i)"
    and xs: "distinct xs" "set xs = set (rs ! r) - {j} \<union> (if r_at t = Over then {} else {j})"
  shows "link_ok (rs[r := xs]) (ts[j := t])"
proof -
  have mem: "k \<in> set (rs ! r') \<longleftrightarrow> k < length ts \<and> (\<exists>i. r_at (ts ! k) = Calling r' i)" "distinct (rs ! r')"
    if "r' < length rs" for r' k
    using ok that unfolding link_ok_def by blast+
  have "k \<in> set (rs[r := xs] ! r') \<longleftrightarrow> k < length ts \<and> (\<exists>i. r_at (ts[j := t] ! k) = Calling r' i)" if r': "r' < length rs" for r' k
  proof (cases "r' = r"; cases "k = j")
    assume "r' \<noteq> r" "k = j"
    then show ?thesis using mem(1) [OF r', of k] r' t old j by auto
  qed (use mem(1) [OF r', of k] r' t old j xs(2) in auto)
  moreover have "distinct (rs[r := xs] ! r')" if "r' < length rs" for r'
    using that mem(2) xs(1) r by (cases "r' = r") auto
  moreover have "case r_at x of ReadLock r \<Rightarrow> r < length rs | Calling r _ \<Rightarrow> r < length rs | Over \<Rightarrow> True" if "x \<in> set (ts[j := t])" for x
  proof (cases "x = t")
    case False
    then have "x \<in> set ts" using that set_update_subset_insert [of ts j t] by auto
    then show ?thesis using ok unfolding link_ok_def by blast
  qed (use t r in auto)
  ultimately show ?thesis unfolding link_ok_def length_list_update by blast
qed

text \<open>Steps that leave the requests alone.\<close>

lemma endpoint_ok_results:
  assumes ok: "endpoint_ok hr s" and s': "requests s' = requests s" "log s' = log s @ es" "pending_map s' = pending_map s"
    and es: "list_all plain es" "\<And>e. e \<in> set es \<Longrightarrow> about e = None"
    and link: "link_ok (map q_readers (requests s)) (results s')"
  shows "endpoint_ok hr s'"
proof -
  have "request_ok hr (pending_map s) r (requests s ! r) (log s @ es)" if "r < length (requests s)" for r
    using request_ok_frame [OF endpoint_okD(1) [OF ok that]] es(2) by auto
  moreover have "r < length (requests s)" if "e \<in> set (log s @ es)" "about e = Some r" for e r
    using that es(2) endpoint_okD(3) [OF ok] by auto
  ultimately show ?thesis
    using plain_always [OF endpoint_okD(5) [OF ok] es(1)] endpoint_okD(2) [OF ok] link unfolding endpoint_ok_def s' by blast
qed

lemma counted_ok: "endpoint_ok hr s \<Longrightarrow> endpoint_ok hr (counted en c s)"
  by (rule endpoint_ok_results [where es = "if en then [Counted c] else []"]) (auto dest: endpoint_okD(4))

lemma result_arrives_ok:
  assumes ok: "endpoint_ok hr s"
  shows "endpoint_ok hr (result_arrives en given s)"
proof -
  have "endpoint_ok hr (s\<lparr>results := results s @ [\<lparr>r_stream_id = i, r_at = ReadLock r\<rparr>]\<rparr>)" if "map_of (pending_map s) i = Some r" for i r
    by (rule endpoint_ok_results [OF ok, where es = "[]"])
       (use endpoint_okD(2) [OF ok that] link_append [OF endpoint_okD(4) [OF ok]] in auto)
  then show ?thesis
    using counted_ok [OF ok] by (auto simp: result_arrives_def split: option.split)
qed

lemma read_lock_ok:
  assumes ok: "endpoint_ok hr s" and step: "read_lock en j i s = Some s'"
  shows "endpoint_ok hr s'"
proof -
  obtain r where j: "j < length (results s)" "r_at (results s ! j) = ReadLock r"
    using step by (auto simp: read_lock_def split: if_splits result_pc.splits)
  have r: "r < length (requests s)" using link_request [OF endpoint_okD(4) [OF ok] j(1)] j(2) by auto
  let ?q = "requests s ! r"
  have nj: "j \<notin> set (q_readers ?q)" "distinct (q_readers ?q)"
    using endpoint_okD(4) [OF ok] r j by (auto simp: link_ok_def)
  note link = link_update [OF endpoint_okD(4) [OF ok] j(1), of r, unfolded length_map, OF r, unfolded nth_map [OF r]]
  consider c where "s' = counted en c (set_result j Over s)"
    | "map_of (pending_map s) (r_stream_id (results s ! j)) = Some r"
      "s' = logged [CallStart j r] (upd r (\<lambda>q. q\<lparr>q_readers := j # q_readers q\<rparr>) (set_result j (Calling r i) s))"
    using step j by (auto simp: read_lock_def split: if_splits option.splits)
  then show ?thesis
  proof cases
    case 1
    have "map q_readers (requests s) = (map q_readers (requests s))[r := q_readers ?q]" by (simp add: map_update [symmetric])
    then have "link_ok (map q_readers (requests s)) ((results s)[j := (results s ! j)\<lparr>r_at := Over\<rparr>])"
      using link [of "(results s ! j)\<lparr>r_at := Over\<rparr>" "q_readers ?q"] j nj by simp
    then show ?thesis
      unfolding 1 by (intro endpoint_ok_results [OF ok, where es = "if en then [Counted c] else []"]) auto
  next
    case 2
    note old = endpoint_okD(1) [OF ok r, unfolded request_ok_def]
    have e: hr "ConsumeCall r \<in> set (log s)" "\<not> ended r (log s)" "registered (q_at ?q) \<or> past (q_at ?q)" using old 2(1) by auto
    show ?thesis
      unfolding 2(2)
    proof (rule endpoint_ok_link [OF ok r, where q = "?q\<lparr>q_readers := j # q_readers ?q\<rparr>" and es = "[CallStart j r]"])
      let ?s = "logged [CallStart j r] (upd r (\<lambda>q. q\<lparr>q_readers := j # q_readers q\<rparr>) (set_result j (Calling r i) s))"
      show "link_ok (map q_readers (requests ?s)) (results ?s)"
        using link [of "(results s ! j)\<lparr>r_at := Calling r i\<rparr>" "j # q_readers ?q"] j nj r by (auto simp: map_update)
      show "request_ok hr (pending_map ?s) r (?q\<lparr>q_readers := j # q_readers ?q\<rparr>) (log ?s)"
        using old e by (cases "q_at ?q") (auto simp: request_ok_def)
      show "always (event_ok hr) (log ?s)"
        using endpoint_okD(5) [OF ok] e by (simp add: always_snoc)
    qed auto
  qed
qed

text \<open>A callback ends, by returning or with its task: its reader goes.\<close>

lemma reader_gone_ok:
  assumes ok: "endpoint_ok hr s" and j: "j < length (results s)" "r_at (results s ! j) = Calling r i"
    and s': "requests s' = (requests s)[r := q]" "log s' = log s @ CallEnd j r # es" "results s' = (results s)[j := (results s ! j)\<lparr>r_at := Over\<rparr>]"
      "pending_map s' = pending_map s"
    and q: "q = (requests s ! r)\<lparr>q_readers := removeAll j (q_readers (requests s ! r)), q_callbacks := cs\<rparr>"
    and es: "list_all plain es" "\<And>e. e \<in> set es \<Longrightarrow> about e = None"
  shows "endpoint_ok hr s'"
proof -
  have r: "r < length (requests s)" using link_request [OF endpoint_okD(4) [OF ok] j(1)] j(2) by auto
  let ?q = "requests s ! r"
  have nj: "j \<in> set (q_readers ?q)" "distinct (q_readers ?q)"
    using endpoint_okD(4) [OF ok] r j by (auto simp: link_ok_def)
  note link = link_update [OF endpoint_okD(4) [OF ok] j(1), of r, unfolded length_map, OF r, unfolded nth_map [OF r]]
  note old = endpoint_okD(1) [OF ok r, unfolded request_ok_def]
  have len: "length (q_readers ?q) = Suc (length (removeAll j (q_readers ?q)))"
    using nj by (intro length_removeAll_distinct) auto
  show ?thesis
  proof (rule endpoint_ok_link [OF ok r s'(1,2)])
    show "link_ok (map q_readers (requests s')) (results s')"
      using link [of "(results s ! j)\<lparr>r_at := Over\<rparr>" "removeAll j (q_readers ?q)"] j nj r s' q
      by (auto simp: map_update distinct_removeAll)
    have "at_ok hr r q (log s') p" if "q_readers ?q \<noteq> []" "at_ok hr r ?q (log s) p" for p
      using that es(1) s'(2) q by (cases p) (auto simp: plain_all)
    then have "at_ok hr r q (log s') (q_at ?q)" using nj(1) old by (metis empty_iff list.set(1))
    then show "request_ok hr (pending_map s') r q (log s')"
      using old len nj q s' by (auto simp: request_ok_def plain_all [OF es(1)])
    have "always (event_ok hr) (log s @ [CallEnd j r])" using endpoint_okD(5) [OF ok] by (simp add: always_snoc)
    then show "always (event_ok hr) (log s')" using plain_always [OF _ es(1)] s'(2) by fastforce
  qed (use es s' in auto)
qed

lemma call_ends_ok:
  assumes ok: "endpoint_ok hr s"
  shows "call_returns en j b s = Some s' \<Longrightarrow> endpoint_ok hr s'" "drop_result j s = Some s' \<Longrightarrow> endpoint_ok hr s'"
proof -
  assume step: "call_returns en j b s = Some s'"
  then obtain r i where j: "j < length (results s)" "r_at (results s ! j) = Calling r i"
    by (auto simp: call_returns_def split: if_splits result_pc.splits)
  have r: "r < length (requests s)" using link_request [OF endpoint_okD(4) [OF ok] j(1)] j(2) by auto
  let ?q = "requests s ! r"
  let ?f = "\<lambda>cs. ?q\<lparr>q_readers := removeAll j (q_readers ?q), q_callbacks := cs\<rparr>"
  obtain cs es where s': "requests s' = (requests s)[r := ?f cs]" "log s' = log s @ CallEnd j r # es"
      "results s' = (results s)[j := (results s ! j)\<lparr>r_at := Over\<rparr>]" "pending_map s' = pending_map s" "list_all plain es"
      "\<And>e. e \<in> set es \<Longrightarrow> about e = None"
  proof (cases "b \<and> map_of (q_callbacks ?q) i \<noteq> None")
    case True
    then show ?thesis
      using step j r by (intro that [of "hm_remove i (q_callbacks ?q)" "[]"]) (auto simp: call_returns_def Let_def)
  next
    case False
    then show ?thesis
      using step j r by (intro that [of "q_callbacks ?q" "if b \<and> en then [Counted DuplicateMessageId] else []"])
        (auto simp: call_returns_def Let_def split: if_splits)
  qed
  then show "endpoint_ok hr s'" using reader_gone_ok [OF ok j s'(1-4) refl] by blast
next
  assume step: "drop_result j s = Some s'"
  then have j: "j < length (results s)" by (auto simp: drop_result_def split: if_splits)
  show "endpoint_ok hr s'"
  proof (cases "r_at (results s ! j)")
    case (ReadLock r)
    have r: "r < length (requests s)" using link_request [OF endpoint_okD(4) [OF ok] j] ReadLock by auto
    have nj: "j \<notin> set (q_readers (requests s ! r))" "distinct (q_readers (requests s ! r))"
      using endpoint_okD(4) [OF ok] r ReadLock by (auto simp: link_ok_def)
    have "link_ok (map q_readers (requests s)) ((results s)[j := (results s ! j)\<lparr>r_at := Over\<rparr>])"
      using link_update [OF endpoint_okD(4) [OF ok] j, of r "(results s ! j)\<lparr>r_at := Over\<rparr>" "q_readers (requests s ! r)"] r ReadLock nj
      by (simp add: map_update [symmetric])
    moreover have "s' = set_result j Over s" using step ReadLock by (auto simp: drop_result_def split: if_splits)
    ultimately show ?thesis by (intro endpoint_ok_results [OF ok, where es = "[]"]) auto
  next
    case (Calling r i)
    have r: "r < length (requests s)" using link_request [OF endpoint_okD(4) [OF ok] j] Calling by auto
    have s': "s' = logged [CallEnd j r] (upd r (\<lambda>q. q\<lparr>q_readers := removeAll j (q_readers q)\<rparr>) (set_result j Over s))"
      using step Calling by (auto simp: drop_result_def split: if_splits)
    show ?thesis
      by (rule reader_gone_ok [OF ok j Calling, where es = "[]" and cs = "q_callbacks (requests s ! r)"]) (auto simp: s')
  next
    case Over
    then show ?thesis using step by (auto simp: drop_result_def split: if_splits)
  qed
qed

text \<open>Handlers and contexts change nothing that the history depends on, except that \<open>done\<close> is recorded.\<close>

lemma upd_ok:
  assumes ok: "endpoint_ok hr s" and f: "\<And>q. q_readers (f q) = q_readers q" "\<And>q. q_done (f q) = q_done q" "\<And>q. q_at (f q) = q_at q"
      "\<And>q. q_stream_id (f q) = q_stream_id q" "\<And>q. q_result (f q) = q_result q"
  shows "endpoint_ok hr (upd r f s)"
proof (cases "r < length (requests s)")
  case True
  then have r: "at r s = Some (q_at (requests s ! r))" by (simp add: at_def)
  show ?thesis
    by (rule move_ok [OF ok r, where q' = "f (requests s ! r)" and es = "[]"]) (simp_all add: f)
next
  case False
  then have "upd r f s = s" by (simp add: upd_def list_update_beyond not_less)
  then show ?thesis using ok by simp
qed

lemma done_call_ok:
  assumes ok: "endpoint_ok hr s" and step: "done_call r s = Some s'"
  shows "endpoint_ok hr s'"
proof -
  have c: "ConsumeCall r \<in> set (log s)" "s' = logged [DoneCalled r] (upd r (q_done_update (\<lambda>_. True)) s)"
    using step by (auto simp: done_call_def split: if_splits)
  have r: "r < length (requests s)" using endpoint_okD(3) [OF ok c(1)] by simp
  note old = endpoint_okD(1) [OF ok r, unfolded request_ok_def]
  have "at_ok hr r ((requests s ! r)\<lparr>q_done := True\<rparr>) (log s @ [DoneCalled r]) (q_at (requests s ! r))"
    using old by (cases "q_at (requests s ! r)") auto
  then have "request_ok hr (pending_map s) r ((requests s ! r)\<lparr>q_done := True\<rparr>) (log s @ [DoneCalled r])"
    using old by (auto simp: request_ok_def)
  then show ?thesis
    unfolding c(2)
    by (intro endpoint_ok_one [OF ok r, where es = "[DoneCalled r]"]) (use endpoint_okD(5) [OF ok] in \<open>auto simp: always_snoc\<close>)
qed

lemma arrive_ok:
  assumes ok: "endpoint_ok hr s"
  shows "endpoint_ok hr (arrive s)"
proof -
  let ?n = "length (requests s)"
  have fresh: "about e \<noteq> Some ?n" if "e \<in> set (log s)" for e
    using endpoint_okD(3) [OF ok that] by auto
  note none = others_request [OF fresh]
  have "map_of (pending_map s) i \<noteq> Some ?n" for i
    using endpoint_okD(2) [OF ok, of i ?n] by auto
  then have "request_ok hr (pending_map (arrive s)) r (requests (arrive s) ! r) (log (arrive s))" if "r < Suc ?n" for r
    using that endpoint_okD(1) [OF ok, of r] none by (auto simp: arrive_def nth_append less_Suc_eq request_ok_def)
  moreover have "link_ok (map q_readers (requests (arrive s))) (results (arrive s))"
    using endpoint_okD(4) [OF ok] link_request [OF endpoint_okD(4) [OF ok]]
    by (fastforce simp: arrive_def link_ok_def nth_append less_Suc_eq split: result_pc.splits)
  ultimately show ?thesis
    using ok by (auto simp: endpoint_ok_def arrive_def less_SucI)
qed

lemma endpoint_step_ok:
  assumes ok: "endpoint_ok hr s" and step: "endpoint_step hr en hash a s = Some s'"
  shows "endpoint_ok hr s'"
proof (cases a)
  case (SetCallback r i c)
  then show ?thesis using step upd_ok [OF ok] by (auto simp: set_result_callback_def split: if_splits)
next
  case StopStore
  then show ?thesis using step ok by (auto simp: endpoint_ok_def)
next
  case StopNotify
  then show ?thesis using step ok by (auto simp: endpoint_ok_def)
qed (use step in \<open>auto intro: acquire_ok [OF ok] begin_returns_ok [OF ok] consume_returns_ok [OF ok] wait_ends_ok [OF ok]
  lock_write_ok [OF ok] end_returns_ok [OF ok] drop_request_ok [OF ok] read_lock_ok [OF ok] call_ends_ok [OF ok] done_call_ok [OF ok]
  arrive_ok [OF ok] result_arrives_ok [OF ok] upd_ok [OF ok]\<close>)

interpretation endpoint: step_system "endpoint_step hr en hash" "endpoint_ok hr"
  by unfold_locales (rule endpoint_step_ok)
section \<open>Admission is bounded\<close>

fun holds :: "request_pc \<Rightarrow> bool" where
  "holds Notifying = False"
| "holds Gone = False"
| "holds pc = (\<not> before_admission pc)"

abbreviation pcs :: "endpoint_state \<Rightarrow> request_pc list" where
  "pcs s \<equiv> map q_at (requests s)"

definition admitted :: "endpoint_state \<Rightarrow> nat" where
  "admitted s = length (filter (holds \<circ> q_at) (requests s))"

lemma admitted_pcs: "admitted s = length (filter holds (pcs s))"
  by (simp add: admitted_def filter_map)

fun limit_ok :: "nat \<Rightarrow> endpoint_action \<Rightarrow> bool" where
  "limit_ok L (AcquireRead r n) \<longleftrightarrow> 0 < n \<and> n \<le> L"
| "limit_ok L _ \<longleftrightarrow> True"

definition compare_ok :: "nat \<Rightarrow> request_pc \<Rightarrow> bool" where
  "compare_ok L pc \<longleftrightarrow> (case pc of Compare n _ \<Rightarrow> 0 < n \<and> n \<le> L | _ \<Rightarrow> True)"

definition admission_ok :: "nat \<Rightarrow> endpoint_state \<Rightarrow> bool" where
  "admission_ok L s \<longleftrightarrow> active s = admitted s \<and> active s \<le> L \<and> list_all (compare_ok L) (pcs s)"

text \<open>How a step moves the tasks and the counter.\<close>

definition pc_move :: "nat \<Rightarrow> endpoint_state \<Rightarrow> endpoint_state \<Rightarrow> nat \<Rightarrow> request_pc \<Rightarrow> bool" where
  "pc_move L s s' r pc' \<longleftrightarrow>
     r < length (pcs s) \<and> pcs s' = (pcs s)[r := pc'] \<and> (compare_ok L (pcs s ! r) \<longrightarrow> compare_ok L pc') \<and>
     (holds pc' = holds (pcs s ! r) \<and> active s' = active s \<or>
      pcs s ! r = Releasing \<and> pc' = Notifying \<and> active s' = active s - 1 \<or>
      (\<exists>n. pcs s ! r = Compare n (active s) \<and> (n = 0 \<or> active s < n) \<and> pc' = Beginning \<and> active s' = active s + 1))"

lemma pc_move_ok:
  assumes ok: "admission_ok L s" and m: "pc_move L s s' r pc'"
  shows "admission_ok L s'"
proof -
  have r: "r < length (pcs s)" "pcs s' = (pcs s)[r := pc']" using m by (auto simp: pc_move_def)
  have c: "compare_ok L (pcs s ! r)" using ok r(1) by (auto simp: admission_ok_def list_all_length)
  have "list_all (compare_ok L) (pcs s')"
    unfolding r(2) using ok m c by (intro list_all_update) (auto simp: admission_ok_def pc_move_def)
  moreover have "active s' = admitted s' \<and> active s' \<le> L"
    using m c ok filter_update [OF r(1), of holds pc'] unfolding pc_move_def admission_ok_def admitted_pcs r(2)
    by (auto simp: compare_ok_def split: if_splits)
  ultimately show ?thesis by (simp add: admission_ok_def)
qed

lemma same_update: "(map f xs)[r := f (xs ! r)] = map f xs"
  by (metis list_update_id map_update)

lemma other_update: "r \<noteq> x \<Longrightarrow> (map f xs)[r := a, x := f (xs ! x)] = (map f xs)[r := a]"
  by (metis list_update_swap same_update)

lemma at_pcs: "at r s = Some pc \<longleftrightarrow> r < length (pcs s) \<and> pcs s ! r = pc"
  by (auto simp: at_def)

lemmas pcs_simps = map_update same_update other_update set_writer_def remove_request_def Let_def

fun actor :: "endpoint_action \<Rightarrow> nat option" where
  "actor (AcquireCheck r) = Some r"
| "actor (AcquireRead r _) = Some r"
| "actor (AcquireDecide r) = Some r"
| "actor (AcquireWake r) = Some r"
| "actor (BeginReturns r _ _ _) = Some r"
| "actor (ConsumeReturns r _) = Some r"
| "actor (WaitEnds r _) = Some r"
| "actor (LockWrite r) = Some r"
| "actor (EndReturns r) = Some r"
| "actor (Release r) = Some r"
| "actor (Notify r) = Some r"
| "actor (DropRequest r) = Some r"
| "actor _ = None"

lemma pc_moveI:
  assumes "at r s = Some pc" "pcs s' = (pcs s)[r := pc']" "compare_ok L pc'"
    "holds pc' = holds pc \<and> active s' = active s \<or> pc = Releasing \<and> pc' = Notifying \<and> active s' = active s - 1 \<or>
     (\<exists>n. pc = Compare n (active s) \<and> (n = 0 \<or> active s < n) \<and> pc' = Beginning \<and> active s' = active s + 1)"
  shows "\<exists>pc'. pc_move L s s' r pc'"
  using assms unfolding at_pcs pc_move_def by blast

lemma acquire_moves:
  assumes step: "endpoint_step hr en hash a s = Some s'" and lim: "limit_ok L a"
    and a: "a \<in> {AcquireCheck r, AcquireRead r n, AcquireDecide r, AcquireWake r, Release r, Notify r}"
  shows "\<exists>pc'. pc_move L s s' r pc'"
proof -
  obtain pc where pc: "at r s = Some pc"
    using step a by (cases "at r s")
      (auto simp: acquire_check_def acquire_read_def acquire_decide_def acquire_wake_def release_def notify_def)
  have len: "r < length (requests s)" using pc by (simp add: at_def split: if_splits)
  show ?thesis
    by (rule pc_moveI [OF pc, where pc' = "q_at (requests s' ! r)"]; insert a step lim pc len; cases pc)
       (auto simp: acquire_check_def acquire_read_def acquire_decide_def acquire_wake_def release_def notify_def
          pcs_simps compare_ok_def split: if_splits)
qed

lemma request_moves:
  assumes step: "endpoint_step hr en hash a s = Some s'"
    and a: "a \<in> {BeginReturns r res now stamp, ConsumeReturns r hres, WaitEnds r b, LockWrite r, EndReturns r, DropRequest r}"
  shows "\<exists>pc'. pc_move L s s' r pc'"
proof -
  obtain pc where pc: "at r s = Some pc"
    using step a by (cases "at r s")
      (auto simp: begin_returns_def consume_returns_def wait_ends_def lock_write_def end_returns_def drop_request_def Let_def)
  have len: "r < length (requests s)" using pc by (simp add: at_def split: if_splits)
  have "pcs s' = (pcs s)[r := q_at (requests s' ! r)] \<and> compare_ok L (q_at (requests s' ! r)) \<and>
      holds (q_at (requests s' ! r)) = holds pc \<and> active s' = active s"
    using a
  proof (elim insertE emptyE)
    assume "a = BeginReturns r res now stamp"
    then show ?thesis using step pc len
      by (auto simp: begin_returns_def pcs_simps compare_ok_def split: if_splits sum.splits option.splits prod.splits)
  next
    assume "a = ConsumeReturns r hres"
    then show ?thesis using step pc len by (auto simp: consume_returns_def pcs_simps compare_ok_def split: if_splits)
  next
    assume "a = WaitEnds r b"
    then show ?thesis using step pc len by (auto simp: wait_ends_def pcs_simps compare_ok_def split: if_splits)
  next
    assume "a = LockWrite r"
    then show ?thesis using step pc len
      by (cases pc) (auto simp: lock_write_def pcs_simps compare_ok_def nth_list_update split: if_splits option.splits)
  next
    assume "a = EndReturns r"
    then show ?thesis using step pc len
      by (cases pc) (auto simp: end_returns_def pcs_simps compare_ok_def nth_list_update split: if_splits option.splits)
  next
    assume "a = DropRequest r"
    then show ?thesis using step pc len
      by (cases pc) (auto simp: drop_request_def pcs_simps compare_ok_def nth_list_update split: if_splits option.splits)
  qed
  then show ?thesis using pc_moveI [OF pc] by blast
qed

text \<open>The other steps leave the requests where they are, or add one.\<close>

lemma result_moves:
  "pcs (result_arrives en given s) = pcs s \<and> active (result_arrives en given s) = active s"
  "read_lock en j i s = Some s' \<Longrightarrow> pcs s' = pcs s \<and> active s' = active s"
  "call_returns en j b s = Some s' \<Longrightarrow> pcs s' = pcs s \<and> active s' = active s"
  "drop_result j s = Some s' \<Longrightarrow> pcs s' = pcs s \<and> active s' = active s"
proof -
  show "pcs (result_arrives en given s) = pcs s \<and> active (result_arrives en given s) = active s"
    by (simp add: result_arrives_def split: option.split)
  show "read_lock en j i s = Some s' \<Longrightarrow> pcs s' = pcs s \<and> active s' = active s"
    by (cases "r_at (results s ! j)") (auto simp: read_lock_def pcs_simps split: if_splits option.splits)
  show "call_returns en j b s = Some s' \<Longrightarrow> pcs s' = pcs s \<and> active s' = active s"
  proof (cases "r_at (results s ! j)")
    case (Calling r i)
    assume "call_returns en j b s = Some s'"
    then show ?thesis
      using Calling by (cases "r < length (requests s)")
        (auto simp: call_returns_def Let_def map_update same_update list_update_beyond not_less split: if_splits)
  qed (auto simp: call_returns_def split: if_splits)
  show "drop_result j s = Some s' \<Longrightarrow> pcs s' = pcs s \<and> active s' = active s"
    by (cases "r_at (results s ! j)") (auto simp: drop_result_def pcs_simps split: if_splits)
qed

lemma other_moves:
  assumes step: "endpoint_step hr en hash a s = Some s'" and a: "actor a = None" "a \<noteq> Arrive"
  shows "pcs s' = pcs s \<and> active s' = active s"
proof (cases a)
  case (ResultArrives i)
  then show ?thesis using step result_moves(1) by auto
next
  case (TakeReadLock j i)
  then show ?thesis using step result_moves(2) by simp
next
  case (CallReturns j b)
  then show ?thesis using step result_moves(3) by simp
next
  case (DropResult j)
  then show ?thesis using step result_moves(4) by simp
qed (use step a in \<open>auto simp: set_result_callback_def done_call_def pcs_simps split: if_splits\<close>)

lemma admission_step:
  assumes ok: "admission_ok L s" and lim: "limit_ok L a" and step: "endpoint_step hr en hash a s = Some s'"
  shows "admission_ok L s'"
proof (cases "actor a")
  case (Some r)
  have "\<exists>pc'. pc_move L s s' r pc'"
    using Some acquire_moves [OF step lim, of r] request_moves [OF step, of r] by (cases a) auto
  then show ?thesis using pc_move_ok [OF ok] by blast
next
  case None
  show ?thesis
  proof (cases "a = Arrive")
    case True
    then show ?thesis using ok step by (auto simp: admission_ok_def admitted_def arrive_def compare_ok_def)
  next
    case False
    then show ?thesis using ok other_moves [OF step None] by (simp add: admission_ok_def admitted_pcs)
  qed
qed

definition bounded_step :: "nat \<Rightarrow> bool \<Rightarrow> bool \<Rightarrow> (string \<Rightarrow> nat) \<Rightarrow> endpoint_action \<Rightarrow> endpoint_state \<Rightarrow> endpoint_state option" where
  "bounded_step L hr en hash a s = (if limit_ok L a then endpoint_step hr en hash a s else None)"

interpretation admission: step_system "bounded_step L hr en hash" "admission_ok L"
  by unfold_locales (auto simp: bounded_step_def split: if_splits intro: admission_step)

lemma run_bounded: "list_all (limit_ok L) as \<Longrightarrow> run_steps (bounded_step L hr en hash) as s = run_steps (endpoint_step hr en hash) as s"
  by (induction as arbitrary: s) (auto simp: bounded_step_def split: option.split)

section \<open>What an endpoint guarantees\<close>

text \<open>
  C9. The lifetime of a request. Under every interleaving of requests, results, handlers, cancellations, dropped tasks
  and \<open>stop\<close>: when \<open>end_request\<close> is called for a request, no callback of it is running, none runs later, and it is
  called at most once. Its result is the handler's; a request that waits for results succeeds exactly when \<open>done\<close> had
  been called by then, even if its context was cancelled first. A request whose stream id is in use is ended at once.
\<close>

theorem request_lifetime:
  assumes run: "run_steps (endpoint_step has_result en hash) as (endpoint_new en) = Some s"
    and log: "log s = l1 @ EndCall r res # l2"
  shows "starts r l1 = ends r l1 \<and> starts r l2 = 0 \<and> \<not> ended r l1 \<and> \<not> ended r l2 \<and>
    (hist r l1 = [] \<and> res = Failure ''duplicate key'' \<or>
     (\<exists>c. hist r l1 = [ConsumeCall r, ConsumeReturned r c] \<and> res = outcome has_result c (DoneCalled r \<in> set l1)))"
proof -
  have alw: "always (event_ok has_result) (log s)"
    using endpoint.run_inv [OF endpoint_new_ok run] by (rule endpoint_okD(5))
  have "\<not> is_start r e \<and> \<not> has_ended r e" if e: "e \<in> set l2" for e
  proof -
    obtain m1 m2 where l2: "l2 = m1 @ e # m2" using split_list [OF e] by blast
    then have "log s = (l1 @ EndCall r res # m1) @ e # m2" using log by simp
    then have "event_ok has_result (l1 @ EndCall r res # m1) e" by (rule always_at [OF alw])
    then show ?thesis by (cases e) auto
  qed
  then have "starts r l2 = 0" "\<not> ended r l2"
    by (auto simp: starts_def ended_def list_ex_iff filter_empty_conv)
  moreover have "event_ok has_result l1 (EndCall r res)" using alw log by (rule always_at)
  ultimately show ?thesis by auto
qed

text \<open>
  C33. Admission is bounded: when the handler's concurrency is never zero and never above \<open>L\<close>, the counter of active
  requests is the number of requests between their admission and the release of their guard, and it is at most \<open>L\<close>.
\<close>

theorem admission_bound:
  assumes lim: "list_all (limit_ok L) as" and run: "run_steps (endpoint_step has_result en hash) as (endpoint_new en) = Some s"
  shows "active s = admitted s \<and> admitted s \<le> L"
proof -
  have "admission_ok L (endpoint_new en)"
    by (simp add: admission_ok_def admitted_def endpoint_new_def)
  then show ?thesis
    using admission.run_inv [of L "endpoint_new en" has_result en hash as s] run run_bounded [OF lim] by (simp add: admission_ok_def)
qed

text \<open>A request whose result comes while it waits: the callback runs, \<open>done\<close> is called, the request ends when it is back.\<close>

definition demo_request :: "endpoint_action list" where
  "demo_request =
     [Arrive, AcquireCheck 0, AcquireRead 0 1, AcquireDecide 0, BeginReturns 0 (Inr (Some ''a'')) 0 0, SetCallback 0 ''m'' 7,
      ConsumeReturns 0 Success, ResultArrives (Some ''a''), TakeReadLock 0 ''m'', DoneCall 0, WaitEnds 0 True, CallReturns 0 True,
      LockWrite 0, EndReturns 0]"

definition demo_events :: "request_event list" where
  "demo_events =
     [BeginCall 0, ConsumeCall 0, ConsumeReturned 0 Success, CallStart 0 0, DoneCalled 0, CallEnd 0 0, EndCall 0 Success, EndReturned 0,
      Counted MessagesTotal]"

lemma demo_request_run:
  "map_option (\<lambda>s. (log s, active s)) (run_steps (endpoint_step True True (\<lambda>_. 0)) demo_request (endpoint_new True)) =
     Some (demo_events, 1)"
  by code_simp

theorem request_lifetime_witness:
  "starts 0 (take 6 demo_events) = ends 0 (take 6 demo_events) \<and> starts 0 (drop 7 demo_events) = 0 \<and>
    (hist 0 (take 6 demo_events) = [] \<and> Success = Failure ''duplicate key'' \<or>
     (\<exists>c. hist 0 (take 6 demo_events) = [ConsumeCall 0, ConsumeReturned 0 c] \<and>
        Success = outcome True c (DoneCalled 0 \<in> set (take 6 demo_events))))"
proof -
  obtain s where s: "run_steps (endpoint_step True True (\<lambda>_. 0)) demo_request (endpoint_new True) = Some s" "log s = demo_events"
    using demo_request_run by auto
  have "log s = take 6 demo_events @ EndCall 0 Success # drop 7 demo_events"
    by (simp add: s(2) demo_events_def)
  from request_lifetime [OF s(1) this] show ?thesis by blast
qed

theorem admission_bound_witness:
  "\<exists>s. run_steps (endpoint_step True True (\<lambda>_. 0)) demo_request (endpoint_new True) = Some s \<and> active s = 1 \<and>
    active s = admitted s \<and> admitted s \<le> 1"
proof -
  obtain s where s: "run_steps (endpoint_step True True (\<lambda>_. 0)) demo_request (endpoint_new True) = Some s" "active s = 1"
    using demo_request_run by auto
  have "list_all (limit_ok 1) demo_request" by (simp add: demo_request_def)
  from admission_bound [OF this s(1)] s show ?thesis by blast
qed

section \<open>A lost wake-up\<close>

text \<open>
  \<open>notify_waiters\<close> wakes only the \<open>Notified\<close> futures that exist. A request reads the counter and, when the limit is
  reached, makes its future afterwards: a request that ends in between wakes nobody. With limit one, the second request
  sleeps although no request is active, and nothing but another request that ends, \<open>stop\<close> or its own end wakes it.
\<close>

definition lost_wakeup :: "endpoint_action list" where
  "lost_wakeup =
     [Arrive, Arrive, AcquireCheck 0, AcquireRead 0 1, AcquireDecide 0, AcquireCheck 1, AcquireRead 1 1,
      BeginReturns 0 (Inr (Some ''a'')) 0 0, ConsumeReturns 0 Success, LockWrite 0, EndReturns 0, Release 0, Notify 0,
      AcquireDecide 1]"

lemma lost_wakeup_run:
  "map_option (\<lambda>s. (active s, stopped s, notify_calls s, pcs s))
     (run_steps (endpoint_step False True (\<lambda>_. 0)) lost_wakeup (endpoint_new True)) = Some (0, False, 1, [Gone, Sleeping 1])"
  by code_simp

lemma sleeping_stays:
  assumes at: "pcs s = [Gone, Sleeping (notify_calls s)]" and step: "endpoint_step hr en hash a s = Some s'"
    and a: "a \<noteq> DropRequest 1" "a \<noteq> StopNotify" "a \<noteq> Arrive"
  shows "pcs s' = [Gone, Sleeping (notify_calls s')]"
proof (cases "actor a")
  case None
  have "notify_calls s' = notify_calls s"
    using step a None
    by (cases a) (auto simp: result_arrives_def read_lock_def call_returns_def drop_result_def set_result_callback_def done_call_def
      counted_def logged_def upd_def set_result_def Let_def split: if_splits option.splits result_pc.splits)
  then show ?thesis using other_moves [OF step None a(3)] at by simp
next
  case (Some r)
  have "at r s = (if r = 0 then Some Gone else if r = 1 then Some (Sleeping (notify_calls s)) else None)"
    using at by (auto simp: at_def map_eq_Cons_conv nth_Cons split: nat.split)
  then show ?thesis
    using step Some a
    by (cases a) (auto simp: acquire_check_def acquire_read_def acquire_decide_def acquire_wake_def release_def notify_def begin_returns_def
      consume_returns_def wait_ends_def lock_write_def end_returns_def drop_request_def Let_def split: if_splits)
qed

theorem admission_lost_wakeup:
  "\<exists>s. run_steps (endpoint_step False True (\<lambda>_. 0)) lost_wakeup (endpoint_new True) = Some s \<and>
     list_all (limit_ok 1) lost_wakeup \<and> active s = 0 \<and> \<not> stopped s \<and> pcs s = [Gone, Sleeping (notify_calls s)] \<and>
     (\<forall>a s'. endpoint_step False True (\<lambda>_. 0) a s = Some s' \<and> a \<noteq> DropRequest 1 \<and> a \<noteq> StopNotify \<and> a \<noteq> Arrive \<longrightarrow>
        pcs s' = [Gone, Sleeping (notify_calls s')])"
proof -
  obtain s where s: "run_steps (endpoint_step False True (\<lambda>_. 0)) lost_wakeup (endpoint_new True) = Some s" "active s = 0"
      "\<not> stopped s" "pcs s = [Gone, Sleeping (notify_calls s)]"
    using lost_wakeup_run by auto
  moreover have "list_all (limit_ok 1) lost_wakeup" by (simp add: lost_wakeup_def)
  moreover have "pcs s' = [Gone, Sleeping (notify_calls s')]"
    if "endpoint_step False True (\<lambda>_. 0) a s = Some s' \<and> a \<noteq> DropRequest 1 \<and> a \<noteq> StopNotify \<and> a \<noteq> Arrive" for a s'
    using sleeping_stays [OF s(4)] that by blast
  ultimately show ?thesis by (intro exI [of _ s]) auto
qed

end
