(* ===== verification/Cron_Source.thy ===== *)
theory Cron_Source
  imports Step_Systems
begin

text \<open>
  The local schedule source (\<open>src/datasource/cron/croner.rs\<close>): interval expressions, the next occurrence of a job,
  the occurrence that is due after a delay, and the scheduler task that dispatches occurrences.

  An instant is its number of nanoseconds since the epoch. The calendar library (\<open>croner\<close>, \<open>chrono\<close>,
  \<open>chrono-tz\<close>) is a parameter: \<open>croner\<close> holds what it answers for one expression and time zone, \<open>in_range\<close> says
  which milliseconds it can represent. A search that need not end returns \<open>None\<close> if it does not.
\<close>

section \<open>Interval expressions\<close>

definition is_digit :: "char \<Rightarrow> bool" where
  "is_digit c \<longleftrightarrow> 48 \<le> (of_char c :: nat) \<and> (of_char c :: nat) \<le> 57"

fun parse_decimal :: "nat \<Rightarrow> string \<Rightarrow> nat" where
  "parse_decimal acc [] = acc"
| "parse_decimal acc (c # cs) = parse_decimal (acc * 10 + (of_char c - 48)) cs"

definition strip_prefix :: "string \<Rightarrow> string \<Rightarrow> string option" where
  "strip_prefix p s = (if take (length p) s = p then Some (drop (length p) s) else None)"

definition strip_suffix :: "string \<Rightarrow> string \<Rightarrow> string option" where
  "strip_suffix p s =
     (if length p \<le> length s \<and> drop (length s - length p) s = p then Some (take (length s - length p) s) else None)"

text \<open>The interval branch of \<open>LocalSchedule::parse\<close>.\<close>

definition parse_interval :: "string \<Rightarrow> int runtime_result" where
  "parse_interval expression =
     (let invalid = Inl (InvalidConfiguration ''local interval requires @every <10..86400000>ms'') in
      case Option.bind (strip_prefix ''@every '' expression) (strip_suffix ''ms'') of
        None \<Rightarrow> invalid
      | Some digits \<Rightarrow>
          (if digits = [] \<or> length digits > 8 \<or> hd digits = CHR ''0'' \<or> \<not> list_all is_digit digits then invalid
           else let n = parse_decimal 0 digits in
             if 10 \<le> n \<and> n \<le> 86400000 then Inr (int n) else invalid))"

section \<open>Occurrences\<close>

record croner =
  find_next :: "int \<Rightarrow> string + int"
  time_matching :: "int \<Rightarrow> string + bool"
  first_fold :: "int \<Rightarrow> bool"

datatype local_schedule = Calendar croner | Interval int

definition parse_schedule :: "(string \<Rightarrow> string + croner) \<Rightarrow> string \<Rightarrow> local_schedule runtime_result" where
  "parse_schedule cron expression =
     (if take 6 expression \<noteq> ''@every''
      then (case cron expression of Inl e \<Rightarrow> Inl (InvalidConfiguration e) | Inr c \<Rightarrow> Inr (Calendar c))
      else (case parse_interval expression of Inl e \<Rightarrow> Inl e | Inr ms \<Rightarrow> Inr (Interval ms)))"

partial_function (option) next_calendar :: "croner \<Rightarrow> int \<Rightarrow> int runtime_result option" where
  "next_calendar c cursor =
     (case find_next c cursor of
        Inl e \<Rightarrow> Some (Inl (InvalidConfiguration e))
      | Inr candidate \<Rightarrow>
          (case time_matching c candidate of
             Inl e \<Rightarrow> Some (Inl (InvalidConfiguration e))
           | Inr m \<Rightarrow> if m \<and> first_fold c candidate then Some (Inr candidate) else next_calendar c candidate))"

definition millis :: "int \<Rightarrow> int" where "millis t = t div 1000000"

fun job_next :: "(int \<Rightarrow> bool) \<Rightarrow> local_schedule \<Rightarrow> int \<Rightarrow> int runtime_result option" where
  "job_next in_range (Interval ms) t =
     Some (if in_range (millis t + ms) then Inr ((millis t + ms) * 1000000)
       else Inl (InvalidConfiguration ''interval timestamp out of range''))"
| "job_next in_range (Calendar c) t = next_calendar c t"

text \<open>The loop of \<open>due\<close>, and \<open>due\<close>: an interval jumps to the last occurrence, a calendar walks there.\<close>

partial_function (option) due_loop :: "(int \<Rightarrow> int runtime_result option) \<Rightarrow> int \<Rightarrow> int \<Rightarrow> int \<Rightarrow> bool \<Rightarrow>
    (int \<times> int \<times> bool) runtime_result option" where
  "due_loop nx now latest n missed =
     (if n \<le> now
      then (case nx n of
          None \<Rightarrow> None
        | Some (Inl e) \<Rightarrow> Some (Inl e)
        | Some (Inr n') \<Rightarrow> due_loop nx now n n' True)
      else Some (Inr (latest, n, missed)))"

definition trunc_div :: "int \<Rightarrow> int \<Rightarrow> int" where
  "trunc_div a b = sgn a * sgn b * (\<bar>a\<bar> div \<bar>b\<bar>)"

definition walk_due :: "(int \<Rightarrow> int runtime_result option) \<Rightarrow> int \<Rightarrow> int \<Rightarrow> (int \<times> int \<times> bool) runtime_result option" where
  "walk_due nx first now =
     (case nx first of
        None \<Rightarrow> None
      | Some (Inl e) \<Rightarrow> Some (Inl e)
      | Some (Inr n) \<Rightarrow> due_loop nx now first n False)"

fun job_due :: "(int \<Rightarrow> bool) \<Rightarrow> local_schedule \<Rightarrow> int \<Rightarrow> int \<Rightarrow> (int \<times> int \<times> bool) runtime_result option" where
  "job_due in_range (Interval ms) first now =
     (let skipped = trunc_div (trunc_div (now - first) 1000000) ms;
          latest = first + skipped * ms * 1000000 in
      case job_next in_range (Interval ms) latest of
        None \<Rightarrow> None
      | Some (Inl e) \<Rightarrow> Some (Inl e)
      | Some (Inr n) \<Rightarrow> Some (Inr (latest, n, skipped > 0)))"
| "job_due in_range (Calendar c) first now = walk_due (job_next in_range (Calendar c)) first now"

section \<open>The scheduler\<close>

record job =
  job_id :: int
  job_schedule :: local_schedule
  skip_overlap :: bool
  fire_once :: bool

datatype scheduler_pc = Looping | Draining | Returned "unit runtime_result"

text \<open>A dispatched occurrence: its job and whether its task holds the overlap guard; \<open>ended\<close> tasks are over.\<close>

record occurrence =
  occ_job :: nat
  occ_guarded :: bool
  occ_ended :: bool

datatype cron_event =
    Fired nat int int nat
  | Over nat
  | Aborted nat

record scheduler =
  sched_at :: scheduler_pc
  nexts :: "int list"
  running :: "bool list"
  tasks :: "occurrence list"
  cancelled :: bool
  owner_over :: bool
  log :: "cron_event list"

definition add_job :: "job \<Rightarrow> string \<Rightarrow> job list \<Rightarrow> unit runtime_result \<times> job list" where
  "add_job j name jobs =
     (if list_ex (\<lambda>k. job_id k = job_id j) jobs then (Inl (DuplicateResource name), jobs) else (Inr (), jobs @ [j]))"

text \<open>\<open>start\<close> computes the first occurrences; an error starts nothing.\<close>

fun first_occurrences :: "(int \<Rightarrow> bool) \<Rightarrow> int \<Rightarrow> job list \<Rightarrow> int list runtime_result option" where
  "first_occurrences in_range now [] = Some (Inr [])"
| "first_occurrences in_range now (j # js) =
     (case job_next in_range (job_schedule j) now of
        None \<Rightarrow> None
      | Some (Inl e) \<Rightarrow> Some (Inl e)
      | Some (Inr t) \<Rightarrow>
          (case first_occurrences in_range now js of
             None \<Rightarrow> None
           | Some (Inl e) \<Rightarrow> Some (Inl e)
           | Some (Inr ts) \<Rightarrow> Some (Inr (t # ts))))"

definition scheduler_new :: "int list \<Rightarrow> scheduler" where
  "scheduler_new ns = \<lparr>sched_at = Looping, nexts = ns, running = replicate (length ns) False, tasks = [], cancelled = False,
     owner_over = False, log = []\<rparr>"

definition spawn :: "nat \<Rightarrow> bool \<Rightarrow> int \<Rightarrow> int \<Rightarrow> scheduler \<Rightarrow> scheduler" where
  "spawn i guarded t now s =
     s\<lparr>tasks := tasks s @ [\<lparr>occ_job = i, occ_guarded = guarded, occ_ended = False\<rparr>],
       log := log s @ [Fired i t now (length (tasks s))]\<rparr>"

definition dispatch :: "job \<Rightarrow> nat \<Rightarrow> int \<Rightarrow> int \<Rightarrow> scheduler \<Rightarrow> scheduler" where
  "dispatch j i t now s =
     (if owner_over s then s
      else if skip_overlap j
      then if running s ! i then s else spawn i True t now (s\<lparr>running := (running s)[i := True]\<rparr>)
      else spawn i False t now s)"

text \<open>A pass over the jobs; an error ends it at once.\<close>

fun fire_jobs :: "(int \<Rightarrow> bool) \<Rightarrow> int \<Rightarrow> nat \<Rightarrow> job list \<Rightarrow> scheduler \<Rightarrow> (unit runtime_result \<times> scheduler) option" where
  "fire_jobs in_range now i [] s = Some (Inr (), s)"
| "fire_jobs in_range now i (j # js) s =
     (if nexts s ! i > now then fire_jobs in_range now (i + 1) js s
      else case job_due in_range (job_schedule j) (nexts s ! i) now of
          None \<Rightarrow> None
        | Some (Inl e) \<Rightarrow> Some (Inl e, s)
        | Some (Inr (last_due, n, missed)) \<Rightarrow>
            (let s1 = s\<lparr>nexts := (nexts s)[i := n]\<rparr> in
             fire_jobs in_range now (i + 1) js (if \<not> missed \<or> fire_once j then dispatch j i last_due now s1 else s1)))"

definition end_task :: "nat \<Rightarrow> cron_event \<Rightarrow> scheduler \<Rightarrow> scheduler" where
  "end_task k e s =
     (let o' = tasks s ! k in
      s\<lparr>tasks := (tasks s)[k := o'\<lparr>occ_ended := True\<rparr>],
        running := (if occ_guarded o' then (running s)[occ_job o' := False] else running s), log := log s @ [e]\<rparr>)"

text \<open>Returning from the loop with an error drops the set of tasks, which aborts what still runs.\<close>

fun abort_tasks :: "nat list \<Rightarrow> scheduler \<Rightarrow> scheduler" where
  "abort_tasks [] s = s"
| "abort_tasks (k # ks) s = abort_tasks ks (if occ_ended (tasks s ! k) then s else end_task k (Aborted k) s)"

definition wake :: "(int \<Rightarrow> bool) \<Rightarrow> job list \<Rightarrow> int \<Rightarrow> scheduler \<Rightarrow> scheduler option" where
  "wake in_range jobs now s =
     (if sched_at s \<noteq> Looping \<or> jobs = [] then None
      else case fire_jobs in_range now 0 jobs s of
          None \<Rightarrow> None
        | Some (Inr _, s1) \<Rightarrow> Some s1
        | Some (Inl e, s1) \<Rightarrow> Some (abort_tasks [0..<length (tasks s1)] (s1\<lparr>sched_at := Returned (Inl e)\<rparr>)))"

definition break_loop :: "job list \<Rightarrow> scheduler \<Rightarrow> scheduler option" where
  "break_loop jobs s =
     (if sched_at s = Looping \<and> (cancelled s \<or> owner_over s)
      then Some (s\<lparr>sched_at := (if jobs = [] then Returned (Inr ()) else Draining)\<rparr>) else None)"

definition drain :: "scheduler \<Rightarrow> scheduler option" where
  "drain s = (if sched_at s = Draining \<and> list_all occ_ended (tasks s) then Some (s\<lparr>sched_at := Returned (Inr ())\<rparr>) else None)"

definition task_over :: "nat \<Rightarrow> scheduler \<Rightarrow> scheduler option" where
  "task_over k s = (if k < length (tasks s) \<and> \<not> occ_ended (tasks s ! k) then Some (end_task k (Over k) s) else None)"

datatype cron_action = Wake int | TaskOver nat | Cancel | OwnerOver | Break | Drain

fun cron_step :: "(int \<Rightarrow> bool) \<Rightarrow> job list \<Rightarrow> cron_action \<Rightarrow> scheduler \<Rightarrow> scheduler option" where
  "cron_step in_range jobs (Wake now) s = wake in_range jobs now s"
| "cron_step in_range jobs (TaskOver k) s = task_over k s"
| "cron_step in_range jobs Cancel s = Some (s\<lparr>cancelled := True\<rparr>)"
| "cron_step in_range jobs OwnerOver s = Some (s\<lparr>owner_over := True\<rparr>)"
| "cron_step in_range jobs Break s = break_loop jobs s"
| "cron_step in_range jobs Drain s = drain s"

section \<open>The syntax of intervals\<close>

lemma parse_decimal_snoc: "parse_decimal acc (cs @ [c]) = parse_decimal acc cs * 10 + (of_char c - 48)"
  by (induction cs arbitrary: acc) auto

lemma parse_of_decimal: "parse_decimal 0 (to_decimal n) = n"
proof (induction n rule: to_decimal.induct)
  case (1 n)
  then show ?case by (subst to_decimal.simps) (simp add: parse_decimal_snoc char_digit)
qed

lemma decimal_ne [simp]: "to_decimal n \<noteq> []"
  by (subst to_decimal.simps) simp

lemma digit_char: "(n :: nat) < 10 \<Longrightarrow> is_digit (char_of (48 + n))"
  by (simp add: is_digit_def char_digit)

lemma decimal_digits: "list_all is_digit (to_decimal n)"
proof (induction n rule: to_decimal.induct)
  case (1 n)
  then show ?case by (subst to_decimal.simps) (simp add: digit_char)
qed

lemma char_zero: "(of_char c :: nat) = 48 \<longleftrightarrow> c = CHR ''0''"
proof -
  have "(48 :: nat) = of_char CHR ''0''" by simp
  then show ?thesis by (metis of_char_eq_iff)
qed

lemma decimal_hd: "0 < n \<Longrightarrow> hd (to_decimal n) \<noteq> CHR ''0''"
proof (induction n rule: to_decimal.induct)
  case (1 n)
  show ?case
  proof (cases "n < 10")
    case True
    then have "(of_char (char_of (48 + n) :: char) :: nat) \<noteq> 48" using 1(2) by (simp add: char_digit)
    then have "char_of (48 + n) \<noteq> CHR ''0''" using char_zero by blast
    moreover have "to_decimal n = [char_of (48 + n)]" using True by (subst to_decimal.simps) simp
    ultimately show ?thesis by simp
  next
    case False
    then show ?thesis using 1(1) by (subst to_decimal.simps) simp
  qed
qed

lemma decimal_length: "n < 10 ^ k \<Longrightarrow> 0 < k \<Longrightarrow> length (to_decimal n) \<le> k"
proof (induction n arbitrary: k rule: to_decimal.induct)
  case (1 n)
  show ?case
  proof (cases "n < 10")
    case True
    then show ?thesis using 1(3) by (subst to_decimal.simps) simp
  next
    case False
    have k: "1 < k" using 1(2,3) False by (cases "k = 1") auto
    then have "n < 10 ^ (k - 1) * 10" using 1(2) by (simp add: power_eq_if)
    then have "n div 10 < 10 ^ (k - 1)" by (simp add: less_mult_imp_div_less)
    then have "length (to_decimal (n div 10)) \<le> k - 1" using 1(1) [OF False] k by simp
    then show ?thesis using False k by (subst to_decimal.simps) simp
  qed
qed

lemma parse_decimal_pos: "ds \<noteq> [] \<Longrightarrow> list_all is_digit ds \<Longrightarrow> hd ds \<noteq> CHR ''0'' \<Longrightarrow> 0 < parse_decimal 0 ds"
proof (induction ds rule: rev_induct)
  case (snoc c ds)
  show ?case
  proof (cases "ds = []")
    case True
    then have "(of_char c :: nat) \<noteq> 48" "48 \<le> (of_char c :: nat)" using snoc.prems char_zero by (auto simp: is_digit_def)
    then show ?thesis using True by simp
  next
    case False
    then have "0 < parse_decimal 0 ds" using snoc by simp
    then show ?thesis by (simp add: parse_decimal_snoc)
  qed
qed simp

lemma decimal_of_parse:
  "ds \<noteq> [] \<Longrightarrow> list_all is_digit ds \<Longrightarrow> hd ds \<noteq> CHR ''0'' \<Longrightarrow> to_decimal (parse_decimal 0 ds) = ds"
proof (induction ds rule: rev_induct)
  case (snoc c ds)
  let ?d = "(of_char c :: nat) - 48"
  have d: "?d < 10" "char_of (48 + ?d) = c" using snoc.prems by (auto simp: is_digit_def)
  show ?case
  proof (cases "ds = []")
    case True
    then show ?thesis using d by (subst to_decimal.simps) simp
  next
    case False
    then have ds: "list_all is_digit ds" "hd ds \<noteq> CHR ''0''" using snoc.prems by auto
    have pos: "0 < parse_decimal 0 ds" using parse_decimal_pos [OF False ds] .
    have "to_decimal (parse_decimal 0 ds * 10 + ?d) = to_decimal (parse_decimal 0 ds) @ [char_of (48 + ?d)]"
      using pos d(1) by (subst to_decimal.simps) simp
    then show ?thesis using snoc.IH [OF False ds] d(2) by (simp add: parse_decimal_snoc)
  qed
qed simp

lemma strip_prefix_Some: "strip_prefix p s = Some t \<longleftrightarrow> s = p @ t"
  unfolding strip_prefix_def by (metis append_eq_conv_conj option.distinct(1) option.inject append_take_drop_id)

lemma strip_suffix_Some: "strip_suffix p s = Some t \<longleftrightarrow> s = t @ p"
proof
  assume "strip_suffix p s = Some t"
  then have "drop (length s - length p) s = p" "t = take (length s - length p) s"
    by (auto simp: strip_suffix_def split: if_splits)
  then show "s = t @ p" by (metis append_take_drop_id)
qed (simp add: strip_suffix_def)

text \<open>
  An interval expression is accepted exactly when it is \<open>@every \<close>, the decimal numeral of a number of milliseconds
  from 10 to 86400000 without leading zeros, and \<open>ms\<close>; the schedule has that many milliseconds.
\<close>

theorem interval_syntax:
  "parse_interval expression = Inr ms \<longleftrightarrow> 10 \<le> ms \<and> ms \<le> 86400000 \<and> expression = ''@every '' @ to_decimal (nat ms) @ ''ms''"
proof
  assume "parse_interval expression = Inr ms"
  then obtain ds where ds: "Option.bind (strip_prefix ''@every '' expression) (strip_suffix ''ms'') = Some ds" "ds \<noteq> []"
      "hd ds \<noteq> CHR ''0''" "list_all is_digit ds" "ms = int (parse_decimal 0 ds)" "10 \<le> parse_decimal 0 ds" "parse_decimal 0 ds \<le> 86400000"
    by (auto simp: parse_interval_def Let_def split: option.splits if_splits)
  then show "10 \<le> ms \<and> ms \<le> 86400000 \<and> expression = ''@every '' @ to_decimal (nat ms) @ ''ms''"
    by (auto simp: Option.bind_eq_Some_conv strip_prefix_Some strip_suffix_Some decimal_of_parse)
next
  assume ms: "10 \<le> ms \<and> ms \<le> 86400000 \<and> expression = ''@every '' @ to_decimal (nat ms) @ ''ms''"
  let ?n = "nat ms"
  have n: "10 \<le> ?n" "?n \<le> 86400000" using ms by auto
  have strip: "strip_prefix ''@every '' expression = Some (to_decimal ?n @ ''ms'')" "strip_suffix ''ms'' (to_decimal ?n @ ''ms'') = Some (to_decimal ?n)"
    using ms by (simp_all only: strip_prefix_Some strip_suffix_Some append_assoc)
  have "length (to_decimal ?n) \<le> 8" using n(2) by (intro decimal_length) auto
  moreover have "hd (to_decimal ?n) \<noteq> CHR ''0''" using n(1) by (intro decimal_hd) auto
  ultimately show "parse_interval expression = Inr ms"
    using n ms unfolding parse_interval_def Let_def strip bind.simps option.simps
    by (simp add: strip decimal_digits parse_of_decimal)
qed
section \<open>Which occurrence is due\<close>

lemma trunc_div_pos: "0 \<le> a \<Longrightarrow> 0 < b \<Longrightarrow> trunc_div a b = a div b"
  by (cases "a = 0") (auto simp: trunc_div_def)

lemma div_div: "0 \<le> c \<Longrightarrow> (a :: int) div b div c = a div (b * c)"
  by (rule zdiv_zmult2_eq [symmetric])

lemma le_div_iff_mult:
  fixes u :: int
  assumes "0 < u"
  shows "k \<le> x div u \<longleftrightarrow> k * u \<le> x"
proof
  assume "k \<le> x div u"
  then have "k * u \<le> x div u * u" using assms by (simp add: mult_right_mono)
  also have "\<dots> \<le> x" using assms by (metis add_increasing2 div_mult_mod_eq order_refl pos_mod_sign)
  finally show "k * u \<le> x" .
next
  assume "k * u \<le> x"
  then have "k * u div u \<le> x div u" using assms by (rule zdiv_mono1)
  then show "k \<le> x div u" using assms by simp
qed

text \<open>An interval from a whole millisecond goes on in steps of its length.\<close>

lemma interval_step:
  assumes "t = m * 1000000" "in_range (m + ms)"
  shows "job_next in_range (Interval ms) t = Some (Inr (t + ms * 1000000))"
  using assms by (simp add: millis_def algebra_simps)

lemma walk_interval:
  assumes first: "first = a * 1000000" "0 < ms" and range: "\<And>m. a < m \<Longrightarrow> m * 1000000 \<le> now + ms * 1000000 \<Longrightarrow> in_range m"
    and k: "first + int k * (ms * 1000000) \<le> now" and d: "d = nat ((now - first) div (ms * 1000000)) - k"
  shows "due_loop (job_next in_range (Interval ms)) now (first + int k * (ms * 1000000)) (first + (int k + 1) * (ms * 1000000)) b =
    Some (Inr (first + (now - first) div (ms * 1000000) * (ms * 1000000),
      first + ((now - first) div (ms * 1000000) + 1) * (ms * 1000000), b \<or> 0 < d))"
  using k d
proof (induction d arbitrary: k b)
  case 0
  let ?u = "ms * 1000000"
  have u: "0 < ?u" using first(2) by simp
  have "int k * ?u \<le> now - first" using 0(1) by simp
  then have "int k \<le> (now - first) div ?u" using le_div_iff_mult [OF u] by blast
  then have N: "(now - first) div ?u = int k" using 0(2) by simp
  then have "now - first < (int k + 1) * ?u" using le_div_iff_mult [OF u, of "int k + 1" "now - first"] by linarith
  then show ?case using N by (subst due_loop.simps) (simp add: algebra_simps)
next
  case (Suc d)
  let ?u = "ms * 1000000"
  let ?t = "first + (int k + 1) * ?u"
  have u: "0 < ?u" using first(2) by simp
  have "int (Suc k) \<le> (now - first) div ?u" using Suc.prems(2) by linarith
  then have le: "first + int (Suc k) * ?u \<le> now"
    using le_div_iff_mult [OF u, of "int (Suc k)" "now - first"] by linarith
  have "0 < (int k + 1) * ms" using first(2) by simp
  then have "in_range (a + (int k + 1) * ms + ms)"
    using first le by (intro range) (linarith, simp add: algebra_simps)
  then have "job_next in_range (Interval ms) ?t = Some (Inr (?t + ?u))"
    by (intro interval_step [where m = "a + (int k + 1) * ms"]) (simp_all add: first(1) algebra_simps)
  moreover have "?t + ?u = first + (int (Suc k) + 1) * ?u" by (simp add: algebra_simps)
  ultimately show ?case
    using Suc.IH [OF le, of True] Suc.prems(2) le by (subst due_loop.simps) (auto simp: algebra_simps simp del: job_next.simps)
qed

text \<open>
  C34. Catching up in constant time is catching up step by step. For an interval whose occurrence \<open>first\<close> falls on a
  whole millisecond and is due, as long as the calendar can represent the milliseconds up to one interval from now: the
  computed jump gives exactly what walking from occurrence to occurrence gives, and this is the last occurrence that
  is not after \<open>now\<close>, the next one, and whether occurrences in between were missed.
\<close>

theorem interval_due_walks:
  assumes "first = a * 1000000" "0 < ms" "first \<le> now"
    and range: "\<And>m. a < m \<Longrightarrow> m * 1000000 \<le> now + ms * 1000000 \<Longrightarrow> in_range m"
  shows "job_due in_range (Interval ms) first now = walk_due (job_next in_range (Interval ms)) first now \<and>
    (\<exists>latest missed. job_due in_range (Interval ms) first now = Some (Inr (latest, latest + ms * 1000000, missed)) \<and>
       first \<le> latest \<and> latest \<le> now \<and> now < latest + ms * 1000000 \<and> (ms * 1000000) dvd (latest - first) \<and> (missed \<longleftrightarrow> first < latest))"
proof -
  let ?u = "ms * 1000000" and ?N = "(now - first) div (ms * 1000000)"
  have u: "0 < ?u" using assms(2) by simp
  have N0: "0 \<le> ?N" using assms(3) u by (simp add: pos_imp_zdiv_nonneg_iff)
  have skipped: "trunc_div (trunc_div (now - first) 1000000) ms = ?N"
    using assms(2,3) by (simp add: trunc_div_pos pos_imp_zdiv_nonneg_iff div_div mult.commute)
  have le: "?N * ?u \<le> now - first" using le_div_iff_mult [OF u, of ?N "now - first"] by simp
  have gt: "now - first < (?N + 1) * ?u" using le_div_iff_mult [OF u, of "?N + 1" "now - first"] by linarith
  have "0 \<le> ?N * ms" using N0 assms(2) by simp
  then have "in_range (a + ?N * ms + ms)"
    using assms(1,2) le by (intro range) (linarith, simp add: algebra_simps)
  then have nx: "job_next in_range (Interval ms) (first + ?N * ?u) = Some (Inr (first + ?N * ?u + ?u))"
    by (intro interval_step [where m = "a + ?N * ms"]) (simp_all add: assms(1) algebra_simps)
  have due: "job_due in_range (Interval ms) first now = Some (Inr (first + ?N * ?u, first + ?N * ?u + ?u, 0 < ?N))"
    using nx by (simp add: skipped Let_def mult.assoc del: job_next.simps)
  have "in_range (a + ms)" using assms by (intro range) (auto simp: algebra_simps)
  then have first: "job_next in_range (Interval ms) first = Some (Inr (first + ?u))"
    by (intro interval_step [where m = a]) (simp_all add: assms(1))
  have "due_loop (job_next in_range (Interval ms)) now first (first + ?u) False =
      Some (Inr (first + ?N * ?u, first + (?N + 1) * ?u, 0 < nat ?N))"
    using walk_interval [where k = 0 and d = "nat ?N" and b = False, OF assms(1,2) range] assms(3)
    by (simp del: job_next.simps)
  then have "walk_due (job_next in_range (Interval ms)) first now = Some (Inr (first + ?N * ?u, first + ?N * ?u + ?u, 0 < ?N))"
    by (simp add: walk_due_def first algebra_simps del: job_next.simps)
  moreover have "first < first + ?N * ?u \<longleftrightarrow> 0 < ?N" using u by (simp add: zero_less_mult_iff)
  moreover have "first \<le> first + ?N * ?u" using N0 u by simp
  ultimately show ?thesis
    unfolding due using le gt by (auto simp: algebra_simps)
qed

theorem interval_due_walks_witness:
  "job_due (\<lambda>_. True) (Interval 100) 300000000 751000000 = walk_due (job_next (\<lambda>_. True) (Interval 100)) 300000000 751000000 \<and>
    job_due (\<lambda>_. True) (Interval 100) 300000000 751000000 = Some (Inr (700000000, 800000000, True))"
proof -
  have "job_due (\<lambda>_. True) (Interval 100) 300000000 751000000 = walk_due (job_next (\<lambda>_. True) (Interval 100)) 300000000 751000000"
    using interval_due_walks [of 300000000 300 100 751000000 "\<lambda>_. True"] by simp
  moreover have "job_due (\<lambda>_. True) (Interval 100) 300000000 751000000 = Some (Inr (700000000, 800000000, True))"
    by (simp add: trunc_div_def millis_def)
  ultimately show ?thesis ..
qed

section \<open>Occurrences go forward\<close>

text \<open>What the calendar library documents: the next occurrence is after the instant asked for.\<close>

definition croner_ok :: "croner \<Rightarrow> bool" where
  "croner_ok c \<longleftrightarrow> (\<forall>t t'. find_next c t = Inr t' \<longrightarrow> t < t')"

definition job_ok :: "job \<Rightarrow> bool" where
  "job_ok j \<longleftrightarrow> (case job_schedule j of Interval ms \<Rightarrow> 0 < ms | Calendar c \<Rightarrow> croner_ok c)"

lemma next_calendar_later:
  assumes "next_calendar c t = Some (Inr t')" "croner_ok c"
  shows "t < t'"
proof -
  have "\<forall>t'. r = Inr t' \<longrightarrow> croner_ok c \<longrightarrow> t < t'" if "next_calendar c t = Some r" for r
    using that
  proof (rule next_calendar.raw_induct [where P = "\<lambda>c t r. \<forall>t'. r = Inr t' \<longrightarrow> croner_ok c \<longrightarrow> t < t'", rotated])
    fix nx :: "croner \<Rightarrow> int \<Rightarrow> int runtime_result option" and c t r
    assume "\<And>c t r. nx c t = Some r \<Longrightarrow> \<forall>t'. r = Inr t' \<longrightarrow> croner_ok c \<longrightarrow> t < t'"
      and "(case find_next c t of
          Inl e \<Rightarrow> Some (Inl (InvalidConfiguration e))
        | Inr candidate \<Rightarrow>
            (case time_matching c candidate of
               Inl e \<Rightarrow> Some (Inl (InvalidConfiguration e))
             | Inr m \<Rightarrow> if m \<and> first_fold c candidate then Some (Inr candidate) else nx c candidate)) = Some r"
    then show "\<forall>t'. r = Inr t' \<longrightarrow> croner_ok c \<longrightarrow> t < t'"
      by (fastforce simp: croner_ok_def split: sum.splits if_splits)
  qed
  then show ?thesis using assms by blast
qed

lemma due_loop_bounds:
  assumes "due_loop nx now latest n missed = Some (Inr (l, n', m))" "\<And>t t'. nx t = Some (Inr t') \<Longrightarrow> t < t'" "latest \<le> now" "latest < n"
  shows "latest \<le> l \<and> l \<le> now \<and> l < n'"
proof -
  let ?P = "\<lambda>nx now latest n missed r. (\<forall>t t'. nx t = Some (Inr t') \<longrightarrow> t < t') \<longrightarrow> latest \<le> now \<longrightarrow> latest < n \<longrightarrow>
    (\<forall>l n' m. r = Inr (l, n', m) \<longrightarrow> latest \<le> l \<and> l \<le> now \<and> l < n')"
  have "?P nx now latest n missed r" if "due_loop nx now latest n missed = Some r" for r
    using that
  proof (rule due_loop.raw_induct [where P = ?P, rotated])
    fix f nx and now latest n :: int and missed r
    assume IH: "\<And>nx now latest n missed r. f nx now latest n missed = Some r \<Longrightarrow> ?P nx now latest n missed r"
      and body: "(if n \<le> now then (case nx n of None \<Rightarrow> None | Some (Inl e) \<Rightarrow> Some (Inl e) | Some (Inr n') \<Rightarrow> f nx now n n' True)
        else Some (Inr (latest, n, missed))) = Some r"
    show "?P nx now latest n missed r"
    proof (cases "n \<le> now")
      case True
      then consider e where "r = Inl e" | n' where "nx n = Some (Inr n')" "f nx now n n' True = Some r"
        using body by (auto split: option.splits sum.splits)
      then show ?thesis
      proof cases
        case 2
        then show ?thesis using IH [OF 2(2)] True by force
      qed simp
    qed (use body in auto)
  qed
  then show ?thesis using assms by blast
qed

lemma job_due_bounds:
  assumes "job_due in_range (job_schedule j) first now = Some (Inr (l, n, m))" "job_ok j" "first \<le> now"
  shows "first \<le> l \<and> l \<le> now \<and> l < n"
proof (cases "job_schedule j")
  case (Calendar c)
  have up: "t < t'" if "job_next in_range (Calendar c) t = Some (Inr t')" for t t'
    using that next_calendar_later assms(2) Calendar by (simp add: job_ok_def)
  then show ?thesis
    using assms(1,3) Calendar due_loop_bounds [OF _ up]
    by (auto simp: walk_due_def simp del: job_next.simps split: option.splits sum.splits)
next
  case (Interval ms)
  have ms: "0 < ms" using assms(2) Interval by (simp add: job_ok_def)
  let ?N = "(now - first) div (ms * 1000000)"
  have u: "0 < ms * 1000000" using ms by simp
  have N: "0 \<le> ?N" "?N * (ms * 1000000) \<le> now - first"
    using assms(3) u le_div_iff_mult [OF u, of ?N "now - first"] by (simp_all add: pos_imp_zdiv_nonneg_iff)
  have skipped: "trunc_div (trunc_div (now - first) 1000000) ms = ?N"
    using ms assms(3) by (simp add: trunc_div_pos pos_imp_zdiv_nonneg_iff div_div mult.commute)
  then have l: "l = first + ?N * (ms * 1000000)" "n = (millis l + ms) * 1000000"
    using assms(1) Interval by (auto simp: Let_def mult.assoc split: if_splits)
  have "l < (millis l + 1) * 1000000"
    using le_div_iff_mult [of 1000000 "millis l + 1" l] by (simp add: millis_def)
  also have "\<dots> \<le> n" using ms l(2) by simp
  finally have "l < n" .
  moreover have "0 \<le> ?N * (ms * 1000000)" using N(1) u by simp
  ultimately show ?thesis using N(2) l(1) by linarith
qed

section \<open>Runs of the scheduler\<close>

text \<open>An occurrence is fired when it is due, later than those before it and, unless runs may overlap, when those are over.\<close>

fun fired_ok :: "job list \<Rightarrow> cron_event list \<Rightarrow> cron_event \<Rightarrow> bool" where
  "fired_ok jobs l (Fired i t now k) \<longleftrightarrow>
     i < length jobs \<and> t \<le> now \<and> (\<forall>t' now' k'. Fired i t' now' k' \<in> set l \<longrightarrow> t' < t) \<and>
     (skip_overlap (jobs ! i) \<longrightarrow> (\<forall>t' now' k'. Fired i t' now' k' \<in> set l \<longrightarrow> Over k' \<in> set l \<or> Aborted k' \<in> set l))"
| "fired_ok jobs l _ \<longleftrightarrow> True"

definition live :: "scheduler \<Rightarrow> nat \<Rightarrow> nat \<Rightarrow> bool" where
  "live s i k \<longleftrightarrow> k < length (tasks s) \<and> occ_job (tasks s ! k) = i \<and> \<not> occ_ended (tasks s ! k)"

definition tasks_ok :: "job list \<Rightarrow> scheduler \<Rightarrow> bool" where
  "tasks_ok jobs s \<longleftrightarrow>
     (\<forall>k<length (tasks s). occ_job (tasks s ! k) < length jobs \<and> occ_guarded (tasks s ! k) = skip_overlap (jobs ! occ_job (tasks s ! k)) \<and>
        (occ_ended (tasks s ! k) \<longrightarrow> Over k \<in> set (log s) \<or> Aborted k \<in> set (log s)))"

definition running_ok :: "job list \<Rightarrow> scheduler \<Rightarrow> bool" where
  "running_ok jobs s \<longleftrightarrow>
     length (running s) = length jobs \<and>
     (\<forall>i<length jobs. skip_overlap (jobs ! i) \<longrightarrow>
        (\<forall>k. live s i k \<longrightarrow> running s ! i) \<and> (\<forall>k k'. live s i k \<longrightarrow> live s i k' \<longrightarrow> k = k'))"

definition times_ok :: "job list \<Rightarrow> scheduler \<Rightarrow> bool" where
  "times_ok jobs s \<longleftrightarrow>
     length (nexts s) = length jobs \<and>
     (\<forall>i t now k. Fired i t now k \<in> set (log s) \<longrightarrow> t < nexts s ! i \<and> k < length (tasks s) \<and> occ_job (tasks s ! k) = i)"

definition cron_ok :: "job list \<Rightarrow> scheduler \<Rightarrow> bool" where
  "cron_ok jobs s \<longleftrightarrow> tasks_ok jobs s \<and> running_ok jobs s \<and> times_ok jobs s \<and> always (fired_ok jobs) (log s)"

lemma cron_okD:
  assumes "cron_ok jobs s"
  shows "tasks_ok jobs s" "running_ok jobs s" "times_ok jobs s" "always (fired_ok jobs) (log s)"
  using assms by (auto simp: cron_ok_def)

lemma cron_new_ok: "length ns = length jobs \<Longrightarrow> cron_ok jobs (scheduler_new ns)"
  by (simp add: cron_ok_def tasks_ok_def running_ok_def times_ok_def scheduler_new_def live_def)

lemma cron_task_ok:
  assumes ok: "cron_ok jobs s" and k: "k < length (tasks s)" "\<not> occ_ended (tasks s ! k)" and e: "e = Over k \<or> e = Aborted k"
  shows "cron_ok jobs (end_task k e s)"
proof -
  let ?s = "end_task k e s" and ?o = "tasks s ! k"
  have live: "live ?s i k' \<longleftrightarrow> live s i k' \<and> k' \<noteq> k" for i k'
    using k(1) by (auto simp: live_def end_task_def Let_def nth_list_update)
  have o: "occ_job ?o < length jobs" "occ_guarded ?o = skip_overlap (jobs ! occ_job ?o)"
    using cron_okD(1) [OF ok] k by (auto simp: tasks_ok_def)
  have "tasks_ok jobs ?s"
    using cron_okD(1) [OF ok] k(1) e by (auto simp: tasks_ok_def end_task_def Let_def nth_list_update)
  moreover have "running_ok jobs ?s"
  proof -
    have "running ?s ! i" if i: "i < length jobs" "skip_overlap (jobs ! i)" "live ?s i k'" for i k'
    proof -
      have l: "live s i k'" "k' \<noteq> k" using that(3) live by auto
      then have "running s ! i" using cron_okD(2) [OF ok] i by (auto simp: running_ok_def)
      moreover have "i \<noteq> occ_job ?o" 
        using l k i cron_okD(2) [OF ok] unfolding running_ok_def live_def by blast
      ultimately show ?thesis by (simp add: end_task_def Let_def)
    qed
    then show ?thesis
      using cron_okD(2) [OF ok] live by (auto simp: running_ok_def) (simp add: end_task_def Let_def)
  qed
  moreover have "times_ok jobs ?s"
    using cron_okD(3) [OF ok] k(1) e by (auto simp: times_ok_def end_task_def Let_def nth_list_update)
  moreover have "always (fired_ok jobs) (log ?s)"
    using cron_okD(4) [OF ok] e by (auto simp: end_task_def Let_def always_snoc)
  ultimately show ?thesis by (simp add: cron_ok_def)
qed

lemma abort_tasks_ok:
  assumes "cron_ok jobs s" "\<forall>k\<in>set ks. k < length (tasks s)"
  shows "cron_ok jobs (abort_tasks ks s)"
  using assms
proof (induction ks arbitrary: s)
  case (Cons k ks)
  have "length (tasks (end_task k (Aborted k) s)) = length (tasks s)" by (simp add: end_task_def Let_def)
  then show ?case
    using Cons cron_task_ok [of jobs s k "Aborted k"] by auto
qed simp

lemma dispatch_ok:
  assumes ok: "cron_ok jobs s" and i: "i < length jobs" and t: "t \<le> now" "t < nexts s ! i"
    and later: "\<And>t' now' k'. Fired i t' now' k' \<in> set (log s) \<Longrightarrow> t' < t"
  shows "cron_ok jobs (dispatch (jobs ! i) i t now s) \<and> nexts (dispatch (jobs ! i) i t now s) = nexts s"
proof -
  let ?g = "skip_overlap (jobs ! i)" and ?k = "length (tasks s)"
  let ?t = "s\<lparr>running := (if ?g then (running s)[i := True] else running s)\<rparr>"
  let ?s = "spawn i ?g t now ?t"
  have same: "s\<lparr>running := running s\<rparr> = s" by simp
  consider "dispatch (jobs ! i) i t now s = s"
    | "dispatch (jobs ! i) i t now s = ?s" "?g \<Longrightarrow> \<not> running s ! i"
    by (cases ?g; cases "owner_over s"; cases "running s ! i") (auto simp: dispatch_def same)
  then show ?thesis
  proof cases
    case 1
    then show ?thesis using ok by simp
  next
    case 2
    have live: "live ?s j k \<longleftrightarrow> live s j k \<or> j = i \<and> k = ?k" for j k
      by (auto simp: live_def spawn_def nth_append)
    have none: "\<not> live s i k" if ?g for k
      using cron_okD(2) [OF ok] i 2(2) that by (auto simp: running_ok_def)
    have "tasks_ok jobs ?s"
      using cron_okD(1) [OF ok] i by (auto simp: tasks_ok_def spawn_def nth_append)
    moreover have "running ?s = (if ?g then (running s)[i := True] else running s)"
      by (simp add: spawn_def)
    then have "running_ok jobs ?s"
      using cron_okD(2) [OF ok] none i unfolding running_ok_def live by (auto simp: nth_list_update)
    moreover have "times_ok jobs ?s"
      using cron_okD(3) [OF ok] t(2) by (auto simp: times_ok_def spawn_def nth_append intro: less_SucI)
    moreover have "Over k' \<in> set (log s) \<or> Aborted k' \<in> set (log s)" if ?g "Fired i t' now' k' \<in> set (log s)" for t' now' k'
    proof -
      have "k' < length (tasks s)" "occ_job (tasks s ! k') = i" using that(2) cron_okD(3) [OF ok] by (auto simp: times_ok_def)
      then show ?thesis using none [OF that(1), of k'] cron_okD(1) [OF ok] by (auto simp: live_def tasks_ok_def)
    qed
    then have "always (fired_ok jobs) (log ?s)"
      using cron_okD(4) [OF ok] later t(1) i by (auto simp: spawn_def always_snoc)
    ultimately show ?thesis using 2(1) by (simp add: cron_ok_def spawn_def)
  qed
qed

lemma fire_jobs_ok:
  assumes "fire_jobs in_range now i js s = Some (r, s')" "cron_ok jobs s" "js = drop i jobs" "list_all job_ok jobs"
  shows "cron_ok jobs s'"
  using assms
proof (induction js arbitrary: i s)
  case (Cons j js)
  have i: "i < length jobs" "j = jobs ! i" "js = drop (i + 1) jobs"
    using Cons.prems(3) by (metis drop_all list.distinct(1) not_le, metis Cons_nth_drop_Suc drop_all list.inject not_le list.distinct(1),
      metis Cons_nth_drop_Suc Suc_eq_plus1 drop_all list.inject not_le list.distinct(1))
  show ?case
  proof (cases "nexts s ! i > now")
    case True
    then show ?thesis using Cons.IH [OF _ Cons.prems(2) i(3) Cons.prems(4)] Cons.prems(1) by simp
  next
    case False
    have "job_ok j" using Cons.prems(4) i by (simp add: list_all_length)
    consider "s' = s" | l n m where "job_due in_range (job_schedule j) (nexts s ! i) now = Some (Inr (l, n, m))"
        "fire_jobs in_range now (i + 1) js
          (if \<not> m \<or> fire_once j then dispatch j i l now (s\<lparr>nexts := (nexts s)[i := n]\<rparr>) else s\<lparr>nexts := (nexts s)[i := n]\<rparr>) = Some (r, s')"
      using Cons.prems(1) False by (auto simp: Let_def split: option.splits sum.splits)
    then show ?thesis
    proof cases
      case 2
      have b: "nexts s ! i \<le> l" "l \<le> now" "l < n"
        using job_due_bounds [OF 2(1) \<open>job_ok j\<close>] False by auto
      let ?s = "s\<lparr>nexts := (nexts s)[i := n]\<rparr>"
      have old: "t < nexts s ! i" if "Fired i t now' k \<in> set (log s)" for t now' k
        using that cron_okD(3) [OF Cons.prems(2)] by (auto simp: times_ok_def)
      have len: "length (nexts s) = length jobs" using cron_okD(3) [OF Cons.prems(2)] by (simp add: times_ok_def)
      have "times_ok jobs ?s"
        using cron_okD(3) [OF Cons.prems(2)] b i(1) by (fastforce simp: times_ok_def nth_list_update)
      then have ok: "cron_ok jobs ?s"
        using cron_okD [OF Cons.prems(2)] by (simp add: cron_ok_def tasks_ok_def running_ok_def live_def)
      have "cron_ok jobs (dispatch j i l now ?s)"
        using dispatch_ok [OF ok i(1) b(2), unfolded i(2) [symmetric]] b old i(1) len by fastforce
      then show ?thesis
        using Cons.IH [OF 2(2) _ i(3) Cons.prems(4)] ok by auto
    qed (use Cons.prems in auto)
  qed
qed simp

lemma cron_ok_cong:
  "tasks s' = tasks s \<Longrightarrow> running s' = running s \<Longrightarrow> nexts s' = nexts s \<Longrightarrow> log s' = log s \<Longrightarrow> cron_ok jobs s' = cron_ok jobs s"
  by (simp add: cron_ok_def tasks_ok_def running_ok_def times_ok_def live_def)

lemma cron_step_ok:
  assumes jobs: "list_all job_ok jobs" and ok: "cron_ok jobs s" and step: "cron_step in_range jobs a s = Some s'"
  shows "cron_ok jobs s'"
proof (cases a)
  case (Wake now)
  then obtain r s1 where f: "fire_jobs in_range now 0 jobs s = Some (r, s1)"
      "s' = s1 \<or> (\<exists>e. s' = abort_tasks [0..<length (tasks s1)] (s1\<lparr>sched_at := Returned (Inl e)\<rparr>))"
    using step by (fastforce simp: wake_def split: if_splits option.splits prod.splits sum.splits)
  have ok1: "cron_ok jobs s1" using fire_jobs_ok [OF f(1) ok _ jobs] by simp
  have "cron_ok jobs (abort_tasks [0..<length (tasks s1)] (s1\<lparr>sched_at := Returned (Inl e)\<rparr>))" for e
    by (rule abort_tasks_ok) (use ok1 cron_ok_cong [of "s1\<lparr>sched_at := Returned (Inl e)\<rparr>" s1 jobs] in auto)
  then show ?thesis using f(2) ok1 by blast
next
  case (TaskOver k)
  then show ?thesis using step cron_task_ok [OF ok] by (auto simp: task_over_def split: if_splits)
qed (use step ok cron_ok_cong [of s' s jobs] in \<open>auto simp: break_loop_def drain_def split: if_splits\<close>)

definition checked_step :: "(int \<Rightarrow> bool) \<Rightarrow> job list \<Rightarrow> cron_action \<Rightarrow> scheduler \<Rightarrow> scheduler option" where
  "checked_step in_range jobs a s = (if list_all job_ok jobs then cron_step in_range jobs a s else None)"

interpretation cron: step_system "checked_step in_range jobs" "cron_ok jobs"
  by unfold_locales (auto simp: checked_step_def split: if_splits intro: cron_step_ok)

lemma checked_run: "list_all job_ok jobs \<Longrightarrow> run_steps (checked_step in_range jobs) as s = run_steps (cron_step in_range jobs) as s"
  by (induction as arbitrary: s) (auto simp: checked_step_def split: option.split)

text \<open>
  C20. The scheduler fires occurrences in order. For jobs with positive intervals or a calendar whose next occurrence
  lies ahead, under every interleaving of wake-ups (whatever the clock shows), ending tasks, cancellations and shutdown:
  an occurrence of a job is fired only when it is due and only after all earlier ones of that job, never twice; and a
  job that skips overlapping runs is fired only when every earlier run of it is over.
\<close>

theorem cron_fires_in_order:
  assumes jobs: "list_all job_ok jobs" "length ns = length jobs"
    and run: "run_steps (cron_step in_range jobs) as (scheduler_new ns) = Some s" and log: "log s = l1 @ Fired i t now k # l2"
  shows "i < length jobs \<and> t \<le> now \<and> (\<forall>t' now' k'. Fired i t' now' k' \<in> set l1 \<longrightarrow> t' < t) \<and>
    (skip_overlap (jobs ! i) \<longrightarrow> (\<forall>t' now' k'. Fired i t' now' k' \<in> set l1 \<longrightarrow> Over k' \<in> set l1 \<or> Aborted k' \<in> set l1))"
proof -
  have "cron_ok jobs s"
    using cron.run_inv [OF cron_new_ok [OF jobs(2)]] run checked_run [OF jobs(1)] by metis
  then have "fired_ok jobs l1 (Fired i t now k)"
    using always_at [OF cron_okD(4) log] by blast
  then show ?thesis by simp
qed

definition demo_jobs :: "job list" where
  "demo_jobs = [\<lparr>job_id = 1, job_schedule = Interval 100, skip_overlap = True, fire_once = True\<rparr>]"

text \<open>The second occurrence is skipped because the first still runs; the third is fired late, once.\<close>

definition demo_wakes :: "cron_action list" where
  "demo_wakes = [Wake 100000000, Wake 200000000, TaskOver 0, Wake 450000000, Cancel, Break, TaskOver 1, Drain]"

definition demo_fired :: "cron_event list" where
  "demo_fired = [Fired 0 100000000 100000000 0, Over 0, Fired 0 400000000 450000000 1, Over 1]"

lemma demo_cron: "map_option log (run_steps (cron_step (\<lambda>_. True) demo_jobs) demo_wakes (scheduler_new [100000000])) = Some demo_fired"
  by code_simp

theorem cron_fires_in_order_witness:
  "400000000 \<le> (450000000 :: int) \<and> 100000000 < (400000000 :: int) \<and> Over 0 \<in> set (take 2 demo_fired)"
proof -
  obtain s where s: "run_steps (cron_step (\<lambda>_. True) demo_jobs) demo_wakes (scheduler_new [100000000]) = Some s" "log s = demo_fired"
    using demo_cron by auto
  have jobs: "list_all job_ok demo_jobs" "length [100000000 :: int] = length demo_jobs"
    by (simp_all add: demo_jobs_def job_ok_def)
  have "log s = take 2 demo_fired @ Fired 0 400000000 450000000 1 # drop 3 demo_fired"
    by (simp add: s(2) demo_fired_def)
  note fired = cron_fires_in_order [OF jobs s(1) this]
  have "Fired 0 100000000 100000000 0 \<in> set (take 2 demo_fired)" "skip_overlap (demo_jobs ! 0)" "Aborted 0 \<notin> set (take 2 demo_fired)"
    by (simp_all add: demo_fired_def demo_jobs_def)
  then show ?thesis using fired by blast
qed

end
