(* ===== verification/Metrics_Registry.thy ===== *)
theory Metrics_Registry
  imports Serde_Core Step_Systems "HOL-Library.List_Lexorder" "HOL-Library.Char_ord"
begin

text \<open>
  The metrics of the runtime, \<open>src/runtime/environment/metrics.rs\<close>: the registry of metric families, the
  handles that instrumented code holds on a metric, and the text in which the registry is exposed.

  An \<open>Arc<AtomicI64>\<close> or \<open>Arc<Mutex<HistogramValue>>\<close> shared by the registry and the handles is an index
  into \<open>ints\<close> or \<open>histograms\<close>. \<open>i64\<close> and \<open>u64\<close> are 64-bit words, so that additions wrap as they do in a
  release build (where \<open>debug_assert!\<close> is empty). An \<open>f64\<close> is its bit pattern; comparison is defined on it,
  addition and printing of \<open>f64\<close> are arguments of the definitions that use them. An instrument of the
  OpenTelemetry meter is its name; the calls made on instruments are the list \<open>exported\<close>. The closure of an
  observable gauge is a value of the type \<open>'o\<close>.
\<close>

section \<open>Data\<close>

type_synonym labels = "(string \<times> string) list"

datatype metrics_error = TypeConflict string | DescriptionConflict string

text \<open>The derived order of \<open>MetricKey\<close> is the lexicographic one: first the name, then the labels.\<close>

type_synonym metric_key = "string \<times> labels"

datatype 'o metric =
    Counter string nat "string option" labels
  | Gauge string nat "string option" labels
  | Histogram string nat "string option" labels
  | ObservableGauge string 'o "string option"

datatype metric_kind = CounterKind | GaugeKind | HistogramKind | ObservableGaugeKind

record histogram_value =
  bounds :: "f64 list"
  buckets :: "64 word list"
  observations :: "64 word"
  hsum :: f64

datatype otel_event =
    OtelCounter string labels "64 word"
  | OtelGauge string labels "64 word"
  | OtelHistogram string labels f64

record 'o metrics =
  registry :: "(metric_key \<times> 'o metric) list"
  ints :: "64 word list"
  histograms :: "histogram_value list"
  meter :: bool
  noop :: bool
  exported :: "otel_event list"
  exporting :: "otel_event list"

record metrics_scope =
  namespace :: string
  scope_labels :: labels

text \<open>The three handle types have the same fields.\<close>

record metric_handle =
  cell :: nat
  otel :: "string option"
  attributes :: labels
  enabled :: bool

definition metrics_new :: "'o metrics" where
  "metrics_new = \<lparr>registry = [], ints = [], histograms = [], meter = False, noop = False, exported = [], exporting = []\<rparr>"

definition metrics_noop :: "'o metrics" where
  "metrics_noop = metrics_new\<lparr>noop := True\<rparr>"

definition with_meter :: "'o metrics" where
  "with_meter = metrics_new\<lparr>meter := True\<rparr>"

section \<open>Names and families\<close>

definition join_name :: "string \<Rightarrow> string \<Rightarrow> string" where
  "join_name ns name = (if ns = [] then name else if name = [] then ns else ns @ ''_'' @ name)"

fun extend_labels :: "labels \<Rightarrow> labels \<Rightarrow> labels" where
  "extend_labels base [] = base"
| "extend_labels base ((k, v) # ls) = extend_labels (bt_insert k v base) ls"

definition metrics_scope :: "string \<Rightarrow> labels \<Rightarrow> metrics_scope" where
  "metrics_scope ns ls = \<lparr>namespace = ns, scope_labels = ls\<rparr>"

definition sub_scope :: "metrics_scope \<Rightarrow> string \<Rightarrow> labels \<Rightarrow> metrics_scope" where
  "sub_scope sc ns ls = \<lparr>namespace = join_name (namespace sc) ns, scope_labels = extend_labels (scope_labels sc) ls\<rparr>"

definition scope_key :: "metrics_scope \<Rightarrow> string \<Rightarrow> labels \<Rightarrow> metric_key" where
  "scope_key sc name ls = (join_name (namespace sc) name, extend_labels (scope_labels sc) ls)"

fun family :: "'o metric \<Rightarrow> metric_kind \<times> string" where
  "family (Counter h _ _ _) = (CounterKind, h)"
| "family (Gauge h _ _ _) = (GaugeKind, h)"
| "family (Histogram h _ _ _) = (HistogramKind, h)"
| "family (ObservableGauge h _ _) = (ObservableGaugeKind, h)"

fun validate_metric_family :: "(metric_key \<times> 'o metric) list \<Rightarrow> string \<Rightarrow> metric_kind \<Rightarrow> string \<Rightarrow> metrics_error + unit" where
  "validate_metric_family [] name kind help = Inr ()"
| "validate_metric_family ((key, m) # r) name kind help =
     (if fst key \<noteq> name then validate_metric_family r name kind help
      else if fst (family m) \<noteq> kind then Inl (TypeConflict name)
      else if snd (family m) \<noteq> help then Inl (DescriptionConflict name)
      else Inr ())"

section \<open>Registration\<close>

definition disabled :: "nat \<Rightarrow> metric_handle" where
  "disabled c = \<lparr>cell = c, otel = None, attributes = [], enabled = False\<rparr>"

definition new_int :: "'o metrics \<Rightarrow> nat \<times> 'o metrics" where
  "new_int m = (length (ints m), m\<lparr>ints := ints m @ [0]\<rparr>)"

definition new_histogram :: "histogram_value \<Rightarrow> 'o metrics \<Rightarrow> nat \<times> 'o metrics" where
  "new_histogram h m = (length (histograms m), m\<lparr>histograms := histograms m @ [h]\<rparr>)"

definition instrument :: "string \<Rightarrow> 'o metrics \<Rightarrow> string option" where
  "instrument name m = (if meter m then Some name else None)"

definition register :: "metric_key \<Rightarrow> 'o metric \<Rightarrow> 'o metrics \<Rightarrow> 'o metrics" where
  "register key e m = m\<lparr>registry := bt_insert key e (registry m)\<rparr>"

definition lookup_metric :: "metric_key \<Rightarrow> metric_kind \<Rightarrow> string \<Rightarrow> 'o metrics \<Rightarrow> metrics_error + 'o metric option" where
  "lookup_metric key kind help m =
     (case validate_metric_family (registry m) (fst key) kind help of Inl e \<Rightarrow> Inl e | Inr _ \<Rightarrow> Inr (map_of (registry m) key))"

definition counter ::
  "metrics_scope \<Rightarrow> string \<Rightarrow> string \<Rightarrow> labels \<Rightarrow> 'o metrics \<Rightarrow> (metrics_error + metric_handle) \<times> 'o metrics" where
  "counter sc name help ls m =
     (if noop m then let (c, m') = new_int m in (Inr (disabled c), m')
      else let key = scope_key sc name ls in
        case lookup_metric key CounterKind help m of
          Inl e \<Rightarrow> (Inl e, m)
        | Inr (Some (Counter _ c i as)) \<Rightarrow> (Inr \<lparr>cell = c, otel = i, attributes = as, enabled = True\<rparr>, m)
        | Inr (Some _) \<Rightarrow> (Inl (TypeConflict (fst key)), m)
        | Inr None \<Rightarrow>
            let (c, m') = new_int m; i = instrument (fst key) m
            in (Inr \<lparr>cell = c, otel = i, attributes = snd key, enabled = True\<rparr>,
                register key (Counter help c i (snd key)) m'))"

definition gauge ::
  "metrics_scope \<Rightarrow> string \<Rightarrow> string \<Rightarrow> labels \<Rightarrow> 'o metrics \<Rightarrow> (metrics_error + metric_handle) \<times> 'o metrics" where
  "gauge sc name help ls m =
     (if noop m then let (c, m') = new_int m in (Inr (disabled c), m')
      else let key = scope_key sc name ls in
        case lookup_metric key GaugeKind help m of
          Inl e \<Rightarrow> (Inl e, m)
        | Inr (Some (Gauge _ c i as)) \<Rightarrow> (Inr \<lparr>cell = c, otel = i, attributes = as, enabled = True\<rparr>, m)
        | Inr (Some _) \<Rightarrow> (Inl (TypeConflict (fst key)), m)
        | Inr None \<Rightarrow>
            let (c, m') = new_int m; i = instrument (fst key) m
            in (Inr \<lparr>cell = c, otel = i, attributes = snd key, enabled = True\<rparr>,
                register key (Gauge help c i (snd key)) m'))"

text \<open>The default bounds 0.00001, 0.00005, 0.0001, 0.0005, 0.001, 0.005, 0.01, 0.05, 0.1, 0.5, 1, 5 and 10.\<close>

definition default_duration_bounds :: "f64 list" where
  "default_duration_bounds =
     [0x3EE4F8B588E368F1, 0x3F0A36E2EB1C432D, 0x3F1A36E2EB1C432D, 0x3F40624DD2F1A9FC, 0x3F50624DD2F1A9FC, 0x3F747AE147AE147B, 0x3F847AE147AE147B,
      0x3FA999999999999A, 0x3FB999999999999A, 0x3FE0000000000000, 0x3FF0000000000000, 0x4014000000000000, 0x4024000000000000]"

definition empty_histogram :: "f64 list \<Rightarrow> nat \<Rightarrow> histogram_value" where
  "empty_histogram bs n = \<lparr>bounds = bs, buckets = replicate n 0, observations = 0, hsum = 0\<rparr>"

definition histogram ::
  "metrics_scope \<Rightarrow> string \<Rightarrow> string \<Rightarrow> labels \<Rightarrow> f64 list option \<Rightarrow> 'o metrics \<Rightarrow> (metrics_error + metric_handle) \<times> 'o metrics" where
  "histogram sc name help ls bs m =
     (if noop m then let (c, m') = new_histogram (empty_histogram [] 0) m in (Inr (disabled c), m')
      else let key = scope_key sc name ls in
        case lookup_metric key HistogramKind help m of
          Inl e \<Rightarrow> (Inl e, m)
        | Inr (Some (Histogram _ c i as)) \<Rightarrow> (Inr \<lparr>cell = c, otel = i, attributes = as, enabled = True\<rparr>, m)
        | Inr (Some _) \<Rightarrow> (Inl (TypeConflict (fst key)), m)
        | Inr None \<Rightarrow>
            let b = (case bs of Some b \<Rightarrow> b | None \<Rightarrow> default_duration_bounds);
                i = instrument (fst key) m;
                (c, m') = new_histogram (empty_histogram b (length b + 1)) m
            in (Inr \<lparr>cell = c, otel = i, attributes = snd key, enabled = True\<rparr>,
                register key (Histogram help c i (snd key)) m'))"

definition observable_float64_gauge ::
  "metrics_scope \<Rightarrow> string \<Rightarrow> string \<Rightarrow> labels \<Rightarrow> 'o \<Rightarrow> 'o metrics \<Rightarrow> (metrics_error + unit) \<times> 'o metrics" where
  "observable_float64_gauge sc name help ls ob m =
     (if noop m then (Inr (), m)
      else let key = scope_key sc name ls in
        case lookup_metric key ObservableGaugeKind help m of
          Inl e \<Rightarrow> (Inl e, m)
        | Inr (Some (ObservableGauge _ _ _)) \<Rightarrow> (Inr (), m)
        | Inr (Some _) \<Rightarrow> (Inl (TypeConflict (fst key)), m)
        | Inr None \<Rightarrow> (Inr (), register key (ObservableGauge help ob (instrument (fst key) m)) m))"

section \<open>Recording\<close>

definition add_int :: "nat \<Rightarrow> 64 word \<Rightarrow> 'o metrics \<Rightarrow> 'o metrics" where
  "add_int c v m = m\<lparr>ints := (ints m)[c := ints m ! c + v]\<rparr>"

definition counter_add :: "64 word \<Rightarrow> metric_handle \<Rightarrow> 'o metrics \<Rightarrow> 'o metrics" where
  "counter_add v h m =
     (if \<not> enabled h then m
      else case otel h of
        Some i \<Rightarrow> m\<lparr>exported := exported m @ [OtelCounter i (attributes h) v]\<rparr>
      | None \<Rightarrow> add_int (cell h) v m)"

text \<open>
  A gauge writes its own cell first and then adds to the instrument; between the two another thread may run.
  \<open>exporting\<close> holds the additions that are still to be made.
\<close>

definition export_later :: "metric_handle \<Rightarrow> 64 word \<Rightarrow> 'o metrics \<Rightarrow> 'o metrics" where
  "export_later h v m =
     (case otel h of Some i \<Rightarrow> m\<lparr>exporting := exporting m @ [OtelGauge i (attributes h) v]\<rparr> | None \<Rightarrow> m)"

definition gauge_add :: "64 word \<Rightarrow> metric_handle \<Rightarrow> 'o metrics \<Rightarrow> 'o metrics" where
  "gauge_add v h m = (if \<not> enabled h then m else export_later h v (add_int (cell h) v m))"

definition gauge_set :: "64 word \<Rightarrow> metric_handle \<Rightarrow> 'o metrics \<Rightarrow> 'o metrics" where
  "gauge_set v h m =
     (if \<not> enabled h then m
      else let previous = ints m ! cell h
           in export_later h (v - previous) (m\<lparr>ints := (ints m)[cell h := v]\<rparr>))"

definition export_now :: "nat \<Rightarrow> 'o metrics \<Rightarrow> 'o metrics option" where
  "export_now i m =
     (if i < length (exporting m)
      then Some (m\<lparr>exported := exported m @ [exporting m ! i], exporting := take i (exporting m) @ drop (Suc i) (exporting m)\<rparr>)
      else None)"

definition get_int :: "metric_handle \<Rightarrow> 'o metrics \<Rightarrow> 64 word" where
  "get_int h m = (if \<not> enabled h then 0 else ints m ! cell h)"

text \<open>Comparison of two \<open>f64\<close> on their bits: sign and magnitude, false for a NaN.\<close>

definition f64_magnitude :: "f64 \<Rightarrow> int" where
  "f64_magnitude x = uint x mod 2 ^ 63"

definition f64_nan :: "f64 \<Rightarrow> bool" where
  "f64_nan x \<longleftrightarrow> f64_magnitude x > 0x7FF0000000000000"

definition f64_value :: "f64 \<Rightarrow> int" where
  "f64_value x = (if uint x < 2 ^ 63 then f64_magnitude x else - f64_magnitude x)"

definition f64_less :: "f64 \<Rightarrow> f64 \<Rightarrow> bool" where
  "f64_less a b \<longleftrightarrow> \<not> f64_nan a \<and> \<not> f64_nan b \<and> f64_value a < f64_value b"

definition observe_value :: "(f64 \<Rightarrow> f64 \<Rightarrow> f64) \<Rightarrow> f64 \<Rightarrow> histogram_value \<Rightarrow> histogram_value" where
  "observe_value add v h =
     (let index = length (takeWhile (\<lambda>b. f64_less b v) (bounds h))
      in h\<lparr>observations := observations h + 1, hsum := add (hsum h) v,
           buckets := (if index < length (buckets h) then (buckets h)[index := buckets h ! index + 1] else buckets h)\<rparr>)"

definition observe :: "(f64 \<Rightarrow> f64 \<Rightarrow> f64) \<Rightarrow> f64 \<Rightarrow> metric_handle \<Rightarrow> 'o metrics \<Rightarrow> 'o metrics" where
  "observe add v h m =
     (if \<not> enabled h then m
      else m\<lparr>histograms := (histograms m)[cell h := observe_value add v (histograms m ! cell h)],
             exported := (case otel h of Some i \<Rightarrow> exported m @ [OtelHistogram i (attributes h) v] | None \<Rightarrow> exported m)\<rparr>)"

section \<open>Exposition\<close>

definition replace_char :: "char \<Rightarrow> string \<Rightarrow> string \<Rightarrow> string" where
  "replace_char c by s = concat (map (\<lambda>x. if x = c then by else [x]) s)"

abbreviation backslash :: char where "backslash \<equiv> CHR 0x5C"
abbreviation newline :: char where "newline \<equiv> CHR 0x0A"
abbreviation quote :: char where "quote \<equiv> CHR 0x22"

definition write_header :: "string \<Rightarrow> string \<Rightarrow> string \<Rightarrow> string" where
  "write_header name help ty =
     (let help = replace_char newline [backslash, CHR ''n''] (replace_char backslash [backslash, backslash] help)
      in ''# HELP '' @ name @ '' '' @ help @ [newline] @ ''# TYPE '' @ name @ '' '' @ ty @ [newline])"

definition escape_label :: "string \<Rightarrow> string" where
  "escape_label v =
     replace_char newline [backslash, CHR ''n'']
       (replace_char quote [backslash, quote] (replace_char backslash [backslash, backslash] v))"

fun write_labels :: "bool \<Rightarrow> labels \<Rightarrow> string" where
  "write_labels first [] = []"
| "write_labels first ((n, v) # ls) =
     (if first then [] else '','') @ n @ ''='' @ [quote] @ escape_label v @ [quote] @ write_labels False ls"

definition write_sample :: "string \<Rightarrow> labels \<Rightarrow> string \<Rightarrow> string" where
  "write_sample name ls v =
     name @ (if ls = [] then [] else ''{'' @ write_labels True ls @ ''}'') @ '' '' @ v @ [newline]"

definition i64_to_string :: "64 word \<Rightarrow> string" where
  "i64_to_string w = int_to_string (sint w)"

definition u64_to_string :: "64 word \<Rightarrow> string" where
  "u64_to_string w = to_decimal (unat w)"

definition bound_text :: "(f64 \<Rightarrow> string) \<Rightarrow> f64 list \<Rightarrow> nat \<Rightarrow> string" where
  "bound_text shw bs i = (if i < length bs then shw (bs ! i) else ''+Inf'')"

fun render_buckets :: "(f64 \<Rightarrow> string) \<Rightarrow> metric_key \<Rightarrow> f64 list \<Rightarrow> nat \<Rightarrow> 64 word \<Rightarrow> 64 word list \<Rightarrow> string" where
  "render_buckets shw key bs i cumulative [] = []"
| "render_buckets shw key bs i cumulative (n # ns) =
     write_sample (fst key @ ''_bucket'') (bt_insert ''le'' (bound_text shw bs i) (snd key)) (u64_to_string (cumulative + n)) @
     render_buckets shw key bs (Suc i) (cumulative + n) ns"

fun kind_text :: "metric_kind \<Rightarrow> string" where
  "kind_text CounterKind = ''counter''"
| "kind_text GaugeKind = ''gauge''"
| "kind_text HistogramKind = ''histogram''"
| "kind_text ObservableGaugeKind = ''gauge''"

fun render_metric :: "(f64 \<Rightarrow> string) \<Rightarrow> ('o \<Rightarrow> f64) \<Rightarrow> 'o metrics \<Rightarrow> metric_key \<Rightarrow> 'o metric \<Rightarrow> string" where
  "render_metric shw ob m key (Counter _ c _ _) = write_sample (fst key) (snd key) (i64_to_string (ints m ! c))"
| "render_metric shw ob m key (Gauge _ c _ _) = write_sample (fst key) (snd key) (i64_to_string (ints m ! c))"
| "render_metric shw ob m key (Histogram _ c _ _) =
     render_buckets shw key (bounds (histograms m ! c)) 0 0 (buckets (histograms m ! c)) @
     write_sample (fst key @ ''_sum'') (snd key) (shw (hsum (histograms m ! c))) @
     write_sample (fst key @ ''_count'') (snd key) (u64_to_string (observations (histograms m ! c)))"
| "render_metric shw ob m key (ObservableGauge _ f _) = write_sample (fst key) (snd key) (shw (ob f))"

fun render_entries ::
  "(f64 \<Rightarrow> string) \<Rightarrow> ('o \<Rightarrow> f64) \<Rightarrow> 'o metrics \<Rightarrow> string list \<Rightarrow> (metric_key \<times> 'o metric) list \<Rightarrow> string" where
  "render_entries shw ob m families [] = []"
| "render_entries shw ob m families ((key, e) # r) =
     (if fst key \<in> set families then []
      else write_header (fst key) (snd (family e)) (kind_text (fst (family e)))) @
     render_metric shw ob m key e @
     render_entries shw ob m (List.insert (fst key) families) r"

definition render_prometheus :: "(f64 \<Rightarrow> string) \<Rightarrow> ('o \<Rightarrow> f64) \<Rightarrow> 'o metrics \<Rightarrow> string" where
  "render_prometheus shw ob m = (if noop m then [] else render_entries shw ob m [] (registry m))"

section \<open>Runs\<close>

text \<open>
  What threads do with the metrics, one atomic action after the other: registrations, the recording calls on the
  handle of a registered metric, and the addition to an instrument that a gauge still owes.
\<close>

datatype 'o metrics_action =
    MakeCounter metrics_scope string string labels
  | MakeGauge metrics_scope string string labels
  | MakeHistogram metrics_scope string string labels "f64 list option"
  | MakeObservable metrics_scope string string labels 'o
  | CounterAdd metric_key "64 word"
  | GaugeAdd metric_key "64 word"
  | GaugeSet metric_key "64 word"
  | Export nat
  | Observe metric_key f64

definition handle :: "nat \<Rightarrow> string option \<Rightarrow> labels \<Rightarrow> metric_handle" where
  "handle c i as = \<lparr>cell = c, otel = i, attributes = as, enabled = True\<rparr>"

fun metrics_step :: "(f64 \<Rightarrow> f64 \<Rightarrow> f64) \<Rightarrow> 'o metrics_action \<Rightarrow> 'o metrics \<Rightarrow> 'o metrics option" where
  "metrics_step add (MakeCounter sc name help ls) m = Some (snd (counter sc name help ls m))"
| "metrics_step add (MakeGauge sc name help ls) m = Some (snd (gauge sc name help ls m))"
| "metrics_step add (MakeHistogram sc name help ls bs) m = Some (snd (histogram sc name help ls bs m))"
| "metrics_step add (MakeObservable sc name help ls f) m = Some (snd (observable_float64_gauge sc name help ls f m))"
| "metrics_step add (CounterAdd key v) m =
     (case map_of (registry m) key of Some (Counter _ c i as) \<Rightarrow> Some (counter_add v (handle c i as) m) | _ \<Rightarrow> None)"
| "metrics_step add (GaugeAdd key v) m =
     (case map_of (registry m) key of Some (Gauge _ c i as) \<Rightarrow> Some (gauge_add v (handle c i as) m) | _ \<Rightarrow> None)"
| "metrics_step add (GaugeSet key v) m =
     (case map_of (registry m) key of Some (Gauge _ c i as) \<Rightarrow> Some (gauge_set v (handle c i as) m) | _ \<Rightarrow> None)"
| "metrics_step add (Export n) m = export_now n m"
| "metrics_step add (Observe key v) m =
     (case map_of (registry m) key of Some (Histogram _ c i as) \<Rightarrow> Some (observe add v (handle c i as) m) | _ \<Rightarrow> None)"

section \<open>The invariant\<close>

fun int_cell :: "'o metric \<Rightarrow> nat option" where
  "int_cell (Counter _ c _ _) = Some c"
| "int_cell (Gauge _ c _ _) = Some c"
| "int_cell _ = None"

fun histogram_cell :: "'o metric \<Rightarrow> nat option" where
  "histogram_cell (Histogram _ c _ _) = Some c"
| "histogram_cell _ = None"

fun gauge_cell :: "'o metric option \<Rightarrow> nat option" where
  "gauge_cell (Some (Gauge _ c _ _)) = Some c"
| "gauge_cell _ = None"

fun gauge_delta :: "metric_key \<Rightarrow> otel_event \<Rightarrow> 64 word" where
  "gauge_delta k (OtelGauge n as v) = (if k = (n, as) then v else 0)"
| "gauge_delta k _ = 0"

definition gauge_sum :: "metric_key \<Rightarrow> otel_event list \<Rightarrow> 64 word" where
  "gauge_sum k es = sum_list (map (gauge_delta k) es)"

definition families_ok :: "(metric_key \<times> 'o metric) list \<Rightarrow> bool" where
  "families_ok r \<longleftrightarrow> (\<forall>a\<in>set r. \<forall>b\<in>set r. fst (fst a) = fst (fst b) \<longrightarrow> family (snd a) = family (snd b))"

definition histogram_ok :: "histogram_value \<Rightarrow> bool" where
  "histogram_ok h \<longleftrightarrow> length (buckets h) = Suc (length (bounds h)) \<and> sum_list (buckets h) = observations h"

fun entry_ok :: "'o metrics \<Rightarrow> metric_key \<Rightarrow> 'o metric \<Rightarrow> bool" where
  "entry_ok m k (Counter _ c i as) \<longleftrightarrow> c < length (ints m) \<and> i = instrument (fst k) m \<and> as = snd k"
| "entry_ok m k (Gauge _ c i as) \<longleftrightarrow> c < length (ints m) \<and> i = instrument (fst k) m \<and> as = snd k"
| "entry_ok m k (Histogram _ c i as) \<longleftrightarrow>
     c < length (histograms m) \<and> histogram_ok (histograms m ! c) \<and> i = instrument (fst k) m \<and> as = snd k"
| "entry_ok m k (ObservableGauge _ _ i) \<longleftrightarrow> i = instrument (fst k) m"

definition cells_ok :: "('o metric \<Rightarrow> nat option) \<Rightarrow> (metric_key \<times> 'o metric) list \<Rightarrow> bool" where
  "cells_ok f r \<longleftrightarrow>
     (\<forall>k1 e1 k2 e2 c. map_of r k1 = Some e1 \<and> map_of r k2 = Some e2 \<and> f e1 = Some c \<and> f e2 = Some c \<longrightarrow> k1 = k2)"

definition gauge_local :: "(metric_key \<times> 'o metric) list \<Rightarrow> bool \<Rightarrow> 64 word list \<Rightarrow> metric_key \<Rightarrow> 64 word" where
  "gauge_local r metered xs k =
     (case gauge_cell (map_of r k) of Some c \<Rightarrow> if metered then xs ! c else 0 | None \<Rightarrow> 0)"

definition exports_ok :: "'o metrics \<Rightarrow> bool" where
  "exports_ok m \<longleftrightarrow> (\<forall>k. gauge_sum k (exported m @ exporting m) = gauge_local (registry m) (meter m) (ints m) k)"

definition metrics_ok :: "'o metrics \<Rightarrow> bool" where
  "metrics_ok m \<longleftrightarrow>
     \<not> noop m \<and> bt_wf (registry m) \<and> families_ok (registry m) \<and>
     (\<forall>k e. map_of (registry m) k = Some e \<longrightarrow> entry_ok m k e) \<and>
     cells_ok int_cell (registry m) \<and> cells_ok histogram_cell (registry m) \<and> exports_ok m"

subsection \<open>Families\<close>

lemma validate_find:
  "validate_metric_family r name kind desc =
     (case find (\<lambda>(k, e). fst k = name) r of
        None \<Rightarrow> Inr ()
      | Some (k, e) \<Rightarrow>
          (if fst (family e) \<noteq> kind then Inl (TypeConflict name)
           else if snd (family e) \<noteq> desc then Inl (DescriptionConflict name) else Inr ()))"
  by (induction r) auto

lemma find_mem: "find P xs = Some x \<Longrightarrow> x \<in> set xs \<and> P x"
  by (auto simp: find_Some_iff)

lemma family_eq: "families_ok r \<Longrightarrow> (k, e) \<in> set r \<Longrightarrow> (k', e') \<in> set r \<Longrightarrow> fst k = fst k' \<Longrightarrow> family e = family e'"
  unfolding families_ok_def by (metis fst_conv snd_conv)

lemma validate_consistent:
  assumes "validate_metric_family r name kind desc = Inr ()" and "families_ok r" and "(k, e) \<in> set r" and "fst k = name"
  shows "family e = (kind, desc)"
proof -
  obtain k' e' where f: "find (\<lambda>(k, e). fst k = name) r = Some (k', e')"
    using assms(3,4) find_None_iff [of "\<lambda>(k, e). fst k = name" r]
    by (cases k; cases "find (\<lambda>(k, e). fst k = name) r") auto
  then have "(k', e') \<in> set r" "fst k' = name" using find_mem [OF f] by auto
  moreover have "family e' = (kind, desc)"
    using assms(1) f by (auto simp: validate_find prod_eq_iff split: if_splits)
  ultimately show ?thesis using family_eq [OF assms(2,3)] assms(4) by metis
qed

lemma validate_error:
  assumes "validate_metric_family r name kind desc = Inl err"
  obtains k e where "(k, e) \<in> set r" and "fst k = name" and "family e \<noteq> (kind, desc)"
    and "err = (if fst (family e) \<noteq> kind then TypeConflict name else DescriptionConflict name)"
proof -
  obtain k e where f: "find (\<lambda>(k, e). fst k = name) r = Some (k, e)"
    using assms by (auto simp: validate_find split: option.splits)
  then show ?thesis
    using find_mem [OF f] assms by (intro that [of k e]) (auto simp: validate_find prod_eq_iff split: if_splits)
qed

lemma families_insert:
  assumes "families_ok r" and "\<And>k' e'. (k', e') \<in> set r \<Longrightarrow> fst k' = fst k \<Longrightarrow> family e' = family e" and "map_of r k = None"
  shows "families_ok (bt_insert k e r)"
  using assms unfolding families_ok_def bt_set_insert_new [OF assms(3)] by (metis fst_conv insert_iff prod.collapse snd_conv)

lemma cells_insert:
  assumes "cells_ok f r" and "\<And>k' e' c. map_of r k' = Some e' \<Longrightarrow> f e = Some c \<Longrightarrow> f e' \<noteq> Some c"
  shows "cells_ok f (bt_insert k e r)"
  using assms unfolding cells_ok_def by (auto split: if_splits)
subsection \<open>Registrations keep it\<close>

definition extends :: "'o metrics \<Rightarrow> 'o metrics \<Rightarrow> bool" where
  "extends m m' \<longleftrightarrow>
     registry m' = registry m \<and> meter m' = meter m \<and> noop m' = noop m \<and> exported m' = exported m \<and> exporting m' = exporting m \<and>
     (\<exists>xs. ints m' = ints m @ xs) \<and> (\<exists>hs. histograms m' = histograms m @ hs)"

lemma metrics_okD:
  assumes "metrics_ok m"
  shows "\<not> noop m" "bt_wf (registry m)" "families_ok (registry m)" "cells_ok int_cell (registry m)"
    "cells_ok histogram_cell (registry m)" "exports_ok m" "map_of (registry m) k = Some e \<Longrightarrow> entry_ok m k e"
  using assms unfolding metrics_ok_def by blast+

lemma gauge_cell_Some: "gauge_cell x = Some c \<longleftrightarrow> (\<exists>h i as. x = Some (Gauge h c i as))"
  by (cases x rule: gauge_cell.cases) auto

lemma cell_bounds:
  assumes "metrics_ok m" and "map_of (registry m) k = Some e"
  shows "int_cell e = Some c \<Longrightarrow> c < length (ints m)" "histogram_cell e = Some c \<Longrightarrow> c < length (histograms m)"
  using metrics_okD(7) [OF assms] by (cases e; simp)+

lemma gauge_cell_bound: "metrics_ok m \<Longrightarrow> gauge_cell (map_of (registry m) k) = Some c \<Longrightarrow> c < length (ints m)"
  using cell_bounds(1) [of m k] by (fastforce simp: gauge_cell_Some)

lemma entry_ok_extends: "extends m m' \<Longrightarrow> entry_ok m k e \<Longrightarrow> entry_ok m' k e"
  by (cases e) (auto simp: extends_def instrument_def nth_append)

lemma register_simps [simp]:
  "registry (register key e m) = bt_insert key e (registry m)" "meter (register key e m) = meter m"
  "noop (register key e m) = noop m" "exported (register key e m) = exported m" "exporting (register key e m) = exporting m"
  "ints (register key e m) = ints m" "histograms (register key e m) = histograms m"
  by (simp_all add: register_def)

lemma register_entry_ok [simp]: "entry_ok (register key e m) k e' \<longleftrightarrow> entry_ok m k e'"
  by (cases e') (auto simp: instrument_def)

lemma register_ok:
  assumes ok: "metrics_ok m" and ext: "extends m m'" and new: "map_of (registry m) key = None"
    and fam: "\<And>k' e'. (k', e') \<in> set (registry m) \<Longrightarrow> fst k' = fst key \<Longrightarrow> family e' = family e"
    and entry: "entry_ok m' key e"
    and ints: "\<And>c. int_cell e = Some c \<Longrightarrow> length (ints m) \<le> c"
    and hists: "\<And>c. histogram_cell e = Some c \<Longrightarrow> length (histograms m) \<le> c"
    and zero: "\<And>c. gauge_cell (Some e) = Some c \<Longrightarrow> ints m' ! c = 0"
  shows "metrics_ok (register key e m')"
proof -
  have reg: "registry (register key e m') = bt_insert key e (registry m)"
    using ext by (simp add: extends_def)
  have cells: "cells_ok int_cell (bt_insert key e (registry m))" "cells_ok histogram_cell (bt_insert key e (registry m))"
    by (intro cells_insert metrics_okD(4,5) ok; use cell_bounds [OF ok] ints hists in fastforce)+
  have locals: "gauge_local (bt_insert key e (registry m)) (meter m) (ints m') k = gauge_local (registry m) (meter m) (ints m) k" for k
    using ext new zero gauge_cell_bound [OF ok, of k]
    by (cases "k = key") (auto simp: gauge_local_def extends_def nth_append split: option.split)
  have sums: "exports_ok (register key e m')"
    using metrics_okD(6) [OF ok] ext by (simp add: exports_ok_def extends_def locals)
  have entries: "entry_ok m' k e'" if "map_of (bt_insert key e (registry m)) k = Some e'" for k e'
    using that entry entry_ok_extends [OF ext metrics_okD(7) [OF ok]] by (auto split: if_splits)
  have "\<not> noop (register key e m')" using ext metrics_okD(1) [OF ok] by (simp add: extends_def)
  then show ?thesis
    unfolding metrics_ok_def reg using metrics_okD(2,3) [OF ok] cells sums entries families_insert [OF _ fam new]
    by (auto simp: reg)
qed

lemma extends_simps [simp]: "extends m (m\<lparr>ints := ints m @ [v]\<rparr>)" "extends m (m\<lparr>histograms := histograms m @ [h]\<rparr>)" "extends m m"
  by (auto simp: extends_def)

text \<open>The three outcomes of a registration: a conflict, the metric that is there, and a new one.\<close>

definition conflict :: "metric_key \<Rightarrow> metric_kind \<Rightarrow> string \<Rightarrow> 'o metrics \<Rightarrow> metrics_error \<Rightarrow> bool" where
  "conflict key kind desc m err \<longleftrightarrow>
     (\<exists>k e. (k, e) \<in> set (registry m) \<and> fst k = fst key \<and> family e \<noteq> (kind, desc) \<and>
        err = (if fst (family e) \<noteq> kind then TypeConflict (fst key) else DescriptionConflict (fst key)))"

definition accepted :: "metric_key \<Rightarrow> metric_kind \<Rightarrow> string \<Rightarrow> 'o metrics \<Rightarrow> bool" where
  "accepted key kind desc m \<longleftrightarrow>
     (\<forall>k e. (k, e) \<in> set (registry m) \<and> fst k = fst key \<longrightarrow> family e = (kind, desc))"

lemma validated:
  assumes "metrics_ok m"
  shows "validate_metric_family (registry m) (fst key) kind desc = Inl err \<Longrightarrow> conflict key kind desc m err"
    "validate_metric_family (registry m) (fst key) kind desc = Inr () \<Longrightarrow> accepted key kind desc m"
  using validate_consistent [OF _ metrics_okD(3) [OF assms]] unfolding conflict_def accepted_def
  by (blast elim: validate_error)+

lemma accepted_entry:
  "accepted key kind desc m \<Longrightarrow> map_of (registry m) key = Some e \<Longrightarrow> family e = (kind, desc)"
  unfolding accepted_def using map_of_SomeD by fast

lemma lookup_cases:
  assumes "metrics_ok m"
  obtains (conflict) err where "lookup_metric key kind desc m = Inl err" "conflict key kind desc m err"
  | (old) e where "lookup_metric key kind desc m = Inr (Some e)" "map_of (registry m) key = Some e" "family e = (kind, desc)"
  | (new) "lookup_metric key kind desc m = Inr None" "map_of (registry m) key = None" "accepted key kind desc m"
proof (cases "validate_metric_family (registry m) (fst key) kind desc")
  case (Inl err)
  then show ?thesis using conflict validated(1) [OF assms] by (simp add: lookup_metric_def)
next
  case (Inr u)
  then have "lookup_metric key kind desc m = Inr (map_of (registry m) key)" "accepted key kind desc m"
    using validated(2) [OF assms] by (simp_all add: lookup_metric_def)
  then show ?thesis using old new accepted_entry [of key kind desc m] by (cases "map_of (registry m) key") auto
qed

lemma family_kind:
  "family e = (CounterKind, h) \<longleftrightarrow> (\<exists>c i as. e = Counter h c i as)"
  "family e = (GaugeKind, h) \<longleftrightarrow> (\<exists>c i as. e = Gauge h c i as)"
  "family e = (HistogramKind, h) \<longleftrightarrow> (\<exists>c i as. e = Histogram h c i as)"
  "family e = (ObservableGaugeKind, h) \<longleftrightarrow> (\<exists>f i. e = ObservableGauge h f i)"
  by (cases e; auto)+

lemma register_new:
  assumes "metrics_ok m" and "extends m m'" and "accepted key kind desc m" and "map_of (registry m) key = None"
    and "family e = (kind, desc)" and "entry_ok m' key e"
    and "\<And>c. int_cell e = Some c \<Longrightarrow> length (ints m) \<le> c" and "\<And>c. histogram_cell e = Some c \<Longrightarrow> length (histograms m) \<le> c"
    and "\<And>c. gauge_cell (Some e) = Some c \<Longrightarrow> ints m' ! c = 0"
  shows "metrics_ok (register key e m')"
proof (rule register_ok [OF assms(1,2,4) _ assms(6-9)])
  show "family e' = family e" if "(k', e') \<in> set (registry m)" "fst k' = fst key" for k' e'
    using assms(3,5) that unfolding accepted_def by metis
qed

lemma counter_ok: "metrics_ok m \<Longrightarrow> metrics_ok (snd (counter sc name desc ls m))"
  by (rule lookup_cases [of m "scope_key sc name ls" CounterKind desc], assumption)
    (auto simp: counter_def Let_def new_int_def metrics_okD(1) family_kind instrument_def elim!: register_new [of m, rotated 2])

lemma gauge_ok: "metrics_ok m \<Longrightarrow> metrics_ok (snd (gauge sc name desc ls m))"
  by (rule lookup_cases [of m "scope_key sc name ls" GaugeKind desc], assumption)
    (auto simp: gauge_def Let_def new_int_def metrics_okD(1) family_kind instrument_def elim!: register_new [of m, rotated 2])

lemma empty_histogram_ok: "histogram_ok (empty_histogram b (Suc (length b)))"
  by (simp add: histogram_ok_def empty_histogram_def sum_list_replicate)

lemma histogram_registers_ok: "metrics_ok m \<Longrightarrow> metrics_ok (snd (histogram sc name desc ls bs m))"
  by (rule lookup_cases [of m "scope_key sc name ls" HistogramKind desc], assumption)
    (auto simp: histogram_def Let_def new_histogram_def metrics_okD(1) family_kind instrument_def empty_histogram_ok
      elim!: register_new [of m, rotated 2])

lemma observable_ok: "metrics_ok m \<Longrightarrow> metrics_ok (snd (observable_float64_gauge sc name desc ls f m))"
  by (rule lookup_cases [of m "scope_key sc name ls" ObservableGaugeKind desc], assumption)
    (auto simp: observable_float64_gauge_def Let_def metrics_okD(1) family_kind instrument_def elim!: register_new [of m, rotated 2])
subsection \<open>Recording keeps it\<close>

lemma gauge_sum_simps [simp]:
  "gauge_sum k [] = 0" "gauge_sum k (e # es) = gauge_delta k e + gauge_sum k es" "gauge_sum k (es @ fs) = gauge_sum k es + gauge_sum k fs"
  by (simp_all add: gauge_sum_def)

lemma entry_ok_same:
  assumes "meter m' = meter m" and "length (ints m') = length (ints m)" and "histograms m' = histograms m"
  shows "entry_ok m' k e \<longleftrightarrow> entry_ok m k e"
  using assms by (cases e) (simp_all add: instrument_def)

text \<open>An update of the integer cells that leaves the invariant of the exports to be shown.\<close>

lemma ints_update_ok:
  assumes "metrics_ok m" and "registry m' = registry m" and "meter m' = meter m" and "noop m' = noop m"
    and "length (ints m') = length (ints m)" and "histograms m' = histograms m" and "exports_ok m'"
  shows "metrics_ok m'"
  using assms entry_ok_same [OF assms(3,5,6)] unfolding metrics_ok_def by auto

lemma int_cell_other:
  assumes "metrics_ok m" and "map_of (registry m) k = Some e" and "int_cell e = Some c"
    and "gauge_cell (map_of (registry m) k') = Some c'" and "k' \<noteq> k"
  shows "c' \<noteq> c"
proof -
  obtain h i as where "map_of (registry m) k' = Some (Gauge h c' i as)" using assms(4) by (auto simp: gauge_cell_Some)
  then show ?thesis using metrics_okD(4) [OF assms(1)] assms(2,3,5) unfolding cells_ok_def by fastforce
qed

lemma exports_okD: "exports_ok m \<Longrightarrow> gauge_sum k (exported m @ exporting m) = gauge_local (registry m) (meter m) (ints m) k"
  unfolding exports_ok_def by blast

lemma counter_add_ok:
  assumes ok: "metrics_ok m" and e: "map_of (registry m) k = Some (Counter h c i as)"
  shows "metrics_ok (counter_add v (handle c i as) m)"
proof (rule ints_update_ok [OF ok])
  have other: "c' \<noteq> c" if "gauge_cell (map_of (registry m) k') = Some c'" for c' k'
    using int_cell_other [OF ok e _ that] e that by (cases "k' = k") auto
  have "gauge_local (registry m) (meter m) ((ints m)[c := w]) k' = gauge_local (registry m) (meter m) (ints m) k'" for k' w
    using other [of k'] by (auto simp: gauge_local_def split: option.split)
  then show "exports_ok (counter_add v (handle c i as) m)"
    using metrics_okD(6) [OF ok]
    by (simp add: exports_ok_def counter_add_def handle_def add_int_def split: option.split)
qed (auto simp: counter_add_def handle_def add_int_def split: option.split)

lemma gauge_write_ok:
  assumes ok: "metrics_ok m" and e: "map_of (registry m) k = Some (Gauge h c i as)"
  shows "metrics_ok (export_later (handle c i as) (v - ints m ! c) (m\<lparr>ints := (ints m)[c := v]\<rparr>))" (is "metrics_ok ?m")
proof (rule ints_update_ok [OF ok])
  have b: "c < length (ints m)" "i = instrument (fst k) m" "as = snd k" using metrics_okD(7) [OF ok e] by auto
  have delta: "gauge_sum k' (exported ?m @ exporting ?m) =
      gauge_sum k' (exported m @ exporting m) + (if k' = k \<and> meter m then v - ints m ! c else 0)" for k'
    using b(2,3) by (auto simp: export_later_def handle_def instrument_def split: option.split)
  have cells: "registry ?m = registry m" "meter ?m = meter m" "ints ?m = (ints m)[c := v]"
    by (auto simp: export_later_def split: option.split)
  have "gauge_local (registry m) (meter m) ((ints m)[c := v]) k' =
      gauge_local (registry m) (meter m) (ints m) k' + (if k' = k \<and> meter m then v - ints m ! c else 0)" for k'
    using e b(1) int_cell_other [OF ok e, of c k'] by (cases "k' = k") (auto simp: gauge_local_def split: option.split)
  then show "exports_ok ?m"
    using exports_okD [OF metrics_okD(6) [OF ok]] unfolding exports_ok_def delta cells by simp
qed (auto simp: export_later_def split: option.split)

lemma gauge_add_write: "gauge_add v (handle c i as) m = export_later (handle c i as) (ints m ! c + v - ints m ! c) (m\<lparr>ints := (ints m)[c := ints m ! c + v]\<rparr>)"
  by (simp add: gauge_add_def add_int_def handle_def)

lemma gauge_add_ok: "metrics_ok m \<Longrightarrow> map_of (registry m) k = Some (Gauge h c i as) \<Longrightarrow> metrics_ok (gauge_add v (handle c i as) m)"
  unfolding gauge_add_write by (rule gauge_write_ok)

lemma gauge_set_write: "gauge_set v (handle c i as) m = export_later (handle c i as) (v - ints m ! c) (m\<lparr>ints := (ints m)[c := v]\<rparr>)"
  by (simp add: gauge_set_def handle_def)

lemma export_now_ok:
  assumes "metrics_ok m" and "export_now n m = Some m'"
  shows "metrics_ok m'"
proof (rule ints_update_ok [OF assms(1)])
  have n: "n < length (exporting m)" using assms(2) by (simp add: export_now_def split: if_splits)
  have "exporting m = take n (exporting m) @ exporting m ! n # drop (Suc n) (exporting m)" by (rule id_take_nth_drop [OF n])
  then have "gauge_sum k (exporting m) =
      gauge_sum k (take n (exporting m)) + (gauge_delta k (exporting m ! n) + gauge_sum k (drop (Suc n) (exporting m)))" for k
    by (metis gauge_sum_simps(2,3))
  then show "exports_ok m'"
    using exports_okD [OF metrics_okD(6) [OF assms(1)]] assms(2) n by (auto simp: exports_ok_def export_now_def algebra_simps)
qed (use assms(2) in \<open>auto simp: export_now_def split: if_splits\<close>)

lemma sum_list_bump: "i < length xs \<Longrightarrow> sum_list (xs[i := xs ! i + v]) = sum_list xs + (v :: 64 word)"
  by (induction xs arbitrary: i) (auto simp: algebra_simps split: nat.splits)

lemma observe_value_ok: "histogram_ok h \<Longrightarrow> histogram_ok (observe_value add v h)"
  using length_takeWhile_le [of "\<lambda>b. f64_less b v" "bounds h"]
  by (auto simp: histogram_ok_def observe_value_def Let_def sum_list_bump)

lemma observe_ok:
  assumes ok: "metrics_ok m" and e: "map_of (registry m) k = Some (Histogram h c i as)"
  shows "metrics_ok (observe add v (handle c i as) m)" (is "metrics_ok ?m")
proof -
  have b: "c < length (histograms m)" "histogram_ok (histograms m ! c)" using metrics_okD(7) [OF ok e] by auto
  have cells: "registry ?m = registry m" "meter ?m = meter m" "noop ?m = noop m" "ints ?m = ints m"
    "exporting ?m = exporting m" "histograms ?m = (histograms m)[c := observe_value add v (histograms m ! c)]"
    by (auto simp: observe_def handle_def)
  have sums: "gauge_sum k' (exported ?m) = gauge_sum k' (exported m)" for k'
    by (auto simp: observe_def handle_def split: option.split)
  have "entry_ok ?m k' e'" if "map_of (registry m) k' = Some e'" for k' e'
    using metrics_okD(7) [OF ok that] b by (cases e') (auto simp: cells instrument_def nth_list_update observe_value_ok)
  moreover have "exports_ok ?m" using exports_okD [OF metrics_okD(6) [OF ok]] by (simp add: exports_ok_def cells sums)
  ultimately show ?thesis using metrics_okD(1-5) [OF ok] unfolding metrics_ok_def by (simp add: cells)
qed

lemma metrics_step_ok: "metrics_ok m \<Longrightarrow> metrics_step add a m = Some m' \<Longrightarrow> metrics_ok m'"
  by (cases a) (auto simp: gauge_set_write
    intro: counter_ok gauge_ok histogram_registers_ok observable_ok counter_add_ok gauge_add_ok gauge_write_ok export_now_ok observe_ok
    split: option.splits metric.splits)

interpretation metrics_run: step_system "metrics_step add" metrics_ok for add
  by unfold_locales (rule metrics_step_ok)

lemma metrics_new_ok: "metrics_ok metrics_new" "metrics_ok with_meter"
  by (auto simp: metrics_ok_def metrics_new_def with_meter_def families_ok_def cells_ok_def exports_ok_def gauge_local_def)

section \<open>Reading the exposition\<close>

text \<open>
  A reader of the exposition format, used to state what \<open>render_prometheus\<close> writes: lines end in a newline, a
  comment line gives the help text or the type of a family, every other line is a sample.
\<close>

datatype item = Help string string | Type string string | Sample string labels string

fun unescape :: "string \<Rightarrow> string" where
  "unescape (c # d # s) =
     (if c = backslash then (if d = CHR ''n'' then newline else d) # unescape s else c # unescape (d # s))"
| "unescape s = s"

fun parse_quoted :: "string \<Rightarrow> (string \<times> string) option" where
  "parse_quoted [] = None"
| "parse_quoted (c # s) =
     (if c = quote then Some ([], s)
      else if c = backslash then
        (case s of [] \<Rightarrow> None
         | d # t \<Rightarrow> map_option (apfst (Cons (if d = CHR ''n'' then newline else d))) (parse_quoted t))
      else map_option (apfst (Cons c)) (parse_quoted s))"

lemma parse_quoted_length: "parse_quoted s = Some (v, t) \<Longrightarrow> length t < length s"
  by (induction s arbitrary: v rule: parse_quoted.induct) (fastforce split: if_splits list.splits)+

function parse_labels :: "string \<Rightarrow> (labels \<times> string) option" where
  "parse_labels s =
     (case dropWhile (\<lambda>c. c \<noteq> CHR ''='') s of
        _ # q # s1 \<Rightarrow>
          (if q \<noteq> quote then None
           else case parse_quoted s1 of
             Some (v, c # s2) \<Rightarrow>
               (if c = CHR '','' then map_option (apfst (Cons (takeWhile (\<lambda>c. c \<noteq> CHR ''='') s, v))) (parse_labels s2)
                else if c = CHR ''}'' then Some ([(takeWhile (\<lambda>c. c \<noteq> CHR ''='') s, v)], s2)
                else None)
           | _ \<Rightarrow> None)
      | _ \<Rightarrow> None)"
  by auto
termination
proof (relation "measure length")
  fix s e es q s1 p v t c s2
  assume "dropWhile (\<lambda>c. c \<noteq> CHR ''='') s = e # es" "es = q # s1" "parse_quoted s1 = Some p" "(v, t) = p" "t = c # s2"
  then show "(s2, s) \<in> measure length"
    using parse_quoted_length [of s1 v "c # s2"] length_dropWhile_le [of "\<lambda>c. c \<noteq> CHR ''=''" s] by auto
qed auto

declare parse_labels.simps [simp del]

fun parse_sample :: "string \<Rightarrow> item option" where
  "parse_sample l =
     (let n = takeWhile (\<lambda>c. c \<noteq> CHR ''{'' \<and> c \<noteq> CHR '' '') l
      in case dropWhile (\<lambda>c. c \<noteq> CHR ''{'' \<and> c \<noteq> CHR '' '') l of
           [] \<Rightarrow> None
         | c # s \<Rightarrow>
             (if c = CHR '' '' then Some (Sample n [] s)
              else case parse_labels s of
                Some (ls, d # v) \<Rightarrow> (if d = CHR '' '' then Some (Sample n ls v) else None)
              | _ \<Rightarrow> None))"

definition parse_comment :: "string \<Rightarrow> (string \<times> string) option" where
  "parse_comment s =
     (case dropWhile (\<lambda>c. c \<noteq> CHR '' '') s of [] \<Rightarrow> None | _ # t \<Rightarrow> Some (takeWhile (\<lambda>c. c \<noteq> CHR '' '') s, t))"

definition parse_line :: "string \<Rightarrow> item option" where
  "parse_line l =
     (if take 7 l = ''# HELP '' then map_option (\<lambda>(n, t). Help n (unescape t)) (parse_comment (drop 7 l))
      else if take 7 l = ''# TYPE '' then map_option (\<lambda>(n, t). Type n t) (parse_comment (drop 7 l))
      else parse_sample l)"

fun split_lines :: "string \<Rightarrow> string \<Rightarrow> string list" where
  "split_lines acc [] = (if acc = [] then [] else [acc])"
| "split_lines acc (c # s) = (if c = newline then acc # split_lines [] s else split_lines (acc @ [c]) s)"

definition parse_exposition :: "string \<Rightarrow> item option list" where
  "parse_exposition s = map parse_line (split_lines [] s)"

subsection \<open>Escaping\<close>

definition escape_char :: "char \<Rightarrow> string" where
  "escape_char c =
     (if c = backslash then [backslash, backslash] else if c = quote then [backslash, quote]
      else if c = newline then [backslash, CHR ''n''] else [c])"

lemma replace_char_simps [simp]:
  "replace_char c r [] = []" "replace_char c r (x # s) = (if x = c then r else [x]) @ replace_char c r s"
  "replace_char c r (s @ t) = replace_char c r s @ replace_char c r t"
  by (simp_all add: replace_char_def)

lemma escape_label_chars: "escape_label v = concat (map escape_char v)"
  by (induction v) (auto simp: escape_label_def escape_char_def)

lemma escape_no_newline: "newline \<notin> set (escape_label v)"
  by (induction v) (auto simp: escape_label_chars escape_char_def)

lemma parse_quoted_escape: "parse_quoted (escape_label v @ quote # s) = Some (v, s)"
  by (induction v) (auto simp: escape_label_chars escape_char_def)

definition escape_help :: "string \<Rightarrow> string" where
  "escape_help h = replace_char newline [backslash, CHR ''n''] (replace_char backslash [backslash, backslash] h)"

lemma escape_help_no_newline: "newline \<notin> set (escape_help h)"
  by (induction h) (auto simp: escape_help_def)

lemma unescape_plain: "c \<noteq> backslash \<Longrightarrow> unescape (c # s) = c # unescape s"
  by (cases s) auto

lemma unescape_escape: "unescape (escape_help h) = h"
  by (induction h) (auto simp: escape_help_def unescape_plain)

subsection \<open>Lines\<close>

lemma split_line: "newline \<notin> set l \<Longrightarrow> split_lines acc (l @ newline # s) = (acc @ l) # split_lines [] s"
  by (induction l arbitrary: acc) auto

lemma parse_exposition_simps:
  "parse_exposition [] = []"
  "newline \<notin> set l \<Longrightarrow> parse_exposition (l @ newline # s) = parse_line l # parse_exposition s"
  by (simp_all add: parse_exposition_def split_line)

definition name_ok :: "string \<Rightarrow> bool" where
  "name_ok n \<longleftrightarrow> list_all (\<lambda>c. c \<noteq> CHR '' '' \<and> c \<noteq> CHR ''{'' \<and> c \<noteq> newline \<and> c \<noteq> CHR ''#'') n"

definition label_ok :: "string \<Rightarrow> bool" where
  "label_ok n \<longleftrightarrow> list_all (\<lambda>c. c \<noteq> CHR ''='' \<and> c \<noteq> newline) n"

definition labels_ok :: "labels \<Rightarrow> bool" where
  "labels_ok ls \<longleftrightarrow> list_all (\<lambda>(n, v). label_ok n) ls"

lemma span_simps:
  "list_all P xs \<Longrightarrow> \<not> P y \<Longrightarrow> takeWhile P (xs @ y # s) = xs" "list_all P xs \<Longrightarrow> \<not> P y \<Longrightarrow> dropWhile P (xs @ y # s) = y # s"
  by (auto simp: takeWhile_append2 dropWhile_append2 list_all_iff)

lemma parse_label_list:
  "labels_ok ls \<Longrightarrow> ls \<noteq> [] \<Longrightarrow> parse_labels (write_labels True ls @ CHR ''}'' # s) = Some (ls, s)"
proof (induction ls)
  case (Cons l ls)
  obtain n v where l: "l = (n, v)" by fastforce
  have n: "list_all (\<lambda>c. c \<noteq> CHR ''='') n" using Cons.prems(1) by (auto simp: l labels_ok_def label_ok_def list_all_iff)
  show ?case
  proof (cases ls)
    case Nil
    then show ?thesis using n by (subst parse_labels.simps) (simp add: l span_simps parse_quoted_escape)
  next
    case (Cons l' ls')
    have "write_labels False ls = '','' @ write_labels True ls" by (cases l') (simp add: Cons)
    then show ?thesis using n Cons.IH Cons.prems Cons
      by (subst parse_labels.simps) (simp add: l span_simps parse_quoted_escape labels_ok_def)
  qed
qed simp

lemma write_labels_no_newline: "labels_ok ls \<Longrightarrow> newline \<notin> set (write_labels b ls)"
  by (induction b ls rule: write_labels.induct) (auto simp: labels_ok_def label_ok_def list_all_iff escape_no_newline)

definition sample_line :: "string \<Rightarrow> labels \<Rightarrow> string \<Rightarrow> string" where
  "sample_line n ls v = n @ (if ls = [] then [] else ''{'' @ write_labels True ls @ ''}'') @ '' '' @ v"

lemma sample_no_comment: "name_ok n \<Longrightarrow> take 7 (sample_line n ls v) \<noteq> CHR ''#'' # s"
  by (cases n) (auto simp: sample_line_def name_ok_def)

lemma parse_sample_line:
  assumes "name_ok n" and "labels_ok ls"
  shows "parse_line (sample_line n ls v) = Some (Sample n ls v)"
proof -
  have n: "list_all (\<lambda>c. c \<noteq> CHR ''{'' \<and> c \<noteq> CHR '' '') n" using assms(1) by (auto simp: name_ok_def list_all_iff)
  have "parse_sample (sample_line n ls v) = Some (Sample n ls v)"
    using n parse_label_list [OF assms(2), of "CHR '' '' # v"] by (cases "ls = []") (simp_all add: sample_line_def span_simps)
  then show ?thesis using sample_no_comment [OF assms(1)] by (simp add: parse_line_def)
qed

lemma parse_write_sample:
  assumes "name_ok n" and "labels_ok ls" and "newline \<notin> set v"
  shows "parse_exposition (write_sample n ls v @ s) = Some (Sample n ls v) # parse_exposition s"
proof -
  have "newline \<notin> set (sample_line n ls v)"
    using assms write_labels_no_newline [OF assms(2)] by (auto simp: sample_line_def name_ok_def list_all_iff)
  moreover have "write_sample n ls v @ s = sample_line n ls v @ newline # s" by (simp add: write_sample_def sample_line_def)
  ultimately show ?thesis using parse_sample_line [OF assms(1,2)] by (simp add: parse_exposition_simps)
qed

lemma parse_write_header:
  assumes "name_ok n" and "newline \<notin> set ty"
  shows "parse_exposition (write_header n h ty @ s) = Some (Help n h) # Some (Type n ty) # parse_exposition s"
proof -
  have n: "list_all (\<lambda>c. c \<noteq> CHR '' '') n" "newline \<notin> set n" using assms(1) by (auto simp: name_ok_def list_all_iff)
  define l where "l = ''# HELP '' @ n @ '' '' @ escape_help h"
  define t where "t = ''# TYPE '' @ n @ '' '' @ ty"
  have "newline \<notin> set l" "newline \<notin> set t" using n assms(2) escape_help_no_newline by (auto simp: l_def t_def)
  then have "parse_exposition (l @ newline # t @ newline # s) = parse_line l # parse_line t # parse_exposition s"
    by (simp add: parse_exposition_simps)
  moreover have "write_header n h ty @ s = l @ newline # t @ newline # s"
    by (simp add: write_header_def escape_help_def l_def t_def)
  moreover have "parse_line l = Some (Help n h)" "parse_line t = Some (Type n ty)"
    using n by (simp_all add: l_def t_def parse_line_def parse_comment_def span_simps unescape_escape)
  ultimately show ?thesis by simp
qed
subsection \<open>What the exposition says\<close>

fun bucket_samples :: "(f64 \<Rightarrow> string) \<Rightarrow> metric_key \<Rightarrow> f64 list \<Rightarrow> nat \<Rightarrow> 64 word \<Rightarrow> 64 word list \<Rightarrow> item list" where
  "bucket_samples shw key bs i n [] = []"
| "bucket_samples shw key bs i n (b # ns) =
     Sample (fst key @ ''_bucket'') (bt_insert ''le'' (bound_text shw bs i) (snd key)) (u64_to_string (n + b)) #
     bucket_samples shw key bs (Suc i) (n + b) ns"

fun metric_samples :: "(f64 \<Rightarrow> string) \<Rightarrow> ('o \<Rightarrow> f64) \<Rightarrow> 'o metrics \<Rightarrow> metric_key \<Rightarrow> 'o metric \<Rightarrow> item list" where
  "metric_samples shw ob m key (Counter _ c _ _) = [Sample (fst key) (snd key) (i64_to_string (ints m ! c))]"
| "metric_samples shw ob m key (Gauge _ c _ _) = [Sample (fst key) (snd key) (i64_to_string (ints m ! c))]"
| "metric_samples shw ob m key (Histogram _ c _ _) =
     bucket_samples shw key (bounds (histograms m ! c)) 0 0 (buckets (histograms m ! c)) @
     [Sample (fst key @ ''_sum'') (snd key) (shw (hsum (histograms m ! c))),
      Sample (fst key @ ''_count'') (snd key) (u64_to_string (observations (histograms m ! c)))]"
| "metric_samples shw ob m key (ObservableGauge _ f _) = [Sample (fst key) (snd key) (shw (ob f))]"

fun is_sample :: "item \<Rightarrow> bool" where
  "is_sample (Sample _ _ _) = True"
| "is_sample _ = False"

fun family_items :: "(f64 \<Rightarrow> string) \<Rightarrow> ('o \<Rightarrow> f64) \<Rightarrow> 'o metrics \<Rightarrow> string list \<Rightarrow> (metric_key \<times> 'o metric) list \<Rightarrow> item list" where
  "family_items shw ob m fs [] = []"
| "family_items shw ob m fs ((key, e) # r) =
     (if fst key \<in> set fs then []
      else [Help (fst key) (snd (family e)), Type (fst key) (kind_text (fst (family e)))]) @
     metric_samples shw ob m key e @ family_items shw ob m (List.insert (fst key) fs) r"

lemma decimal_no_newline: "newline \<notin> set (to_decimal n)"
  using decimal_chars [of newline n] by auto

lemma number_no_newline: "newline \<notin> set (u64_to_string w)" "newline \<notin> set (i64_to_string w)"
  by (auto simp: u64_to_string_def i64_to_string_def int_to_string_def decimal_no_newline)

lemma kind_no_newline: "newline \<notin> set (kind_text k)"
  by (cases k) auto

lemma le_labels_ok: "labels_ok ls \<Longrightarrow> labels_ok (bt_insert ''le'' v ls)"
proof -
  have "set (bt_insert k v ls) \<subseteq> insert (k, v) (set ls)" for k
    by (induction k v ls rule: bt_insert.induct) auto
  moreover assume "labels_ok ls"
  ultimately show ?thesis by (fastforce simp: labels_ok_def label_ok_def list_all_iff)
qed

lemma suffix_name_ok: "name_ok n \<Longrightarrow> name_ok (n @ ''_bucket'')" "name_ok n \<Longrightarrow> name_ok (n @ ''_sum'')" "name_ok n \<Longrightarrow> name_ok (n @ ''_count'')"
  by (simp_all add: name_ok_def)

lemma parse_buckets:
  assumes "name_ok (fst key)" and "labels_ok (snd key)"
  shows "parse_exposition (render_buckets shw key bs i n ns @ s) = map Some (bucket_samples shw key bs i n ns) @ parse_exposition s"
  using assms by (induction ns arbitrary: i n) (simp_all add: parse_write_sample suffix_name_ok le_labels_ok number_no_newline)

lemma parse_metric:
  assumes "name_ok (fst key)" and "labels_ok (snd key)" and "\<And>x. newline \<notin> set (shw x)"
  shows "parse_exposition (render_metric shw ob m key e @ s) = map Some (metric_samples shw ob m key e) @ parse_exposition s"
  using assms by (cases e) (simp_all add: parse_write_sample suffix_name_ok number_no_newline parse_buckets)

lemma parse_entries:
  assumes "list_all (\<lambda>(k, e). name_ok (fst k) \<and> labels_ok (snd k)) r" and shw: "\<And>x. newline \<notin> set (shw x)"
  shows "parse_exposition (render_entries shw ob m fs r) = map Some (family_items shw ob m fs r)"
  using assms(1)
proof (induction r arbitrary: fs)
  case Nil
  then show ?case by (simp add: parse_exposition_simps)
next
  case (Cons a r)
  then show ?case by (cases a) (simp add: parse_metric parse_write_header kind_no_newline shw)
qed

lemma samples_only:
  "filter is_sample (bucket_samples shw key bs i n ns) = bucket_samples shw key bs i n ns"
  "filter is_sample (metric_samples shw ob m key e) = metric_samples shw ob m key e"
proof -
  show b: "filter is_sample (bucket_samples shw key bs i n ns) = bucket_samples shw key bs i n ns" for bs i n ns
    by (induction shw key bs i n ns rule: bucket_samples.induct) auto
  show "filter is_sample (metric_samples shw ob m key e) = metric_samples shw ob m key e"
    by (cases e) (simp_all add: b)
qed

lemma items_samples: "filter is_sample (family_items shw ob m fs r) = concat (map (\<lambda>(k, e). metric_samples shw ob m k e) r)"
  by (induction r arbitrary: fs) (auto simp: samples_only)

fun family_names :: "item list \<Rightarrow> string list" where
  "family_names (Help n h # its) = n # family_names its"
| "family_names (_ # its) = family_names its"
| "family_names [] = []"

lemma family_names_append [simp]: "family_names (xs @ ys) = family_names xs @ family_names ys"
  by (induction xs rule: family_names.induct) auto

lemma family_names_samples: "filter is_sample xs = xs \<Longrightarrow> family_names xs = []"
  by (induction xs rule: family_names.induct) (auto simp: filter_eq_Cons_iff dest: sym split: if_splits)

lemma items_names:
  "distinct (family_names (family_items shw ob m fs r)) \<and>
   set (family_names (family_items shw ob m fs r)) = (\<lambda>(k, e). fst k) ` set r - set fs"
proof (induction r arbitrary: fs)
  case (Cons a r)
  then show ?case by (cases a) (auto simp: family_names_samples samples_only)
qed simp

lemma not_sample: "\<not> is_sample x \<Longrightarrow> x \<notin> set (metric_samples shw ob m key e)"
  using samples_only(2) [of shw ob m key e] by (metis (mono_tags) mem_Collect_eq set_filter)

lemma items_headers:
  "x \<in> set (family_items shw ob m fs r) \<Longrightarrow> \<not> is_sample x \<Longrightarrow>
   \<exists>(k, e)\<in>set r. x = Help (fst k) (snd (family e)) \<or> x = Type (fst k) (kind_text (fst (family e)))"
proof (induction r arbitrary: fs)
  case (Cons a r)
  obtain k e where a: "a = (k, e)" by fastforce
  show ?case
  proof (cases "x \<in> set (family_items shw ob m (List.insert (fst k) fs) r)")
    case True
    then show ?thesis using Cons.IH [OF True Cons.prems(2)] by auto
  next
    case False
    then show ?thesis using Cons.prems not_sample [OF Cons.prems(2), of shw ob m k e] by (auto simp: a split: if_splits)
  qed
qed simp
subsection \<open>Histograms\<close>

definition sorted_bounds :: "f64 list \<Rightarrow> bool" where
  "sorted_bounds bs \<longleftrightarrow> sorted_wrt (\<lambda>a b. f64_value a \<le> f64_value b) bs \<and> list_all (\<lambda>b. \<not> f64_nan b) bs"

abbreviation bucket_index :: "f64 list \<Rightarrow> f64 \<Rightarrow> nat" where
  "bucket_index bs v \<equiv> length (takeWhile (\<lambda>b. f64_less b v) bs)"

lemma bucket_index_le:
  "sorted_bounds bs \<Longrightarrow> bucket_index bs v \<le> i \<longleftrightarrow> (i < length bs \<longrightarrow> \<not> f64_less (bs ! i) v)"
proof (induction bs arbitrary: i)
  case (Cons b bs)
  then have s: "sorted_bounds bs" "x \<in> set bs \<Longrightarrow> f64_value b \<le> f64_value x" "\<not> f64_nan b" for x
    by (auto simp: sorted_bounds_def)
  show ?case
  proof (cases i)
    case (Suc j)
    have "\<not> f64_less b v \<Longrightarrow> j < length bs \<Longrightarrow> \<not> f64_less (bs ! j) v"
      using s(2) [of "bs ! j"] s(3) by (auto simp: f64_less_def)
    then show ?thesis using Cons.IH [OF s(1), of j] Suc by auto
  qed simp
qed simp

lemma observe_prefix:
  assumes "length (buckets h) = Suc (length (bounds h))" and "i \<le> length (bounds h)"
  shows "sum_list (take (Suc i) (buckets (observe_value add v h))) =
    sum_list (take (Suc i) (buckets h)) + (if bucket_index (bounds h) v \<le> i then 1 else 0)"
proof -
  have k: "bucket_index (bounds h) v < length (buckets h)"
    using assms(1) length_takeWhile_le [of "\<lambda>b. f64_less b v" "bounds h"] by simp
  have "take (Suc i) ((buckets h)[k := y]) = (take (Suc i) (buckets h))[k := y]" for k y
    by (simp add: take_update_swap)
  moreover have "buckets h ! k = take (Suc i) (buckets h) ! k" if "k \<le> i" for k using that by simp
  ultimately show ?thesis
    using k assms sum_list_bump [of "bucket_index (bounds h) v" "take (Suc i) (buckets h)" 1]
    by (auto simp: observe_value_def Let_def list_update_beyond)
qed

lemma observe_frame [simp]:
  "bounds (observe_value add v h) = bounds h" "length (buckets (observe_value add v h)) = length (buckets h)"
  by (simp_all add: observe_value_def Let_def)

lemma observed_frame [simp]:
  "bounds (fold (observe_value add) vs h) = bounds h" "length (buckets (fold (observe_value add) vs h)) = length (buckets h)"
  "observations (fold (observe_value add) vs h) = observations h + of_nat (length vs)"
  "hsum (fold (observe_value add) vs h) = foldl add (hsum h) vs"
  by (induction vs arbitrary: h) (simp_all add: observe_value_def Let_def)

lemma observed_prefix:
  "length (buckets h) = Suc (length (bounds h)) \<Longrightarrow> i \<le> length (bounds h) \<Longrightarrow>
   sum_list (take (Suc i) (buckets (fold (observe_value add) vs h))) =
     sum_list (take (Suc i) (buckets h)) + of_nat (length (filter (\<lambda>v. bucket_index (bounds h) v \<le> i) vs))"
  by (induction vs arbitrary: h) (simp_all add: observe_prefix)

lemma bucket_samples_map:
  "bucket_samples shw key bs i n ns =
     map (\<lambda>j. Sample (fst key @ ''_bucket'') (bt_insert ''le'' (bound_text shw bs (i + j)) (snd key))
       (u64_to_string (n + sum_list (take (Suc j) ns)))) [0..<length ns]"
proof (induction ns arbitrary: i n)
  case (Cons b ns)
  have upt: "map f [0..<Suc l] = f 0 # map (\<lambda>j. f (Suc j)) [0..<l]" for f :: "nat \<Rightarrow> item" and l
    by (simp add: upt_conv_Cons map_Suc_upt [symmetric] comp_def del: upt_Suc)
  show ?case by (simp add: upt Cons.IH add.assoc del: upt_Suc)
qed simp

lemma observed_handle:
  "h = handle c i as \<Longrightarrow> c < length (histograms m) \<Longrightarrow>
   registry (fold (\<lambda>v. observe add v h) vs m) = registry m \<and>
   histograms (fold (\<lambda>v. observe add v h) vs m) ! c = fold (observe_value add) vs (histograms m ! c)"
  by (induction vs arbitrary: m) (simp_all add: observe_def handle_def)

text \<open>
  After any observations on a new histogram with increasing bounds, the bucket of a bound counts, modulo
  \<open>2^64\<close>, the observations that are not above the bound, the bucket \<open>+Inf\<close> and the count all of them.
\<close>

theorem histogram_buckets:
  assumes "\<not> noop m" and "map_of (registry m) (scope_key sc name ls) = None" and "sorted_bounds bs"
    and made: "histogram sc name desc ls (Some bs) m = (Inr h, m1)"
    and obs: "m2 = fold (\<lambda>v. observe add v h) vs m1"
  shows "\<exists>e. map_of (registry m2) (scope_key sc name ls) = Some e \<and>
    metric_samples shw ob m2 (scope_key sc name ls) e =
      map (\<lambda>i. Sample (fst (scope_key sc name ls) @ ''_bucket'') (bt_insert ''le'' (bound_text shw bs i) (snd (scope_key sc name ls)))
        (u64_to_string (of_nat (length (filter (\<lambda>v. i < length bs \<longrightarrow> \<not> f64_less (bs ! i) v) vs))))) [0..<Suc (length bs)] @
      [Sample (fst (scope_key sc name ls) @ ''_sum'') (snd (scope_key sc name ls)) (shw (foldl add 0 vs)),
       Sample (fst (scope_key sc name ls) @ ''_count'') (snd (scope_key sc name ls)) (u64_to_string (of_nat (length vs)))]"
proof -
  let ?k = "scope_key sc name ls" and ?c = "length (histograms m)" and ?h = "empty_histogram bs (Suc (length bs))"
  have m1: "h = handle ?c (instrument (fst ?k) m) (snd ?k)" "histograms m1 = histograms m @ [?h]"
      "map_of (registry m1) ?k = Some (Histogram desc ?c (instrument (fst ?k) m) (snd ?k))"
    using made assms(1,2) by (auto simp: histogram_def Let_def new_histogram_def lookup_metric_def handle_def split: sum.splits)
  have m2: "registry m2 = registry m1" "histograms m2 ! ?c = fold (observe_value add) vs ?h"
    using observed_handle [OF m1(1), of m1 add vs] m1(2) unfolding obs by simp_all
  have h: "bounds ?h = bs" "length (buckets ?h) = Suc (length bs)" "observations ?h = 0" "hsum ?h = 0" "sum_list (take j (buckets ?h)) = 0" for j
    by (simp_all add: empty_histogram_def sum_list_replicate del: replicate_Suc)
  have "sum_list (take (Suc i) (buckets (fold (observe_value add) vs ?h))) =
      of_nat (length (filter (\<lambda>v. i < length bs \<longrightarrow> \<not> f64_less (bs ! i) v) vs))" if "i < Suc (length bs)" for i
    using observed_prefix [of ?h i add vs] that by (simp add: h bucket_index_le [OF assms(3)])
  then show ?thesis
    using m1(3) by (simp add: m2 h bucket_samples_map cong: map_cong del: upt_Suc)
qed
theorem histogram_buckets_witness:
  "\<exists>e. map_of (registry (fold (\<lambda>v. observe (\<lambda>a b. b) v (handle 0 None [])) [0x3FF0000000000000, 0x4024000000000000]
      (snd (histogram (metrics_scope [] []) ''d'' ''h'' [] (Some [0x4014000000000000]) (metrics_new :: unit metrics))))) (''d'', []) = Some e \<and>
    metric_samples (\<lambda>_. ''x'') (\<lambda>_. 0)
      (fold (\<lambda>v. observe (\<lambda>a b. b) v (handle 0 None [])) [0x3FF0000000000000, 0x4024000000000000]
        (snd (histogram (metrics_scope [] []) ''d'' ''h'' [] (Some [0x4014000000000000]) (metrics_new :: unit metrics)))) (''d'', []) e =
      [Sample ''d_bucket'' [(''le'', ''x'')] ''1'', Sample ''d_bucket'' [(''le'', ''+Inf'')] ''2'',
       Sample ''d_sum'' [] ''x'', Sample ''d_count'' [] ''2'']"
proof -
  have made: "histogram (metrics_scope [] []) ''d'' ''h'' [] (Some [0x4014000000000000]) (metrics_new :: unit metrics) =
      (Inr (handle 0 None []), snd (histogram (metrics_scope [] []) ''d'' ''h'' [] (Some [0x4014000000000000]) metrics_new))"
    by (simp add: histogram_def metrics_new_def Let_def lookup_metric_def scope_key_def metrics_scope_def join_name_def
        new_histogram_def instrument_def handle_def)
  have key: "scope_key (metrics_scope [] []) ''d'' [] = (''d'', [])" by (simp add: scope_key_def metrics_scope_def join_name_def)
  have "sorted_bounds [0x4014000000000000]" by (simp add: sorted_bounds_def f64_nan_def f64_magnitude_def)
  moreover have less: "\<not> f64_less 0x4014000000000000 0x3FF0000000000000" "f64_less 0x4014000000000000 0x4024000000000000"
    by (simp_all add: f64_less_def f64_nan_def f64_value_def f64_magnitude_def)
  moreover have nums: "u64_to_string 1 = ''1''" "u64_to_string 2 = ''2''"
    by (simp_all add: u64_to_string_def to_decimal.simps char_of_def bit_simps)
  ultimately show ?thesis
    using histogram_buckets [OF _ _ _ made refl, of "\<lambda>a b. b" "[0x3FF0000000000000, 0x4024000000000000]" "\<lambda>_. ''x''" "\<lambda>_. 0"]
    by (simp add: metrics_new_def key bound_text_def nums cong: conj_cong)
qed

section \<open>Handles and exports\<close>

lemma registry_grows: "metrics_ok m \<Longrightarrow> metrics_step add a m = Some m' \<Longrightarrow> map_of (registry m) k = Some e \<Longrightarrow> map_of (registry m') k = Some e"
  by (cases a) (auto simp: counter_def gauge_def histogram_def observable_float64_gauge_def counter_add_def gauge_add_def gauge_set_def
      export_now_def observe_def export_later_def add_int_def new_int_def new_histogram_def lookup_metric_def Let_def handle_def
      split: option.splits metric.splits if_splits sum.splits)

lemma counter_entry:
  assumes "metrics_ok m" and "counter sc name desc ls m = (Inr h, m')"
  shows "\<exists>i as. map_of (registry m') (scope_key sc name ls) = Some (Counter desc (cell h) i as) \<and> h = handle (cell h) i as"
  using lookup_cases [OF assms(1), of "scope_key sc name ls" CounterKind desc] assms(2) metrics_okD(1) [OF assms(1)]
  by cases (auto simp: counter_def Let_def new_int_def handle_def family_kind)

lemma run_registry:
  assumes "metrics_ok m" and "run_steps (metrics_step add) as m = Some m'" and "map_of (registry m) k = Some e"
  shows "map_of (registry m') k = Some e"
  by (rule metrics_run.run_mono [where P = "\<lambda>m. map_of (registry m) k = Some e", OF _ assms(1,3,2)]) (rule registry_grows)

lemma reached_ok: "m0 = metrics_new \<or> m0 = with_meter \<Longrightarrow> run_steps (metrics_step add) as m0 = Some m \<Longrightarrow> metrics_ok m"
  using metrics_run.run_inv metrics_new_ok by blast

text \<open>
  Whatever threads do in between, two registrations of counters give handles on the same value exactly when the
  names and labels they ask for are the same; a registration that is refused changes nothing and is refused because
  a metric of that name has another kind or description.
\<close>

theorem counter_identity:
  assumes "m0 = metrics_new \<or> m0 = with_meter" and "run_steps (metrics_step add) before m0 = Some m1"
    and first: "counter sc name desc ls m1 = (Inr h, m2)" and between: "run_steps (metrics_step add) as m2 = Some m3"
    and second: "counter sc' name' desc' ls' m3 = (r, m4)"
  shows "(\<forall>h'. r = Inr h' \<longrightarrow> (cell h' = cell h \<longleftrightarrow> scope_key sc' name' ls' = scope_key sc name ls)) \<and>
    (\<forall>err. r = Inl err \<longrightarrow> m4 = m3 \<and> conflict (scope_key sc' name' ls') CounterKind desc' m3 err)"
proof -
  have ok1: "metrics_ok m1" using assms(1,2) by (rule reached_ok)
  have ok2: "metrics_ok m2" using counter_ok [OF ok1, of sc name desc ls] first by simp
  have ok3: "metrics_ok m3" using metrics_run.run_inv [OF ok2 between] .
  have ok4: "metrics_ok m4" using counter_ok [OF ok3, of sc' name' desc' ls'] second by simp
  obtain i as' where "map_of (registry m2) (scope_key sc name ls) = Some (Counter desc (cell h) i as')"
    using counter_entry [OF ok1 first] by blast
  then have a3: "map_of (registry m3) (scope_key sc name ls) = Some (Counter desc (cell h) i as')"
    using run_registry [OF ok2 between] by blast
  then have a: "map_of (registry m4) (scope_key sc name ls) = Some (Counter desc (cell h) i as')"
    using registry_grows [OF ok3, of add "MakeCounter sc' name' desc' ls'" m4] second by simp
  have "cell h' = cell h \<longleftrightarrow> scope_key sc' name' ls' = scope_key sc name ls" if r: "r = Inr h'" for h'
  proof -
    obtain i' as'' where "map_of (registry m4) (scope_key sc' name' ls') = Some (Counter desc' (cell h') i' as'')"
      using counter_entry [OF ok3 second [unfolded r]] by blast
    then show ?thesis using a metrics_okD(4) [OF ok4] unfolding cells_ok_def
      by (metis int_cell.simps(1) metric.inject(1) option.inject)
  qed
  moreover have "m4 = m3 \<and> conflict (scope_key sc' name' ls') CounterKind desc' m3 err" if "r = Inl err" for err
    using lookup_cases [OF ok3, of "scope_key sc' name' ls'" CounterKind desc'] second that metrics_okD(1) [OF ok3]
    by cases (auto simp: counter_def Let_def new_int_def family_kind)
  ultimately show ?thesis by blast
qed

lemma meter_kept: "metrics_step add a m = Some m' \<Longrightarrow> meter m' = meter m"
  by (cases a) (auto simp: counter_def gauge_def histogram_def observable_float64_gauge_def counter_add_def gauge_add_def gauge_set_def
      export_now_def observe_def export_later_def add_int_def new_int_def new_histogram_def Let_def handle_def
      split: option.splits metric.splits if_splits sum.splits)

text \<open>
  C27. With a meter, whenever no thread is between writing a gauge and adding to its instrument, what the instrument
  has added up is the value of the gauge, however additions and settings of any threads are interleaved.
\<close>

theorem gauge_exports:
  assumes "run_steps (metrics_step add) as with_meter = Some m" and "exporting m = []"
    and "map_of (registry m) key = Some (Gauge desc c i ls)"
  shows "gauge_sum key (exported m) = ints m ! c"
proof -
  have ok: "metrics_ok m" by (rule reached_ok [OF _ assms(1)]) simp
  have "meter m"
    using metrics_run.run_keeps [where f = meter, OF meter_kept metrics_new_ok(2) assms(1)]
    by (simp add: with_meter_def metrics_new_def)
  then show ?thesis using exports_okD [OF metrics_okD(6) [OF ok], of key] assms(2,3) by (simp add: gauge_local_def)
qed
definition demo_metrics :: "unit metrics_action list" where
  "demo_metrics =
     [MakeGauge (metrics_scope ''pool'' []) ''size'' ''h'' [], GaugeAdd (''pool_size'', []) 3, GaugeSet (''pool_size'', []) 1,
      Export 1, GaugeAdd (''pool_size'', []) 4, Export 0, Export 0]"

lemma demo_metrics_run:
  "run_steps (metrics_step (\<lambda>a b. b)) demo_metrics with_meter =
     Some (with_meter\<lparr>registry := [((''pool_size'', []), Gauge ''h'' 0 (Some ''pool_size'') [])], ints := [5],
       exported := [OtelGauge ''pool_size'' [] (- 2), OtelGauge ''pool_size'' [] 3, OtelGauge ''pool_size'' [] 4]\<rparr>)"
  by (simp add: demo_metrics_def with_meter_def metrics_new_def gauge_def Let_def lookup_metric_def scope_key_def metrics_scope_def
      join_name_def new_int_def instrument_def register_def handle_def gauge_add_def gauge_set_def add_int_def export_later_def export_now_def)

theorem gauge_exports_witness:
  "gauge_sum (''pool_size'', []) [OtelGauge ''pool_size'' [] (- 2), OtelGauge ''pool_size'' [] 3, OtelGauge ''pool_size'' [] 4] = 5"
  using gauge_exports [OF demo_metrics_run, of "(''pool_size'', [])" "''h''" 0 "Some ''pool_size''" "[]"]
  by (simp add: with_meter_def metrics_new_def)

theorem counter_identity_witness:
  "\<exists>h m2 m3 m4. counter (metrics_scope ''a'' []) ''b'' ''x'' [] (metrics_new :: unit metrics) = (Inr h, m2) \<and>
     run_steps (metrics_step (\<lambda>a b. b)) [MakeGauge (metrics_scope [] []) ''g'' ''y'' [], CounterAdd (''a_b'', []) 1] m2 = Some m3 \<and>
     counter (metrics_scope [] []) ''g'' ''y'' [] m3 = (Inl (TypeConflict ''g''), m4) \<and> m4 = m3 \<and>
     conflict (''g'', []) CounterKind ''y'' m3 (TypeConflict ''g'')"
proof -
  let ?m1 = "metrics_new :: unit metrics"
  let ?h = "handle 0 None []"
  define m2 where "m2 = snd (counter (metrics_scope ''a'' []) ''b'' ''x'' [] ?m1)"
  define m3 where "m3 = the (run_steps (metrics_step (\<lambda>a b. b)) [MakeGauge (metrics_scope [] []) ''g'' ''y'' [], CounterAdd (''a_b'', []) 1] m2)"
  note defs = metrics_new_def counter_def gauge_def Let_def lookup_metric_def scope_key_def metrics_scope_def join_name_def
      new_int_def instrument_def register_def handle_def counter_add_def add_int_def
  have first: "counter (metrics_scope ''a'' []) ''b'' ''x'' [] ?m1 = (Inr ?h, m2)" by (simp add: m2_def defs)
  have m2: "m2 = ?m1\<lparr>registry := [((''a_b'', []), Counter ''x'' 0 None [])], ints := [0]\<rparr>" by (simp add: m2_def defs)
  have between: "run_steps (metrics_step (\<lambda>a b. b)) [MakeGauge (metrics_scope [] []) ''g'' ''y'' [], CounterAdd (''a_b'', []) 1] m2 = Some m3"
    unfolding m3_def m2 by (simp add: defs)
  have m3: "m3 = ?m1\<lparr>registry := [((''a_b'', []), Counter ''x'' 0 None []), ((''g'', []), Gauge ''y'' 1 None [])], ints := [1, 0]\<rparr>"
    using between unfolding m2 by (simp add: defs)
  have second: "counter (metrics_scope [] []) ''g'' ''y'' [] m3 = (Inl (TypeConflict ''g''), m3)"
    unfolding m3 by (simp add: defs)
  have "run_steps (metrics_step (\<lambda>a b. b)) [] ?m1 = Some ?m1" by simp
  then have "conflict (scope_key (metrics_scope [] []) ''g'' []) CounterKind ''y'' m3 (TypeConflict ''g'')"
    using counter_identity [OF _ _ first between second, of ?m1 "[]"] by simp
  then show ?thesis using first between second by (auto simp: scope_key_def metrics_scope_def join_name_def)
qed

section \<open>The text\<close>

lemma families_sub: "families_ok r \<Longrightarrow> set r' \<subseteq> set r \<Longrightarrow> families_ok r'"
  unfolding families_ok_def by (meson subsetD)

lemma items_header_in:
  "families_ok r \<Longrightarrow> (k, e) \<in> set r \<Longrightarrow> fst k \<notin> set fs \<Longrightarrow>
   Help (fst k) (snd (family e)) \<in> set (family_items shw ob m fs r) \<and> Type (fst k) (kind_text (fst (family e))) \<in> set (family_items shw ob m fs r)"
proof (induction r arbitrary: fs)
  case (Cons a r)
  obtain k' e' where a: "a = (k', e')" by fastforce
  show ?case
  proof (cases "fst k' = fst k")
    case True
    then have "family e' = family e" using family_eq [OF Cons.prems(1), of k' e' k e] Cons.prems(2) by (simp add: a)
    then show ?thesis using True Cons.prems(3) by (simp add: a)
  next
    case False
    have "families_ok r" using families_sub [OF Cons.prems(1)] by auto
    moreover have "(k, e) \<in> set r" using Cons.prems(2) False by (auto simp: a)
    moreover have "fst k \<notin> set (List.insert (fst k') fs)" using Cons.prems(3) False by simp
    ultimately show ?thesis unfolding a family_items.simps set_append by (blast dest: Cons.IH)
  qed
qed simp

text \<open>
  C26. Read back, the exposition is exactly the registry: one help and one type line for every family, with the
  description and kind of all its metrics, and after it the samples of the metrics in the order of the registry, with
  names, labels and values as they are, whatever characters label values and descriptions contain.
\<close>

theorem exposition_reads_back:
  assumes "m0 = metrics_new \<or> m0 = with_meter" and "run_steps (metrics_step add) as m0 = Some m"
    and names: "list_all (\<lambda>(k, e). name_ok (fst k) \<and> labels_ok (snd k)) (registry m)" and shw: "\<And>x. newline \<notin> set (shw x)"
  shows "\<exists>its. parse_exposition (render_prometheus shw ob m) = map Some its \<and>
    filter is_sample its = concat (map (\<lambda>(k, e). metric_samples shw ob m k e) (registry m)) \<and>
    distinct (family_names its) \<and> set (family_names its) = (\<lambda>(k, e). fst k) ` set (registry m) \<and>
    (\<forall>(k, e)\<in>set (registry m).
       Help (fst k) (snd (family e)) \<in> set its \<and> Type (fst k) (kind_text (fst (family e))) \<in> set its)"
proof -
  have ok: "metrics_ok m" using assms(1,2) by (rule reached_ok)
  let ?its = "family_items shw ob m [] (registry m)"
  have "parse_exposition (render_prometheus shw ob m) = map Some ?its"
    using parse_entries [OF names shw] metrics_okD(1) [OF ok] by (simp add: render_prometheus_def)
  moreover have "distinct (family_names ?its)" "set (family_names ?its) = (\<lambda>(k, e). fst k) ` set (registry m)"
    using items_names [of shw ob m "[]" "registry m"] by auto
  ultimately show ?thesis
    using items_samples [of shw ob m "[]" "registry m"] items_header_in [OF metrics_okD(3) [OF ok], where fs = "[]"]
    by (intro exI [of _ ?its]) auto
qed

theorem exposition_reads_back_witness:
  "\<exists>its. parse_exposition (render_prometheus (\<lambda>_. ''1.5'') (\<lambda>_. 0)
       (with_meter\<lparr>registry := [((''pool_size'', []), Gauge ''h'' 0 (Some ''pool_size'') [])], ints := [5],
         exported := [OtelGauge ''pool_size'' [] (- 2), OtelGauge ''pool_size'' [] 3, OtelGauge ''pool_size'' [] 4]\<rparr> :: unit metrics)) =
       map Some its \<and> Help ''pool_size'' ''h'' \<in> set its \<and> filter is_sample its = [Sample ''pool_size'' [] ''5'']"
proof -
  let ?m = "with_meter\<lparr>registry := [((''pool_size'', []), Gauge ''h'' 0 (Some ''pool_size'') [])], ints := [5],
         exported := [OtelGauge ''pool_size'' [] (- 2), OtelGauge ''pool_size'' [] 3, OtelGauge ''pool_size'' [] 4]\<rparr> :: unit metrics"
  have "list_all (\<lambda>(k, e). name_ok (fst k) \<and> labels_ok (snd k)) (registry ?m)"
    by (simp add: name_ok_def labels_ok_def)
  moreover have "i64_to_string 5 = ''5''"
    by (simp add: i64_to_string_def int_to_string_def to_decimal.simps char_of_def bit_simps)
  ultimately show ?thesis
    using exposition_reads_back [OF _ demo_metrics_run, of "\<lambda>_. ''1.5''" "\<lambda>_. 0"]
    by (simp add: with_meter_def metrics_new_def) blast
qed

section \<open>The sampler of the async runtime\<close>

text \<open>
  \<open>TokioRuntimeMetrics\<close>: ten observable gauges, registered once, and a task that takes a snapshot every second
  from \<open>start\<close> to \<open>stop\<close>. The closure of a gauge is its position in the list; a task is the number of tasks
  started before it.
\<close>

record tokio_metrics =
  registered :: bool
  sampler :: "nat option"
  samplers :: nat
  cancelled_samplers :: "nat list"

definition tokio_new :: tokio_metrics where
  "tokio_new = \<lparr>registered = False, sampler = None, samplers = 0, cancelled_samplers = []\<rparr>"

definition tokio_gauges :: "(string \<times> string) list" where
  "tokio_gauges =
     [(''tokio_workers_count'', ''Number of Tokio runtime worker threads''),
      (''tokio_live_tasks_count'', ''Number of live Tokio tasks''),
      (''tokio_total_park_count'', ''Worker parks observed in the latest Tokio sampling interval''),
      (''tokio_max_park_count'', ''Maximum worker parks in the latest Tokio sampling interval''),
      (''tokio_min_park_count'', ''Minimum worker parks in the latest Tokio sampling interval''),
      (''tokio_total_busy_duration_seconds'', ''Total worker busy duration in the latest Tokio sampling interval''),
      (''tokio_max_busy_duration_seconds'', ''Maximum worker busy duration in the latest Tokio sampling interval''),
      (''tokio_min_busy_duration_seconds'', ''Minimum worker busy duration in the latest Tokio sampling interval''),
      (''tokio_global_queue_depth'', ''Tasks currently scheduled in the Tokio global queue''),
      (''tokio_busy_ratio'', ''Ratio of worker busy duration to elapsed sampling time'')]"

fun register_gauges :: "nat \<Rightarrow> (string \<times> string) list \<Rightarrow> nat metrics \<Rightarrow> (metrics_error + unit) \<times> nat metrics" where
  "register_gauges i [] m = (Inr (), m)"
| "register_gauges i ((name, help) # gs) m =
     (case observable_float64_gauge (metrics_scope [] []) name help [] i m of
        (Inl e, m') \<Rightarrow> (Inl e, m')
      | (Inr _, m') \<Rightarrow> register_gauges (Suc i) gs m')"

definition tokio_start :: "nat metrics \<Rightarrow> tokio_metrics \<Rightarrow> (metrics_error + unit) \<times> nat metrics \<times> tokio_metrics" where
  "tokio_start m t =
     (if noop m then (Inr (), m, t)
      else if sampler t \<noteq> None then (Inr (), m, t)
      else
        let (r, m') = (if registered t then (Inr (), m) else register_gauges 0 tokio_gauges m)
        in case r of
             Inl e \<Rightarrow> (Inl e, m', t)
           | Inr _ \<Rightarrow> (Inr (), m', t\<lparr>registered := True, sampler := Some (samplers t), samplers := Suc (samplers t)\<rparr>))"

definition tokio_stop :: "tokio_metrics \<Rightarrow> tokio_metrics" where
  "tokio_stop t =
     (case sampler t of
        None \<Rightarrow> t
      | Some k \<Rightarrow> t\<lparr>sampler := None, cancelled_samplers := k # cancelled_samplers t\<rparr>)"

lemma register_gauges_noop: "noop (snd (register_gauges i gs m)) = noop m"
  by (induction i gs m rule: register_gauges.induct)
    (auto simp: observable_float64_gauge_def Let_def split: prod.splits sum.splits option.splits metric.splits if_splits)

text \<open>A restart registers nothing again and runs a new sampler; the one before it was cancelled.\<close>

lemma tokio_restart:
  assumes "tokio_start m t = (Inr (), m', t')" and "\<not> noop m" and "sampler t = None"
  shows "\<exists>t''. tokio_start m' (tokio_stop t') = (Inr (), m', t'') \<and> sampler t'' = Some (Suc (samplers t)) \<and>
    samplers t \<in> set (cancelled_samplers t'')"
  using assms register_gauges_noop [of 0 tokio_gauges m] by (auto simp: tokio_start_def tokio_stop_def Let_def split: prod.splits sum.splits if_splits)

end
