(* ===== verification/Config_Loader.thy ===== *)
theory Config_Loader
  imports Runtime_Config Step_Systems
begin

text \<open>
  The configuration loader, \<open>src/runtime/config/loader.rs\<close>: the merge of the defaults with the base and the override
  file, the snapshot that is built from the merged value, reloading, and the task that watches the override file.

  A value of \<open>serde_yaml\<close> is a mapping, whose entries keep the order of insertion, or anything else: the merge only
  tells these two apart. Keys are of a type \<open>'k\<close>, other values of a type \<open>'s\<close>. The methods of the application's
  \<open>Config\<close> type are the record \<open>app_config\<close>; the file system, the path functions of the standard library and the
  file watcher answer through arguments and actions.
\<close>

section \<open>Merging\<close>

datatype ('k, 's) yaml = Mapping "('k \<times> ('k, 's) yaml) list" | Plain 's

function (sequential) merge_yaml :: "('k, 's) yaml \<Rightarrow> ('k, 's) yaml \<Rightarrow> ('k, 's) yaml"
  and merge_entries :: "('k \<times> ('k, 's) yaml) list \<Rightarrow> ('k \<times> ('k, 's) yaml) list \<Rightarrow> ('k \<times> ('k, 's) yaml) list" where
  "merge_yaml (Mapping base) (Mapping over) = Mapping (merge_entries base over)"
| "merge_yaml base over = over"
| "merge_entries base [] = base"
| "merge_entries base ((key, value) # over) =
     merge_entries
       (case map_of base key of
          Some base_value \<Rightarrow> hm_insert key (merge_yaml base_value value) base
        | None \<Rightarrow> hm_insert key value base)
       over"
  by pat_completeness auto
termination
  by (relation "measure (case_sum (\<lambda>(_, over). size over) (\<lambda>(_, over). size_list (size_prod (\<lambda>_. 0) size) over))") auto

section \<open>Snapshots\<close>

record ('k, 's, 'c) app_config =
  to_value :: "'c \<Rightarrow> string + ('k, 's) yaml"
  from_value :: "('k, 's) yaml \<Rightarrow> string + 'c"
  apply_environment :: "'c \<Rightarrow> string + 'c"
  validate_config :: "'c \<Rightarrow> string + unit"
  semantics_of :: "'c \<Rightarrow> call_semantics"
  services_of :: "'c \<Rightarrow> service_config list"
  streams_of :: "'c \<Rightarrow> runtime_stream_config list"
  pools_of :: "'c \<Rightarrow> pool_config list"
  connectors_of :: "'c \<Rightarrow> data_connector list"
  endpoints_of :: "'c \<Rightarrow> endpoint list"
  links_of :: "'c \<Rightarrow> link_config list"
  modules_of :: "'c \<Rightarrow> module_config list"
  types_of :: "'c \<Rightarrow> type_config list"

definition invalid :: "string + 'a \<Rightarrow> 'a runtime_result" where
  "invalid r = (case r of Inl e \<Rightarrow> Inl (InvalidConfiguration e) | Inr a \<Rightarrow> Inr a)"

definition merge_file ::
  "('p \<Rightarrow> string + ('k, 's) yaml) \<Rightarrow> 'p option \<Rightarrow> ('k, 's) yaml \<Rightarrow> ('k, 's) yaml runtime_result" where
  "merge_file read_yaml path value =
     (case path of
        None \<Rightarrow> Inr value
      | Some p \<Rightarrow> bind_rt (invalid (read_yaml p)) (\<lambda>v. Inr (merge_yaml value v)))"

definition load_snapshot ::
  "('k, 's, 'c) app_config \<Rightarrow> ('p \<Rightarrow> string + ('k, 's) yaml) \<Rightarrow> 'p option \<Rightarrow> 'p option \<Rightarrow> 'c \<Rightarrow> 'c runtime_result" where
  "load_snapshot app read_yaml base_path override_path defaults =
     bind_rt (invalid (to_value app defaults)) (\<lambda>v0.
     bind_rt (merge_file read_yaml base_path v0) (\<lambda>v1.
     bind_rt (merge_file read_yaml override_path v1) (\<lambda>v2.
     bind_rt (invalid (from_value app v2)) (\<lambda>c0.
     bind_rt (invalid (apply_environment app c0)) (\<lambda>c.
     bind_rt (invalid (validate_config app c)) (\<lambda>_. Inr c))))))"

definition runtime_of :: "('k, 's, 'c) app_config \<Rightarrow> 'c \<Rightarrow> runtime_config runtime_result" where
  "runtime_of app c =
     config_new (semantics_of app c) (services_of app c) (streams_of app c) (pools_of app c) (connectors_of app c)
       (endpoints_of app c) (links_of app c) (modules_of app c) (types_of app c)"

section \<open>The loader\<close>

text \<open>
  A reload runs in the thread that called it: it reads the files and builds both snapshots, calls the handler that is
  set at that moment, stores the one snapshot and then the other, and counts its outcome.
\<close>

datatype 'c reload =
    Reading
  | Calling 'c runtime_config
  | Storing 'c runtime_config
  | StoringRuntime 'c runtime_config
  | Counting "'c runtime_result"
  | Returned "'c runtime_result"

record ('p, 'c) loader =
  base_path :: "'p option"
  override_path :: "'p option"
  defaults :: 'c
  current_config :: 'c
  current_runtime :: runtime_config
  handler_set :: bool
  reload_success :: nat
  reload_error :: nat
  reloads :: "'c reload list"

definition loader_load ::
  "('k, 's, 'c) app_config \<Rightarrow> ('p \<Rightarrow> string + ('k, 's) yaml) \<Rightarrow> 'p option \<Rightarrow> 'p option \<Rightarrow> 'c \<Rightarrow> ('p, 'c) loader runtime_result" where
  "loader_load app read_yaml bp op ds =
     bind_rt (load_snapshot app read_yaml bp op ds) (\<lambda>initial.
     bind_rt (runtime_of app initial) (\<lambda>rc.
     Inr \<lparr>base_path = bp, override_path = op, defaults = ds, current_config = initial, current_runtime = rc,
          handler_set = False, reload_success = 0, reload_error = 0, reloads = []\<rparr>))"

definition set_reload :: "nat \<Rightarrow> 'c reload \<Rightarrow> ('p, 'c) loader \<Rightarrow> ('p, 'c) loader" where
  "set_reload n r s = s\<lparr>reloads := (reloads s)[n := r]\<rparr>"

definition reload_candidate ::
  "('k, 's, 'c) app_config \<Rightarrow> ('p \<Rightarrow> string + ('k, 's) yaml) \<Rightarrow> ('p, 'c) loader \<Rightarrow> ('c \<times> runtime_config) runtime_result" where
  "reload_candidate app read_yaml s =
     bind_rt (load_snapshot app read_yaml (base_path s) (override_path s) (defaults s)) (\<lambda>c.
     bind_rt (runtime_of app c) (\<lambda>rc. Inr (c, rc)))"

definition reload_read ::
  "('k, 's, 'c) app_config \<Rightarrow> ('p \<Rightarrow> string + ('k, 's) yaml) \<Rightarrow> nat \<Rightarrow> ('p, 'c) loader \<Rightarrow> ('p, 'c) loader" where
  "reload_read app read_yaml n s =
     (case reload_candidate app read_yaml s of
        Inl e \<Rightarrow> set_reload n (Counting (Inl e)) s
      | Inr (c, rc) \<Rightarrow> set_reload n (if handler_set s then Calling c rc else Storing c rc) s)"

definition reload_count :: "'c runtime_result \<Rightarrow> ('p, 'c) loader \<Rightarrow> ('p, 'c) loader" where
  "reload_count r s =
     (case r of
        Inr _ \<Rightarrow> s\<lparr>reload_success := Suc (reload_success s)\<rparr>
      | Inl _ \<Rightarrow> s\<lparr>reload_error := Suc (reload_error s)\<rparr>)"

datatype ('p, 'k, 's) loader_action =
    SetHandler
  | CallReload
  | Read nat "'p \<Rightarrow> string + ('k, 's) yaml"
  | HandlerReturns nat "string option"
  | StoreConfig nat
  | StoreRuntime nat
  | CountReload nat

fun loader_step :: "('k, 's, 'c) app_config \<Rightarrow> ('p, 'k, 's) loader_action \<Rightarrow> ('p, 'c) loader \<Rightarrow> ('p, 'c) loader option" where
  "loader_step app SetHandler s = Some (s\<lparr>handler_set := True\<rparr>)"
| "loader_step app CallReload s = Some (s\<lparr>reloads := reloads s @ [Reading]\<rparr>)"
| "loader_step app (Read n read_yaml) s =
     (if n < length (reloads s) then (case reloads s ! n of Reading \<Rightarrow> Some (reload_read app read_yaml n s) | _ \<Rightarrow> None) else None)"
| "loader_step app (HandlerReturns n result) s =
     (if n < length (reloads s) then
        (case reloads s ! n of
           Calling c rc \<Rightarrow>
             (case result of
                None \<Rightarrow> Some (set_reload n (Storing c rc) s)
              | Some e \<Rightarrow> Some (set_reload n (Counting (Inl (InvalidConfiguration e))) s))
         | _ \<Rightarrow> None)
      else None)"
| "loader_step app (StoreConfig n) s =
     (if n < length (reloads s) then
        (case reloads s ! n of
           Storing c rc \<Rightarrow> Some ((set_reload n (StoringRuntime c rc) s)\<lparr>current_config := c\<rparr>)
         | _ \<Rightarrow> None)
      else None)"
| "loader_step app (StoreRuntime n) s =
     (if n < length (reloads s) then
        (case reloads s ! n of
           StoringRuntime c rc \<Rightarrow> Some ((set_reload n (Counting (Inr c)) s)\<lparr>current_runtime := rc\<rparr>)
         | _ \<Rightarrow> None)
      else None)"
| "loader_step app (CountReload n) s =
     (if n < length (reloads s) then
        (case reloads s ! n of
           Counting r \<Rightarrow> Some (reload_count r (set_reload n (Returned r) s))
         | _ \<Rightarrow> None)
      else None)"

section \<open>Watching the override file\<close>

datatype event_kind = CreateEvent | ModifyEvent | RemoveEvent | OtherEvent

record 'p file_event =
  event_kind :: event_kind
  event_paths :: "'p list"

definition is_relevant_event ::
  "('p \<Rightarrow> 'p) \<Rightarrow> ('p \<Rightarrow> 'p option) \<Rightarrow> 'p option \<Rightarrow> 'p file_event \<Rightarrow> 'p option \<Rightarrow> bool \<times> 'p option" where
  "is_relevant_event clean_path canonicalize override event watched_target =
     (if event_kind event = OtherEvent then (False, watched_target)
      else case override of
        None \<Rightarrow> (False, watched_target)
      | Some path \<Rightarrow>
          let configured = clean_path path;
              current_target = canonicalize configured;
              target_changed = (current_target \<noteq> watched_target)
          in (target_changed \<or>
                list_ex (\<lambda>p. clean_path p = configured \<or> current_target = Some (clean_path p)) (event_paths event),
              if target_changed then current_target else watched_target))"

text \<open>
  The watch task: \<open>start\<close> creates it with a new cancellation token, it handles one event after the other and calls
  \<open>reload\<close> for the relevant ones; \<open>stop\<close> cancels the token, drops the watcher and waits for the task. A second
  \<open>start\<close> without \<open>stop\<close> is not modelled.
\<close>

datatype watch_task = NoTask | Watching | InReload nat | Ended

record ('p, 'c) watch =
  the_loader :: "('p, 'c) loader"
  watched :: "'p option"
  watcher_on :: bool
  token_cancelled :: bool
  task :: watch_task
  queued_events :: "(unit + 'p file_event) list"

definition watch_start :: "('p \<Rightarrow> 'p option) \<Rightarrow> ('p, 'c) watch \<Rightarrow> ('p, 'c) watch" where
  "watch_start canonicalize w =
     (case override_path (the_loader w) of
        None \<Rightarrow> w
      | Some path \<Rightarrow>
          w\<lparr>watched := canonicalize path, token_cancelled := False, task := Watching, watcher_on := True, queued_events := []\<rparr>)"

definition watch_stop :: "('p, 'c) watch \<Rightarrow> ('p, 'c) watch" where
  "watch_stop w = w\<lparr>token_cancelled := True, watcher_on := False\<rparr>"

definition watch_take :: "('p \<Rightarrow> 'p) \<Rightarrow> ('p \<Rightarrow> 'p option) \<Rightarrow> ('p, 'c) watch \<Rightarrow> ('p, 'c) watch option" where
  "watch_take clean_path canonicalize w =
     (case (task w, queued_events w) of
        (Watching, Inr event # rest) \<Rightarrow>
          (case is_relevant_event clean_path canonicalize (override_path (the_loader w)) event (watched w) of
             (False, t) \<Rightarrow> Some (w\<lparr>watched := t, queued_events := rest\<rparr>)
           | (True, t) \<Rightarrow>
               Some (w\<lparr>watched := t, queued_events := rest, task := InReload (length (reloads (the_loader w))),
                      the_loader := (the_loader w)\<lparr>reloads := reloads (the_loader w) @ [Reading]\<rparr>\<rparr>))
      | (Watching, Inl _ # rest) \<Rightarrow> Some (w\<lparr>queued_events := rest\<rparr>)
      | _ \<Rightarrow> None)"

datatype ('p, 'k, 's) watch_action =
    FileEvent "unit + 'p file_event"
  | TakeEvent
  | ReloadOver
  | SeeCancelled
  | SeeClosed
  | StopWatch
  | Loader "('p, 'k, 's) loader_action"

fun watch_step ::
  "('p \<Rightarrow> 'p) \<Rightarrow> ('p \<Rightarrow> 'p option) \<Rightarrow> ('k, 's, 'c) app_config \<Rightarrow> ('p, 'k, 's) watch_action \<Rightarrow> ('p, 'c) watch \<Rightarrow> ('p, 'c) watch option" where
  "watch_step clean_path canonicalize app (FileEvent e) w =
     (if watcher_on w then Some (w\<lparr>queued_events := queued_events w @ [e]\<rparr>) else None)"
| "watch_step clean_path canonicalize app TakeEvent w = watch_take clean_path canonicalize w"
| "watch_step clean_path canonicalize app ReloadOver w =
     (case task w of
        InReload n \<Rightarrow>
          (case reloads (the_loader w) ! n of Returned _ \<Rightarrow> Some (w\<lparr>task := Watching\<rparr>) | _ \<Rightarrow> None)
      | _ \<Rightarrow> None)"
| "watch_step clean_path canonicalize app SeeCancelled w =
     (if task w = Watching \<and> token_cancelled w then Some (w\<lparr>task := Ended\<rparr>) else None)"
| "watch_step clean_path canonicalize app SeeClosed w =
     (if task w = Watching \<and> \<not> watcher_on w \<and> queued_events w = [] then Some (w\<lparr>task := Ended\<rparr>) else None)"
| "watch_step clean_path canonicalize app StopWatch w = Some (watch_stop w)"
| "watch_step clean_path canonicalize app (Loader a) w =
     map_option (\<lambda>s. w\<lparr>the_loader := s\<rparr>) (loader_step app a (the_loader w))"

section \<open>Precedence\<close>

fun yaml_wf :: "('k, 's) yaml \<Rightarrow> bool"
  and entries_wf :: "('k \<times> ('k, 's) yaml) list \<Rightarrow> bool" where
  "yaml_wf (Mapping m) = entries_wf m"
| "yaml_wf (Plain s) = True"
| "entries_wf [] = True"
| "entries_wf ((k, v) # m) = (map_of m k = None \<and> yaml_wf v \<and> entries_wf m)"

text \<open>The setting at a path, and whether a file has a say about it: the path, or something on the way to it, is set.\<close>

fun plain_at :: "'k list \<Rightarrow> ('k, 's) yaml \<Rightarrow> 's option" where
  "plain_at [] (Plain s) = Some s"
| "plain_at (k # p) (Mapping m) = (case map_of m k of Some v \<Rightarrow> plain_at p v | None \<Rightarrow> None)"
| "plain_at _ _ = None"

fun decided :: "'k list \<Rightarrow> ('k, 's) yaml \<Rightarrow> bool" where
  "decided [] y = True"
| "decided (k # p) (Plain s) = True"
| "decided (k # p) (Mapping m) = (case map_of m k of Some v \<Rightarrow> decided p v | None \<Rightarrow> False)"

lemma entries_wf_value: "entries_wf m \<Longrightarrow> map_of m k = Some v \<Longrightarrow> yaml_wf v"
  by (induction m) (auto split: if_splits)

lemma map_of_merge_entries:
  "entries_wf over \<Longrightarrow>
   map_of (merge_entries base over) k =
     (case map_of over k of
        None \<Rightarrow> map_of base k
      | Some v \<Rightarrow> Some (case map_of base k of Some b \<Rightarrow> merge_yaml b v | None \<Rightarrow> v))"
  by (induction over arbitrary: base) (auto split: option.splits)

lemma plain_undecided: "\<not> decided p y \<Longrightarrow> plain_at p y = None"
  by (induction p y rule: decided.induct) (auto split: option.splits)

lemma plain_at_merge: "yaml_wf over \<Longrightarrow> plain_at p (merge_yaml base over) = (if decided p over then plain_at p over else plain_at p base)"
proof (induction p arbitrary: base over)
  case Nil
  then show ?case by (cases base; cases over) auto
next
  case (Cons k p)
  show ?case
  proof (cases over)
    case (Plain s)
    then show ?thesis by (cases base) auto
  next
    case (Mapping m)
    then show ?thesis
      using Cons plain_undecided [of "k # p" over]
      by (cases base) (auto simp: map_of_merge_entries plain_undecided entries_wf_value split: option.splits)
  qed
qed

definition files_wf :: "('p \<Rightarrow> string + ('k, 's) yaml) \<Rightarrow> bool" where
  "files_wf read_yaml \<longleftrightarrow> (\<forall>p y. read_yaml p = Inr y \<longrightarrow> yaml_wf y)"

lemma invalid_Inr: "invalid r = Inr x \<longleftrightarrow> r = Inr x"
  by (cases r) (auto simp: invalid_def)

lemma merge_file_Inr:
  "merge_file read_yaml path v = Inr v' \<longleftrightarrow>
     (case path of None \<Rightarrow> v' = v | Some p \<Rightarrow> \<exists>y. read_yaml p = Inr y \<and> v' = merge_yaml v y)"
  by (cases path) (auto simp: merge_file_def bind_rt_Inr invalid_Inr)

text \<open>
  C29. A snapshot is built from a value in which every setting is the one of the override file if that file decides it,
  else the one of the base file if that one decides it, else the default; the environment is applied after that, and
  the result passed validation.
\<close>

theorem config_precedence:
  assumes "load_snapshot app read_yaml (Some bp) (Some op) ds = Inr c" and "files_wf read_yaml"
  shows "\<exists>v0 vb vo v c0. to_value app ds = Inr v0 \<and> read_yaml bp = Inr vb \<and> read_yaml op = Inr vo \<and>
    (\<forall>p. plain_at p v = (if decided p vo then plain_at p vo else if decided p vb then plain_at p vb else plain_at p v0)) \<and>
    from_value app v = Inr c0 \<and> apply_environment app c0 = Inr c \<and> validate_config app c = Inr ()"
proof -
  obtain v0 vb vo c0 where v: "to_value app ds = Inr v0" "read_yaml bp = Inr vb" "read_yaml op = Inr vo"
      "from_value app (merge_yaml (merge_yaml v0 vb) vo) = Inr c0" "apply_environment app c0 = Inr c" "validate_config app c = Inr ()"
    using assms(1) by (auto simp: load_snapshot_def bind_rt_Inr invalid_Inr merge_file_Inr)
  have "yaml_wf vb" "yaml_wf vo" using assms(2) v(2,3) by (auto simp: files_wf_def)
  then have "\<forall>p. plain_at p (merge_yaml (merge_yaml v0 vb) vo) =
      (if decided p vo then plain_at p vo else if decided p vb then plain_at p vb else plain_at p v0)"
    by (simp add: plain_at_merge)
  with v show ?thesis by blast
qed

section \<open>Reloads\<close>

definition snapshot :: "('k, 's, 'c) app_config \<Rightarrow> ('p, 'c) loader \<Rightarrow> 'c \<Rightarrow> bool" where
  "snapshot app s c \<longleftrightarrow> (\<exists>read_yaml. load_snapshot app read_yaml (base_path s) (override_path s) (defaults s) = Inr c)"

fun phase_ok :: "('k, 's, 'c) app_config \<Rightarrow> ('p, 'c) loader \<Rightarrow> 'c reload \<Rightarrow> bool" where
  "phase_ok app s (Calling c rc) = (snapshot app s c \<and> runtime_of app c = Inr rc)"
| "phase_ok app s (Storing c rc) = (snapshot app s c \<and> runtime_of app c = Inr rc)"
| "phase_ok app s (StoringRuntime c rc) = (snapshot app s c \<and> runtime_of app c = Inr rc)"
| "phase_ok app s _ = True"

fun outcome :: "bool \<Rightarrow> 'c reload \<Rightarrow> bool" where
  "outcome b (Returned r) = (isl r \<noteq> b)"
| "outcome b _ = False"

definition loader_ok :: "('k, 's, 'c) app_config \<Rightarrow> ('p, 'c) loader \<Rightarrow> bool" where
  "loader_ok app s \<longleftrightarrow>
     snapshot app s (current_config s) \<and> (\<exists>c. snapshot app s c \<and> runtime_of app c = Inr (current_runtime s)) \<and>
     (\<forall>r\<in>set (reloads s). phase_ok app s r) \<and>
     reload_success s = length (filter (outcome True) (reloads s)) \<and> reload_error s = length (filter (outcome False) (reloads s))"
lemma set_reload_simps [simp]:
  "base_path (set_reload n r s) = base_path s" "override_path (set_reload n r s) = override_path s" "defaults (set_reload n r s) = defaults s"
  "current_config (set_reload n r s) = current_config s" "current_runtime (set_reload n r s) = current_runtime s"
  "handler_set (set_reload n r s) = handler_set s" "reload_success (set_reload n r s) = reload_success s"
  "reload_error (set_reload n r s) = reload_error s" "reloads (set_reload n r s) = (reloads s)[n := r]"
  by (simp_all add: set_reload_def)

lemma snapshot_cong:
  "base_path s' = base_path s \<Longrightarrow> override_path s' = override_path s \<Longrightarrow> defaults s' = defaults s \<Longrightarrow> snapshot app s' = snapshot app s"
  by (simp add: fun_eq_iff snapshot_def)

lemma phase_ok_cong:
  assumes "base_path s' = base_path s" and "override_path s' = override_path s" and "defaults s' = defaults s"
  shows "phase_ok app s' r = phase_ok app s r"
  by (cases r) (simp_all add: snapshot_cong [OF assms])

text \<open>One reload moves on: its new phase is valid, and the snapshots, if they change, become valid ones.\<close>

lemma reload_moves:
  assumes ok: "loader_ok app s" and n: "n < length (reloads s)" "\<not> outcome True (reloads s ! n)" "\<not> outcome False (reloads s ! n)"
    and same: "base_path s' = base_path s" "override_path s' = override_path s" "defaults s' = defaults s" "reloads s' = (reloads s)[n := r]"
    and r: "phase_ok app s r" "snapshot app s (current_config s')" "\<exists>c. snapshot app s c \<and> runtime_of app c = Inr (current_runtime s')"
    and count: "reload_success s' = reload_success s + (if outcome True r then 1 else 0)"
      "reload_error s' = reload_error s + (if outcome False r then 1 else 0)"
  shows "loader_ok app s'"
proof -
  have "\<forall>x\<in>set (reloads s'). phase_ok app s' x"
    using ok r(1) set_update_subset_insert [of "reloads s" n r]
    unfolding same(4) phase_ok_cong [OF same(1-3)] by (auto simp: loader_ok_def)
  then show ?thesis
    using ok r(2,3) count n filter_update [OF n(1), of "outcome True" r] filter_update [OF n(1), of "outcome False" r]
    unfolding loader_ok_def snapshot_cong [OF same(1-3)] same(4) by simp
qed

lemma candidate_ok:
  "reload_candidate app read_yaml s = Inr (c, rc) \<Longrightarrow> snapshot app s c \<and> runtime_of app c = Inr rc"
  by (auto simp: reload_candidate_def snapshot_def bind_rt_Inr)

lemma loader_phases:
  assumes "loader_ok app s" and "n < length (reloads s)"
  shows "phase_ok app s (reloads s ! n)"
  using assms by (simp add: loader_ok_def)

lemma loader_cases:
  assumes "loader_step app a s = Some s'"
  obtains (quiet) "a = SetHandler \<or> a = CallReload" "reloads s' = reloads s \<or> reloads s' = reloads s @ [Reading]"
      "base_path s' = base_path s" "override_path s' = override_path s" "defaults s' = defaults s" "current_config s' = current_config s"
      "current_runtime s' = current_runtime s" "reload_success s' = reload_success s" "reload_error s' = reload_error s"
  | (read) n f e where "a = Read n f" "n < length (reloads s)" "reloads s ! n = Reading" "s' = set_reload n (Counting (Inl e)) s"
  | (loaded) n f c rc where "a = Read n f" "n < length (reloads s)" "reloads s ! n = Reading" "reload_candidate app f s = Inr (c, rc)"
      "s' = set_reload n (Calling c rc) s \<or> s' = set_reload n (Storing c rc) s"
  | (handled) n x c rc where "a = HandlerReturns n x" "n < length (reloads s)" "reloads s ! n = Calling c rc"
      "s' = set_reload n (Storing c rc) s \<or> (\<exists>e. s' = set_reload n (Counting (Inl e)) s)"
  | (config) n c rc where "a = StoreConfig n" "n < length (reloads s)" "reloads s ! n = Storing c rc"
      "s' = (set_reload n (StoringRuntime c rc) s)\<lparr>current_config := c\<rparr>"
  | (runtime) n c rc where "a = StoreRuntime n" "n < length (reloads s)" "reloads s ! n = StoringRuntime c rc"
      "s' = (set_reload n (Counting (Inr c)) s)\<lparr>current_runtime := rc\<rparr>"
  | (counted) n r where "a = CountReload n" "n < length (reloads s)" "reloads s ! n = Counting r"
      "s' = reload_count r (set_reload n (Returned r) s)"
proof (cases a)
  case (Read n f)
  then show ?thesis using assms read loaded
    by (auto simp: reload_read_def split: if_splits reload.splits sum.splits)
next
  case (HandlerReturns n x)
  then show ?thesis using assms handled by (auto split: if_splits reload.splits option.splits)
next
  case (StoreConfig n)
  then show ?thesis using assms config by (auto split: if_splits reload.splits)
next
  case (StoreRuntime n)
  then show ?thesis using assms runtime by (auto split: if_splits reload.splits)
next
  case (CountReload n)
  then show ?thesis using assms counted by (auto split: if_splits reload.splits)
qed (use assms quiet in auto)

lemma loader_step_ok:
  assumes ok: "loader_ok app s" and step: "loader_step app a s = Some s'"
  shows "loader_ok app s'"
proof -
  have cur: "snapshot app s (current_config s)" "\<exists>c. snapshot app s c \<and> runtime_of app c = Inr (current_runtime s)"
    using ok unfolding loader_ok_def by blast+
  from step show ?thesis
  proof (cases rule: loader_cases)
    case quiet
    then show ?thesis using ok unfolding loader_ok_def snapshot_cong [OF quiet(3-5)] phase_ok_cong [OF quiet(3-5)] by auto
  next
    case (read n f e)
    then show ?thesis by (intro reload_moves [OF ok read(2), of s' "Counting (Inl e)"] cur) (auto intro: cur)
  next
    case (loaded n f c rc)
    have "loader_ok app (set_reload n x s)" if "x = Calling c rc \<or> x = Storing c rc" for x
      using that loaded candidate_ok [OF loaded(4)] by (intro reload_moves [OF ok loaded(2), of _ x]) (auto intro: cur)
    then show ?thesis using loaded(5) by auto
  next
    case (handled n x c rc)
    have "loader_ok app (set_reload n x s)" if "x = Storing c rc \<or> (\<exists>e. x = Counting (Inl e))" for x
      using that handled loader_phases [OF ok handled(2)] by (intro reload_moves [OF ok handled(2), of _ x]) (auto intro: cur)
    then show ?thesis using handled(4) by auto
  next
    case (config n c rc)
    then show ?thesis using loader_phases [OF ok config(2)]
      by (intro reload_moves [OF ok config(2), of s' "StoringRuntime c rc"]) (auto intro: cur)
  next
    case (runtime n c rc)
    then show ?thesis using loader_phases [OF ok runtime(2)]
      by (intro reload_moves [OF ok runtime(2), of s' "Counting (Inr c)"]) (auto intro: cur)
  next
    case (counted n r)
    then show ?thesis
      by (intro reload_moves [OF ok counted(2), of s' "Returned r"]) (cases r; auto simp: reload_count_def intro: cur)+
  qed
qed
interpretation loader_run: step_system "loader_step app" "loader_ok app" for app
  by unfold_locales (rule loader_step_ok)

lemma loader_load_ok: "loader_load app read_yaml bp op ds = Inr s \<Longrightarrow> loader_ok app s"
  by (auto simp: loader_load_def bind_rt_Inr loader_ok_def snapshot_def) blast

lemma paths_kept: "loader_step app a s = Some s' \<Longrightarrow>
  (base_path s', override_path s', defaults s') = (base_path s, override_path s, defaults s)"
  by (cases a) (auto simp: reload_read_def reload_count_def split: if_splits reload.splits sum.splits option.splits)


subsection \<open>Reloads one after the other\<close>

fun in_store :: "'c reload \<Rightarrow> bool" where
  "in_store (Storing _ _) = True"
| "in_store (StoringRuntime _ _) = True"
| "in_store _ = False"

fun half_stored :: "'c reload \<Rightarrow> bool" where
  "half_stored (StoringRuntime _ _) = True"
| "half_stored _ = False"

text \<open>Runs in which at most one reload is storing at a time.\<close>

definition serial_step :: "('k, 's, 'c) app_config \<Rightarrow> ('p, 'k, 's) loader_action \<Rightarrow> ('p, 'c) loader \<Rightarrow> ('p, 'c) loader option" where
  "serial_step app a s =
     (case loader_step app a s of
        Some s' \<Rightarrow> if length (filter in_store (reloads s')) \<le> 1 then Some s' else None
      | None \<Rightarrow> None)"

definition agree :: "('k, 's, 'c) app_config \<Rightarrow> ('p, 'c) loader \<Rightarrow> bool" where
  "agree app s \<longleftrightarrow>
     length (filter in_store (reloads s)) \<le> 1 \<and>
     ((\<exists>n c rc. n < length (reloads s) \<and> reloads s ! n = StoringRuntime c rc \<and> current_config s = c) \<or>
      (\<forall>r\<in>set (reloads s). \<not> half_stored r) \<and> runtime_of app (current_config s) = Inr (current_runtime s))"

lemma unique_store:
  assumes "length (filter P xs) \<le> 1" and "i < length xs" and "j < length xs" and "P (xs ! i)" and "P (xs ! j)"
  shows "i = j"
proof (rule ccontr)
  assume "i \<noteq> j"
  have "length (filter P (xs[i := xs ! i])) = card {k. k < length xs \<and> P (xs ! k)}" by (simp add: length_filter_conv_card)
  moreover have "{i, j} \<subseteq> {k. k < length xs \<and> P (xs ! k)}" using assms by auto
  then have "card {i, j} \<le> card {k. k < length xs \<and> P (xs ! k)}" by (intro card_mono) auto
  ultimately show False using assms(1) \<open>i \<noteq> j\<close> by simp
qed

lemma half_in_store: "half_stored r \<Longrightarrow> in_store r"
  by (cases r) auto
lemma agree_move:
  assumes ag: "agree app s" and "length (filter in_store (reloads s')) \<le> 1" and "n < length (reloads s)"
    and x: "\<not> half_stored (reloads s ! n)" "\<not> half_stored r" and "reloads s' = (reloads s)[n := r]"
    and "current_config s' = current_config s" and "current_runtime s' = current_runtime s"
  shows "agree app s'"
proof (cases "\<exists>i c rc. i < length (reloads s) \<and> reloads s ! i = StoringRuntime c rc \<and> current_config s = c")
  case True
  then obtain i c rc where i: "i < length (reloads s)" "reloads s ! i = StoringRuntime c rc" "current_config s = c" by blast
  then have "i \<noteq> n" using x(1) by auto
  then show ?thesis using assms i by (auto simp: agree_def)
next
  case False
  then have "\<forall>y\<in>set (reloads s). \<not> half_stored y" "runtime_of app (current_config s) = Inr (current_runtime s)"
    using ag by (auto simp: agree_def)
  then show ?thesis using assms set_update_subset_insert [of "reloads s" n r] by (auto simp: agree_def)
qed

lemma agree_config:
  assumes "length (filter in_store (reloads s')) \<le> 1" and "n < length (reloads s)"
    and "reloads s' = (reloads s)[n := StoringRuntime c rc]" and "current_config s' = c"
  shows "agree app s'"
  using assms unfolding agree_def by (metis length_list_update nth_list_update_eq)

lemma agree_runtime:
  assumes ok: "loader_ok app s" and ag: "agree app s" and le: "length (filter in_store (reloads s')) \<le> 1"
    and n: "n < length (reloads s)" "reloads s ! n = StoringRuntime c rc"
    and s': "reloads s' = (reloads s)[n := Counting (Inr c)]" "current_config s' = current_config s" "current_runtime s' = rc"
  shows "agree app s'"
proof -
  have le0: "length (filter in_store (reloads s)) \<le> 1" using ag by (simp add: agree_def)
  have only: "i = n" if "i < length (reloads s)" "half_stored (reloads s ! i)" for i
    using unique_store [OF le0 that(1) n(1)] half_in_store [OF that(2)] n(2) by simp
  have "\<not> (\<forall>r\<in>set (reloads s). \<not> half_stored r)" using n nth_mem [OF n(1)] by fastforce
  then obtain i c' rc' where i: "i < length (reloads s)" "reloads s ! i = StoringRuntime c' rc'" "current_config s = c'"
    using ag by (auto simp: agree_def)
  then have "current_config s = c" using only [of i] n(2) by simp
  moreover have "runtime_of app c = Inr rc" using loader_phases [OF ok n(1)] n(2) by simp
  moreover have "\<forall>r\<in>set (reloads s'). \<not> half_stored r"
  proof -
    have "\<not> half_stored ((reloads s)[n := Counting (Inr c)] ! i)" if "i < length (reloads s)" for i
      using only [OF that] that by (cases "i = n") auto
    then show ?thesis unfolding s' by (auto simp: in_set_conv_nth)
  qed
  ultimately show ?thesis using le s' by (simp add: agree_def)
qed

lemma agree_quiet:
  assumes "agree app s" and "length (filter in_store (reloads s')) \<le> 1"
    and "reloads s' = reloads s \<or> reloads s' = reloads s @ [Reading]"
    and "current_config s' = current_config s" and "current_runtime s' = current_runtime s"
  shows "agree app s'"
proof (cases "\<exists>i c rc. i < length (reloads s) \<and> reloads s ! i = StoringRuntime c rc \<and> current_config s = c")
  case True
  then obtain i c rc where i: "i < length (reloads s)" "reloads s ! i = StoringRuntime c rc" "current_config s = c" by blast
  then have "i < length (reloads s') \<and> reloads s' ! i = StoringRuntime c rc" using assms(3) by (auto simp: nth_append)
  then show ?thesis using assms i(3) unfolding agree_def by blast
next
  case False
  then show ?thesis using assms unfolding agree_def by auto
qed

lemma agree_step:
  assumes ok: "loader_ok app s" and ag: "agree app s" and step: "loader_step app a s = Some s'"
    and le: "length (filter in_store (reloads s')) \<le> 1"
  shows "agree app s'"
  using step
proof (cases rule: loader_cases)
  case quiet
  then show ?thesis using agree_quiet [OF ag le] by simp
next
  case (read n f e)
  then show ?thesis by (intro agree_move [OF ag le read(2), of "Counting (Inl e)"]) auto
next
  case (loaded n f c rc)
  then show ?thesis using agree_move [OF ag le loaded(2), of "Calling c rc"] agree_move [OF ag le loaded(2), of "Storing c rc"] by auto
next
  case (handled n x c rc)
  have "agree app s'" if "s' = set_reload n y s" "\<not> half_stored y" for y
    using that handled(3) by (intro agree_move [OF ag le handled(2), of y]) auto
  then show ?thesis using handled(4) by auto
next
  case (config n c rc)
  then show ?thesis by (intro agree_config [OF le config(2), of c rc]) auto
next
  case (runtime n c rc)
  then show ?thesis by (intro agree_runtime [OF ok ag le runtime(2,3)]) auto
next
  case (counted n r)
  then show ?thesis by (intro agree_move [OF ag le counted(2), of "Returned r"]) (cases r; auto simp: reload_count_def)+
qed

interpretation serial_run: step_system "serial_step app" "\<lambda>s. loader_ok app s \<and> agree app s" for app
  by unfold_locales (auto simp: serial_step_def split: option.splits if_splits intro: loader_step_ok agree_step)

text \<open>
  C30. As long as no two reloads store at the same time, the published runtime configuration is the one built from the
  published application configuration, except between the two stores of a reload.
\<close>

theorem reload_snapshots_agree:
  assumes "loader_load app read_yaml bp op ds = Inr s0" and "run_steps (serial_step app) as s0 = Some s"
    and "list_all (\<lambda>r. \<not> half_stored r) (reloads s)"
  shows "runtime_of app (current_config s) = Inr (current_runtime s)"
proof -
  have "agree app s0" using assms(1) by (auto simp: loader_load_def bind_rt_Inr agree_def)
  then have "agree app s" using serial_run.run_inv [OF _ assms(2)] loader_load_ok [OF assms(1)] by blast
  then show ?thesis using assms(3) unfolding agree_def list_all_iff by (metis half_stored.simps(1) nth_mem)
qed

section \<open>Overlapping reloads\<close>

text \<open>An application whose configuration is one flag, kept in the files as it is.\<close>

definition flag_app :: "(unit, bool, bool) app_config" where
  "flag_app = \<lparr>to_value = \<lambda>b. Inr (Plain b), from_value = \<lambda>y. (case y of Plain b \<Rightarrow> Inr b | Mapping _ \<Rightarrow> Inl ''flag''),
     apply_environment = Inr, validate_config = \<lambda>_. Inr (),
     semantics_of = \<lambda>b. if b then ParallelCall else FunctionCall, services_of = \<lambda>_. [], streams_of = \<lambda>_. [], pools_of = \<lambda>_. [],
     connectors_of = \<lambda>_. [], endpoints_of = \<lambda>_. [], links_of = \<lambda>_. [], modules_of = \<lambda>_. [], types_of = \<lambda>_. []\<rparr>"

definition flag_config :: "bool \<Rightarrow> runtime_config" where
  "flag_config b = with_default_call_semantics (if b then ParallelCall else FunctionCall)"

definition flag_loader :: "bool \<Rightarrow> bool \<Rightarrow> (unit, bool) loader" where
  "flag_loader b d = \<lparr>base_path = None, override_path = Some (), defaults = d, current_config = b, current_runtime = flag_config b,
     handler_set = False, reload_success = 0, reload_error = 0, reloads = []\<rparr>"

lemma flag_runtime: "runtime_of flag_app b = Inr (flag_config b)"
  by (simp add: runtime_of_def flag_app_def flag_config_def config_new_def from_parts_def with_default_call_semantics_def referenced_pools_def)
abbreviation flag_files :: "bool \<Rightarrow> unit \<Rightarrow> string + (unit, bool) yaml" where
  "flag_files b \<equiv> \<lambda>_. Inr (Plain b)"

lemma flag_snapshot: "load_snapshot flag_app (flag_files b) None (Some ()) d = Inr b"
  by (simp add: load_snapshot_def merge_file_def invalid_def flag_app_def)

lemma flag_load: "loader_load flag_app (flag_files b) None (Some ()) d = Inr (flag_loader b d)"
  by (simp add: loader_load_def flag_snapshot flag_runtime flag_loader_def)

lemma flag_candidate: "reload_candidate flag_app (flag_files b) s = Inr (b, flag_config b)"
  if "base_path s = None" "override_path s = Some ()" for s :: "(unit, bool) loader"
  using that by (simp add: reload_candidate_def flag_snapshot flag_runtime)

lemma flag_run:
  "run_steps (serial_step flag_app) [CallReload, Read 0 (flag_files True), StoreConfig 0, StoreRuntime 0, CountReload 0] (flag_loader False d) =
     Some ((flag_loader True d)\<lparr>reload_success := 1, reloads := [Returned (Inr True)]\<rparr>)"
  by (simp add: serial_step_def reload_read_def flag_candidate flag_loader_def set_reload_def reload_count_def)

theorem reload_snapshots_agree_witness:
  "runtime_of flag_app True = Inr (flag_config True) \<and>
   run_steps (serial_step flag_app) [CallReload, Read 0 (flag_files True), StoreConfig 0, StoreRuntime 0, CountReload 0] (flag_loader False False) =
     Some ((flag_loader True False)\<lparr>reload_success := 1, reloads := [Returned (Inr True)]\<rparr>)"
  using reload_snapshots_agree [OF flag_load flag_run] flag_run by (simp add: flag_loader_def)

lemma serial_is_step: "run_steps (serial_step app) as s = Some s' \<Longrightarrow> run_steps (loader_step app) as s = Some s'"
  by (induction as arbitrary: s) (auto simp: serial_step_def split: option.splits if_splits)


theorem config_precedence_witness:
  "\<exists>v. from_value flag_app v = Inr True \<and> plain_at [] v = Some True"
proof -
  have "load_snapshot flag_app (\<lambda>p. Inr (Plain p)) (Some False) (Some True) False = Inr True"
    by (simp add: load_snapshot_def merge_file_def invalid_def flag_app_def)
  moreover have "files_wf (\<lambda>p. Inr (Plain p :: (unit, bool) yaml))" by (simp add: files_wf_def)
  ultimately have "\<exists>v0 vb vo v c0. to_value flag_app False = Inr v0 \<and> Inr (Plain False) = (Inr vb :: string + (unit, bool) yaml) \<and>
      Inr (Plain True) = (Inr vo :: string + (unit, bool) yaml) \<and>
      (\<forall>p. plain_at p v = (if decided p vo then plain_at p vo else if decided p vb then plain_at p vb else plain_at p v0)) \<and>
      from_value flag_app v = Inr c0 \<and> apply_environment flag_app c0 = Inr True \<and> validate_config flag_app True = Inr ()"
    by (rule config_precedence)
  then obtain v where v: "\<forall>p. plain_at p v = (if decided p (Plain True) then plain_at p (Plain True)
        else if decided p (Plain False) then plain_at p (Plain False) else plain_at p (Plain False))" "from_value flag_app v = Inr True"
    by (auto simp: flag_app_def)
  from v(1) have "plain_at [] v = Some True" by simp
  with v(2) show ?thesis by blast
qed

text \<open>
  Two reloads that store at the same time can leave the application configuration of the one with the runtime
  configuration of the other, although both have returned success.
\<close>

theorem reload_overlap_splits:
  "\<exists>s. run_steps (loader_step flag_app)
       [CallReload, CallReload, Read 0 (flag_files True), Read 1 (flag_files False), StoreConfig 0, StoreConfig 1, StoreRuntime 1,
        StoreRuntime 0, CountReload 0, CountReload 1] (flag_loader False False) = Some s \<and>
     reloads s = [Returned (Inr True), Returned (Inr False)] \<and> runtime_of flag_app (current_config s) \<noteq> Inr (current_runtime s)"
  by (simp add: reload_read_def flag_candidate flag_loader_def set_reload_def reload_count_def flag_runtime flag_config_def
      with_default_call_semantics_def)

end
