(* ===== verification/Http_Source.thy ===== *)
theory Http_Source
  imports Message_Context Result_Router Step_Systems
begin

text \<open>
  The HTTP source, \<open>src/datasource/http/axum.rs\<close>: the data source with its listener, \<open>start\<close> and \<open>stop\<close>, the requests
  of an endpoint from their arrival to the reply, and the results that the graph sends back meanwhile. A step is what a
  task does between two points where another can interfere. Handlers, bodies, contexts, the configuration and the
  server of axum answer through the actions; \<open>RotatingMap\<close> is used as the map it implements, and \<open>hash\<close> is the hash
  function of the gauges. A request is never dropped before its end: when its client goes away, \<open>CompleteOnDrop\<close> hands
  it to a task of its own. Panics of handlers and spans are left out.
\<close>

section \<open>Data\<close>

type_synonym http_result = "string option"

text \<open>\<open>ResponseData\<close>; header names are the keys of a map, the body is a list of bytes.\<close>

record response =
  status :: nat
  headers :: "(string \<times> string) list"
  body :: "nat list"

datatype response_write = SetStatus nat | SetHeader string string | SetBody "nat list"

text \<open>
  Where a request is: \<open>Locking\<close> and \<open>Ending\<close> know the pending entry that was taken out, whose lifetime is locked, and
  \<open>Locking\<close> whether the wait for \<open>done\<close> was cut short.
\<close>

datatype http_pc =
    Entered | Open | Reading | Beginning | Consuming | WaitDone
  | Locking "nat option" bool | Ending "nat option" | EndingDuplicate | Finished

record http_request =
  via :: "nat option"
  verb :: string
  request_at :: http_pc
  pending_id :: string
  over :: bool
  is_done :: bool
  callbacks :: "(string \<times> nat) list option"
  outcome :: http_result
  response :: response

datatype http_result_pc = ReadLock nat | Identifying nat | Calling nat string | Over

record http_result_task =
  result_id :: string
  result_at :: http_result_pc

datatype http_counter =
    MessagesTotal | RequestErrors | BeginRequestFailed | MissingStreamId | LateResult | UnknownMessageId | DuplicateMessageId
  | InvalidHttpMethod

record server =
  shut :: bool
  ended :: "string option option"

datatype life = Idle | Binding | AwaitServer nat | WaitRequests

datatype http_event =
    Arrived nat "nat option" string
  | Accepted nat
  | BeginCall nat
  | ConsumeCall nat
  | ConsumeReturned nat http_result
  | DoneCalled nat
  | Wrote nat response_write
  | ReadStart nat nat
  | Called nat nat
  | ReadEnd nat nat
  | EndCall nat http_result
  | Replied nat response
  | Counted http_counter
  | StartRefused
  | StartErr runtime_error
  | Reopened
  | StartOk
  | Drained
  | StopCut
  | StopErr runtime_error

record http_source =
  ident :: int
  routes :: "string list"
  started :: bool
  closed :: bool
  servers :: "server list"
  server_task :: "nat option"
  shutdown :: "nat option"
  life :: life
  sequence :: nat
  pending :: "(string \<times> nat) list"
  active_gauge :: int
  pending_gauge :: pending_requests
  requests :: "http_request list"
  results :: "http_result_task list"
  log :: "http_event list"

definition source_new :: "bool \<Rightarrow> int \<Rightarrow> http_source" where
  "source_new enabled i = \<lparr>ident = i, routes = [], started = False, closed = False, servers = [], server_task = None,
     shutdown = None, life = Idle, sequence = 0, pending = [], active_gauge = 0, pending_gauge = pr_new enabled,
     requests = [], results = [], log = []\<rparr>"

definition logged :: "http_event list \<Rightarrow> http_source \<Rightarrow> http_source" where
  "logged es s = s\<lparr>log := log s @ es\<rparr>"

definition upd :: "nat \<Rightarrow> (http_request \<Rightarrow> http_request) \<Rightarrow> http_source \<Rightarrow> http_source" where
  "upd r f s = s\<lparr>requests := (requests s)[r := f (requests s ! r)]\<rparr>"

definition move :: "nat \<Rightarrow> http_pc \<Rightarrow> http_source \<Rightarrow> http_source" where
  "move r pc s = upd r (request_at_update (\<lambda>_. pc)) s"

definition at :: "nat \<Rightarrow> http_source \<Rightarrow> http_pc option" where
  "at r s = (if r < length (requests s) then Some (request_at (requests s ! r)) else None)"

definition counted :: "bool \<Rightarrow> http_counter \<Rightarrow> http_source \<Rightarrow> http_source" where
  "counted enabled c s = (if enabled then logged [Counted c] s else s)"

section \<open>Responses\<close>

definition response_new :: response where
  "response_new = \<lparr>status = 200, headers = [], body = []\<rparr>"

fun apply_write :: "response_write \<Rightarrow> response \<Rightarrow> response" where
  "apply_write (SetStatus n) p = p\<lparr>status := n\<rparr>"
| "apply_write (SetHeader k v) p = p\<lparr>headers := hm_insert k v (headers p)\<rparr>"
| "apply_write (SetBody b) p = p\<lparr>body := b\<rparr>"

definition into_response :: "nat \<Rightarrow> http_source \<Rightarrow> http_source" where
  "into_response r s =
     logged [Replied r (response (requests s ! r))]
       (upd r (\<lambda>q. q\<lparr>request_at := Finished, response := (response q)\<lparr>body := []\<rparr>\<rparr>) s)"

definition refuse :: "nat \<Rightarrow> nat \<Rightarrow> nat list \<Rightarrow> http_source \<Rightarrow> http_source" where
  "refuse r code b s = logged [Replied r \<lparr>status = code, headers = [], body = b\<rparr>] (move r Finished s)"

text \<open>A handler has the response once \<open>begin_request\<close> was called.\<close>

definition write_response :: "nat \<Rightarrow> response_write \<Rightarrow> http_source \<Rightarrow> http_source option" where
  "write_response r w s =
     (if BeginCall r \<in> set (log s) then Some (logged [Wrote r w] (upd r (response_update (apply_write w)) s)) else None)"

section \<open>Requests\<close>

text \<open>\<open>serve_http\<close> is called by the server, before it looks whether the source still accepts requests.\<close>

definition http_arrive :: "nat option \<Rightarrow> string \<Rightarrow> http_source \<Rightarrow> http_source option" where
  "http_arrive v m s =
     (if (case v of None \<Rightarrow> True | Some k \<Rightarrow> k < length (servers s) \<and> ended (servers s ! k) \<noteq> Some None)
      then Some (logged [Arrived (length (requests s)) v m] (s\<lparr>requests := requests s @
        [\<lparr>via = v, verb = m, request_at = Entered, pending_id = [], over = False, is_done = False, callbacks = Some [],
          outcome = None, response = response_new\<rparr>]\<rparr>))
      else None)"

definition check_closed :: "nat \<Rightarrow> http_source \<Rightarrow> http_source option" where
  "check_closed r s =
     (if at r s = Some Entered then Some (if closed s then refuse r 503 [] s else move r Open s) else None)"

text \<open>The operation is tracked and runs to its first suspension.\<close>

definition track :: "bool \<Rightarrow> string \<Rightarrow> nat \<Rightarrow> http_source \<Rightarrow> http_source option" where
  "track enabled want r s =
     (if at r s = Some Open
      then Some (if verb (requests s ! r) \<noteq> want
        then refuse r 405 [] (counted enabled InvalidHttpMethod (logged [Accepted r] s))
        else logged [Accepted r] (move r Reading s))
      else None)"

definition body_read :: "nat \<Rightarrow> nat list option \<Rightarrow> http_source \<Rightarrow> http_source option" where
  "body_read r failure s =
     (if at r s = Some Reading
      then Some (case failure of Some text \<Rightarrow> refuse r 400 text s | None \<Rightarrow> logged [BeginCall r] (move r Beginning s))
      else None)"

definition http_begin_returns :: "bool \<Rightarrow> bool \<Rightarrow> (string \<Rightarrow> nat) \<Rightarrow> nat \<Rightarrow> string + string option \<Rightarrow> instant \<Rightarrow> nat \<Rightarrow>
    http_source \<Rightarrow> http_source option" where
  "http_begin_returns has_result enabled hash r res now stamp s =
     (if at r s \<noteq> Some Beginning then None
      else Some (case res of
          Inl e \<Rightarrow> into_response r (counted enabled BeginRequestFailed s)
        | Inr given \<Rightarrow>
            (let (i, n) = (case given of Some i \<Rightarrow> (i, sequence s) | None \<Rightarrow> new_stream_id stamp (sequence s));
                 s1 = upd r (pending_id_update (\<lambda>_. i)) (s\<lparr>sequence := n, active_gauge := active_gauge s + (if enabled then 1 else 0)\<rparr>) in
             if \<not> has_result then logged [ConsumeCall r] (move r Consuming s1)
             else if map_of (pending s) i \<noteq> None
             then logged [EndCall r (Some ''duplicate key'')] (move r EndingDuplicate s1)
             else logged [ConsumeCall r] (move r Consuming
               (s1\<lparr>pending := hm_insert i r (pending s), pending_gauge := pr_add hash now i (pending_gauge s)\<rparr>)))))"

definition http_remove_request :: "bool \<Rightarrow> (string \<Rightarrow> nat) \<Rightarrow> nat \<Rightarrow> bool \<Rightarrow> http_source \<Rightarrow> http_source" where
  "http_remove_request has_result hash r late s =
     (if has_result
      then let i = pending_id (requests s ! r) in
        move r (Locking (map_of (pending s) i) late)
          (s\<lparr>pending := hm_remove i (pending s), pending_gauge := pr_remove hash i (pending_gauge s)\<rparr>)
      else move r (Locking None late) s)"

definition http_consume_returns :: "bool \<Rightarrow> (string \<Rightarrow> nat) \<Rightarrow> nat \<Rightarrow> http_result \<Rightarrow> http_source \<Rightarrow> http_source option" where
  "http_consume_returns has_result hash r res s =
     (if at r s \<noteq> Some Consuming then None
      else
        let s1 = logged [ConsumeReturned r res] (upd r (outcome_update (\<lambda>_. res)) s) in
        Some (if res = None \<and> has_result then move r WaitDone s1 else http_remove_request has_result hash r False s1))"

definition http_cancel_text :: string where "http_cancel_text = ''HTTP request context cancelled before ResultContext::done''"

definition http_wait_ends :: "bool \<Rightarrow> (string \<Rightarrow> nat) \<Rightarrow> nat \<Rightarrow> bool \<Rightarrow> http_source \<Rightarrow> http_source option" where
  "http_wait_ends has_result hash r by_done s =
     (if at r s \<noteq> Some WaitDone then None
      else if by_done
      then if is_done (requests s ! r) then Some (http_remove_request has_result hash r False s) else None
      else if over (requests s ! r)
      then Some (http_remove_request has_result hash r True (upd r (outcome_update (\<lambda>_. Some http_cancel_text)) s))
      else None)"

text \<open>The lock on the lifetime of an entry: readers are results under way, the writer is a request that ends.\<close>

fun reads :: "nat \<Rightarrow> http_result_pc \<Rightarrow> bool" where
  "reads r (Identifying r') = (r' = r)"
| "reads r (Calling r' _) = (r' = r)"
| "reads r _ = False"

definition no_reader :: "nat \<Rightarrow> http_source \<Rightarrow> bool" where
  "no_reader r s \<longleftrightarrow> list_all (\<lambda>t. \<not> reads r (result_at t)) (results s)"

definition no_writer :: "nat \<Rightarrow> http_source \<Rightarrow> bool" where
  "no_writer r s \<longleftrightarrow> list_all (\<lambda>q. request_at q \<noteq> Ending (Some r)) (requests s)"

definition http_lock_write :: "nat \<Rightarrow> http_source \<Rightarrow> http_source option" where
  "http_lock_write r s =
     (case at r s of
        Some (Locking removed late) \<Rightarrow>
          (let q = requests s ! r; res = (if late \<and> is_done q then None else outcome q) in
           if (case removed of None \<Rightarrow> True | Some x \<Rightarrow> no_reader x s \<and> no_writer x s)
           then Some (logged [EndCall r res] (upd r (\<lambda>q. q\<lparr>request_at := Ending removed, outcome := res\<rparr>) s))
           else None)
      | _ \<Rightarrow> None)"

text \<open>After \<open>end_request\<close> the callbacks are closed, the metrics counted and the response is taken.\<close>

definition http_end_returns :: "bool \<Rightarrow> nat \<Rightarrow> http_source \<Rightarrow> http_source option" where
  "http_end_returns enabled r s =
     (let s1 = upd r (callbacks_update (\<lambda>_. None)) (s\<lparr>active_gauge := active_gauge s - (if enabled then 1 else 0)\<rparr>) in
      case at r s of
        Some (Ending removed) \<Rightarrow>
          Some (into_response r (counted enabled (if outcome (requests s ! r) = None then MessagesTotal else RequestErrors) s1))
      | Some EndingDuplicate \<Rightarrow> Some (into_response r (counted enabled RequestErrors s1))
      | _ \<Rightarrow> None)"

section \<open>Results\<close>

definition http_result_arrives :: "bool \<Rightarrow> string option \<Rightarrow> http_source \<Rightarrow> http_source" where
  "http_result_arrives enabled given s =
     (case given of
        None \<Rightarrow> counted enabled MissingStreamId s
      | Some i \<Rightarrow>
          (case map_of (pending s) i of
             None \<Rightarrow> counted enabled LateResult s
           | Some r \<Rightarrow> s\<lparr>results := results s @ [\<lparr>result_id = i, result_at = ReadLock r\<rparr>]\<rparr>))"

definition set_result :: "nat \<Rightarrow> http_result_pc \<Rightarrow> http_source \<Rightarrow> http_source" where
  "set_result j pc s = s\<lparr>results := (results s)[j := (results s ! j)\<lparr>result_at := pc\<rparr>]\<rparr>"

definition doing :: "nat \<Rightarrow> http_source \<Rightarrow> http_result_pc" where
  "doing j s = (if j < length (results s) then result_at (results s ! j) else Over)"

text \<open>The read lock and the second look at the map; then \<open>get_message_id\<close> is called.\<close>

definition http_read_lock :: "bool \<Rightarrow> nat \<Rightarrow> http_source \<Rightarrow> http_source option" where
  "http_read_lock enabled j s =
     (case doing j s of
        ReadLock r \<Rightarrow>
          (if \<not> no_writer r s then None
           else Some (if map_of (pending s) (result_id (results s ! j)) \<noteq> Some r
             then counted enabled LateResult (set_result j Over s)
             else logged [ReadStart j r] (set_result j (Identifying r) s)))
      | _ \<Rightarrow> None)"

definition identified :: "bool \<Rightarrow> nat \<Rightarrow> string \<Rightarrow> http_source \<Rightarrow> http_source option" where
  "identified enabled j i s =
     (case doing j s of
        Identifying r \<Rightarrow>
          Some (case Option.bind (callbacks (requests s ! r)) (\<lambda>cs. map_of cs i) of
            None \<Rightarrow> logged [ReadEnd j r] (counted enabled UnknownMessageId (set_result j Over s))
          | Some _ \<Rightarrow> logged [Called j r] (set_result j (Calling r i) s))
      | _ \<Rightarrow> None)"

definition http_call_returns :: "bool \<Rightarrow> nat \<Rightarrow> bool \<Rightarrow> http_source \<Rightarrow> http_source option" where
  "http_call_returns enabled j finished s =
     (case doing j s of
        Calling r i \<Rightarrow>
          (let s1 = logged [ReadEnd j r] (set_result j Over s) in
           Some (if \<not> finished then s1
             else if Option.bind (callbacks (requests s ! r)) (\<lambda>cs. map_of cs i) = None then counted enabled DuplicateMessageId s1
             else upd r (callbacks_update (map_option (hm_remove i))) s1))
      | _ \<Rightarrow> None)"

definition http_drop_result :: "nat \<Rightarrow> http_source \<Rightarrow> http_source option" where
  "http_drop_result j s =
     (case doing j s of
        Over \<Rightarrow> None
      | ReadLock r \<Rightarrow> Some (set_result j Over s)
      | Identifying r \<Rightarrow> Some (logged [ReadEnd j r] (set_result j Over s))
      | Calling r i \<Rightarrow> Some (logged [ReadEnd j r] (set_result j Over s)))"

text \<open>What handlers do with the \<open>ResultContext\<close>; a callback set after the end is dropped.\<close>

definition http_set_result_callback :: "nat \<Rightarrow> string \<Rightarrow> nat \<Rightarrow> http_source \<Rightarrow> http_source option" where
  "http_set_result_callback r i c s =
     (if ConsumeCall r \<in> set (log s) then Some (upd r (callbacks_update (map_option (hm_insert i c))) s) else None)"

definition http_done_call :: "nat \<Rightarrow> http_source \<Rightarrow> http_source option" where
  "http_done_call r s =
     (if ConsumeCall r \<in> set (log s) then Some (logged [DoneCalled r] (upd r (is_done_update (\<lambda>_. True)) s)) else None)"

section \<open>The data source\<close>

record http_connector =
  dedicated :: bool
  address :: string
  host :: string
  port :: int

record http_endpoint =
  path :: string
  connector_id :: int
  has_method :: bool

datatype connector_entry = NoConnector | OtherConnector | HttpConnector http_connector

definition connector_config :: "connector_entry \<Rightarrow> runtime_error + http_connector" where
  "connector_config entry =
     (case entry of
        NoConnector \<Rightarrow> Inl (InvalidConfiguration ''HTTP data connector is not configured'')
      | OtherConnector \<Rightarrow> Inl (InvalidConfiguration ''data connector is not HTTP'')
      | HttpConnector c \<Rightarrow> Inr c)"

definition listen_address :: "http_connector \<Rightarrow> string" where
  "listen_address c = (if address c = [] then host c @ '':'' @ int_to_string (port c) else address c)"

text \<open>\<open>add_endpoint\<close>; \<open>clashes\<close> says for which routes the router of axum panics. An endpoint of undefined method has no route.\<close>

definition add_endpoint :: "(string list \<Rightarrow> string \<Rightarrow> bool) \<Rightarrow> http_endpoint \<Rightarrow> http_source \<Rightarrow> (runtime_error + http_source) option" where
  "add_endpoint clashes c s =
     (if connector_id c \<noteq> ident s then Some (Inl (InvalidConfiguration ''HTTP endpoint references another connector''))
      else if started s then Some (Inl (ResourceAlreadyStarted []))
      else if path c = [] then Some (Inl (InvalidConfiguration ''HTTP datasource endpoint path is empty''))
      else if \<not> has_method c then Some (Inr s)
      else if clashes (routes s) (path c) then None
      else Some (Inr (s\<lparr>routes := routes s @ [path c]\<rparr>)))"

text \<open>\<open>start\<close> and \<open>stop\<close>. The life cycle of a service calls them one after the other.\<close>

definition http_start :: "connector_entry \<Rightarrow> http_source \<Rightarrow> http_source option" where
  "http_start entry s =
     (if life s \<noteq> Idle then None
      else Some (if started s then logged [StartRefused] s
        else case connector_config entry of
          Inl e \<Rightarrow> logged [StartErr e] (s\<lparr>started := True\<rparr>)
        | Inr c \<Rightarrow>
            (let s1 = logged [Reopened] (s\<lparr>started := True, closed := False\<rparr>) in
             if dedicated c then s1\<lparr>life := Binding\<rparr> else logged [StartOk] s1)))"

definition http_bind :: "string option \<Rightarrow> http_source \<Rightarrow> http_source option" where
  "http_bind failure s =
     (if life s \<noteq> Binding then None
      else Some (case failure of
          Some e \<Rightarrow> logged [StartErr (Transport e)] (s\<lparr>started := False, life := Idle\<rparr>)
        | None \<Rightarrow>
            (let k = length (servers s) in
             logged [StartOk] (s\<lparr>servers := servers s @ [\<lparr>shut = False, ended = None\<rparr>], shutdown := Some k, server_task := Some k, life := Idle\<rparr>))))"

definition in_progress :: "nat \<Rightarrow> http_request \<Rightarrow> bool" where
  "in_progress k q \<longleftrightarrow> via q = Some k \<and> (request_at q = Entered \<or> request_at q = Open)"

text \<open>
  The task of a server ends when it was shut down and no request is between its connection and the tracker, or with an
  error. (A request that is tracked may have lost its connection, so the end of the server says nothing about it.)
\<close>

definition server_ends :: "nat \<Rightarrow> string option \<Rightarrow> http_source \<Rightarrow> http_source option" where
  "server_ends k failure s =
     (if k < length (servers s) \<and> ended (servers s ! k) = None \<and>
         (failure \<noteq> None \<or> shut (servers s ! k) \<and> list_all (\<lambda>q. \<not> in_progress k q) (requests s))
      then Some (s\<lparr>servers := (servers s)[k := (servers s ! k)\<lparr>ended := Some failure\<rparr>]\<rparr>) else None)"

definition http_stop :: "http_source \<Rightarrow> http_source option" where
  "http_stop s =
     (if life s \<noteq> Idle then None
      else
        let s1 = s\<lparr>closed := True,
              servers := (case shutdown s of None \<Rightarrow> servers s | Some k \<Rightarrow> (servers s)[k := (servers s ! k)\<lparr>shut := True\<rparr>])\<rparr>
        in Some (case server_task s of None \<Rightarrow> s1\<lparr>life := WaitRequests\<rparr> | Some k \<Rightarrow> s1\<lparr>server_task := None, life := AwaitServer k\<rparr>))"

definition stop_server :: "http_source \<Rightarrow> http_source option" where
  "stop_server s =
     (case life s of
        AwaitServer k \<Rightarrow>
          (case ended (servers s ! k) of
             None \<Rightarrow> None
           | Some None \<Rightarrow> Some (s\<lparr>life := WaitRequests\<rparr>)
           | Some (Some e) \<Rightarrow> Some (logged [StopErr (Transport e)] (s\<lparr>life := Idle\<rparr>)))
      | _ \<Rightarrow> None)"

fun tracked :: "http_pc \<Rightarrow> bool" where
  "tracked Entered = False"
| "tracked Open = False"
| "tracked Finished = False"
| "tracked _ = True"

definition http_stop_wait :: "http_source \<Rightarrow> http_source option" where
  "http_stop_wait s =
     (if life s = WaitRequests \<and> closed s \<and> list_all (\<lambda>q. \<not> tracked (request_at q)) (requests s)
      then Some (logged [Drained] (s\<lparr>started := False, life := Idle\<rparr>)) else None)"

definition stop_cut :: "http_source \<Rightarrow> http_source option" where
  "stop_cut s =
     (case life s of
        AwaitServer _ \<Rightarrow> Some (logged [StopCut] (s\<lparr>started := False, life := Idle\<rparr>))
      | WaitRequests \<Rightarrow> Some (logged [StopCut] (s\<lparr>started := False, life := Idle\<rparr>))
      | _ \<Rightarrow> None)"

section \<open>Steps\<close>

datatype http_action =
    Arrive "nat option" string
  | CheckClosed nat
  | Track nat
  | BodyRead nat "nat list option"
  | BeginReturns nat "string + string option" instant nat
  | ConsumeReturns nat http_result
  | WaitEnds nat bool
  | LockWrite nat
  | EndReturns nat
  | Write nat response_write
  | ResultArrives "string option"
  | TakeReadLock nat
  | Identified nat string
  | CallReturns nat bool
  | DropResult nat
  | SetCallback nat string nat
  | DoneCall nat
  | ContextOver nat
  | StartEnter connector_entry
  | StartBind "string option"
  | ServerEnds nat "string option"
  | StopEnter
  | StopServer
  | StopWait
  | StopCancel

fun http_step :: "bool \<Rightarrow> bool \<Rightarrow> (string \<Rightarrow> nat) \<Rightarrow> string \<Rightarrow> http_action \<Rightarrow> http_source \<Rightarrow> http_source option" where
  "http_step hr en hash want (Arrive v m) s = http_arrive v m s"
| "http_step hr en hash want (CheckClosed r) s = check_closed r s"
| "http_step hr en hash want (Track r) s = track en want r s"
| "http_step hr en hash want (BodyRead r f) s = body_read r f s"
| "http_step hr en hash want (BeginReturns r res now stamp) s = http_begin_returns hr en hash r res now stamp s"
| "http_step hr en hash want (ConsumeReturns r res) s = http_consume_returns hr hash r res s"
| "http_step hr en hash want (WaitEnds r b) s = http_wait_ends hr hash r b s"
| "http_step hr en hash want (LockWrite r) s = http_lock_write r s"
| "http_step hr en hash want (EndReturns r) s = http_end_returns en r s"
| "http_step hr en hash want (Write r w) s = write_response r w s"
| "http_step hr en hash want (ResultArrives i) s = Some (http_result_arrives en i s)"
| "http_step hr en hash want (TakeReadLock j) s = http_read_lock en j s"
| "http_step hr en hash want (Identified j i) s = identified en j i s"
| "http_step hr en hash want (CallReturns j b) s = http_call_returns en j b s"
| "http_step hr en hash want (DropResult j) s = http_drop_result j s"
| "http_step hr en hash want (SetCallback r i c) s = http_set_result_callback r i c s"
| "http_step hr en hash want (DoneCall r) s = http_done_call r s"
| "http_step hr en hash want (ContextOver r) s = Some (upd r (over_update (\<lambda>_. True)) s)"
| "http_step hr en hash want (StartEnter c) s = http_start c s"
| "http_step hr en hash want (StartBind f) s = http_bind f s"
| "http_step hr en hash want (ServerEnds k f) s = server_ends k f s"
| "http_step hr en hash want StopEnter s = http_stop s"
| "http_step hr en hash want StopServer s = stop_server s"
| "http_step hr en hash want StopWait s = http_stop_wait s"
| "http_step hr en hash want StopCancel s = stop_cut s"

end
