(* ===== verification/Http_Runs.thy ===== *)
theory Http_Runs
  imports Http_Source
begin

text \<open>
  The runs of the HTTP source: what every event of a run presupposes (\<open>http_rule\<close>), the invariant that gives it, and the
  protocol of requests and of \<open>stop\<close> that follows.
\<close>

section \<open>The history of a request\<close>

fun about :: "http_event \<Rightarrow> nat option" where
  "about (Arrived r _ _) = Some r"
| "about (Accepted r) = Some r"
| "about (BeginCall r) = Some r"
| "about (ConsumeCall r) = Some r"
| "about (ConsumeReturned r _) = Some r"
| "about (DoneCalled r) = Some r"
| "about (Wrote r _) = Some r"
| "about (ReadStart _ r) = Some r"
| "about (Called _ r) = Some r"
| "about (ReadEnd _ r) = Some r"
| "about (EndCall r _) = Some r"
| "about (Replied r _) = Some r"
| "about _ = None"

fun main_event :: "http_event \<Rightarrow> bool" where
  "main_event (Arrived _ _ _) = True"
| "main_event (Accepted _) = True"
| "main_event (BeginCall _) = True"
| "main_event (ConsumeCall _) = True"
| "main_event (ConsumeReturned _ _) = True"
| "main_event (EndCall _ _) = True"
| "main_event (Replied _ _) = True"
| "main_event _ = False"

definition hist :: "nat \<Rightarrow> http_event list \<Rightarrow> http_event list" where
  "hist r l = filter (\<lambda>e. main_event e \<and> about e = Some r) l"

fun write_of :: "nat \<Rightarrow> http_event \<Rightarrow> response_write list" where
  "write_of r (Wrote r' w) = (if r' = r then [w] else [])"
| "write_of r _ = []"

text \<open>The response as the handlers have written it.\<close>

definition written :: "nat \<Rightarrow> http_event list \<Rightarrow> response" where
  "written r l = fold apply_write (concat (map (write_of r) l)) response_new"

definition path_to_handler :: "nat \<Rightarrow> nat option \<Rightarrow> string \<Rightarrow> http_event list" where
  "path_to_handler r v m = [Arrived r v m, Accepted r, BeginCall r]"

definition calls_over :: "nat \<Rightarrow> http_event list \<Rightarrow> bool" where
  "calls_over r l \<longleftrightarrow> (\<forall>j. ReadStart j r \<in> set l \<longrightarrow> ReadEnd j r \<in> set l)"

text \<open>With a result stream a request succeeds exactly when \<open>done\<close> was called.\<close>

definition final :: "bool \<Rightarrow> http_result \<Rightarrow> bool \<Rightarrow> http_result" where
  "final has_result c done_called = (if c = None \<and> has_result \<and> \<not> done_called then Some http_cancel_text else c)"

definition accepting :: "http_event list \<Rightarrow> bool" where
  "accepting l = foldl (\<lambda>b e. if e = Reopened then True else if e = Drained then False else b) False l"

fun trouble :: "http_event \<Rightarrow> bool" where
  "trouble StopCut = True"
| "trouble (StopErr _) = True"
| "trouble _ = False"

definition troubled :: "http_event list \<Rightarrow> bool" where
  "troubled l = list_ex trouble l"

definition plain_reply :: "nat \<Rightarrow> nat list \<Rightarrow> response" where
  "plain_reply code b = \<lparr>status = code, headers = [], body = b\<rparr>"

fun http_rule :: "bool \<Rightarrow> string \<Rightarrow> http_event list \<Rightarrow> http_event \<Rightarrow> bool" where
  "http_rule hr want pre (Arrived r v m) \<longleftrightarrow> hist r pre = []"
| "http_rule hr want pre (Accepted r) \<longleftrightarrow>
     (\<exists>v m. hist r pre = [Arrived r v m] \<and> (v \<noteq> None \<longrightarrow> troubled pre \<or> accepting pre))"
| "http_rule hr want pre (BeginCall r) \<longleftrightarrow> (\<exists>v. hist r pre = [Arrived r v want, Accepted r])"
| "http_rule hr want pre (ConsumeCall r) \<longleftrightarrow> (\<exists>v m. hist r pre = path_to_handler r v m)"
| "http_rule hr want pre (ConsumeReturned r c) \<longleftrightarrow> (\<exists>v m. hist r pre = path_to_handler r v m @ [ConsumeCall r])"
| "http_rule hr want pre (EndCall r res) \<longleftrightarrow>
     calls_over r pre \<and>
     (\<exists>v m. hist r pre = path_to_handler r v m \<and> res = Some ''duplicate key'' \<or>
        (\<exists>c. hist r pre = path_to_handler r v m @ [ConsumeCall r, ConsumeReturned r c] \<and> res = final hr c (DoneCalled r \<in> set pre)))"
| "http_rule hr want pre (ReadStart j r) \<longleftrightarrow> hr \<and> ConsumeCall r \<in> set pre \<and> (\<forall>res. EndCall r res \<notin> set pre)"
| "http_rule hr want pre (Called j r) \<longleftrightarrow> ReadStart j r \<in> set pre \<and> ReadEnd j r \<notin> set pre"
| "http_rule hr want pre (Replied r p) \<longleftrightarrow>
     (\<exists>v m. hist r pre = [Arrived r v m] \<and> p = plain_reply 503 [] \<or>
        hist r pre = [Arrived r v m, Accepted r] \<and> (if m = want then \<exists>b. p = plain_reply 400 b else p = plain_reply 405 []) \<or>
        hist r pre = path_to_handler r v m \<and> p = written r pre \<or>
        (\<exists>h res. hist r pre = path_to_handler r v m @ h @ [EndCall r res] \<and> p = written r pre))"
| "http_rule hr want pre Drained \<longleftrightarrow> (\<forall>r. Accepted r \<in> set pre \<longrightarrow> (\<exists>p. Replied r p \<in> set pre))"
| "http_rule hr want pre _ \<longleftrightarrow> True"

lemma http_history_simps [simp]:
  "hist r [] = []" "hist r (l @ l') = hist r l @ hist r l'"
  "hist r (e # l) = (if main_event e \<and> about e = Some r then e # hist r l else hist r l)"
  "accepting (l @ [e]) = (if e = Reopened then True else if e = Drained then False else accepting l)"
  "troubled [] = False" "troubled (l @ l') = (troubled l \<or> troubled l')" "troubled (e # l) = (trouble e \<or> troubled l)"
  by (simp_all add: hist_def accepting_def troubled_def)

lemma written_simps [simp]:
  "written r [] = response_new"
  "written r (l @ [e]) = fold apply_write (write_of r e) (written r l)"
  by (simp_all add: written_def)

lemma written_append: "(\<And>e. e \<in> set es \<Longrightarrow> write_of r e = []) \<Longrightarrow> written r (l @ es) = written r l"
  by (simp add: written_def concat_eq_Nil_conv [THEN iffD2])

lemma hist_set: "e \<in> set (hist r l) \<longleftrightarrow> e \<in> set l \<and> main_event e \<and> about e = Some r"
  by (auto simp: hist_def)

lemma hist_mem:
  "Arrived r v m \<in> set l \<longleftrightarrow> Arrived r v m \<in> set (hist r l)" "Accepted r \<in> set l \<longleftrightarrow> Accepted r \<in> set (hist r l)"
  "BeginCall r \<in> set l \<longleftrightarrow> BeginCall r \<in> set (hist r l)" "ConsumeCall r \<in> set l \<longleftrightarrow> ConsumeCall r \<in> set (hist r l)"
  "EndCall r res \<in> set l \<longleftrightarrow> EndCall r res \<in> set (hist r l)" "Replied r p \<in> set l \<longleftrightarrow> Replied r p \<in> set (hist r l)"
  by (auto simp: hist_set)

section \<open>The invariant\<close>

fun registered :: "http_pc \<Rightarrow> bool" where
  "registered Consuming = True"
| "registered WaitDone = True"
| "registered _ = False"

fun at_ok :: "bool \<Rightarrow> string \<Rightarrow> nat \<Rightarrow> http_request \<Rightarrow> http_event list \<Rightarrow> http_pc \<Rightarrow> bool" where
  "at_ok hr want r q h Entered \<longleftrightarrow> h = [Arrived r (via q) (verb q)]"
| "at_ok hr want r q h Open \<longleftrightarrow> h = [Arrived r (via q) (verb q)]"
| "at_ok hr want r q h Reading \<longleftrightarrow> h = [Arrived r (via q) want, Accepted r] \<and> verb q = want"
| "at_ok hr want r q h Beginning \<longleftrightarrow> h = path_to_handler r (via q) (verb q)"
| "at_ok hr want r q h Consuming \<longleftrightarrow> h = path_to_handler r (via q) (verb q) @ [ConsumeCall r]"
| "at_ok hr want r q h WaitDone \<longleftrightarrow>
     hr \<and> h = path_to_handler r (via q) (verb q) @ [ConsumeCall r, ConsumeReturned r None] \<and> outcome q = None"
| "at_ok hr want r q h (Locking removed late) \<longleftrightarrow>
     removed = (if hr then Some r else None) \<and>
     (\<exists>c. h = path_to_handler r (via q) (verb q) @ [ConsumeCall r, ConsumeReturned r c] \<and>
        (if late then hr \<and> c = None \<and> outcome q = Some http_cancel_text
         else outcome q = c \<and> (c = None \<and> hr \<longrightarrow> is_done q)))"
| "at_ok hr want r q h (Ending removed) \<longleftrightarrow>
     (\<exists>c res. h = path_to_handler r (via q) (verb q) @ [ConsumeCall r, ConsumeReturned r c] @ [EndCall r res])"
| "at_ok hr want r q h EndingDuplicate \<longleftrightarrow> (\<exists>res. h = path_to_handler r (via q) (verb q) @ [] @ [EndCall r res])"
| "at_ok hr want r q h Finished \<longleftrightarrow> (\<exists>p. Replied r p \<in> set h)"

definition request_ok :: "bool \<Rightarrow> string \<Rightarrow> (string \<times> nat) list \<Rightarrow> nat \<Rightarrow> http_request \<Rightarrow> http_event list \<Rightarrow> bool" where
  "request_ok hr want pm r q l \<longleftrightarrow>
     (is_done q \<longleftrightarrow> DoneCalled r \<in> set l) \<and> at_ok hr want r q (hist r l) (request_at q) \<and>
     (request_at q \<noteq> Finished \<longrightarrow> response q = written r l) \<and>
     (registered (request_at q) \<and> hr \<longrightarrow> map_of pm (pending_id q) = Some r) \<and>
     (\<forall>i. map_of pm i = Some r \<longrightarrow> hr \<and> registered (request_at q) \<and> i = pending_id q)"

fun task_ok :: "nat \<Rightarrow> http_event list \<Rightarrow> nat \<Rightarrow> http_result_pc \<Rightarrow> bool" where
  "task_ok n l j (ReadLock r) \<longleftrightarrow> r < n \<and> (\<forall>r'. ReadStart j r' \<notin> set l \<and> ReadEnd j r' \<notin> set l)"
| "task_ok n l j (Identifying r) \<longleftrightarrow>
     (\<forall>r'. (ReadStart j r' \<in> set l \<longleftrightarrow> r' = r) \<and> ReadEnd j r' \<notin> set l) \<and> (\<forall>res. EndCall r res \<notin> set l)"
| "task_ok n l j (Calling r i) \<longleftrightarrow>
     (\<forall>r'. (ReadStart j r' \<in> set l \<longleftrightarrow> r' = r) \<and> ReadEnd j r' \<notin> set l) \<and> (\<forall>res. EndCall r res \<notin> set l)"
| "task_ok n l j Over \<longleftrightarrow> (\<forall>r. ReadStart j r \<in> set l \<longrightarrow> ReadEnd j r \<in> set l)"

definition tasks_ok :: "nat \<Rightarrow> http_event list \<Rightarrow> http_result_task list \<Rightarrow> bool" where
  "tasks_ok n l ts \<longleftrightarrow>
     (\<forall>j<length ts. task_ok n l j (result_at (ts ! j))) \<and>
     (\<forall>j r. ReadStart j r \<in> set l \<or> ReadEnd j r \<in> set l \<longrightarrow> j < length ts)"

definition life_ok :: "http_source \<Rightarrow> bool" where
  "life_ok s \<longleftrightarrow>
     (\<forall>k<length (servers s). ended (servers s ! k) \<noteq> Some None \<longrightarrow>
        troubled (log s) \<or> server_task s = Some k \<or> life s = AwaitServer k) \<and>
     (\<forall>q\<in>set (requests s). \<forall>k. in_progress k q \<longrightarrow> k < length (servers s) \<and> ended (servers s ! k) \<noteq> Some None) \<and>
     (server_task s \<noteq> None \<longrightarrow> started s \<and> life s = Idle \<and> accepting (log s)) \<and>
     (life s = Binding \<longrightarrow> started s \<and> accepting (log s)) \<and> (\<forall>k. life s = AwaitServer k \<longrightarrow> accepting (log s))"

definition http_ok :: "bool \<Rightarrow> string \<Rightarrow> http_source \<Rightarrow> bool" where
  "http_ok hr want s \<longleftrightarrow>
     (\<forall>r<length (requests s). request_ok hr want (pending s) r (requests s ! r) (log s)) \<and>
     (\<forall>i r. map_of (pending s) i = Some r \<longrightarrow> r < length (requests s)) \<and>
     (\<forall>e r. e \<in> set (log s) \<longrightarrow> about e = Some r \<longrightarrow> r < length (requests s)) \<and>
     tasks_ok (length (requests s)) (log s) (results s) \<and> life_ok s \<and> always (http_rule hr want) (log s)"

lemma http_okD:
  assumes "http_ok hr want s"
  shows "r < length (requests s) \<Longrightarrow> request_ok hr want (pending s) r (requests s ! r) (log s)"
    "map_of (pending s) i = Some r \<Longrightarrow> r < length (requests s)"
    "e \<in> set (log s) \<Longrightarrow> about e = Some r \<Longrightarrow> r < length (requests s)"
    "tasks_ok (length (requests s)) (log s) (results s)" "life_ok s" "always (http_rule hr want) (log s)"
  using assms unfolding http_ok_def by blast+

lemma source_new_ok: "http_ok hr want (source_new en i)"
  by (simp add: http_ok_def source_new_def tasks_ok_def life_ok_def)

section \<open>Frames\<close>

fun quiet :: "http_event \<Rightarrow> bool" where
  "quiet (ReadStart _ _) = False"
| "quiet (ReadEnd _ _) = False"
| "quiet Reopened = False"
| "quiet Drained = False"
| "quiet e = (\<not> trouble e)"

lemma quiet_event: "quiet e \<Longrightarrow> \<not> trouble e \<and> e \<noteq> Reopened \<and> e \<noteq> Drained \<and> e \<noteq> ReadStart j r \<and> e \<noteq> ReadEnd j r"
  by (cases e) auto

lemma quiet_all:
  assumes "list_all quiet es"
  shows "accepting (l @ es) = accepting l" "troubled (l @ es) = troubled l" "ReadStart j r \<notin> set es" "ReadEnd j r \<notin> set es"
proof -
  show "accepting (l @ es) = accepting l"
    using assms
  proof (induction es rule: rev_induct)
    case (snoc e es)
    then show ?case using quiet_event [of e] http_history_simps(4) [of "l @ es" e] by simp
  qed simp
  have "\<not> troubled es" using assms by (induction es) (auto dest: quiet_event)
  then show "troubled (l @ es) = troubled l" by simp
  show "ReadStart j r \<notin> set es" "ReadEnd j r \<notin> set es" using assms by (auto simp: list_all_iff)
qed

lemma tasks_frame:
  assumes "tasks_ok n l ts" "n \<le> n'" "list_all quiet es"
    and "\<And>r res. EndCall r res \<in> set es \<Longrightarrow> list_all (\<lambda>t. \<not> reads r (result_at t)) ts"
  shows "tasks_ok n' (l @ es) ts"
proof -
  have "task_ok n' (l @ es) j (result_at (ts ! j))" if j: "j < length ts" for j
  proof -
    have old: "task_ok n l j (result_at (ts ! j))" using assms(1) j by (simp add: tasks_ok_def)
    have "\<not> reads r (result_at (ts ! j))" if "EndCall r res \<in> set es" for r res
      using assms(4) [OF that] j by (simp add: list_all_length)
    then show ?thesis using old assms(2) quiet_all(3,4) [OF assms(3)] by (cases "result_at (ts ! j)") auto
  qed
  moreover have "j < length ts" if "ReadStart j r \<in> set (l @ es) \<or> ReadEnd j r \<in> set (l @ es)" for j r
    using that assms(1) quiet_all(3,4) [OF assms(3)] by (auto simp: tasks_ok_def)
  ultimately show ?thesis by (simp add: tasks_ok_def)
qed

lemma life_frame:
  assumes ok: "life_ok s"
    and s': "servers s' = servers s" "server_task s' = server_task s" "life s' = life s" "started s' = started s" "log s' = log s @ es"
    and es: "list_all quiet es"
    and rs: "\<And>q k. q \<in> set (requests s') \<Longrightarrow> in_progress k q \<Longrightarrow>
      (\<exists>q'\<in>set (requests s). in_progress k q') \<or> k < length (servers s) \<and> ended (servers s ! k) \<noteq> Some None"
  shows "life_ok s'"
proof -
  have "k < length (servers s) \<and> ended (servers s ! k) \<noteq> Some None" if "q \<in> set (requests s')" "in_progress k q" for q k
    using rs [OF that] ok unfolding life_ok_def by blast
  then show ?thesis using ok unfolding life_ok_def s' quiet_all(1,2) [OF es] by blast
qed

lemma others:
  assumes "\<And>e. e \<in> set es \<Longrightarrow> about e \<noteq> Some r"
  shows "hist r (l @ es) = hist r l" "written r (l @ es) = written r l" "DoneCalled r \<in> set (l @ es) \<longleftrightarrow> DoneCalled r \<in> set l"
proof -
  show "hist r (l @ es) = hist r l" using assms by (auto simp: hist_def filter_empty_conv)
  have "write_of r e = []" if "e \<in> set es" for e using assms [OF that] by (cases e) auto
  then show "written r (l @ es) = written r l" by (rule written_append)
  show "DoneCalled r \<in> set (l @ es) \<longleftrightarrow> DoneCalled r \<in> set l" using assms [of "DoneCalled r"] by auto
qed

lemma request_frame:
  assumes "request_ok hr want pm r q l" "\<And>e. e \<in> set es \<Longrightarrow> about e \<noteq> Some r"
    and "\<And>i. map_of pm' i = Some r \<longleftrightarrow> map_of pm i = Some r"
  shows "request_ok hr want pm' r q (l @ es)"
  using assms(1,3) others [where es = es and r = r and l = l, OF assms(2)] by (simp add: request_ok_def)

text \<open>A step of one request.\<close>

lemma step_request:
  assumes ok: "http_ok hr want s" and r: "r < length (requests s)"
    and s': "requests s' = (requests s)[r := q]" "log s' = log s @ es" "results s' = results s"
      "servers s' = servers s" "server_task s' = server_task s" "life s' = life s" "started s' = started s"
    and q: "request_ok hr want (pending s') r q (log s')" "via q = via (requests s ! r)"
      "request_at q = Entered \<or> request_at q = Open \<Longrightarrow> request_at (requests s ! r) = Entered \<or> request_at (requests s ! r) = Open"
    and es: "list_all quiet es" "\<And>e r'. e \<in> set es \<Longrightarrow> about e = Some r' \<Longrightarrow> r' = r"
      "\<And>res. EndCall r res \<in> set es \<Longrightarrow> no_reader r s"
    and pm: "\<And>i r'. r' \<noteq> r \<Longrightarrow> map_of (pending s') i = Some r' \<longleftrightarrow> map_of (pending s) i = Some r'"
    and alw: "always (http_rule hr want) (log s')"
  shows "http_ok hr want s'"
proof -
  have "request_ok hr want (pending s') r' (requests s' ! r') (log s')" if r': "r' < length (requests s)" for r'
  proof (cases "r' = r")
    case False
    then show ?thesis
      using request_frame [OF http_okD(1) [OF ok r'], of es "pending s'"] es(2) pm [OF False] s' by auto
  qed (use q s' r in simp)
  moreover have "r' < length (requests s)" if "map_of (pending s') i = Some r'" for i r'
    using that r pm [of r' i] http_okD(2) [OF ok, of i r'] by (cases "r' = r") auto
  moreover have "r' < length (requests s)" if "e \<in> set (log s')" "about e = Some r'" for e r'
    using that r s'(2) es(2) http_okD(3) [OF ok] by auto
  moreover have "list_all (\<lambda>t. \<not> reads r' (result_at t)) (results s)" if "EndCall r' res \<in> set es" for r' res
    using that es(2) [OF that] es(3) by (simp add: no_reader_def)
  then have "tasks_ok (length (requests s)) (log s') (results s')"
    unfolding s' by (rule tasks_frame [OF http_okD(4) [OF ok] order_refl es(1)])
  moreover have "life_ok s'"
  proof (rule life_frame [OF http_okD(5) [OF ok] s'(4-7,2) es(1)])
    fix q' k assume "q' \<in> set (requests s')" "in_progress k q'"
    then consider "q' \<in> set (requests s)" | "q' = q"
      using s'(1) set_update_subset_insert [of "requests s" r q] by auto
    then have "\<exists>q'\<in>set (requests s). in_progress k q'"
    proof cases
      case 2
      then have "in_progress k (requests s ! r)" using \<open>in_progress k q'\<close> q(2,3) by (auto simp: in_progress_def)
      then show ?thesis using r nth_mem by blast
    qed (use \<open>in_progress k q'\<close> in blast)
    then show "(\<exists>q'\<in>set (requests s). in_progress k q') \<or> k < length (servers s) \<and> ended (servers s ! k) \<noteq> Some None" ..
  qed
  ultimately show ?thesis using alw s'(1) unfolding http_ok_def by simp
qed

section \<open>Steps of a request\<close>

lemma field_simps_state [simp]:
  "requests (logged es s) = requests s" "pending (logged es s) = pending s" "results (logged es s) = results s"
  "log (logged es s) = log s @ es" "servers (logged es s) = servers s" "server_task (logged es s) = server_task s"
  "life (logged es s) = life s" "started (logged es s) = started s"
  "requests (upd r f s) = (requests s)[r := f (requests s ! r)]" "pending (upd r f s) = pending s"
  "results (upd r f s) = results s" "log (upd r f s) = log s" "servers (upd r f s) = servers s" "server_task (upd r f s) = server_task s"
  "life (upd r f s) = life s" "started (upd r f s) = started s"
  "requests (set_result j pc s) = requests s" "pending (set_result j pc s) = pending s"
  "results (set_result j pc s) = (results s)[j := (results s ! j)\<lparr>result_at := pc\<rparr>]" "log (set_result j pc s) = log s"
  "servers (set_result j pc s) = servers s" "server_task (set_result j pc s) = server_task s" "life (set_result j pc s) = life s"
  "started (set_result j pc s) = started s"
  by (simp_all add: logged_def upd_def set_result_def)

lemma http_move_simps [simp]:
  "requests (move r pc s) = (requests s)[r := (requests s ! r)\<lparr>request_at := pc\<rparr>]" "pending (move r pc s) = pending s"
  "results (move r pc s) = results s" "log (move r pc s) = log s" "servers (move r pc s) = servers s"
  "server_task (move r pc s) = server_task s" "life (move r pc s) = life s" "started (move r pc s) = started s"
  by (simp_all add: move_def)

lemma http_counted_simps [simp]:
  "requests (counted en c s) = requests s" "pending (counted en c s) = pending s" "results (counted en c s) = results s"
  "log (counted en c s) = log s @ (if en then [Counted c] else [])" "servers (counted en c s) = servers s"
  "server_task (counted en c s) = server_task s" "life (counted en c s) = life s" "started (counted en c s) = started s"
  by (simp_all add: counted_def)

lemma reply_simps [simp]:
  "requests (into_response r s) = (requests s)[r := (requests s ! r)\<lparr>request_at := Finished, response := (response (requests s ! r))\<lparr>body := []\<rparr>\<rparr>]"
  "log (into_response r s) = log s @ [Replied r (response (requests s ! r))]" "pending (into_response r s) = pending s"
  "results (into_response r s) = results s" "servers (into_response r s) = servers s" "server_task (into_response r s) = server_task s"
  "life (into_response r s) = life s" "started (into_response r s) = started s"
  "requests (refuse r n b s) = (requests s)[r := (requests s ! r)\<lparr>request_at := Finished\<rparr>]"
  "log (refuse r n b s) = log s @ [Replied r (plain_reply n b)]" "pending (refuse r n b s) = pending s"
  "results (refuse r n b s) = results s" "servers (refuse r n b s) = servers s" "server_task (refuse r n b s) = server_task s"
  "life (refuse r n b s) = life s" "started (refuse r n b s) = started s"
  by (simp_all add: into_response_def refuse_def plain_reply_def)

lemma http_atD: "at r s = Some pc \<Longrightarrow> r < length (requests s) \<and> request_at (requests s ! r) = pc"
  by (simp add: at_def split: if_splits)

text \<open>The facts about a request that is at a known place.\<close>

lemma at_facts:
  assumes ok: "http_ok hr want s" and "at r s = Some pc"
  shows "r < length (requests s)" "request_at (requests s ! r) = pc" "is_done (requests s ! r) \<longleftrightarrow> DoneCalled r \<in> set (log s)"
    "at_ok hr want r (requests s ! r) (hist r (log s)) pc" "pc \<noteq> Finished \<Longrightarrow> response (requests s ! r) = written r (log s)"
    "registered pc \<Longrightarrow> hr \<Longrightarrow> map_of (pending s) (pending_id (requests s ! r)) = Some r"
    "map_of (pending s) i = Some r \<Longrightarrow> registered pc" "map_of (pending s) i = Some r \<Longrightarrow> i = pending_id (requests s ! r)" "map_of (pending s) i = Some r \<Longrightarrow> hr"
proof -
  show len: "r < length (requests s)" and at: "request_at (requests s ! r) = pc" using http_atD [OF assms(2)] by auto
  note q = http_okD(1) [OF ok len, unfolded request_ok_def at]
  show "is_done (requests s ! r) \<longleftrightarrow> DoneCalled r \<in> set (log s)" "at_ok hr want r (requests s ! r) (hist r (log s)) pc"
    "pc \<noteq> Finished \<Longrightarrow> response (requests s ! r) = written r (log s)"
    "registered pc \<Longrightarrow> hr \<Longrightarrow> map_of (pending s) (pending_id (requests s ! r)) = Some r"
    "map_of (pending s) i = Some r \<Longrightarrow> registered pc" "map_of (pending s) i = Some r \<Longrightarrow> i = pending_id (requests s ! r)" "map_of (pending s) i = Some r \<Longrightarrow> hr"
    using q by blast+
qed

text \<open>A step that does not touch the pending requests and keeps the request unregistered.\<close>

lemma step_plain:
  assumes ok: "http_ok hr want s" and r: "at r s = Some pc" "\<not> registered pc"
    and s': "requests s' = (requests s)[r := q]" "log s' = log s @ es" "results s' = results s"
      "servers s' = servers s" "server_task s' = server_task s" "life s' = life s" "started s' = started s" "pending s' = pending s"
    and q: "via q = via (requests s ! r)" "is_done q = is_done (requests s ! r)" "\<not> (registered (request_at q) \<and> hr)"
      "request_at q = Entered \<or> request_at q = Open \<Longrightarrow> pc = Entered \<or> pc = Open"
      "at_ok hr want r q (hist r (log s @ es)) (request_at q)" "request_at q \<noteq> Finished \<Longrightarrow> response q = written r (log s @ es)"
    and es: "list_all quiet es" "\<And>e r'. e \<in> set es \<Longrightarrow> about e = Some r' \<Longrightarrow> r' = r" "DoneCalled r \<notin> set es"
      "\<And>res. EndCall r res \<in> set es \<Longrightarrow> no_reader r s"
    and alw: "always (http_rule hr want) (log s @ es)"
  shows "http_ok hr want s'"
proof (rule step_request [OF ok _ s'(1-7)])
  note f = at_facts [OF ok r(1)]
  show "r < length (requests s)" by (rule f(1))
  show "request_ok hr want (pending s') r q (log s')"
    using q f(3,7) r(2) es(3) s'(2,8) by (auto simp: request_ok_def)
  show "request_at (requests s ! r) = Entered \<or> request_at (requests s ! r) = Open" if "request_at q = Entered \<or> request_at q = Open"
    using q(4) [OF that] f(2) by simp
  show "always (http_rule hr want) (log s')" using alw s'(2) by simp
qed (use s'(8) in \<open>auto intro: q(1) es(1) es(4) dest: es(2)\<close>)

lemma check_closed_ok:
  assumes ok: "http_ok hr want s" and step: "check_closed r s = Some s'"
  shows "http_ok hr want s'"
proof -
  have r: "at r s = Some Entered" using step by (auto simp: check_closed_def split: if_splits)
  note f = at_facts [OF ok r]
  have s': "s' = (if closed s then refuse r 503 [] s else logged [] (move r Open s))"
    using step r by (auto simp: check_closed_def logged_def)
  show ?thesis
    by (rule step_plain [OF ok r, where q = "(requests s ! r)\<lparr>request_at := (if closed s then Finished else Open)\<rparr>" and
        es = "if closed s then [Replied r (plain_reply 503 [])] else []"])
      (use s' f http_okD(6) [OF ok] in \<open>auto simp: always_snoc\<close>)
qed

lemma counted_reply:
  assumes "always (http_rule hr want) l" "http_rule hr want l (Replied r p)"
  shows "always (http_rule hr want) (l @ (if en then [Counted c] else []) @ [Replied r p])"
proof (cases en)
  case True
  have "http_rule hr want (l @ [Counted c]) (Replied r p)" using assms(2) by simp
  then show ?thesis
    using True always_snoc [of "http_rule hr want" "l @ [Counted c]" "Replied r p"] assms(1) by (simp add: always_snoc del: http_rule.simps(9))
qed (use assms in \<open>simp add: always_snoc\<close>)

lemma track_ok:
  assumes ok: "http_ok hr want s" and step: "track en want r s = Some s'"
  shows "http_ok hr want s'"
proof -
  have r: "at r s = Some Open" using step by (auto simp: track_def split: if_splits)
  note f = at_facts [OF ok r]
  have "in_progress k (requests s ! r)" if "via (requests s ! r) = Some k" for k using that f(2) by (simp add: in_progress_def)
  then have "troubled (log s) \<or> accepting (log s)" if "via (requests s ! r) = Some k" for k
    using that http_okD(5) [OF ok] f(1) nth_mem [OF f(1)] unfolding life_ok_def by (metis option.discI)
  then have "http_rule hr want (log s) (Accepted r)" using f(4) by (cases "via (requests s ! r)") auto
  then have alw: "always (http_rule hr want) (log s @ [Accepted r])" using http_okD(6) [OF ok] by (simp add: always_snoc del: http_rule.simps)
  show ?thesis
  proof (cases "verb (requests s ! r) = want")
    case True
    show ?thesis
      by (rule step_plain [OF ok r, where q = "(requests s ! r)\<lparr>request_at := Reading\<rparr>" and es = "[Accepted r]"])
        (use step r True f alw in \<open>auto simp: track_def\<close>)
  next
    case False
    let ?es = "[Accepted r] @ (if en then [Counted InvalidHttpMethod] else []) @ [Replied r (plain_reply 405 [])]"
    have "http_rule hr want (log s @ [Accepted r]) (Replied r (plain_reply 405 []))" using f(4) False by auto
    from counted_reply [OF alw this] have "always (http_rule hr want) (log s @ ?es)" by simp
    then show ?thesis
      by (intro step_plain [OF ok r, where q = "(requests s ! r)\<lparr>request_at := Finished\<rparr>" and es = ?es])
        (use step r False f in \<open>auto simp: track_def\<close>)
  qed
qed

lemma body_read_ok:
  assumes ok: "http_ok hr want s" and step: "body_read r b s = Some s'"
  shows "http_ok hr want s'"
proof -
  have r: "at r s = Some Reading" using step by (auto simp: body_read_def split: if_splits)
  note f = at_facts [OF ok r]
  show ?thesis
  proof (cases b)
    case None
    then show ?thesis
      by (intro step_plain [OF ok r, where q = "(requests s ! r)\<lparr>request_at := Beginning\<rparr>" and es = "[BeginCall r]"])
        (use step r f http_okD(6) [OF ok] in \<open>auto simp: body_read_def always_snoc path_to_handler_def\<close>)
  next
    case (Some t)
    then show ?thesis
      by (intro step_plain [OF ok r, where q = "(requests s ! r)\<lparr>request_at := Finished\<rparr>" and es = "[Replied r (plain_reply 400 t)]"])
        (use step r f http_okD(6) [OF ok] in \<open>auto simp: body_read_def always_snoc\<close>)
  qed
qed

lemma no_reader_yet:
  assumes ok: "http_ok hr want s" and "ConsumeCall r \<notin> set (log s)"
  shows "calls_over r (log s)" "no_reader r s"
proof -
  have none: "ReadStart j r \<notin> set (log s)" for j
  proof
    assume "ReadStart j r \<in> set (log s)"
    then obtain l1 l2 where l: "log s = l1 @ ReadStart j r # l2" by (auto dest: split_list)
    from always_at [OF http_okD(6) [OF ok] this] show False using assms(2) l by simp
  qed
  then show "calls_over r (log s)" by (simp add: calls_over_def)
  have "\<not> reads r (result_at (results s ! j))" if "j < length (results s)" for j
    using none [of j] http_okD(4) [OF ok] that unfolding tasks_ok_def by (cases "result_at (results s ! j)") fastforce+
  then show "no_reader r s" by (simp add: no_reader_def list_all_length)
qed

lemma http_begin_returns_ok:
  assumes ok: "http_ok hr want s" and step: "http_begin_returns hr en hash r res now stamp s = Some s'"
  shows "http_ok hr want s'"
proof -
  have r: "at r s = Some Beginning" using step by (auto simp: http_begin_returns_def split: if_splits)
  note f = at_facts [OF ok r]
  have same: "results s' = results s" "servers s' = servers s" "server_task s' = server_task s" "life s' = life s" "started s' = started s"
    using step r by (auto simp: http_begin_returns_def Let_def split: sum.splits option.splits prod.splits if_splits)
  have h: "hist r (log s) = path_to_handler r (via (requests s ! r)) (verb (requests s ! r))" using f(4) by simp
  have not: "ConsumeCall r \<notin> set (log s)" using h by (simp add: hist_mem(4) path_to_handler_def)
  consider e where "res = Inl e" "s' = into_response r (counted en BeginRequestFailed s)"
    | i where "requests s' = (requests s)[r := (requests s ! r)\<lparr>pending_id := i, request_at := EndingDuplicate\<rparr>]"
        "log s' = log s @ [EndCall r (Some ''duplicate key'')]" "pending s' = pending s"
    | i where "requests s' = (requests s)[r := (requests s ! r)\<lparr>pending_id := i, request_at := Consuming\<rparr>]"
        "log s' = log s @ [ConsumeCall r]" "hr \<Longrightarrow> map_of (pending s) i = None"
        "pending s' = (if hr then hm_insert i r (pending s) else pending s)"
    using step r f(1) by (auto simp: http_begin_returns_def Let_def split: sum.splits option.splits prod.splits if_splits)
  then show ?thesis
  proof cases
    case 1
    let ?es = "(if en then [Counted BeginRequestFailed] else []) @ [Replied r (response (requests s ! r))]"
    have "always (http_rule hr want) (log s @ ?es)"
      by (rule counted_reply [OF http_okD(6) [OF ok]]) (use f(5) h in auto)
    then show ?thesis
      by (intro step_plain [OF ok r, where q = "(requests s ! r)\<lparr>request_at := Finished, response := (response (requests s ! r))\<lparr>body := []\<rparr>\<rparr>" and es = ?es])
        (use 1 in auto)
  next
    case 2
    have "http_rule hr want (log s) (EndCall r (Some ''duplicate key''))" using h no_reader_yet(1) [OF ok not] by auto
    then have "always (http_rule hr want) (log s')" using http_okD(6) [OF ok] 2(2) by (simp add: always_snoc del: http_rule.simps)
    then show ?thesis
      by (intro step_plain [OF ok r _ 2(1,2) same 2(3)]) (use 2 f h no_reader_yet(2) [OF ok not] in auto)
  next
    case 3
    have "always (http_rule hr want) (log s')" using http_okD(6) [OF ok] 3(2) h by (auto simp: always_snoc)
    moreover have "request_ok hr want (pending s') r ((requests s ! r)\<lparr>pending_id := i, request_at := Consuming\<rparr>) (log s')"
      using 3 f h by (auto simp: request_ok_def split: if_splits)
    ultimately show ?thesis
      by (intro step_request [OF ok f(1) 3(1,2) same]) (use 3 in \<open>auto split: if_splits\<close>)
  qed
qed

lemma http_remove_ok:
  assumes ok: "http_ok hr want s" and r: "at r s = Some pc" "registered pc"
    and t: "requests t = (requests s)[r := (requests s ! r)\<lparr>outcome := x\<rparr>]" "log t = log s @ es" "results t = results s" "pending t = pending s"
      "servers t = servers s" "server_task t = server_task s" "life t = life s" "started t = started s"
    and es: "es = [] \<or> es = [ConsumeReturned r c]"
    and h: "hist r (log t) = path_to_handler r (via (requests s ! r)) (verb (requests s ! r)) @ [ConsumeCall r, ConsumeReturned r c]"
    and x: "if late then hr \<and> c = None \<and> x = Some http_cancel_text else x = c \<and> (c = None \<and> hr \<longrightarrow> is_done (requests s ! r))"
    and alw: "always (http_rule hr want) (log t)"
  shows "http_ok hr want (http_remove_request hr hash r late t)"
proof -
  note f = at_facts [OF ok r(1)]
  let ?i = "pending_id (requests s ! r)"
  let ?q = "(requests s ! r)\<lparr>outcome := x, request_at := Locking (if hr then Some r else None) late\<rparr>"
  have reg: "hr \<Longrightarrow> map_of (pending s) ?i = Some r" using f(6) r(2) by blast
  let ?s = "http_remove_request hr hash r late t"
  have s': "requests ?s = (requests s)[r := ?q]" "log ?s = log s @ es" "results ?s = results s" "servers ?s = servers s"
      "server_task ?s = server_task s" "life ?s = life s" "started ?s = started s"
      "pending ?s = (if hr then hm_remove ?i (pending s) else pending s)"
    using t reg f(1) by (auto simp: http_remove_request_def Let_def)
  have pend: "map_of (pending ?s) i = Some r' \<longleftrightarrow> map_of (pending s) i = Some r'" if "r' \<noteq> r" for i r'
    using reg that by (auto simp: s'(8))
  have none: "map_of (pending ?s) i \<noteq> Some r" for i unfolding s'(8) using f(8,9) by auto
  have wr: "written r (log s @ es) = written r (log s)" "DoneCalled r \<in> set (log s @ es) \<longleftrightarrow> DoneCalled r \<in> set (log s)"
    using es by (auto simp: written_append)
  have "at_ok hr want r ?q (hist r (log s @ es)) (request_at ?q)" using h x t(2) by auto
  moreover have "response ?q = written r (log s)" using f(2,5) r(2) by (cases pc) auto
  ultimately have "request_ok hr want (pending ?s) r ?q (log ?s)"
    using none f(3) wr s'(2,8) by (auto simp: request_ok_def)
  then show ?thesis
    by (rule step_request [OF ok f(1) s'(1-7)]) (use es pend alw s'(2) t(2) in auto)
qed

lemma http_consume_returns_ok:
  assumes ok: "http_ok hr want s" and step: "http_consume_returns hr hash r res s = Some s'"
  shows "http_ok hr want s'"
proof -
  let ?t = "logged [ConsumeReturned r res] (upd r (outcome_update (\<lambda>_. res)) s)"
  have r: "at r s = Some Consuming" using step by (auto simp: http_consume_returns_def split: if_splits)
  note f = at_facts [OF ok r]
  have alw: "always (http_rule hr want) (log ?t)" using http_okD(6) [OF ok] f(4) by (auto simp: always_snoc)
  consider "res = None" hr "s' = move r WaitDone ?t" | "res = None \<longrightarrow> \<not> hr" "s' = http_remove_request hr hash r False ?t"
    using step r by (auto simp: http_consume_returns_def Let_def split: if_splits)
  then show ?thesis
  proof cases
    case 1
    let ?q = "(requests s ! r)\<lparr>outcome := None, request_at := WaitDone\<rparr>"
    have "request_ok hr want (pending s') r ?q (log s')"
      using http_okD(1) [OF ok f(1), unfolded request_ok_def f(2)] 1 by (simp add: request_ok_def)
    moreover have "requests s' = (requests s)[r := ?q]" "log s' = log s @ [ConsumeReturned r None]" using 1 f(1) by auto
    ultimately show ?thesis
      using step_request [OF ok f(1), of s' ?q "[ConsumeReturned r None]"] f(2) alw 1 by simp
  next
    case 2
    then show ?thesis
      using http_remove_ok [OF ok r, of ?t res "[ConsumeReturned r res]" res False hash] f(4) alw by auto
  qed
qed

lemma http_wait_ends_ok:
  assumes ok: "http_ok hr want s" and step: "http_wait_ends hr hash r b s = Some s'"
  shows "http_ok hr want s'"
proof -
  have r: "at r s = Some WaitDone" using step by (auto simp: http_wait_ends_def split: if_splits)
  note f = at_facts [OF ok r]
  have "(requests s ! r)\<lparr>outcome := None\<rparr> = requests s ! r" using f(4) by (cases "requests s ! r") simp
  then have same: "requests s = (requests s)[r := (requests s ! r)\<lparr>outcome := None\<rparr>]" by simp
  show ?thesis
    using step r http_remove_ok [OF ok r, of s None "[]" None False hash] f(4) same http_okD(6) [OF ok]
      http_remove_ok [OF ok r, of "upd r (outcome_update (\<lambda>_. Some http_cancel_text)) s" "Some http_cancel_text" "[]" None True hash]
    by (auto simp: http_wait_ends_def split: if_splits)
qed

lemma readers_over:
  assumes ok: "http_ok hr want s" and "no_reader r s"
  shows "calls_over r (log s)"
  unfolding calls_over_def
proof (intro allI impI)
  fix j assume j: "ReadStart j r \<in> set (log s)"
  then have len: "j < length (results s)" and t: "task_ok (length (requests s)) (log s) j (result_at (results s ! j))"
    using http_okD(4) [OF ok] unfolding tasks_ok_def by blast+
  have "\<not> reads r (result_at (results s ! j))" using assms(2) len by (simp add: no_reader_def list_all_length)
  then show "ReadEnd j r \<in> set (log s)" using t j by (cases "result_at (results s ! j)") auto
qed

lemma no_result_no_reader:
  assumes ok: "http_ok False want s"
  shows "no_reader r s"
proof -
  have none: "ReadStart j r \<notin> set (log s)" for j
    using always_at [OF http_okD(6) [OF ok]] by (fastforce dest: split_list)
  have "\<not> reads r (result_at (results s ! j))" if "j < length (results s)" for j
    using none [of j] http_okD(4) [OF ok] that unfolding tasks_ok_def by (cases "result_at (results s ! j)") fastforce+
  then show ?thesis by (simp add: no_reader_def list_all_length)
qed

lemma http_lock_write_ok:
  assumes ok: "http_ok hr want s" and step: "http_lock_write r s = Some s'"
  shows "http_ok hr want s'"
proof -
  obtain removed late where r: "at r s = Some (Locking removed late)"
    using step by (auto simp: http_lock_write_def split: option.splits http_pc.splits)
  note f = at_facts [OF ok r]
  let ?q = "requests s ! r"
  define res where "res = (if late \<and> is_done ?q then None else outcome ?q)"
  obtain c where c: "removed = (if hr then Some r else None)"
      "hist r (log s) = path_to_handler r (via ?q) (verb ?q) @ [ConsumeCall r, ConsumeReturned r c]"
      "if late then hr \<and> c = None \<and> outcome ?q = Some http_cancel_text else outcome ?q = c \<and> (c = None \<and> hr \<longrightarrow> is_done ?q)"
    using f(4) by auto
  have rd: "no_reader r s"
    using step r c(1) no_result_no_reader ok by (cases hr) (auto simp: http_lock_write_def Let_def split: if_splits)
  have "res = final hr c (DoneCalled r \<in> set (log s))" using c(3) f(3) by (auto simp: final_def res_def split: if_splits)
  then have "http_rule hr want (log s) (EndCall r res)"
    unfolding http_rule.simps using c(2) readers_over [OF ok rd] by blast
  then have alw: "always (http_rule hr want) (log s @ [EndCall r res])" using http_okD(6) [OF ok] by (simp add: always_snoc del: http_rule.simps)
  have "s' = logged [EndCall r res] (upd r (\<lambda>q. q\<lparr>request_at := Ending removed, outcome := res\<rparr>) s)"
    using step r by (simp add: http_lock_write_def Let_def res_def [symmetric] split: if_splits)
  then show ?thesis
    by (intro step_plain [OF ok r, where q = "?q\<lparr>request_at := Ending removed, outcome := res\<rparr>" and es = "[EndCall r res]"])
      (use f c(1,2) rd alw in auto)
qed

lemma http_end_returns_ok:
  assumes ok: "http_ok hr want s" and step: "http_end_returns en r s = Some s'"
  shows "http_ok hr want s'"
proof -
  obtain pc where r: "at r s = Some pc" "pc = EndingDuplicate \<or> (\<exists>x. pc = Ending x)"
    using step by (auto simp: http_end_returns_def Let_def split: option.splits http_pc.splits)
  note f = at_facts [OF ok r(1)]
  let ?q = "requests s ! r"
  let ?c = "if pc \<noteq> EndingDuplicate \<and> outcome ?q = None then MessagesTotal else RequestErrors"
  let ?es = "(if en then [Counted ?c] else []) @ [Replied r (response ?q)]"
  have "s' = into_response r (counted en ?c (upd r (callbacks_update (\<lambda>_. None)) (s\<lparr>active_gauge := active_gauge s - (if en then 1 else 0)\<rparr>)))"
    using step r by (auto simp: http_end_returns_def Let_def)
  moreover have "http_rule hr want (log s) (Replied r (response ?q))"
    unfolding http_rule.simps using f(4,5) r(2) by (elim disjE exE) (simp only: at_ok.simps http_pc.simps, blast)+
  then have "always (http_rule hr want) (log s @ ?es)" by (rule counted_reply [OF http_okD(6) [OF ok]])
  ultimately show ?thesis
    by (intro step_plain [OF ok r(1), where q = "?q\<lparr>callbacks := None, request_at := Finished, response := (response ?q)\<lparr>body := []\<rparr>\<rparr>" and es = ?es])
      (use r f(1) in auto)
qed

section \<open>Handlers\<close>

lemma http_logged_Nil [simp]: "logged [] s = s"
  by (simp add: logged_def)

lemma at_ok_same:
  assumes "at_ok hr want r q h pc" "via q' = via q" "verb q' = verb q" "outcome q' = outcome q" "is_done q \<longrightarrow> is_done q'"
  shows "at_ok hr want r q' h pc"
  using assms by (cases pc) auto

text \<open>A handler touches a request without moving it.\<close>

lemma touch_ok:
  assumes ok: "http_ok hr want s" and r: "r < length (requests s)"
    and f: "\<And>q. via (f q) = via q" "\<And>q. verb (f q) = verb q" "\<And>q. outcome (f q) = outcome q" "\<And>q. request_at (f q) = request_at q"
      "\<And>q. pending_id (f q) = pending_id q"
    and es: "list_all quiet es" "\<And>e. e \<in> set es \<Longrightarrow> about e = Some r \<and> \<not> main_event e"
    and q: "is_done (f (requests s ! r)) \<longleftrightarrow> is_done (requests s ! r) \<or> DoneCalled r \<in> set es"
      "response (requests s ! r) = written r (log s) \<Longrightarrow> response (f (requests s ! r)) = written r (log s @ es)"
    and alw: "always (http_rule hr want) (log s @ es)"
  shows "http_ok hr want (logged es (upd r f s))"
proof (rule step_request [OF ok r, where q = "f (requests s ! r)" and es = es])
  have h: "hist r (log s @ es) = hist r (log s)" using es(2) by (auto simp: hist_def filter_empty_conv)
  note old = http_okD(1) [OF ok r, unfolded request_ok_def]
  have "at_ok hr want r (requests s ! r) (hist r (log s)) (request_at (requests s ! r))" using old by blast
  then have "at_ok hr want r (f (requests s ! r)) (hist r (log s)) (request_at (requests s ! r))"
    by (rule at_ok_same [OF _ f(1-3)]) (use q(1) in blast)
  then show "request_ok hr want (pending (logged es (upd r f s))) r (f (requests s ! r)) (log (logged es (upd r f s)))"
    using old h q unfolding request_ok_def f by simp
  show "r' = r" if "e \<in> set es" "about e = Some r'" for e r' using es(2) [OF that(1)] that(2) by simp
  show "no_reader r s" if "EndCall r res \<in> set es" for res using es(2) [OF that] by simp
qed (use f es(1) alw in auto)

lemma handler_ok:
  assumes ok: "http_ok hr want s"
  shows "write_response r w s = Some s' \<Longrightarrow> http_ok hr want s'"
    "http_set_result_callback r i c s = Some s' \<Longrightarrow> http_ok hr want s'"
    "http_done_call r s = Some s' \<Longrightarrow> http_ok hr want s'"
    "http_ok hr want (upd r (over_update (\<lambda>_. True)) s)"
proof -
  have len: "r < length (requests s)" if "ConsumeCall r \<in> set (log s) \<or> BeginCall r \<in> set (log s)"
    using that http_okD(3) [OF ok, of "ConsumeCall r"] http_okD(3) [OF ok, of "BeginCall r"] by auto
  show "write_response r w s = Some s' \<Longrightarrow> http_ok hr want s'"
    using touch_ok [OF ok len, where f = "response_update (apply_write w)" and es = "[Wrote r w]"] http_okD(6) [OF ok]
    by (auto simp: write_response_def always_snoc split: if_splits)
  show "http_set_result_callback r i c s = Some s' \<Longrightarrow> http_ok hr want s'"
    using touch_ok [OF ok len, where f = "callbacks_update (map_option (hm_insert i c))" and es = "[]"] http_okD(6) [OF ok]
    by (auto simp: http_set_result_callback_def split: if_splits)
  show "http_done_call r s = Some s' \<Longrightarrow> http_ok hr want s'"
    using touch_ok [OF ok len, where f = "is_done_update (\<lambda>_. True)" and es = "[DoneCalled r]"] http_okD(6) [OF ok]
    by (auto simp: http_done_call_def always_snoc split: if_splits)
  show "http_ok hr want (upd r (over_update (\<lambda>_. True)) s)"
  proof (cases "r < length (requests s)")
    case True
    then show ?thesis
      using touch_ok [OF ok True, where f = "over_update (\<lambda>_. True)" and es = "[]"] http_okD(6) [OF ok] by simp
  next
    case False
    then have "upd r (over_update (\<lambda>_. True)) s = s" by (cases s) (simp add: upd_def list_update_beyond)
    then show ?thesis using ok by simp
  qed
qed

lemma http_arrive_ok:
  assumes ok: "http_ok hr want s" and step: "http_arrive v m s = Some s'"
  shows "http_ok hr want s'"
proof -
  let ?n = "length (requests s)" and ?e = "Arrived (length (requests s)) v m"
  obtain q where s': "requests s' = requests s @ [q]" "log s' = log s @ [?e]" "request_at q = Entered" "via q = v" "verb q = m" "is_done q = False" "response q = response_new"
      and same: "results s' = results s" "pending s' = pending s" "servers s' = servers s" "server_task s' = server_task s" "life s' = life s" "started s' = started s"
      and live: "case v of None \<Rightarrow> True | Some k \<Rightarrow> k < length (servers s) \<and> ended (servers s ! k) \<noteq> Some None"
    using step by (auto simp: http_arrive_def split: if_splits)
  have none: "about e \<noteq> Some ?n" if "e \<in> set (log s)" for e using http_okD(3) [OF ok that] by blast
  have hn: "hist ?n (log s) = []" "written ?n (log s) = response_new" "DoneCalled ?n \<notin> set (log s)"
    using others [of "log s" ?n "[]"] none by auto
  have pn: "map_of (pending s) i \<noteq> Some ?n" for i using http_okD(2) [OF ok] by blast
  have "request_ok hr want (pending s) ?n q (log s')"
    using s' hn pn by (auto simp: request_ok_def)
  moreover have "request_ok hr want (pending s) r (requests s ! r) (log s')" if "r < ?n" for r
    using request_frame [OF http_okD(1) [OF ok that], of "[?e]" "pending s"] that s'(2) by auto
  ultimately have "request_ok hr want (pending s') r (requests s' ! r) (log s')" if "r < length (requests s')" for r
    using that s'(1) same(2) by (cases "r = ?n") (auto simp: nth_append)
  moreover have "tasks_ok (length (requests s')) (log s') (results s')"
    unfolding s' same by (rule tasks_frame [OF http_okD(4) [OF ok]]) auto
  moreover have "life_ok s'"
  proof (rule life_frame [OF http_okD(5) [OF ok] same(3-6) s'(2)])
    fix q' k assume "q' \<in> set (requests s')" "in_progress k q'"
    then show "(\<exists>q'\<in>set (requests s). in_progress k q') \<or> k < length (servers s) \<and> ended (servers s ! k) \<noteq> Some None"
      using s'(1,4) live by (auto simp: in_progress_def)
  qed simp
  moreover have "always (http_rule hr want) (log s')" using http_okD(6) [OF ok] hn s'(2) by (simp add: always_snoc)
  moreover have "r < length (requests s')" if "map_of (pending s') i = Some r" for i r
    using that same(2) s'(1) http_okD(2) [OF ok, of i r] by simp
  moreover have "r < length (requests s')" if "e \<in> set (log s')" "about e = Some r" for e r
    using that s'(1,2) http_okD(3) [OF ok, of e r] by auto
  ultimately show ?thesis unfolding http_ok_def by blast
qed

section \<open>Results\<close>

fun side_event :: "http_event \<Rightarrow> bool" where
  "side_event (ReadStart _ _) = True"
| "side_event (ReadEnd _ _) = True"
| "side_event (Called _ _) = True"
| "side_event (Counted _) = True"
| "side_event _ = False"

lemma side_all:
  assumes "list_all side_event es"
  shows "hist r (l @ es) = hist r l" "written r (l @ es) = written r l" "DoneCalled r \<in> set (l @ es) \<longleftrightarrow> DoneCalled r \<in> set l"
    "accepting (l @ es) = accepting l" "troubled (l @ es) = troubled l"
proof -
  have e: "\<not> main_event e" "write_of r e = []" "e \<noteq> DoneCalled r" "e \<noteq> Reopened" "e \<noteq> Drained" "\<not> trouble e" if "e \<in> set es" for e
    using assms that by (auto simp: list_all_iff elim!: side_event.elims)
  show "hist r (l @ es) = hist r l" using e(1) by (auto simp: hist_def filter_empty_conv)
  show "written r (l @ es) = written r l" using e(2) by (rule written_append)
  show "DoneCalled r \<in> set (l @ es) \<longleftrightarrow> DoneCalled r \<in> set l" using e(3) by auto
  have "foldl (\<lambda>b e. if e = Reopened then True else if e = Drained then False else b) a es = a" for a
    using e(4,5) by (induction es) auto
  then show "accepting (l @ es) = accepting l" by (simp add: accepting_def)
  show "troubled (l @ es) = troubled l" using e(6) by (auto simp: troubled_def list_ex_iff)
qed

text \<open>A step of a result leaves the requests alone.\<close>

lemma step_result:
  assumes ok: "http_ok hr want s"
    and s': "requests s' = requests s" "log s' = log s @ es" "pending s' = pending s" "servers s' = servers s"
      "server_task s' = server_task s" "life s' = life s" "started s' = started s"
    and es: "list_all side_event es" "\<And>e r. e \<in> set es \<Longrightarrow> about e = Some r \<Longrightarrow> r < length (requests s)"
    and ts: "tasks_ok (length (requests s)) (log s') (results s')" and alw: "always (http_rule hr want) (log s')"
  shows "http_ok hr want s'"
proof -
  have "request_ok hr want (pending s') r (requests s' ! r) (log s')" if "r < length (requests s)" for r
    using http_okD(1) [OF ok that] unfolding request_ok_def s' side_all [OF es(1)] .
  moreover have "life_ok s'" using http_okD(5) [OF ok] unfolding life_ok_def s' side_all(4,5) [OF es(1)] .
  moreover have "r < length (requests s)" if "e \<in> set (log s')" "about e = Some r" for e r
    using that s'(2) es(2) http_okD(3) [OF ok] by auto
  ultimately show ?thesis using http_okD(2) [OF ok] ts alw unfolding http_ok_def s'(1,3) by blast
qed

text \<open>One task moves.\<close>

lemma tasks_move:
  assumes ok: "tasks_ok n l ts" and j: "j < length ts"
    and es: "\<And>j' r. ReadStart j' r \<in> set es \<or> ReadEnd j' r \<in> set es \<Longrightarrow> j' = j" "\<And>r res. EndCall r res \<notin> set es"
    and t: "task_ok n (l @ es) j (result_at t)"
  shows "tasks_ok n (l @ es) (ts[j := t])"
proof -
  have "task_ok n (l @ es) k (result_at (ts[j := t] ! k))" if k: "k < length ts" for k
  proof (cases "k = j")
    case False
    have "task_ok n l k (result_at (ts ! k))" using ok k by (simp add: tasks_ok_def)
    moreover have "ReadStart k r \<notin> set es" "ReadEnd k r \<notin> set es" for r using es(1) [of k r] False by blast+
    ultimately show ?thesis using es(2) k False by (cases "result_at (ts ! k)") auto
  qed (use t j in simp)
  moreover have "k < length ts" if "ReadStart k r \<in> set (l @ es) \<or> ReadEnd k r \<in> set (l @ es)" for k r
    using that es(1) [of k r] j ok by (auto simp: tasks_ok_def)
  ultimately show ?thesis by (simp add: tasks_ok_def)
qed

lemma doing_facts:
  assumes ok: "http_ok hr want s" and "doing j s = pc" "pc \<noteq> Over"
  shows "j < length (results s)" "result_at (results s ! j) = pc" "task_ok (length (requests s)) (log s) j pc"
    "reads r pc \<Longrightarrow> r < length (requests s)"
proof -
  show len: "j < length (results s)" and at: "result_at (results s ! j) = pc" using assms(2,3) by (auto simp: doing_def split: if_splits)
  then show task: "task_ok (length (requests s)) (log s) j pc" using http_okD(4) [OF ok] unfolding tasks_ok_def by auto
  have "ReadStart j r \<in> set (log s)" if "reads r pc" using task that by (cases pc) auto
  then show "reads r pc \<Longrightarrow> r < length (requests s)" using http_okD(3) [OF ok, of "ReadStart j r"] by simp
qed

lemma http_result_moves:
  assumes ok: "http_ok hr want s" and j: "doing j s = pc" "pc \<noteq> Over"
    and s': "requests s' = requests s" "log s' = log s @ es" "pending s' = pending s" "servers s' = servers s"
      "server_task s' = server_task s" "life s' = life s" "started s' = started s" "results s' = (results s)[j := (results s ! j)\<lparr>result_at := pc'\<rparr>]"
    and es: "list_all side_event es" "\<And>e r. e \<in> set es \<Longrightarrow> about e = Some r \<Longrightarrow> r < length (requests s)"
      "\<And>j' r. ReadStart j' r \<in> set es \<or> ReadEnd j' r \<in> set es \<Longrightarrow> j' = j"
    and t: "task_ok (length (requests s)) (log s @ es) j pc'" and alw: "always (http_rule hr want) (log s @ es)"
  shows "http_ok hr want s'"
proof (rule step_result [OF ok s'(1-7) es(1,2)])
  have "EndCall r res \<notin> set es" for r res using es(1) by (auto simp: list_all_iff)
  then show "tasks_ok (length (requests s)) (log s') (results s')"
    unfolding s'(2,8) by (intro tasks_move [OF http_okD(4) [OF ok] doing_facts(1) [OF ok j]]) (use es(3) t in auto)
qed (use alw s'(2) in auto)

lemma http_counted_ok: "http_ok hr want s \<Longrightarrow> http_ok hr want (counted en c s)"
  by (rule step_result [where es = "if en then [Counted c] else []"])
    (auto simp: always_snoc dest: http_okD(4,6) intro: tasks_frame [OF http_okD(4), where es = "[Counted c]"])

lemma http_result_arrives_ok:
  assumes ok: "http_ok hr want s"
  shows "http_ok hr want (http_result_arrives en given s)"
proof -
  have "http_ok hr want (s\<lparr>results := results s @ [\<lparr>result_id = i, result_at = ReadLock r\<rparr>]\<rparr>)" if i: "map_of (pending s) i = Some r" for i r
  proof (rule step_result [OF ok, where es = "[]"])
    have new: "ReadStart (length (results s)) r' \<notin> set (log s)" "ReadEnd (length (results s)) r' \<notin> set (log s)" for r'
      using http_okD(4) [OF ok] unfolding tasks_ok_def by blast+
    have "j < Suc (length (results s))" if "ReadStart j r' \<in> set (log s) \<or> ReadEnd j r' \<in> set (log s)" for j r'
      using http_okD(4) [OF ok] that unfolding tasks_ok_def by (meson less_Suc_eq)
    then show "tasks_ok (length (requests s)) (log (s\<lparr>results := results s @ [\<lparr>result_id = i, result_at = ReadLock r\<rparr>]\<rparr>))
        (results (s\<lparr>results := results s @ [\<lparr>result_id = i, result_at = ReadLock r\<rparr>]\<rparr>))"
      using http_okD(2) [OF ok i] http_okD(4) [OF ok] new by (simp add: tasks_ok_def nth_append less_Suc_eq)
  qed (use http_okD(6) [OF ok] in auto)
  then show ?thesis using http_counted_ok [OF ok] by (auto simp: http_result_arrives_def split: option.split)
qed

lemma http_read_lock_ok:
  assumes ok: "http_ok hr want s" and step: "http_read_lock en j s = Some s'"
  shows "http_ok hr want s'"
proof -
  obtain r where j: "doing j s = ReadLock r" using step by (auto simp: http_read_lock_def split: http_result_pc.splits)
  note d = doing_facts [OF ok j, simplified]
  consider "s' = counted en LateResult (set_result j Over s)"
    | "map_of (pending s) (result_id (results s ! j)) = Some r" "s' = logged [ReadStart j r] (set_result j (Identifying r) s)"
    using step j by (auto simp: http_read_lock_def split: if_splits)
  then show ?thesis
  proof cases
    case 1
    have "http_ok hr want (set_result j Over s)"
      by (rule http_result_moves [OF ok j, where es = "[]" and pc' = Over]) (use d http_okD(6) [OF ok] in auto)
    then show ?thesis using http_counted_ok 1 by simp
  next
    case 2
    have r: "r < length (requests s)" by (rule http_okD(2) [OF ok 2(1)])
    have reg: "hr" "registered (request_at (requests s ! r))" "at_ok hr want r (requests s ! r) (hist r (log s)) (request_at (requests s ! r))"
      using http_okD(1) [OF ok r] 2(1) unfolding request_ok_def by blast+
    then obtain h where "hist r (log s) = path_to_handler r (via (requests s ! r)) (verb (requests s ! r)) @ ConsumeCall r # h" "\<forall>res. EndCall r res \<notin> set h"
      by (cases "request_at (requests s ! r)") auto
    then have h: "ConsumeCall r \<in> set (log s)" "\<And>res. EndCall r res \<notin> set (log s)"
      unfolding hist_mem(4) [of r "log s"] hist_mem(5) [of r _ "log s"] by (simp_all add: path_to_handler_def)
    have "task_ok (length (requests s)) (log s @ [ReadStart j r]) j (Identifying r)" using d(3) h(2) by auto
    moreover have "always (http_rule hr want) (log s @ [ReadStart j r])" using http_okD(6) [OF ok] h reg(1) by (simp add: always_snoc)
    ultimately show ?thesis
      by (intro http_result_moves [OF ok j, where es = "[ReadStart j r]" and pc' = "Identifying r"]) (use 2(2) r in auto)
  qed
qed

lemma read_ends:
  assumes ok: "http_ok hr want s" and j: "doing j s = pc" "reads r pc"
  shows "http_ok hr want (logged [ReadEnd j r] (set_result j Over s))"
proof (rule http_result_moves [OF ok j(1), where es = "[ReadEnd j r]" and pc' = Over])
  show "pc \<noteq> Over" using j(2) by auto
  note d = doing_facts [OF ok j(1) this]
  have "r' = r" if "ReadStart j r' \<in> set (log s)" for r' using that d(3) j(2) by (cases pc) auto
  then show "task_ok (length (requests s)) (log s @ [ReadEnd j r]) j Over" by auto
  show "r' < length (requests s)" if "e \<in> set [ReadEnd j r]" "about e = Some r'" for e r' using that d(4) [OF j(2)] by simp
qed (use http_okD(6) [OF ok] in \<open>auto simp: always_snoc\<close>)

lemma identified_ok:
  assumes ok: "http_ok hr want s" and step: "identified en j i s = Some s'"
  shows "http_ok hr want s'"
proof -
  obtain r where j: "doing j s = Identifying r" using step by (auto simp: identified_def split: http_result_pc.splits)
  note d = doing_facts [OF ok j, simplified]
  consider "s' = logged [ReadEnd j r] (counted en UnknownMessageId (set_result j Over s))" | "s' = logged [Called j r] (set_result j (Calling r i) s)"
    using step j by (auto simp: identified_def split: option.splits)
  then show ?thesis
  proof cases
    case 1
    have "doing j (counted en UnknownMessageId s) = Identifying r" using j by (simp add: doing_def split: if_splits)
    then have "http_ok hr want (logged [ReadEnd j r] (set_result j Over (counted en UnknownMessageId s)))"
      by (rule read_ends [OF http_counted_ok [OF ok]]) simp
    moreover have "set_result j Over (counted en UnknownMessageId s) = counted en UnknownMessageId (set_result j Over s)"
      by (simp add: counted_def set_result_def logged_def)
    ultimately show ?thesis using 1 by simp
  next
    case 2
    show ?thesis
      by (rule http_result_moves [OF ok j, where es = "[Called j r]" and pc' = "Calling r i"])
        (use 2 d http_okD(6) [OF ok] in \<open>auto simp: always_snoc\<close>)
  qed
qed

lemma call_returns_ok:
  assumes ok: "http_ok hr want s" and step: "http_call_returns en j b s = Some s'"
  shows "http_ok hr want s'"
proof -
  obtain r i where j: "doing j s = Calling r i" using step by (auto simp: http_call_returns_def split: http_result_pc.splits)
  let ?t = "logged [ReadEnd j r] (set_result j Over s)"
  have t: "http_ok hr want ?t" by (rule read_ends [OF ok j]) simp
  have "r < length (requests ?t)" using doing_facts(4) [OF ok j] by simp
  then have "http_ok hr want (logged [] (upd r (callbacks_update (map_option (hm_remove i))) ?t))"
    by (rule touch_ok [OF t]) (use http_okD(6) [OF t] in auto)
  then show ?thesis using step j t http_counted_ok [OF t] by (auto simp: http_call_returns_def Let_def split: if_splits)
qed

lemma drop_result_ok:
  assumes ok: "http_ok hr want s" and step: "http_drop_result j s = Some s'"
  shows "http_ok hr want s'"
proof (cases "doing j s")
  case (ReadLock r)
  show ?thesis
    by (rule http_result_moves [OF ok ReadLock, where es = "[]" and pc' = Over])
      (use step ReadLock doing_facts(3) [OF ok ReadLock] http_okD(6) [OF ok] in \<open>auto simp: http_drop_result_def\<close>)
next
  case (Identifying r)
  then show ?thesis using step read_ends [OF ok Identifying, of r] by (simp add: http_drop_result_def)
next
  case (Calling r i)
  then show ?thesis using step read_ends [OF ok Calling, of r] by (simp add: http_drop_result_def)
qed (use step in \<open>simp add: http_drop_result_def\<close>)

section \<open>The life of the source\<close>

text \<open>A step of \<open>start\<close>, \<open>stop\<close> or a server.\<close>

lemma step_life:
  assumes ok: "http_ok hr want s"
    and s': "requests s' = requests s" "log s' = log s @ es" "pending s' = pending s" "results s' = results s"
    and es: "\<And>e. e \<in> set es \<Longrightarrow> about e = None"
    and life: "life_ok s'" and alw: "always (http_rule hr want) (log s')"
  shows "http_ok hr want s'"
proof -
  have no: "e \<notin> set es" if "about e \<noteq> None" for e using es [of e] that by auto
  have "tasks_ok (length (requests s)) (log s') (results s)"
    unfolding s'(2)
  proof -
    have "task_ok n (log s @ es) j pc = task_ok n (log s) j pc" for n j pc
      using no [of "ReadStart _ _"] no [of "ReadEnd _ _"] no [of "EndCall _ _"] by (cases pc) auto
    then show "tasks_ok (length (requests s)) (log s @ es) (results s)"
      using http_okD(4) [OF ok] no [of "ReadStart _ _"] no [of "ReadEnd _ _"] by (auto simp: tasks_ok_def)
  qed
  moreover have "request_ok hr want (pending s) r (requests s ! r) (log s')" if "r < length (requests s)" for r
    unfolding s'(2) by (rule request_frame [OF http_okD(1) [OF ok that]]) (use es in auto)
  moreover have "r < length (requests s)" if "e \<in> set (log s')" "about e = Some r" for e r
    using that s'(2) es [of e] http_okD(3) [OF ok] by auto
  ultimately show ?thesis using http_okD(2) [OF ok] life alw unfolding http_ok_def s'(1,3,4) by blast
qed

lemma start_ok:
  assumes ok: "http_ok hr want s"
  shows "http_start c s = Some s' \<Longrightarrow> http_ok hr want s'" "http_bind b s = Some s' \<Longrightarrow> http_ok hr want s'"
proof -
  note l = http_okD(5) [OF ok, unfolded life_ok_def]
  have alw: "always (http_rule hr want) (log s)" by (rule http_okD(6) [OF ok])
  show "http_ok hr want s'" if step: "http_start c s = Some s'"
  proof -
    have idle: "life s = Idle" using step by (auto simp: http_start_def split: if_splits)
    obtain es where es: "log s' = log s @ es" "es \<in> {[StartRefused], [Reopened], [Reopened, StartOk]} \<or> (\<exists>e. es = [StartErr e])"
        "requests s' = requests s" "pending s' = pending s" "results s' = results s" "servers s' = servers s" "server_task s' = server_task s"
        "started s \<longrightarrow> started s'" "life s' = Idle \<or> life s' = Binding \<and> es = [Reopened] \<and> \<not> started s \<and> started s'"
      using step idle by (auto simp: http_start_def Let_def split: if_splits sum.splits)
    have acc: "accepting (log s @ es) \<longleftrightarrow> accepting (log s) \<or> Reopened \<in> set es" "troubled (log s @ es) = troubled (log s)"
      using es(2) http_history_simps(4) [of "log s @ [Reopened]" StartOk] by auto
    have "life_ok s'" using l idle es(2,8,9) unfolding life_ok_def es(1,3,6,7) acc by auto
    moreover have "always (http_rule hr want) (log s')"
      using es(1,2) alw always_snoc [of "http_rule hr want" "log s @ [Reopened]" StartOk] by (auto simp: always_snoc)
    ultimately show ?thesis by (intro step_life [OF ok es(3,1,4,5)]) (use es(2) in auto)
  qed
  show "http_ok hr want s'" if step: "http_bind b s = Some s'"
  proof -
    have bind: "life s = Binding" using step by (auto simp: http_bind_def split: if_splits)
    then have none: "server_task s = None" "accepting (log s)" using l by auto
    show ?thesis
    proof (cases b)
      case None
      let ?k = "length (servers s)"
      have s': "s' = logged [StartOk] (s\<lparr>servers := servers s @ [\<lparr>shut = False, ended = None\<rparr>], shutdown := Some ?k, server_task := Some ?k, life := Idle\<rparr>)"
        using step bind None by (simp add: http_bind_def Let_def)
      have "life_ok s'" using l none bind unfolding s' life_ok_def by (auto simp: nth_append less_Suc_eq)
      then show ?thesis by (intro step_life [OF ok, where es = "[StartOk]"]) (use s' alw in \<open>auto simp: always_snoc\<close>)
    next
      case (Some e)
      then have s': "s' = logged [StartErr (Transport e)] (s\<lparr>started := False, life := Idle\<rparr>)"
        using step bind by (simp add: http_bind_def)
      then have "life_ok s'" using l none bind unfolding s' life_ok_def by auto
      then show ?thesis by (intro step_life [OF ok, where es = "[StartErr (Transport e)]"]) (use s' alw in \<open>auto simp: always_snoc\<close>)
    qed
  qed
qed

lemma server_ends_ok:
  assumes ok: "http_ok hr want s" and step: "server_ends k failure s = Some s'"
  shows "http_ok hr want s'"
proof -
  have k: "k < length (servers s)" "ended (servers s ! k) = None" "failure = None \<Longrightarrow> list_all (\<lambda>q. \<not> in_progress k q) (requests s)"
    and s': "s' = s\<lparr>servers := (servers s)[k := (servers s ! k)\<lparr>ended := Some failure\<rparr>]\<rparr>"
    using step by (auto simp: server_ends_def split: if_splits)
  have old: "ended (servers s ! j) \<noteq> Some None" if "ended ((servers s)[k := (servers s ! k)\<lparr>ended := Some failure\<rparr>] ! j) \<noteq> Some None" for j
    using that k by (cases "j = k") auto
  have new: "ended ((servers s)[k := (servers s ! k)\<lparr>ended := Some failure\<rparr>] ! j) \<noteq> Some None"
    if "ended (servers s ! j) \<noteq> Some None" "q \<in> set (requests s)" "in_progress j q" for j q
    using that k by (cases "j = k"; cases failure) (auto simp: list_all_iff)
  have "life_ok s'" using http_okD(5) [OF ok] old new unfolding s' life_ok_def by simp
  then show ?thesis by (intro step_life [OF ok, where es = "[]"]) (use s' http_okD(6) [OF ok] in auto)
qed

lemma all_replied:
  assumes ok: "http_ok hr want s" and "list_all (\<lambda>q. \<not> tracked (request_at q)) (requests s)" and r: "Accepted r \<in> set (log s)"
  shows "\<exists>p. Replied r p \<in> set (log s)"
proof -
  have len: "r < length (requests s)" using http_okD(3) [OF ok r] by simp
  then have "\<not> tracked (request_at (requests s ! r))" using assms(2) by (simp add: list_all_length)
  then show ?thesis
    using http_okD(1) [OF ok len] r unfolding request_ok_def hist_mem(2) [of r "log s"]
    by (cases "request_at (requests s ! r)") (auto simp: hist_set)
qed

lemma stop_ok:
  assumes ok: "http_ok hr want s"
  shows "http_stop s = Some s' \<Longrightarrow> http_ok hr want s'" "stop_server s = Some s' \<Longrightarrow> http_ok hr want s'"
    "http_stop_wait s = Some s' \<Longrightarrow> http_ok hr want s'" "stop_cut s = Some s' \<Longrightarrow> http_ok hr want s'"
proof -
  note l = http_okD(5) [OF ok, unfolded life_ok_def]
  have alw: "always (http_rule hr want) (log s)" by (rule http_okD(6) [OF ok])
  show "http_ok hr want s'" if step: "http_stop s = Some s'"
  proof -
    have same: "(map ended (servers s))[x := ended (servers s ! x)] = map ended (servers s)" for x
      by (cases "x < length (servers s)") (auto simp: list_update_same_conv list_update_beyond)
    obtain sv where s': "servers s' = sv" "map ended sv = map ended (servers s)" "requests s' = requests s" "log s' = log s @ []"
        "pending s' = pending s" "results s' = results s" "server_task s' = None" "life s = Idle"
        "life s' = (case server_task s of None \<Rightarrow> WaitRequests | Some k \<Rightarrow> AwaitServer k)"
      using step by (auto simp: http_stop_def Let_def map_update same split: option.splits if_splits)
    have len: "length sv = length (servers s)" by (rule map_eq_imp_length_eq [OF s'(2)])
    have e: "ended (sv ! k) = ended (servers s ! k)" if "k < length (servers s)" for k
      using that arg_cong [OF s'(2), of "\<lambda>xs. xs ! k"] len by simp
    have "life_ok s'" using l s'(8) e unfolding life_ok_def s'(1,3,4,7,9) len by (auto split: option.splits)
    then show ?thesis by (intro step_life [OF ok s'(3-6)]) (use s' alw in auto)
  qed
  show "http_ok hr want s'" if step: "stop_server s = Some s'"
  proof -
    obtain k where k: "life s = AwaitServer k" using step by (auto simp: stop_server_def split: life.splits)
    consider "ended (servers s ! k) = Some None" "s' = s\<lparr>life := WaitRequests\<rparr>"
      | e where "s' = logged [StopErr (Transport e)] (s\<lparr>life := Idle\<rparr>)"
      using step k by (auto simp: stop_server_def split: option.splits)
    then show ?thesis
    proof cases
      case 1
      then have "life_ok s'" using l k unfolding life_ok_def by auto
      then show ?thesis by (intro step_life [OF ok, where es = "[]"]) (use 1 alw in auto)
    next
      case 2
      then have "life_ok s'" using l k unfolding life_ok_def by auto
      then show ?thesis by (intro step_life [OF ok, where es = "[StopErr (Transport e)]"]) (use 2 alw in \<open>auto simp: always_snoc\<close>)
    qed
  qed
  show "http_ok hr want s'" if step: "http_stop_wait s = Some s'"
  proof -
    have s': "life s = WaitRequests" "list_all (\<lambda>q. \<not> tracked (request_at q)) (requests s)" "s' = logged [Drained] (s\<lparr>started := False, life := Idle\<rparr>)"
      using step by (auto simp: http_stop_wait_def split: if_splits)
    then have "life_ok s'" using l unfolding life_ok_def by auto
    then show ?thesis
      by (intro step_life [OF ok, where es = "[Drained]"]) (use s'(3) alw all_replied [OF ok s'(2)] in \<open>auto simp: always_snoc\<close>)
  qed
  show "http_ok hr want s'" if step: "stop_cut s = Some s'"
  proof -
    have s': "life s = WaitRequests \<or> (\<exists>k. life s = AwaitServer k)" "s' = logged [StopCut] (s\<lparr>started := False, life := Idle\<rparr>)"
      using step by (auto simp: stop_cut_def split: life.splits)
    then have "life_ok s'" using l unfolding life_ok_def by auto
    then show ?thesis by (intro step_life [OF ok, where es = "[StopCut]"]) (use s'(2) alw in \<open>auto simp: always_snoc\<close>)
  qed
qed

lemma http_step_ok:
  assumes ok: "http_ok hr want s" and step: "http_step hr en hash want a s = Some s'"
  shows "http_ok hr want s'"
  using step
  by (cases a) (auto intro: http_arrive_ok [OF ok] check_closed_ok [OF ok] track_ok [OF ok] body_read_ok [OF ok] http_begin_returns_ok [OF ok]
      http_consume_returns_ok [OF ok] http_wait_ends_ok [OF ok] http_lock_write_ok [OF ok] http_end_returns_ok [OF ok] handler_ok [OF ok]
      http_result_arrives_ok [OF ok] http_read_lock_ok [OF ok] identified_ok [OF ok] call_returns_ok [OF ok] drop_result_ok [OF ok]
      start_ok [OF ok] server_ends_ok [OF ok] stop_ok [OF ok])

interpretation http_run: step_system "http_step hr en hash want" "http_ok hr want" for hr en hash want
  by unfold_locales (rule http_step_ok)

section \<open>What a source promises\<close>

text \<open>
  C7. Under every interleaving of requests, results, handlers, \<open>start\<close> and \<open>stop\<close> each request goes through the same
  stations: the handler sees only accepted requests of the configured method whose body was read; \<open>end_request\<close> is
  called once, with the handler's result, or success exactly when \<open>done\<close> was called for a request that waits for
  results, and then no \<open>get_message_id\<close> and no callback of the request runs or starts later; every request gets one
  reply, and once the handler was asked it consists of exactly what the handlers have written until then.
\<close>

theorem http_request_protocol:
  assumes "run_steps (http_step hr en hash want) as (source_new en i) = Some s"
  shows "always (http_rule hr want) (log s)"
  using http_okD(6) [OF http_run.run_inv [OF source_new_ok assms]] .

definition demo_shared :: http_connector where
  "demo_shared = \<lparr>dedicated = False, address = [], host = ''h'', port = 80\<rparr>"

definition demo_request :: "nat option \<Rightarrow> http_action list" where
  "demo_request v =
     [Arrive v ''POST'', CheckClosed 0, Track 0, BodyRead 0 None, BeginReturns 0 (Inr (Some ''a'')) 0 0, SetCallback 0 ''m'' 5,
      ConsumeReturns 0 None, ResultArrives (Some ''a''), TakeReadLock 0, Identified 0 ''m'', Write 0 (SetStatus 201), DoneCall 0,
      WaitEnds 0 True, Write 0 (SetBody [1]), CallReturns 0 True, LockWrite 0, EndReturns 0]"

definition demo_actions :: "http_action list" where
  "demo_actions = StartEnter (HttpConnector (demo_shared\<lparr>dedicated := True\<rparr>)) # StartBind None # demo_request (Some 0) @
     [StopEnter, Arrive (Some 0) ''POST'', CheckClosed 1, ServerEnds 0 None, StopServer, StopWait]"

definition demo_history :: "http_event list" where
  "demo_history =
     [Reopened, StartOk, Arrived 0 (Some 0) ''POST'', Accepted 0, BeginCall 0, ConsumeCall 0, ConsumeReturned 0 None, ReadStart 0 0, Called 0 0,
      Wrote 0 (SetStatus 201), DoneCalled 0, Wrote 0 (SetBody [1]), ReadEnd 0 0, EndCall 0 None, Replied 0 \<lparr>status = 201, headers = [], body = [1]\<rparr>,
      Arrived 1 (Some 0) ''POST'', Replied 1 \<lparr>status = 503, headers = [], body = []\<rparr>, Drained]"

lemmas http_evaluation = source_new_def connector_config_def http_start_def http_bind_def http_arrive_def check_closed_def track_def body_read_def
  http_begin_returns_def http_consume_returns_def http_wait_ends_def http_remove_request_def http_lock_write_def http_end_returns_def
  write_response_def http_result_arrives_def http_read_lock_def identified_def http_call_returns_def http_set_result_callback_def
  http_done_call_def server_ends_def http_stop_def stop_server_def http_stop_wait_def at_def doing_def upd_def move_def logged_def counted_def
  set_result_def into_response_def refuse_def no_reader_def no_writer_def in_progress_def response_new_def demo_shared_def Let_def
  pr_new_def pr_add_def pr_remove_def

lemma demo_http_run:
  "\<exists>s. run_steps (http_step True False hash ''POST'') demo_actions (source_new False 1) = Some s \<and> log s = demo_history"
  by (simp add: http_evaluation demo_actions_def demo_request_def demo_history_def)

theorem http_request_protocol_witness: "always (http_rule True ''POST'') demo_history"
proof -
  obtain s where "run_steps (http_step True False (\<lambda>_. 0) ''POST'') demo_actions (source_new False 1) = Some s" "log s = demo_history"
    using demo_http_run by blast
  then show ?thesis using http_request_protocol [of True False "\<lambda>_. 0" "''POST''" demo_actions 1 s] by simp
qed

lemma not_accepting: "Reopened \<notin> set l2 \<Longrightarrow> \<not> accepting (l1 @ Drained # l2)"
proof (induction l2 rule: rev_induct)
  case (snoc e l2)
  then show ?case using http_history_simps(4) [of "l1 @ Drained # l2" e] by auto
qed simp

lemma arrived_once:
  assumes alw: "always (http_rule hr want) l" and l: "l = pre @ e # post" and h: "hist r pre = [Arrived r v m]" and "Arrived r v' m' \<in> set l" "e = Accepted r"
  shows "v' = v"
proof -
  consider "Arrived r v' m' \<in> set pre" | p1 p2 where "post = p1 @ Arrived r v' m' # p2"
    using assms(4,5) l by (auto dest: split_list)
  then show ?thesis
  proof cases
    case 1
    then show ?thesis using h hist_mem(1) [of r v' m' pre] by simp
  next
    case 2
    have "http_rule hr want (pre @ e # p1) (Arrived r v' m')" by (rule always_at [OF alw]) (simp add: l 2)
    then show ?thesis using h by simp
  qed
qed

text \<open>
  C19. A \<open>stop\<close> that returns by itself has waited until every accepted request was replied to, also those whose client had
  gone away. Unless a stop was cut short or failed, the handler is asked nothing for a request of the source's own
  listener from then until the next \<open>start\<close>.
\<close>

theorem http_stop_drains:
  assumes "run_steps (http_step hr en hash want) as (source_new en i) = Some s" and "log s = l1 @ Drained # l2"
  shows "(\<forall>r. Accepted r \<in> set l1 \<longrightarrow> (\<exists>p. Replied r p \<in> set l1)) \<and>
    (Reopened \<notin> set l2 \<and> \<not> troubled (log s) \<longrightarrow>
      (\<forall>r k m. Arrived r (Some k) m \<in> set (log s) \<longrightarrow> BeginCall r \<notin> set l2))"
proof -
  have alw: "always (http_rule hr want) (log s)" by (rule http_okD(6) [OF http_run.run_inv [OF source_new_ok assms(1)]])
  have all: "\<exists>p. Replied r p \<in> set l1" if "Accepted r \<in> set l1" for r using always_at [OF alw assms(2)] that by simp
  moreover have "BeginCall r \<notin> set l2" if quiet: "Reopened \<notin> set l2" "\<not> troubled (log s)" and arr: "Arrived r (Some k) m \<in> set (log s)" for r k m
  proof
    assume "BeginCall r \<in> set l2"
    then obtain p1 p2 where l2: "l2 = p1 @ BeginCall r # p2" by (auto dest: split_list)
    have "http_rule hr want (l1 @ Drained # p1) (BeginCall r)" by (rule always_at [OF alw]) (simp add: assms(2) l2)
    then obtain v where v: "hist r (l1 @ Drained # p1) = [Arrived r v want, Accepted r]" by auto
    then have "Accepted r \<in> set (l1 @ Drained # p1)" "\<And>p. Replied r p \<notin> set (l1 @ Drained # p1)"
      unfolding hist_mem(2) [of r "l1 @ Drained # p1"] hist_mem(6) [of r _ "l1 @ Drained # p1"] by auto
    then have "Accepted r \<in> set p1" using all [of r] by auto
    then obtain q1 q2 where p1: "p1 = q1 @ Accepted r # q2" by (auto dest: split_list)
    have "http_rule hr want (l1 @ Drained # q1) (Accepted r)" by (rule always_at [OF alw]) (simp add: assms(2) l2 p1)
    then obtain w m' where w: "hist r (l1 @ Drained # q1) = [Arrived r w m']" "w \<noteq> None \<longrightarrow> troubled (l1 @ Drained # q1) \<or> accepting (l1 @ Drained # q1)"
      by auto
    have "log s = (l1 @ Drained # q1) @ Accepted r # (q2 @ BeginCall r # p2)" by (simp add: assms(2) l2 p1)
    from arrived_once [OF alw this w(1) arr] have "w = Some k" by simp
    then show False using w(2) quiet not_accepting [of q1 l1] by (simp add: assms(2) l2 p1)
  qed
  ultimately show ?thesis by blast
qed

theorem http_stop_drains_witness: "\<exists>p. Replied 0 p \<in> set (butlast demo_history)"
proof -
  obtain s where "run_steps (http_step True False (\<lambda>_. 0) ''POST'') demo_actions (source_new False 1) = Some s" "log s = demo_history"
    using demo_http_run by blast
  moreover have "demo_history = butlast demo_history @ Drained # []" "Accepted 0 \<in> set (butlast demo_history)"
    by (simp_all add: demo_history_def)
  ultimately show ?thesis
    using http_stop_drains [of True False "\<lambda>_. 0" "''POST''" demo_actions 1 s "butlast demo_history" "[]"] by simp
qed

section \<open>Where the code falls short\<close>

text \<open>
  Without a listener of its own the source relies on the tracker alone. A request that has looked at it before it was
  closed and is tracked after \<open>stop\<close> has found it empty is handled after \<open>stop\<close> has returned.
\<close>

theorem http_request_after_stop:
  "\<exists>s. run_steps (http_step hr en hash ''POST'') [StartEnter (HttpConnector demo_shared), Arrive None ''POST'', CheckClosed 0, StopEnter, StopWait, Track 0, BodyRead 0 None]
         (source_new en 1) = Some s \<and>
     log s = [Reopened, StartOk, Arrived 0 None ''POST'', Drained, Accepted 0, BeginCall 0]"
  by (simp add: http_evaluation)

text \<open>An error of the configuration leaves the source marked as started: the next \<open>start\<close> is refused although nothing runs.\<close>

theorem http_start_sticks:
  "\<exists>s. run_steps (http_step hr en hash want) [StartEnter OtherConnector, StartEnter (HttpConnector demo_shared)] (source_new en 1) = Some s \<and>
     log s = [StartErr (InvalidConfiguration ''data connector is not HTTP''), StartRefused] \<and> servers s = []"
  by (simp add: http_evaluation)

end
