(* ===== verification/Grpc_Source.thy ===== *)
theory Grpc_Source
  imports Message_Context Result_Router Step_Systems
begin

text \<open>
  The gRPC source, \<open>src/datasource/grpc\<close>: an endpoint consumer (\<open>mod.rs\<close>) and the four kinds of RPC that drive it
  (\<open>nostreaming.rs\<close>, \<open>clientstreaming.rs\<close>, \<open>serverstreaming.rs\<close>, \<open>bidistreaming.rs\<close>), the sender of a single response, and
  the state of the data source (\<open>tonic.rs\<close>). A step is what a task does between two points where another can interfere.
  Handlers, contexts and the messages of a client answer through the actions; \<open>RotatingMap\<close> is used as the map it
  implements and \<open>hash\<close> is the hash function of the gauges. When the future of an RPC is dropped, \<open>CompleteOnDrop\<close> lets
  the call that runs come to its end and \<open>RequestLifecycle\<close> then finishes the request. Spans are left out.
\<close>

section \<open>Data\<close>

datatype rpc_kind = NoStreaming | ClientStreaming | ServerStreaming | BidiStreaming

definition streams_in :: "rpc_kind \<Rightarrow> bool" where
  "streams_in k \<longleftrightarrow> k = ClientStreaming \<or> k = BidiStreaming"

definition answers_once :: "rpc_kind \<Rightarrow> bool" where
  "answers_once k \<longleftrightarrow> k = NoStreaming \<or> k = ClientStreaming"

datatype rpc_error = RpcError string | RequestContextCancelled

type_synonym rpc_result = "rpc_error option"

text \<open>
  Where an RPC is. \<open>owned\<close> says whether its future still lives. \<open>Locking\<close> is \<open>finish\<close> waiting for the lock on the lifetime of
  the request, with the result so far; \<open>closing\<close> is the request's token. \<open>slot\<close> is the value of \<open>UnarySender\<close>, \<open>received\<close>
  what the RPC has taken from it.
\<close>

datatype rpc_pc =
    Beginning | EndingDuplicate | NextMessage | Consuming | AtEof | Waiting | Locking rpc_result | Ending | Finished

record 'v rpc =
  kind :: rpc_kind
  rpc_at :: rpc_pc
  owned :: bool
  rpc_id :: string
  over :: bool
  is_done :: bool
  closing :: bool
  callbacks :: "(string \<times> nat) list option"
  slot :: "'v option"
  received :: "'v option"

datatype grpc_result_pc = ReadLock nat | Identifying nat | Calling nat string | Over

record grpc_result_task =
  result_id :: string
  result_at :: grpc_result_pc

datatype grpc_counter =
    MessagesTotal | RequestErrors | BeginRequestFailed | MissingStreamId | LateResult | UnknownMessageId | DuplicateMessageId

datatype 'v grpc_event =
    BeginCall nat rpc_kind
  | BeginErr nat string
  | BeginOk nat
  | Registered nat string
  | ConsumeCall nat
  | ConsumeReturned nat "string option"
  | EofCall nat
  | EofReturned nat
  | DoneCalled nat
  | Sent nat 'v
  | SendRefused nat
  | Dropped nat
  | ReadStart nat nat
  | Called nat nat
  | ReadEnd nat nat
  | EndCall nat rpc_result
  | EndReturned nat rpc_result
  | Answered nat "rpc_error + 'v option"
  | Counted grpc_counter

record 'v grpc_source =
  sequence :: nat
  pending :: "(string \<times> nat) list"
  active_gauge :: int
  pending_gauge :: pending_requests
  requests :: "'v rpc list"
  results :: "grpc_result_task list"
  log :: "'v grpc_event list"

definition grpc_new :: "bool \<Rightarrow> 'v grpc_source" where
  "grpc_new enabled = \<lparr>sequence = 0, pending = [], active_gauge = 0, pending_gauge = pr_new enabled, requests = [], results = [], log = []\<rparr>"

definition logged :: "'v grpc_event list \<Rightarrow> 'v grpc_source \<Rightarrow> 'v grpc_source" where
  "logged es s = s\<lparr>log := log s @ es\<rparr>"

definition upd :: "nat \<Rightarrow> ('v rpc \<Rightarrow> 'v rpc) \<Rightarrow> 'v grpc_source \<Rightarrow> 'v grpc_source" where
  "upd r f s = s\<lparr>requests := (requests s)[r := f (requests s ! r)]\<rparr>"

definition move :: "nat \<Rightarrow> rpc_pc \<Rightarrow> 'v grpc_source \<Rightarrow> 'v grpc_source" where
  "move r pc s = upd r (rpc_at_update (\<lambda>_. pc)) s"

definition at :: "nat \<Rightarrow> 'v grpc_source \<Rightarrow> rpc_pc option" where
  "at r s = (if r < length (requests s) then Some (rpc_at (requests s ! r)) else None)"

definition counted :: "bool \<Rightarrow> grpc_counter \<Rightarrow> 'v grpc_source \<Rightarrow> 'v grpc_source" where
  "counted enabled c s = (if enabled then logged [Counted c] s else s)"

section \<open>An RPC\<close>

definition rpc_arrives :: "rpc_kind \<Rightarrow> 'v grpc_source \<Rightarrow> 'v grpc_source" where
  "rpc_arrives k s = logged [BeginCall (length (requests s)) k] (s\<lparr>requests := requests s @
     [\<lparr>kind = k, rpc_at = Beginning, owned = True, rpc_id = [], over = False, is_done = False, closing = False, callbacks = Some [],
       slot = None, received = None\<rparr>]\<rparr>)"

text \<open>The RPC is over: its caller, if there is one, gets the answer.\<close>

definition answer :: "nat \<Rightarrow> rpc_error + 'v option \<Rightarrow> 'v grpc_source \<Rightarrow> 'v grpc_source" where
  "answer r a s = logged (if owned (requests s ! r) then [Answered r a] else []) (move r Finished s)"

text \<open>\<open>finish\<close> begins: no new callbacks from here on.\<close>

definition begin_finish :: "nat \<Rightarrow> rpc_result \<Rightarrow> 'v grpc_source \<Rightarrow> 'v grpc_source" where
  "begin_finish r res s = upd r (\<lambda>q. q\<lparr>rpc_at := Locking res, closing := True\<rparr>) s"

text \<open>
  What follows \<open>begin_owned\<close>, \<open>consume_owned\<close> and \<open>eof_owned\<close>: an RPC whose future was dropped meanwhile drops its
  \<open>RequestLifecycle\<close>, which finishes the request as cancelled.
\<close>

definition goes_on :: "nat \<Rightarrow> ('v grpc_source \<Rightarrow> 'v grpc_source) \<Rightarrow> 'v grpc_source \<Rightarrow> 'v grpc_source" where
  "goes_on r f s = (if owned (requests s ! r) then f s else begin_finish r (Some RequestContextCancelled) s)"

definition call_consume :: "nat \<Rightarrow> 'v grpc_source \<Rightarrow> 'v grpc_source" where
  "call_consume r s = logged [ConsumeCall r] (move r Consuming s)"

definition call_eof :: "nat \<Rightarrow> 'v grpc_source \<Rightarrow> 'v grpc_source" where
  "call_eof r s = logged [EofCall r] (move r AtEof s)"

text \<open>How the four kinds go on after \<open>begin\<close>, \<open>consume\<close> and \<open>eof\<close>.\<close>

definition after_begin :: "rpc_kind \<Rightarrow> nat \<Rightarrow> 'v grpc_source \<Rightarrow> 'v grpc_source" where
  "after_begin k r = (if streams_in k then move r NextMessage else call_consume r)"

definition after_consume :: "rpc_kind \<Rightarrow> string option \<Rightarrow> nat \<Rightarrow> 'v grpc_source \<Rightarrow> 'v grpc_source" where
  "after_consume k res r =
     (case res of
        Some e \<Rightarrow> begin_finish r (Some (RpcError e))
      | None \<Rightarrow> if streams_in k then move r NextMessage else call_eof r)"

definition after_eof :: "bool \<Rightarrow> nat \<Rightarrow> 'v grpc_source \<Rightarrow> 'v grpc_source" where
  "after_eof has_result r = (if has_result then move r Waiting else begin_finish r None)"

definition grpc_begin_returns :: "bool \<Rightarrow> bool \<Rightarrow> (string \<Rightarrow> nat) \<Rightarrow> nat \<Rightarrow> string + string option \<Rightarrow> instant \<Rightarrow> nat \<Rightarrow>
    'v grpc_source \<Rightarrow> 'v grpc_source option" where
  "grpc_begin_returns has_result enabled hash r res now stamp s =
     (if at r s \<noteq> Some Beginning then None
      else Some (case res of
          Inl e \<Rightarrow> answer r (Inl (RpcError e)) (logged [BeginErr r e] (counted enabled BeginRequestFailed s))
        | Inr given \<Rightarrow>
            (let (i, n) = (case given of Some i \<Rightarrow> (i, sequence s) | None \<Rightarrow> new_stream_id stamp (sequence s));
                 s1 = logged [BeginOk r] (upd r (rpc_id_update (\<lambda>_. i))
                   (s\<lparr>sequence := n, active_gauge := active_gauge s + (if enabled then 1 else 0)\<rparr>)) in
             if map_of (pending s) i \<noteq> None
             then logged [EndCall r (Some (RpcError ''duplicate gRPC stream ID''))] (move r EndingDuplicate (counted enabled BeginRequestFailed s1))
             else goes_on r (after_begin (kind (requests s ! r)) r)
               (logged [Registered r i] (s1\<lparr>pending := hm_insert i r (pending s),
                  pending_gauge := (if has_result then pr_add hash now i (pending_gauge s) else pending_gauge s)\<rparr>)))))"

text \<open>The next item of the request stream: a message, an error, or the end.\<close>

datatype stream_item = Message | Failed string | EndOfStream

definition grpc_next :: "nat \<Rightarrow> stream_item \<Rightarrow> 'v grpc_source \<Rightarrow> 'v grpc_source option" where
  "grpc_next r item s =
     (if at r s \<noteq> Some NextMessage then None
      else Some (case item of
          Message \<Rightarrow> call_consume r s
        | Failed e \<Rightarrow> begin_finish r (Some (RpcError e)) s
        | EndOfStream \<Rightarrow> call_eof r s))"

definition grpc_consume_returns :: "nat \<Rightarrow> string option \<Rightarrow> 'v grpc_source \<Rightarrow> 'v grpc_source option" where
  "grpc_consume_returns r res s =
     (if at r s \<noteq> Some Consuming then None
      else Some (goes_on r (after_consume (kind (requests s ! r)) res r) (logged [ConsumeReturned r res] s)))"

definition grpc_eof_returns :: "bool \<Rightarrow> nat \<Rightarrow> 'v grpc_source \<Rightarrow> 'v grpc_source option" where
  "grpc_eof_returns has_result r s =
     (if at r s \<noteq> Some AtEof then None
      else Some (goes_on r (after_eof has_result r) (logged [EofReturned r] s)))"

text \<open>
  The wait for the response (\<open>UnarySender::receive\<close>) or for \<open>done\<close> (\<open>wait_done\<close>); \<open>by_context\<close> is the branch of the cancelled
  context.
\<close>

definition take_slot :: "nat \<Rightarrow> 'v grpc_source \<Rightarrow> 'v grpc_source" where
  "take_slot r s = upd r (\<lambda>q. q\<lparr>received := slot q, slot := None\<rparr>) s"

definition unary_receive :: "nat \<Rightarrow> bool \<Rightarrow> 'v grpc_source \<Rightarrow> 'v grpc_source option" where
  "unary_receive r by_context s =
     (if slot (requests s ! r) \<noteq> None then Some (begin_finish r None (take_slot r s))
      else if by_context \<and> over (requests s ! r)
      then Some (begin_finish r (Some (RpcError ''gRPC unary request context cancelled'')) s)
      else None)"

definition wait_done :: "nat \<Rightarrow> bool \<Rightarrow> 'v grpc_source \<Rightarrow> 'v grpc_source option" where
  "wait_done r by_context s =
     (if by_context
      then if over (requests s ! r) then Some (begin_finish r (Some RequestContextCancelled) s) else None
      else if is_done (requests s ! r) then Some (begin_finish r None s) else None)"

definition grpc_wait_ends :: "nat \<Rightarrow> bool \<Rightarrow> 'v grpc_source \<Rightarrow> 'v grpc_source option" where
  "grpc_wait_ends r by_context s =
     (if at r s \<noteq> Some Waiting then None
      else if answers_once (kind (requests s ! r)) then unary_receive r by_context s else wait_done r by_context s)"

text \<open>The future of the RPC is dropped.\<close>

definition drop_rpc :: "nat \<Rightarrow> 'v grpc_source \<Rightarrow> 'v grpc_source option" where
  "drop_rpc r s =
     (case at r s of
        None \<Rightarrow> None
      | Some pc \<Rightarrow>
          (if pc = Finished \<or> \<not> owned (requests s ! r) then None
           else
             let s1 = logged [Dropped r] (upd r (owned_update (\<lambda>_. False)) s) in
             Some (if pc = NextMessage \<or> pc = Waiting then begin_finish r (Some RequestContextCancelled) s1 else s1)))"

section \<open>The end of a request\<close>

fun reads :: "nat \<Rightarrow> grpc_result_pc \<Rightarrow> bool" where
  "reads r (Identifying r') = (r' = r)"
| "reads r (Calling r' _) = (r' = r)"
| "reads r _ = False"

definition grpc_no_reader :: "nat \<Rightarrow> 'v grpc_source \<Rightarrow> bool" where
  "grpc_no_reader r s \<longleftrightarrow> list_all (\<lambda>t. \<not> reads r (result_at t)) (results s)"

definition grpc_lock_write :: "nat \<Rightarrow> 'v grpc_source \<Rightarrow> 'v grpc_source option" where
  "grpc_lock_write r s =
     (case at r s of
        Some (Locking res) \<Rightarrow>
          (if grpc_no_reader r s
           then Some (logged [EndCall r (if res = Some RequestContextCancelled \<and> is_done (requests s ! r) then None else res)] (move r Ending s))
           else None)
      | _ \<Rightarrow> None)"

text \<open>
  \<open>end_request\<close> has returned the final result; only now the stream id is free again. The answer \<open>Inr None\<close> is the
  default response of the kinds with one response, and plain success of the others.
\<close>

definition pop_own :: "bool \<Rightarrow> (string \<Rightarrow> nat) \<Rightarrow> nat \<Rightarrow> 'v grpc_source \<Rightarrow> 'v grpc_source" where
  "pop_own has_result hash r s =
     (let i = rpc_id (requests s ! r) in
      if map_of (pending s) i = Some r
      then s\<lparr>pending := hm_remove i (pending s),
             pending_gauge := (if has_result then pr_remove hash i (pending_gauge s) else pending_gauge s)\<rparr>
      else s)"

definition answer_of :: "'v rpc \<Rightarrow> rpc_result \<Rightarrow> rpc_error + 'v option" where
  "answer_of q res =
     (case res of
        Some e \<Rightarrow> Inl e
      | None \<Rightarrow> Inr (if answers_once (kind q) then (case received q of Some v \<Rightarrow> Some v | None \<Rightarrow> slot q) else None))"

definition grpc_end_returns :: "bool \<Rightarrow> bool \<Rightarrow> (string \<Rightarrow> nat) \<Rightarrow> nat \<Rightarrow> rpc_result \<Rightarrow> 'v grpc_source \<Rightarrow> 'v grpc_source option" where
  "grpc_end_returns has_result enabled hash r res s =
     (let s1 = logged [EndReturned r res] (s\<lparr>active_gauge := active_gauge s - (if enabled then 1 else 0)\<rparr>) in
      case at r s of
        Some Ending \<Rightarrow>
          Some (answer r (answer_of (requests s ! r) res)
            (pop_own has_result hash r (counted enabled (if res = None then MessagesTotal else RequestErrors)
              (upd r (callbacks_update (\<lambda>_. None)) s1))))
      | Some EndingDuplicate \<Rightarrow>
          Some (answer r (Inl (RpcError ''duplicate gRPC stream ID'')) (counted enabled RequestErrors s1))
      | _ \<Rightarrow> None)"

section \<open>Results\<close>

definition grpc_result_arrives :: "bool \<Rightarrow> string option \<Rightarrow> 'v grpc_source \<Rightarrow> 'v grpc_source" where
  "grpc_result_arrives enabled given s =
     (case given of
        None \<Rightarrow> counted enabled MissingStreamId s
      | Some i \<Rightarrow>
          (case map_of (pending s) i of
             None \<Rightarrow> counted enabled LateResult s
           | Some r \<Rightarrow> s\<lparr>results := results s @ [\<lparr>result_id = i, result_at = ReadLock r\<rparr>]\<rparr>))"

definition set_result :: "nat \<Rightarrow> grpc_result_pc \<Rightarrow> 'v grpc_source \<Rightarrow> 'v grpc_source" where
  "set_result j pc s = s\<lparr>results := (results s)[j := (results s ! j)\<lparr>result_at := pc\<rparr>]\<rparr>"

definition doing :: "nat \<Rightarrow> 'v grpc_source \<Rightarrow> grpc_result_pc" where
  "doing j s = (if j < length (results s) then result_at (results s ! j) else Over)"

text \<open>
  The token or the read lock, whichever comes first, and the second look; a request that ends holds the write lock, but
  then its token is cancelled.
\<close>

definition grpc_read_lock :: "bool \<Rightarrow> bool \<Rightarrow> nat \<Rightarrow> 'v grpc_source \<Rightarrow> 'v grpc_source option" where
  "grpc_read_lock has_result enabled j s =
     (case doing j s of
        ReadLock r \<Rightarrow>
          Some (if closing (requests s ! r) \<or> \<not> has_result \<or> map_of (pending s) (result_id (results s ! j)) \<noteq> Some r
            then counted enabled LateResult (set_result j Over s)
            else logged [ReadStart j r] (set_result j (Identifying r) s))
      | _ \<Rightarrow> None)"

definition grpc_identified :: "bool \<Rightarrow> nat \<Rightarrow> string \<Rightarrow> 'v grpc_source \<Rightarrow> 'v grpc_source option" where
  "grpc_identified enabled j i s =
     (case doing j s of
        Identifying r \<Rightarrow>
          Some (case Option.bind (callbacks (requests s ! r)) (\<lambda>cs. map_of cs i) of
            None \<Rightarrow> logged [ReadEnd j r] (counted enabled UnknownMessageId (set_result j Over s))
          | Some _ \<Rightarrow> logged [Called j r] (set_result j (Calling r i) s))
      | _ \<Rightarrow> None)"

definition grpc_call_returns :: "bool \<Rightarrow> nat \<Rightarrow> bool \<Rightarrow> 'v grpc_source \<Rightarrow> 'v grpc_source option" where
  "grpc_call_returns enabled j finished s =
     (case doing j s of
        Calling r i \<Rightarrow>
          (let s1 = logged [ReadEnd j r] (set_result j Over s) in
           Some (if \<not> finished then s1
             else if Option.bind (callbacks (requests s ! r)) (\<lambda>cs. map_of cs i) = None then counted enabled DuplicateMessageId s1
             else upd r (callbacks_update (map_option (hm_remove i))) s1))
      | _ \<Rightarrow> None)"

definition grpc_drop_result :: "nat \<Rightarrow> 'v grpc_source \<Rightarrow> 'v grpc_source option" where
  "grpc_drop_result j s =
     (case doing j s of
        Over \<Rightarrow> None
      | ReadLock r \<Rightarrow> Some (set_result j Over s)
      | Identifying r \<Rightarrow> Some (logged [ReadEnd j r] (set_result j Over s))
      | Calling r i \<Rightarrow> Some (logged [ReadEnd j r] (set_result j Over s)))"

text \<open>What handlers do: callbacks, \<open>done\<close>, and \<open>UnarySender::send\<close> of the two kinds with one response.\<close>

definition grpc_set_result_callback :: "nat \<Rightarrow> string \<Rightarrow> nat \<Rightarrow> 'v grpc_source \<Rightarrow> 'v grpc_source option" where
  "grpc_set_result_callback r i c s =
     (if ConsumeCall r \<in> set (log s) then Some (upd r (callbacks_update (map_option (hm_insert i c))) s) else None)"

definition grpc_done_call :: "nat \<Rightarrow> 'v grpc_source \<Rightarrow> 'v grpc_source option" where
  "grpc_done_call r s =
     (if ConsumeCall r \<in> set (log s) then Some (logged [DoneCalled r] (upd r (is_done_update (\<lambda>_. True)) s)) else None)"

definition unary_send :: "nat \<Rightarrow> 'v \<Rightarrow> 'v grpc_source \<Rightarrow> 'v grpc_source option" where
  "unary_send r v s =
     (if ConsumeCall r \<in> set (log s) \<and> answers_once (kind (requests s ! r))
      then Some (if slot (requests s ! r) \<noteq> None then logged [SendRefused r] s
        else logged [Sent r v] (upd r (slot_update (\<lambda>_. Some v)) s))
      else None)"

section \<open>Steps\<close>

datatype 'v grpc_action =
    RpcArrives rpc_kind
  | BeginReturns nat "string + string option" instant nat
  | NextItem nat stream_item
  | ConsumeReturns nat "string option"
  | EofReturns nat
  | WaitEnds nat bool
  | DropRpc nat
  | LockWrite nat
  | EndReturns nat rpc_result
  | ResultArrives "string option"
  | TakeReadLock nat
  | Identified nat string
  | CallReturns nat bool
  | DropResult nat
  | SetCallback nat string nat
  | DoneCall nat
  | SendValue nat 'v
  | ContextOver nat

fun grpc_step :: "bool \<Rightarrow> bool \<Rightarrow> (string \<Rightarrow> nat) \<Rightarrow> 'v grpc_action \<Rightarrow> 'v grpc_source \<Rightarrow> 'v grpc_source option" where
  "grpc_step hr en hash (RpcArrives k) s = Some (rpc_arrives k s)"
| "grpc_step hr en hash (BeginReturns r res now stamp) s = grpc_begin_returns hr en hash r res now stamp s"
| "grpc_step hr en hash (NextItem r i) s = grpc_next r i s"
| "grpc_step hr en hash (ConsumeReturns r res) s = grpc_consume_returns r res s"
| "grpc_step hr en hash (EofReturns r) s = grpc_eof_returns hr r s"
| "grpc_step hr en hash (WaitEnds r b) s = grpc_wait_ends r b s"
| "grpc_step hr en hash (DropRpc r) s = drop_rpc r s"
| "grpc_step hr en hash (LockWrite r) s = grpc_lock_write r s"
| "grpc_step hr en hash (EndReturns r res) s = grpc_end_returns hr en hash r res s"
| "grpc_step hr en hash (ResultArrives i) s = Some (grpc_result_arrives en i s)"
| "grpc_step hr en hash (TakeReadLock j) s = grpc_read_lock hr en j s"
| "grpc_step hr en hash (Identified j i) s = grpc_identified en j i s"
| "grpc_step hr en hash (CallReturns j b) s = grpc_call_returns en j b s"
| "grpc_step hr en hash (DropResult j) s = grpc_drop_result j s"
| "grpc_step hr en hash (SetCallback r i c) s = grpc_set_result_callback r i c s"
| "grpc_step hr en hash (DoneCall r) s = grpc_done_call r s"
| "grpc_step hr en hash (SendValue r v) s = unary_send r v s"
| "grpc_step hr en hash (ContextOver r) s = Some (upd r (over_update (\<lambda>_. True)) s)"

section \<open>The data source\<close>

text \<open>\<open>TonicDataSource\<close>: the states are new, started and stopped. \<open>max_permits\<close> is tokio's \<open>Semaphore::MAX_PERMITS\<close>.\<close>

record tonic_data_source =
  tonic_name :: string
  tonic_state :: nat
  stream_buffer_capacity :: nat

definition tonic_from_config :: "nat \<Rightarrow> string \<Rightarrow> nat \<Rightarrow> tonic_data_source runtime_result" where
  "tonic_from_config max_permits name capacity =
     (if capacity = 0 \<or> max_permits < capacity
      then Inl (InvalidConfiguration ''gRPC server stream_buffer_capacity is outside the supported channel capacity range'')
      else Inr \<lparr>tonic_name = name, tonic_state = 0, stream_buffer_capacity = capacity\<rparr>)"

definition tonic_start :: "tonic_data_source \<Rightarrow> unit runtime_result \<times> tonic_data_source" where
  "tonic_start d =
     (if tonic_state d = 0 then (Inr (), d\<lparr>tonic_state := 1\<rparr>)
      else if tonic_state d = 1 then (Inl (ResourceAlreadyStarted (tonic_name d)), d)
      else (Inl (ResourceStopped (tonic_name d)), d))"

definition tonic_stop :: "tonic_data_source \<Rightarrow> unit runtime_result \<times> tonic_data_source" where
  "tonic_stop d = (Inr (), d\<lparr>tonic_state := 2\<rparr>)"

end
