(* ===== verification/Grpc_Runs.thy ===== *)
theory Grpc_Runs
  imports Grpc_Source
begin

text \<open>
  The runs of the gRPC source: what every event of a run presupposes (\<open>grpc_rule\<close>), the invariant that gives it, and the
  protocol of RPCs that follows.
\<close>

section \<open>The history of an RPC\<close>

fun about :: "'v grpc_event \<Rightarrow> nat option" where
  "about (BeginCall r _) = Some r"
| "about (BeginErr r _) = Some r"
| "about (BeginOk r) = Some r"
| "about (Registered r _) = Some r"
| "about (ConsumeCall r) = Some r"
| "about (ConsumeReturned r _) = Some r"
| "about (EofCall r) = Some r"
| "about (EofReturned r) = Some r"
| "about (DoneCalled r) = Some r"
| "about (Sent r _) = Some r"
| "about (SendRefused r) = Some r"
| "about (Dropped r) = Some r"
| "about (ReadStart _ r) = Some r"
| "about (Called _ r) = Some r"
| "about (ReadEnd _ r) = Some r"
| "about (EndCall r _) = Some r"
| "about (EndReturned r _) = Some r"
| "about (Answered r _) = Some r"
| "about (Counted _) = None"

text \<open>Calls of the handler for the request itself and their ends.\<close>

fun handler_event :: "'v grpc_event \<Rightarrow> bool" where
  "handler_event (BeginCall _ _) = True"
| "handler_event (BeginErr _ _) = True"
| "handler_event (BeginOk _) = True"
| "handler_event (ConsumeCall _) = True"
| "handler_event (ConsumeReturned _ _) = True"
| "handler_event (EofCall _) = True"
| "handler_event (EofReturned _) = True"
| "handler_event (EndCall _ _) = True"
| "handler_event (EndReturned _ _) = True"
| "handler_event _ = False"

definition latest :: "nat \<Rightarrow> 'v grpc_event list \<Rightarrow> 'v grpc_event option" where
  "latest r l = foldl (\<lambda>a e. if handler_event e \<and> about e = Some r then Some e else a) None l"

fun sent_of :: "nat \<Rightarrow> 'v grpc_event \<Rightarrow> 'v list" where
  "sent_of r (Sent r' v) = (if r' = r then [v] else [])"
| "sent_of r _ = []"

definition sends :: "nat \<Rightarrow> 'v grpc_event list \<Rightarrow> 'v list" where
  "sends r l = concat (map (sent_of r) l)"

definition first_of :: "'a list \<Rightarrow> 'a option" where
  "first_of xs = (case xs of [] \<Rightarrow> None | x # _ \<Rightarrow> Some x)"

definition calls_over :: "nat \<Rightarrow> 'v grpc_event list \<Rightarrow> bool" where
  "calls_over r l \<longleftrightarrow> (\<forall>j. ReadStart j r \<in> set l \<longrightarrow> ReadEnd j r \<in> set l)"

text \<open>When \<open>end_request\<close> may be called: between calls of the handler.\<close>

definition between_calls :: "nat \<Rightarrow> 'v grpc_event list \<Rightarrow> bool" where
  "between_calls r l \<longleftrightarrow> latest r l = Some (BeginOk r) \<or> (\<exists>c. latest r l = Some (ConsumeReturned r c)) \<or> latest r l = Some (EofReturned r)"

definition end_result_ok :: "nat \<Rightarrow> 'v grpc_event list \<Rightarrow> rpc_result \<Rightarrow> bool" where
  "end_result_ok r l res \<longleftrightarrow>
     (\<forall>c. latest r l = Some (ConsumeReturned r (Some c)) \<and> Dropped r \<notin> set l \<longrightarrow> res = Some (RpcError c)) \<and>
     (res = None \<longrightarrow> latest r l = Some (EofReturned r) \<or> DoneCalled r \<in> set l)"

definition answer_ok :: "nat \<Rightarrow> 'v grpc_event list \<Rightarrow> rpc_result \<Rightarrow> rpc_error + 'v option \<Rightarrow> bool" where
  "answer_ok r l res a \<longleftrightarrow>
     (if \<exists>i. Registered r i \<in> set l
      then a = (case res of Some e \<Rightarrow> Inl e | None \<Rightarrow> Inr (first_of (sends r l)))
      else a = Inl (RpcError ''duplicate gRPC stream ID''))"

fun grpc_rule :: "bool \<Rightarrow> 'v grpc_event list \<Rightarrow> 'v grpc_event \<Rightarrow> bool" where
  "grpc_rule hr pre (BeginCall r k) \<longleftrightarrow> latest r pre = None"
| "grpc_rule hr pre (BeginErr r e) \<longleftrightarrow> (\<exists>k. latest r pre = Some (BeginCall r k))"
| "grpc_rule hr pre (BeginOk r) \<longleftrightarrow> (\<exists>k. latest r pre = Some (BeginCall r k))"
| "grpc_rule hr pre (Registered r i) \<longleftrightarrow>
     latest r pre = Some (BeginOk r) \<and> (\<forall>r'. Registered r' i \<in> set pre \<longrightarrow> (\<exists>res. EndReturned r' res \<in> set pre))"
| "grpc_rule hr pre (ConsumeCall r) \<longleftrightarrow>
     (\<exists>k. BeginCall r k \<in> set pre \<and> (latest r pre = Some (BeginOk r) \<or> streams_in k \<and> latest r pre = Some (ConsumeReturned r None)))"
| "grpc_rule hr pre (ConsumeReturned r c) \<longleftrightarrow> latest r pre = Some (ConsumeCall r)"
| "grpc_rule hr pre (EofCall r) \<longleftrightarrow>
     (\<exists>k. BeginCall r k \<in> set pre \<and> (latest r pre = Some (ConsumeReturned r None) \<or> streams_in k \<and> latest r pre = Some (BeginOk r)))"
| "grpc_rule hr pre (EofReturned r) \<longleftrightarrow> latest r pre = Some (EofCall r)"
| "grpc_rule hr pre (EndCall r res) \<longleftrightarrow>
     between_calls r pre \<and> calls_over r pre \<and> (\<forall>res'. EndCall r res' \<notin> set pre) \<and> end_result_ok r pre res"
| "grpc_rule hr pre (EndReturned r res) \<longleftrightarrow> (\<exists>res'. latest r pre = Some (EndCall r res'))"
| "grpc_rule hr pre (ReadStart j r) \<longleftrightarrow> hr \<and> (\<exists>i. Registered r i \<in> set pre) \<and> (\<forall>res. EndCall r res \<notin> set pre)"
| "grpc_rule hr pre (Called j r) \<longleftrightarrow> ReadStart j r \<in> set pre \<and> ReadEnd j r \<notin> set pre"
| "grpc_rule hr pre (Answered r a) \<longleftrightarrow>
     Dropped r \<notin> set pre \<and> (\<forall>a'. Answered r a' \<notin> set pre) \<and>
     ((\<exists>e. latest r pre = Some (BeginErr r e) \<and> a = Inl (RpcError e)) \<or>
      (\<exists>res. latest r pre = Some (EndReturned r res) \<and> answer_ok r pre res a))"
| "grpc_rule hr pre _ \<longleftrightarrow> True"

lemma grpc_history_simps [simp]:
  "latest r [] = None" "latest r (l @ [e]) = (if handler_event e \<and> about e = Some r then Some e else latest r l)"
  "sends r [] = []" "sends r (l @ l') = sends r l @ sends r l'" "sends r (e # l) = sent_of r e @ sends r l"
  by (simp_all add: latest_def sends_def)

lemma latest_two [simp]:
  "latest r (l @ [a, b]) = (if handler_event b \<and> about b = Some r then Some b else if handler_event a \<and> about a = Some r then Some a else latest r l)"
  by (simp add: latest_def)

lemma latest_append: "(\<And>e. e \<in> set es \<Longrightarrow> \<not> (handler_event e \<and> about e = Some r)) \<Longrightarrow> latest r (l @ es) = latest r l"
proof (induction es rule: rev_induct)
  case (snoc e es)
  then show ?case using grpc_history_simps(2) [of r "l @ es" e] snoc.prems [of e] by auto
qed simp

lemma latest_mem: "latest r l = Some e \<Longrightarrow> e \<in> set l"
  by (induction l rule: rev_induct) (auto split: if_splits)

section \<open>The invariant\<close>

fun holds_id :: "rpc_pc \<Rightarrow> bool" where
  "holds_id Beginning = False"
| "holds_id EndingDuplicate = False"
| "holds_id Finished = False"
| "holds_id _ = True"

fun ended :: "rpc_pc \<Rightarrow> bool" where
  "ended Ending = True"
| "ended EndingDuplicate = True"
| "ended Finished = True"
| "ended _ = False"

fun at_ok :: "nat \<Rightarrow> 'v rpc \<Rightarrow> 'v grpc_event list \<Rightarrow> rpc_pc \<Rightarrow> bool" where
  "at_ok r q l Beginning \<longleftrightarrow> received q = None \<and> (\<exists>k. latest r l = Some (BeginCall r k))"
| "at_ok r q l EndingDuplicate \<longleftrightarrow> (\<exists>res. latest r l = Some (EndCall r res))"
| "at_ok r q l NextMessage \<longleftrightarrow> received q = None \<and> streams_in (kind q) \<and> (latest r l = Some (BeginOk r) \<or> latest r l = Some (ConsumeReturned r None))"
| "at_ok r q l Consuming \<longleftrightarrow> received q = None \<and> latest r l = Some (ConsumeCall r)"
| "at_ok r q l AtEof \<longleftrightarrow> received q = None \<and> latest r l = Some (EofCall r)"
| "at_ok r q l Waiting \<longleftrightarrow> received q = None \<and> latest r l = Some (EofReturned r)"
| "at_ok r q l (Locking res) \<longleftrightarrow>
     closing q \<and> between_calls r l \<and> (res = None \<longrightarrow> latest r l = Some (EofReturned r)) \<and>
     (\<forall>c. latest r l = Some (ConsumeReturned r (Some c)) \<and> owned q \<longrightarrow> res = Some (RpcError c))"
| "at_ok r q l Ending \<longleftrightarrow> closing q \<and> (\<exists>res. latest r l = Some (EndCall r res))"
| "at_ok r q l Finished \<longleftrightarrow> True"

definition slot_ok :: "'v rpc \<Rightarrow> 'v list \<Rightarrow> bool" where
  "slot_ok q xs \<longleftrightarrow>
     (case received q of
        None \<Rightarrow> xs = (case slot q of None \<Rightarrow> [] | Some v \<Rightarrow> [v])
      | Some v \<Rightarrow> first_of xs = Some v) \<and> (answers_once (kind q) \<or> xs = [])"

definition request_ok :: "(string \<times> nat) list \<Rightarrow> nat \<Rightarrow> 'v rpc \<Rightarrow> 'v grpc_event list \<Rightarrow> bool" where
  "request_ok pm r q l \<longleftrightarrow>
     (is_done q \<longleftrightarrow> DoneCalled r \<in> set l) \<and> (owned q \<longleftrightarrow> Dropped r \<notin> set l) \<and> BeginCall r (kind q) \<in> set l \<and>
     at_ok r q l (rpc_at q) \<and> (\<not> ended (rpc_at q) \<longrightarrow> (\<forall>res. EndCall r res \<notin> set l)) \<and>
     (rpc_at q \<noteq> Finished \<longrightarrow> (\<forall>a. Answered r a \<notin> set l) \<and> slot_ok q (sends r l)) \<and>
     (holds_id (rpc_at q) \<longrightarrow> map_of pm (rpc_id q) = Some r \<and> Registered r (rpc_id q) \<in> set l) \<and>
     (\<forall>i. map_of pm i = Some r \<longrightarrow> holds_id (rpc_at q) \<and> i = rpc_id q) \<and>
     (\<forall>i. Registered r i \<in> set l \<longrightarrow>
        i = rpc_id q \<and> rpc_at q \<noteq> Beginning \<and> rpc_at q \<noteq> EndingDuplicate \<and> (holds_id (rpc_at q) \<or> (\<exists>res. EndReturned r res \<in> set l)))"

fun task_ok :: "nat \<Rightarrow> 'v grpc_event list \<Rightarrow> nat \<Rightarrow> grpc_result_pc \<Rightarrow> bool" where
  "task_ok n l j (ReadLock r) \<longleftrightarrow> r < n \<and> (\<forall>r'. ReadStart j r' \<notin> set l \<and> ReadEnd j r' \<notin> set l)"
| "task_ok n l j (Identifying r) \<longleftrightarrow>
     (\<forall>r'. (ReadStart j r' \<in> set l \<longleftrightarrow> r' = r) \<and> ReadEnd j r' \<notin> set l) \<and> (\<forall>res. EndCall r res \<notin> set l)"
| "task_ok n l j (Calling r i) \<longleftrightarrow>
     (\<forall>r'. (ReadStart j r' \<in> set l \<longleftrightarrow> r' = r) \<and> ReadEnd j r' \<notin> set l) \<and> (\<forall>res. EndCall r res \<notin> set l)"
| "task_ok n l j Over \<longleftrightarrow> (\<forall>r. ReadStart j r \<in> set l \<longrightarrow> ReadEnd j r \<in> set l)"

definition tasks_ok :: "nat \<Rightarrow> 'v grpc_event list \<Rightarrow> grpc_result_task list \<Rightarrow> bool" where
  "tasks_ok n l ts \<longleftrightarrow>
     (\<forall>j<length ts. task_ok n l j (result_at (ts ! j))) \<and>
     (\<forall>j r. ReadStart j r \<in> set l \<or> ReadEnd j r \<in> set l \<longrightarrow> j < length ts)"

definition grpc_ok :: "bool \<Rightarrow> 'v grpc_source \<Rightarrow> bool" where
  "grpc_ok hr s \<longleftrightarrow>
     (\<forall>r<length (requests s). request_ok (pending s) r (requests s ! r) (log s)) \<and>
     (\<forall>i r. map_of (pending s) i = Some r \<longrightarrow> r < length (requests s)) \<and>
     (\<forall>e r. e \<in> set (log s) \<longrightarrow> about e = Some r \<longrightarrow> r < length (requests s)) \<and>
     tasks_ok (length (requests s)) (log s) (results s) \<and> always (grpc_rule hr) (log s)"

lemma grpc_okD:
  assumes "grpc_ok hr s"
  shows "r < length (requests s) \<Longrightarrow> request_ok (pending s) r (requests s ! r) (log s)"
    "map_of (pending s) i = Some r \<Longrightarrow> r < length (requests s)"
    "e \<in> set (log s) \<Longrightarrow> about e = Some r \<Longrightarrow> r < length (requests s)"
    "tasks_ok (length (requests s)) (log s) (results s)" "always (grpc_rule hr) (log s)"
  using assms unfolding grpc_ok_def by blast+

lemma grpc_new_ok: "grpc_ok hr (grpc_new en)"
  by (simp add: grpc_ok_def grpc_new_def tasks_ok_def)

section \<open>Frames\<close>

fun reading :: "'v grpc_event \<Rightarrow> bool" where
  "reading (ReadStart _ _) = True"
| "reading (ReadEnd _ _) = True"
| "reading _ = False"

lemma grpc_tasks_frame:
  assumes "tasks_ok n l ts" "n \<le> n'" "list_all (\<lambda>e. \<not> reading e) es"
    and "\<And>r res. EndCall r res \<in> set es \<Longrightarrow> list_all (\<lambda>t. \<not> reads r (result_at t)) ts"
  shows "tasks_ok n' (l @ es) ts"
proof -
  have no: "ReadStart j r \<notin> set es" "ReadEnd j r \<notin> set es" for j r using assms(3) by (auto simp: list_all_iff)
  have "task_ok n' (l @ es) j (result_at (ts ! j))" if j: "j < length ts" for j
  proof -
    have old: "task_ok n l j (result_at (ts ! j))" using assms(1) j by (simp add: tasks_ok_def)
    have "\<not> reads r (result_at (ts ! j))" if "EndCall r res \<in> set es" for r res
      using assms(4) [OF that] j by (simp add: list_all_length)
    then show ?thesis using old assms(2) no by (cases "result_at (ts ! j)") auto
  qed
  moreover have "j < length ts" if "ReadStart j r \<in> set (l @ es) \<or> ReadEnd j r \<in> set (l @ es)" for j r
    using that assms(1) no by (auto simp: tasks_ok_def)
  ultimately show ?thesis by (simp add: tasks_ok_def)
qed

lemma grpc_at_ok_same:
  assumes "at_ok r q l pc" "latest r l' = latest r l" "kind q' = kind q" "closing q \<longrightarrow> closing q'" "owned q' \<longrightarrow> owned q" "received q' = received q"
  shows "at_ok r q' l' pc"
  using assms by (cases pc) (auto simp: between_calls_def)

lemma grpc_others:
  assumes "\<And>e. e \<in> set es \<Longrightarrow> about e \<noteq> Some r"
  shows "latest r (l @ es) = latest r l" "sends r es = []" "about e = Some r \<Longrightarrow> e \<notin> set es"
proof -
  show "latest r (l @ es) = latest r l" by (rule latest_append) (use assms in blast)
  have "sent_of r e = []" if "e \<in> set es" for e using assms [OF that] by (cases e) auto
  then show "sends r es = []" by (simp add: sends_def concat_eq_Nil_conv)
  show "about e = Some r \<Longrightarrow> e \<notin> set es" using assms by blast
qed

lemma grpc_request_frame:
  assumes ok: "request_ok pm r q l" and es: "\<And>e. e \<in> set es \<Longrightarrow> about e \<noteq> Some r"
    and pm: "\<And>i. map_of pm' i = Some r \<longleftrightarrow> map_of pm i = Some r"
  shows "request_ok pm' r q (l @ es)"
proof -
  have no: "DoneCalled r \<notin> set es" "Dropped r \<notin> set es" "EndCall r res \<notin> set es" "Answered r a \<notin> set es" "Registered r i \<notin> set es" for res a i
    using es by force+
  have "at_ok r q (l @ es) (rpc_at q)"
    by (rule grpc_at_ok_same [of r q l]) (use ok grpc_others(1) [where es = es and r = r and l = l, OF es] in \<open>auto simp: request_ok_def\<close>)
  then show ?thesis
    using ok no grpc_others(2) [where es = es and r = r, OF es] unfolding request_ok_def pm by auto
qed

text \<open>A step of one RPC.\<close>

lemma grpc_step_request:
  assumes ok: "grpc_ok hr s" and r: "r < length (requests s)"
    and s': "requests s' = (requests s)[r := q]" "log s' = log s @ es" "results s' = results s"
    and q: "request_ok (pending s') r q (log s')"
    and es: "list_all (\<lambda>e. \<not> reading e) es" "\<And>e r'. e \<in> set es \<Longrightarrow> about e = Some r' \<Longrightarrow> r' = r"
      "\<And>res. EndCall r res \<in> set es \<Longrightarrow> grpc_no_reader r s"
    and pm: "\<And>i r'. r' \<noteq> r \<Longrightarrow> map_of (pending s') i = Some r' \<longleftrightarrow> map_of (pending s) i = Some r'"
    and alw: "always (grpc_rule hr) (log s')"
  shows "grpc_ok hr s'"
proof -
  have "request_ok (pending s') r' (requests s' ! r') (log s')" if r': "r' < length (requests s)" for r'
  proof (cases "r' = r")
    case False
    then show ?thesis
      using grpc_request_frame [OF grpc_okD(1) [OF ok r'], of es "pending s'"] es(2) pm [OF False] s' by auto
  qed (use q s' r in simp)
  moreover have "r' < length (requests s)" if "map_of (pending s') i = Some r'" for i r'
    using that r pm [of r' i] grpc_okD(2) [OF ok, of i r'] by (cases "r' = r") auto
  moreover have "r' < length (requests s)" if "e \<in> set (log s')" "about e = Some r'" for e r'
    using that r s'(2) es(2) grpc_okD(3) [OF ok] by auto
  moreover have "list_all (\<lambda>t. \<not> reads r' (result_at t)) (results s)" if "EndCall r' res \<in> set es" for r' res
    using that es(2) [OF that] es(3) by (simp add: grpc_no_reader_def)
  then have "tasks_ok (length (requests s)) (log s') (results s')"
    unfolding s' by (rule grpc_tasks_frame [OF grpc_okD(4) [OF ok] order_refl es(1)])
  ultimately show ?thesis using alw s'(1) unfolding grpc_ok_def by simp
qed

section \<open>Steps of an RPC\<close>

lemma grpc_field_simps [simp]:
  "requests (logged es s) = requests s" "pending (logged es s) = pending s" "results (logged es s) = results s" "log (logged es s) = log s @ es"
  "requests (upd r f s) = (requests s)[r := f (requests s ! r)]" "pending (upd r f s) = pending s" "results (upd r f s) = results s" "log (upd r f s) = log s"
  "requests (set_result j pc s) = requests s" "pending (set_result j pc s) = pending s" "log (set_result j pc s) = log s"
  "results (set_result j pc s) = (results s)[j := (results s ! j)\<lparr>result_at := pc\<rparr>]"
  by (simp_all add: logged_def upd_def set_result_def)

lemma grpc_move_simps [simp]:
  "requests (move r pc s) = (requests s)[r := (requests s ! r)\<lparr>rpc_at := pc\<rparr>]" "pending (move r pc s) = pending s"
  "results (move r pc s) = results s" "log (move r pc s) = log s"
  "requests (begin_finish r res s) = (requests s)[r := (requests s ! r)\<lparr>rpc_at := Locking res, closing := True\<rparr>]"
  "pending (begin_finish r res s) = pending s" "results (begin_finish r res s) = results s" "log (begin_finish r res s) = log s"
  "requests (call_consume r s) = (requests s)[r := (requests s ! r)\<lparr>rpc_at := Consuming\<rparr>]" "pending (call_consume r s) = pending s"
  "results (call_consume r s) = results s" "log (call_consume r s) = log s @ [ConsumeCall r]"
  "requests (call_eof r s) = (requests s)[r := (requests s ! r)\<lparr>rpc_at := AtEof\<rparr>]" "pending (call_eof r s) = pending s"
  "results (call_eof r s) = results s" "log (call_eof r s) = log s @ [EofCall r]"
  by (simp_all add: move_def begin_finish_def call_consume_def call_eof_def)

lemma grpc_counted_simps [simp]:
  "requests (counted en c s) = requests s" "pending (counted en c s) = pending s" "results (counted en c s) = results s"
  "log (counted en c s) = log s @ (if en then [Counted c] else [])"
  by (simp_all add: counted_def)

lemma grpc_atD: "at r s = Some pc \<Longrightarrow> r < length (requests s) \<and> rpc_at (requests s ! r) = pc"
  by (simp add: at_def split: if_splits)

text \<open>The facts about an RPC that is at a known place.\<close>

lemma grpc_facts:
  assumes ok: "grpc_ok hr s" and "at r s = Some pc"
  shows "r < length (requests s)" "rpc_at (requests s ! r) = pc" "is_done (requests s ! r) \<longleftrightarrow> DoneCalled r \<in> set (log s)"
    "owned (requests s ! r) \<longleftrightarrow> Dropped r \<notin> set (log s)" "BeginCall r (kind (requests s ! r)) \<in> set (log s)"
    "at_ok r (requests s ! r) (log s) pc" "\<not> ended pc \<Longrightarrow> EndCall r res \<notin> set (log s)" "pc \<noteq> Finished \<Longrightarrow> Answered r a \<notin> set (log s)"
    "pc \<noteq> Finished \<Longrightarrow> slot_ok (requests s ! r) (sends r (log s))" "holds_id pc \<Longrightarrow> map_of (pending s) (rpc_id (requests s ! r)) = Some r"
    "holds_id pc \<Longrightarrow> Registered r (rpc_id (requests s ! r)) \<in> set (log s)" "map_of (pending s) i = Some r \<Longrightarrow> holds_id pc"
    "map_of (pending s) i = Some r \<Longrightarrow> i = rpc_id (requests s ! r)" "Registered r i \<in> set (log s) \<Longrightarrow> i = rpc_id (requests s ! r)"
    "Registered r i \<in> set (log s) \<Longrightarrow> pc \<noteq> Beginning \<and> pc \<noteq> EndingDuplicate"
    "Registered r i \<in> set (log s) \<Longrightarrow> holds_id pc \<or> (\<exists>res. EndReturned r res \<in> set (log s))"
proof -
  show len: "r < length (requests s)" and at: "rpc_at (requests s ! r) = pc" using grpc_atD [OF assms(2)] by auto
  note q = grpc_okD(1) [OF ok len, unfolded request_ok_def at]
  show "is_done (requests s ! r) \<longleftrightarrow> DoneCalled r \<in> set (log s)" "owned (requests s ! r) \<longleftrightarrow> Dropped r \<notin> set (log s)"
    "BeginCall r (kind (requests s ! r)) \<in> set (log s)" "at_ok r (requests s ! r) (log s) pc" "\<not> ended pc \<Longrightarrow> EndCall r res \<notin> set (log s)"
    "pc \<noteq> Finished \<Longrightarrow> Answered r a \<notin> set (log s)" "pc \<noteq> Finished \<Longrightarrow> slot_ok (requests s ! r) (sends r (log s))"
    "holds_id pc \<Longrightarrow> map_of (pending s) (rpc_id (requests s ! r)) = Some r" "holds_id pc \<Longrightarrow> Registered r (rpc_id (requests s ! r)) \<in> set (log s)"
    "map_of (pending s) i = Some r \<Longrightarrow> holds_id pc" "map_of (pending s) i = Some r \<Longrightarrow> i = rpc_id (requests s ! r)"
    "Registered r i \<in> set (log s) \<Longrightarrow> i = rpc_id (requests s ! r)" "Registered r i \<in> set (log s) \<Longrightarrow> pc \<noteq> Beginning \<and> pc \<noteq> EndingDuplicate"
    "Registered r i \<in> set (log s) \<Longrightarrow> holds_id pc \<or> (\<exists>res. EndReturned r res \<in> set (log s))"
    using q by blast+
qed

lemma slot_ok_simps [simp]:
  "slot_ok (q\<lparr>rpc_at := x\<rparr>) = slot_ok q" "slot_ok (q\<lparr>closing := b\<rparr>) = slot_ok q" "slot_ok (q\<lparr>owned := b\<rparr>) = slot_ok q"
  "slot_ok (q\<lparr>is_done := b\<rparr>) = slot_ok q" "slot_ok (q\<lparr>over := b\<rparr>) = slot_ok q" "slot_ok (q\<lparr>rpc_id := i\<rparr>) = slot_ok q"
  "slot_ok (callbacks_update f q) = slot_ok q"
  by (auto simp: slot_ok_def fun_eq_iff split: option.split)

fun final_event :: "'v grpc_event \<Rightarrow> bool" where
  "final_event (Answered _ _) = True"
| "final_event (Registered _ _) = True"
| "final_event _ = False"

text \<open>A step that keeps what the RPC holds.\<close>

lemma grpc_moves:
  assumes ok: "grpc_ok hr s" and r: "at r s = Some pc"
    and s': "requests s' = (requests s)[r := q]" "log s' = log s @ es" "results s' = results s" "pending s' = pending s"
    and q: "kind q = kind (requests s ! r)" "rpc_id q = rpc_id (requests s ! r)"
      "is_done q \<longleftrightarrow> is_done (requests s ! r) \<or> DoneCalled r \<in> set es" "owned q \<longleftrightarrow> owned (requests s ! r) \<and> Dropped r \<notin> set es"
      "holds_id pc \<and> holds_id (rpc_at q) \<or> rpc_at q = pc" "rpc_at q \<noteq> Finished \<Longrightarrow> slot_ok q (sends r (log s) @ sends r es)"
      "at_ok r q (log s @ es) (rpc_at q)" "ended pc \<Longrightarrow> ended (rpc_at q)" "\<not> ended (rpc_at q) \<Longrightarrow> \<forall>res. EndCall r res \<notin> set es"
    and es: "list_all (\<lambda>e. \<not> reading e \<and> \<not> final_event e \<and> about e = Some r) es" "\<And>res. EndCall r res \<in> set es \<Longrightarrow> grpc_no_reader r s"
    and alw: "always (grpc_rule hr) (log s @ es)"
  shows "grpc_ok hr s'"
proof (rule grpc_step_request [OF ok _ s'(1-3)])
  note f = grpc_facts [OF ok r]
  show "r < length (requests s)" by (rule f(1))
  have no: "Answered r a \<notin> set es" "Registered r i \<notin> set es" for a i using es(1) by (auto simp: list_all_iff)
  have fin: "pc \<noteq> Finished" if "rpc_at q \<noteq> Finished" using q(5) that by auto
  have hold: "holds_id (rpc_at q) = holds_id pc" using q(5) by auto
  have "is_done q \<longleftrightarrow> DoneCalled r \<in> set (log s @ es)" "owned q \<longleftrightarrow> Dropped r \<notin> set (log s @ es)" "BeginCall r (kind q) \<in> set (log s @ es)"
    using q(1,3,4) f(3-5) by auto
  moreover have "EndCall r res \<notin> set (log s @ es)" if "\<not> ended (rpc_at q)" for res
    using that q(8,9) f(7) by auto
  moreover have "(\<forall>a. Answered r a \<notin> set (log s @ es)) \<and> slot_ok q (sends r (log s @ es))" if "rpc_at q \<noteq> Finished"
    using f(8) [OF fin [OF that]] no q(6) [OF that] by simp
  moreover have "map_of (pending s) (rpc_id q) = Some r \<and> Registered r (rpc_id q) \<in> set (log s @ es)" if "holds_id (rpc_at q)"
    using that f(10,11) hold q(2) by simp
  moreover have "holds_id (rpc_at q) \<and> i = rpc_id q" if "map_of (pending s) i = Some r" for i
    using f(12,13) [OF that] hold q(2) by simp
  moreover have "i = rpc_id q \<and> rpc_at q \<noteq> Beginning \<and> rpc_at q \<noteq> EndingDuplicate \<and> (holds_id (rpc_at q) \<or> (\<exists>res. EndReturned r res \<in> set (log s @ es)))"
    if "Registered r i \<in> set (log s @ es)" for i
  proof -
    have i: "Registered r i \<in> set (log s)" using that no(2) by simp
    have "rpc_at q \<noteq> Beginning \<and> rpc_at q \<noteq> EndingDuplicate" using f(15) [OF i] q(5) by auto
    then show ?thesis using f(14,16) [OF i] hold q(2) by auto
  qed
  ultimately show "request_ok (pending s') r q (log s')"
    unfolding request_ok_def s'(2,4) using q(7) by blast
  show "list_all (\<lambda>e. \<not> reading e) es" "\<And>e r'. e \<in> set es \<Longrightarrow> about e = Some r' \<Longrightarrow> r' = r" using es(1) by (auto simp: list_all_iff)
qed (use es(2) s' alw in auto)

lemma goes_on_simps:
  "owned (requests s ! r) \<Longrightarrow> goes_on r f s = f s"
  "\<not> owned (requests s ! r) \<Longrightarrow> goes_on r f s = begin_finish r (Some RequestContextCancelled) s"
  by (simp_all add: goes_on_def)

lemma between_simps [simp]:
  "between_calls r (l @ [ConsumeReturned r c])" "between_calls r (l @ [EofReturned r])" "between_calls r (l @ [BeginOk r])"
  by (simp_all add: between_calls_def)

lemma next_ok:
  assumes ok: "grpc_ok hr s" and step: "grpc_next r item s = Some s'"
  shows "grpc_ok hr s'"
proof -
  have r: "at r s = Some NextMessage" using step by (auto simp: grpc_next_def split: if_splits)
  note f = grpc_facts [OF ok r]
  let ?q = "requests s ! r"
  show ?thesis
  proof (cases item)
    case Message
    have "always (grpc_rule hr) (log s @ [ConsumeCall r])" using grpc_okD(5) [OF ok] f(5,6) by (auto simp: always_snoc)
    then show ?thesis
      using Message step r f(6,9) by (intro grpc_moves [OF ok r, where q = "?q\<lparr>rpc_at := Consuming\<rparr>" and es = "[ConsumeCall r]"]) (auto simp: grpc_next_def)
  next
    case (Failed e)
    then show ?thesis
      using step r f(6,9) grpc_okD(5) [OF ok]
      by (intro grpc_moves [OF ok r, where q = "?q\<lparr>rpc_at := Locking (Some (RpcError e)), closing := True\<rparr>" and es = "[]"])
        (auto simp: grpc_next_def between_calls_def)
  next
    case EndOfStream
    have "always (grpc_rule hr) (log s @ [EofCall r])" using grpc_okD(5) [OF ok] f(5,6) by (auto simp: always_snoc)
    then show ?thesis
      using EndOfStream step r f(6,9) by (intro grpc_moves [OF ok r, where q = "?q\<lparr>rpc_at := AtEof\<rparr>" and es = "[EofCall r]"]) (auto simp: grpc_next_def)
  qed
qed

text \<open>The future was dropped while the handler ran: the request is finished as cancelled.\<close>

lemma abandoned_ok:
  assumes ok: "grpc_ok hr s" and r: "at r s = Some pc" "holds_id pc" "\<not> ended pc" and own: "\<not> owned (requests s ! r)"
    and ev: "ev = EofReturned r \<or> (\<exists>c. ev = ConsumeReturned r c)" and alw: "always (grpc_rule hr) (log s @ [ev])"
  shows "grpc_ok hr (begin_finish r (Some RequestContextCancelled) (logged [ev] s))"
proof -
  have "slot_ok (requests s ! r) (sends r (log s))" using grpc_facts(9) [OF ok r(1)] r(3) by (cases pc) auto
  then show ?thesis
    by (intro grpc_moves [OF ok r(1), where q = "(requests s ! r)\<lparr>rpc_at := Locking (Some RequestContextCancelled), closing := True\<rparr>" and es = "[ev]"])
      (use r own ev alw in auto)
qed

lemma grpc_consume_returns_ok:
  assumes ok: "grpc_ok hr s" and step: "grpc_consume_returns r res s = Some s'"
  shows "grpc_ok hr s'"
proof -
  let ?q = "requests s ! r" and ?ev = "ConsumeReturned r res"
  have r: "at r s = Some Consuming" using step by (auto simp: grpc_consume_returns_def split: if_splits)
  note f = grpc_facts [OF ok r]
  have alw: "always (grpc_rule hr) (log s @ [?ev])" using grpc_okD(5) [OF ok] f(6) by (simp add: always_snoc)
  have s': "s' = goes_on r (case res of Some e \<Rightarrow> begin_finish r (Some (RpcError e))
      | None \<Rightarrow> if streams_in (kind ?q) then move r NextMessage else call_eof r) (logged [?ev] s)"
    using step r by (simp add: grpc_consume_returns_def after_consume_def)
  show ?thesis
  proof (cases "owned ?q")
    case False
    then show ?thesis using abandoned_ok [OF ok r _ _ False _ alw] s' by (simp add: goes_on_def)
  next
    case True
    show ?thesis
    proof (cases res)
      case (Some e)
      then show ?thesis
        using True s' alw f(9)
        by (intro grpc_moves [OF ok r, where q = "?q\<lparr>rpc_at := Locking (Some (RpcError e)), closing := True\<rparr>" and es = "[?ev]"]) (auto simp: goes_on_def)
    next
      case None
      show ?thesis
      proof (cases "streams_in (kind ?q)")
        case in_stream: True
        then show ?thesis
          using True None s' alw f(6,9)
          by (intro grpc_moves [OF ok r, where q = "?q\<lparr>rpc_at := NextMessage\<rparr>" and es = "[?ev]"]) (auto simp: goes_on_def)
      next
        case False
        have "always (grpc_rule hr) ((log s @ [?ev]) @ [EofCall r])" using alw f(5) None by (subst always_snoc) auto
        then show ?thesis
          using True None False s' f(6,9)
          by (intro grpc_moves [OF ok r, where q = "?q\<lparr>rpc_at := AtEof\<rparr>" and es = "[?ev, EofCall r]"])
            (auto simp: goes_on_def)
      qed
    qed
  qed
qed

lemma eof_returns_ok:
  assumes ok: "grpc_ok hr s" and step: "grpc_eof_returns hr' r s = Some s'"
  shows "grpc_ok hr s'"
proof -
  let ?q = "requests s ! r" and ?ev = "EofReturned r"
  have r: "at r s = Some AtEof" using step by (auto simp: grpc_eof_returns_def split: if_splits)
  note f = grpc_facts [OF ok r]
  have alw: "always (grpc_rule hr) (log s @ [?ev])" using grpc_okD(5) [OF ok] f(6) by (simp add: always_snoc)
  have s': "s' = goes_on r (if hr' then move r Waiting else begin_finish r None) (logged [?ev] s)"
    using step r by (simp add: grpc_eof_returns_def after_eof_def)
  show ?thesis
  proof (cases "owned ?q")
    case False
    then show ?thesis using abandoned_ok [OF ok r _ _ False _ alw] s' by (simp add: goes_on_def)
  next
    case True
    then show ?thesis
      using s' alw f(6,9)
      by (intro grpc_moves [OF ok r, where q = "if hr' then ?q\<lparr>rpc_at := Waiting\<rparr> else ?q\<lparr>rpc_at := Locking None, closing := True\<rparr>" and es = "[?ev]"])
        (auto simp: goes_on_def)
  qed
qed

lemma slot_taken: "slot_ok q xs \<Longrightarrow> slot q = Some v \<Longrightarrow> received q = None \<Longrightarrow> slot_ok (q\<lparr>received := Some v, slot := None\<rparr>) xs"
  by (auto simp: slot_ok_def first_of_def)

lemma grpc_wait_ends_ok:
  assumes ok: "grpc_ok hr s" and step: "grpc_wait_ends r b s = Some s'"
  shows "grpc_ok hr s'"
proof -
  let ?q = "requests s ! r"
  have r: "at r s = Some Waiting" using step by (auto simp: grpc_wait_ends_def split: if_splits)
  note f = grpc_facts [OF ok r]
  have l: "latest r (log s) = Some (EofReturned r)" "between_calls r (log s)" using f(6) by (simp_all add: between_calls_def)
  consider v where "slot ?q = Some v" "s' = begin_finish r None (take_slot r s)" | res where "s' = begin_finish r res s"
    using step r by (auto simp: grpc_wait_ends_def unary_receive_def wait_done_def split: if_splits)
  then show ?thesis
  proof cases
    case 1
    have "slot_ok (?q\<lparr>received := slot ?q, slot := None\<rparr>) (sends r (log s))"
      using slot_taken [OF f(9) 1(1)] 1(1) f(6) by simp
    then show ?thesis
      using 1 l f(1) grpc_okD(5) [OF ok]
      by (intro grpc_moves [OF ok r, where q = "?q\<lparr>received := slot ?q, slot := None, rpc_at := Locking None, closing := True\<rparr>" and es = "[]"])
        (auto simp: take_slot_def)
  next
    case 2
    then show ?thesis
      using l f(9) grpc_okD(5) [OF ok]
      by (intro grpc_moves [OF ok r, where q = "?q\<lparr>rpc_at := Locking res, closing := True\<rparr>" and es = "[]"]) auto
  qed
qed

lemma drop_rpc_ok:
  assumes ok: "grpc_ok hr s" and step: "drop_rpc r s = Some s'"
  shows "grpc_ok hr s'"
proof -
  let ?q = "requests s ! r"
  obtain pc where r: "at r s = Some pc" "pc \<noteq> Finished"
    using step by (auto simp: drop_rpc_def split: option.splits if_splits)
  note f = grpc_facts [OF ok r(1)]
  have alw: "always (grpc_rule hr) (log s @ [Dropped r])" using grpc_okD(5) [OF ok] by (simp add: always_snoc)
  let ?s1 = "logged [Dropped r] (upd r (owned_update (\<lambda>_. False)) s)"
  have s': "s' = (if pc = NextMessage \<or> pc = Waiting then begin_finish r (Some RequestContextCancelled) ?s1 else ?s1)"
    using step r by (auto simp: drop_rpc_def split: if_splits)
  show ?thesis
  proof (cases "pc = NextMessage \<or> pc = Waiting")
    case True
    then have "between_calls r (log s @ [Dropped r])" using f(6) by (auto simp: between_calls_def)
    then show ?thesis
      using True s' alw f(1,9)
      by (intro grpc_moves [OF ok r(1), where q = "?q\<lparr>owned := False, rpc_at := Locking (Some RequestContextCancelled), closing := True\<rparr>" and es = "[Dropped r]"]) auto
  next
    case False
    have "at_ok r (?q\<lparr>owned := False\<rparr>) (log s @ [Dropped r]) pc" by (rule grpc_at_ok_same [OF f(6)]) auto
    then show ?thesis
      using False s' alw f(2,9) r(2)
      by (intro grpc_moves [OF ok r(1), where q = "?q\<lparr>owned := False\<rparr>" and es = "[Dropped r]"]) auto
  qed
qed

text \<open>A handler touches an RPC without moving it.\<close>

lemma grpc_touch_ok:
  assumes ok: "grpc_ok hr s" and r: "r < length (requests s)"
    and f: "\<And>q. kind (f q) = kind q" "\<And>q. rpc_at (f q) = rpc_at q" "\<And>q. rpc_id (f q) = rpc_id q" "\<And>q. closing (f q) = closing q"
      "\<And>q. owned (f q) = owned q" "\<And>q. received (f q) = received q"
    and es: "list_all (\<lambda>e. \<not> reading e \<and> \<not> final_event e \<and> \<not> handler_event e \<and> e \<noteq> Dropped r \<and> about e = Some r) es"
    and q: "is_done (f (requests s ! r)) \<longleftrightarrow> is_done (requests s ! r) \<or> DoneCalled r \<in> set es"
      "slot_ok (requests s ! r) (sends r (log s)) \<Longrightarrow> slot_ok (f (requests s ! r)) (sends r (log s) @ sends r es)"
    and alw: "always (grpc_rule hr) (log s @ es)"
  shows "grpc_ok hr (logged es (upd r f s))"
proof -
  let ?q = "requests s ! r"
  have at: "at r s = Some (rpc_at ?q)" using r by (simp add: at_def)
  note g = grpc_facts [OF ok at]
  have no: "Dropped r \<notin> set es" "EndCall r res \<notin> set es" for res using es by (auto simp: list_all_iff)
  have "latest r (log s @ es) = latest r (log s)" using es by (intro latest_append) (auto simp: list_all_iff)
  then have "at_ok r (f ?q) (log s @ es) (rpc_at ?q)" by (intro grpc_at_ok_same [OF g(6)]) (auto simp: f)
  then show ?thesis
    using no q g(9) alw es by (intro grpc_moves [OF ok at, where q = "f ?q" and es = es]) (auto simp: f list_all_iff)
qed

lemma grpc_logged_Nil [simp]: "logged [] s = s"
  by (simp add: logged_def)

lemma unary_send_slot: "slot_ok q xs \<Longrightarrow> slot q = None \<Longrightarrow> answers_once (kind q) \<Longrightarrow> slot_ok (q\<lparr>slot := Some v\<rparr>) (xs @ [v])"
  by (auto simp: slot_ok_def first_of_def split: option.splits list.splits)

lemma grpc_handler_ok:
  assumes ok: "grpc_ok hr s"
  shows "grpc_set_result_callback r i c s = Some s' \<Longrightarrow> grpc_ok hr s'" "grpc_done_call r s = Some s' \<Longrightarrow> grpc_ok hr s'"
    "unary_send r v s = Some s' \<Longrightarrow> grpc_ok hr s'" "grpc_ok hr (upd r (over_update (\<lambda>_. True)) s)"
proof -
  have len: "r < length (requests s)" if "ConsumeCall r \<in> set (log s)"
    using that grpc_okD(3) [OF ok, of "ConsumeCall r"] by auto
  note alw = grpc_okD(5) [OF ok]
  show "grpc_set_result_callback r i c s = Some s' \<Longrightarrow> grpc_ok hr s'"
    using grpc_touch_ok [OF ok len, where f = "callbacks_update (map_option (hm_insert i c))" and es = "[]"] alw
    by (auto simp: grpc_set_result_callback_def split: if_splits)
  show "grpc_done_call r s = Some s' \<Longrightarrow> grpc_ok hr s'"
    using grpc_touch_ok [OF ok len, where f = "is_done_update (\<lambda>_. True)" and es = "[DoneCalled r]"] alw
    by (auto simp: grpc_done_call_def always_snoc split: if_splits)
  show "grpc_ok hr s'" if step: "unary_send r v s = Some s'"
  proof (cases "slot (requests s ! r)")
    case None
    then show ?thesis
      using step grpc_touch_ok [OF ok len, where f = "slot_update (\<lambda>_. Some v)" and es = "[Sent r v]"] alw unary_send_slot [of "requests s ! r" _ v]
      by (auto simp: unary_send_def always_snoc split: if_splits)
  next
    case (Some u)
    have "upd r (\<lambda>q. q) s = s" by (simp add: upd_def)
    then show ?thesis
      using Some step grpc_touch_ok [OF ok len, where f = "\<lambda>q. q" and es = "[SendRefused r]"] alw
      by (auto simp: unary_send_def always_snoc split: if_splits)
  qed
  show "grpc_ok hr (upd r (over_update (\<lambda>_. True)) s)"
  proof (cases "r < length (requests s)")
    case True
    then show ?thesis using grpc_touch_ok [OF ok True, where f = "over_update (\<lambda>_. True)" and es = "[]"] alw by simp
  next
    case False
    then have "upd r (over_update (\<lambda>_. True)) s = s" by (cases s) (simp add: upd_def list_update_beyond)
    then show ?thesis using ok by simp
  qed
qed

lemma grpc_readers_over:
  assumes ok: "grpc_ok hr s" and "grpc_no_reader r s"
  shows "calls_over r (log s)"
  unfolding calls_over_def
proof (intro allI impI)
  fix j assume j: "ReadStart j r \<in> set (log s)"
  then have len: "j < length (results s)" and t: "task_ok (length (requests s)) (log s) j (result_at (results s ! j))"
    using grpc_okD(4) [OF ok] unfolding tasks_ok_def by blast+
  have "\<not> reads r (result_at (results s ! j))" using assms(2) len by (simp add: grpc_no_reader_def list_all_length)
  then show "ReadEnd j r \<in> set (log s)" using t j by (cases "result_at (results s ! j)") auto
qed

lemma grpc_lock_write_ok:
  assumes ok: "grpc_ok hr s" and step: "grpc_lock_write r s = Some s'"
  shows "grpc_ok hr s'"
proof -
  let ?q = "requests s ! r"
  obtain res where r: "at r s = Some (Locking res)" and rd: "grpc_no_reader r s"
    using step by (auto simp: grpc_lock_write_def split: option.splits rpc_pc.splits if_splits)
  note f = grpc_facts [OF ok r]
  define res' where "res' = (if res = Some RequestContextCancelled \<and> is_done ?q then None else res)"
  have s': "s' = logged [EndCall r res'] (move r Ending s)" using step r rd by (simp add: grpc_lock_write_def res'_def)
  have "end_result_ok r (log s) res'"
    using f(3,4,6) by (auto simp: end_result_ok_def res'_def)
  then have "always (grpc_rule hr) (log s @ [EndCall r res'])"
    using f(6,7) grpc_readers_over [OF ok rd] grpc_okD(5) [OF ok] by (simp add: always_snoc)
  then show ?thesis
    using s' f(6,9) rd by (intro grpc_moves [OF ok r, where q = "?q\<lparr>rpc_at := Ending\<rparr>" and es = "[EndCall r res']"]) auto
qed

lemma grpc_answer_simps [simp]:
  "requests (answer r a s) = (requests s)[r := (requests s ! r)\<lparr>rpc_at := Finished\<rparr>]" "pending (answer r a s) = pending s"
  "results (answer r a s) = results s" "log (answer r a s) = log s @ (if owned (requests s ! r) then [Answered r a] else [])"
  by (simp_all add: answer_def)

text \<open>Counters between the events of a step.\<close>

lemma answer_counted: "answer_ok r (l @ [Counted c]) res a = answer_ok r l res a"
  by (cases res) (simp_all add: answer_ok_def)

lemma rule_counted: "grpc_rule hr (l @ [Counted c]) e = grpc_rule hr l e"
  by (cases e) (simp_all add: between_calls_def calls_over_def end_result_ok_def answer_counted)

lemma always_two: "always P (l @ [a, b]) \<longleftrightarrow> always P (l @ [a]) \<and> P (l @ [a]) b"
  using always_snoc [of P "l @ [a]" b] by simp

lemma always_three: "always P (l @ [a, b, c]) \<longleftrightarrow> always P (l @ [a, b]) \<and> P (l @ [a, b]) c"
  using always_snoc [of P "l @ [a, b]" c] by simp

lemma latest_three [simp]:
  "latest r (l @ [a, b, c]) = (if handler_event c \<and> about c = Some r then Some c else latest r (l @ [a, b]))"
  using grpc_history_simps(2) [of r "l @ [a, b]" c] by simp

lemma begin_failed_ok:
  assumes ok: "grpc_ok hr s" and r: "at r s = Some Beginning"
    and s': "s' = answer r (Inl (RpcError e)) (logged [BeginErr r e] (counted en BeginRequestFailed s))"
  shows "grpc_ok hr s'"
proof -
  note f = grpc_facts [OF ok r]
  let ?q = "requests s ! r" and ?c = "if en then [Counted BeginRequestFailed] else [] :: 'a grpc_event list"
  let ?a = "if owned (requests s ! r) then [Answered r (Inl (RpcError e))] else []"
  have begun: "\<exists>k. latest r (log s) = Some (BeginCall r k)" using f(6) by auto
  have reg: "Registered r i \<notin> set (log s)" for i using f(15) [of i] by auto
  have "always (grpc_rule hr) (log s @ ?c)" using grpc_okD(5) [OF ok] by (simp add: always_snoc)
  then have "always (grpc_rule hr) ((log s @ ?c) @ [BeginErr r e])" using begun by (subst always_snoc) (simp add: rule_counted)
  then have alw: "always (grpc_rule hr) (log s @ ?c @ [BeginErr r e] @ ?a)"
    using always_snoc [of "grpc_rule hr" "(log s @ ?c) @ [BeginErr r e]" "Answered r (Inl (RpcError e))"] f(4,8)
    by (auto simp: grpc_history_simps(2) [of r "log s @ ?c" "BeginErr r e", simplified])
  have "request_ok (pending s) r (?q\<lparr>rpc_at := Finished\<rparr>) (log s @ ?c @ [BeginErr r e] @ ?a)"
    using f(3-5) f(12) reg by (auto simp: request_ok_def)
  then show ?thesis
    by (intro grpc_step_request [OF ok f(1), where es = "?c @ [BeginErr r e] @ ?a"]) (use s' alw in auto)
qed

lemma no_result_yet:
  assumes ok: "grpc_ok hr s" and "\<And>i. Registered r i \<notin> set (log s)"
  shows "calls_over r (log s)" "grpc_no_reader r s"
proof -
  have none: "ReadStart j r \<notin> set (log s)" for j
  proof
    assume "ReadStart j r \<in> set (log s)"
    then obtain l1 l2 where l: "log s = l1 @ ReadStart j r # l2" by (auto dest: split_list)
    from always_at [OF grpc_okD(5) [OF ok] this] show False using assms(2) l by auto
  qed
  then show "calls_over r (log s)" by (simp add: calls_over_def)
  have "\<not> reads r (result_at (results s ! j))" if "j < length (results s)" for j
    using none [of j] grpc_okD(4) [OF ok] that unfolding tasks_ok_def by (cases "result_at (results s ! j)") fastforce+
  then show "grpc_no_reader r s" by (simp add: grpc_no_reader_def list_all_length)
qed

lemma duplicate_ok:
  assumes ok: "grpc_ok hr s" and r: "at r s = Some Beginning"
    and s': "requests s' = (requests s)[r := (requests s ! r)\<lparr>rpc_id := i, rpc_at := EndingDuplicate\<rparr>]" "pending s' = pending s"
      "results s' = results s" "log s' = log s @ [BeginOk r] @ (if en then [Counted c] else []) @ [EndCall r (Some e)]"
  shows "grpc_ok hr s'"
proof -
  note f = grpc_facts [OF ok r]
  have reg: "Registered r i \<notin> set (log s)" for i using f(15) [of i] by auto
  note none = no_result_yet [OF ok reg]
  let ?es = "[BeginOk r] @ (if en then [Counted c] else []) @ [EndCall r (Some e)]"
  have "\<exists>k. latest r (log s) = Some (BeginCall r k)" using f(6) by auto
  then have "always (grpc_rule hr) (log s @ [BeginOk r])" using grpc_okD(5) [OF ok] by (simp add: always_snoc)
  moreover have rule: "grpc_rule hr (log s @ [BeginOk r]) (EndCall r (Some e))"
    using none(1) f(7) by (auto simp: end_result_ok_def calls_over_def)
  ultimately have "always (grpc_rule hr) (log s @ ?es)"
    using always_two [of "grpc_rule hr" "log s" "BeginOk r"] always_three [of "grpc_rule hr" "log s" "BeginOk r" "Counted c" "EndCall r (Some e)"]
      rule_counted [of hr "log s @ [BeginOk r]" c "EndCall r (Some e)"] by auto
  moreover have "request_ok (pending s) r ((requests s ! r)\<lparr>rpc_id := i, rpc_at := EndingDuplicate\<rparr>) (log s @ ?es)"
    using f(3-5) f(8,9,12) reg by (auto simp: request_ok_def)
  ultimately show ?thesis
    by (intro grpc_step_request [OF ok f(1) s'(1,4,3)]) (use s' none(2) in auto)
qed

lemma id_free:
  assumes ok: "grpc_ok hr s" and free: "map_of (pending s) i = None" and reg: "Registered r' i \<in> set (log s)"
  shows "\<exists>res. EndReturned r' res \<in> set (log s)"
proof -
  have "r' < length (requests s)" using grpc_okD(3) [OF ok reg] by simp
  then have "at r' s = Some (rpc_at (requests s ! r'))" by (simp add: at_def)
  note f = grpc_facts [OF ok this]
  show ?thesis using f(10) f(14,16) [OF reg] free by auto
qed

lemma grpc_register_ok:
  assumes ok: "grpc_ok hr s" and r: "at r s = Some Beginning" and free: "map_of (pending s) i = None"
    and s': "requests s' = (requests s)[r := q]" "log s' = log s @ [BeginOk r, Registered r i] @ es" "results s' = results s"
      "pending s' = hm_insert i r (pending s)"
    and q: "kind q = kind (requests s ! r)" "rpc_id q = i" "is_done q = is_done (requests s ! r)" "owned q = owned (requests s ! r)"
      "slot_ok q = slot_ok (requests s ! r)" "holds_id (rpc_at q)" "\<not> ended (rpc_at q)" "at_ok r q (log s') (rpc_at q)"
    and es: "es = [] \<or> es = [ConsumeCall r]"
  shows "grpc_ok hr s'"
proof (rule grpc_step_request [OF ok _ s'(1-3)])
  note f = grpc_facts [OF ok r]
  show "r < length (requests s)" by (rule f(1))
  have reg: "Registered r i \<notin> set (log s)" for i using f(15) [of i] by auto
  have rule: "grpc_rule hr (log s @ [BeginOk r]) (Registered r i)" using id_free [OF ok free] by auto
  have "\<exists>k. latest r (log s) = Some (BeginCall r k)" using f(6) by auto
  then have "always (grpc_rule hr) (log s @ [BeginOk r])" using grpc_okD(5) [OF ok] by (simp add: always_snoc)
  then have two: "always (grpc_rule hr) (log s @ [BeginOk r, Registered r i])" using rule by (simp add: always_two)
  have "grpc_rule hr (log s @ [BeginOk r, Registered r i]) (ConsumeCall r)" using f(5) by auto
  then show "always (grpc_rule hr) (log s')" using two es s'(2) always_three [of "grpc_rule hr" "log s"] by auto
  have "sends r (log s') = sends r (log s)" using es by (auto simp: s'(2))
  then have "slot_ok q (sends r (log s'))" using f(9) q(5) by simp
  moreover have "(\<forall>a. Answered r a \<notin> set (log s'))" "(\<forall>res. EndCall r res \<notin> set (log s'))"
    using es f(7,8) by (auto simp: s'(2))
  moreover have "\<forall>j. Registered r j \<in> set (log s') \<longrightarrow> j = i" "Registered r i \<in> set (log s')" using reg es by (auto simp: s'(2))
  moreover have "map_of (pending s') i = Some r" "\<forall>j. map_of (pending s') j = Some r \<longrightarrow> j = i" using f(12) by (auto simp: s'(4) split: if_splits)
  moreover have "is_done q \<longleftrightarrow> DoneCalled r \<in> set (log s')" "owned q \<longleftrightarrow> Dropped r \<notin> set (log s')" "BeginCall r (kind q) \<in> set (log s')"
    using f(3-5) q es by (auto simp: s'(2))
  moreover note q(6-8)
  moreover have "rpc_at q \<noteq> Beginning \<and> rpc_at q \<noteq> EndingDuplicate \<and> rpc_at q \<noteq> Finished" using q(6) by auto
  ultimately show "request_ok (pending s') r q (log s')" unfolding request_ok_def q(2) by blast
qed (use es s' free in \<open>auto split: if_splits\<close>)

lemma grpc_begin_returns_ok:
  assumes ok: "grpc_ok hr s" and step: "grpc_begin_returns hr' en hash r res now stamp s = Some s'"
  shows "grpc_ok hr s'"
proof -
  have r: "at r s = Some Beginning" using step by (auto simp: grpc_begin_returns_def split: if_splits)
  note f = grpc_facts [OF ok r]
  let ?q = "requests s ! r"
  show ?thesis
  proof (cases res)
    case (Inl e)
    then have "s' = answer r (Inl (RpcError e)) (logged [BeginErr r e] (counted en BeginRequestFailed s))"
      using step r by (simp add: grpc_begin_returns_def)
    then show ?thesis by (rule begin_failed_ok [OF ok r])
  next
    case (Inr given)
    obtain i n where i: "(case given of Some i \<Rightarrow> (i, sequence s) | None \<Rightarrow> new_stream_id stamp (sequence s)) = (i, n)" by force
    show ?thesis
    proof (cases "map_of (pending s) i")
      case (Some x)
      then show ?thesis
        using Inr i step r f(1) by (intro duplicate_ok [OF ok r, where i = i and en = en]) (auto simp: grpc_begin_returns_def Let_def)
    next
      case None
      define es where "es = (if owned ?q \<and> \<not> streams_in (kind ?q) then [ConsumeCall r] else [] :: 'a grpc_event list)"
      define q where "q = (if \<not> owned ?q then ?q\<lparr>rpc_id := i, rpc_at := Locking (Some RequestContextCancelled), closing := True\<rparr>
        else if streams_in (kind ?q) then ?q\<lparr>rpc_id := i, rpc_at := NextMessage\<rparr> else ?q\<lparr>rpc_id := i, rpc_at := Consuming\<rparr>)"
      have "requests s' = (requests s)[r := q]" "log s' = log s @ [BeginOk r, Registered r i] @ es" "results s' = results s"
          "pending s' = hm_insert i r (pending s)"
        using Inr i step r f(1) None by (auto simp: grpc_begin_returns_def after_begin_def Let_def goes_on_def es_def q_def)
      moreover have "at_ok r q (log s @ [BeginOk r, Registered r i] @ es) (rpc_at q)" using f(6) by (auto simp: q_def es_def between_calls_def)
      ultimately show ?thesis
        by (intro grpc_register_ok [OF ok r None, where q = q and es = es]) (auto simp: q_def es_def)
    qed
  qed
qed

lemma answer_of_first: "slot_ok q xs \<Longrightarrow> answer_of q res = (case res of Some e \<Rightarrow> Inl e | None \<Rightarrow> Inr (first_of xs))"
  by (auto simp: slot_ok_def answer_of_def first_of_def split: option.splits)

lemma grpc_finish_ok:
  assumes ok: "grpc_ok hr s" and r: "at r s = Some pc" "pc = Ending \<or> pc = EndingDuplicate"
    and s': "requests s' = (requests s)[r := q]" "results s' = results s"
      "log s' = log s @ [EndReturned r res] @ (if en then [Counted c] else []) @ (if owned (requests s ! r) then [Answered r a] else [])"
    and pm: "\<And>i. map_of (pending s') i \<noteq> Some r" "\<And>i r'. r' \<noteq> r \<Longrightarrow> map_of (pending s') i = Some r' \<longleftrightarrow> map_of (pending s) i = Some r'"
    and q: "kind q = kind (requests s ! r)" "rpc_id q = rpc_id (requests s ! r)" "is_done q = is_done (requests s ! r)"
      "owned q = owned (requests s ! r)" "rpc_at q = Finished"
    and a: "answer_ok r (log s @ [EndReturned r res]) res a"
  shows "grpc_ok hr s'"
proof -
  note f = grpc_facts [OF ok r(1)]
  let ?l = "log s @ [EndReturned r res]"
  obtain b where b: "log s' = ?l @ (if en then [Counted c] else []) @ (if b then [Answered r a] else [])" "b \<longleftrightarrow> Dropped r \<notin> set (log s)"
    using s'(3) f(4) by auto
  have "always (grpc_rule hr) ?l" using grpc_okD(5) [OF ok] f(6) r(2) by (auto simp: always_snoc)
  moreover have "grpc_rule hr ?l (Answered r a)" if b using that b(2) f(8) r(2) a by auto
  ultimately have "always (grpc_rule hr) (log s')"
    using always_two [of "grpc_rule hr" ?l "Counted c" "Answered r a"] rule_counted [of hr ?l c "Answered r a"]
    unfolding b(1) by (cases en; cases b) (auto simp: always_snoc simp del: append.assoc append_assoc)
  moreover have "request_ok (pending s') r q (log s')"
    using q f(3-5) f(14) pm(1) unfolding s'(3) request_ok_def by auto
  ultimately show ?thesis
    by (intro grpc_step_request [OF ok f(1) s'(1,3,2)]) (use pm(2) in auto)
qed

lemma grpc_end_returns_ok:
  assumes ok: "grpc_ok hr s" and step: "grpc_end_returns hr' en hash r res s = Some s'"
  shows "grpc_ok hr s'"
proof -
  let ?q = "requests s ! r"
  obtain pc where r: "at r s = Some pc" "pc = Ending \<or> pc = EndingDuplicate"
    using step by (auto simp: grpc_end_returns_def Let_def split: option.splits rpc_pc.splits)
  note f = grpc_facts [OF ok r(1)]
  show ?thesis
  proof (cases "pc = Ending")
    case True
    have "answer_ok r (log s @ [EndReturned r res]) res (answer_of ?q res)"
      using f(9,11) True answer_of_first [OF f(9), of res] by (auto simp: answer_ok_def split: option.split)
    moreover have own: "map_of (pending s) (rpc_id ?q) = Some r" using f(10) True by simp
    moreover have "map_of (hm_remove (rpc_id ?q) (pending s)) i \<noteq> Some r" for i using f(13) by auto
    moreover have "map_of (hm_remove (rpc_id ?q) (pending s)) i = Some r' \<longleftrightarrow> map_of (pending s) i = Some r'" if "r' \<noteq> r" for i r'
      using own that by auto
    ultimately show ?thesis
      using step r(1) True f(1)
      by (intro grpc_finish_ok [OF ok r, where q = "?q\<lparr>callbacks := None, rpc_at := Finished\<rparr>" and res = res and en = en])
        (auto simp: grpc_end_returns_def Let_def pop_own_def)
  next
    case False
    have "answer_ok r (log s @ [EndReturned r res]) res (Inl (RpcError ''duplicate gRPC stream ID''))"
      using f(15) r(2) False by (auto simp: answer_ok_def)
    then show ?thesis
      using step r False f(12)
      by (intro grpc_finish_ok [OF ok r, where q = "?q\<lparr>rpc_at := Finished\<rparr>" and res = res and en = en]) (auto simp: grpc_end_returns_def Let_def)
  qed
qed

lemma rpc_arrives_ok:
  assumes ok: "grpc_ok hr s"
  shows "grpc_ok hr (rpc_arrives k s)"
proof -
  let ?n = "length (requests s)" and ?e = "BeginCall (length (requests s)) k" and ?s = "rpc_arrives k s"
  obtain q where s': "requests ?s = requests s @ [q]" "log ?s = log s @ [?e]" "rpc_at q = Beginning" "kind q = k" "owned q" "\<not> is_done q"
      "slot q = None" "received q = None" "results ?s = results s" "pending ?s = pending s"
    by (simp add: rpc_arrives_def)
  have none: "about e \<noteq> Some ?n" if "e \<in> set (log s)" for e using grpc_okD(3) [OF ok that] by blast
  have no: "e \<notin> set (log s)" if "about e = Some ?n" for e using none that by blast
  have ln: "latest ?n (log s) = None" "sends ?n (log s) = []"
    using grpc_others(1) [of "log s" ?n "[]"] grpc_others(2) [of "log s" ?n] none by auto
  have pn: "map_of (pending s) i \<noteq> Some ?n" for i using grpc_okD(2) [OF ok] by blast
  have "request_ok (pending s) ?n q (log ?s)"
    using s' ln pn no [of "DoneCalled ?n"] no [of "Dropped ?n"] no [of "EndCall ?n _"] no [of "Answered ?n _"] no [of "Registered ?n _"]
    by (simp add: request_ok_def slot_ok_def)
  moreover have "request_ok (pending s) r (requests s ! r) (log ?s)" if "r < ?n" for r
    using grpc_request_frame [OF grpc_okD(1) [OF ok that], of "[?e]" "pending s"] that s'(2) by auto
  ultimately have "request_ok (pending ?s) r (requests ?s ! r) (log ?s)" if "r < length (requests ?s)" for r
    using that s'(1,10) by (cases "r = ?n") (auto simp: nth_append)
  moreover have "tasks_ok (length (requests ?s)) (log ?s) (results ?s)"
    unfolding s' by (rule grpc_tasks_frame [OF grpc_okD(4) [OF ok]]) auto
  moreover have "always (grpc_rule hr) (log ?s)" using grpc_okD(5) [OF ok] ln s'(2) by (simp add: always_snoc)
  moreover have "r < length (requests ?s)" if "map_of (pending ?s) i = Some r" for i r
    using that s'(1,10) grpc_okD(2) [OF ok, of i r] by simp
  moreover have "r < length (requests ?s)" if "e \<in> set (log ?s)" "about e = Some r" for e r
    using that s'(1,2) grpc_okD(3) [OF ok, of e r] by auto
  ultimately show ?thesis unfolding grpc_ok_def by blast
qed

section \<open>Results\<close>

fun grpc_side_event :: "'v grpc_event \<Rightarrow> bool" where
  "grpc_side_event (ReadStart _ _) = True"
| "grpc_side_event (ReadEnd _ _) = True"
| "grpc_side_event (Called _ _) = True"
| "grpc_side_event (Counted _) = True"
| "grpc_side_event _ = False"

lemma grpc_side_all:
  assumes "list_all grpc_side_event es"
  shows "latest r (l @ es) = latest r l" "sends r es = []"
proof -
  have e: "\<not> handler_event e" "sent_of r e = []" if "e \<in> set es" for e
    using assms that by (auto simp: list_all_iff elim!: grpc_side_event.elims)
  show "latest r (l @ es) = latest r l" by (rule latest_append) (use e(1) in blast)
  show "sends r es = []" using e(2) by (simp add: sends_def concat_eq_Nil_conv)
qed

lemma grpc_step_result:
  assumes ok: "grpc_ok hr s"
    and s': "requests s' = requests s" "log s' = log s @ es" "pending s' = pending s"
    and es: "list_all grpc_side_event es" "\<And>e r. e \<in> set es \<Longrightarrow> about e = Some r \<Longrightarrow> r < length (requests s)"
    and ts: "tasks_ok (length (requests s)) (log s') (results s')" and alw: "always (grpc_rule hr) (log s')"
  shows "grpc_ok hr s'"
proof -
  have "request_ok (pending s') r (requests s' ! r) (log s')" if r: "r < length (requests s)" for r
  proof -
    note old = grpc_okD(1) [OF ok r, unfolded request_ok_def]
    have "at_ok r (requests s ! r) (log s @ es) (rpc_at (requests s ! r))"
      by (rule grpc_at_ok_same [of r "requests s ! r" "log s"]) (use old grpc_side_all(1) [OF es(1)] in auto)
    moreover have "DoneCalled r \<notin> set es" "Dropped r \<notin> set es" "EndCall r res \<notin> set es" "Answered r a \<notin> set es"
      "Registered r i \<notin> set es" "EndReturned r res \<notin> set es" "BeginCall r k \<notin> set es" for res a i k
      using es(1) by (auto simp: list_all_iff)
    ultimately show ?thesis using old unfolding request_ok_def s' grpc_history_simps(4) grpc_side_all(2) [OF es(1)] by simp
  qed
  moreover have "r < length (requests s)" if "e \<in> set (log s')" "about e = Some r" for e r
    using that s'(2) es(2) grpc_okD(3) [OF ok] by auto
  ultimately show ?thesis using grpc_okD(2) [OF ok] ts alw unfolding grpc_ok_def s'(1,3) by blast
qed

lemma grpc_tasks_move:
  assumes ok: "tasks_ok n l ts" and j: "j < length ts"
    and es: "\<And>j' r. ReadStart j' r \<in> set es \<or> ReadEnd j' r \<in> set es \<Longrightarrow> j' = j" "\<And>r res. EndCall r res \<notin> set es"
    and t: "task_ok n (l @ es) j (result_at t)"
  shows "tasks_ok n (l @ es) (ts[j := t])"
proof -
  have "task_ok n (l @ es) k (result_at (ts[j := t] ! k))" if k: "k < length ts" for k
  proof (cases "k = j")
    case False
    have "task_ok n l k (result_at (ts ! k))" using ok k by (simp add: tasks_ok_def)
    moreover have "ReadStart k r \<notin> set es" "ReadEnd k r \<notin> set es" for r using es(1) [of k r] False by blast+
    ultimately show ?thesis using es(2) k False by (cases "result_at (ts ! k)") auto
  qed (use t j in simp)
  moreover have "k < length ts" if "ReadStart k r \<in> set (l @ es) \<or> ReadEnd k r \<in> set (l @ es)" for k r
    using that es(1) [of k r] j ok by (auto simp: tasks_ok_def)
  ultimately show ?thesis by (simp add: tasks_ok_def)
qed

lemma grpc_doing_facts:
  assumes ok: "grpc_ok hr s" and "doing j s = pc" "pc \<noteq> Over"
  shows "j < length (results s)" "result_at (results s ! j) = pc" "task_ok (length (requests s)) (log s) j pc"
    "reads r pc \<Longrightarrow> r < length (requests s)"
proof -
  show len: "j < length (results s)" and at: "result_at (results s ! j) = pc" using assms(2,3) by (auto simp: doing_def split: if_splits)
  then show task: "task_ok (length (requests s)) (log s) j pc" using grpc_okD(4) [OF ok] unfolding tasks_ok_def by auto
  have "ReadStart j r \<in> set (log s)" if "reads r pc" using task that by (cases pc) auto
  then show "reads r pc \<Longrightarrow> r < length (requests s)" using grpc_okD(3) [OF ok, of "ReadStart j r"] by simp
qed

lemma grpc_result_moves:
  assumes ok: "grpc_ok hr s" and j: "doing j s = pc" "pc \<noteq> Over"
    and s': "requests s' = requests s" "log s' = log s @ es" "pending s' = pending s" "results s' = (results s)[j := (results s ! j)\<lparr>result_at := pc'\<rparr>]"
    and es: "list_all grpc_side_event es" "\<And>e r. e \<in> set es \<Longrightarrow> about e = Some r \<Longrightarrow> r < length (requests s)"
      "\<And>j' r. ReadStart j' r \<in> set es \<or> ReadEnd j' r \<in> set es \<Longrightarrow> j' = j"
    and t: "task_ok (length (requests s)) (log s @ es) j pc'" and alw: "always (grpc_rule hr) (log s @ es)"
  shows "grpc_ok hr s'"
proof (rule grpc_step_result [OF ok s'(1-3) es(1,2)])
  have "EndCall r res \<notin> set es" for r res using es(1) by (auto simp: list_all_iff)
  then show "tasks_ok (length (requests s)) (log s') (results s')"
    unfolding s'(2,4) by (intro grpc_tasks_move [OF grpc_okD(4) [OF ok] grpc_doing_facts(1) [OF ok j]]) (use es(3) t in auto)
qed (use alw s'(2) in auto)

lemma grpc_counted_ok: "grpc_ok hr s \<Longrightarrow> grpc_ok hr (counted en c s)"
  by (rule grpc_step_result [where es = "if en then [Counted c] else []"])
    (auto simp: always_snoc dest: grpc_okD(4,5) intro: grpc_tasks_frame [OF grpc_okD(4), where es = "[Counted c]"])

lemma grpc_result_arrives_ok:
  assumes ok: "grpc_ok hr s"
  shows "grpc_ok hr (grpc_result_arrives en given s)"
proof -
  have "grpc_ok hr (s\<lparr>results := results s @ [\<lparr>result_id = i, result_at = ReadLock r\<rparr>]\<rparr>)" if i: "map_of (pending s) i = Some r" for i r
  proof (rule grpc_step_result [OF ok, where es = "[]"])
    have new: "ReadStart (length (results s)) r' \<notin> set (log s)" "ReadEnd (length (results s)) r' \<notin> set (log s)" for r'
      using grpc_okD(4) [OF ok] unfolding tasks_ok_def by blast+
    have "j < Suc (length (results s))" if "ReadStart j r' \<in> set (log s) \<or> ReadEnd j r' \<in> set (log s)" for j r'
      using grpc_okD(4) [OF ok] that unfolding tasks_ok_def by (meson less_Suc_eq)
    then show "tasks_ok (length (requests s)) (log (s\<lparr>results := results s @ [\<lparr>result_id = i, result_at = ReadLock r\<rparr>]\<rparr>))
        (results (s\<lparr>results := results s @ [\<lparr>result_id = i, result_at = ReadLock r\<rparr>]\<rparr>))"
      using grpc_okD(2) [OF ok i] grpc_okD(4) [OF ok] new by (simp add: tasks_ok_def nth_append less_Suc_eq)
  qed (use grpc_okD(5) [OF ok] in auto)
  then show ?thesis using grpc_counted_ok [OF ok] by (auto simp: grpc_result_arrives_def split: option.split)
qed

lemma grpc_read_lock_ok:
  assumes ok: "grpc_ok hr s" and step: "grpc_read_lock hr en j s = Some s'"
  shows "grpc_ok hr s'"
proof -
  obtain r where j: "doing j s = ReadLock r" using step by (auto simp: grpc_read_lock_def split: grpc_result_pc.splits)
  note d = grpc_doing_facts [OF ok j, simplified]
  consider "s' = counted en LateResult (set_result j Over s)"
    | "\<not> closing (requests s ! r)" hr "map_of (pending s) (result_id (results s ! j)) = Some r" "s' = logged [ReadStart j r] (set_result j (Identifying r) s)"
    using step j by (auto simp: grpc_read_lock_def split: if_splits)
  then show ?thesis
  proof cases
    case 1
    have "grpc_ok hr (set_result j Over s)"
      by (rule grpc_result_moves [OF ok j, where es = "[]" and pc' = Over]) (use d grpc_okD(5) [OF ok] in auto)
    then show ?thesis using grpc_counted_ok 1 by simp
  next
    case 2
    have r: "r < length (requests s)" by (rule grpc_okD(2) [OF ok 2(3)])
    then have at: "at r s = Some (rpc_at (requests s ! r))" by (simp add: at_def)
    note f = grpc_facts [OF ok at]
    have hold: "holds_id (rpc_at (requests s ! r))" by (rule f(12) [OF 2(3)])
    have "\<not> ended (rpc_at (requests s ! r))" using f(6) hold 2(1) by (cases "rpc_at (requests s ! r)") auto
    then have h: "EndCall r res \<notin> set (log s)" for res by (rule f(7))
    have "task_ok (length (requests s)) (log s @ [ReadStart j r]) j (Identifying r)" using d(3) h by auto
    moreover have "always (grpc_rule hr) (log s @ [ReadStart j r])"
      using grpc_okD(5) [OF ok] h 2(2) f(11) [OF hold] by (auto simp: always_snoc)
    ultimately show ?thesis
      by (intro grpc_result_moves [OF ok j, where es = "[ReadStart j r]" and pc' = "Identifying r"]) (use 2(4) r in auto)
  qed
qed

lemma grpc_read_ends:
  assumes ok: "grpc_ok hr s" and j: "doing j s = pc" "reads r pc"
  shows "grpc_ok hr (logged [ReadEnd j r] (set_result j Over s))"
proof (rule grpc_result_moves [OF ok j(1), where es = "[ReadEnd j r]" and pc' = Over])
  show "pc \<noteq> Over" using j(2) by auto
  note d = grpc_doing_facts [OF ok j(1) this]
  have "r' = r" if "ReadStart j r' \<in> set (log s)" for r' using that d(3) j(2) by (cases pc) auto
  then show "task_ok (length (requests s)) (log s @ [ReadEnd j r]) j Over" by auto
  show "r' < length (requests s)" if "e \<in> set [ReadEnd j r]" "about e = Some r'" for e r' using that d(4) [OF j(2)] by simp
qed (use grpc_okD(5) [OF ok] in \<open>auto simp: always_snoc\<close>)

lemma grpc_identified_ok:
  assumes ok: "grpc_ok hr s" and step: "grpc_identified en j i s = Some s'"
  shows "grpc_ok hr s'"
proof -
  obtain r where j: "doing j s = Identifying r" using step by (auto simp: grpc_identified_def split: grpc_result_pc.splits)
  note d = grpc_doing_facts [OF ok j, simplified]
  consider "s' = logged [ReadEnd j r] (counted en UnknownMessageId (set_result j Over s))" | "s' = logged [Called j r] (set_result j (Calling r i) s)"
    using step j by (auto simp: grpc_identified_def split: option.splits)
  then show ?thesis
  proof cases
    case 1
    have "doing j (counted en UnknownMessageId s) = Identifying r" using j by (simp add: doing_def split: if_splits)
    then have "grpc_ok hr (logged [ReadEnd j r] (set_result j Over (counted en UnknownMessageId s)))"
      by (rule grpc_read_ends [OF grpc_counted_ok [OF ok]]) simp
    moreover have "set_result j Over (counted en UnknownMessageId s) = counted en UnknownMessageId (set_result j Over s)"
      by (simp add: counted_def set_result_def logged_def)
    ultimately show ?thesis using 1 by simp
  next
    case 2
    show ?thesis
      by (rule grpc_result_moves [OF ok j, where es = "[Called j r]" and pc' = "Calling r i"])
        (use 2 d grpc_okD(5) [OF ok] in \<open>auto simp: always_snoc\<close>)
  qed
qed

lemma grpc_call_returns_ok:
  assumes ok: "grpc_ok hr s" and step: "grpc_call_returns en j b s = Some s'"
  shows "grpc_ok hr s'"
proof -
  obtain r i where j: "doing j s = Calling r i" using step by (auto simp: grpc_call_returns_def split: grpc_result_pc.splits)
  let ?t = "logged [ReadEnd j r] (set_result j Over s)"
  have t: "grpc_ok hr ?t" by (rule grpc_read_ends [OF ok j]) simp
  have "r < length (requests ?t)" using grpc_doing_facts(4) [OF ok j] by simp
  then have "grpc_ok hr (logged [] (upd r (callbacks_update (map_option (hm_remove i))) ?t))"
    by (rule grpc_touch_ok [OF t]) (use grpc_okD(5) [OF t] in auto)
  then show ?thesis using step j t grpc_counted_ok [OF t] by (auto simp: grpc_call_returns_def Let_def split: if_splits)
qed

lemma grpc_drop_result_ok:
  assumes ok: "grpc_ok hr s" and step: "grpc_drop_result j s = Some s'"
  shows "grpc_ok hr s'"
proof (cases "doing j s")
  case (ReadLock r)
  show ?thesis
    by (rule grpc_result_moves [OF ok ReadLock, where es = "[]" and pc' = Over])
      (use step ReadLock grpc_doing_facts(3) [OF ok ReadLock] grpc_okD(5) [OF ok] in \<open>auto simp: grpc_drop_result_def\<close>)
next
  case (Identifying r)
  then show ?thesis using step grpc_read_ends [OF ok Identifying, of r] by (simp add: grpc_drop_result_def)
next
  case (Calling r i)
  then show ?thesis using step grpc_read_ends [OF ok Calling, of r] by (simp add: grpc_drop_result_def)
qed (use step in \<open>simp add: grpc_drop_result_def\<close>)

lemma grpc_step_ok:
  assumes ok: "grpc_ok hr s" and step: "grpc_step hr en hash a s = Some s'"
  shows "grpc_ok hr s'"
  using step
  by (cases a) (auto intro: rpc_arrives_ok [OF ok] grpc_begin_returns_ok [OF ok] next_ok [OF ok] grpc_consume_returns_ok [OF ok]
      eof_returns_ok [OF ok] grpc_wait_ends_ok [OF ok] drop_rpc_ok [OF ok] grpc_lock_write_ok [OF ok] grpc_end_returns_ok [OF ok]
      grpc_result_arrives_ok [OF ok] grpc_read_lock_ok [OF ok] grpc_identified_ok [OF ok] grpc_call_returns_ok [OF ok]
      grpc_drop_result_ok [OF ok] grpc_handler_ok [OF ok])

interpretation grpc_run: step_system "grpc_step hr en hash" "grpc_ok hr" for hr en hash
  by unfold_locales (rule grpc_step_ok)

section \<open>The protocol\<close>


text \<open>A unary RPC, a second one with the same id meanwhile, and a dropped one that takes the id over.\<close>

definition demo_rpcs :: "nat grpc_action list" where
  "demo_rpcs =
     [RpcArrives NoStreaming, BeginReturns 0 (Inr (Some ''a'')) 0 0, SetCallback 0 ''m'' 0, ConsumeReturns 0 None, EofReturns 0,
      RpcArrives BidiStreaming, BeginReturns 1 (Inr (Some ''a'')) 0 0, EndReturns 1 None,
      ResultArrives (Some ''a''), TakeReadLock 0, Identified 0 ''m'', SendValue 0 7, CallReturns 0 True, WaitEnds 0 False,
      SendValue 0 8, LockWrite 0, EndReturns 0 None,
      RpcArrives ClientStreaming, BeginReturns 2 (Inr (Some ''a'')) 0 0, DropRpc 2, LockWrite 2, EndReturns 2 None]"

definition demo_rpc_log :: "nat grpc_event list" where
  "demo_rpc_log =
     [BeginCall 0 NoStreaming, BeginOk 0, Registered 0 ''a'', ConsumeCall 0, ConsumeReturned 0 None, EofCall 0, EofReturned 0,
      BeginCall 1 BidiStreaming, BeginOk 1, EndCall 1 (Some (RpcError ''duplicate gRPC stream ID'')), EndReturned 1 None,
      Answered 1 (Inl (RpcError ''duplicate gRPC stream ID'')),
      ReadStart 0 0, Called 0 0, Sent 0 7, ReadEnd 0 0, Sent 0 8, EndCall 0 None, EndReturned 0 None, Answered 0 (Inr (Some 7)),
      BeginCall 2 ClientStreaming, BeginOk 2, Registered 2 ''a'', Dropped 2, EndCall 2 (Some RequestContextCancelled), EndReturned 2 None]"

lemmas grpc_evaluation = grpc_new_def rpc_arrives_def grpc_begin_returns_def grpc_next_def grpc_consume_returns_def grpc_eof_returns_def
  after_begin_def after_consume_def after_eof_def unary_receive_def wait_done_def grpc_wait_ends_def drop_rpc_def grpc_lock_write_def grpc_end_returns_def grpc_result_arrives_def grpc_read_lock_def grpc_identified_def
  grpc_call_returns_def grpc_set_result_callback_def unary_send_def grpc_no_reader_def pop_own_def answer_of_def answer_def take_slot_def
  begin_finish_def goes_on_def call_consume_def call_eof_def streams_in_def answers_once_def counted_def set_result_def Grpc_Source.doing_def
  Grpc_Source.at_def Grpc_Source.upd_def Grpc_Source.move_def Grpc_Source.logged_def pr_new_def pr_add_def pr_remove_def Let_def

lemma demo_rpcs_run: "\<exists>s. run_steps (grpc_step True False hash) demo_rpcs (grpc_new False) = Some s \<and> log s = demo_rpc_log"
  by (simp add: grpc_evaluation demo_rpcs_def demo_rpc_log_def)


text \<open>
  Once the RPC has taken the first value, a second \<open>send\<close> finds the slot empty and succeeds, although the RPC is answered
  with the first value only.
\<close>

theorem grpc_second_send_lost:
  "\<exists>s. run_steps (grpc_step True False hash) demo_rpcs (grpc_new False) = Some s \<and>
     sends 0 (log s) = [7, 8] \<and> SendRefused 0 \<notin> set (log s) \<and> Answered 0 (Inr (Some 7)) \<in> set (log s)"
proof -
  have "sends 0 demo_rpc_log = [7, 8]" "SendRefused 0 \<notin> set demo_rpc_log" "Answered 0 (Inr (Some 7)) \<in> set demo_rpc_log"
    by (simp_all add: demo_rpc_log_def)
  then show ?thesis using demo_rpcs_run [of hash] by auto
qed

section \<open>The data source\<close>

text \<open>
  A data source starts only when that is the first thing it does, and any other start fails with the error of its state.
  \<open>tonic_calls\<close> is the state after calls of \<open>stop\<close> (\<open>True\<close>) and \<open>start\<close> (\<open>False\<close>).
\<close>

definition tonic_calls :: "bool list \<Rightarrow> tonic_data_source \<Rightarrow> tonic_data_source" where
  "tonic_calls stops d = fold (\<lambda>stop d. snd (if stop then tonic_stop d else tonic_start d)) stops d"

lemma tonic_state_after:
  assumes "tonic_from_config max_permits name capacity = Inr d"
  shows "tonic_calls stops d = d\<lparr>tonic_state := if True \<in> set stops then 2 else if stops = [] then 0 else 1\<rparr>"
proof (induction stops rule: rev_induct)
  case Nil
  then show ?case using assms by (auto simp: tonic_calls_def tonic_from_config_def split: if_splits)
next
  case (snoc stop stops)
  have "tonic_calls (stops @ [stop]) d = snd (if stop then tonic_stop (tonic_calls stops d) else tonic_start (tonic_calls stops d))"
    by (simp add: tonic_calls_def)
  then show ?case unfolding snoc by (simp add: tonic_stop_def tonic_start_def)
qed

theorem tonic_starts_once:
  assumes "tonic_from_config max_permits name capacity = Inr d"
  shows "fst (tonic_start (tonic_calls stops d)) =
     (if True \<in> set stops then Inl (ResourceStopped name) else if stops = [] then Inr () else Inl (ResourceAlreadyStarted name))"
  using assms unfolding tonic_state_after [OF assms] by (auto simp: tonic_start_def tonic_from_config_def split: if_splits)

end
