(* ===== verification/Spec2Isabelle.thy ===== *)
theory Spec2Isabelle
  imports Pool_Runs Rotating_Map Callback_Store Result_Router Serde_Containers Serde_Registry
    Message_Context Join_Storage Graph_Runs Service_Runs Delay_Pool Sub_Stream Kafka_Source Kafka_Sink
    Endpoint_Request Cron_Source Metrics_Registry Config_Loader Http_Runs Grpc_Runs
begin

text \<open>
  The runtime of \<open>servicelib\<close>, the library under generated stream-processing services (paths below are under
  \<open>src/\<close> of the repository). A service is a graph of operators: source endpoints turn requests and messages from
  outside into payloads, operators transform, split, join and route them, sink endpoints send them on, and results
  find the request they belong to by ids that travel in the message context. Links between operators call directly,
  in parallel tasks or through task pools. A life cycle starts pools, storages, sinks and sources in order and stops
  them in the opposite order within a deadline; the configuration says what exists and can be reloaded.

  \<^bold>\<open>Conventions.\<close> A \<open>HashMap\<close> is an association list with distinct keys, a \<open>BTreeMap\<close> one with increasing keys
  (\<open>Runtime_Prelude\<close>). A panic is the result \<open>None\<close>, an error a value of \<open>runtime_error\<close> or of a sum of its own;
  error texts are represented by their fixed part unless a theory says otherwise. \<open>Instant\<close> and \<open>Duration\<close> are
  natural numbers. An \<open>async\<close> function is cut at its suspension points into functions on the state; everything that
  can happen next (a task runs on, a client library answers, a future is dropped, time passes) is an action of an
  executable \<open>*_step :: action \<Rightarrow> state \<Rightarrow> state option\<close>, and a run is \<open>run_steps\<close> of \<open>Step_Systems\<close> over any list of
  actions, so a theorem on runs covers every interleaving. Each of these machines interprets the locale
  \<open>step_system\<close> with its invariant. Event logs are ghost fields; \<open>always\<close> says that every event stands in a relation
  to the events before it. Third-party crates (tokio, librdkafka, croner, serde, OpenTelemetry) are arguments of
  the definitions or answers carried by the actions.

  \<^bold>\<open>Task pools.\<close> \<open>Pending_Queue\<close> is the queue of \<open>runtime/pool/queuedpool.rs\<close> with the links of its FIFO form as the
  code keeps them; both forms refine a list and a sorted list. \<open>Queued_Pool\<close> has the public operations, the actor
  loop and the executor tasks, \<open>Pool_Runs\<close> the invariant of every reachable state: a turn keeps the pool safe, no
  task is lost or run twice, and after a stop every accepted task runs before the pool ends. \<open>Delay_Pool\<close> is
  \<open>runtime/pool/delaypool.rs\<close> with the delay operator: when a delayed message is emitted, and that it is emitted once.

  \<^bold>\<open>Stores.\<close> \<open>Key_Store\<close> is the interface of a keyed store of pending work as a locale, with the choice of a shard.
  \<open>Rotating_Map\<close> (\<open>runtime/store/rotatingmap.rs\<close>), \<open>Callback_Store\<close> (\<open>datasource/grpc/callback_store.rs\<close>) and
  \<open>Result_Router\<close> (\<open>runtime/datasource.rs\<close>) interpret it: they refine a map under every sequence of operations,
  rotations included, and a result is delivered to the request that waits for it. \<open>Join_Storage\<close> is
  \<open>runtime/store/hashmap.rs\<close> with calls and timers as interleaved tasks over a heap of entries: which values a join
  function sees, and that no group is handled twice.

  \<^bold>\<open>Wire formats and contexts.\<close> \<open>Serde_Core\<close>, \<open>Serde_Containers\<close> and \<open>Serde_Registry\<close> are \<open>runtime/serde\<close>: round
  trips, exactness of string decoding, order of signed encodings, and that concurrent lookups agree on one serializer.
  \<open>Message_Context\<close> is \<open>runtime/common.rs\<close>: deadlines, priorities and metadata of derived contexts and of a
  transport hop, stream ids, construction cells and completion guards.

  \<^bold>\<open>Graph.\<close> \<open>Runtime_Config\<close> is \<open>runtime/config/runtime.rs\<close>: which configurations are accepted and what lookups
  return. \<open>Config_Loader\<close> is \<open>runtime/config/loader.rs\<close>: precedence of the layers, validity of everything published,
  agreement of the two published snapshots when reloads do not overlap. \<open>Stream_Graph\<close> builds a graph as the
  \<open>make\<close> functions of \<open>operators/\<close> do, \<open>Graph_Runs\<close> sends messages through it: what is computed does not depend on
  the schedule of tasks, direct calls run in order. \<open>Sub_Stream\<close> is \<open>operators/substream.rs\<close>: the protocol between a
  call, its collector and results that arrive late or concurrently.

  \<^bold>\<open>Life cycle.\<close> \<open>Service_App\<close> is \<open>runtime/serviceapp.rs\<close>, \<open>Service_Runs\<close> its runs: order of start and stop,
  what a failed start leaves, that a stop returns and with which result. \<open>Metrics_Registry\<close> is
  \<open>runtime/environment/metrics.rs\<close>: identity of handles, agreement of gauges with what was exported, the bucket
  counts of histograms, and that the exposition text can be read back.

  \<^bold>\<open>Connectors.\<close> \<open>Kafka_Source\<close> is \<open>datasource/kafka/checkpoint.rs\<close> and the endpoint task of
  \<open>datasource/kafka/rdkafka.rs\<close>: offsets are acknowledged only under the assignment a message came from, and lanes keep
  the order. \<open>Endpoint_Request\<close> is the life of a request of \<open>datasource/localsource/custom.rs\<close> (the Kafka endpoint
  repeats it): no callback runs at or after \<open>end_request\<close>, and admission respects the limit. \<open>Cron_Source\<close> is
  \<open>datasource/cron/croner.rs\<close>: occurrences fire in order and only when due, catching up equals walking.
  \<open>Kafka_Sink\<close> is the data sink of \<open>datasink/kafka/rdkafka.rs\<close>: a stop waits for every message being sent and nothing
  is sent after it, every message gets one outcome, and a start sees every endpoint; two starts that end badly.
  \<open>Http_Source\<close> is \<open>datasource/http/axum.rs\<close> with its requests, results, listener, \<open>start\<close> and \<open>stop\<close>, and \<open>Http_Runs\<close> its
  runs: the stations of a request, that no callback runs at or after its end, what the reply consists of, that a stop
  waits for every accepted request; a request that slips past a stop of a shared listener.
  \<open>Grpc_Source\<close> is \<open>datasource/grpc\<close> with its four kinds of RPC, the sender of a single response, results and dropped
  calls, and \<open>Grpc_Runs\<close> its runs: the calls of the handler never overlap, \<open>end_request\<close> comes once and last, an id stays
  reserved until it has returned, and the answer is its result with the first value sent; a second value that is lost.

  \<^bold>\<open>Bounds and fuel.\<close> \<open>Graph_Runs\<close> explores a graph with fuel \<open>2 * length streams + 1\<close>, which is proved enough for a
  graph whose links go forward. \<open>Service_Runs\<close> drives a stop with fuel twice the number of its suspension points
  plus one, proved enough for it to return. The generation of a Kafka assignment is a 64-bit counter; its theorems
  are for fewer than \<open>2^64\<close> rebalances. The searches of \<open>Cron_Source\<close> are partial functions whose result \<open>None\<close> is
  an endless search; the theorems are about runs in which they return, and the interval search is proved to return.
  Counters of \<open>Metrics_Registry\<close> and \<open>Serde_Core\<close> are words and wrap.

  \<^bold>\<open>Not modelled.\<close> The HTTP and gRPC sinks (\<open>datasink/http\<close>, \<open>datasink/grpc\<close>) are mostly the plumbing of reqwest and tonic bodies and
  streams; the request protocol they repeat is that of \<open>Endpoint_Request\<close>, \<open>Http_Runs\<close> and \<open>Grpc_Runs\<close>. Of the gRPC source
  the registration of its metrics and the lookup of its connector are left out. Tracing and log layers (\<open>runtime/telemetry\<close>, the log and
  tracing engines), the status page (\<open>runtime/statusweb.rs\<close>), the generated constants of \<open>api/\<close>, and the test
  helpers of \<open>runtime/test*\<close> carry no state of the runtime. The typed variants (\<open>from_collector\<close>) of the operators
  build the same operators over other collectors.
\<close>

end
